(* ===== verification/Makar_Prelude.thy ===== *)
theory Makar_Prelude
  imports Main "HOL-Library.Word"
begin

text \<open>
  Shared vocabulary of the development: names for the C integer types, the
  collections of rewrite rules that carry the component proofs, arithmetic of machine
  words (single-bit masks, page alignment), and the doubly linked lists that the kernel
  threads through arrays of descriptors (the buddy free lists of
  \<^verbatim>\<open>mm/pmm.c\<close> and the LRU list of \<^verbatim>\<open>mm/pagecache.c\<close>).
\<close>

unbundle bit_operations_syntax

type_synonym u8 = "8 word"
type_synonym u16 = "16 word"
type_synonym u32 = "32 word"
type_synonym u64 = "64 word"

named_theorems frame_simps \<open>what an operation leaves unchanged\<close>
named_theorems word_facts \<open>conversions between words and naturals\<close>

section \<open>Single-bit words\<close>

lemma unat_bit32 [word_facts]: "n < 32 \<Longrightarrow> unat (2 ^ n :: u32) = 2 ^ n"
proof -
  assume n: "n < 32"
  have "unat (push_bit n (1::u32)) = take_bit LENGTH(32) (push_bit n 1)"
    by (simp only: unsigned_push_bit_eq unsigned_1)
  with n show ?thesis by (simp add: take_bit_nat_eq_self)
qed

lemma unat_eq_iff [simp]: "unat (a :: 'a::len word) = unat b \<longleftrightarrow> a = b"
  by (auto intro: unsigned_word_eqI)

lemma or_and_same_bit: "(x OR 1) AND (1::u8) = 1"
  by (rule bit_word_eqI) (auto simp: bit_simps)

lemma and_not_and_same_bit: "(x AND - 2) AND (1::u8) = 0"
proof -
  have "(x AND NOT 1) AND (1::u8) = 0"
    by (rule bit_word_eqI) (auto simp: bit_simps)
  then show ?thesis by simp
qed

lemma of_nat_u8_inj: "a < 256 \<Longrightarrow> b < 256 \<Longrightarrow> (of_nat a :: u8) = of_nat b \<longleftrightarrow> a = b"
  by (simp add: word_of_nat_eq_iff take_bit_nat_eq_self)

lemma next_page_number: "ucast ((addr + 0x1000) div 0x1000 :: u64) = (ucast (addr div 0x1000) + 1 :: u32)"
proof -
  have "x mod (4096 * 2 ^ 52) div 4096 = x div 4096 mod 2 ^ 52" for x :: nat
    by (simp only: mod_mult2_eq)
  from this [of "unat addr + 4096"]
  have "(unat addr + 4096) mod (4096 * 2 ^ 52) div 4096 = (unat addr div 4096 + 1) mod 2 ^ 52"
    by (simp only: div_add_self2 zero_neq_numeral [symmetric] not_False_eq_True)
  then have "unat ((addr + 0x1000) div 0x1000 :: u64) = (unat addr div 4096 + 1) mod 2 ^ 52"
    by (simp add: unat_div unat_word_ariths)
  then have "unat (ucast ((addr + 0x1000) div 0x1000 :: u64) :: u32) = (unat addr div 4096 + 1) mod 2 ^ 52 mod 2 ^ 32"
    by (simp add: unsigned_ucast_eq take_bit_eq_mod)
  also have "\<dots> = (unat addr div 4096 + 1) mod 2 ^ 32" by (simp add: mod_mod_cancel)
  also have "\<dots> = unat (ucast (addr div 0x1000) + 1 :: u32)"
    using mod_less [of "unat addr div 4096" "2 ^ 64"] unsigned_less [where ?'a = nat, of addr]
    by (simp add: unat_word_ariths unsigned_ucast_eq take_bit_eq_mod unat_div mod_Suc_eq)
  finally show ?thesis by simp
qed

section \<open>Page alignment\<close>

lemma unat_clear_low: "unat (push_bit n (drop_bit n (x :: 'a::len word))) = unat x div 2 ^ n * 2 ^ n"
proof -
  have "unat x div 2 ^ n * 2 ^ n < 2 ^ LENGTH('a)"
    using unsigned_less [where ?'a = nat, of x] by (meson div_times_less_eq_dividend order_le_less_trans)
  moreover have "unat (push_bit n (drop_bit n x)) = take_bit LENGTH('a) (push_bit n (drop_bit n (unat x)))"
    by (simp add: unsigned_push_bit_eq unsigned_drop_bit_eq take_bit_nat_eq_self)
  ultimately show ?thesis
    by (simp add: push_bit_eq_mult drop_bit_eq_div take_bit_nat_eq_self)
qed

lemma clear_low_bits: "x AND NOT (mask n) = push_bit n (drop_bit n (x :: 'a::len word))"
  by (rule bit_word_eqI) (auto simp: bit_simps)

lemma unat_page_base64: "unat ((x :: u64) AND NOT 0xFFF) = unat x div 4096 * 4096"
proof -
  have "x AND NOT (mask 12) = push_bit 12 (drop_bit 12 x)" by (rule clear_low_bits)
  moreover have "mask 12 = (0xFFF :: u64)" by (simp add: mask_eq_exp_minus_1)
  ultimately show ?thesis using unat_clear_low [of 12 x] by simp
qed

lemma unat_page_base: "unat ((x :: u32) AND NOT 0xFFF) = unat x div 4096 * 4096"
proof -
  have "x AND NOT (mask 12) = push_bit 12 (drop_bit 12 x)" by (rule clear_low_bits)
  moreover have "mask 12 = (0xFFF :: u32)" by (simp add: mask_eq_exp_minus_1)
  ultimately show ?thesis using unat_clear_low [of 12 x] by simp
qed

lemma page_offset: "unat ((x :: u32) AND 0xFFF) = unat x mod 4096"
proof -
  have "x AND 0xFFF = take_bit 12 x" by (simp add: take_bit_eq_mask mask_eq_exp_minus_1)
  then have "unat (x AND 0xFFF) = take_bit 12 (unat x)" by (simp only: unsigned_take_bit_eq)
  then show ?thesis by (simp add: take_bit_eq_mod)
qed

lemma page_offset_zero: "unat (x :: u32) = k * 4096 \<Longrightarrow> x AND 0xFFF = 0"
  using page_offset [of x] by (metis mod_mult_self2_is_0 unat_eq_0)

section \<open>Little-endian loads\<close>

type_synonym bytes = "u32 \<Rightarrow> u8"

definition ld16 :: "bytes \<Rightarrow> u32 \<Rightarrow> u16" where
  "ld16 m a = ucast (m a) OR push_bit 8 (ucast (m (a + 1)))"

definition ld32 :: "bytes \<Rightarrow> u32 \<Rightarrow> u32" where
  "ld32 m a = ucast (m a) OR push_bit 8 (ucast (m (a + 1))) OR
     push_bit 16 (ucast (m (a + 2))) OR push_bit 24 (ucast (m (a + 3)))"

definition ld64 :: "bytes \<Rightarrow> u32 \<Rightarrow> u64" where
  "ld64 m a = ucast (ld32 m a) OR push_bit 32 (ucast (ld32 m (a + 4)))"

section \<open>Doubly linked segments\<close>

text \<open>
  \<open>dseg nil nx pv p x as q y\<close>: starting at \<open>x\<close>, whose predecessor is \<open>p\<close>,
  the next-links visit exactly the nodes \<open>as\<close> and arrive at \<open>y\<close>, whose predecessor
  is \<open>q\<close>; no node is the sentinel and every prev-link names the node before.
\<close>

primrec dseg ::
  "'a \<Rightarrow> ('a \<Rightarrow> 'a) \<Rightarrow> ('a \<Rightarrow> 'a) \<Rightarrow> 'a \<Rightarrow> 'a \<Rightarrow> 'a list \<Rightarrow> 'a \<Rightarrow> 'a \<Rightarrow> bool" where
  "dseg nil nx pv p x [] q y \<longleftrightarrow> p = q \<and> x = y"
| "dseg nil nx pv p x (a # as) q y \<longleftrightarrow>
     x = a \<and> a \<noteq> nil \<and> pv a = p \<and> dseg nil nx pv a (nx a) as q y"

lemma dseg_append:
  "dseg nil nx pv p x (as @ bs) q y \<longleftrightarrow>
     (\<exists>r w. dseg nil nx pv p x as r w \<and> dseg nil nx pv r w bs q y)"
  by (induction as arbitrary: p x) auto

lemma dseg_cong:
  assumes "dseg nil nx pv p x as q y"
    and "\<And>a. a \<in> set as \<Longrightarrow> nx' a = nx a" and "\<And>a. a \<in> set as \<Longrightarrow> pv' a = pv a"
  shows "dseg nil nx' pv' p x as q y"
  using assms by (induction as arbitrary: p x) auto

lemma dseg_last: "dseg nil nx pv p x as q y \<Longrightarrow> as \<noteq> [] \<Longrightarrow> q = last as"
  by (induction as arbitrary: p x) (auto split: if_splits)

lemma dseg_hd: "dseg nil nx pv p x as q y \<Longrightarrow> as \<noteq> [] \<Longrightarrow> x = hd as"
  by (cases as) auto

lemma dseg_not_nil: "dseg nil nx pv p x as q y \<Longrightarrow> a \<in> set as \<Longrightarrow> a \<noteq> nil"
  by (induction as arbitrary: p x) auto

lemma dseg_Nil_iff: "dseg nil nx pv nil x as q nil \<Longrightarrow> x = nil \<longleftrightarrow> as = []"
  by (cases as) auto

lemma dseg_neighbours:
  assumes "dseg nil nx pv nil x (as @ a # bs) q nil"
  shows "pv a = nil \<or> as \<noteq> [] \<and> pv a = last as" and "nx a = nil \<or> bs \<noteq> [] \<and> nx a = hd bs"
proof -
  from assms obtain r where as: "dseg nil nx pv nil x as r a" and "pv a = r"
    and bs: "dseg nil nx pv a (nx a) bs q nil" by (auto simp: dseg_append)
  then show "pv a = nil \<or> as \<noteq> [] \<and> pv a = last as"
    by (cases "as = []") (auto dest: dseg_last)
  show "nx a = nil \<or> bs \<noteq> [] \<and> nx a = hd bs"
    using bs by (cases bs) auto
qed

text \<open>Redirecting the last next-link and the first prev-link of a segment.\<close>

lemma dseg_relink_last:
  assumes "dseg nil nx pv p x as q y" and "as \<noteq> []" and "distinct as"
  shows "dseg nil (nx(q := z)) pv p x as q z"
  using assms
proof (induction as arbitrary: p x)
  case Nil
  then show ?case by simp
next
  case (Cons a as)
  show ?case
  proof (cases "as = []")
    case True
    with Cons.prems show ?thesis by auto
  next
    case False
    with Cons.prems have "q \<in> set as" by (metis dseg.simps(2) dseg_last last_in_set)
    with Cons.prems have "a \<noteq> q" by auto
    with Cons False show ?thesis by auto
  qed
qed

lemma dseg_relink_first:
  assumes "dseg nil nx pv p x as q y" and "as \<noteq> []" and "distinct as"
  shows "dseg nil nx (pv(x := r)) r x as q y"
  using assms by (cases as) (auto intro: dseg_cong)

text \<open>
  Insertion at the head and removal of an inner node, phrased by what the links look
  like afterwards, so that any record update with this effect can use them.
\<close>

lemma dseg_push:
  assumes d: "dseg nil nx pv nil x as q nil" and a: "a \<notin> set as" "a \<noteq> nil"
    and dist: "distinct as"
    and "nx' a = x" "pv' a = nil"
    and nx: "\<And>b. b \<in> set as \<Longrightarrow> nx' b = nx b"
    and pvx: "x \<noteq> nil \<Longrightarrow> pv' x = a"
    and pv: "\<And>b. b \<in> set as \<Longrightarrow> b \<noteq> x \<Longrightarrow> pv' b = pv b"
  shows "\<exists>q'. dseg nil nx' pv' nil a (a # as) q' nil"
proof (cases as)
  case Nil
  with assms show ?thesis by auto
next
  case (Cons b bs)
  with d have x: "x = b" "b \<noteq> nil" by auto
  have "dseg nil nx (pv(x := a)) a x as q nil"
    using Cons dseg_relink_first [OF d _ dist] by auto
  then have "dseg nil nx' pv' a x as q nil"
    by (rule dseg_cong) (use nx pv pvx x in auto)
  with assms show ?thesis by auto
qed

lemma dseg_remove:
  assumes d: "dseg nil nx pv nil x (as @ a # bs) q nil" and dist: "distinct (as @ a # bs)"
    and nxp: "pv a \<noteq> nil \<Longrightarrow> nx' (pv a) = nx a"
    and x': "x' = (if pv a \<noteq> nil then x else nx a)"
    and pvn: "nx a \<noteq> nil \<Longrightarrow> pv' (nx a) = pv a"
    and nx: "\<And>b. b \<in> set (as @ bs) \<Longrightarrow> b \<noteq> pv a \<Longrightarrow> nx' b = nx b"
    and pv: "\<And>b. b \<in> set (as @ bs) \<Longrightarrow> b \<noteq> nx a \<Longrightarrow> pv' b = pv b"
  shows "\<exists>q'. dseg nil nx' pv' nil x' (as @ bs) q' nil"
proof -
  from d obtain r where as: "dseg nil nx pv nil x as r a" and "pv a = r"
    and bs: "dseg nil nx pv a (nx a) bs q nil" by (auto simp: dseg_append)
  note r = \<open>pv a = r\<close>
  have "r \<noteq> nil \<longleftrightarrow> as \<noteq> []"
    using as by (metis dseg.simps(1) dseg_last dseg_not_nil last_in_set)
  have "dseg nil nx' pv' nil x' as r (nx a)"
  proof (cases "as = []")
    case True
    with as \<open>r \<noteq> nil \<longleftrightarrow> as \<noteq> []\<close> x' r show ?thesis by auto
  next
    case False
    have "dseg nil (nx(r := nx a)) pv nil x as r (nx a)"
      using dseg_relink_last [OF as False] dist by auto
    moreover have "b \<in> set as \<Longrightarrow> b \<noteq> nx a" for b
    proof (cases "bs = []")
      case True
      with bs have "nx a = nil" by auto
      then show "b \<in> set as \<Longrightarrow> b \<noteq> nx a" using dseg_not_nil [OF as] by auto
    next
      case False
      then have "nx a \<in> set bs" using dseg_hd [OF bs] by (metis list.set_sel(1))
      then show "b \<in> set as \<Longrightarrow> b \<noteq> nx a" using dist by auto
    qed
    ultimately have "dseg nil nx' pv' nil x as r (nx a)"
      using dseg_cong [where nx' = nx' and pv' = pv'] nx pv nxp r \<open>r \<noteq> nil \<longleftrightarrow> as \<noteq> []\<close> False
      by (metis (no_types, lifting) Un_iff fun_upd_apply set_append)
    with x' r \<open>r \<noteq> nil \<longleftrightarrow> as \<noteq> []\<close> False show ?thesis by simp
  qed
  moreover have "\<exists>q'. dseg nil nx' pv' r (nx a) bs q' nil"
  proof (cases "bs = []")
    case True
    with bs show ?thesis by auto
  next
    case False
    then have n: "nx a = hd bs" "nx a \<in> set bs" "nx a \<noteq> nil"
      using dseg_hd [OF bs] dseg_not_nil [OF bs] by (auto simp: list.set_sel)
    have "b \<in> set bs \<Longrightarrow> b \<noteq> r" for b
      using as dist dseg_last [OF as] \<open>r \<noteq> nil \<longleftrightarrow> as \<noteq> []\<close> dseg_not_nil [OF bs]
      by (metis distinct_append disjoint_iff last_in_set list.set_intros(2))
    moreover have "dseg nil nx (pv(nx a := r)) r (nx a) bs q nil"
      using dseg_relink_first [OF bs False] dist by auto
    ultimately have "dseg nil nx' pv' r (nx a) bs q nil"
      by (elim dseg_cong) (use nx pv pvn r n in auto)
    then show ?thesis by blast
  qed
  ultimately show ?thesis by (auto simp: dseg_append)
qed

end
