(* ===== verification/Pmm.thy ===== *)
theory Pmm
  imports Makar_Prelude
begin

text \<open>
  The physical memory manager, \<^verbatim>\<open>src/kernel/arch/i386/mm/pmm.c\<close>: a buddy allocator
  over a table of page descriptors. The descriptor table and the heads of the free
  lists are functions from array indices; the lists are threaded through the
  \<open>next\<close>/\<open>prev\<close> fields of the descriptors exactly as in the code. Every public
  operation runs with interrupts disabled, so each is one atomic step of the model; the
  log messages are left out.
\<close>

section \<open>State\<close>

abbreviation PMM_FRAME_SIZE :: u32 where "PMM_FRAME_SIZE \<equiv> 0x1000"
abbreviation PMM_ALLOC_ERROR :: u32 where "PMM_ALLOC_ERROR \<equiv> 0xFFFFFFFF"
abbreviation PMM_MAX_ORDER :: nat where "PMM_MAX_ORDER \<equiv> 11"
abbreviation PMM_MAX_FRAMES :: u32 where "PMM_MAX_FRAMES \<equiv> 0x10000"
abbreviation PMM_NIL :: u32 where "PMM_NIL \<equiv> 0xFFFFFFFF"
abbreviation PG_BUDDY :: u8 where "PG_BUDDY \<equiv> 1"

record page_t =
  pg_next :: u32
  pg_prev :: u32
  pg_order :: u8
  pg_refcount :: u8
  pg_flags :: u8

record pmm =
  mem_map :: "u32 \<Rightarrow> page_t"
  free_lists :: "nat \<Rightarrow> u32"
  s_max_frames :: u32
  s_free_frames :: u32
  s_total_managed_frames :: u32

definition upd_page :: "u32 \<Rightarrow> (page_t \<Rightarrow> page_t) \<Rightarrow> pmm \<Rightarrow> pmm" where
  "upd_page f g s = s\<lparr>mem_map := (mem_map s)(f := g (mem_map s f))\<rparr>"

section \<open>Free-list primitives\<close>

definition list_add :: "nat \<Rightarrow> u32 \<Rightarrow> pmm \<Rightarrow> pmm" where
  "list_add order f s =
     (let head = free_lists s order;
          s = upd_page f (\<lambda>p. p\<lparr>pg_next := head, pg_prev := PMM_NIL\<rparr>) s;
          s = (if head \<noteq> PMM_NIL then upd_page head (\<lambda>p. p\<lparr>pg_prev := f\<rparr>) s else s);
          s = s\<lparr>free_lists := (free_lists s)(order := f)\<rparr>
      in upd_page f (\<lambda>p. p\<lparr>pg_order := of_nat order, pg_flags := pg_flags p OR PG_BUDDY\<rparr>) s)"

definition list_del :: "nat \<Rightarrow> u32 \<Rightarrow> pmm \<Rightarrow> pmm" where
  "list_del order f s =
     (let p = pg_prev (mem_map s f);
          n = pg_next (mem_map s f);
          s = (if p \<noteq> PMM_NIL then upd_page p (\<lambda>q. q\<lparr>pg_next := n\<rparr>) s
               else s\<lparr>free_lists := (free_lists s)(order := n)\<rparr>);
          s = (if n \<noteq> PMM_NIL then upd_page n (\<lambda>q. q\<lparr>pg_prev := p\<rparr>) s else s)
      in upd_page f (\<lambda>q. q\<lparr>pg_flags := pg_flags q AND NOT PG_BUDDY\<rparr>) s)"

definition buddy_is_free :: "pmm \<Rightarrow> u32 \<Rightarrow> nat \<Rightarrow> bool" where
  "buddy_is_free s b order \<longleftrightarrow>
     b < s_max_frames s \<and> pg_flags (mem_map s b) AND PG_BUDDY \<noteq> 0 \<and>
     pg_order (mem_map s b) = of_nat order"

text \<open>The coalescing loop of \<^verbatim>\<open>buddy_free\<close>: the state, head and order it ends with.\<close>

function buddy_coalesce :: "pmm \<Rightarrow> u32 \<Rightarrow> nat \<Rightarrow> pmm \<times> u32 \<times> nat" where
  "buddy_coalesce s f order =
     (if order < PMM_MAX_ORDER - 1 then
        let buddy = f XOR push_bit order 1 in
        if \<not> buddy_is_free s buddy order then (s, f, order)
        else buddy_coalesce (list_del order buddy s) (if buddy < f then buddy else f) (Suc order)
      else (s, f, order))"
  by pat_completeness auto
termination
  by (relation "measure (\<lambda>(s, f, order). PMM_MAX_ORDER - order)") auto

declare buddy_coalesce.simps [simp del]

definition buddy_free :: "u32 \<Rightarrow> nat \<Rightarrow> pmm \<Rightarrow> pmm" where
  "buddy_free f order s =
     (let s = s\<lparr>s_free_frames := s_free_frames s + push_bit order 1\<rparr>;
          (s, f, order) = buddy_coalesce s f order;
          s = upd_page f (\<lambda>p. p\<lparr>pg_refcount := 0\<rparr>) s
      in list_add order f s)"

section \<open>Allocation\<close>

function find_order :: "pmm \<Rightarrow> nat \<Rightarrow> nat" where
  "find_order s ord =
     (if ord < PMM_MAX_ORDER \<and> free_lists s ord = PMM_NIL then find_order s (Suc ord) else ord)"
  by pat_completeness auto
termination
  by (relation "measure (\<lambda>(s, ord). PMM_MAX_ORDER - ord)") auto

declare find_order.simps [simp del]

function split_down :: "pmm \<Rightarrow> u32 \<Rightarrow> nat \<Rightarrow> nat \<Rightarrow> pmm" where
  "split_down s f ord order =
     (if order < ord then
        let ord = ord - 1; buddy = f + push_bit ord 1
        in split_down (list_add ord buddy s) f ord order
      else s)"
  by pat_completeness auto
termination
  by (relation "measure (\<lambda>(s, f, ord, order). ord)") auto

declare split_down.simps [simp del]

definition pmm_alloc_pages :: "nat \<Rightarrow> pmm \<Rightarrow> u32 \<times> pmm" where
  "pmm_alloc_pages order s =
     (if order \<ge> PMM_MAX_ORDER then (PMM_ALLOC_ERROR, s)
      else
        let ord = find_order s order in
        if ord \<ge> PMM_MAX_ORDER then (PMM_ALLOC_ERROR, s)
        else
          let f = free_lists s ord;
              s = list_del ord f s;
              s = split_down s f ord order;
              s = upd_page f (\<lambda>p. p\<lparr>pg_order := of_nat order, pg_refcount := 1,
                                    pg_flags := pg_flags p AND NOT PG_BUDDY\<rparr>) s;
              s = s\<lparr>s_free_frames := s_free_frames s - push_bit order 1\<rparr>
          in (f * PMM_FRAME_SIZE, s))"

definition pmm_alloc_frame :: "pmm \<Rightarrow> u32 \<times> pmm" where
  "pmm_alloc_frame s = pmm_alloc_pages 0 s"

section \<open>Freeing and reference counting\<close>

definition pmm_free_pages :: "u32 \<Rightarrow> nat \<Rightarrow> pmm \<Rightarrow> pmm" where
  "pmm_free_pages addr order s =
     (let f = addr div PMM_FRAME_SIZE in
      if f \<ge> s_max_frames s then s
      else if pg_refcount (mem_map s f) = 0 then s
      else
        let s = upd_page f (\<lambda>p. p\<lparr>pg_refcount := pg_refcount p - 1\<rparr>) s in
        if pg_refcount (mem_map s f) = 0
        then buddy_free f (unat (pg_order (mem_map s f))) s
        else s)"

definition pmm_free_frame :: "u32 \<Rightarrow> pmm \<Rightarrow> pmm" where
  "pmm_free_frame addr s = pmm_free_pages addr 0 s"

definition pmm_inc_ref :: "u32 \<Rightarrow> pmm \<Rightarrow> pmm" where
  "pmm_inc_ref addr s =
     (let frame = addr div PMM_FRAME_SIZE in
      if frame \<ge> s_max_frames s then s
      else if pg_refcount (mem_map s frame) = 0 then s
      else if pg_refcount (mem_map s frame) = 0xFF then s
      else upd_page frame (\<lambda>p. p\<lparr>pg_refcount := pg_refcount p + 1\<rparr>) s)"

definition pmm_ref_count :: "u32 \<Rightarrow> pmm \<Rightarrow> u8" where
  "pmm_ref_count addr s =
     (let frame = addr div PMM_FRAME_SIZE in
      if frame \<ge> s_max_frames s then 0 else pg_refcount (mem_map s frame))"

definition pmm_managed_count :: "pmm \<Rightarrow> u32" where
  "pmm_managed_count s = s_total_managed_frames s"

definition pmm_free_count :: "pmm \<Rightarrow> u32" where
  "pmm_free_count s = s_free_frames s"

text \<open>The loop counts down from the top order; \<open>PMM_MAX_ORDER\<close> means an empty pool.\<close>

fun largest_free_below :: "pmm \<Rightarrow> nat \<Rightarrow> nat" where
  "largest_free_below s 0 = PMM_MAX_ORDER"
| "largest_free_below s (Suc n) =
     (if free_lists s n \<noteq> PMM_NIL then n else largest_free_below s n)"

definition pmm_largest_free_order :: "pmm \<Rightarrow> nat" where
  "pmm_largest_free_order s = largest_free_below s PMM_MAX_ORDER"

section \<open>Initialisation\<close>

abbreviation MULTIBOOT2_BOOTLOADER_MAGIC :: u32 where "MULTIBOOT2_BOOTLOADER_MAGIC \<equiv> 0x36D76289"
abbreviation MULTIBOOT2_TAG_TYPE_END :: u32 where "MULTIBOOT2_TAG_TYPE_END \<equiv> 0"
abbreviation MULTIBOOT2_TAG_TYPE_MMAP :: u32 where "MULTIBOOT2_TAG_TYPE_MMAP \<equiv> 6"
abbreviation MULTIBOOT2_MEMORY_AVAILABLE :: u32 where "MULTIBOOT2_MEMORY_AVAILABLE \<equiv> 1"

text \<open>
  The search for the memory-map tag follows the tags in the boot information at address
  \<open>tag_ptr\<close> of the byte memory \<open>m\<close>. A tag of size 0 makes the loop spin forever, so
  the outer option is termination; the inner one is the \<open>mmap_tag\<close> pointer.
\<close>

partial_function (option) find_mmap_tag :: "bytes \<Rightarrow> u32 \<Rightarrow> u32 \<Rightarrow> u32 option option" where
  "find_mmap_tag m tag_ptr info_end =
     (if tag_ptr < info_end then
        if ld32 m tag_ptr = MULTIBOOT2_TAG_TYPE_END then Some None
        else if ld32 m tag_ptr = MULTIBOOT2_TAG_TYPE_MMAP then Some (Some tag_ptr)
        else find_mmap_tag m (tag_ptr + ((ld32 m (tag_ptr + 4) + 7) AND NOT 7)) info_end
      else Some None)"

text \<open>
  The inner loop over one available region. \<open>(uint32_t)(addr / PMM_FRAME_SIZE)\<close> is
  increased by one in every round and the loop stops at \<open>PMM_MAX_FRAMES\<close>, so it always
  terminates, whatever the region.
\<close>

function free_region :: "u32 \<Rightarrow> u64 \<Rightarrow> u64 \<Rightarrow> pmm \<Rightarrow> pmm" where
  "free_region kend addr region_end s =
     (if addr < region_end then
        let f = ucast (addr div 0x1000) :: u32 in
        if f \<ge> PMM_MAX_FRAMES then s
        else if f = 0 \<or> (f \<ge> 0x100000 div PMM_FRAME_SIZE \<and> f < kend)
        then free_region kend (addr + 0x1000) region_end s
        else
          let s = (if f + 1 > s_max_frames s then s\<lparr>s_max_frames := f + 1\<rparr> else s)
          in free_region kend (addr + 0x1000) region_end (buddy_free f 0 s)
      else s)"
  by pat_completeness auto
termination
proof (relation "measure (\<lambda>(kend, addr, region_end, s).
    65536 - unat (ucast (addr div 0x1000) :: u32))", goal_cases)
  case 1
  show ?case by simp
next
  case (2 kend addr region_end s f)
  then have "unat f < 65536" by (simp add: not_le word_less_nat_alt)
  moreover have "unat (f + 1) = unat f + 1" using calculation by (simp add: unat_word_ariths)
  ultimately show ?case using 2 by (simp add: next_page_number)
next
  case (3 kend addr region_end s f s')
  then have "unat f < 65536" by (simp add: not_le word_less_nat_alt)
  moreover have "unat (f + 1) = unat f + 1" using calculation by (simp add: unat_word_ariths)
  ultimately show ?case using 3 by (simp add: next_page_number)
qed

declare free_region.simps [simp del]

definition free_entry :: "u32 \<Rightarrow> u64 \<times> u64 \<times> u32 \<Rightarrow> pmm \<Rightarrow> pmm" where
  "free_entry kend = (\<lambda>(base_addr, len, typ) s.
     if typ = MULTIBOOT2_MEMORY_AVAILABLE
     then free_region kend ((base_addr + 0x1000 - 1) AND NOT 0xFFF) ((base_addr + len) AND NOT 0xFFF) s
     else s)"

definition ld_mmap_entry :: "bytes \<Rightarrow> u32 \<Rightarrow> u64 \<times> u64 \<times> u32" where
  "ld_mmap_entry m p = (ld64 m p, ld64 m (p + 8), ld32 m (p + 16))"

text \<open>The loop over the memory-map entries; an entry size of 0 never ends.\<close>

partial_function (option) free_entries :: "bytes \<Rightarrow> u32 \<Rightarrow> u32 \<Rightarrow> u32 \<Rightarrow> u32 \<Rightarrow> pmm \<Rightarrow> pmm option" where
  "free_entries m kend entry_ptr mmap_end entry_size s =
     (if entry_ptr < mmap_end
      then free_entries m kend (entry_ptr + entry_size) mmap_end entry_size
             (free_entry kend (ld_mmap_entry m entry_ptr) s)
      else Some s)"

definition page0 :: page_t where
  "page0 = \<lparr>pg_next = 0, pg_prev = 0, pg_order = 0, pg_refcount = 0, pg_flags = 0\<rparr>"

definition pmm_reset :: "pmm \<Rightarrow> pmm" where
  "pmm_reset s = s\<lparr>mem_map := \<lambda>_. page0, free_lists := \<lambda>_. PMM_NIL, s_max_frames := 0, s_free_frames := 0\<rparr>"

definition pmm_init :: "u32 \<Rightarrow> bytes \<Rightarrow> u32 \<Rightarrow> u32 \<Rightarrow> pmm \<Rightarrow> pmm option" where
  "pmm_init kernel_phys_end m magic mbi s =
     (let s = pmm_reset s in
      if magic \<noteq> MULTIBOOT2_BOOTLOADER_MAGIC then Some s
      else
        case find_mmap_tag m (mbi + 8) (mbi + ld32 m mbi) of
          None \<Rightarrow> None
        | Some None \<Rightarrow> Some s
        | Some (Some mmap_tag) \<Rightarrow>
            let kend = (kernel_phys_end + PMM_FRAME_SIZE - 1) div PMM_FRAME_SIZE in
            (case free_entries m kend (mmap_tag + 16) (mmap_tag + ld32 m (mmap_tag + 4))
                    (ld32 m (mmap_tag + 8)) s of
               None \<Rightarrow> None
             | Some s \<Rightarrow> Some (s\<lparr>s_total_managed_frames := s_free_frames s\<rparr>)))"

end
