(* ===== verification/Pmm_Lists.thy ===== *)
theory Pmm_Lists
  imports Pmm
begin

text \<open>
  The free lists of the buddy allocator: what \<open>list_add\<close> and \<open>list_del\<close> do to the
  descriptor fields, and that both keep every list a well-formed doubly linked list
  whose nodes are exactly the frames flagged free at that order.
\<close>

section \<open>Free heads\<close>

definition is_buddy :: "page_t \<Rightarrow> bool" where
  "is_buddy p \<longleftrightarrow> pg_flags p AND PG_BUDDY \<noteq> 0"

text \<open>The frames below the managed limit that are flagged as free heads of order \<open>n\<close>.\<close>

definition free_heads :: "pmm \<Rightarrow> nat \<Rightarrow> u32 set" where
  "free_heads s n =
     {f. f < s_max_frames s \<and> is_buddy (mem_map s f) \<and> pg_order (mem_map s f) = of_nat n}"

definition on_list :: "pmm \<Rightarrow> nat \<Rightarrow> u32 list \<Rightarrow> bool" where
  "on_list s n xs \<longleftrightarrow>
     (\<exists>q. dseg PMM_NIL (\<lambda>a. pg_next (mem_map s a)) (\<lambda>a. pg_prev (mem_map s a))
            PMM_NIL (free_lists s n) xs q PMM_NIL)"

definition lists_ok :: "pmm \<Rightarrow> bool" where
  "lists_ok s \<longleftrightarrow>
     (\<forall>n < PMM_MAX_ORDER. \<exists>xs. on_list s n xs \<and> distinct xs \<and> set xs = free_heads s n)"

lemma upd_page_sel [simp]:
  "mem_map (upd_page f g s) = (mem_map s)(f := g (mem_map s f))"
  "free_lists (upd_page f g s) = free_lists s"
  "s_max_frames (upd_page f g s) = s_max_frames s"
  "s_free_frames (upd_page f g s) = s_free_frames s"
  "s_total_managed_frames (upd_page f g s) = s_total_managed_frames s"
  by (simp_all add: upd_page_def)

lemma is_buddy_upd [simp]:
  "is_buddy (p\<lparr>pg_next := a\<rparr>) = is_buddy p"
  "is_buddy (p\<lparr>pg_prev := a\<rparr>) = is_buddy p"
  "is_buddy (p\<lparr>pg_order := r\<rparr>) = is_buddy p"
  "is_buddy (p\<lparr>pg_refcount := c\<rparr>) = is_buddy p"
  "is_buddy (p\<lparr>pg_flags := w OR PG_BUDDY\<rparr>)"
  "\<not> is_buddy (p\<lparr>pg_flags := w AND - 2\<rparr>)"
  by (simp_all add: is_buddy_def or_and_same_bit and_not_and_same_bit)

lemma buddy_is_free_heads: "buddy_is_free s b n \<longleftrightarrow> b \<in> free_heads s n"
  by (simp add: buddy_is_free_def free_heads_def is_buddy_def)

lemma free_heads_order_unique:
  "f \<in> free_heads s a \<Longrightarrow> f \<in> free_heads s b \<Longrightarrow> a < 256 \<Longrightarrow> b < 256 \<Longrightarrow> a = b"
  by (auto simp: free_heads_def of_nat_u8_inj)

section \<open>Field effects of the list primitives\<close>

lemma list_add_sel [simp]:
  "s_max_frames (list_add n f s) = s_max_frames s"
  "s_free_frames (list_add n f s) = s_free_frames s"
  "s_total_managed_frames (list_add n f s) = s_total_managed_frames s"
  "free_lists (list_add n f s) = (free_lists s)(n := f)"
  by (simp_all add: list_add_def Let_def)

lemma list_add_page:
  assumes "f \<noteq> free_lists s n"
  shows "mem_map (list_add n f s) g =
    (if g = f then (mem_map s f)\<lparr>pg_next := free_lists s n, pg_prev := PMM_NIL,
        pg_order := of_nat n, pg_flags := pg_flags (mem_map s f) OR PG_BUDDY\<rparr>
     else if g = free_lists s n \<and> g \<noteq> PMM_NIL then (mem_map s g)\<lparr>pg_prev := f\<rparr>
     else mem_map s g)"
  using assms by (auto simp: list_add_def Let_def)

lemma list_del_sel [simp]:
  "s_max_frames (list_del n f s) = s_max_frames s"
  "s_free_frames (list_del n f s) = s_free_frames s"
  "s_total_managed_frames (list_del n f s) = s_total_managed_frames s"
  "free_lists (list_del n f s) =
     (if pg_prev (mem_map s f) \<noteq> PMM_NIL then free_lists s
      else (free_lists s)(n := pg_next (mem_map s f)))"
  by (simp_all add: list_del_def Let_def)

lemma list_del_fields [simp]:
  "pg_refcount (mem_map (list_del n f s) g) = pg_refcount (mem_map s g)"
  "pg_order (mem_map (list_del n f s) g) = pg_order (mem_map s g)"
  "is_buddy (mem_map (list_del n f s) g) \<longleftrightarrow> g \<noteq> f \<and> is_buddy (mem_map s g)"
  by (auto simp: list_del_def Let_def)

lemma list_del_next:
  "g \<noteq> f \<Longrightarrow> pg_next (mem_map (list_del n f s) g) =
     (if g = pg_prev (mem_map s f) \<and> g \<noteq> PMM_NIL then pg_next (mem_map s f) else pg_next (mem_map s g))"
  by (auto simp: list_del_def Let_def)

lemma list_del_prev:
  "g \<noteq> f \<Longrightarrow> pg_prev (mem_map (list_del n f s) g) =
     (if g = pg_next (mem_map s f) \<and> g \<noteq> PMM_NIL then pg_prev (mem_map s f) else pg_prev (mem_map s g))"
  by (auto simp: list_del_def Let_def)

lemma free_heads_list_del:
  "free_heads (list_del n f s) m = free_heads s m - {f}"
  by (auto simp: free_heads_def)

section \<open>Heads and membership\<close>

lemma lists_okE:
  assumes "lists_ok s" and "n < PMM_MAX_ORDER"
  obtains xs where "on_list s n xs" and "distinct xs" and "set xs = free_heads s n"
  using assms by (auto simp: lists_ok_def)

lemma head_nil_iff:
  assumes "lists_ok s" and "n < PMM_MAX_ORDER"
  shows "free_lists s n = PMM_NIL \<longleftrightarrow> free_heads s n = {}"
proof -
  from assms obtain xs where "on_list s n xs" "set xs = free_heads s n" by (rule lists_okE)
  then show ?thesis by (auto simp: on_list_def dest: dseg_Nil_iff)
qed

lemma head_in_free_heads:
  assumes "lists_ok s" and "n < PMM_MAX_ORDER" and "free_lists s n \<noteq> PMM_NIL"
  shows "free_lists s n \<in> free_heads s n"
proof -
  from assms(1,2) obtain xs where xs: "on_list s n xs" "set xs = free_heads s n"
    by (rule lists_okE)
  with assms(3) have "xs \<noteq> []" "free_lists s n = hd xs"
    by (auto simp: on_list_def dest: dseg_Nil_iff dseg_hd)
  with xs show ?thesis by (metis list.set_sel(1))
qed

lemma max_frames_not_nil:
  "s_max_frames s \<le> PMM_MAX_FRAMES \<Longrightarrow> f < s_max_frames s \<Longrightarrow> f \<noteq> PMM_NIL"
proof
  assume "s_max_frames s \<le> PMM_MAX_FRAMES" "f < s_max_frames s" "f = PMM_NIL"
  then have "PMM_NIL < PMM_MAX_FRAMES" using order.strict_trans2 by blast
  then show False by simp
qed

section \<open>The primitives keep the lists well formed\<close>

lemma list_add_fields:
  assumes "f \<noteq> free_lists s n"
  shows "pg_refcount (mem_map (list_add n f s) g) = pg_refcount (mem_map s g)"
    and "pg_order (mem_map (list_add n f s) g) = (if g = f then of_nat n else pg_order (mem_map s g))"
    and "is_buddy (mem_map (list_add n f s) g) \<longleftrightarrow> g = f \<or> is_buddy (mem_map s g)"
  by (auto simp: list_add_page [OF assms])

lemma free_heads_list_add:
  assumes "f \<noteq> free_lists s n" and "f < s_max_frames s" and "\<not> is_buddy (mem_map s f)"
    and "n < 256" and "m < 256"
  shows "free_heads (list_add n f s) m = free_heads s m \<union> (if m = n then {f} else {})"
  using assms by (auto simp: free_heads_def list_add_fields [OF assms(1)] of_nat_u8_inj)

lemma on_list_other:
  assumes "on_list s n xs"
    and "\<And>a. a \<in> set xs \<Longrightarrow> pg_next (mem_map t a) = pg_next (mem_map s a)"
    and "\<And>a. a \<in> set xs \<Longrightarrow> pg_prev (mem_map t a) = pg_prev (mem_map s a)"
    and "free_lists t n = free_lists s n"
  shows "on_list t n xs"
proof -
  from assms(1) obtain q where "dseg PMM_NIL (\<lambda>a. pg_next (mem_map s a))
      (\<lambda>a. pg_prev (mem_map s a)) PMM_NIL (free_lists s n) xs q PMM_NIL"
    by (auto simp: on_list_def)
  then have "dseg PMM_NIL (\<lambda>a. pg_next (mem_map t a))
      (\<lambda>a. pg_prev (mem_map t a)) PMM_NIL (free_lists s n) xs q PMM_NIL"
    by (rule dseg_cong) (simp_all add: assms)
  with assms(4) show ?thesis by (auto simp: on_list_def)
qed

lemma not_buddy_not_head:
  assumes "lists_ok s" and "n < PMM_MAX_ORDER" and "\<not> is_buddy (mem_map s f)" and "f \<noteq> PMM_NIL"
  shows "f \<noteq> free_lists s n"
  using assms head_in_free_heads [OF assms(1,2)] by (auto simp: free_heads_def)

lemma lists_ok_list_add:
  assumes ok: "lists_ok s" and n: "n < PMM_MAX_ORDER" and f: "f < s_max_frames s"
    and nb: "\<not> is_buddy (mem_map s f)" and mx: "s_max_frames s \<le> PMM_MAX_FRAMES"
  shows "lists_ok (list_add n f s)"
  unfolding lists_ok_def
proof (intro allI impI)
  fix m assume m: "m < PMM_MAX_ORDER"
  have f0: "f \<noteq> PMM_NIL" using max_frames_not_nil [OF mx f] .
  have fh: "f \<noteq> free_lists s n" by (rule not_buddy_not_head [OF ok n nb f0])
  note page = list_add_page [OF fh]
  from ok m obtain xs where xs: "on_list s m xs" "distinct xs" "set xs = free_heads s m"
    by (rule lists_okE)
  have fx: "f \<notin> set xs" using xs(3) nb by (auto simp: free_heads_def)
  show "\<exists>xs. on_list (list_add n f s) m xs \<and> distinct xs \<and> set xs = free_heads (list_add n f s) m"
  proof (cases "m = n")
    case True
    from xs(1) True obtain q where "dseg PMM_NIL (\<lambda>a. pg_next (mem_map s a))
        (\<lambda>a. pg_prev (mem_map s a)) PMM_NIL (free_lists s n) xs q PMM_NIL"
      by (auto simp: on_list_def)
    then have "\<exists>q'. dseg PMM_NIL (\<lambda>a. pg_next (mem_map (list_add n f s) a))
        (\<lambda>a. pg_prev (mem_map (list_add n f s) a)) PMM_NIL f (f # xs) q' PMM_NIL"
      by (rule dseg_push) (use fx f0 xs fh in \<open>auto simp: page\<close>)
    then have "on_list (list_add n f s) m (f # xs)"
      using True by (simp add: on_list_def)
    moreover have "set (f # xs) = free_heads (list_add n f s) m"
      using free_heads_list_add [OF fh f nb] n m True xs(3) by simp
    ultimately show ?thesis using fx xs(2) by (metis distinct.simps(2))
  next
    case False
    have "free_lists s n \<notin> set xs" if "free_lists s n \<noteq> PMM_NIL"
      using head_in_free_heads [OF ok n that] xs(3) False n m
      by (auto dest: free_heads_order_unique)
    then have "on_list (list_add n f s) m xs"
      using fx False by (intro on_list_other [OF xs(1)]) (auto simp: page)
    then show ?thesis
      using free_heads_list_add [OF fh f nb] n m False xs by auto
  qed
qed

lemma lists_ok_list_del:
  assumes ok: "lists_ok s" and n: "n < PMM_MAX_ORDER" and f: "f \<in> free_heads s n"
  shows "lists_ok (list_del n f s)"
  unfolding lists_ok_def
proof (intro allI impI)
  fix m assume m: "m < PMM_MAX_ORDER"
  from ok n obtain zs where zs: "on_list s n zs" "distinct zs" "set zs = free_heads s n"
    by (rule lists_okE)
  from f zs(3) obtain as bs where split: "zs = as @ f # bs" by (metis split_list)
  from zs(1) obtain q where d: "dseg PMM_NIL (\<lambda>a. pg_next (mem_map s a))
      (\<lambda>a. pg_prev (mem_map s a)) PMM_NIL (free_lists s n) (as @ f # bs) q PMM_NIL"
    by (auto simp: on_list_def split)
  have nb: "b \<noteq> f" if "b \<in> set as \<or> b \<in> set bs" for b
    using that zs(2) split by auto
  have pn: "pg_prev (mem_map s f) \<noteq> f" "pg_next (mem_map s f) \<noteq> f"
    and mem: "pg_prev (mem_map s f) \<noteq> PMM_NIL \<Longrightarrow> pg_prev (mem_map s f) \<in> set zs"
      "pg_next (mem_map s f) \<noteq> PMM_NIL \<Longrightarrow> pg_next (mem_map s f) \<in> set zs"
    using dseg_neighbours [OF d] dseg_not_nil [OF d] zs(2) split by auto
  show "\<exists>xs. on_list (list_del n f s) m xs \<and> distinct xs \<and> set xs = free_heads (list_del n f s) m"
  proof (cases "m = n")
    case True
    have "\<exists>q'. dseg PMM_NIL (\<lambda>a. pg_next (mem_map (list_del n f s) a))
        (\<lambda>a. pg_prev (mem_map (list_del n f s) a)) PMM_NIL (free_lists (list_del n f s) n)
        (as @ bs) q' PMM_NIL"
      by (rule dseg_remove [OF d]) (use zs(2) split nb pn in
        \<open>auto simp: list_del_next list_del_prev\<close>)
    then have "on_list (list_del n f s) m (as @ bs)" using True by (simp add: on_list_def)
    moreover have "distinct (as @ bs)" "set (as @ bs) = free_heads (list_del n f s) m"
      using zs split True by (auto simp: free_heads_list_del)
    ultimately show ?thesis by blast
  next
    case False
    from ok m obtain xs where xs: "on_list s m xs" "distinct xs" "set xs = free_heads s m"
      by (rule lists_okE)
    have "set xs \<inter> set zs = {}"
      using xs(3) zs(3) False n m by (auto dest: free_heads_order_unique)
    with mem split have "pg_prev (mem_map s f) \<noteq> PMM_NIL \<Longrightarrow> pg_prev (mem_map s f) \<notin> set xs"
      "pg_next (mem_map s f) \<noteq> PMM_NIL \<Longrightarrow> pg_next (mem_map s f) \<notin> set xs" "f \<notin> set xs"
      by auto
    then have "a \<in> set xs \<Longrightarrow> pg_next (mem_map (list_del n f s) a) = pg_next (mem_map s a)"
      "a \<in> set xs \<Longrightarrow> pg_prev (mem_map (list_del n f s) a) = pg_prev (mem_map s a)" for a
      by (metis list_del_next, metis list_del_prev)
    then have "on_list (list_del n f s) m xs"
      using False by (intro on_list_other [OF xs(1)]) auto
    then show ?thesis
      using xs \<open>f \<notin> set xs\<close> by (auto simp: free_heads_list_del)
  qed
qed

end
