(* ===== verification/Pmm_Blocks.thy ===== *)
theory Pmm_Blocks
  imports Pmm_Lists
begin

text \<open>
  Arithmetic of buddy blocks: a block of order \<open>n\<close> at frame \<open>f\<close> is the interval of
  \<open>2 ^ n\<close> frames starting at \<open>f\<close>; its buddy is found by flipping bit \<open>n\<close>.
\<close>

definition blk :: "nat \<Rightarrow> nat \<Rightarrow> nat set" where
  "blk f n = {f ..< f + 2 ^ n}"

lemma blk_facts [simp]: "finite (blk f n)" "card (blk f n) = 2 ^ n" "f \<in> blk f n"
  by (auto simp: blk_def)

lemma buddy_nat:
  assumes "2 ^ n dvd (a::nat)"
  shows "a XOR 2 ^ n = (if even (a div 2 ^ n) then a + 2 ^ n else a - 2 ^ n)"
proof -
  from assms obtain k where k: "a = push_bit n k" by (auto simp: push_bit_eq_mult elim: dvdE)
  have "a XOR 2 ^ n = push_bit n (k XOR 1)"
    by (simp add: k push_bit_xor)
  also have "k XOR 1 = (if even k then k + 1 else k - 1)"
    by (auto simp: xor_Suc_0_eq)
  finally show ?thesis
    by (simp add: k push_bit_eq_mult diff_mult_distrib)
qed

lemma buddy_nat_cases:
  assumes "2 ^ n dvd (a::nat)" and "b = a XOR 2 ^ n"
  shows "2 ^ n dvd b" and "blk a n \<union> blk b n = blk (min a b) (Suc n)"
    and "2 ^ Suc n dvd min a b" and "a \<noteq> b" and "b XOR 2 ^ n = a"
proof -
  from assms(1) obtain k where k: "a = 2 ^ n * k" by (elim dvdE)
  have b: "b = (if even k then a + 2 ^ n else a - 2 ^ n)"
    using buddy_nat [OF assms(1)] assms(2) k by simp
  have a1: "2 ^ n \<le> a" if "odd k" using that k by (cases k) auto
  show "2 ^ n dvd b" using b assms(1) by auto
  have pos: "(0::nat) < 2 ^ n" by simp
  have "even k \<Longrightarrow> b = a + 2 ^ n" "odd k \<Longrightarrow> b + 2 ^ n = a" using b a1 by auto
  with pos show "a \<noteq> b" by linarith
  show "2 ^ Suc n dvd min a b"
  proof (cases "even k")
    case True
    then show ?thesis using b k by (auto simp: min_def elim: dvdE)
  next
    case False
    then obtain j where "k = 2 * j + 1" by (elim oddE)
    then have "a - 2 ^ n = 2 ^ Suc n * j" by (simp add: k algebra_simps)
    moreover have "min a b = a - 2 ^ n" using b a1 False by simp
    ultimately show ?thesis by simp
  qed
  show "blk a n \<union> blk b n = blk (min a b) (Suc n)"
    using b a1 by (auto simp: blk_def min_def split: if_splits)
  show "b XOR 2 ^ n = a" using assms(2) by (simp add: xor.assoc)
qed

lemma blk_split: "blk f (Suc n) = blk f n \<union> blk (f + 2 ^ n) n" "blk f n \<inter> blk (f + 2 ^ n) n = {}"
  by (auto simp: blk_def)

lemma blk_aligned_disjoint_or_eq:
  assumes "2 ^ n dvd a" and "2 ^ n dvd b" and "a \<noteq> b"
  shows "blk a n \<inter> blk b n = {}"
proof -
  from assms obtain i j where ij: "a = 2 ^ n * i" "b = 2 ^ n * j" "i \<noteq> j" by (auto elim!: dvdE)
  then consider "i + 1 \<le> j" | "j + 1 \<le> i" by linarith
  then show ?thesis
  proof cases
    case 1
    then have "2 ^ n * (i + 1) \<le> 2 ^ n * j" by (intro mult_le_mono2)
    then show ?thesis by (auto simp: blk_def ij algebra_simps)
  next
    case 2
    then have "2 ^ n * (j + 1) \<le> 2 ^ n * i" by (intro mult_le_mono2)
    then show ?thesis by (auto simp: blk_def ij algebra_simps)
  qed
qed

section \<open>The same for machine words\<close>

lemma unat_buddy: "n < 32 \<Longrightarrow> unat (f XOR push_bit n (1::u32)) = unat f XOR 2 ^ n"
  by (simp add: unsigned_xor_eq unat_bit32)

lemma unat_upper_half:
  assumes "n < 16" and "unat (f::u32) < 65536"
  shows "unat (f + push_bit n 1) = unat f + 2 ^ n"
proof -
  have "(2::nat) ^ n < 2 ^ 16" using assms(1) by (intro power_strict_increasing) auto
  with assms show ?thesis by (simp add: unat_word_ariths unat_bit32)
qed

section \<open>Sets of blocks\<close>

text \<open>
  A set of (head, order) pairs is well formed below a limit when every block has a
  legal order, is naturally aligned, ends below the limit and overlaps no other block.
\<close>

definition blocks_ok :: "(nat \<times> nat) set \<Rightarrow> nat \<Rightarrow> bool" where
  "blocks_ok B lim \<longleftrightarrow>
     (\<forall>f n. (f, n) \<in> B \<longrightarrow> n < PMM_MAX_ORDER \<and> 2 ^ n dvd f \<and> f + 2 ^ n \<le> lim) \<and>
     (\<forall>f n g m. (f, n) \<in> B \<longrightarrow> (g, m) \<in> B \<longrightarrow> (f, n) \<noteq> (g, m) \<longrightarrow> blk f n \<inter> blk g m = {})"

definition cover :: "(nat \<times> nat) set \<Rightarrow> nat set" where
  "cover B = (\<Union>(f, n) \<in> B. blk f n)"

lemma cover_simps [simp]:
  "cover {} = {}" "cover (insert (f, n) B) = blk f n \<union> cover B" "cover (A \<union> B) = cover A \<union> cover B"
  by (auto simp: cover_def)

lemma in_cover: "(f, n) \<in> B \<Longrightarrow> blk f n \<subseteq> cover B"
  by (auto simp: cover_def)

lemma not_in_cover: "blk f n \<inter> cover B = {} \<Longrightarrow> (f, n) \<notin> B"
  using in_cover [of f n B] blk_facts(3) [of f n] by blast

lemma blocks_okD:
  assumes "blocks_ok B lim" and "(f, n) \<in> B"
  shows "n < PMM_MAX_ORDER" and "2 ^ n dvd f" and "f + 2 ^ n \<le> lim"
    and "(g, m) \<in> B \<Longrightarrow> (f, n) \<noteq> (g, m) \<Longrightarrow> blk f n \<inter> blk g m = {}"
  using assms unfolding blocks_ok_def by blast+

lemma blocks_ok_subset: "blocks_ok B lim \<Longrightarrow> A \<subseteq> B \<Longrightarrow> blocks_ok A lim"
  unfolding blocks_ok_def by blast

lemma blocks_ok_insert:
  "blocks_ok (insert (f, n) B) lim \<longleftrightarrow>
     blocks_ok B lim \<and> n < PMM_MAX_ORDER \<and> 2 ^ n dvd f \<and> f + 2 ^ n \<le> lim \<and>
     blk f n \<inter> cover (B - {(f, n)}) = {}"
  by (fastforce simp: blocks_ok_def cover_def)

lemma blocks_ok_same_head:
  "blocks_ok B lim \<Longrightarrow> (f, n) \<in> B \<Longrightarrow> (f, m) \<in> B \<Longrightarrow> n = m"
  using blocks_okD(4) [of B lim f n f m] blk_facts(3) [of f n] blk_facts(3) [of f m] by blast

text \<open>Replacing a block and its buddy by the merged block, and a block by its halves.\<close>

lemma blocks_ok_merge:
  assumes ok: "blocks_ok (insert (a, n) B) lim" and "(b, n) \<in> B" and "(a, n) \<notin> B"
    and b: "b = a XOR 2 ^ n" and n: "Suc n < PMM_MAX_ORDER"
  shows "blocks_ok (insert (min a b, Suc n) (B - {(b, n)})) lim"
    and "(min a b, Suc n) \<notin> B - {(b, n)}"
proof -
  have al: "2 ^ n dvd a" using blocks_okD(2) [OF ok] by auto
  note bud = buddy_nat_cases [OF al b]
  have da: "blk a n \<inter> cover (B - {(b, n)}) = {}"
    using ok assms(3) by (auto simp: blocks_ok_insert cover_def)
  have db: "blk b n \<inter> cover (B - {(b, n)}) = {}"
    using ok assms(2) by (fastforce simp: blocks_ok_def cover_def)
  have dm: "blk (min a b) (Suc n) \<inter> cover (B - {(b, n)}) = {}"
    using da db bud(2) by auto
  then show new: "(min a b, Suc n) \<notin> B - {(b, n)}"
    by (rule not_in_cover)
  have "min a b + 2 ^ Suc n \<le> lim"
  proof -
    have "(0::nat) < 2 ^ Suc n" by simp
    then have "min a b + 2 ^ Suc n - 1 \<in> blk a n \<union> blk b n"
      unfolding bud(2) by (simp only: blk_def atLeastLessThan_iff) linarith
    moreover have "a + 2 ^ n \<le> lim" "b + 2 ^ n \<le> lim"
      using blocks_okD(3) [OF ok] assms(2) by auto
    ultimately show ?thesis by (auto simp: blk_def)
  qed
  moreover have "blocks_ok (B - {(b, n)}) lim"
    using ok by (rule blocks_ok_subset) auto
  ultimately show "blocks_ok (insert (min a b, Suc n) (B - {(b, n)})) lim"
    using n bud(3) dm new by (auto simp: blocks_ok_insert)
qed

lemma blocks_ok_halve:
  assumes ok: "blocks_ok (insert (a, Suc n) B) lim" and "(a, Suc n) \<notin> B"
  shows "blocks_ok (insert (a, n) (insert (a + 2 ^ n, n) B)) lim"
    and "(a, n) \<notin> insert (a + 2 ^ n, n) B" and "(a + 2 ^ n, n) \<notin> B"
proof -
  have i: "blocks_ok B lim" "Suc n < PMM_MAX_ORDER" "2 ^ Suc n dvd a" "a + 2 ^ Suc n \<le> lim"
    "blk a (Suc n) \<inter> cover B = {}"
    using ok assms(2) by (auto simp: blocks_ok_insert)
  have al: "2 ^ n dvd a" using i(3) by (metis dvd_mult_right power_Suc mult.commute dvd_mult_left)
  have d: "blk a n \<inter> cover B = {}" "blk (a + 2 ^ n) n \<inter> cover B = {}"
    using i(5) blk_split(1) [of a n] by auto
  show n1: "(a + 2 ^ n, n) \<notin> B" using d(2) by (rule not_in_cover)
  show n2: "(a, n) \<notin> insert (a + 2 ^ n, n) B"
    using not_in_cover [OF d(1)] by auto
  show "blocks_ok (insert (a, n) (insert (a + 2 ^ n, n) B)) lim"
    using i al d n1 n2 blk_split(2) [of a n] by (auto simp: blocks_ok_insert)
qed

end
