(* ===== verification/Pmm_Inv.thy ===== *)
theory Pmm_Inv
  imports Pmm_Blocks
begin

text \<open>
  The invariant of the buddy allocator and its preservation by the internal steps: the
  free lists agree with the descriptors, free and allocated blocks are aligned, in range
  and pairwise disjoint, the counter equals the number of free frames, and no two buddies
  of the same order are free at once.
\<close>

definition free_blocks :: "pmm \<Rightarrow> (nat \<times> nat) set" where
  "free_blocks s = {(unat f, n) |f n. n < PMM_MAX_ORDER \<and> f \<in> free_heads s n}"

definition used_blocks :: "pmm \<Rightarrow> (nat \<times> nat) set" where
  "used_blocks s =
     {(unat f, unat (pg_order (mem_map s f))) |f. f < s_max_frames s \<and> pg_refcount (mem_map s f) \<noteq> 0}"

definition free_frames :: "pmm \<Rightarrow> nat set" where
  "free_frames s = cover (free_blocks s)"

definition coalesced :: "pmm \<Rightarrow> bool" where
  "coalesced s \<longleftrightarrow>
     (\<forall>n < PMM_MAX_ORDER - 1. \<forall>f \<in> free_heads s n. f XOR push_bit n 1 \<notin> free_heads s n)"

definition pool_ok :: "pmm \<Rightarrow> bool" where
  "pool_ok s \<longleftrightarrow> s_max_frames s \<le> PMM_MAX_FRAMES \<and> lists_ok s \<and> coalesced s \<and>
     (\<forall>f < s_max_frames s. is_buddy (mem_map s f) \<longrightarrow>
        unat (pg_order (mem_map s f)) < PMM_MAX_ORDER \<and> pg_refcount (mem_map s f) = 0)"

definition pmm_inv :: "pmm \<Rightarrow> bool" where
  "pmm_inv s \<longleftrightarrow> pool_ok s \<and>
     blocks_ok (free_blocks s \<union> used_blocks s) (unat (s_max_frames s)) \<and>
     unat (s_free_frames s) = card (free_frames s)"

text \<open>A block that is neither free nor allocated, as held inside the loops.\<close>

definition pending :: "pmm \<Rightarrow> u32 \<Rightarrow> nat \<Rightarrow> bool" where
  "pending s f n \<longleftrightarrow> pool_ok s \<and> f < s_max_frames s \<and> \<not> is_buddy (mem_map s f) \<and>
     pg_refcount (mem_map s f) = 0 \<and>
     blocks_ok (insert (unat f, n) (free_blocks s \<union> used_blocks s)) (unat (s_max_frames s))"

section \<open>Frames and heads\<close>

lemma free_blocks_iff: "(unat f, n) \<in> free_blocks s \<longleftrightarrow> n < PMM_MAX_ORDER \<and> f \<in> free_heads s n"
  by (auto simp: free_blocks_def)

lemma used_blocks_iff:
  "(unat f, n) \<in> used_blocks s \<longleftrightarrow>
     f < s_max_frames s \<and> pg_refcount (mem_map s f) \<noteq> 0 \<and> n = unat (pg_order (mem_map s f))"
  by (auto simp: used_blocks_def)

lemma pending_fresh: "pending s f n \<Longrightarrow> (unat f, m) \<notin> free_blocks s \<union> used_blocks s"
  by (auto simp: pending_def free_blocks_iff used_blocks_iff free_heads_def)

lemma pending_order: "pending s f n \<Longrightarrow> n < PMM_MAX_ORDER"
  unfolding pending_def by (elim conjE) (drule blocks_okD(1) [OF _ insertI1], simp)

lemma small_frame: "s_max_frames s \<le> PMM_MAX_FRAMES \<Longrightarrow> f < s_max_frames s \<Longrightarrow> unat f < 65536"
proof -
  assume "s_max_frames s \<le> PMM_MAX_FRAMES" "f < s_max_frames s"
  then have "f < PMM_MAX_FRAMES" by (rule order.strict_trans2 [rotated])
  then show ?thesis by (simp add: word_less_nat_alt)
qed

lemma used_blocks_cong:
  assumes "s_max_frames t = s_max_frames s"
    and "\<And>g. pg_refcount (mem_map t g) = pg_refcount (mem_map s g)"
    and "\<And>g. pg_refcount (mem_map s g) \<noteq> 0 \<Longrightarrow> pg_order (mem_map t g) = pg_order (mem_map s g)"
  shows "used_blocks t = used_blocks s"
  using assms unfolding used_blocks_def by (intro Collect_cong) metis

section \<open>Removing a free head\<close>

lemma list_del_free_blocks:
  assumes "f \<in> free_heads s n" and "n < PMM_MAX_ORDER"
  shows "free_blocks (list_del n f s) = free_blocks s - {(unat f, n)}"
proof -
  have "f \<in> free_heads s m \<Longrightarrow> m < PMM_MAX_ORDER \<Longrightarrow> m = n" for m
    using assms free_heads_order_unique by simp
  then show ?thesis by (auto simp: free_blocks_def free_heads_list_del)
qed

lemma list_del_used_blocks: "used_blocks (list_del n f s) = used_blocks s"
  by (rule used_blocks_cong) simp_all

lemma pool_ok_list_del:
  assumes "pool_ok s" and "f \<in> free_heads s n" and "n < PMM_MAX_ORDER"
  shows "pool_ok (list_del n f s)"
  using assms lists_ok_list_del [of s n f]
  by (auto simp: pool_ok_def coalesced_def free_heads_list_del)

lemma list_del_pending:
  assumes "pool_ok s" and "blocks_ok (free_blocks s \<union> used_blocks s) (unat (s_max_frames s))"
    and f: "f \<in> free_heads s n" and n: "n < PMM_MAX_ORDER"
  shows "pending (list_del n f s) f n"
proof -
  have "insert (unat f, n) (free_blocks s - {(unat f, n)} \<union> used_blocks s) = free_blocks s \<union> used_blocks s"
    using f n by (auto simp: free_blocks_iff)
  moreover have "f < s_max_frames s" "pg_refcount (mem_map s f) = 0"
    using f assms(1) by (auto simp: free_heads_def pool_ok_def)
  ultimately show ?thesis
    using assms pool_ok_list_del [OF assms(1) f n]
    by (simp add: pending_def list_del_free_blocks list_del_used_blocks)
qed

section \<open>Adding a pending block to its free list\<close>

lemma pending_not_head:
  assumes "pending s f n" and "m < PMM_MAX_ORDER"
  shows "f \<noteq> free_lists s m"
  using assms not_buddy_not_head [of s m f] max_frames_not_nil [of s f]
  by (auto simp: pending_def pool_ok_def)

lemma list_add_free_heads:
  assumes "pool_ok s" and "f < s_max_frames s" and "\<not> is_buddy (mem_map s f)"
    and "n < PMM_MAX_ORDER" and "m < PMM_MAX_ORDER"
  shows "free_heads (list_add n f s) m = free_heads s m \<union> (if m = n then {f} else {})"
proof -
  have "f \<noteq> free_lists s n"
    using assms not_buddy_not_head [of s n f] max_frames_not_nil [of s f] by (auto simp: pool_ok_def)
  then show ?thesis using assms by (intro free_heads_list_add) auto
qed

lemma list_add_free_blocks:
  assumes "pool_ok s" and "f < s_max_frames s" and "\<not> is_buddy (mem_map s f)"
    and "n < PMM_MAX_ORDER"
  shows "free_blocks (list_add n f s) = insert (unat f, n) (free_blocks s)"
  using list_add_free_heads [OF assms] assms(4) by (auto simp: free_blocks_def split: if_splits)

lemma list_add_used_blocks:
  assumes "pool_ok s" and "f < s_max_frames s" and "\<not> is_buddy (mem_map s f)"
    and "n < PMM_MAX_ORDER" and "pg_refcount (mem_map s f) = 0"
  shows "used_blocks (list_add n f s) = used_blocks s"
proof -
  have fh: "f \<noteq> free_lists s n"
    using assms not_buddy_not_head [of s n f] max_frames_not_nil [of s f] by (auto simp: pool_ok_def)
  show ?thesis
    by (rule used_blocks_cong) (use assms in \<open>auto simp: list_add_fields [OF fh]\<close>)
qed

lemma pool_ok_list_add:
  assumes ok: "pool_ok s" and f: "f < s_max_frames s" "\<not> is_buddy (mem_map s f)"
    and n: "n < PMM_MAX_ORDER" and rc: "pg_refcount (mem_map s f) = 0"
    and nb: "f XOR push_bit n 1 \<notin> free_heads s n \<or> n = PMM_MAX_ORDER - 1"
    and al: "2 ^ n dvd unat f"
  shows "pool_ok (list_add n f s)"
proof -
  have fh: "f \<noteq> free_lists s n"
    using assms not_buddy_not_head [of s n f] max_frames_not_nil [of s f] by (auto simp: pool_ok_def)
  have ne: "f XOR push_bit n 1 \<noteq> f" "g XOR push_bit n 1 = f \<Longrightarrow> f XOR push_bit n 1 = g" for g
  proof -
    have "unat (f XOR push_bit n 1) \<noteq> unat f"
      using buddy_nat_cases(4) [OF al refl] n by (simp add: unat_buddy del: push_bit_of_1)
    then show "f XOR push_bit n 1 \<noteq> f" by auto
    show "g XOR push_bit n 1 = f \<Longrightarrow> f XOR push_bit n 1 = g" by (auto simp: xor.assoc)
  qed
  have "coalesced (list_add n f s)"
    unfolding coalesced_def
  proof (intro allI impI ballI)
    fix m g assume m: "m < PMM_MAX_ORDER - 1" and g: "g \<in> free_heads (list_add n f s) m"
    have co: "g \<in> free_heads s m \<Longrightarrow> g XOR push_bit m 1 \<notin> free_heads s m"
      using ok m by (auto simp: pool_ok_def coalesced_def)
    show "g XOR push_bit m 1 \<notin> free_heads (list_add n f s) m"
      using co g m n nb ne list_add_free_heads [OF ok f n, of m] by (auto split: if_splits)
  qed
  moreover have "lists_ok (list_add n f s)"
    using ok f n by (intro lists_ok_list_add) (auto simp: pool_ok_def)
  moreover have "unat (of_nat n :: u8) = n" using n by (simp add: unat_of_nat take_bit_nat_eq_self)
  ultimately show ?thesis
    using ok n rc by (auto simp: pool_ok_def list_add_fields [OF fh])
qed

end
