(* ===== verification/Pmm_Ops.thy ===== *)
theory Pmm_Ops
  imports Pmm_Inv
begin

text \<open>
  Correctness of the buddy loops and of the public operations of the physical memory
  manager: coalescing, splitting, allocation, release and reference counting.
\<close>

section \<open>Coalescing\<close>

text \<open>What the loop of \<open>buddy_free\<close> leaves unchanged and what it establishes.\<close>

definition merged :: "pmm \<Rightarrow> u32 \<Rightarrow> nat \<Rightarrow> pmm \<Rightarrow> u32 \<Rightarrow> nat \<Rightarrow> bool" where
  "merged s f n t g m \<longleftrightarrow> pending t g m \<and>
     (m < PMM_MAX_ORDER - 1 \<longrightarrow> g XOR push_bit m 1 \<notin> free_heads t m) \<and>
     s_max_frames t = s_max_frames s \<and> s_free_frames t = s_free_frames s \<and>
     s_total_managed_frames t = s_total_managed_frames s \<and>
     (\<forall>h. pg_refcount (mem_map t h) = pg_refcount (mem_map s h)) \<and>
     (\<forall>h. pg_order (mem_map t h) = pg_order (mem_map s h)) \<and>
     (\<forall>h. is_buddy (mem_map t h) \<longrightarrow> is_buddy (mem_map s h)) \<and>
     used_blocks t = used_blocks s \<and>
     free_frames t \<union> blk (unat g) m = free_frames s \<union> blk (unat f) n"

lemma pending_merge:
  assumes p: "pending s f n" and n: "n < PMM_MAX_ORDER - 1"
    and b: "b = f XOR push_bit n 1" and fr: "b \<in> free_heads s n"
    and g: "g = (if b < f then b else f)"
  shows "pending (list_del n b s) g (Suc n)"
    and "free_frames (list_del n b s) \<union> blk (unat g) (Suc n) = free_frames s \<union> blk (unat f) n"
proof -
  let ?B = "free_blocks s \<union> used_blocks s"
  have n': "n < PMM_MAX_ORDER" using n by simp
  have ub: "unat b = unat f XOR 2 ^ n" using b n by (simp add: unat_buddy del: push_bit_of_1)
  have ok: "blocks_ok (insert (unat f, n) ?B) (unat (s_max_frames s))" "pool_ok s"
    using p by (auto simp: pending_def)
  have bB: "(unat b, n) \<in> ?B" "(unat f, n) \<notin> ?B"
    using fr n' pending_fresh [OF p] by (auto simp: free_blocks_iff)
  have bu: "(unat b, n) \<notin> used_blocks s"
    using fr ok(2) by (auto simp: used_blocks_iff free_heads_def pool_ok_def)
  have ug: "unat g = min (unat f) (unat b)" using g by (auto simp: word_less_nat_alt)
  have "blocks_ok (insert (min (unat f) (unat b), Suc n) (?B - {(unat b, n)})) (unat (s_max_frames s))"
    using blocks_ok_merge(1) [OF ok(1) bB ub] n by simp
  moreover have "?B - {(unat b, n)} = free_blocks (list_del n b s) \<union> used_blocks (list_del n b s)"
    using bu by (auto simp: list_del_free_blocks [OF fr n'] list_del_used_blocks)
  ultimately have blocks: "blocks_ok (insert (unat g, Suc n)
      (free_blocks (list_del n b s) \<union> used_blocks (list_del n b s))) (unat (s_max_frames s))"
    by (simp add: ug)
  have "g < s_max_frames s \<and> \<not> is_buddy (mem_map (list_del n b s) g) \<and> pg_refcount (mem_map s g) = 0"
    using g p fr ok(2) by (auto simp: pending_def free_heads_def pool_ok_def)
  with blocks show "pending (list_del n b s) g (Suc n)"
    using pool_ok_list_del [OF ok(2) fr n'] by (simp add: pending_def)
  have "blk (unat g) (Suc n) = blk (unat f) n \<union> blk (unat b) n"
    using buddy_nat_cases(2) [OF blocks_okD(2) [OF ok(1) insertI1] ub] by (simp add: ug)
  moreover have "free_blocks s = insert (unat b, n) (free_blocks (list_del n b s))"
    using fr n' by (auto simp: list_del_free_blocks free_blocks_iff)
  then have "free_frames s = free_frames (list_del n b s) \<union> blk (unat b) n"
    by (simp add: free_frames_def Un_commute)
  ultimately show
    "free_frames (list_del n b s) \<union> blk (unat g) (Suc n) = free_frames s \<union> blk (unat f) n"
    by auto
qed

lemma buddy_coalesce_merged:
  assumes "pending s f n" and "buddy_coalesce s f n = (t, g, m)"
  shows "merged s f n t g m"
  using assms
proof (induction s f n rule: buddy_coalesce.induct)
  case (1 s f n)
  let ?b = "f XOR push_bit n 1"
  show ?case
  proof (cases "n < PMM_MAX_ORDER - 1 \<and> ?b \<in> free_heads s n")
    case False
    then have "t = s" "g = f" "m = n"
      using "1.prems"(2) buddy_coalesce.simps [of s f n]
      by (auto simp: Let_def buddy_is_free_heads split: if_splits)
    with False "1.prems"(1) show ?thesis by (auto simp: merged_def)
  next
    case True
    let ?s = "list_del n ?b s" and ?g = "if ?b < f then ?b else f"
    have "buddy_coalesce ?s ?g (Suc n) = (t, g, m)"
      using True "1.prems"(2) buddy_coalesce.simps [of s f n]
      by (simp add: Let_def buddy_is_free_heads cong: if_cong split del: if_split)
    moreover note step = pending_merge [OF "1.prems"(1) _ refl _ refl]
    ultimately have "merged ?s ?g (Suc n) t g m"
      using True "1.IH" [OF _ refl] by (simp add: buddy_is_free_heads split del: if_split)
    with step(2) True show ?thesis
      by (simp add: merged_def list_del_used_blocks)
  qed
qed

section \<open>Release of a block\<close>

lemma counter_irrelevant [simp]:
  "free_heads (s\<lparr>s_free_frames := c\<rparr>) n = free_heads s n"
  "free_blocks (s\<lparr>s_free_frames := c\<rparr>) = free_blocks s"
  "used_blocks (s\<lparr>s_free_frames := c\<rparr>) = used_blocks s"
  "free_frames (s\<lparr>s_free_frames := c\<rparr>) = free_frames s"
  "pool_ok (s\<lparr>s_free_frames := c\<rparr>) = pool_ok s"
  "pending (s\<lparr>s_free_frames := c\<rparr>) f n = pending s f n"
  by (simp_all add: free_heads_def free_blocks_def used_blocks_def free_frames_def pool_ok_def
      pending_def lists_ok_def on_list_def coalesced_def)

lemma upd_refcount_same:
  "pg_refcount (mem_map s f) = 0 \<Longrightarrow> upd_page f (\<lambda>p. p\<lparr>pg_refcount := 0\<rparr>) s = s"
proof -
  assume "pg_refcount (mem_map s f) = 0"
  then have "(mem_map s f)\<lparr>pg_refcount := 0\<rparr> = mem_map s f" by (cases "mem_map s f") simp
  then show ?thesis by (simp add: upd_page_def)
qed

lemma cover_below: "blocks_ok B lim \<Longrightarrow> cover B \<subseteq> {..<lim}"
  by (auto simp: cover_def blk_def blocks_ok_def) (meson order.strict_trans2)

lemma free_frames_finite: "pool_ok s \<Longrightarrow>
    blocks_ok (free_blocks s \<union> used_blocks s) (unat (s_max_frames s)) \<Longrightarrow> finite (free_frames s)"
  using cover_below [of "free_blocks s" "unat (s_max_frames s)"] blocks_ok_subset
  by (metis Un_upper1 finite_lessThan finite_subset free_frames_def)

lemma pending_count:
  assumes p: "pending s f n" and cnt: "unat (s_free_frames s) = card (free_frames s)"
  shows "unat (s_free_frames s + push_bit n 1) = card (free_frames s \<union> blk (unat f) n)"
proof -
  let ?lim = "unat (s_max_frames s)"
  have ok: "blocks_ok (insert (unat f, n) (free_blocks s \<union> used_blocks s)) ?lim"
    and mx: "s_max_frames s \<le> PMM_MAX_FRAMES"
    using p by (auto simp: pending_def pool_ok_def)
  have sub: "free_frames s \<union> blk (unat f) n \<subseteq> {..<?lim}"
    using cover_below [OF ok] by (auto simp: free_frames_def)
  have dis: "free_frames s \<inter> blk (unat f) n = {}"
    using ok pending_fresh [OF p] by (auto simp: blocks_ok_insert free_frames_def)
  have fin: "finite (free_frames s)" using sub finite_subset by blast
  have "card (free_frames s \<union> blk (unat f) n) = card (free_frames s) + 2 ^ n"
    using fin dis by (simp add: card_Un_disjoint)
  moreover have "card (free_frames s \<union> blk (unat f) n) \<le> ?lim"
    using card_mono [OF _ sub] by simp
  moreover have "?lim \<le> 65536" using mx by (simp add: word_le_nat_alt)
  moreover have "n < 32" using pending_order [OF p] by simp
  ultimately show ?thesis using cnt by (simp add: unat_word_ariths unat_bit32)
qed

lemma buddy_free_correct:
  assumes p: "pending s f n" and cnt: "unat (s_free_frames s) = card (free_frames s)"
  shows "pmm_inv (buddy_free f n s)"
    and "free_frames (buddy_free f n s) = free_frames s \<union> blk (unat f) n"
    and "used_blocks (buddy_free f n s) = used_blocks s"
    and "s_max_frames (buddy_free f n s) = s_max_frames s"
    and "\<And>h. pg_refcount (mem_map (buddy_free f n s) h) = pg_refcount (mem_map s h)"
    and "\<And>h. is_buddy (mem_map (buddy_free f n s) h) \<Longrightarrow> h < s_max_frames s \<or> is_buddy (mem_map s h)"
proof -
  define s1 where "s1 = s\<lparr>s_free_frames := s_free_frames s + push_bit n 1\<rparr>"
  obtain t g m where co: "buddy_coalesce s1 f n = (t, g, m)" by (metis prod_cases3)
  have p1: "pending s1 f n" using p by (simp add: s1_def)
  have mg: "merged s1 f n t g m" using p1 co by (rule buddy_coalesce_merged)
  have pt: "pending t g m" using mg by (simp add: merged_def)
  note parts = pt [unfolded pending_def]
  have m: "m < PMM_MAX_ORDER" using pending_order [OF pt] .
  have eq: "buddy_free f n s = list_add m g t"
    using co parts by (simp add: buddy_free_def s1_def upd_refcount_same)
  have al: "2 ^ m dvd unat g" using parts blocks_okD(2) by blast
  have nb: "g XOR push_bit m 1 \<notin> free_heads t m \<or> m = PMM_MAX_ORDER - 1"
    using mg m by (auto simp: merged_def)
  have pool: "pool_ok (list_add m g t)"
    using parts m nb al by (intro pool_ok_list_add) auto
  have fb: "free_blocks (list_add m g t) = insert (unat g, m) (free_blocks t)"
    using parts m by (intro list_add_free_blocks) auto
  have ub: "used_blocks (list_add m g t) = used_blocks t"
    using parts m by (intro list_add_used_blocks) auto
  have mx: "s_max_frames t = s_max_frames s" and ut: "used_blocks t = used_blocks s"
    and ff: "free_frames t \<union> blk (unat g) m = free_frames s \<union> blk (unat f) n"
    using mg by (auto simp: merged_def s1_def)
  show frees: "free_frames (buddy_free f n s) = free_frames s \<union> blk (unat f) n"
    using ff by (simp add: eq free_frames_def fb Un_commute)
  show "used_blocks (buddy_free f n s) = used_blocks s" using ub ut eq by simp
  show "s_max_frames (buddy_free f n s) = s_max_frames s" using mx eq by simp
  show "pg_refcount (mem_map (buddy_free f n s) h) = pg_refcount (mem_map s h)" for h
    using mg list_add_fields(1) [OF pending_not_head [OF pt m]]
    by (simp add: eq merged_def s1_def)
  show "is_buddy (mem_map (buddy_free f n s) h) \<Longrightarrow> h < s_max_frames s \<or> is_buddy (mem_map s h)" for h
    using mg mx parts list_add_fields(3) [OF pending_not_head [OF pt m]]
    by (auto simp: eq merged_def s1_def)
  have "blocks_ok (free_blocks (buddy_free f n s) \<union> used_blocks (buddy_free f n s))
      (unat (s_max_frames (buddy_free f n s)))"
    using parts by (simp add: eq fb ub mx)
  moreover have "unat (s_free_frames (buddy_free f n s)) = card (free_frames (buddy_free f n s))"
    using pending_count [OF p cnt] mg by (simp add: frees, simp add: eq merged_def s1_def)
  ultimately show "pmm_inv (buddy_free f n s)"
    using pool by (simp add: pmm_inv_def eq)
qed

section \<open>Splitting\<close>

lemma inside_pending:
  assumes p: "pending s f n" and h: "h < s_max_frames s" "unat h \<in> blk (unat f) n"
  shows "\<not> is_buddy (mem_map s h) \<and> pg_refcount (mem_map s h) = 0"
proof (rule ccontr)
  let ?o = "unat (pg_order (mem_map s h))"
  assume "\<not> ?thesis"
  then have "(unat h, ?o) \<in> free_blocks s \<union> used_blocks s"
    using p h by (auto simp: free_blocks_iff used_blocks_iff free_heads_def pending_def pool_ok_def)
  moreover have "blk (unat f) n \<inter> cover (free_blocks s \<union> used_blocks s) = {}"
    using p pending_fresh [OF p] by (auto simp: pending_def blocks_ok_insert)
  ultimately show False using h(2) in_cover [of "unat h" ?o] blk_facts(3) by blast
qed

lemma split_step:
  assumes p: "pending s f (Suc n)" and b: "b = f + push_bit n 1"
  shows "pending (list_add n b s) f n"
    and "free_frames (list_add n b s) \<union> blk (unat f) n = free_frames s \<union> blk (unat f) (Suc n)"
    and "used_blocks (list_add n b s) = used_blocks s"
    and "\<And>h. pg_refcount (mem_map (list_add n b s) h) = pg_refcount (mem_map s h)"
proof -
  let ?B = "free_blocks s \<union> used_blocks s" and ?lim = "unat (s_max_frames s)"
  note parts = p [unfolded pending_def]
  have n: "n < PMM_MAX_ORDER" "Suc n < PMM_MAX_ORDER" using pending_order [OF p] by auto
  have ok: "blocks_ok (insert (unat f, Suc n) ?B) ?lim" and pool: "pool_ok s" using parts by auto
  have fresh: "(unat f, Suc n) \<notin> ?B" using pending_fresh [OF p] .
  have ub: "unat b = unat f + 2 ^ n"
    using b n parts small_frame [of s f] by (simp add: unat_upper_half pool_ok_def del: push_bit_of_1)
  have al: "2 ^ Suc n dvd unat f" using blocks_okD(2) [OF ok insertI1] .
  then have al': "2 ^ n dvd unat f" by (meson dvd_trans le_SucI le_imp_power_dvd order_refl)
  have in_blk: "unat b \<in> blk (unat f) (Suc n)" by (simp add: ub blk_def)
  have bm: "b < s_max_frames s"
    using in_blk cover_below [OF ok] by (auto simp: word_less_nat_alt)
  have nb: "\<not> is_buddy (mem_map s b)" "pg_refcount (mem_map s b) = 0"
    using inside_pending [OF p bm in_blk] by auto
  have "even (unat f div 2 ^ n)"
    using al by (auto elim!: dvdE simp: mult.assoc)
  then have "unat f XOR 2 ^ n = unat b" using buddy_nat [OF al'] ub by simp
  then have "b = f XOR push_bit n 1"
    using n by (simp only: unat_buddy [symmetric] unat_eq_iff)
  then have bf: "b XOR push_bit n 1 = f" by (simp add: xor.assoc)
  have pool': "pool_ok (list_add n b s)"
  proof (rule pool_ok_list_add [OF pool bm nb(1) n(1) nb(2)])
    show "b XOR push_bit n 1 \<notin> free_heads s n \<or> n = PMM_MAX_ORDER - 1"
      using parts bf by (simp add: free_heads_def)
    show "2 ^ n dvd unat b" using al' by (simp add: ub)
  qed
  have fb: "free_blocks (list_add n b s) = insert (unat f + 2 ^ n, n) (free_blocks s)"
    using list_add_free_blocks [OF pool bm nb(1) n(1)] by (simp add: ub)
  show us: "used_blocks (list_add n b s) = used_blocks s"
    using list_add_used_blocks [OF pool bm nb(1) n(1) nb(2)] .
  have bh: "b \<noteq> free_lists s n"
    using pool n(1) nb bm not_buddy_not_head [of s n b] max_frames_not_nil [of s b]
    by (auto simp: pool_ok_def)
  show "pg_refcount (mem_map (list_add n b s) h) = pg_refcount (mem_map s h)" for h
    by (simp add: list_add_fields [OF bh])
  have "f \<noteq> b" using ub by auto
  then have "\<not> is_buddy (mem_map (list_add n b s) f)"
    "pg_refcount (mem_map (list_add n b s) f) = 0"
    using parts by (simp_all add: list_add_fields [OF bh])
  then show "pending (list_add n b s) f n"
    using pool' parts blocks_ok_halve(1) [OF ok fresh] by (simp add: pending_def fb us)
  show "free_frames (list_add n b s) \<union> blk (unat f) n = free_frames s \<union> blk (unat f) (Suc n)"
    using blk_split(1) [of "unat f" n] by (auto simp: free_frames_def fb)
qed

lemma split_down_correct:
  assumes "pending s f ord" and "n \<le> ord"
  shows "pending (split_down s f ord n) f n \<and>
    free_frames (split_down s f ord n) \<union> blk (unat f) n = free_frames s \<union> blk (unat f) ord \<and>
    used_blocks (split_down s f ord n) = used_blocks s \<and>
    s_max_frames (split_down s f ord n) = s_max_frames s \<and>
    s_free_frames (split_down s f ord n) = s_free_frames s \<and>
    (\<forall>h. pg_refcount (mem_map (split_down s f ord n) h) = pg_refcount (mem_map s h))"
  using assms
proof (induction s f ord n rule: split_down.induct)
  case (1 s f ord n)
  show ?case
  proof (cases "n < ord")
    case False
    then have "split_down s f ord n = s" by (subst split_down.simps) simp
    with False "1.prems" show ?thesis by simp
  next
    case True
    then obtain k where k: "ord = Suc k" by (cases ord) auto
    let ?t = "list_add k (f + push_bit k 1) s"
    have sd: "split_down s f ord n = split_down ?t f k n"
      using True split_down.simps [of s f ord n] by (simp add: k)
    note step = split_step [OF "1.prems"(1) [unfolded k] refl]
    have "n \<le> k" using True k by simp
    with "1.IH" [OF True refl refl] step(1) k have
      "pending (split_down ?t f k n) f n \<and>
       free_frames (split_down ?t f k n) \<union> blk (unat f) n = free_frames ?t \<union> blk (unat f) k \<and>
       used_blocks (split_down ?t f k n) = used_blocks ?t \<and>
       s_max_frames (split_down ?t f k n) = s_max_frames ?t \<and>
       s_free_frames (split_down ?t f k n) = s_free_frames ?t \<and>
       (\<forall>h. pg_refcount (mem_map (split_down ?t f k n) h) = pg_refcount (mem_map ?t h))"
      by simp
    with step(2-4) show ?thesis unfolding sd by (simp add: k)
  qed
qed

section \<open>Allocation\<close>

lemma find_order_spec:
  "n \<le> find_order s n" "n \<le> m \<Longrightarrow> m < find_order s n \<Longrightarrow> free_lists s m = PMM_NIL"
  "n \<le> PMM_MAX_ORDER \<Longrightarrow> find_order s n \<le> PMM_MAX_ORDER"
  "find_order s n < PMM_MAX_ORDER \<Longrightarrow> free_lists s (find_order s n) \<noteq> PMM_NIL"
proof (induction s n rule: find_order.induct)
  case (1 s n)
  case 1 show ?case using "1.IH"(1) find_order.simps [of s n] by (auto split: if_splits)
next
  case (1 s n)
  case 2 then show ?case using "1.IH"(2) find_order.simps [of s n]
    by (cases "m = n") (auto split: if_splits)
next
  case (1 s n)
  case 3 then show ?case using "1.IH"(3) find_order.simps [of s n] by (auto split: if_splits)
next
  case (1 s n)
  case 4 then show ?case using "1.IH"(4) find_order.simps [of s n] by (auto split: if_splits)
qed

text \<open>
  Descriptor updates that touch no link, no free flag and no order of a free head leave
  the free side of the pool as it was.
\<close>

lemma free_view_cong:
  assumes "s_max_frames t = s_max_frames s" and "free_lists t = free_lists s"
    and "\<And>h. pg_next (mem_map t h) = pg_next (mem_map s h)"
    and "\<And>h. pg_prev (mem_map t h) = pg_prev (mem_map s h)"
    and "\<And>h. is_buddy (mem_map t h) = is_buddy (mem_map s h)"
    and "\<And>h. is_buddy (mem_map s h) \<Longrightarrow> pg_order (mem_map t h) = pg_order (mem_map s h)"
  shows "free_heads t n = free_heads s n" "free_blocks t = free_blocks s"
    "free_frames t = free_frames s" "lists_ok t = lists_ok s" "coalesced t = coalesced s"
proof -
  show fh: "free_heads t n = free_heads s n" for n
    using assms by (auto simp: free_heads_def)
  show "free_blocks t = free_blocks s" by (simp add: free_blocks_def fh)
  then show "free_frames t = free_frames s" by (simp add: free_frames_def)
  have "on_list t n xs = on_list s n xs" for n xs by (simp add: on_list_def assms)
  then show "lists_ok t = lists_ok s" by (simp add: lists_ok_def fh)
  show "coalesced t = coalesced s" by (simp add: coalesced_def fh)
qed

lemma mark_used:
  assumes p: "pending s f n" and fl: "\<not> is_buddy (p\<lparr>pg_flags := fl\<rparr>)" and c: "c \<noteq> 0"
    and t: "t = upd_page f (\<lambda>p. p\<lparr>pg_order := of_nat n, pg_refcount := c, pg_flags := fl\<rparr>) s"
  shows "pool_ok t" and "free_blocks t = free_blocks s" and "free_frames t = free_frames s"
    and "used_blocks t = insert (unat f, n) (used_blocks s)"
    and "blocks_ok (free_blocks t \<union> used_blocks t) (unat (s_max_frames t))"
proof -
  note parts = p [unfolded pending_def]
  have n: "unat (of_nat n :: u8) = n"
    using pending_order [OF p] by (simp add: unat_of_nat take_bit_nat_eq_self)
  have nb: "is_buddy (q\<lparr>pg_order := a, pg_refcount := b, pg_flags := fl\<rparr>) = False" for q a b
    using fl by (simp add: is_buddy_def)
  have view: "free_heads t m = free_heads s m" "free_blocks t = free_blocks s"
    "free_frames t = free_frames s" "lists_ok t = lists_ok s" "coalesced t = coalesced s" for m
    by (rule free_view_cong; use parts nb in \<open>auto simp: t\<close>)+
  show "free_blocks t = free_blocks s" "free_frames t = free_frames s" by (fact view)+
  show "pool_ok t" using parts nb by (auto simp: pool_ok_def view, auto simp: t)
  have "(unat g, m) \<in> used_blocks t \<longleftrightarrow> (unat g, m) \<in> insert (unat f, n) (used_blocks s)" for g :: u32 and m
    using parts n c by (auto simp: used_blocks_iff t)
  then have "x \<in> used_blocks t \<longleftrightarrow> x \<in> insert (unat f, n) (used_blocks s)" for x
    by (cases x) (auto simp: used_blocks_def)
  then show us: "used_blocks t = insert (unat f, n) (used_blocks s)" by blast
  show "blocks_ok (free_blocks t \<union> used_blocks t) (unat (s_max_frames t))"
    using parts by (simp add: view us) (simp add: t)
qed

text \<open>A successful allocation, on any state that satisfies the invariant.\<close>

lemma alloc_pages_success:
  assumes inv: "pmm_inv s" and al: "pmm_alloc_pages n s = (a, t)" and ne: "a \<noteq> PMM_ALLOC_ERROR"
  obtains f where "a = f * PMM_FRAME_SIZE" and "f < s_max_frames s" and "2 ^ n dvd unat f"
    and "n < PMM_MAX_ORDER" and "blk (unat f) n \<subseteq> free_frames s"
    and "free_frames t = free_frames s - blk (unat f) n"
    and "used_blocks t = insert (unat f, n) (used_blocks s)"
    and "pg_refcount (mem_map t f) = 1" and "pg_refcount (mem_map s f) = 0"
    and "\<And>h. h \<noteq> f \<Longrightarrow> pg_refcount (mem_map t h) = pg_refcount (mem_map s h)"
    and "pmm_inv t" and "s_max_frames t = s_max_frames s"
proof -
  define ord where "ord = find_order s n"
  define f where "f = free_lists s ord"
  define s1 where "s1 = list_del ord f s"
  define s2 where "s2 = split_down s1 f ord n"
  define s3 where "s3 = upd_page f (\<lambda>p. p\<lparr>pg_order := of_nat n, pg_refcount := 1,
    pg_flags := pg_flags (mem_map s2 f) AND NOT PG_BUDDY\<rparr>) s2"
  have n: "n < PMM_MAX_ORDER" and ord: "ord < PMM_MAX_ORDER"
    and a: "a = f * PMM_FRAME_SIZE" and t: "t = s3\<lparr>s_free_frames := s_free_frames s3 - push_bit n 1\<rparr>"
    using al ne by (auto simp: pmm_alloc_pages_def Let_def ord_def f_def s1_def s2_def s3_def
        upd_page_def split: if_splits)
  have pool: "pool_ok s" and blocks: "blocks_ok (free_blocks s \<union> used_blocks s) (unat (s_max_frames s))"
    and cnt: "unat (s_free_frames s) = card (free_frames s)"
    using inv by (auto simp: pmm_inv_def)
  have fh: "f \<in> free_heads s ord"
    using pool head_in_free_heads ord find_order_spec(4) [of s n]
    by (simp add: f_def ord_def pool_ok_def)
  have p1: "pending s1 f ord" unfolding s1_def by (rule list_del_pending [OF pool blocks fh ord])
  have "free_blocks s = insert (unat f, ord) (free_blocks s1)"
    using fh ord by (auto simp: s1_def list_del_free_blocks free_blocks_iff)
  then have ff1: "free_frames s = free_frames s1 \<union> blk (unat f) ord"
    by (simp add: free_frames_def Un_commute)
  note sd = split_down_correct [OF p1, of n, folded s2_def]
  have p2: "pending s2 f n" and ff2: "free_frames s2 \<union> blk (unat f) n = free_frames s"
    and same: "used_blocks s2 = used_blocks s" "s_max_frames s2 = s_max_frames s"
      "s_free_frames s2 = s_free_frames s"
      "\<And>h. pg_refcount (mem_map s2 h) = pg_refcount (mem_map s h)"
    using sd find_order_spec(1) [of n s] ff1 by (simp_all add: ord_def s1_def list_del_used_blocks)
  have nb: "\<not> is_buddy (p\<lparr>pg_flags := pg_flags (mem_map s2 f) AND NOT PG_BUDDY\<rparr>)" for p by simp
  note mk = mark_used [OF p2 nb _ s3_def]
  have dis: "free_frames s2 \<inter> blk (unat f) n = {}"
    using p2 pending_fresh [OF p2] by (auto simp: pending_def blocks_ok_insert free_frames_def)
  have ff: "free_frames t = free_frames s - blk (unat f) n"
    using mk(3) ff2 dis by (auto simp: t)
  have fin: "finite (free_frames s)" using free_frames_finite [OF pool blocks] .
  have sub: "blk (unat f) n \<subseteq> free_frames s" using ff2 by auto
  have "card (free_frames t) = card (free_frames s) - 2 ^ n"
    using fin sub by (simp add: ff card_Diff_subset)
  moreover have "2 ^ n \<le> card (free_frames s)" using card_mono [OF fin sub] by simp
  moreover have "n < 32" using n by simp
  moreover have "s_free_frames s3 = s_free_frames s" using same by (simp add: s3_def)
  ultimately have cnt': "unat (s_free_frames t) = card (free_frames t)"
    using cnt by (simp add: t unat_sub unat_bit32 word_le_nat_alt)
  have mx: "s_max_frames t = s_max_frames s" using same by (simp add: t s3_def)
  show thesis
  proof (rule that [of f])
    show "pmm_inv t" using mk cnt' by (simp add: pmm_inv_def t)
    show "used_blocks t = insert (unat f, n) (used_blocks s)" using mk(4) same by (simp add: t)
    show "2 ^ n dvd unat f" using p2 blocks_okD(2) by (auto simp: pending_def)
    show "f < s_max_frames s" using fh by (simp add: free_heads_def)
    show "pg_refcount (mem_map s f) = 0" using fh pool by (simp add: free_heads_def pool_ok_def)
    show "pg_refcount (mem_map t f) = 1" by (simp add: t s3_def)
    show "h \<noteq> f \<Longrightarrow> pg_refcount (mem_map t h) = pg_refcount (mem_map s h)" for h
      using same by (simp add: t s3_def)
  qed (use a n sub ff mx in auto)
qed

lemma frame_addr:
  "unat f < 65536 \<Longrightarrow> unat (f * PMM_FRAME_SIZE) = unat f * 4096"
  "unat f < 65536 \<Longrightarrow> f * PMM_FRAME_SIZE \<noteq> PMM_ALLOC_ERROR"
  "unat f < 65536 \<Longrightarrow> (f * PMM_FRAME_SIZE) div PMM_FRAME_SIZE = f"
proof -
  assume f: "unat f < 65536"
  then show eq: "unat (f * PMM_FRAME_SIZE) = unat f * 4096" by (simp add: unat_word_ariths)
  show "f * PMM_FRAME_SIZE \<noteq> PMM_ALLOC_ERROR"
  proof
    assume "f * PMM_FRAME_SIZE = PMM_ALLOC_ERROR"
    then have "unat f * 4096 = unat PMM_ALLOC_ERROR" using eq by simp
    then show False using f by simp
  qed
  have "unat ((f * PMM_FRAME_SIZE) div PMM_FRAME_SIZE) = unat f" by (simp add: unat_div eq)
  then show "(f * PMM_FRAME_SIZE) div PMM_FRAME_SIZE = f" by simp
qed

lemma alloc_pages_error_iff:
  assumes inv: "pmm_inv s"
  shows "fst (pmm_alloc_pages n s) = PMM_ALLOC_ERROR \<longleftrightarrow>
    (\<forall>m. n \<le> m \<longrightarrow> m < PMM_MAX_ORDER \<longrightarrow> free_heads s m = {})"
proof (cases "n < PMM_MAX_ORDER \<and> find_order s n < PMM_MAX_ORDER")
  case True
  let ?o = "find_order s n"
  have ok: "lists_ok s" "s_max_frames s \<le> PMM_MAX_FRAMES" using inv by (auto simp: pmm_inv_def pool_ok_def)
  have h: "free_lists s ?o \<in> free_heads s ?o"
    using head_in_free_heads [OF ok(1)] True find_order_spec(4) [of s n] by blast
  then have "unat (free_lists s ?o) < 65536"
    using small_frame [OF ok(2)] by (simp add: free_heads_def)
  then have "fst (pmm_alloc_pages n s) \<noteq> PMM_ALLOC_ERROR"
    using True frame_addr(2) by (auto simp: pmm_alloc_pages_def Let_def)
  then show ?thesis using h True find_order_spec(1) [of n s] by blast
next
  case False
  then have "fst (pmm_alloc_pages n s) = PMM_ALLOC_ERROR"
    by (auto simp: pmm_alloc_pages_def Let_def)
  moreover have "free_heads s m = {}" if "n \<le> m" "m < PMM_MAX_ORDER" for m
    using that False find_order_spec(2) [of n m s] head_nil_iff [of s m] inv
    by (auto simp: pmm_inv_def pool_ok_def)
  ultimately show ?thesis by blast
qed

lemma alloc_pages_error_state: "fst (pmm_alloc_pages n s) = PMM_ALLOC_ERROR \<Longrightarrow> pmm_inv s \<Longrightarrow>
    snd (pmm_alloc_pages n s) = s"
  using alloc_pages_error_iff [of s n] head_in_free_heads [of s "find_order s n"]
    find_order_spec(1) [of n s] find_order_spec(4) [of s n]
  by (auto simp: pmm_alloc_pages_def Let_def pmm_inv_def pool_ok_def)

section \<open>Release and reference counts\<close>

lemma drop_refcount:
  assumes inv: "pmm_inv s" and f: "f < s_max_frames s" and c: "c \<noteq> 0" "pg_refcount (mem_map s f) \<noteq> 0"
    and t: "t = upd_page f (\<lambda>p. p\<lparr>pg_refcount := c\<rparr>) s"
  shows "pmm_inv t" and "free_frames t = free_frames s" and "used_blocks t = used_blocks s"
proof -
  have view: "free_heads t m = free_heads s m" "free_blocks t = free_blocks s"
    "free_frames t = free_frames s" "lists_ok t = lists_ok s" "coalesced t = coalesced s" for m
    by (rule free_view_cong; auto simp: t)+
  show "free_frames t = free_frames s" by (fact view)
  show us: "used_blocks t = used_blocks s"
    using c by (auto simp: used_blocks_def t split: if_splits)
  have "pool_ok t" using inv f c by (auto simp: pmm_inv_def pool_ok_def view, auto simp: t)
  then show "pmm_inv t" using inv by (simp add: pmm_inv_def view us, simp add: t)
qed

lemma last_ref_pending:
  assumes inv: "pmm_inv s" and f: "f < s_max_frames s" and c: "pg_refcount (mem_map s f) \<noteq> 0"
    and t: "t = upd_page f (\<lambda>p. p\<lparr>pg_refcount := 0\<rparr>) s" and n: "n = unat (pg_order (mem_map s f))"
  shows "pending t f n" and "free_frames t = free_frames s"
    and "used_blocks t = used_blocks s - {(unat f, n)}"
    and "unat (s_free_frames t) = card (free_frames t)"
proof -
  have view: "free_heads t m = free_heads s m" "free_blocks t = free_blocks s"
    "free_frames t = free_frames s" "lists_ok t = lists_ok s" "coalesced t = coalesced s" for m
    by (rule free_view_cong; auto simp: t)+
  show "free_frames t = free_frames s" by (fact view)
  have fu: "(unat f, n) \<in> used_blocks s" using f c n by (simp add: used_blocks_iff)
  have nb: "\<not> is_buddy (mem_map s f)" using inv f c by (auto simp: pmm_inv_def pool_ok_def)
  then have nf: "(unat f, n) \<notin> free_blocks s" by (simp add: free_blocks_iff free_heads_def)
  show us: "used_blocks t = used_blocks s - {(unat f, n)}"
    using n by (auto simp: used_blocks_def t)
  have pool: "pool_ok t" using inv f c by (auto simp: pmm_inv_def pool_ok_def view, auto simp: t)
  have "insert (unat f, n) (free_blocks t \<union> used_blocks t) = free_blocks s \<union> used_blocks s"
    using fu by (auto simp: view us)
  with inv pool f nb show "pending t f n" by (simp add: pending_def pmm_inv_def, simp add: t)
  show "unat (s_free_frames t) = card (free_frames t)" using inv by (simp add: pmm_inv_def view, simp add: t)
qed

lemma free_pages_cases:
  fixes s :: pmm and addr f :: u32 and ord :: nat
  assumes inv: "pmm_inv s" and f: "f = addr div PMM_FRAME_SIZE" "f < s_max_frames s"
    and c: "pg_refcount (mem_map s f) \<noteq> 0"
  defines "n \<equiv> unat (pg_order (mem_map s f))" and "t \<equiv> pmm_free_pages addr ord s"
  shows "pmm_inv t" and "s_max_frames t = s_max_frames s"
    and "\<And>h. pg_refcount (mem_map t h) =
      (if h = f then pg_refcount (mem_map s f) - 1 else pg_refcount (mem_map s h))"
    and "pg_refcount (mem_map s f) = 1 \<Longrightarrow> free_frames t = free_frames s \<union> blk (unat f) n"
    and "pg_refcount (mem_map s f) = 1 \<Longrightarrow> used_blocks t = used_blocks s - {(unat f, n)}"
    and "pg_refcount (mem_map s f) \<noteq> 1 \<Longrightarrow> free_frames t = free_frames s"
    and "pg_refcount (mem_map s f) \<noteq> 1 \<Longrightarrow> used_blocks t = used_blocks s"
proof -
  let ?c = "pg_refcount (mem_map s f) - 1"
  define s1 where "s1 = upd_page f (\<lambda>p. p\<lparr>pg_refcount := ?c\<rparr>) s"
  have s1': "upd_page f (\<lambda>p. p\<lparr>pg_refcount := pg_refcount p - 1\<rparr>) s = s1"
    by (simp add: s1_def upd_page_def)
  have sel: "pg_refcount (mem_map s1 f) = ?c" "pg_order (mem_map s1 f) = pg_order (mem_map s f)"
    by (simp_all add: s1_def)
  have t: "t = (if ?c = 0 then buddy_free f n s1 else s1)"
    unfolding t_def n_def pmm_free_pages_def Let_def f(1) [symmetric] s1'
    using f(2) c sel by (simp add: not_le)
  have all: "pmm_inv t \<and> s_max_frames t = s_max_frames s \<and>
    (\<forall>h. pg_refcount (mem_map t h) =
      (if h = f then pg_refcount (mem_map s f) - 1 else pg_refcount (mem_map s h))) \<and>
    (if pg_refcount (mem_map s f) = 1
     then free_frames t = free_frames s \<union> blk (unat f) n \<and> used_blocks t = used_blocks s - {(unat f, n)}
     else free_frames t = free_frames s \<and> used_blocks t = used_blocks s)"
  proof (cases "?c = 0")
    case True
    then have s1: "s1 = upd_page f (\<lambda>p. p\<lparr>pg_refcount := 0\<rparr>) s" by (simp add: s1_def)
    note lr = last_ref_pending [OF inv f(2) c s1 n_def [THEN meta_eq_to_obj_eq]]
    note bf = buddy_free_correct [OF lr(1) lr(4)]
    have "pg_refcount (mem_map s1 h) = (if h = f then 0 else pg_refcount (mem_map s h))" for h
      by (simp add: s1)
    with True bf lr(2,3) show ?thesis by (simp add: t) (simp add: s1)
  next
    case False
    note dr = drop_refcount [OF inv f(2) False c s1_def]
    from False dr show ?thesis by (auto simp: t) (auto simp: s1_def)
  qed
  show "pmm_inv t" "s_max_frames t = s_max_frames s"
    and "\<And>h. pg_refcount (mem_map t h) =
      (if h = f then pg_refcount (mem_map s f) - 1 else pg_refcount (mem_map s h))"
    and "pg_refcount (mem_map s f) = 1 \<Longrightarrow> free_frames t = free_frames s \<union> blk (unat f) n"
    and "pg_refcount (mem_map s f) = 1 \<Longrightarrow> used_blocks t = used_blocks s - {(unat f, n)}"
    and "pg_refcount (mem_map s f) \<noteq> 1 \<Longrightarrow> free_frames t = free_frames s"
    and "pg_refcount (mem_map s f) \<noteq> 1 \<Longrightarrow> used_blocks t = used_blocks s"
    using all by (auto split: if_splits)
qed

lemma free_pages_noop:
  "addr div PMM_FRAME_SIZE \<ge> s_max_frames s \<or> pg_refcount (mem_map s (addr div PMM_FRAME_SIZE)) = 0 \<Longrightarrow>
     pmm_free_pages addr ord s = s"
  by (auto simp: pmm_free_pages_def Let_def)

lemma inc_ref_cases:
  fixes s :: pmm and addr f :: u32
  assumes inv: "pmm_inv s" and f: "f = addr div PMM_FRAME_SIZE"
  defines "t \<equiv> pmm_inc_ref addr s"
  shows "pmm_inv t" and "s_max_frames t = s_max_frames s" and "free_frames t = free_frames s"
    and "used_blocks t = used_blocks s"
    and "\<And>h. pg_refcount (mem_map t h) =
      (if h = f \<and> f < s_max_frames s \<and> pg_refcount (mem_map s f) \<noteq> 0 \<and> pg_refcount (mem_map s f) \<noteq> 0xFF
       then pg_refcount (mem_map s f) + 1 else pg_refcount (mem_map s h))"
proof -
  let ?c = "pg_refcount (mem_map s f)"
  let ?P = "f < s_max_frames s \<and> ?c \<noteq> 0 \<and> ?c \<noteq> 0xFF"
  define s1 where "s1 = upd_page f (\<lambda>p. p\<lparr>pg_refcount := ?c + 1\<rparr>) s"
  have t: "t = (if ?P then s1 else s)"
    by (auto simp: t_def pmm_inc_ref_def Let_def f s1_def upd_page_def not_le)
  have ne: "?c + 1 \<noteq> 0" if "?c \<noteq> 0xFF"
  proof
    assume "?c + 1 = 0"
    then have "?c = - 1" by (simp add: eq_neg_iff_add_eq_0)
    with that show False by simp
  qed
  have "pmm_inv t \<and> s_max_frames t = s_max_frames s \<and> free_frames t = free_frames s \<and>
      used_blocks t = used_blocks s"
  proof (cases ?P)
    case True
    then have "?c + 1 \<noteq> 0" "?c \<noteq> 0" "f < s_max_frames s" using ne by auto
    note dr = drop_refcount [OF inv this(3,1,2) s1_def]
    from True dr show ?thesis by (simp add: t) (simp add: s1_def)
  next
    case False
    with inv show ?thesis by (auto simp: t)
  qed
  then show "pmm_inv t" "s_max_frames t = s_max_frames s" "free_frames t = free_frames s"
    "used_blocks t = used_blocks s" by auto
  show "\<And>h. pg_refcount (mem_map t h) = (if h = f \<and> ?P then ?c + 1 else pg_refcount (mem_map s h))"
    by (simp add: t s1_def)
qed

end
