(* ===== verification/Pmm_Init.thy ===== *)
theory Pmm_Init
  imports Pmm_Ops
begin

text \<open>
  Correctness of \<open>pmm_init\<close>: on a sane memory map the pool holds exactly the usable
  frames of the managed window, minus the null page and the kernel image.
\<close>

section \<open>Raising the managed limit\<close>

text \<open>During start-up nothing is allocated and descriptors above the limit are untouched.\<close>

definition booting :: "pmm \<Rightarrow> bool" where
  "booting s \<longleftrightarrow> pmm_inv s \<and> (\<forall>h. pg_refcount (mem_map s h) = 0) \<and>
     (\<forall>h \<ge> s_max_frames s. \<not> is_buddy (mem_map s h))"

lemma booting_used: "booting s \<Longrightarrow> used_blocks s = {}"
  by (auto simp: booting_def used_blocks_def)

lemma blocks_ok_mono: "blocks_ok B l \<Longrightarrow> l \<le> k \<Longrightarrow> blocks_ok B k"
  unfolding blocks_ok_def by (meson order_trans)

lemma booting_raise:
  assumes b: "booting s" and m: "s_max_frames s \<le> m" "m \<le> PMM_MAX_FRAMES"
  shows "booting (s\<lparr>s_max_frames := m\<rparr>)" and "free_frames (s\<lparr>s_max_frames := m\<rparr>) = free_frames s"
proof -
  let ?t = "s\<lparr>s_max_frames := m\<rparr>"
  have fh: "free_heads ?t n = free_heads s n" for n
    using b m(1) by (auto simp: free_heads_def booting_def) (meson leI)+
  have fb: "free_blocks ?t = free_blocks s" by (simp add: free_blocks_def fh)
  then show ff: "free_frames ?t = free_frames s" by (simp add: free_frames_def)
  have us: "used_blocks ?t = {}" using b by (auto simp: booting_def used_blocks_def)
  have "on_list ?t n xs = on_list s n xs" for n xs by (simp add: on_list_def)
  then have "lists_ok ?t" "coalesced ?t"
    using b by (simp_all add: booting_def pmm_inv_def pool_ok_def lists_ok_def coalesced_def fh)
  moreover have "is_buddy (mem_map s f) \<Longrightarrow> unat (pg_order (mem_map s f)) < PMM_MAX_ORDER" for f
    using b by (metis booting_def leI pmm_inv_def pool_ok_def)
  ultimately have "pool_ok ?t" using b m by (simp add: pool_ok_def booting_def)
  moreover have "blocks_ok (free_blocks s) (unat m)"
    using b booting_used [OF b] m(1) blocks_ok_mono
    by (auto simp: booting_def pmm_inv_def word_le_nat_alt)
  ultimately have "pmm_inv ?t"
    using b by (simp add: pmm_inv_def fb us ff) (simp add: booting_def pmm_inv_def)
  then show "booting ?t" using b m(1) by (auto simp: booting_def)
qed

lemma booting_free_frame:
  assumes b: "booting s" and f: "f < s_max_frames s" "unat f \<notin> free_frames s"
  shows "booting (buddy_free f 0 s)" and "free_frames (buddy_free f 0 s) = insert (unat f) (free_frames s)"
    and "s_max_frames (buddy_free f 0 s) = s_max_frames s"
proof -
  have us: "used_blocks s = {}" using booting_used [OF b] .
  have inv: "pmm_inv s" using b by (simp add: booting_def)
  have nb: "\<not> is_buddy (mem_map s f)"
  proof
    assume "is_buddy (mem_map s f)"
    then have "(unat f, unat (pg_order (mem_map s f))) \<in> free_blocks s"
      using inv f(1) by (auto simp: free_blocks_iff free_heads_def pmm_inv_def pool_ok_def)
    then show False using f(2) in_cover blk_facts(3) unfolding free_frames_def by blast
  qed
  have "blocks_ok (insert (unat f, 0) (free_blocks s \<union> used_blocks s)) (unat (s_max_frames s))"
  proof -
    have "cover (free_blocks s - {(unat f, 0)}) \<subseteq> free_frames s"
      by (auto simp: free_frames_def cover_def)
    then have "blk (unat f) 0 \<inter> cover (free_blocks s - {(unat f, 0)}) = {}"
      using f(2) by (auto simp: blk_def)
    then show ?thesis using inv f(1) by (simp add: blocks_ok_insert us pmm_inv_def word_less_nat_alt)
  qed
  then have p: "pending s f 0" and c: "unat (s_free_frames s) = card (free_frames s)"
    using inv nb f(1) b by (auto simp: pending_def pmm_inv_def booting_def)
  note bf = buddy_free_correct [OF p c]
  show "s_max_frames (buddy_free f 0 s) = s_max_frames s" by (fact bf)
  show "free_frames (buddy_free f 0 s) = insert (unat f) (free_frames s)"
    using bf(2) by (auto simp: blk_def)
  show "booting (buddy_free f 0 s)"
    using bf b by (auto simp: booting_def) (meson not_le)
qed

section \<open>One region\<close>

definition reserved :: "u32 \<Rightarrow> nat \<Rightarrow> bool" where
  "reserved kend f \<longleftrightarrow> f = 0 \<or> (256 \<le> f \<and> f < unat kend)"

text \<open>Frames that start in \<open>[a, e)\<close>, inside the window and not reserved.\<close>

definition span_frames :: "u32 \<Rightarrow> nat \<Rightarrow> nat \<Rightarrow> nat set" where
  "span_frames kend a e = {f. a \<le> f * 4096 \<and> f * 4096 < e \<and> f < 65536 \<and> \<not> reserved kend f}"

lemma free_region_correct:
  assumes "booting s" and "4096 dvd unat addr" and "unat region_end \<le> 2 ^ 44"
    and "span_frames kend (unat addr) (unat region_end) \<inter> free_frames s = {}"
  shows "booting (free_region kend addr region_end s) \<and>
    free_frames (free_region kend addr region_end s) =
      free_frames s \<union> span_frames kend (unat addr) (unat region_end)"
  using assms
proof (induction kend addr region_end s rule: free_region.induct)
  case (1 kend addr e s)
  let ?f = "ucast (addr div 0x1000) :: u32"
  let ?S = "span_frames kend (unat addr) (unat e)"
  let ?R = "span_frames kend (unat (addr + 0x1000)) (unat e)"
  show ?case
  proof (cases "addr < e")
    case False
    then have "?S = {}" by (auto simp: span_frames_def word_less_nat_alt)
    moreover have "free_region kend addr e s = s" using False by (subst free_region.simps) simp
    ultimately show ?thesis using "1.prems" by simp
  next
    case lt: True
    have small: "unat addr < 2 ^ 44" using lt "1.prems"(3) by (simp add: word_less_nat_alt)
    then have "unat addr div 4096 < 2 ^ 32" by (simp add: less_mult_imp_div_less)
    then have uf: "unat ?f = unat addr div 4096"
      using small by (simp add: unsigned_ucast_eq take_bit_eq_mod unat_div)
    have pg: "unat addr = unat ?f * 4096" using "1.prems"(2) uf by simp
    have nx: "unat (addr + 0x1000) = unat addr + 4096" using small by (simp add: unat_word_ariths)
    show ?thesis
    proof (cases "?f \<ge> PMM_MAX_FRAMES")
      case True
      then have "unat ?f \<ge> 65536" by (simp add: word_le_nat_alt)
      then have "?S = {}" using pg by (auto simp: span_frames_def)
      moreover have "free_region kend addr e s = s" using lt True by (subst free_region.simps) simp
      ultimately show ?thesis using "1.prems" by simp
    next
      case False
      then have f16: "unat ?f < 65536" by (simp add: word_le_nat_alt)
      have "unat addr \<le> x * 4096 \<longleftrightarrow> x = unat ?f \<or> unat (addr + 0x1000) \<le> x * 4096" for x
      proof -
        have "unat ?f * 4096 \<le> x * 4096 \<longleftrightarrow> x = unat ?f \<or> unat ?f * 4096 + 4096 \<le> x * 4096" by linarith
        with pg nx show ?thesis by simp
      qed
      then have S: "?S = (if reserved kend (unat ?f) then {} else {unat ?f}) \<union> ?R"
        using f16 pg lt by (auto simp: span_frames_def word_less_nat_alt)
      have res: "?f = 0 \<or> (?f \<ge> 0x100000 div PMM_FRAME_SIZE \<and> ?f < kend) \<longleftrightarrow> reserved kend (unat ?f)"
        by (auto simp: reserved_def word_le_nat_alt word_less_nat_alt unat_eq_0 unat_div)
      have al: "4096 dvd unat (addr + 0x1000)" using "1.prems"(2) nx by simp
      show ?thesis
      proof (cases "reserved kend (unat ?f)")
        case True
        with res False lt have "free_region kend addr e s = free_region kend (addr + 0x1000) e s"
          by (subst free_region.simps) simp
        moreover note "1.IH"(1) [OF lt refl False _ "1.prems"(1) al "1.prems"(3)]
        ultimately show ?thesis using True res S "1.prems"(4) by simp
      next
        case nres: False
        define t where "t = (if ?f + 1 > s_max_frames s then s\<lparr>s_max_frames := ?f + 1\<rparr> else s)"
        have f1: "unat (?f + 1) = unat ?f + 1" using f16 by (simp add: unat_word_ariths)
        have le: "?f + 1 \<le> PMM_MAX_FRAMES" using f1 f16 by (simp add: word_le_nat_alt)
        have t: "booting t \<and> free_frames t = free_frames s \<and> ?f < s_max_frames t"
          using booting_raise [OF "1.prems"(1) _ le] "1.prems"(1) f1
          by (auto simp: t_def word_less_nat_alt word_le_nat_alt)
        have nf: "unat ?f \<notin> free_frames t" using t S nres "1.prems"(4) by auto
        note bf = booting_free_frame [OF conjunct1 [OF t] conjunct2 [OF conjunct2 [OF t]] nf]
        have "free_region kend addr e s = free_region kend (addr + 0x1000) e (buddy_free ?f 0 t)"
          using res nres False lt by (subst free_region.simps) (auto simp: t_def Let_def)
        moreover have "?R \<inter> free_frames (buddy_free ?f 0 t) = {}"
          using bf(2) t "1.prems"(4) S nres pg nx by (auto simp: span_frames_def)
        moreover note "1.IH"(2) [OF lt refl False _ t_def bf(1) al "1.prems"(3)]
        ultimately show ?thesis using nres res S bf(2) t by auto
      qed
    qed
  qed
qed

section \<open>The memory map\<close>

text \<open>
  \<open>mmap_at m p lim sz es\<close>: the entries the loop reads from address \<open>p\<close> up to \<open>lim\<close>
  in steps of \<open>sz\<close> are \<open>es\<close>, so the loop makes finitely many rounds.
\<close>

primrec mmap_at :: "bytes \<Rightarrow> u32 \<Rightarrow> u32 \<Rightarrow> u32 \<Rightarrow> (u64 \<times> u64 \<times> u32) list \<Rightarrow> bool" where
  "mmap_at m p lim sz [] \<longleftrightarrow> \<not> p < lim"
| "mmap_at m p lim sz (e # es) \<longleftrightarrow> p < lim \<and> e = ld_mmap_entry m p \<and> mmap_at m (p + sz) lim sz es"

lemma free_entries_fold:
  "mmap_at m p lim sz es \<Longrightarrow> free_entries m kend p lim sz s = Some (fold (free_entry kend) es s)"
  by (induction es arbitrary: p s) (simp_all add: free_entries.simps)

text \<open>The whole frames of an available entry; entries of other types offer none.\<close>

definition entry_frames :: "u64 \<times> u64 \<times> u32 \<Rightarrow> nat set" where
  "entry_frames = (\<lambda>(base_addr, len, typ).
     if typ = MULTIBOOT2_MEMORY_AVAILABLE
     then {f. unat base_addr \<le> f * 4096 \<and> (f + 1) * 4096 \<le> unat base_addr + unat len} else {})"

definition usable_frames :: "u32 \<Rightarrow> (u64 \<times> u64 \<times> u32) list \<Rightarrow> nat set" where
  "usable_frames kend es = {f. (\<exists>e \<in> set es. f \<in> entry_frames e) \<and> f < 65536 \<and> \<not> reserved kend f}"

text \<open>No entry reaches beyond 16 TiB and no frame is offered by two entries.\<close>

primrec sane_mmap :: "(u64 \<times> u64 \<times> u32) list \<Rightarrow> bool" where
  "sane_mmap [] \<longleftrightarrow> True"
| "sane_mmap (e # es) \<longleftrightarrow> (case e of (b, l, t) \<Rightarrow> unat b + unat l \<le> 2 ^ 43) \<and>
     (\<forall>e' \<in> set es. entry_frames e \<inter> entry_frames e' = {}) \<and> sane_mmap es"

lemma free_entry_correct:
  assumes b: "booting s" and sane: "unat base + unat len \<le> 2 ^ 43"
    and d: "usable_frames kend [(base, len, typ)] \<inter> free_frames s = {}"
  shows "booting (free_entry kend (base, len, typ) s) \<and>
    free_frames (free_entry kend (base, len, typ) s) =
      free_frames s \<union> usable_frames kend [(base, len, typ)]"
proof (cases "typ = MULTIBOOT2_MEMORY_AVAILABLE")
  case False
  with b show ?thesis by (simp add: free_entry_def usable_frames_def entry_frames_def)
next
  case True
  let ?a = "(base + 0x1000 - 1) AND NOT 0xFFF" and ?e = "(base + len) AND NOT 0xFFF"
  have a: "unat ?a = (unat base + 4095) div 4096 * 4096"
  proof -
    have "base + 0x1000 - 1 = base + 0xFFF" by simp
    moreover have "unat (base + 0xFFF) = unat base + 4095" using sane by (simp add: unat_word_ariths)
    ultimately show ?thesis by (metis unat_page_base64)
  qed
  have e: "unat ?e = (unat base + unat len) div 4096 * 4096"
  proof -
    have "unat (base + len) = unat base + unat len" using sane by (simp add: unat_word_ariths)
    then show ?thesis by (metis unat_page_base64)
  qed
  have "(unat base + 4095) div 4096 * 4096 \<le> f * 4096 \<longleftrightarrow> unat base \<le> f * 4096" for f
    using div_less_iff_less_mult [of 4096 "unat base + 4095" "Suc f"] by (auto simp: less_Suc_eq_le)
  moreover have "f * 4096 < (unat base + unat len) div 4096 * 4096 \<longleftrightarrow>
      (f + 1) * 4096 \<le> unat base + unat len" for f
    using less_eq_div_iff_mult_less_eq [of 4096 "Suc f" "unat base + unat len"] by auto
  ultimately have sp: "span_frames kend (unat ?a) (unat ?e) = usable_frames kend [(base, len, typ)]"
    using True unfolding a e by (simp add: span_frames_def usable_frames_def entry_frames_def conj_assoc)
  have "4096 dvd unat ?a" "unat ?e \<le> 2 ^ 44" using sane by (simp_all only: a e) auto
  from free_region_correct [OF b this] d show ?thesis
    using True sp by (simp add: free_entry_def)
qed

lemma free_entries_correct:
  assumes "booting s" and "sane_mmap es" and "usable_frames kend es \<inter> free_frames s = {}"
  shows "booting (fold (free_entry kend) es s) \<and>
    free_frames (fold (free_entry kend) es s) = free_frames s \<union> usable_frames kend es"
  using assms
proof (induction es arbitrary: s)
  case Nil
  then show ?case by (simp add: usable_frames_def)
next
  case (Cons e es)
  obtain b l t where e: "e = (b, l, t)" by (metis prod_cases3)
  have u: "usable_frames kend (e # es) = usable_frames kend [e] \<union> usable_frames kend es"
    by (auto simp: usable_frames_def)
  have "booting (free_entry kend e s) \<and> free_frames (free_entry kend e s) = free_frames s \<union> usable_frames kend [e]"
    using free_entry_correct [of s b l kend t] Cons.prems u by (auto simp: e)
  moreover from this have "usable_frames kend es \<inter> free_frames (free_entry kend e s) = {}"
    using Cons.prems u by (auto simp: usable_frames_def)
  ultimately show ?case using Cons.IH [of "free_entry kend e s"] Cons.prems(2) u by auto
qed

lemma booting_reset: "booting (pmm_reset s)" "free_frames (pmm_reset s) = {}"
proof -
  let ?t = "pmm_reset s"
  have nb: "\<not> is_buddy (mem_map ?t h)" for h by (simp add: pmm_reset_def is_buddy_def page0_def)
  then have fh: "free_heads ?t n = {}" for n by (simp add: free_heads_def)
  then have fb: "free_blocks ?t = {}" by (simp add: free_blocks_def)
  then show ff: "free_frames ?t = {}" by (simp add: free_frames_def)
  have us: "used_blocks ?t = {}" by (simp add: used_blocks_def pmm_reset_def page0_def)
  have "on_list ?t n []" for n by (simp add: on_list_def pmm_reset_def)
  then have "lists_ok ?t" using fh by (force simp: lists_ok_def)
  then have "pool_ok ?t" using nb by (simp add: pool_ok_def coalesced_def fh) (simp add: pmm_reset_def)
  then show "booting ?t"
    using nb by (simp add: booting_def pmm_inv_def fb us ff blocks_ok_def)
      (simp add: pmm_reset_def page0_def)
qed

end
