(* ===== verification/Pmm_Spec.thy ===== *)
theory Pmm_Spec
  imports Pmm_Init
begin

text \<open>
  What the physical memory manager promises. The first part is the interface its clients
  (page tables, page cache) rely on, a pool of reference-counted frames, as a locale that
  the buddy allocator interprets; the second part is the properties of the allocator.
\<close>

section \<open>The interface: reference-counted frames\<close>

locale frame_pool =
  fixes inv :: "'s \<Rightarrow> bool"
    and managed :: "'s \<Rightarrow> u32 set"
    and refs :: "'s \<Rightarrow> u32 \<Rightarrow> nat"
    and alloc :: "'s \<Rightarrow> u32 \<times> 's"
    and free :: "u32 \<Rightarrow> 's \<Rightarrow> 's"
    and inc :: "u32 \<Rightarrow> 's \<Rightarrow> 's"
  assumes inv_alloc: "inv s \<Longrightarrow> inv (snd (alloc s))"
    and inv_free: "inv s \<Longrightarrow> inv (free a s)"
    and inv_inc: "inv s \<Longrightarrow> inv (inc a s)"
    and refs_alloc: "inv s \<Longrightarrow> alloc s = (a, t) \<Longrightarrow> a \<noteq> PMM_ALLOC_ERROR \<Longrightarrow>
      refs s (a div 0x1000) = 0 \<and> refs t = (refs s)(a div 0x1000 := 1)"
    and alloc_fails: "inv s \<Longrightarrow> alloc s = (PMM_ALLOC_ERROR, t) \<Longrightarrow> t = s"
    and alloc_aligned: "inv s \<Longrightarrow> alloc s = (a, t) \<Longrightarrow> a \<noteq> PMM_ALLOC_ERROR \<Longrightarrow> a AND 0xFFF = 0"
    and alloc_window: "inv s \<Longrightarrow> alloc s = (a, t) \<Longrightarrow> a \<noteq> PMM_ALLOC_ERROR \<Longrightarrow> a < 0x10000000"
    and refs_free: "inv s \<Longrightarrow> refs (free a s) = (refs s)(a div 0x1000 := refs s (a div 0x1000) - 1)"
    and refs_inc: "inv s \<Longrightarrow> refs (inc a s) =
      (if 0 < refs s (a div 0x1000) \<and> refs s (a div 0x1000) < 255
       then (refs s)(a div 0x1000 := refs s (a div 0x1000) + 1) else refs s)"
    and alloc_managed: "inv s \<Longrightarrow> alloc s = (a, t) \<Longrightarrow> a \<noteq> PMM_ALLOC_ERROR \<Longrightarrow> a div 0x1000 \<in> managed s"
    and managed_alloc: "inv s \<Longrightarrow> managed (snd (alloc s)) = managed s"
    and managed_free: "inv s \<Longrightarrow> managed (free a s) = managed s"
    and managed_inc: "inv s \<Longrightarrow> managed (inc a s) = managed s"
    and refs_managed: "inv s \<Longrightarrow> 0 < refs s q \<Longrightarrow> q \<in> managed s \<and> q < 0x10000"
begin

lemma inv_free_all: "inv s \<Longrightarrow> inv (fold free as s)"
  by (induction as arbitrary: s) (auto simp: inv_free)

lemma refs_free_all:
  "inv s \<Longrightarrow> refs (fold free as s) p = refs s p - length (filter (\<lambda>a. a div 0x1000 = p) as)"
  by (induction as arbitrary: s) (auto simp: inv_free refs_free)

lemma inv_inc_all: "inv s \<Longrightarrow> inv (fold inc as s)"
  by (induction as arbitrary: s) (auto simp: inv_inc)

lemma refs_inc_mono: "inv s \<Longrightarrow> refs s p \<le> refs (inc a s) p"
  by (auto simp: refs_inc)

lemma inc_then_free:
  assumes "inv s" and "0 < refs s (a div 0x1000)" and "refs s (a div 0x1000) < 255"
  shows "refs (free a (inc a s)) = refs s"
  using assms by (auto simp: refs_inc refs_free inv_inc)

lemma alloc_then_free:
  assumes "inv s" and "alloc s = (a, t)" and "a \<noteq> PMM_ALLOC_ERROR"
  shows "refs (free a t) = refs s"
  using assms inv_alloc [OF assms(1)] refs_alloc [OF assms] by (auto simp: refs_free)

lemma allocs_distinct:
  assumes "inv s" and "alloc s = (a, t)" and "a \<noteq> PMM_ALLOC_ERROR"
    and "alloc t = (b, u)" and "b \<noteq> PMM_ALLOC_ERROR"
  shows "a div 0x1000 \<noteq> b div 0x1000"
proof -
  have t: "inv t" using inv_alloc [OF assms(1)] assms(2) by simp
  show ?thesis using refs_alloc [OF assms(1-3)] refs_alloc [OF t assms(4,5)] by auto
qed

end

section \<open>The buddy allocator implements the interface\<close>

definition frame_refs :: "pmm \<Rightarrow> u32 \<Rightarrow> nat" where
  "frame_refs s p = (if p < s_max_frames s then unat (pg_refcount (mem_map s p)) else 0)"

text \<open>The frames the allocator manages, free or in use: they never change after boot.\<close>

definition managed_frames :: "pmm \<Rightarrow> u32 set" where
  "managed_frames s = {p. unat p \<in> free_frames s \<union> cover (used_blocks s)}"

lemma ref_count_frame_refs: "unat (pmm_ref_count a s) = frame_refs s (a div PMM_FRAME_SIZE)"
  by (auto simp: pmm_ref_count_def frame_refs_def Let_def not_le)

lemma alloc_pages_inv: "pmm_inv s \<Longrightarrow> pmm_inv (snd (pmm_alloc_pages n s))"
proof (cases "fst (pmm_alloc_pages n s) = PMM_ALLOC_ERROR")
  case False
  assume "pmm_inv s"
  then show ?thesis using False by (metis alloc_pages_success prod.collapse)
qed (simp add: alloc_pages_error_state)

lemma free_pages_inv: "pmm_inv s \<Longrightarrow> pmm_inv (pmm_free_pages a n s)"
  by (metis free_pages_cases(1) free_pages_noop leI)

lemma free_pages_refs:
  assumes "pmm_inv s"
  shows "frame_refs (pmm_free_pages a n s) =
    (frame_refs s)(a div PMM_FRAME_SIZE := frame_refs s (a div PMM_FRAME_SIZE) - 1)"
proof (cases "a div PMM_FRAME_SIZE < s_max_frames s \<and> pg_refcount (mem_map s (a div PMM_FRAME_SIZE)) \<noteq> 0")
  case True
  note fc = free_pages_cases [OF assms refl conjunct1 [OF True] conjunct2 [OF True], of n]
  have "unat (pg_refcount (mem_map s (a div PMM_FRAME_SIZE)) - 1) =
      unat (pg_refcount (mem_map s (a div PMM_FRAME_SIZE))) - 1"
    using True by (simp add: unat_minus_one)
  then show ?thesis using True by (auto simp: fun_eq_iff frame_refs_def fc(2,3))
next
  case False
  then have "pmm_free_pages a n s = s" by (intro free_pages_noop) auto
  with False show ?thesis by (auto simp: frame_refs_def fun_eq_iff)
qed

lemma inc_ref_refs:
  assumes "pmm_inv s"
  shows "frame_refs (pmm_inc_ref a s) =
    (if 0 < frame_refs s (a div PMM_FRAME_SIZE) \<and> frame_refs s (a div PMM_FRAME_SIZE) < 255
     then (frame_refs s)(a div PMM_FRAME_SIZE := frame_refs s (a div PMM_FRAME_SIZE) + 1)
     else frame_refs s)"
proof -
  let ?f = "a div PMM_FRAME_SIZE"
  note ic = inc_ref_cases [OF assms refl, of a]
  have c: "c \<noteq> 0xFF \<longleftrightarrow> unat c < 255" "c \<noteq> 0 \<longleftrightarrow> 0 < unat c" for c :: u8
    using unsigned_less [where ?'a = nat, of c] unat_eq_iff [of c 255] by (auto simp: unat_gt_0)
  have "unat (c + 1) = unat c + 1" if "unat c < 255" for c :: u8
    using that by (simp add: unat_word_ariths)
  then show ?thesis by (auto simp: fun_eq_iff frame_refs_def ic(2,5) c)
qed

lemma alloc_pages_managed:
  assumes "pmm_inv s" shows "managed_frames (snd (pmm_alloc_pages n s)) = managed_frames s"
proof (cases "fst (pmm_alloc_pages n s) = PMM_ALLOC_ERROR")
  case False
  then obtain f :: u32 where "blk (unat f) n \<subseteq> free_frames s"
    "free_frames (snd (pmm_alloc_pages n s)) = free_frames s - blk (unat f) n"
    "used_blocks (snd (pmm_alloc_pages n s)) = insert (unat f, n) (used_blocks s)"
    by - (rule alloc_pages_success [OF assms surjective_pairing False], rule that, assumption+)
  then show ?thesis by (auto simp: managed_frames_def)
qed (simp add: alloc_pages_error_state assms)

lemma free_pages_managed:
  assumes inv: "pmm_inv s" shows "managed_frames (pmm_free_pages a n s) = managed_frames s"
proof (cases "a div PMM_FRAME_SIZE < s_max_frames s \<and> pg_refcount (mem_map s (a div PMM_FRAME_SIZE)) \<noteq> 0")
  case True
  let ?f = "a div PMM_FRAME_SIZE"
  define n' where "n' = unat (pg_order (mem_map s ?f))"
  note fc = free_pages_cases [OF inv refl conjunct1 [OF True] conjunct2 [OF True], of n, folded n'_def]
  have "(unat ?f, n') \<in> used_blocks s" using True by (auto simp: used_blocks_def n'_def)
  then have "insert (unat ?f, n') (used_blocks s - {(unat ?f, n')}) = used_blocks s" by auto
  from arg_cong [OF this, of cover]
  have c: "cover (used_blocks s) = blk (unat ?f) n' \<union> cover (used_blocks s - {(unat ?f, n')})"
    by (simp only: cover_simps)
  show ?thesis
  proof (cases "pg_refcount (mem_map s ?f) = 1")
    case True
    then show ?thesis using fc(4,5) c by (auto simp: managed_frames_def)
  next
    case False
    then show ?thesis using fc(6,7) by (simp add: managed_frames_def)
  qed
qed (metis free_pages_noop leI)

interpretation pmm: frame_pool pmm_inv managed_frames frame_refs pmm_alloc_frame pmm_free_frame pmm_inc_ref
proof
  fix s t :: pmm and a :: u32
  assume inv: "pmm_inv s"
  show "pmm_inv (snd (pmm_alloc_frame s))" using inv by (simp add: pmm_alloc_frame_def alloc_pages_inv)
  show "pmm_inv (pmm_free_frame a s)" using inv by (simp add: pmm_free_frame_def free_pages_inv)
  show "pmm_inv (pmm_inc_ref a s)" using inc_ref_cases(1) [OF inv refl] .
  show "frame_refs (pmm_free_frame a s) =
      (frame_refs s)(a div 0x1000 := frame_refs s (a div 0x1000) - 1)"
    using free_pages_refs [OF inv] by (simp add: pmm_free_frame_def)
  show "frame_refs (pmm_inc_ref a s) =
      (if 0 < frame_refs s (a div 0x1000) \<and> frame_refs s (a div 0x1000) < 255
       then (frame_refs s)(a div 0x1000 := frame_refs s (a div 0x1000) + 1) else frame_refs s)"
    by (rule inc_ref_refs [OF inv])
  show "managed_frames (snd (pmm_alloc_frame s)) = managed_frames s"
    using alloc_pages_managed [OF inv] by (simp add: pmm_alloc_frame_def)
  show "managed_frames (pmm_free_frame a s) = managed_frames s"
    using free_pages_managed [OF inv] by (simp add: pmm_free_frame_def)
  show "managed_frames (pmm_inc_ref a s) = managed_frames s"
    using inc_ref_cases(3,4) [OF inv refl] by (simp add: managed_frames_def)
  show "q \<in> managed_frames s \<and> q < 0x10000" if "0 < frame_refs s q" for q
  proof
    have q: "q < s_max_frames s" "pg_refcount (mem_map s q) \<noteq> 0"
      using that by (auto simp: frame_refs_def split: if_splits)
    then have "(unat q, unat (pg_order (mem_map s q))) \<in> used_blocks s" by (auto simp: used_blocks_def)
    then have "unat q \<in> cover (used_blocks s)" using blk_facts(3) by (force simp: cover_def)
    then show "q \<in> managed_frames s" by (simp add: managed_frames_def)
    show "q < 0x10000" using q(1) inv by (auto simp: pmm_inv_def pool_ok_def)
  qed
  show "pmm_alloc_frame s = (PMM_ALLOC_ERROR, t) \<Longrightarrow> t = s"
    using alloc_pages_error_state [of 0 s] inv by (auto simp: pmm_alloc_frame_def)
  assume "pmm_alloc_frame s = (a, t)" and ne: "a \<noteq> PMM_ALLOC_ERROR"
  then have al: "pmm_alloc_pages 0 s = (a, t)" by (simp add: pmm_alloc_frame_def)
  obtain f where f: "a = f * PMM_FRAME_SIZE" "f < s_max_frames s" "pg_refcount (mem_map t f) = 1"
      "pg_refcount (mem_map s f) = 0" "s_max_frames t = s_max_frames s" "blk (unat f) 0 \<subseteq> free_frames s"
      "\<And>h. h \<noteq> f \<Longrightarrow> pg_refcount (mem_map t h) = pg_refcount (mem_map s h)"
    using alloc_pages_success [OF inv al ne] by metis
  have f16: "unat f < 65536" using inv f(2) small_frame by (auto simp: pmm_inv_def pool_ok_def)
  have "a div 0x1000 = f" using f(1) frame_addr(3) [OF f16] by simp
  then show "frame_refs s (a div 0x1000) = 0 \<and> frame_refs t = (frame_refs s)(a div 0x1000 := 1)"
    using f by (auto simp: frame_refs_def fun_eq_iff)
  show "a div 0x1000 \<in> managed_frames s"
    using f(6) \<open>a div 0x1000 = f\<close> by (auto simp: managed_frames_def blk_def)
  have ua: "unat a = unat f * 4096" using f(1) frame_addr(1) [OF f16] by simp
  then show "a < 0x10000000" using f16 by (simp add: word_less_nat_alt)
  show "a AND 0xFFF = 0" using ua by (rule page_offset_zero)
qed

end
