(* ===== verification/Pmm_Properties.thy ===== *)
theory Pmm_Properties
  imports Pmm_Spec
begin

text \<open>
  The properties of the buddy allocator, each with a closed instance on a small pool.
\<close>

section \<open>The block decomposition is canonical\<close>

lemma nested_or_disjoint:
  assumes "n \<le> m" and "2 ^ n dvd a" and "2 ^ m dvd b" and "blk a n \<inter> blk b m \<noteq> {}"
  shows "blk a n \<subseteq> blk b m"
proof -
  obtain i where i: "a = 2 ^ n * i" using assms(2) by (elim dvdE)
  obtain j where j: "b = 2 ^ n * j" using assms(1,3) by (meson dvdE dvd_trans le_imp_power_dvd)
  obtain k where k: "(2::nat) ^ m = 2 ^ n * k" using assms(1) by (meson dvdE le_imp_power_dvd)
  have "a < b + 2 ^ m" "b < a + 2 ^ n" using assms(4) by (auto simp: blk_def)
  then have "2 ^ n * i < 2 ^ n * (j + k)" "2 ^ n * j < 2 ^ n * (i + 1)"
    by (simp_all add: i j k algebra_simps)
  then have "i < j + k" "j < i + 1" by (simp_all only: mult_less_cancel1)
  then have "2 ^ n * j \<le> 2 ^ n * i" "2 ^ n * (i + 1) \<le> 2 ^ n * (j + k)"
    by (intro mult_le_mono2; simp)+
  then show ?thesis by (auto simp: blk_def i j k algebra_simps)
qed

text \<open>Every aligned free run of frames lies inside one free block.\<close>

lemma free_run_in_block:
  assumes inv: "pmm_inv s" and n: "n < PMM_MAX_ORDER" and al: "2 ^ n dvd f"
    and sub: "blk f n \<subseteq> free_frames s"
  shows "\<exists>g m. (g, m) \<in> free_blocks s \<and> n \<le> m \<and> blk f n \<subseteq> blk g m"
  using n al sub
proof (induction n arbitrary: f)
  case 0
  then have "f \<in> free_frames s" by (auto simp: blk_def)
  then obtain g m where "(g, m) \<in> free_blocks s" "f \<in> blk g m"
    by (auto simp: free_frames_def cover_def)
  then show ?case by (auto simp: blk_def)
next
  case (Suc n)
  have ok: "blocks_ok (free_blocks s) (unat (s_max_frames s))"
    using inv blocks_ok_subset by (auto simp: pmm_inv_def)
  have al': "2 ^ n dvd f" using Suc.prems(2) by (metis dvd_mult_right power_Suc)
  have "blk f n \<subseteq> free_frames s" "blk (f + 2 ^ n) n \<subseteq> free_frames s"
    using Suc.prems(3) blk_split(1) [of f n] by auto
  then obtain g m h k where g: "(g, m) \<in> free_blocks s" "n \<le> m" "blk f n \<subseteq> blk g m"
    and h: "(h, k) \<in> free_blocks s" "n \<le> k" "blk (f + 2 ^ n) n \<subseteq> blk h k"
    using Suc.IH [OF _ al'] Suc.IH [of "f + 2 ^ n"] al' Suc.prems(1) by (metis Suc_lessD dvd_add dvd_refl)
  note gd = blocks_okD [OF ok g(1)] and hd = blocks_okD [OF ok h(1)]
  have up: "blk f (Suc n) \<subseteq> blk x y" if "Suc n \<le> y" "2 ^ y dvd x" "z \<in> blk f (Suc n)" "z \<in> blk x y" for x y z
    using nested_or_disjoint [OF that(1) Suc.prems(2) that(2)] that(3,4) by auto
  show ?case
  proof (cases "Suc n \<le> m \<or> Suc n \<le> k")
    case True
    have "f \<in> blk g m" "f \<in> blk f (Suc n)" "f + 2 ^ n \<in> blk h k" "f + 2 ^ n \<in> blk f (Suc n)"
      using subsetD [OF g(3) blk_facts(3)] subsetD [OF h(3) blk_facts(3)] blk_split(1) [of f n] by auto
    then show ?thesis using True up g(1) h(1) gd(2) hd(2) by blast
  next
    case False
    then have mk: "m = n" "k = n" using g(2) h(2) by auto
    have "f \<in> blk g n" "f + 2 ^ n \<in> blk h n" using g(3) h(3) mk by (auto simp: blk_def)
    then have "g = f" "h = f + 2 ^ n"
      using blk_aligned_disjoint_or_eq [OF al' gd(2) [unfolded mk]]
        blk_aligned_disjoint_or_eq [of n "f + 2 ^ n" h] al' hd(2) mk
        blk_facts(3) [of f n] blk_facts(3) [of "f + 2 ^ n" n] dvd_add [OF al' dvd_refl]
      by blast+
    with g(1) h(1) mk obtain a b where ab: "a \<in> free_heads s n" "b \<in> free_heads s n"
      "unat a = f" "unat b = f + 2 ^ n"
      by (auto simp: free_blocks_def)
    have "even (f div 2 ^ n)" using Suc.prems(2) by (auto elim!: dvdE simp: mult.assoc)
    then have "unat a XOR 2 ^ n = unat b" using buddy_nat [OF al'] ab by simp
    then have "b = a XOR push_bit n 1"
      using Suc.prems(1) by (simp only: unat_buddy [symmetric] unat_eq_iff)
    then show ?thesis using inv ab(1,2) Suc.prems(1) by (auto simp: pmm_inv_def pool_ok_def coalesced_def)
  qed
qed

lemma free_blocks_canonical:
  assumes "pmm_inv s" and "pmm_inv t" and eq: "free_frames s = free_frames t"
  shows "free_blocks s \<subseteq> free_blocks t"
proof
  fix x assume "x \<in> free_blocks s"
  then obtain g m where x: "x = (g, m)" "(g, m) \<in> free_blocks s" by (cases x) auto
  have ok: "blocks_ok (free_blocks s) (unat (s_max_frames s))"
      "blocks_ok (free_blocks t) (unat (s_max_frames t))"
    using assms blocks_ok_subset by (auto simp: pmm_inv_def)
  note gd = blocks_okD [OF ok(1) x(2)]
  have "blk g m \<subseteq> free_frames t" using in_cover [OF x(2)] eq by (simp add: free_frames_def)
  then obtain h k where h: "(h, k) \<in> free_blocks t" "m \<le> k" "blk g m \<subseteq> blk h k"
    using free_run_in_block [OF assms(2) gd(1,2)] by blast
  note hd = blocks_okD [OF ok(2) h(1)]
  have "blk h k \<subseteq> free_frames s" using in_cover [OF h(1)] eq by (simp add: free_frames_def)
  then obtain g' m' where g': "(g', m') \<in> free_blocks s" "k \<le> m'" "blk h k \<subseteq> blk g' m'"
    using free_run_in_block [OF assms(1) hd(1,2)] by blast
  then have "(g', m') = (g, m)"
    using blocks_okD(4) [OF ok(1) x(2) g'(1)] h(3) blk_facts(3) [of g m] by blast
  then have "k = m" "blk h k = blk g m" using h g' by auto
  then have "(h, k) = (g, m)" by (auto simp: blk_def atLeastLessThan_eq_iff)
  then show "x \<in> free_blocks t" using h(1) x(1) by simp
qed

section \<open>A small pool\<close>

text \<open>Frames 1 to 3 of a four-frame machine, freed one after the other.\<close>

definition pool3 :: pmm where
  "pool3 = buddy_free 3 0 (buddy_free 2 0 (buddy_free 1 0 (pmm_reset
     \<lparr>mem_map = \<lambda>_. page0, free_lists = \<lambda>_. 0, s_max_frames = 0, s_free_frames = 0,
      s_total_managed_frames = 0\<rparr>\<lparr>s_max_frames := 4\<rparr>)))"

lemma pool3_booting: "booting pool3 \<and> free_frames pool3 = {1, 2, 3}"
proof -
  define z where "z = pmm_reset \<lparr>mem_map = \<lambda>_. page0, free_lists = \<lambda>_. 0, s_max_frames = 0,
    s_free_frames = 0, s_total_managed_frames = 0\<rparr>"
  define s where "s = z\<lparr>s_max_frames := 4\<rparr>"
  have z: "booting z" "free_frames z = {}" "s_max_frames z = 0"
    by (simp_all add: z_def booting_reset) (simp add: pmm_reset_def)
  then have 0: "booting s" "free_frames s = {}" "s_max_frames s = 4"
    using booting_raise [OF z(1), of 4] by (simp_all add: s_def)
  have 1: "booting (buddy_free 1 0 s)" "free_frames (buddy_free 1 0 s) = {1}"
    "s_max_frames (buddy_free 1 0 s) = 4"
    using booting_free_frame [OF 0(1), of 1] 0 by simp_all
  have 2: "booting (buddy_free 2 0 (buddy_free 1 0 s))"
    "free_frames (buddy_free 2 0 (buddy_free 1 0 s)) = {1, 2}"
    "s_max_frames (buddy_free 2 0 (buddy_free 1 0 s)) = 4"
    using booting_free_frame [OF 1(1), of 2] 1 by auto
  show ?thesis
    using booting_free_frame [OF 2(1), of 3] 2 by (auto simp: pool3_def s_def z_def)
qed

lemma pool3_inv: "pmm_inv pool3" using pool3_booting by (simp add: booting_def)

lemma pool3_alloc: "fst (pmm_alloc_pages 1 pool3) = 0x2000"
  by code_simp

lemma pool3_alloc_pair: "pmm_alloc_pages 1 pool3 = (0x2000, snd (pmm_alloc_pages 1 pool3))"
  using pool3_alloc by (metis prod.collapse)

lemma largest_free_below_cong:
  assumes "\<And>m. m < k \<Longrightarrow> free_lists s m = PMM_NIL \<longleftrightarrow> free_lists t m = PMM_NIL"
  shows "largest_free_below s k = largest_free_below t k"
  using assms by (induction k) auto

lemma same_free_blocks_largest:
  assumes "pmm_inv s" and "pmm_inv t" and "free_blocks s = free_blocks t"
  shows "pmm_largest_free_order s = pmm_largest_free_order t"
  unfolding pmm_largest_free_order_def
proof (rule largest_free_below_cong)
  fix m assume m: "m < PMM_MAX_ORDER"
  have "free_heads s m = free_heads t m"
    using assms(3) m free_blocks_iff by (metis subsetI subset_antisym)
  then show "free_lists s m = PMM_NIL \<longleftrightarrow> free_lists t m = PMM_NIL"
    using head_nil_iff m assms(1,2) by (simp add: pmm_inv_def pool_ok_def)
qed

section \<open>Properties\<close>

text \<open>
  C1. A successful \<open>pmm_alloc_pages\<close> returns the address of a naturally aligned block
  of \<open>2 ^ n\<close> frames that were all free and overlap no block in use; exactly those frames
  leave the pool, the free counter drops by their number, the head has reference count 1,
  and the allocator's invariant holds again.
\<close>

theorem pmm_alloc_pages_sound:
  assumes "pmm_inv s" and "pmm_alloc_pages n s = (a, t)" and "a \<noteq> PMM_ALLOC_ERROR"
  shows "\<exists>f. unat a = f * 4096 \<and> 2 ^ n dvd f \<and> blk f n \<subseteq> free_frames s \<and>
    blk f n \<inter> cover (used_blocks s) = {} \<and>
    free_frames t = free_frames s - blk f n \<and> used_blocks t = insert (f, n) (used_blocks s) \<and>
    unat (pmm_free_count t) + 2 ^ n = unat (pmm_free_count s) \<and>
    pmm_ref_count a t = 1 \<and> pmm_inv t"
proof -
  obtain f where a: "a = f * PMM_FRAME_SIZE" and f: "f < s_max_frames s" "2 ^ n dvd unat f"
      "n < PMM_MAX_ORDER" and sub: "blk (unat f) n \<subseteq> free_frames s"
      and ff: "free_frames t = free_frames s - blk (unat f) n"
      and ub: "used_blocks t = insert (unat f, n) (used_blocks s)"
      and rc: "pg_refcount (mem_map t f) = 1" "pg_refcount (mem_map s f) = 0"
      and it: "pmm_inv t" "s_max_frames t = s_max_frames s"
    using alloc_pages_success [OF assms] by metis
  have f16: "unat f < 65536" using assms(1) f(1) small_frame by (auto simp: pmm_inv_def pool_ok_def)
  have fin: "finite (free_frames s)" using assms(1) free_frames_finite by (simp add: pmm_inv_def)
  have "card (free_frames t) + 2 ^ n = card (free_frames s)"
    using card_Diff_subset [OF _ sub] card_mono [OF fin sub] by (simp add: ff)
  then have cnt: "unat (pmm_free_count t) + 2 ^ n = unat (pmm_free_count s)"
    using assms(1) it(1) by (simp add: pmm_free_count_def pmm_inv_def)
  have "blocks_ok (insert (unat f, n) (used_blocks s)) (unat (s_max_frames s))"
    by (rule blocks_ok_subset [of "free_blocks t \<union> used_blocks t"]) (use it ub in \<open>auto simp: pmm_inv_def\<close>)
  moreover have "(unat f, n) \<notin> used_blocks s" using rc(2) by (simp add: used_blocks_iff)
  ultimately have "blk (unat f) n \<inter> cover (used_blocks s) = {}" by (simp add: blocks_ok_insert)
  moreover have "pmm_ref_count a t = 1"
    using rc(1) it(2) f(1) by (simp add: pmm_ref_count_def a frame_addr(3) [OF f16])
  ultimately show ?thesis
    using a frame_addr(1) [OF f16] f(2) sub ff ub cnt it(1) by (intro exI [of _ "unat f"]) simp
qed

theorem pmm_alloc_pages_sound_witness:
  "\<exists>t. pmm_inv pool3 \<and> pmm_alloc_pages 1 pool3 = (0x2000, t) \<and>
     (\<exists>f. unat (0x2000 :: u32) = f * 4096 \<and> 2 ^ 1 dvd f \<and> blk f 1 \<subseteq> free_frames pool3 \<and>
        free_frames t = free_frames pool3 - blk f 1 \<and> pmm_inv t)"
  using pmm_alloc_pages_sound [OF pool3_inv pool3_alloc_pair] pool3_inv pool3_alloc_pair by auto

text \<open>
  C17. The buddy allocator never fails through fragmentation of aligned memory: a request
  of a legal order succeeds exactly when some naturally aligned run of \<open>2 ^ n\<close> frames is
  entirely free, and a failed request leaves the state as it was.
\<close>

theorem pmm_alloc_pages_complete:
  assumes "pmm_inv s" and "n < PMM_MAX_ORDER"
  shows "(fst (pmm_alloc_pages n s) \<noteq> PMM_ALLOC_ERROR \<longleftrightarrow>
      (\<exists>f. 2 ^ n dvd f \<and> blk f n \<subseteq> free_frames s)) \<and>
    (fst (pmm_alloc_pages n s) = PMM_ALLOC_ERROR \<longrightarrow> snd (pmm_alloc_pages n s) = s)"
proof (rule conjI)
  show "fst (pmm_alloc_pages n s) = PMM_ALLOC_ERROR \<longrightarrow> snd (pmm_alloc_pages n s) = s"
    using alloc_pages_error_state assms(1) by blast
  show "fst (pmm_alloc_pages n s) \<noteq> PMM_ALLOC_ERROR \<longleftrightarrow> (\<exists>f. 2 ^ n dvd f \<and> blk f n \<subseteq> free_frames s)"
  proof
    assume "fst (pmm_alloc_pages n s) \<noteq> PMM_ALLOC_ERROR"
    then show "\<exists>f. 2 ^ n dvd f \<and> blk f n \<subseteq> free_frames s"
      using alloc_pages_success [OF assms(1)] by (metis prod.collapse)
  next
    assume "\<exists>f. 2 ^ n dvd f \<and> blk f n \<subseteq> free_frames s"
    then obtain g m where g: "(g, m) \<in> free_blocks s" "n \<le> m"
      using free_run_in_block [OF assms] by blast
    then have "free_heads s m \<noteq> {}" "m < PMM_MAX_ORDER" by (auto simp: free_blocks_def)
    then show "fst (pmm_alloc_pages n s) \<noteq> PMM_ALLOC_ERROR"
      using alloc_pages_error_iff [OF assms(1)] g(2) by blast
  qed
qed

theorem pmm_alloc_pages_complete_witness:
  "pmm_inv pool3 \<and> (\<exists>f. 2 ^ 1 dvd f \<and> blk f 1 \<subseteq> free_frames pool3) \<and>
     \<not> (\<exists>f. 2 ^ 2 dvd f \<and> blk f 2 \<subseteq> free_frames pool3) \<and> snd (pmm_alloc_pages 2 pool3) = pool3"
proof -
  have "fst (pmm_alloc_pages 2 pool3) = PMM_ALLOC_ERROR" by code_simp
  then show ?thesis
    using pmm_alloc_pages_complete [OF pool3_inv, of 1] pmm_alloc_pages_complete [OF pool3_inv, of 2]
      pool3_inv pool3_alloc by simp
qed

text \<open>
  C31. Allocating a block and freeing it again restores the pool: the same free blocks,
  hence the same largest order on offer, the same blocks in use and the same counter. In
  particular every split made for the allocation is merged back.
\<close>

theorem pmm_alloc_free_roundtrip:
  assumes "pmm_inv s" and "pmm_alloc_pages n s = (a, t)" and "a \<noteq> PMM_ALLOC_ERROR"
  shows "pmm_inv (pmm_free_pages a n t) \<and> free_blocks (pmm_free_pages a n t) = free_blocks s \<and>
    used_blocks (pmm_free_pages a n t) = used_blocks s \<and>
    pmm_largest_free_order (pmm_free_pages a n t) = pmm_largest_free_order s \<and>
    pmm_free_count (pmm_free_pages a n t) = pmm_free_count s"
proof -
  let ?u = "pmm_free_pages a n t"
  obtain f where a: "a = f * PMM_FRAME_SIZE" and f: "f < s_max_frames s" "n < PMM_MAX_ORDER"
      and sub: "blk (unat f) n \<subseteq> free_frames s"
      and ff: "free_frames t = free_frames s - blk (unat f) n"
      and ub: "used_blocks t = insert (unat f, n) (used_blocks s)"
      and rc: "pg_refcount (mem_map t f) = 1" "pg_refcount (mem_map s f) = 0"
      and it: "pmm_inv t" "s_max_frames t = s_max_frames s"
    using alloc_pages_success [OF assms] by metis
  have f16: "unat f < 65536" using assms(1) f(1) small_frame by (auto simp: pmm_inv_def pool_ok_def)
  have fa: "f = a div PMM_FRAME_SIZE" using a frame_addr(3) [OF f16] by simp
  have ord: "unat (pg_order (mem_map t f)) = n"
    using ub used_blocks_iff [of f n t] by simp
  have nu: "(unat f, n) \<notin> used_blocks s" using rc(2) by (simp add: used_blocks_iff)
  have lt: "f < s_max_frames t" "pg_refcount (mem_map t f) \<noteq> 0" using f(1) it(2) rc(1) by auto
  note fc = free_pages_cases [OF it(1) fa lt, of n]
  have iu: "pmm_inv ?u" by (rule fc(1))
  have "free_frames ?u = free_frames s" using fc(4) rc(1) ff sub ord by auto
  then have fb: "free_blocks ?u = free_blocks s"
    using free_blocks_canonical iu assms(1) by (metis subset_antisym)
  have "used_blocks ?u = used_blocks s" using fc(5) rc(1) ub nu ord by auto
  moreover have "pmm_free_count ?u = pmm_free_count s"
    using iu assms(1) \<open>free_frames ?u = free_frames s\<close>
    by (metis pmm_free_count_def pmm_inv_def unat_eq_iff)
  ultimately show ?thesis using iu fb same_free_blocks_largest [OF iu assms(1) fb] by simp
qed

theorem pmm_alloc_free_roundtrip_witness:
  "pmm_inv pool3 \<and> free_blocks (pmm_free_pages 0x2000 1 (snd (pmm_alloc_pages 1 pool3))) = free_blocks pool3"
  using pmm_alloc_free_roundtrip [OF pool3_inv pool3_alloc_pair] pool3_inv by simp

text \<open>
  C16. \<open>pmm_free_pages\<close> drops one reference of the block that the address heads: with more
  references left nothing else changes; the last one returns exactly the block's frames to
  the pool, with the order recorded at allocation whatever order the caller passes; an
  address that is out of range or not allocated is ignored. The invariant, maximal
  coalescing included, holds afterwards.
\<close>

theorem pmm_free_pages_correct:
  assumes "pmm_inv s" and "f = addr div PMM_FRAME_SIZE" and "c = frame_refs s f"
  shows "pmm_inv (pmm_free_pages addr n s) \<and>
    frame_refs (pmm_free_pages addr n s) = (frame_refs s)(f := c - 1) \<and>
    free_frames (pmm_free_pages addr n s) =
      (if c = 1 then free_frames s \<union> blk (unat f) (unat (pg_order (mem_map s f))) else free_frames s) \<and>
    (c = 0 \<longrightarrow> pmm_free_pages addr n s = s)"
proof (cases "c = 0")
  case True
  then have "pmm_free_pages addr n s = s"
    using assms(2,3) by (intro free_pages_noop) (auto simp: frame_refs_def unat_eq_0 split: if_splits)
  then show ?thesis using True assms by (auto simp: fun_eq_iff)
next
  case False
  then have f: "f < s_max_frames s" "pg_refcount (mem_map s f) \<noteq> 0"
    and c1: "c = 1 \<longleftrightarrow> pg_refcount (mem_map s f) = 1"
    using assms(3) unat_eq_iff [of "pg_refcount (mem_map s f)" 1]
    by (auto simp: frame_refs_def split: if_splits)
  note fc = free_pages_cases [OF assms(1,2) f, of n]
  show ?thesis using fc free_pages_refs [OF assms(1), of addr n] assms(2,3) c1 False by auto
qed

theorem pmm_free_pages_correct_witness:
  "\<exists>t. t = snd (pmm_alloc_pages 1 pool3) \<and> pmm_inv t \<and> frame_refs t 2 = 1 \<and>
     free_frames (pmm_free_pages 0x2000 0 t) = free_frames t \<union> blk 2 1"
proof -
  let ?t = "snd (pmm_alloc_pages 1 pool3)"
  have i: "pmm_inv ?t" by (rule alloc_pages_inv [OF pool3_inv])
  have "frame_refs ?t 2 = 1" "unat (pg_order (mem_map ?t 2)) = 1"
    by (code_simp, code_simp)
  then show ?thesis using pmm_free_pages_correct [OF i, where f = 2 and addr = "0x2000" and c = 1 and n = 0] i by auto
qed

text \<open>
  C26. \<open>pmm_init\<close> on a valid Multiboot 2 memory map whose available entries do not overlap:
  it returns, and the pool then holds exactly the whole frames of available memory below
  the 256 MiB window except the null page and the kernel image; nothing is allocated, the
  counters agree and the invariant holds.
\<close>

theorem pmm_init_correct:
  assumes "find_mmap_tag m (mbi + 8) (mbi + ld32 m mbi) = Some (Some tag)"
    and "mmap_at m (tag + 16) (tag + ld32 m (tag + 4)) (ld32 m (tag + 8)) es" and "sane_mmap es"
    and "kend = (kernel_phys_end + PMM_FRAME_SIZE - 1) div PMM_FRAME_SIZE"
  shows "\<exists>t. pmm_init kernel_phys_end m MULTIBOOT2_BOOTLOADER_MAGIC mbi s = Some t \<and> pmm_inv t \<and>
    free_frames t = usable_frames kend es \<and> used_blocks t = {} \<and>
    unat (pmm_managed_count t) = card (usable_frames kend es) \<and> pmm_managed_count t = pmm_free_count t"
proof -
  let ?u = "fold (free_entry kend) es (pmm_reset s)"
  let ?t = "?u\<lparr>s_total_managed_frames := s_free_frames ?u\<rparr>"
  have u: "booting ?u" "free_frames ?u = usable_frames kend es"
    using free_entries_correct [OF booting_reset(1) assms(3), of kend s] booting_reset(2) by auto
  have "free_entries m kend (tag + 16) (tag + ld32 m (tag + 4)) (ld32 m (tag + 8)) (pmm_reset s) = Some ?u"
    by (rule free_entries_fold [OF assms(2)])
  then have "pmm_init kernel_phys_end m MULTIBOOT2_BOOTLOADER_MAGIC mbi s = Some ?t"
    using assms(1,4) by (simp add: pmm_init_def Let_def)
  moreover have "free_heads ?t n = free_heads ?u n" for n by (simp add: free_heads_def)
  then have "pmm_inv ?t = pmm_inv ?u" "free_frames ?t = free_frames ?u" "used_blocks ?t = used_blocks ?u"
    by (simp_all add: pmm_inv_def pool_ok_def free_blocks_def used_blocks_def free_frames_def
        lists_ok_def on_list_def coalesced_def)
  ultimately show ?thesis
    using u booting_used [OF u(1)]
    by (auto simp: pmm_managed_count_def pmm_free_count_def booting_def pmm_inv_def)
qed

text \<open>A boot information block with a memory-map tag and one entry: 1 MiB at address 0.\<close>

definition boot_info :: bytes where
  "boot_info a = (if a = 0 then 64 else if a = 8 then 6 else if a = 12 then 40
     else if a = 16 then 24 else if a = 34 then 0x10 else if a = 40 then 1 else 0)"

theorem pmm_init_correct_witness:
  "\<exists>t. pmm_init 0x200000 boot_info MULTIBOOT2_BOOTLOADER_MAGIC 0 pool3 = Some t \<and> pmm_inv t \<and>
     free_frames t = usable_frames 0x200 [(0, 0x100000, 1)]"
proof -
  have 1: "find_mmap_tag boot_info (0 + 8) (0 + ld32 boot_info 0) = Some (Some 8)"
    by (simp add: find_mmap_tag.simps ld32_def boot_info_def)
  have 2: "mmap_at boot_info (8 + 16) (8 + ld32 boot_info (8 + 4)) (ld32 boot_info (8 + 8))
      [(0, 0x100000, 1)]"
    by (simp add: ld_mmap_entry_def ld64_def ld32_def boot_info_def)
  show ?thesis using pmm_init_correct [OF 1 2, where kend = "0x200" and kernel_phys_end = "0x200000" and s = pool3] by auto
qed

text \<open>
  Reference counting: taking a reference on a live frame and dropping it restores all
  counts; a frame handed out by \<open>pmm_alloc_frame\<close> has no other owner; the 8-bit counter
  never wraps (it sticks at 255).
\<close>

theorem pmm_refcounts_balance:
  assumes "pmm_inv s"
  shows "(0 < pmm_ref_count a s \<and> pmm_ref_count a s < 255 \<longrightarrow>
      frame_refs (pmm_free_frame a (pmm_inc_ref a s)) = frame_refs s) \<and>
    (pmm_ref_count a s = 255 \<longrightarrow> pmm_inc_ref a s = s) \<and>
    (\<forall>b t. pmm_alloc_frame s = (b, t) \<and> b \<noteq> PMM_ALLOC_ERROR \<longrightarrow>
      pmm_ref_count b s = 0 \<and> frame_refs (pmm_free_frame b t) = frame_refs s)"
proof (intro conjI impI allI)
  show "frame_refs (pmm_free_frame a (pmm_inc_ref a s)) = frame_refs s"
    if "0 < pmm_ref_count a s \<and> pmm_ref_count a s < 255"
    using that assms pmm.inc_then_free [of s a]
    by (simp add: ref_count_frame_refs [symmetric] word_less_nat_alt)
  show "pmm_inc_ref a s = s" if "pmm_ref_count a s = 255"
    using that by (auto simp: pmm_ref_count_def pmm_inc_ref_def Let_def split: if_splits)
  show "pmm_ref_count b s = 0" "frame_refs (pmm_free_frame b t) = frame_refs s"
    if "pmm_alloc_frame s = (b, t) \<and> b \<noteq> PMM_ALLOC_ERROR" for b t
    using that assms pmm.refs_alloc [of s b t] pmm.alloc_then_free [of s b t]
    by (simp_all add: unat_eq_0 [symmetric] ref_count_frame_refs)
qed

theorem pmm_refcounts_balance_witness:
  "\<exists>t. t = snd (pmm_alloc_pages 1 pool3) \<and> pmm_inv t \<and> pmm_ref_count 0x2000 t = 1 \<and>
     frame_refs (pmm_free_frame 0x2000 (pmm_inc_ref 0x2000 t)) = frame_refs t"
proof -
  let ?t = "snd (pmm_alloc_pages 1 pool3)"
  have i: "pmm_inv ?t" by (rule alloc_pages_inv [OF pool3_inv])
  have "pmm_ref_count 0x2000 ?t = 1" by code_simp
  then show ?thesis using pmm_refcounts_balance [OF i, where a = "0x2000"] i by simp
qed

end
