(* ===== verification/Libc_String.thy ===== *)
theory Libc_String
  imports Makar_Prelude
begin

text \<open>
  The kernel's C library string and memory routines
  (\<^verbatim>\<open>src/src/libc/string/*.c\<close>) on a flat byte memory addressed by 32-bit
  pointers. Counted loops are total; loops that look for a terminating zero byte are
  \<open>partial_function (option)\<close>, so that a string without terminator is the value
  \<open>None\<close> and returning is something to be proved.
\<close>

section \<open>Counted loops\<close>

text \<open>The loop \<^verbatim>\<open>for (i = i; i < n; i++) body(i)\<close> with a 32-bit counter.\<close>

function for_up :: "(u32 \<Rightarrow> 's \<Rightarrow> 's) \<Rightarrow> u32 \<Rightarrow> u32 \<Rightarrow> 's \<Rightarrow> 's" where
  "for_up body i n s = (if i < n then for_up body (i + 1) n (body i s) else s)"
  by pat_completeness auto

lemma unat_inc_below [word_facts]: "(i :: u32) < n \<Longrightarrow> unat (i + 1) = unat i + 1"
  using unsigned_less [where ?'a = nat, of n]
  by (simp add: unat_word_ariths word_less_nat_alt)

lemma loop_measure: "(i :: u32) < n \<Longrightarrow> unat n - unat (i + 1) < unat n - unat i"
  by (simp add: unat_inc_below word_less_nat_alt)

termination for_up
  by (relation "measure (\<lambda>(body, i, n, s). unat n - unat i)")
     (auto simp: unat_inc_below word_less_nat_alt)

declare for_up.simps [simp del]

lemma for_up_fold:
  "for_up body i n s = fold body (map of_nat [unat i ..< unat n]) s"
proof (induction body i n s rule: for_up.induct)
  case (1 body i n s)
  show ?case
  proof (cases "i < n")
    case True
    then have "[unat i ..< unat n] = unat i # [unat (i + 1) ..< unat n]"
      by (simp add: unat_inc_below upt_rec word_less_nat_alt)
    with True 1 show ?thesis by (subst for_up.simps) simp
  next
    case False
    then show ?thesis by (subst for_up.simps) (simp add: word_less_nat_alt)
  qed
qed

text \<open>Invariant rule for the counted loop.\<close>

lemma for_up_inv:
  assumes "P k s" and "k \<le> n" and "\<And>i s. k \<le> i \<Longrightarrow> i < n \<Longrightarrow> P i s \<Longrightarrow> P (i + 1) (body i s)"
  shows "P n (for_up body k n s)"
  using assms
proof (induction body k n s rule: for_up.induct)
  case (1 body k n s)
  show ?case
  proof (cases "k < n")
    case True
    have le: "k + 1 \<le> i \<longleftrightarrow> k < i" for i
      using unat_inc_below [OF True] by (simp add: word_le_nat_alt word_less_nat_alt Suc_le_eq)
    have "P n (for_up body (k + 1) n (body k s))"
      by (rule 1(1) [OF True]) (use 1(2-4) True in \<open>auto simp: le\<close>)
    with True show ?thesis by (subst for_up.simps) simp
  next
    case False
    with 1 have "k = n" by simp
    with 1 False show ?thesis by (subst for_up.simps) simp
  qed
qed

section \<open>Memory routines\<close>

definition memcpy :: "u32 \<Rightarrow> u32 \<Rightarrow> u32 \<Rightarrow> bytes \<Rightarrow> bytes" where
  "memcpy dst src n m = for_up (\<lambda>i m. m(dst + i := m (src + i))) 0 n m"

text \<open>The descending loop \<^verbatim>\<open>for (i = n; i != 0; i--)\<close>.\<close>

function for_down :: "(u32 \<Rightarrow> 's \<Rightarrow> 's) \<Rightarrow> u32 \<Rightarrow> 's \<Rightarrow> 's" where
  "for_down body i s = (if i \<noteq> 0 then for_down body (i - 1) (body i s) else s)"
  by pat_completeness auto

lemma unat_dec_nonzero [word_facts]: "i \<noteq> 0 \<Longrightarrow> unat ((i :: 'a::len word) - 1) = unat i - 1"
  by (rule unat_minus_one)

termination for_down
  by (relation "measure (\<lambda>(body, i, s). unat i)") (auto simp: unat_dec_nonzero unat_gt_0)

declare for_down.simps [simp del]

definition memmove :: "u32 \<Rightarrow> u32 \<Rightarrow> u32 \<Rightarrow> bytes \<Rightarrow> bytes" where
  "memmove dst src n m =
     (if dst < src then for_up (\<lambda>i m. m(dst + i := m (src + i))) 0 n m
      else for_down (\<lambda>i m. m(dst + (i - 1) := m (src + (i - 1)))) n m)"

definition memset :: "u32 \<Rightarrow> u8 \<Rightarrow> u32 \<Rightarrow> bytes \<Rightarrow> bytes" where
  "memset buf value n m = for_up (\<lambda>i m. m(buf + i := value)) 0 n m"

function memcmp_from :: "u32 \<Rightarrow> u32 \<Rightarrow> u32 \<Rightarrow> u32 \<Rightarrow> bytes \<Rightarrow> int" where
  "memcmp_from a b i n m =
     (if i < n then
        if m (a + i) < m (b + i) then - 1
        else if m (b + i) < m (a + i) then 1
        else memcmp_from a b (i + 1) n m
      else 0)"
  by pat_completeness auto
termination
  by (relation "measure (\<lambda>(a, b, i, n, m). unat n - unat i)")
     (auto simp: unat_inc_below word_less_nat_alt)

declare memcmp_from.simps [simp del]

definition memcmp :: "u32 \<Rightarrow> u32 \<Rightarrow> u32 \<Rightarrow> bytes \<Rightarrow> int" where
  "memcmp a b n m = memcmp_from a b 0 n m"

section \<open>Terminated strings\<close>

partial_function (option) strlen_from :: "u32 \<Rightarrow> u32 \<Rightarrow> bytes \<Rightarrow> u32 option" where
  "strlen_from str len m = (if m (str + len) \<noteq> 0 then strlen_from str (len + 1) m else Some len)"

definition strlen :: "u32 \<Rightarrow> bytes \<Rightarrow> u32 option" where
  "strlen str m = strlen_from str 0 m"

partial_function (option) strcmp :: "u32 \<Rightarrow> u32 \<Rightarrow> bytes \<Rightarrow> int option" where
  "strcmp a b m =
     (if m a \<noteq> 0 \<and> m a = m b then strcmp (a + 1) (b + 1) m
      else Some (uint (m a) - uint (m b)))"

text \<open>\<open>strncmp_loop\<close> is entered with the counter before its decrement; its lst guard
  holds on every entry (the caller and the loop test exclude 0) and makes it total.\<close>

function strncmp_loop :: "u32 \<Rightarrow> u32 \<Rightarrow> u32 \<Rightarrow> bytes \<Rightarrow> int" where
  "strncmp_loop a b n m =
     (if n - 1 \<noteq> 0 \<and> m a \<noteq> 0 \<and> m a = m b \<and> n \<noteq> 0 then strncmp_loop (a + 1) (b + 1) (n - 1) m
      else uint (m a) - uint (m b))"
  by pat_completeness auto
termination
  by (relation "measure (\<lambda>(a, b, n, m). unat n)") (auto simp: unat_dec_nonzero unat_gt_0)

declare strncmp_loop.simps [simp del]

definition strncmp :: "u32 \<Rightarrow> u32 \<Rightarrow> u32 \<Rightarrow> bytes \<Rightarrow> int" where
  "strncmp a b n m = (if n = 0 then 0 else strncmp_loop a b n m)"

partial_function (option) strcpy :: "u32 \<Rightarrow> u32 \<Rightarrow> bytes \<Rightarrow> bytes option" where
  "strcpy dst src m =
     (let m' = m(dst := m src) in
      if m src \<noteq> 0 then strcpy (dst + 1) (src + 1) m' else Some m')"

partial_function (option) str_end :: "u32 \<Rightarrow> bytes \<Rightarrow> u32 option" where
  "str_end p m = (if m p \<noteq> 0 then str_end (p + 1) m else Some p)"

definition strcat :: "u32 \<Rightarrow> u32 \<Rightarrow> bytes \<Rightarrow> bytes option" where
  "strcat dst src m = (case str_end dst m of None \<Rightarrow> None | Some d \<Rightarrow> strcpy d src m)"

text \<open>The two loops of \<open>strncpy\<close>: the first returns the index it stopped at.\<close>

function strncpy_copy :: "u32 \<Rightarrow> u32 \<Rightarrow> u32 \<Rightarrow> u32 \<Rightarrow> bytes \<Rightarrow> u32 \<times> bytes" where
  "strncpy_copy dst src i n m =
     (if i < n \<and> m (src + i) \<noteq> 0 then strncpy_copy dst src (i + 1) n (m(dst + i := m (src + i)))
      else (i, m))"
  by pat_completeness auto
termination
  by (relation "measure (\<lambda>(d, s, i, n, m). unat n - unat i)")
     (auto simp: unat_inc_below word_less_nat_alt)

declare strncpy_copy.simps [simp del]

definition strncpy :: "u32 \<Rightarrow> u32 \<Rightarrow> u32 \<Rightarrow> bytes \<Rightarrow> bytes" where
  "strncpy dst src n m =
     (let (i, m) = strncpy_copy dst src 0 n m in for_up (\<lambda>i m. m(dst + i := 0)) i n m)"

partial_function (option) strchr_loop :: "u32 \<Rightarrow> u8 \<Rightarrow> bytes \<Rightarrow> (u32 \<times> bool) option" where
  "strchr_loop str c m =
     (if m str \<noteq> 0 then if m str = c then Some (str, True) else strchr_loop (str + 1) c m
      else Some (str, False))"

text \<open>
  \<open>c\<close> is the \<^verbatim>\<open>int\<close> argument: the loop compares with its low byte, the
  final test with the whole of it.
\<close>

definition strchr :: "u32 \<Rightarrow> u32 \<Rightarrow> bytes \<Rightarrow> u32 option" where
  "strchr str c m =
     (case strchr_loop str (ucast c) m of
        None \<Rightarrow> None
      | Some (p, found) \<Rightarrow> Some (if found then p else if c = 0 then p else 0))"

partial_function (option) strrchr_loop :: "u32 \<Rightarrow> u8 \<Rightarrow> u32 \<Rightarrow> bytes \<Rightarrow> u32 option" where
  "strrchr_loop str c lst m =
     (let lst' = (if m str = c then str else lst) in
      if m str \<noteq> 0 then strrchr_loop (str + 1) c lst' m else Some lst')"

definition strrchr :: "u32 \<Rightarrow> u32 \<Rightarrow> bytes \<Rightarrow> u32 option" where
  "strrchr str c m = strrchr_loop str (ucast c) 0 m"

partial_function (option) strstr_loop :: "u32 \<Rightarrow> u32 \<Rightarrow> u32 \<Rightarrow> bytes \<Rightarrow> u32 option" where
  "strstr_loop hay needle nlen m =
     (if m hay \<noteq> 0 then
        if strncmp hay needle nlen m = 0 then Some hay else strstr_loop (hay + 1) needle nlen m
      else Some 0)"

definition strstr :: "u32 \<Rightarrow> u32 \<Rightarrow> bytes \<Rightarrow> u32 option" where
  "strstr hay needle m =
     (if m needle = 0 then Some hay
      else case strlen needle m of None \<Rightarrow> None | Some nlen \<Rightarrow> strstr_loop hay needle nlen m)"

declare strlen_from.simps [code] strcmp.simps [code] strcpy.simps [code] str_end.simps [code]
  strchr_loop.simps [code] strrchr_loop.simps [code] strstr_loop.simps [code]

section \<open>Copying\<close>

text \<open>
  A forward copy is right as long as no byte is overwritten before it is read, a backward
  copy in the mirrored case.
\<close>

lemma for_up_copy:
  fixes m :: bytes
  assumes "\<And>j k. i \<le> j \<Longrightarrow> j < k \<Longrightarrow> k < n \<Longrightarrow> s + k \<noteq> d + j"
  shows "for_up (\<lambda>i m. m(d + i := m (s + i))) i n m x =
    (if i \<le> x - d \<and> x - d < n then m (s + (x - d)) else m x)"
  using assms
proof (induction "\<lambda>i (m :: bytes). m(d + i := m (s + i))" i n m arbitrary: x rule: for_up.induct)
  case (1 i n m)
  show ?case
  proof (cases "i < n")
    case True
    have le: "i + 1 \<le> j \<longleftrightarrow> i < j" for j
      using unat_inc_below [OF True] by (simp add: word_le_nat_alt word_less_nat_alt Suc_le_eq)
    have IH: "for_up (\<lambda>i m. m(d + i := m (s + i))) (i + 1) n (m(d + i := m (s + i))) x =
      (if i + 1 \<le> x - d \<and> x - d < n then (m(d + i := m (s + i))) (s + (x - d))
       else (m(d + i := m (s + i))) x)"
      using 1(1) [OF True] 1(2) by (simp add: le)
    have "x = d + i \<longleftrightarrow> x - d = i" by (auto simp: algebra_simps)
    moreover have "i < x - d \<Longrightarrow> x - d < n \<Longrightarrow> s + (x - d) \<noteq> d + i"
      using 1(2) by simp
    ultimately show ?thesis using True
      by (subst for_up.simps) (simp add: IH le, auto simp: le_less)
  next
    case False
    then show ?thesis by (subst for_up.simps) auto
  qed
qed

lemma for_down_copy:
  fixes m :: bytes
  assumes "\<And>j k. j < k \<Longrightarrow> k < n \<Longrightarrow> s + j \<noteq> d + k"
  shows "for_down (\<lambda>i m. m(d + (i - 1) := m (s + (i - 1)))) n m x =
    (if x - d < n then m (s + (x - d)) else m x)"
  using assms
proof (induction "\<lambda>i (m :: bytes). m(d + (i - 1) := m (s + (i - 1)))" n m arbitrary: x rule: for_down.induct)
  case (1 n m)
  show ?case
  proof (cases "n = 0")
    case False
    let ?m = "m(d + (n - 1) := m (s + (n - 1)))"
    have le: "j < n - 1 \<longleftrightarrow> j < n \<and> j \<noteq> n - 1" for j
      using unat_dec_nonzero [OF False] by (auto simp: word_less_nat_alt) (metis nat_neq_iff unat_eq_iff less_Suc_eq Suc_pred unat_gt_0 False)
    have "n - 1 < n" using False by (simp add: word_less_nat_alt unat_dec_nonzero unat_gt_0)
    then have IH: "for_down (\<lambda>i m. m(d + (i - 1) := m (s + (i - 1)))) (n - 1) ?m x =
      (if x - d < n - 1 then ?m (s + (x - d)) else ?m x)"
      using 1(1) [OF False] 1(2) by (meson order_less_trans)
    have "x = d + (n - 1) \<longleftrightarrow> x - d = n - 1" by (auto simp: algebra_simps)
    moreover have "x - d < n - 1 \<Longrightarrow> s + (x - d) \<noteq> d + (n - 1)"
      using 1(2) \<open>n - 1 < n\<close> by blast
    ultimately show ?thesis using False \<open>n - 1 < n\<close>
      by (subst for_down.simps) (simp only: if_True not_False_eq_True IH, auto simp: le)
  qed (simp add: for_down.simps)
qed

lemma memcpy_correct:
  assumes "\<And>j k. j < n \<Longrightarrow> k < n \<Longrightarrow> src + k \<noteq> dst + j"
  shows "memcpy dst src n m x = (if x - dst < n then m (src + (x - dst)) else m x)"
  unfolding memcpy_def by (subst for_up_copy) (use assms in auto)

lemma memmove_correct:
  assumes "unat dst + unat n \<le> 2 ^ 32" and "unat src + unat n \<le> 2 ^ 32"
  shows "memmove dst src n m x = (if x - dst < n then m (src + (x - dst)) else m x)"
proof -
  have u: "unat (p + j) = unat p + unat j" if "j < n" "unat p + unat n \<le> 2 ^ 32" for p j
    using that by (simp add: unat_word_ariths word_less_nat_alt)
  show ?thesis
  proof (cases "dst < src")
    case True
    have "src + k \<noteq> dst + j" if "j < k" "k < n" for j k
    proof
      assume "src + k = dst + j"
      then have "unat src + unat k = unat dst + unat j"
        using u [of k src] u [of j dst] assms that by (metis less_trans)
      with that True show False by (simp add: word_less_nat_alt)
    qed
    with True show ?thesis by (simp add: memmove_def for_up_copy)
  next
    case False
    have "src + j \<noteq> dst + k" if "j < k" "k < n" for j k
    proof
      assume "src + j = dst + k"
      then have "unat src + unat j = unat dst + unat k"
        using u [of j src] u [of k dst] assms that by (metis less_trans)
      with that False show False by (simp add: word_less_nat_alt)
    qed
    with False show ?thesis by (simp add: memmove_def for_down_copy)
  qed
qed

lemma for_up_fill:
  fixes m :: bytes
  shows "for_up (\<lambda>i m. m(buf + i := v)) i n m x = (if i \<le> x - buf \<and> x - buf < n then v else m x)"
proof (induction "\<lambda>i (m :: bytes). m(buf + i := v)" i n m arbitrary: x rule: for_up.induct)
  case (1 i n m)
  show ?case
  proof (cases "i < n")
    case True
    have le: "i + 1 \<le> j \<longleftrightarrow> i < j" for j
      using unat_inc_below [OF True] by (simp add: word_le_nat_alt word_less_nat_alt Suc_le_eq)
    have "x = buf + i \<longleftrightarrow> x - buf = i" by (auto simp: algebra_simps)
    with True show ?thesis by (subst for_up.simps) (simp add: 1 [OF True] le, auto simp: le_less)
  qed (subst for_up.simps, auto)
qed

lemma memset_correct: "memset buf v n m x = (if x - buf < n then v else m x)"
  by (simp add: memset_def for_up_fill)

end
