(* ===== verification/Kheap.thy ===== *)
theory Kheap
  imports Libc_String
begin

text \<open>
  The kernel heap, \<^verbatim>\<open>src/src/kernel/arch/i386/mm/heap.c\<close>: a first-fit allocator on
  one linked list of blocks that tiles the window from \<open>HEAP_START\<close> to \<open>HEAP_MAX\<close>.
  Block headers are kept apart from the payload bytes: \<open>hdrs\<close> gives the header at an
  address, \<open>heap_data\<close> the payload memory. A list walk is a
  \<open>partial_function (option)\<close>, whose value \<open>None\<close> is a walk that never ends. The
  interrupt guard makes every operation one atomic step; diagnostics on the serial line
  are left out.
\<close>

abbreviation "HEAP_START \<equiv> 0x800000 :: u32"
abbreviation "HEAP_MAX \<equiv> 0x3000000 :: u32"
abbreviation "BLOCK_HDR_SIZE \<equiv> 12 :: u32"
abbreviation "SPLIT_MIN \<equiv> 16 :: u32"

record block_hdr =
  h_size :: u32
  is_free :: u32
  h_next :: u32

record kheap =
  hdrs :: "u32 \<Rightarrow> block_hdr"
  heap_head :: u32
  heap_data :: bytes

definition set_hdr :: "u32 \<Rightarrow> block_hdr \<Rightarrow> kheap \<Rightarrow> kheap" where
  "set_hdr a b h = h\<lparr>hdrs := (hdrs h)(a := b)\<rparr>"

definition heap_init :: "kheap \<Rightarrow> kheap" where
  "heap_init h =
     set_hdr HEAP_START \<lparr>h_size = HEAP_MAX - HEAP_START - BLOCK_HDR_SIZE, is_free = 1, h_next = 0\<rparr>
       (h\<lparr>heap_head := HEAP_START\<rparr>)"

text \<open>The first block that is free and large enough; 0 when the list ends.\<close>

partial_function (option) find_fit :: "kheap \<Rightarrow> u32 \<Rightarrow> u32 \<Rightarrow> u32 option" where
  "find_fit h sz blk =
     (if blk = 0 then Some 0
      else if is_free (hdrs h blk) \<noteq> 0 \<and> sz \<le> h_size (hdrs h blk) then Some blk
      else find_fit h sz (h_next (hdrs h blk)))"

definition take_block :: "u32 \<Rightarrow> u32 \<Rightarrow> kheap \<Rightarrow> kheap" where
  "take_block blk sz h =
     (let b = hdrs h blk;
          h = (if sz + BLOCK_HDR_SIZE + SPLIT_MIN \<le> h_size b then
                 let remainder = blk + BLOCK_HDR_SIZE + sz;
                     h = set_hdr remainder
                       \<lparr>h_size = h_size b - sz - BLOCK_HDR_SIZE, is_free = 1, h_next = h_next b\<rparr> h
                 in set_hdr blk ((hdrs h blk)\<lparr>h_size := sz, h_next := remainder\<rparr>) h
               else h)
      in set_hdr blk ((hdrs h blk)\<lparr>is_free := 0\<rparr>) h)"

definition kmalloc :: "u32 \<Rightarrow> kheap \<Rightarrow> (u32 \<times> kheap) option" where
  "kmalloc sz h =
     (if sz = 0 \<or> heap_head h = 0 then Some (0, h)
      else
        let sz = (sz + 3) AND NOT 3 in
        case find_fit h sz (heap_head h) of
          None \<Rightarrow> None
        | Some blk \<Rightarrow>
            if blk = 0 then Some (0, h)
            else Some (blk + BLOCK_HDR_SIZE, take_block blk sz h))"

partial_function (option) coalesce :: "u32 \<Rightarrow> kheap \<Rightarrow> kheap option" where
  "coalesce blk h =
     (let b = hdrs h blk; np = h_next b in
      if np = 0 then Some h
      else if np < HEAP_START \<or> HEAP_MAX \<le> np then Some (set_hdr blk (b\<lparr>h_next := 0\<rparr>) h)
      else if is_free (hdrs h np) = 0 then Some h
      else coalesce blk
        (set_hdr blk (b\<lparr>h_size := h_size b + (BLOCK_HDR_SIZE + h_size (hdrs h np)),
                        h_next := h_next (hdrs h np)\<rparr>) h))"

definition kfree :: "u32 \<Rightarrow> kheap \<Rightarrow> kheap option" where
  "kfree ptr h =
     (if ptr = 0 then Some h
      else if ptr < HEAP_START + BLOCK_HDR_SIZE \<or> HEAP_MAX \<le> ptr then Some h
      else
        let blk = ptr - BLOCK_HDR_SIZE in
        coalesce blk (set_hdr blk ((hdrs h blk)\<lparr>is_free := 1\<rparr>) h))"

definition krealloc :: "u32 \<Rightarrow> u32 \<Rightarrow> kheap \<Rightarrow> (u32 \<times> kheap) option" where
  "krealloc ptr sz h =
     (if ptr = 0 then kmalloc sz h
      else if sz = 0 then map_option (\<lambda>h. (0, h)) (kfree ptr h)
      else
        let blk = ptr - BLOCK_HDR_SIZE in
        if sz \<le> h_size (hdrs h blk) then Some (ptr, h)
        else case kmalloc sz h of
            None \<Rightarrow> None
          | Some (new_ptr, h) \<Rightarrow>
              if new_ptr = 0 then Some (0, h)
              else
                let n = (if h_size (hdrs h blk) < sz then h_size (hdrs h blk) else sz);
                    h = h\<lparr>heap_data := memcpy new_ptr ptr n (heap_data h)\<rparr>
                in map_option (\<lambda>h. (new_ptr, h)) (kfree ptr h))"

text \<open>The two accounting walks add the sizes of the blocks that satisfy a test.\<close>

partial_function (option) sum_sizes :: "(block_hdr \<Rightarrow> bool) \<Rightarrow> kheap \<Rightarrow> u32 \<Rightarrow> u32 \<Rightarrow> u32 option" where
  "sum_sizes sel h b acc =
     (if b = 0 then Some acc
      else sum_sizes sel h (h_next (hdrs h b))
             (if sel (hdrs h b) then acc + h_size (hdrs h b) else acc))"

definition heap_used :: "kheap \<Rightarrow> u32 option" where
  "heap_used h = sum_sizes (\<lambda>b. is_free b = 0) h (heap_head h) 0"

definition heap_free :: "kheap \<Rightarrow> u32 option" where
  "heap_free h = sum_sizes (\<lambda>b. is_free b \<noteq> 0) h (heap_head h) 0"

declare find_fit.simps [code] coalesce.simps [code] sum_sizes.simps [code]

section \<open>The block list\<close>

text \<open>
  \<open>layout m a bs\<close>: from address \<open>a\<close> on, the headers in \<open>m\<close> describe the blocks
  \<open>bs\<close>, pairs of payload size and free flag, each ending where the next begins and the
  last at the end of the heap.
\<close>

type_synonym block = "nat \<times> bool"

primrec layout :: "(u32 \<Rightarrow> block_hdr) \<Rightarrow> nat \<Rightarrow> block list \<Rightarrow> bool" where
  "layout m a [] \<longleftrightarrow> a = unat HEAP_MAX"
| "layout m a (b # bs) \<longleftrightarrow>
     h_size (m (of_nat a)) = of_nat (fst b) \<and> (is_free (m (of_nat a)) \<noteq> 0 \<longleftrightarrow> snd b) \<and>
     h_next (m (of_nat a)) = (if bs = [] then 0 else of_nat (a + 12 + fst b)) \<and>
     4 dvd fst b \<and> layout m (a + 12 + fst b) bs"

definition heap_blocks :: "kheap \<Rightarrow> block list \<Rightarrow> bool" where
  "heap_blocks h bs \<longleftrightarrow> bs \<noteq> [] \<and> heap_head h = HEAP_START \<and> layout (hdrs h) (unat HEAP_START) bs"

text \<open>The payload regions of the blocks in use: start address and size.\<close>

primrec live_from :: "nat \<Rightarrow> block list \<Rightarrow> (nat \<times> nat) set" where
  "live_from a [] = {}"
| "live_from a (b # bs) =
     (if snd b then {} else {(a + 12, fst b)}) \<union> live_from (a + 12 + fst b) bs"

definition live :: "block list \<Rightarrow> (nat \<times> nat) set" where
  "live bs = live_from (unat HEAP_START) bs"

text \<open>What the operations do to the block list.\<close>

fun take_first :: "nat \<Rightarrow> nat \<Rightarrow> block list \<Rightarrow> (nat \<times> block list) option" where
  "take_first a n [] = None"
| "take_first a n ((s, f) # bs) =
     (if f \<and> n \<le> s then
        Some (a + 12, if n + 28 \<le> s then (n, False) # (s - n - 12, True) # bs else (s, False) # bs)
      else map_option (\<lambda>(p, cs). (p, (s, f) # cs)) (take_first (a + 12 + s) n bs))"

fun merge_free :: "nat \<Rightarrow> block list \<Rightarrow> block list" where
  "merge_free s ((t, True) # bs) = merge_free (s + (12 + t)) bs"
| "merge_free s bs = (s, True) # bs"

fun release :: "nat \<Rightarrow> nat \<Rightarrow> block list \<Rightarrow> block list" where
  "release a p [] = []"
| "release a p ((s, f) # bs) =
     (if p = a + 12 then merge_free s bs else (s, f) # release (a + 12 + s) p bs)"

end
