(* ===== verification/Kheap_Inv.thy ===== *)
theory Kheap_Inv
  imports Kheap
begin

text \<open>
  The heap operations act on the block list: each operation, run on headers laid out as a
  block list, terminates and leaves headers laid out as the block list that the
  corresponding list function computes. The second half is about the list functions alone.
\<close>

section \<open>Layout\<close>

definition extent :: "block list \<Rightarrow> nat" where
  "extent bs = sum_list (map (\<lambda>b. 12 + fst b) bs)"

lemma extent_simps [simp]: "extent [] = 0" "extent (b # bs) = 12 + fst b + extent bs"
  by (simp_all add: extent_def)

lemma layout_extent: "layout m a bs \<Longrightarrow> a + extent bs = 0x3000000"
proof (induction bs arbitrary: a)
  case (Cons b bs)
  then have "layout m (a + 12 + fst b) bs" by simp
  from Cons.IH [OF this] show ?case by simp
qed simp

lemma layout_cong:
  "layout m a bs \<Longrightarrow> (\<And>x. a \<le> unat x \<Longrightarrow> m' x = m x) \<Longrightarrow> layout m' a bs"
proof (induction bs arbitrary: a)
  case (Cons b bs)
  have a: "a < 0x3000000" using layout_extent [OF Cons.prems(1)] by simp
  then have "m' (of_nat a) = m (of_nat a)"
    by (intro Cons.prems(2)) (simp add: unsigned_of_nat take_bit_nat_eq_self)
  moreover have "layout m' (a + 12 + fst b) bs"
    using Cons.prems by (intro Cons.IH) auto
  ultimately show ?case using Cons.prems(1) by simp
qed simp

lemma unat_heap_addr [word_facts]: "n \<le> 0x3000000 \<Longrightarrow> unat (of_nat n :: u32) = n"
  by (simp add: unsigned_of_nat take_bit_nat_eq_self)

lemma heap_addr_nonzero: "0 < n \<Longrightarrow> n \<le> 0x3000000 \<Longrightarrow> (of_nat n :: u32) \<noteq> 0"
  using unat_heap_addr [of n] by (metis less_numeral_extra(3) unat_0)

lemma layout_upd:
  assumes "layout m a bs" and "unat x < a"
  shows "layout (m(x := b)) a bs"
  using assms(1) by (rule layout_cong) (use assms(2) in auto)

lemma hdrs_set_hdr [simp]: "hdrs (set_hdr a b h) = (hdrs h)(a := b)"
  and set_hdr_frame [frame_simps, simp]:
    "heap_head (set_hdr a b h) = heap_head h" "heap_data (set_hdr a b h) = heap_data h"
  by (simp_all add: set_hdr_def)

section \<open>Allocation\<close>

lemma find_fit_layout:
  assumes "layout (hdrs h) a bs" and "bs \<noteq> []" and "0 < a"
  shows "find_fit h sz (of_nat a) =
    Some (case take_first a (unat sz) bs of None \<Rightarrow> 0 | Some (p, cs) \<Rightarrow> of_nat (p - 12))"
  using assms
proof (induction bs arbitrary: a)
  case (Cons b bs)
  obtain s f where b: "b = (s, f)" by (cases b)
  let ?b = "hdrs h (of_nat a)"
  have s: "s \<le> 0x3000000" "a \<le> 0x3000000" using layout_extent [OF Cons.prems(1)] b by auto
  then have a: "(of_nat a :: u32) \<noteq> 0" using Cons.prems(3) heap_addr_nonzero by blast
  have fit: "is_free ?b \<noteq> 0 \<and> sz \<le> h_size ?b \<longleftrightarrow> f \<and> unat sz \<le> s"
    using Cons.prems(1) b s by (simp add: word_le_nat_alt unat_heap_addr)
  show ?case
  proof (cases "f \<and> unat sz \<le> s")
    case True
    with fit a b show ?thesis by (subst find_fit.simps) simp
  next
    case False
    have nx: "h_next ?b = (if bs = [] then 0 else of_nat (a + 12 + s))"
      using Cons.prems(1) b by simp
    have "find_fit h sz (h_next ?b) =
        Some (case take_first (a + 12 + s) (unat sz) bs of None \<Rightarrow> 0 | Some (p, cs) \<Rightarrow> of_nat (p - 12))"
    proof (cases "bs = []")
      case True
      with nx show ?thesis by (subst find_fit.simps) simp
    next
      case False
      with nx Cons.IH [of "a + 12 + s"] Cons.prems b show ?thesis by simp
    qed
    with False fit a b show ?thesis
      by (subst find_fit.simps) (auto split: option.splits)
  qed
qed simp

lemma take_first_bounds: "take_first a n bs = Some (p, cs) \<Longrightarrow> a + 12 \<le> p \<and> p + n \<le> a + extent bs \<and> cs \<noteq> []"
  by (induction a n bs arbitrary: p cs rule: take_first.induct) (fastforce split: if_splits)+

lemma take_block_frame [frame_simps]:
  "heap_head (take_block blk sz h) = heap_head h" "heap_data (take_block blk sz h) = heap_data h"
  by (simp_all add: take_block_def Let_def)

lemma take_block_below:
  assumes "unat x < unat blk" and "unat blk + 12 + unat sz < 2 ^ 32"
  shows "hdrs (take_block blk sz h) x = hdrs h x"
proof -
  have "unat (blk + 12 + sz) = unat blk + 12 + unat sz"
    using assms(2) by (simp add: unat_word_ariths)
  with assms show ?thesis by (auto simp: take_block_def Let_def)
qed

lemma take_block_layout:
  assumes "layout (hdrs h) a bs" and "take_first a n bs = Some (p, cs)" and "4 dvd n"
  shows "layout (hdrs (take_block (of_nat (p - 12)) (of_nat n) h)) a cs"
  using assms
proof (induction bs arbitrary: a p cs)
  case (Cons b bs)
  obtain s f where b: "b = (s, f)" by (cases b)
  have ext: "a + 12 + s + extent bs = 0x3000000"
    using layout_extent [OF Cons.prems(1)] b by simp
  show ?case
  proof (cases "f \<and> n \<le> s")
    case True
    with Cons.prems(2) b have p: "p = a + 12"
      and cs: "cs = (if n + 28 \<le> s then (n, False) # (s - n - 12, True) # bs else (s, False) # bs)" by auto
    let ?blk = "of_nat a :: u32"
    have hd: "h_size (hdrs h ?blk) = of_nat s" "h_next (hdrs h ?blk) = (if bs = [] then 0 else of_nat (a + 12 + s))"
      "4 dvd s" "layout (hdrs h) (a + 12 + s) bs" using Cons.prems(1) b by simp_all
    have ua: "unat ?blk = a" "unat (of_nat s :: u32) = s" using ext by (auto intro!: unat_heap_addr)
    have un: "unat (of_nat n + 12 + 16 :: u32) = n + 28"
      using True ext by (simp add: unat_word_ariths unat_heap_addr)
    have split: "of_nat n + BLOCK_HDR_SIZE + SPLIT_MIN \<le> h_size (hdrs h ?blk) \<longleftrightarrow> n + 28 \<le> s"
      by (simp only: word_le_nat_alt un hd(1) ua(2))
    show ?thesis
    proof (cases "n + 28 \<le> s")
      case False
      let ?m = "hdrs (take_block ?blk (of_nat n) h)"
      have m: "?m = (hdrs h)(?blk := (hdrs h ?blk)\<lparr>is_free := 0\<rparr>)"
        using split False by (simp add: take_block_def)
      have "layout ?m (a + 12 + s) bs"
        using hd(4) unfolding m by (rule layout_upd) (simp add: ua)
      moreover have "h_size (?m ?blk) = of_nat s" "is_free (?m ?blk) = 0" "h_next (?m ?blk) = h_next (hdrs h ?blk)"
        using hd by (simp_all add: m)
      ultimately show ?thesis using hd False by (simp add: p cs)
    next
      case True
      let ?r = "of_nat (a + 12 + n) :: u32"
      have r: "?blk + BLOCK_HDR_SIZE + of_nat n = ?r" by simp
      have ur: "unat ?r = a + 12 + n" using ext True by (intro unat_heap_addr) simp
      then have ne: "?r \<noteq> ?blk" using ua by (metis add.assoc add_cancel_right_right add_is_0 zero_neq_numeral)
      have rs: "of_nat s - of_nat n - 12 = (of_nat (s - n - 12) :: u32)"
        using True by (simp add: of_nat_diff)
      let ?m = "hdrs (take_block ?blk (of_nat n) h)"
      have m: "?m ?r = \<lparr>h_size = of_nat (s - n - 12), is_free = 1, h_next = h_next (hdrs h ?blk)\<rparr>"
        "h_size (?m ?blk) = of_nat n" "is_free (?m ?blk) = 0" "h_next (?m ?blk) = ?r"
        using split True ne unfolding take_block_def r by (simp_all add: Let_def hd(1) rs)
      have "layout ?m (a + 12 + s) bs"
        using hd(4)
      proof (rule layout_cong)
        fix x :: u32
        assume "a + 12 + s \<le> unat x"
        then have "x \<noteq> ?r" "x \<noteq> ?blk" using ur ua True by auto
        then show "?m x = hdrs h x" unfolding take_block_def r by (simp add: Let_def)
      qed
      moreover have "4 dvd s - n - 12" using hd(3) \<open>4 dvd n\<close> by (intro dvd_diff_nat) auto
      moreover have "a + 12 + n + 12 + (s - n - 12) = a + 12 + s" using True by simp
      ultimately show ?thesis using m hd(2) True \<open>4 dvd n\<close> by (cases bs) (simp_all add: p cs add_ac)
    qed
  next
    case False
    then obtain ds where t: "take_first (a + 12 + s) n bs = Some (p, ds)" and cs: "cs = b # ds"
      using Cons.prems(2) b by (auto split: if_splits)
    note bd = take_first_bounds [OF t]
    let ?blk = "of_nat (p - 12) :: u32"
    have ub: "unat ?blk = p - 12" "unat (of_nat n :: u32) = n"
      by (rule unat_heap_addr, use bd ext in fastforce)+
    have "a < p - 12" "p - 12 + 12 + n < 2 ^ 32" using bd ext by auto
    then have "hdrs (take_block ?blk (of_nat n) h) (of_nat a) = hdrs h (of_nat a)"
      using ext by (intro take_block_below) (simp_all only: ub, simp add: unat_heap_addr)
    moreover have "layout (hdrs (take_block ?blk (of_nat n) h)) (a + 12 + s) ds"
      using Cons.IH [OF _ t] Cons.prems b by simp
    moreover have "bs \<noteq> []" using t by auto
    ultimately show ?thesis using Cons.prems(1) b bd by (simp add: cs)
  qed
qed simp

section \<open>Release\<close>

lemma coalesce_layout:
  assumes "layout (hdrs h) a ((s, True) # bs)" and "0x800000 \<le> a"
  shows "\<exists>h'. coalesce (of_nat a) h = Some h' \<and> layout (hdrs h') a (merge_free s bs) \<and>
    (\<forall>x. x \<noteq> of_nat a \<longrightarrow> hdrs h' x = hdrs h x) \<and> heap_head h' = heap_head h \<and> heap_data h' = heap_data h"
  using assms(1)
proof (induction bs arbitrary: s h)
  case Nil
  then show ?case by (subst coalesce.simps) (simp add: Let_def)
next
  case (Cons b bs)
  obtain t f where b: "b = (t, f)" by (cases b)
  let ?blk = "of_nat a :: u32" and ?np = "of_nat (a + 12 + s) :: u32"
  have ext: "a + 12 + s + 12 + t + extent bs = 0x3000000"
    using layout_extent [OF Cons.prems] b by simp
  have hd: "h_size (hdrs h ?blk) = of_nat s" "is_free (hdrs h ?blk) \<noteq> 0" "h_next (hdrs h ?blk) = ?np" "4 dvd s"
    and nx: "h_size (hdrs h ?np) = of_nat t" "is_free (hdrs h ?np) \<noteq> 0 \<longleftrightarrow> f"
      "h_next (hdrs h ?np) = (if bs = [] then 0 else of_nat (a + 12 + s + 12 + t))" "4 dvd t"
      "layout (hdrs h) (a + 12 + s + 12 + t) bs"
    using Cons.prems b by simp_all
  have u: "unat ?np = a + 12 + s" "unat ?blk = a" by (rule unat_heap_addr, use ext in simp)+
  have in_heap: "?np \<noteq> 0" "\<not> (?np < HEAP_START \<or> HEAP_MAX \<le> ?np)"
    using u ext assms(2) by (auto simp: word_less_nat_alt word_le_nat_alt unat_eq_0 [symmetric])
  show ?case
  proof (cases f)
    case False
    with Cons.prems b nx in_heap hd(3) show ?thesis by (subst coalesce.simps) (simp add: Let_def)
  next
    case True
    let ?h = "set_hdr ?blk ((hdrs h ?blk)\<lparr>h_size := h_size (hdrs h ?blk) + (BLOCK_HDR_SIZE + h_size (hdrs h ?np)),
      h_next := h_next (hdrs h ?np)\<rparr>) h"
    have step: "coalesce ?blk h = coalesce ?blk ?h"
      using True nx(2) in_heap hd(3) by (subst coalesce.simps) (simp add: Let_def)
    have lay: "layout (hdrs ?h) (a + 12 + (s + (12 + t))) bs"
      using nx(5) unfolding hdrs_set_hdr by (subst add.assoc [symmetric], subst add.assoc [symmetric]) (rule layout_upd, simp_all add: u)
    have "layout (hdrs ?h) a ((s + (12 + t), True) # bs)"
      using lay hd nx by (simp add: add_ac)
    from Cons.IH [OF this] step True b show ?thesis by auto
  qed
qed

lemma release_not_Nil: "(p, s) \<in> live_from a bs \<Longrightarrow> release a p bs \<noteq> []"
proof -
  have "merge_free t cs \<noteq> []" for t cs by (induction t cs rule: merge_free.induct) auto
  then show "(p, s) \<in> live_from a bs \<Longrightarrow> release a p bs \<noteq> []"
    by (cases bs) (auto split: prod.splits if_splits)
qed

lemma live_from_bounds: "(p, s) \<in> live_from a bs \<Longrightarrow> a + 12 \<le> p \<and> p + s \<le> a + extent bs"
  by (induction bs arbitrary: a) (fastforce split: if_splits)+

lemma kfree_layout:
  assumes "layout (hdrs h) a bs" and "(p, s) \<in> live_from a bs" and "0x800000 \<le> a" and "p < 0x3000000"
  shows "\<exists>h'. kfree (of_nat p) h = Some h' \<and> layout (hdrs h') a (release a p bs) \<and>
    (\<forall>x. x \<noteq> of_nat (p - 12) \<longrightarrow> hdrs h' x = hdrs h x) \<and> heap_head h' = heap_head h \<and> heap_data h' = heap_data h"
  using assms
proof (induction bs arbitrary: a)
  case (Cons b bs)
  obtain t f where b: "b = (t, f)" by (cases b)
  have ext: "a + 12 + t + extent bs = 0x3000000"
    using layout_extent [OF Cons.prems(1)] b by simp
  note bd = live_from_bounds [OF Cons.prems(2)]
  show ?case
  proof (cases "p = a + 12")
    case True
    let ?blk = "of_nat a :: u32"
    let ?h = "set_hdr ?blk ((hdrs h ?blk)\<lparr>is_free := 1\<rparr>) h"
    have "(p, s) \<notin> live_from (a + 12 + t) bs" using live_from_bounds [of p s "a + 12 + t" bs] True by auto
    with Cons.prems(2) b have bt: "s = t" by (auto split: if_splits)
    have up: "unat (of_nat p :: u32) = p" "unat ?blk = a" by (rule unat_heap_addr, use bd ext b in fastforce)+
    have blk: "of_nat p - BLOCK_HDR_SIZE = ?blk" using True by simp
    have lay: "layout (hdrs ?h) a ((t, True) # bs)"
    proof -
      have "layout (hdrs ?h) (a + 12 + t) bs"
        unfolding hdrs_set_hdr using Cons.prems(1) b up by (intro layout_upd) auto
      with Cons.prems(1) b show ?thesis by simp
    qed
    have "kfree (of_nat p) h = coalesce ?blk ?h"
      using Cons.prems(3,4) True up unfolding kfree_def blk Let_def
      by (simp add: word_less_nat_alt word_le_nat_alt unat_eq_0 [symmetric] del: of_nat_add)
    with coalesce_layout [OF lay Cons.prems(3)] True b show ?thesis by auto
  next
    case False
    have live: "(p, s) \<in> live_from (a + 12 + t) bs" using Cons.prems(2) b False by (auto split: if_splits)
    from Cons.IH [OF _ live] Cons.prems b obtain h' where h': "kfree (of_nat p) h = Some h'"
        "layout (hdrs h') (a + 12 + t) (release (a + 12 + t) p bs)"
        "\<forall>x. x \<noteq> of_nat (p - 12) \<longrightarrow> hdrs h' x = hdrs h x" "heap_head h' = heap_head h" "heap_data h' = heap_data h"
      by auto
    have "unat (of_nat a :: u32) = a" "unat (of_nat (p - 12) :: u32) = p - 12"
      by (rule unat_heap_addr, use bd ext b in fastforce)+
    then have "of_nat a \<noteq> (of_nat (p - 12) :: u32)"
      using live_from_bounds [OF live] by auto
    with h'(3) have "hdrs h' (of_nat a) = hdrs h (of_nat a)" by blast
    moreover have "bs \<noteq> []" using live by auto
    ultimately have "layout (hdrs h') a (release a p (b # bs))"
      using Cons.prems(1) b False h'(2) release_not_Nil [OF live] by simp
    with h' show ?thesis by blast
  qed
qed simp

section \<open>Block lists\<close>

lemma live_from_disjoint:
  assumes "(p, s) \<in> live_from a bs" and "(q, t) \<in> live_from a bs" and "(p, s) \<noteq> (q, t)"
  shows "p + s + 12 \<le> q \<or> q + t + 12 \<le> p"
  using assms
proof (induction bs arbitrary: a)
  case (Cons b bs)
  show ?case
  proof (cases "(p, s) \<in> live_from (a + 12 + fst b) bs \<and> (q, t) \<in> live_from (a + 12 + fst b) bs")
    case True
    with Cons show ?thesis by blast
  next
    case False
    with Cons.prems show ?thesis
      using live_from_bounds [of p s "a + 12 + fst b" bs] live_from_bounds [of q t "a + 12 + fst b" bs]
      by (auto split: if_splits)
  qed
qed simp

lemma take_first_live:
  assumes "take_first a n bs = Some (p, cs)"
  shows "\<exists>s. n \<le> s \<and> s < n + 28 \<and> live_from a cs = insert (p, s) (live_from a bs) \<and> (p, s) \<notin> live_from a bs"
  using assms
proof (induction bs arbitrary: a p cs)
  case (Cons b bs)
  obtain t f where b: "b = (t, f)" by (cases b)
  show ?case
  proof (cases "f \<and> n \<le> t")
    case True
    have out: "(a + 12, k) \<notin> live_from (a + 12 + t) bs" for k
      using live_from_bounds [of "a + 12" k "a + 12 + t" bs] by auto
    have eq: "a + 12 + n + 12 + (t - n - 12) = a + 12 + t" if "n + 28 \<le> t" using that by simp
    show ?thesis
    proof (cases "n + 28 \<le> t")
      case split: True
      with True Cons.prems b out [of n] eq [OF split] show ?thesis
        by (intro exI [of _ n]) (auto simp: add_ac)
    next
      case False
      with True Cons.prems b out [of t] show ?thesis by (intro exI [of _ t]) auto
    qed
  next
    case False
    then obtain ds where t: "take_first (a + 12 + t) n bs = Some (p, ds)" and cs: "cs = b # ds"
      using Cons.prems b by (auto split: if_splits)
    from Cons.IH [OF t] obtain s where s: "n \<le> s" "s < n + 28" "(p, s) \<notin> live_from (a + 12 + t) bs"
        "live_from (a + 12 + t) ds = insert (p, s) (live_from (a + 12 + t) bs)" by blast
    have "p \<noteq> a + 12" using take_first_bounds [OF t] by auto
    with s b cs show ?thesis by (intro exI [of _ s]) auto
  qed
qed simp

lemma take_first_None: "take_first a n bs = None \<longleftrightarrow> (\<forall>(s, f) \<in> set bs. f \<longrightarrow> s < n)"
  by (induction a n bs rule: take_first.induct) (auto simp: not_le)

lemma take_first_aligned:
  "take_first a n bs = Some (p, cs) \<Longrightarrow> 4 dvd a \<Longrightarrow> \<forall>(s, f) \<in> set bs. 4 dvd s \<Longrightarrow> 4 dvd p"
  by (induction a n bs arbitrary: p cs rule: take_first.induct)
    (auto split: if_splits simp: dvd_add_right_iff)

lemma layout_aligned: "layout m a bs \<Longrightarrow> \<forall>(s, f) \<in> set bs. 4 dvd s"
  by (induction bs arbitrary: a) auto

lemma merge_free_live: "live_from a (merge_free s bs) = live_from (a + 12 + s) bs"
  by (induction s bs rule: merge_free.induct) (auto simp: add_ac)

lemma release_live:
  assumes "(p, s) \<in> live_from a bs"
  shows "live_from a (release a p bs) = live_from a bs - {(p, s)}"
  using assms
proof (induction bs arbitrary: a)
  case (Cons b bs)
  obtain t f where b: "b = (t, f)" by (cases b)
  show ?case
  proof (cases "p = a + 12")
    case True
    have "(a + 12, k) \<notin> live_from (a + 12 + t) bs" for k
      using live_from_bounds [of "a + 12" k "a + 12 + t" bs] by auto
    with True Cons.prems b show ?thesis by (auto simp: merge_free_live split: if_splits)
  next
    case False
    then have live: "(p, s) \<in> live_from (a + 12 + t) bs" using Cons.prems b by (auto split: if_splits)
    with Cons.IH [OF live] False b show ?thesis by auto
  qed
qed simp

section \<open>Accounting\<close>

lemma sum_sizes_layout:
  assumes "layout (hdrs h) a bs" and "bs \<noteq> []" and "0 < a"
  shows "sum_sizes (\<lambda>b. P (is_free b \<noteq> 0)) h (of_nat a) acc =
    Some (acc + of_nat (sum_list (map fst (filter (\<lambda>b. P (snd b)) bs))))"
  using assms
proof (induction bs arbitrary: a acc)
  case (Cons b bs)
  have "a \<le> 0x3000000" using layout_extent [OF Cons.prems(1)] by simp
  then have a: "(of_nat a :: u32) \<noteq> 0" using Cons.prems(3) heap_addr_nonzero by blast
  show ?case
  proof (cases "bs = []")
    case True
    with Cons.prems(1) a show ?thesis
      by (simp add: sum_sizes.simps [of _ h "of_nat a"] sum_sizes.simps [of _ h 0])
  next
    case False
    have n: "h_next (hdrs h (of_nat a)) = of_nat (a + 12 + fst b)" using Cons.prems(1) False by simp
    have lay: "layout (hdrs h) (a + 12 + fst b) bs" using Cons.prems(1) by simp
    have IH: "sum_sizes (\<lambda>b. P (is_free b \<noteq> 0)) h (h_next (hdrs h (of_nat a))) k =
        Some (k + of_nat (sum_list (map fst (filter (\<lambda>b. P (snd b)) bs))))" for k
      unfolding n by (rule Cons.IH [OF lay False]) (use Cons.prems(3) in simp)
    have "h_size (hdrs h (of_nat a)) = of_nat (fst b)" "is_free (hdrs h (of_nat a)) \<noteq> 0 \<longleftrightarrow> snd b"
      using Cons.prems(1) by simp_all
    with a show ?thesis by (subst sum_sizes.simps) (simp add: IH)
  qed
qed simp

lemma used_live: "sum_list (map fst (filter (\<lambda>b. \<not> snd b) bs)) = (\<Sum>(p, s) \<in> live_from a bs. s)"
proof (induction bs arbitrary: a)
  case (Cons b bs)
  have fin: "finite (live_from c bs)" for c by (induction bs arbitrary: c) auto
  have "(a + 12, fst b) \<notin> live_from (a + 12 + fst b) bs"
    using live_from_bounds [of "a + 12" "fst b" "a + 12 + fst b" bs] by auto
  with Cons [of "a + 12 + fst b"] fin show ?case by (auto split: prod.splits)
qed simp

lemma extent_used_free:
  "extent bs = sum_list (map fst (filter (\<lambda>b. \<not> snd b) bs)) +
    sum_list (map fst (filter (\<lambda>b. snd b) bs)) + 12 * length bs"
  by (induction bs) auto

end
