(* ===== verification/Kheap_Spec.thy ===== *)
theory Kheap_Spec
  imports Kheap_Inv
begin

text \<open>
  The contract of a memory allocator as a locale, that the kernel heap satisfies it, and
  the properties of the heap operations.
\<close>

section \<open>The interface: an allocator of disjoint regions\<close>

text \<open>
  \<open>rep s L\<close>: in state \<open>s\<close> the regions handed out and not yet released are \<open>L\<close>, pairs
  of start address and size. Requests up to \<open>limit\<close> bytes are served or refused with a
  null pointer.
\<close>

locale region_allocator =
  fixes rep :: "'s \<Rightarrow> (nat \<times> nat) set \<Rightarrow> bool"
    and alloc :: "u32 \<Rightarrow> 's \<Rightarrow> (u32 \<times> 's) option"
    and free :: "u32 \<Rightarrow> 's \<Rightarrow> 's option"
    and limit :: u32
  assumes regions_disjoint: "rep s L \<Longrightarrow> (p, k) \<in> L \<Longrightarrow> (q, j) \<in> L \<Longrightarrow> (p, k) \<noteq> (q, j) \<Longrightarrow>
      p + k \<le> q \<or> q + j \<le> p"
    and regions_bounded: "rep s L \<Longrightarrow> (p, k) \<in> L \<Longrightarrow> 0 < p \<and> p + k < 2 ^ 32"
    and alloc_law: "rep s L \<Longrightarrow> 0 < n \<Longrightarrow> n \<le> limit \<Longrightarrow>
      \<exists>p t. alloc n s = Some (p, t) \<and>
        (if p = 0 then rep t L else \<exists>k \<ge> unat n. (unat p, k) \<notin> L \<and> rep t (insert (unat p, k) L))"
    and free_law: "rep s L \<Longrightarrow> (unat a, k) \<in> L \<Longrightarrow> 0 < k \<Longrightarrow>
      \<exists>t. free a s = Some t \<and> rep t (L - {(unat a, k)})"
begin

lemma fresh_region:
  assumes "rep s L" and "0 < n" and "n \<le> limit" and "alloc n s = Some (p, t)" and "p \<noteq> 0"
  obtains k where "unat n \<le> k" and "rep t (insert (unat p, k) L)"
    and "\<And>q j. (q, j) \<in> L \<Longrightarrow> unat p + k \<le> q \<or> q + j \<le> unat p"
proof -
  from alloc_law [OF assms(1-3)] assms(4,5) obtain k where
    k: "unat n \<le> k" "(unat p, k) \<notin> L" "rep t (insert (unat p, k) L)" by auto
  have "unat p + k \<le> q \<or> q + j \<le> unat p" if "(q, j) \<in> L" for q j
  proof -
    have "(unat p, k) \<noteq> (q, j)" using that k(2) by auto
    from regions_disjoint [OF k(3) _ _ this] that show ?thesis by simp
  qed
  with k that show thesis by blast
qed

lemma alloc_free_cancel:
  assumes "rep s L" and "0 < n" and "n \<le> limit" and "alloc n s = Some (p, t)" and "p \<noteq> 0"
  shows "\<exists>u. free p t = Some u \<and> rep u L"
proof -
  from alloc_law [OF assms(1-3)] assms(4,5) obtain k where
    k: "unat n \<le> k" "(unat p, k) \<notin> L" "rep t (insert (unat p, k) L)" by auto
  have "0 < unat n" using assms(2) by (simp add: word_less_nat_alt)
  with k have "0 < k" by simp
  from free_law [OF k(3) insertI1 this] k(2) show ?thesis by simp
qed

end

section \<open>The kernel heap implements it\<close>

definition heap_rep :: "kheap \<Rightarrow> (nat \<times> nat) set \<Rightarrow> bool" where
  "heap_rep h L \<longleftrightarrow> (\<exists>bs. heap_blocks h bs \<and> L = live bs)"

text \<open>Requests larger than this wrap around when they are rounded up.\<close>

abbreviation "KMALLOC_LIMIT \<equiv> 0xFFFFFFFC :: u32"

definition round4 :: "nat \<Rightarrow> nat" where
  "round4 n = (n + 3) div 4 * 4"

lemma unat_round4:
  assumes "sz \<le> KMALLOC_LIMIT" shows "unat ((sz + 3) AND NOT 3) = round4 (unat sz)"
proof -
  have "x AND NOT (mask 2) = push_bit 2 (drop_bit 2 x)" for x :: u32 by (rule clear_low_bits)
  moreover have "mask 2 = (3 :: u32)" by (simp add: mask_eq_exp_minus_1)
  moreover have "unat (sz + 3) = unat sz + 3"
    using assms by (simp add: word_le_nat_alt unat_word_ariths)
  ultimately show ?thesis using unat_clear_low [of 2 "sz + 3"] by (simp add: round4_def)
qed

lemma round4_bounds: "n \<le> round4 n" "4 dvd round4 n" "0 < n \<Longrightarrow> 0 < round4 n"
  by (auto simp: round4_def)

lemma kmalloc_blocks:
  assumes "heap_blocks h bs" and "0 < sz" and "sz \<le> KMALLOC_LIMIT"
  shows "case take_first (unat HEAP_START) (round4 (unat sz)) bs of
      None \<Rightarrow> kmalloc sz h = Some (0, h)
    | Some (p, cs) \<Rightarrow> \<exists>h'. kmalloc sz h = Some (of_nat p, h') \<and> heap_blocks h' cs \<and>
        heap_data h' = heap_data h \<and> (of_nat p :: u32) \<noteq> 0 \<and> unat (of_nat p :: u32) = p"
proof -
  let ?n = "round4 (unat sz)"
  have lay: "layout (hdrs h) 0x800000 bs" "bs \<noteq> []" "heap_head h = of_nat 0x800000"
    using assms(1) by (simp_all add: heap_blocks_def)
  have sz: "unat ((sz + 3) AND NOT 3) = ?n" "(sz + 3) AND NOT 3 = (of_nat ?n :: u32)"
    by (simp_all flip: unat_round4 [OF assms(3)])
  note ff = find_fit_layout [OF lay(1,2), of "(sz + 3) AND NOT 3", unfolded sz(1)]
  show ?thesis
  proof (cases "take_first 0x800000 ?n bs")
    case None
    with ff lay(3) assms(2) show ?thesis by (simp add: kmalloc_def Let_def)
  next
    case (Some r)
    obtain p cs where r: "r = (p, cs)" by (cases r)
    note t = Some [unfolded r]
    note bd = take_first_bounds [OF t] and ext = layout_extent [OF lay(1)]
    have up: "unat (of_nat p :: u32) = p" "unat (of_nat (p - 12) :: u32) = p - 12"
      by (rule unat_heap_addr, use bd ext in fastforce)+
    have nz: "(of_nat p :: u32) \<noteq> 0" "(of_nat (p - 12) :: u32) \<noteq> 0"
      by (rule heap_addr_nonzero; use bd ext in fastforce)+
    let ?h = "take_block (of_nat (p - 12)) (of_nat ?n) h"
    have "kmalloc sz h = Some (of_nat (p - 12) + BLOCK_HDR_SIZE, ?h)"
      using ff t lay(3) assms(2) nz sz(2) by (simp add: kmalloc_def Let_def del: of_nat_diff)
    moreover have "of_nat (p - 12) + BLOCK_HDR_SIZE = (of_nat p :: u32)"
      using bd by (simp add: of_nat_diff)
    moreover have "heap_blocks ?h cs"
      using take_block_layout [OF lay(1) t round4_bounds(2)] bd lay(3)
      by (simp add: heap_blocks_def take_block_frame)
    ultimately show ?thesis using t nz(1) up(1) by (simp add: take_block_frame)
  qed
qed

lemma kfree_blocks:
  assumes "heap_blocks h bs" and "(unat p, k) \<in> live bs" and "p < HEAP_MAX"
  shows "\<exists>h'. kfree p h = Some h' \<and> heap_blocks h' (release (unat HEAP_START) (unat p) bs) \<and> heap_data h' = heap_data h"
proof -
  have "layout (hdrs h) 0x800000 bs" "(unat p, k) \<in> live_from 0x800000 bs" "unat p < 0x3000000"
    using assms by (simp_all add: heap_blocks_def live_def word_less_nat_alt)
  from kfree_layout [OF this(1,2) order_refl this(3)] release_not_Nil [OF this(2)] assms(1)
  show ?thesis by (auto simp: heap_blocks_def)
qed

lemma live_bounds:
  assumes "heap_blocks h bs" and "(p, k) \<in> live bs"
  shows "0x80000C \<le> p" and "p + k \<le> 0x3000000"
  using live_from_bounds [of p k "0x800000" bs] layout_extent [of "hdrs h" "0x800000" bs] assms
  by (auto simp: heap_blocks_def live_def)

interpretation kheap: region_allocator heap_rep kmalloc kfree KMALLOC_LIMIT
proof
  fix h L p k q j
  assume h: "heap_rep h L" and p: "(p, k) \<in> L"
  then obtain bs where bs: "heap_blocks h bs" "L = live bs" by (auto simp: heap_rep_def)
  show "0 < p \<and> p + k < 2 ^ 32" using live_bounds [OF bs(1), of p k] p bs(2) by auto
  assume "(q, j) \<in> L" "(p, k) \<noteq> (q, j)"
  with p live_from_disjoint [of p k "unat HEAP_START" bs q j] show "p + k \<le> q \<or> q + j \<le> p"
    by (auto simp: bs(2) live_def)
next
  fix h L n
  assume h: "heap_rep h L" and n: "0 < n" "n \<le> KMALLOC_LIMIT"
  then obtain bs where bs: "heap_blocks h bs" "L = live bs" by (auto simp: heap_rep_def)
  show "\<exists>p t. kmalloc n h = Some (p, t) \<and> (if p = 0 then heap_rep t L
      else \<exists>k \<ge> unat n. (unat p, k) \<notin> L \<and> heap_rep t (insert (unat p, k) L))"
  proof (cases "take_first (unat HEAP_START) (round4 (unat n)) bs")
    case None
    with kmalloc_blocks [OF bs(1) n] h show ?thesis by auto
  next
    case (Some r)
    obtain p cs where r: "r = (p, cs)" by (cases r)
    obtain k where "round4 (unat n) \<le> k" "live cs = insert (p, k) L" "(p, k) \<notin> L"
      using take_first_live [OF Some [unfolded r]] by (auto simp: live_def bs(2))
    with kmalloc_blocks [OF bs(1) n] Some r round4_bounds(1) [of "unat n"] show ?thesis
      by (auto simp: heap_rep_def intro!: exI [of _ "of_nat p"] exI [of _ k] exI [of _ cs])
  qed
next
  fix h L k and p :: u32
  assume h: "heap_rep h L" and p: "(unat p, k) \<in> L" "0 < k"
  then obtain bs where bs: "heap_blocks h bs" "L = live bs" by (auto simp: heap_rep_def)
  have "p < HEAP_MAX" using live_bounds [OF bs(1), of "unat p" k] p bs(2) by (simp add: word_less_nat_alt)
  with kfree_blocks [OF bs(1), of p k] p bs(2) obtain h' where
    "kfree p h = Some h'" "heap_blocks h' (release (unat HEAP_START) (unat p) bs)" by auto
  moreover have "live (release (unat HEAP_START) (unat p) bs) = L - {(unat p, k)}"
    using release_live [of "unat p" k "unat HEAP_START" bs] p by (simp add: bs(2) live_def)
  ultimately show "\<exists>t. kfree p h = Some t \<and> heap_rep t (L - {(unat p, k)})"
    by (auto simp: heap_rep_def)
qed

end
