(* ===== verification/Kheap_Properties.thy ===== *)
theory Kheap_Properties
  imports Kheap_Spec
begin

text \<open>
  Properties of the kernel heap, with concrete instances, and the states its clients can
  reach by calling it.
\<close>

text \<open>
  What a client may do with the heap: allocate, resize and release regions it holds, and write
  to payload memory. The second argument records the regions held, with the size the header
  gives. Requests of 0 bytes are allowed; requests so large that rounding them up wraps are not.
\<close>

abbreviation "region p h \<equiv> (unat p, unat (h_size (hdrs h (p - BLOCK_HDR_SIZE))))"

inductive heap_reach :: "kheap \<Rightarrow> (nat \<times> nat) set \<Rightarrow> bool" where
  init: "heap_reach (heap_init h) {}"
| malloc: "heap_reach h L \<Longrightarrow> n \<le> KMALLOC_LIMIT \<Longrightarrow> kmalloc n h = Some (p, h') \<Longrightarrow>
    heap_reach h' (if p = 0 then L else insert (region p h') L)"
| free: "heap_reach h L \<Longrightarrow> (unat p, k) \<in> L \<Longrightarrow> kfree p h = Some h' \<Longrightarrow>
    heap_reach h' (L - {(unat p, k)})"
| bad_free: "heap_reach h L \<Longrightarrow> p < HEAP_START + BLOCK_HDR_SIZE \<or> HEAP_MAX \<le> p \<Longrightarrow> kfree p h = Some h' \<Longrightarrow>
    heap_reach h' L"
| realloc_null: "heap_reach h L \<Longrightarrow> n \<le> KMALLOC_LIMIT \<Longrightarrow> krealloc 0 n h = Some (p, h') \<Longrightarrow>
    heap_reach h' (if p = 0 then L else insert (region p h') L)"
| realloc: "heap_reach h L \<Longrightarrow> (unat p, k) \<in> L \<Longrightarrow> n \<le> KMALLOC_LIMIT \<Longrightarrow> krealloc p n h = Some (q, h') \<Longrightarrow>
    heap_reach h' (if n = 0 then L - {(unat p, k)} else if q = 0 then L else insert (region q h') (L - {(unat p, k)}))"
| store: "heap_reach h L \<Longrightarrow> heap_reach (h\<lparr>heap_data := d\<rparr>) L"

definition heap0 :: kheap where
  "heap0 = \<lparr>hdrs = (\<lambda>_. \<lparr>h_size = 0, is_free = 0, h_next = 0\<rparr>), heap_head = 0, heap_data = (\<lambda>x. ucast x)\<rparr>"

definition heap1 :: kheap where
  "heap1 = snd (the (kmalloc 100 (heap_init heap0)))"

definition heap2 :: kheap where
  "heap2 = snd (the (kmalloc 50 heap1))"

lemma live_header:
  "layout m a bs \<Longrightarrow> (p, s) \<in> live_from a bs \<Longrightarrow> h_size (m (of_nat (p - 12))) = of_nat s"
  by (induction bs arbitrary: a) (auto split: if_splits)

lemma live_aligned: "heap_blocks h bs \<Longrightarrow> (p, k) \<in> live bs \<Longrightarrow> 4 dvd p"
proof -
  have "layout m a bs \<Longrightarrow> 4 dvd a \<Longrightarrow> (p, k) \<in> live_from a bs \<Longrightarrow> 4 dvd p" for m a
    by (induction bs arbitrary: a) (auto split: if_splits)
  then show "heap_blocks h bs \<Longrightarrow> (p, k) \<in> live bs \<Longrightarrow> 4 dvd p" by (fastforce simp: heap_blocks_def live_def)
qed

lemma kmalloc_region:
  assumes "heap_blocks h bs" and "0 < n" and "n \<le> KMALLOC_LIMIT" and "kmalloc n h = Some (p, h')" and "p \<noteq> 0"
  obtains cs k where "heap_blocks h' cs" and "live cs = insert (unat p, k) (live bs)" and "(unat p, k) \<notin> live bs"
    and "round4 (unat n) \<le> k" and "k < round4 (unat n) + 28" and "k = unat (h_size (hdrs h' (p - 12)))"
    and "4 dvd unat p" and "heap_data h' = heap_data h"
proof (cases "take_first 0x800000 (round4 (unat n)) bs")
  case None
  with kmalloc_blocks [OF assms(1-3)] assms(4,5) that show thesis by simp
next
  case (Some r)
  obtain q cs where r: "r = (q, cs)" by (cases r)
  with kmalloc_blocks [OF assms(1-3)] Some assms(4) have q: "p = of_nat q" "heap_blocks h' cs"
    "heap_data h' = heap_data h" "unat p = q" by auto
  obtain k where k: "round4 (unat n) \<le> k" "k < round4 (unat n) + 28" "live cs = insert (q, k) (live bs)" "(q, k) \<notin> live bs"
    using take_first_live [OF Some [unfolded r]] by (auto simp: live_def)
  have "layout (hdrs h') 0x800000 cs" using q(2) by (simp add: heap_blocks_def)
  then have "h_size (hdrs h' (of_nat (q - 12))) = of_nat k"
    by (rule live_header) (use k(3) in \<open>simp add: live_def\<close>)
  moreover have b: "0x80000C \<le> q" "q + k \<le> 0x3000000" using live_bounds [OF q(2), of q k] k(3) by simp_all
  moreover from b have "p - 12 = of_nat (q - 12)" by (simp add: q(1) of_nat_diff)
  ultimately have "k = unat (h_size (hdrs h' (p - 12)))" by (simp add: unat_heap_addr)
  moreover have "4 dvd unat p"
  proof -
    have "\<forall>(s, f) \<in> set bs. 4 dvd s" using assms(1) layout_aligned [of "hdrs h" "0x800000" bs] by (simp add: heap_blocks_def)
    from take_first_aligned [OF Some [unfolded r] _ this] show ?thesis by (simp add: q(4))
  qed
  ultimately show thesis using that k q by simp
qed

lemma kmalloc_first_fit_returns:
  assumes "heap_blocks h bs" and "0 < sz" and "sz \<le> KMALLOC_LIMIT"
  shows "\<exists>p h'. kmalloc sz h = Some (p, h') \<and> (p = 0 \<longrightarrow> h' = h)"
  using kmalloc_blocks [OF assms] by (auto split: option.splits)

lemma region_size:
  assumes "heap_blocks h bs" and "(unat p, k) \<in> live bs"
  shows "h_size (hdrs h (p - 12)) = of_nat k" "unat (h_size (hdrs h (p - 12))) = k" "unat (of_nat k :: u32) = k"
proof -
  note lb = live_bounds [OF assms]
  have "layout (hdrs h) 0x800000 bs" using assms(1) by (simp add: heap_blocks_def)
  then have "h_size (hdrs h (of_nat (unat p - 12))) = of_nat k"
    by (rule live_header) (use assms(2) in \<open>simp add: live_def\<close>)
  moreover have "of_nat (unat p - 12) = p - 12" using lb by (simp add: of_nat_diff)
  ultimately show e: "h_size (hdrs h (p - 12)) = of_nat k" by simp
  show "unat (of_nat k :: u32) = k" using lb by (simp add: unat_heap_addr)
  then show "unat (h_size (hdrs h (p - 12))) = k" by (simp add: e)
qed

lemma kmalloc_null_iff:
  assumes "heap_blocks h bs" and "0 < sz" and "sz \<le> KMALLOC_LIMIT" and "kmalloc sz h = Some (p, h')"
  shows "p = 0 \<longleftrightarrow> (\<forall>(s, f) \<in> set bs. f \<longrightarrow> s < round4 (unat sz))"
proof (cases "take_first (unat HEAP_START) (round4 (unat sz)) bs")
  case None
  moreover have "\<forall>(s, f) \<in> set bs. f \<longrightarrow> s < round4 (unat sz)" using None by (simp only: take_first_None)
  ultimately show ?thesis using kmalloc_blocks [OF assms(1-3)] assms(4) by simp
next
  case (Some r)
  have "\<not> (\<forall>(s, f) \<in> set bs. f \<longrightarrow> s < round4 (unat sz))"
    using Some take_first_None [of "unat HEAP_START" "round4 (unat sz)" bs] by (metis option.distinct(1))
  moreover have "p \<noteq> 0" using Some kmalloc_blocks [OF assms(1-3)] assms(4) by (cases r) auto
  ultimately show ?thesis by simp
qed

text \<open>Copying a region to a disjoint one.\<close>

lemma copy_region:
  assumes dis: "unat p + k \<le> unat q \<or> unat q + j \<le> unat p" and b: "unat p + k \<le> 0x3000000" "unat q + j \<le> 0x3000000" "k \<le> j"
  shows "i < k \<Longrightarrow> memcpy q p (of_nat k) d (q + of_nat i) = d (p + of_nat i)"
    and "unat x < unat q \<or> unat q + j \<le> unat x \<Longrightarrow> memcpy q p (of_nat k) d x = d x"
proof -
  have k: "unat (of_nat k :: u32) = k" using b by (simp add: unat_heap_addr)
  have cp: "memcpy q p (of_nat k) d x = (if x - q < of_nat k then d (p + (x - q)) else d x)" for x
  proof (rule memcpy_correct)
    fix a c :: u32
    assume a: "a < of_nat k" and c: "c < of_nat k"
    then have "unat (p + c) = unat p + unat c" "unat (q + a) = unat q + unat a"
      using b k by (simp_all add: word_less_nat_alt unat_word_ariths)
    then show "p + c \<noteq> q + a" using dis a c b(3) k by (auto simp: word_less_nat_alt dest: arg_cong [where f = unat])
  qed
  show "i < k \<Longrightarrow> memcpy q p (of_nat k) d (q + of_nat i) = d (p + of_nat i)"
    using b k by (simp add: cp word_less_nat_alt unat_heap_addr)
  assume x: "unat x < unat q \<or> unat q + j \<le> unat x"
  have "\<not> x - q < of_nat k"
  proof
    assume "x - q < of_nat k"
    then have xk: "unat (x - q) < k" by (simp add: word_less_nat_alt k)
    have "unat (q + y) = unat q + unat y" if "unat y < k" for y using that b by (simp add: unat_word_ariths)
    from this [OF xk] have "unat x = unat q + unat (x - q)" by simp
    with xk x b(3) show False by auto
  qed
  then show "memcpy q p (of_nat k) d x = d x" by (simp add: cp)
qed

text \<open>What \<open>krealloc\<close> does to a region in use.\<close>

definition resized :: "kheap \<Rightarrow> block list \<Rightarrow> u32 \<Rightarrow> nat \<Rightarrow> u32 \<Rightarrow> u32 \<Rightarrow> kheap \<Rightarrow> bool" where
  "resized h bs p k sz q h' \<longleftrightarrow> (\<exists>cs j. heap_blocks h' cs \<and> live cs = insert (unat q, j) (live bs - {(unat p, k)}) \<and> unat sz \<le> j \<and>
     4 dvd unat q \<and> (\<forall>i < min k (unat sz). heap_data h' (q + of_nat i) = heap_data h (p + of_nat i)) \<and>
     (\<forall>(r, l) \<in> live bs. \<forall>x. (r, l) \<noteq> (unat p, k) \<and> r \<le> unat x \<and> unat x < r + l \<longrightarrow> heap_data h' x = heap_data h x))"

lemma krealloc_grow:
  assumes "heap_blocks h bs" and "(unat p, k) \<in> live bs" and "0 < k" and "0 < sz" and "sz \<le> KMALLOC_LIMIT"
    and grow: "k < unat sz" and m: "kmalloc sz h = Some (q, h1)" and q: "q \<noteq> 0"
  shows "\<exists>h'. krealloc p sz h = Some (q, h') \<and> resized h bs p k sz q h'"
proof -
  note lb = live_bounds [OF assms(1,2)] and sz = region_size(1,3) [OF assms(1,2)]
  have p: "p \<noteq> 0" "p < HEAP_MAX" "sz \<noteq> 0" using lb assms(3,4) by (auto simp: word_less_nat_alt)
  from kmalloc_region [OF assms(1,4,5) m q] obtain cs j where c: "heap_blocks h1 cs"
    "live cs = insert (unat q, j) (live bs)" "(unat q, j) \<notin> live bs" "round4 (unat sz) \<le> j" "heap_data h1 = heap_data h" "4 dvd unat q"
    by metis
  have dis: "r + l + 12 \<le> unat q \<or> unat q + j + 12 \<le> r" if "(r, l) \<in> live bs" for r l
  proof -
    have "(r, l) \<noteq> (unat q, j)" using that c(3) by auto
    with that c(2) live_from_disjoint [of r l "unat HEAP_START" cs "unat q" j] show ?thesis by (auto simp: live_def)
  qed
  have lq: "unat q + j \<le> 0x3000000" using live_bounds [OF c(1), of "unat q" j] c(2) by simp
  have j: "unat sz \<le> j" using c(4) round4_bounds(1) [of "unat sz"] by simp
  have lp: "(unat p, k) \<in> live cs" using assms(2) c(2) by simp
  note sz1 = region_size(1) [OF c(1) lp]
  let ?d = "memcpy q p (of_nat k) (heap_data h)"
  let ?h = "h1\<lparr>heap_data := ?d\<rparr>"
  have eq: "krealloc p sz h = map_option (\<lambda>h. (q, h)) (kfree p ?h)"
    using p sz sz1 m q grow c(5) by (simp add: krealloc_def Let_def word_less_nat_alt word_le_nat_alt)
  have "heap_blocks ?h cs" using c(1) by (simp add: heap_blocks_def)
  then obtain h' where f: "kfree p ?h = Some h'" "heap_blocks h' (release (unat HEAP_START) (unat p) cs)" "heap_data h' = ?d"
    using kfree_blocks [of ?h cs p k] lp p(2) by auto
  have live': "live (release (unat HEAP_START) (unat p) cs) = insert (unat q, j) (live bs - {(unat p, k)})"
    using release_live [of "unat p" k "unat HEAP_START" cs] lp c(2,3) assms(2) by (auto simp: live_def)
  have d': "unat p + k \<le> unat q \<or> unat q + j \<le> unat p" using dis [OF assms(2)] by auto
  have lk: "unat p + k \<le> 0x3000000" "k \<le> j" using lb grow j by simp_all
  note cp = copy_region [OF d' lk(1) lq lk(2), of _ "heap_data h"]
  have "resized h bs p k sz q h'" unfolding resized_def
  proof (rule exI [of _ "release (unat HEAP_START) (unat p) cs"], rule exI [of _ j], intro conjI f(2) live' j c(6))
    show "\<forall>i < min k (unat sz). heap_data h' (q + of_nat i) = heap_data h (p + of_nat i)" using cp(1) f(3) by simp
    show "\<forall>(r, l) \<in> live bs. \<forall>x. (r, l) \<noteq> (unat p, k) \<and> r \<le> unat x \<and> unat x < r + l \<longrightarrow> heap_data h' x = heap_data h x"
      using cp(2) dis f(3) by fastforce
  qed
  then show ?thesis using eq f(1) by simp
qed

lemma krealloc_step:
  assumes "heap_blocks h bs" and "(unat p, k) \<in> live bs" and "0 < k" and "0 < sz" and "sz \<le> KMALLOC_LIMIT"
  shows "\<exists>q h'. krealloc p sz h = Some (q, h') \<and>
    (q = 0 \<longleftrightarrow> k < unat sz \<and> (\<forall>(s, f) \<in> set bs. f \<longrightarrow> s < round4 (unat sz))) \<and> (if q = 0 then h' = h else resized h bs p k sz q h')"
proof (cases "unat sz \<le> k")
  case True
  note lb = live_bounds [OF assms(1,2)] and sz = region_size(1,3) [OF assms(1,2)]
  have p: "p \<noteq> 0" "sz \<noteq> 0" using lb assms(4) by auto
  have "krealloc p sz h = Some (p, h)" using True p sz by (simp add: krealloc_def word_le_nat_alt)
  moreover have "insert (unat p, k) (live bs - {(unat p, k)}) = live bs" using assms(2) by auto
  moreover have "4 dvd unat p" using assms(1,2) live_aligned by blast
  ultimately show ?thesis using True assms(1) p
    by (auto simp: resized_def intro!: exI [of _ bs] exI [of _ k])
next
  case False
  from kmalloc_first_fit_returns [OF assms(1,4,5)] obtain q h1 where m: "kmalloc sz h = Some (q, h1)" "q = 0 \<Longrightarrow> h1 = h" by blast
  note n = kmalloc_null_iff [OF assms(1,4,5) m(1)]
  show ?thesis
  proof (cases "q = 0")
    case True
    have p: "p \<noteq> 0" "sz \<noteq> 0" using live_bounds [OF assms(1,2)] assms(4) by auto
    have "krealloc p sz h = Some (0, h)"
      using m True p False region_size(1,3) [OF assms(1,2)] by (simp add: krealloc_def word_le_nat_alt)
    then show ?thesis using True n False by simp
  next
    case q: False
    then show ?thesis using krealloc_grow [OF assms _ m(1) q] n False by auto
  qed
qed

lemma heap_init_blocks: "heap_blocks (heap_init h) [(0x27FFFF4, True)]"
  by (simp add: heap_blocks_def heap_init_def)

text \<open>A region in use has the size its header gives, and replacing the held regions keeps them in step.\<close>

lemma kmalloc_held:
  assumes "heap_blocks h bs" "n \<le> KMALLOC_LIMIT" "kmalloc n h = Some (p, h')" "\<forall>(p, k) \<in> live bs. 0 < k"
  shows "\<exists>cs. heap_blocks h' cs \<and> (if p = 0 then live bs else insert (region p h') (live bs)) = live cs \<and> (\<forall>(p, k) \<in> live cs. 0 < k)"
proof (cases "n = 0 \<or> p = 0")
  case True
  then have "h' = h \<and> p = 0"
  proof (cases "n = 0")
    case False
    then show ?thesis using True kmalloc_first_fit_returns [OF assms(1) _ assms(2)] assms(3) by (auto simp: word_gt_0)
  qed (use assms(3) in \<open>simp add: kmalloc_def\<close>)
  then show ?thesis using assms(1,4) by auto
next
  case False
  then have n: "0 < n" "p \<noteq> 0" by (simp_all add: word_gt_0)
  from kmalloc_region [OF assms(1) n(1) assms(2,3) n(2)] obtain cs k where
    c: "heap_blocks h' cs" "live cs = insert (unat p, k) (live bs)" "round4 (unat n) \<le> k" by metis
  have "0 < round4 (unat n)" using n(1) by (intro round4_bounds) (simp add: word_less_nat_alt)
  then show ?thesis using c n(2) assms(4) region_size(2) [OF c(1), of p k] by (intro exI [of _ cs]) auto
qed

lemma kfree_held:
  assumes "heap_blocks h bs" "(unat p, k) \<in> live bs" "kfree p h = Some h'" "\<forall>(p, k) \<in> live bs. 0 < k"
  shows "\<exists>cs. heap_blocks h' cs \<and> live bs - {(unat p, k)} = live cs \<and> (\<forall>(p, k) \<in> live cs. 0 < k)"
proof -
  have "heap_rep h (live bs)" "0 < k" using assms by (auto simp: heap_rep_def)
  then have "heap_rep h' (live bs - {(unat p, k)})" using kheap.free_law assms(2,3) by (metis option.inject)
  then show ?thesis using assms(4) by (auto simp: heap_rep_def)
qed

lemma krealloc_held:
  assumes "heap_blocks h bs" "(unat p, k) \<in> live bs" "n \<le> KMALLOC_LIMIT" "krealloc p n h = Some (q, h')" "\<forall>(p, k) \<in> live bs. 0 < k"
  shows "\<exists>cs. heap_blocks h' cs \<and> (if n = 0 then live bs - {(unat p, k)} else if q = 0 then live bs else insert (region q h') (live bs - {(unat p, k)})) = live cs \<and>
    (\<forall>(p, k) \<in> live cs. 0 < k)"
proof (cases "n = 0")
  case True
  have "p \<noteq> 0" using live_bounds [OF assms(1,2)] by auto
  then have "kfree p h = Some h'" using assms(4) True by (auto simp: krealloc_def)
  from kfree_held [OF assms(1,2) this assms(5)] True show ?thesis by simp
next
  case False
  then have n: "0 < n" "0 < k" using assms(2,5) by (auto simp: word_gt_0)
  from krealloc_step [OF assms(1,2) n(2,1) assms(3)] assms(4) have r: "if q = 0 then h' = h else resized h bs p k n q h'" by auto
  show ?thesis
  proof (cases "q = 0")
    case True
    then show ?thesis using r False assms(1,5) by auto
  next
    case q: False
    then obtain cs j where c: "heap_blocks h' cs" "live cs = insert (unat q, j) (live bs - {(unat p, k)})" "unat n \<le> j" using r by (auto simp: resized_def)
    have "0 < unat n" using n(1) by (simp add: word_less_nat_alt)
    then show ?thesis using c q False assms(5) region_size(2) [OF c(1), of q j] by (intro exI [of _ cs]) auto
  qed
qed

lemma heap_reach_blocks: "heap_reach h L \<Longrightarrow> \<exists>bs. heap_blocks h bs \<and> L = live bs \<and> (\<forall>(p, k) \<in> L. 0 < k)"
proof (induction rule: heap_reach.induct)
  case (init h)
  show ?case using heap_init_blocks [of h] by (intro exI [of _ "[(0x27FFFF4, True)]"]) (simp add: live_def)
next
  case (malloc h L n p h') then show ?case using kmalloc_held by metis
next
  case (free h L p k h') then show ?case using kfree_held by metis
next
  case (bad_free h L p h')
  then have "h' = h" by (auto simp: kfree_def split: if_splits)
  with bad_free show ?case by simp
next
  case (realloc_null h L n p h')
  then have "kmalloc n h = Some (p, h')" by (simp add: krealloc_def)
  then show ?case using realloc_null kmalloc_held by metis
next
  case (realloc h L p k n q h') then show ?case using krealloc_held by metis
next
  case (store h L d) then show ?case by (auto simp: heap_blocks_def)
qed

text \<open>
  C2. Heap safety for any client. After \<open>heap_init\<close> and any sequence of \<open>kmalloc\<close>, \<open>krealloc\<close> and
  \<open>kfree\<close> calls, on sizes that do not wrap when rounded up and on null or held regions, rejected
  releases of pointers outside the heap, and writes to payload memory: the regions held are
  4-byte aligned, not empty, inside the heap and pairwise disjoint (a header apart), and the next call of each
  kind returns. The blocks tile the heap, each with a 12-byte header and the held regions being exactly the blocks
  in use; \<open>heap_used\<close> returns the bytes held and \<open>heap_free\<close> the sum of the sizes of the free blocks.
\<close>
theorem heap_client_safety:
  assumes "heap_reach h L"
  shows "(\<forall>(p, k) \<in> L. 4 dvd p \<and> 0 < k \<and> unat HEAP_START + 12 \<le> p \<and> p + k \<le> unat HEAP_MAX) \<and>
    (\<forall>(p, k) \<in> L. \<forall>(q, j) \<in> L. (p, k) \<noteq> (q, j) \<longrightarrow> p + k + 12 \<le> q \<or> q + j + 12 \<le> p) \<and>
    (\<forall>n. n \<le> KMALLOC_LIMIT \<longrightarrow> kmalloc n h \<noteq> None) \<and>
    (\<forall>p k. (unat p, k) \<in> L \<longrightarrow> kfree p h \<noteq> None) \<and>
    (\<forall>p k n. (unat p, k) \<in> L \<and> n \<le> KMALLOC_LIMIT \<longrightarrow> krealloc p n h \<noteq> None) \<and>
    (\<exists>bs u f. heap_blocks h bs \<and> L = live bs \<and> heap_used h = Some u \<and> heap_free h = Some f \<and>
       unat u = (\<Sum>(p, k) \<in> L. k) \<and> unat f = (\<Sum>(n, fr) \<leftarrow> bs. if fr then n else 0) \<and>
       unat u + unat f + 12 * length bs = unat HEAP_MAX - unat HEAP_START)"
proof (intro conjI)
  obtain bs where bs: "heap_blocks h bs" "L = live bs" "\<forall>(p, k) \<in> L. 0 < k"
    using heap_reach_blocks [OF assms] by blast
  then have rep: "heap_rep h L" by (auto simp: heap_rep_def)
  have pos: "\<forall>(p, k) \<in> live bs. 0 < k" using bs by simp
  show "\<forall>(p, k) \<in> L. 4 dvd p \<and> 0 < k \<and> unat HEAP_START + 12 \<le> p \<and> p + k \<le> unat HEAP_MAX"
    using bs live_bounds [OF bs(1)] live_aligned [OF bs(1)] by fastforce
  show "\<forall>(p, k) \<in> L. \<forall>(q, j) \<in> L. (p, k) \<noteq> (q, j) \<longrightarrow> p + k + 12 \<le> q \<or> q + j + 12 \<le> p"
    unfolding bs(2) live_def using live_from_disjoint by blast
  show m: "\<forall>n. n \<le> KMALLOC_LIMIT \<longrightarrow> kmalloc n h \<noteq> None"
  proof (intro allI impI)
    fix n assume "n \<le> KMALLOC_LIMIT"
    then show "kmalloc n h \<noteq> None" using kmalloc_first_fit_returns [OF bs(1), of n]
      by (cases "n = 0") (simp add: kmalloc_def, auto simp: word_gt_0)
  qed
  show f: "\<forall>p k. (unat p, k) \<in> L \<longrightarrow> kfree p h \<noteq> None"
    using kheap.free_law [OF rep] bs(3) by fastforce
  show "\<forall>p k n. (unat p, k) \<in> L \<and> n \<le> KMALLOC_LIMIT \<longrightarrow> krealloc p n h \<noteq> None"
  proof (intro allI impI)
    fix p :: u32 and k n assume a: "(unat p, k) \<in> L \<and> n \<le> KMALLOC_LIMIT"
    show "krealloc p n h \<noteq> None"
    proof (cases "n = 0")
      case True
      then show ?thesis using f m a by (auto simp: krealloc_def)
    next
      case False
      then have "0 < n" "0 < k" using a bs(3) by (auto simp: word_gt_0)
      then show ?thesis using krealloc_step [OF bs(1), of p k n] a bs(2) by auto
    qed
  qed
  let ?u = "sum_list (map fst (filter (\<lambda>b. \<not> snd b) bs))" and ?f = "sum_list (map fst (filter (\<lambda>b. snd b) bs))"
  have lay: "layout (hdrs h) 0x800000 bs" "bs \<noteq> []" "heap_head h = of_nat 0x800000"
    using bs(1) by (simp_all add: heap_blocks_def)
  have "heap_used h = Some (of_nat ?u)" "heap_free h = Some (of_nat ?f)"
    using sum_sizes_layout [OF lay(1,2), of Not 0] sum_sizes_layout [OF lay(1,2), of "\<lambda>b. b" 0]
    unfolding heap_used_def heap_free_def lay(3) by simp_all
  moreover have sum: "0x800000 + (?u + ?f + 12 * length bs) = 0x3000000"
    using layout_extent [OF lay(1)] extent_used_free [of bs] by simp
  moreover have "unat (of_nat ?u :: u32) = ?u" "unat (of_nat ?f :: u32) = ?f"
    by (rule unat_heap_addr, use sum in linarith)+
  moreover have "?u = (\<Sum>(p, k) \<in> L. k)" unfolding bs(2) live_def by (rule used_live)
  moreover have "?f = (\<Sum>(n, fr) \<leftarrow> bs. if fr then n else 0)" by (induction bs) auto
  ultimately show "\<exists>bs u f. heap_blocks h bs \<and> L = live bs \<and> heap_used h = Some u \<and> heap_free h = Some f \<and>
       unat u = (\<Sum>(p, k) \<in> L. k) \<and> unat f = (\<Sum>(n, fr) \<leftarrow> bs. if fr then n else 0) \<and>
       unat u + unat f + 12 * length bs = unat HEAP_MAX - unat HEAP_START"
    using bs(1,2) by (intro exI [of _ bs] exI [of _ "of_nat ?u"] exI [of _ "of_nat ?f"]) simp
qed

lemma heap1_eq: "kmalloc 100 (heap_init heap0) = Some (0x80000C, heap1)"
proof -
  have "map_option fst (kmalloc 100 (heap_init heap0)) = Some 0x80000C" by code_simp
  then show ?thesis by (auto simp: heap1_def)
qed

lemma heap1_blocks: "heap_blocks heap1 [(100, False), (0x27FFF84, True)]"
proof -
  have "hdrs heap1 0x800000 = \<lparr>h_size = 100, is_free = 0, h_next = 0x800070\<rparr>"
    "hdrs heap1 0x800070 = \<lparr>h_size = 0x27FFF84, is_free = 1, h_next = 0\<rparr>" "heap_head heap1 = HEAP_START"
    by code_simp+
  then show ?thesis by (simp add: heap_blocks_def)
qed

theorem heap_client_safety_witness:
  "heap_reach heap1 {(0x80000C, 100)} \<and> kmalloc 8 heap1 \<noteq> None \<and> krealloc 0x80000C 200 heap1 \<noteq> None \<and>
   (\<exists>u. heap_used heap1 = Some u \<and> unat u = 100)"
proof -
  have "h_size (hdrs heap1 0x800000) = 100" by code_simp
  then have r: "heap_reach heap1 {(0x80000C, 100)}"
    using heap_reach.malloc [OF heap_reach.init _ heap1_eq] by simp
  note t = heap_client_safety [OF r]
  have "kmalloc 8 heap1 \<noteq> None" using t by simp
  moreover have "krealloc 0x80000C 200 heap1 \<noteq> None" using t by simp
  ultimately show ?thesis using t r by auto
qed

text \<open>
  C23. \<open>kmalloc\<close> on a well-formed heap. It always returns. It returns null exactly when
  no free block has room for the request rounded up to four bytes, and then changes
  nothing; otherwise the region it returns is new, aligned, has the rounded size plus less
  than 28 bytes of slack, overlaps no region in use, and every other region stays in use,
  the payload memory untouched.
\<close>
theorem kmalloc_first_fit:
  assumes "heap_blocks h bs" and "0 < sz" and "sz \<le> KMALLOC_LIMIT"
  shows "\<exists>p h'. kmalloc sz h = Some (p, h') \<and> heap_data h' = heap_data h \<and>
    (p = 0 \<longleftrightarrow> (\<forall>(s, f) \<in> set bs. f \<longrightarrow> s < round4 (unat sz))) \<and>
    (if p = 0 then h' = h
     else \<exists>cs k. heap_blocks h' cs \<and> live cs = insert (unat p, k) (live bs) \<and> 4 dvd unat p \<and>
       unat sz \<le> k \<and> k < unat sz + 31 \<and>
       (\<forall>(q, j) \<in> live bs. unat p + k + 12 \<le> q \<or> q + j + 12 \<le> unat p))"
proof (cases "take_first (unat HEAP_START) (round4 (unat sz)) bs")
  case None
  moreover have "\<forall>(s, f) \<in> set bs. f \<longrightarrow> s < round4 (unat sz)" using None by (simp only: take_first_None)
  ultimately show ?thesis using kmalloc_blocks [OF assms] by simp
next
  case (Some r)
  have some: "\<not> (\<forall>(s, f) \<in> set bs. f \<longrightarrow> s < round4 (unat sz))"
    using Some take_first_None [of "unat HEAP_START" "round4 (unat sz)" bs] by (metis option.distinct(1))
  from Some kmalloc_blocks [OF assms] obtain p h' where m: "kmalloc sz h = Some (p, h')" "p \<noteq> 0"
    by (cases r) auto
  from kmalloc_region [OF assms m] obtain cs k where k: "heap_blocks h' cs"
    "live cs = insert (unat p, k) (live bs)" "(unat p, k) \<notin> live bs" "round4 (unat sz) \<le> k" "k < round4 (unat sz) + 28"
    "4 dvd unat p" "heap_data h' = heap_data h" by metis
  have "round4 (unat sz) < unat sz + 4" by (simp add: round4_def)
  moreover have "\<forall>(q, j) \<in> live bs. unat p + k + 12 \<le> q \<or> q + j + 12 \<le> unat p"
  proof (intro ballI, clarify)
    fix q j
    assume q: "(q, j) \<in> live bs" "\<not> q + j + 12 \<le> unat p"
    then have "(unat p, k) \<noteq> (q, j)" using k(3) by auto
    with q k(2) live_from_disjoint [of "unat p" k "unat HEAP_START" cs q j]
    show "unat p + k + 12 \<le> q" by (auto simp: live_def)
  qed
  ultimately show ?thesis using m k some round4_bounds(1) [of "unat sz"]
    by (intro exI [of _ p] exI [of _ h']) (auto intro!: exI [of _ cs] exI [of _ k])
qed

theorem kmalloc_first_fit_witness:
  "\<exists>p h'. kmalloc 50 heap1 = Some (p, h') \<and> p \<noteq> 0"
  using kmalloc_first_fit [OF heap1_blocks, of 50] by (auto simp: round4_def)

text \<open>
  \<open>kfree\<close> returns exactly one region. Releasing a region in use returns, removes that
  region and no other from those in use, and keeps the heap well formed and the payload
  memory untouched; null and pointers outside the heap are ignored. Releasing a region just
  allocated restores the set of regions in use.
\<close>
theorem kfree_releases_one:
  assumes "heap_blocks h bs" and "(unat p, k) \<in> live bs" and "0 < k"
    and "q < HEAP_START + BLOCK_HDR_SIZE \<or> HEAP_MAX \<le> q"
    and "0 < n" and "n \<le> KMALLOC_LIMIT" and "kmalloc n h = Some (r, h'')" and "r \<noteq> 0"
  shows "(\<exists>h' cs. kfree p h = Some h' \<and> heap_blocks h' cs \<and> live cs = live bs - {(unat p, k)} \<and>
      heap_data h' = heap_data h \<and>
      (\<Sum>(p, k) \<in> live cs. k) + k = (\<Sum>(p, k) \<in> live bs. k)) \<and>
    kfree q h = Some h \<and>
    (\<exists>h' cs. kfree r h'' = Some h' \<and> heap_blocks h' cs \<and> live cs = live bs)"
proof (intro conjI)
  have p: "p < HEAP_MAX" using live_bounds [OF assms(1,2)] assms(3) by (simp add: word_less_nat_alt)
  let ?cs = "release (unat HEAP_START) (unat p) bs"
  have live: "live ?cs = live bs - {(unat p, k)}"
    using release_live [of "unat p" k "unat HEAP_START" bs] assms(2) by (simp add: live_def)
  have "finite (live_from a bs)" for a by (induction bs arbitrary: a) auto
  then have "finite (live bs)" by (simp add: live_def)
  with live assms(2) have "(\<Sum>(p, k) \<in> live ?cs. k) + k = (\<Sum>(p, k) \<in> live bs. k)"
    by (simp add: sum.remove [of "live bs" "(unat p, k)"])
  with kfree_blocks [OF assms(1,2) p] live
  show "\<exists>h' cs. kfree p h = Some h' \<and> heap_blocks h' cs \<and> live cs = live bs - {(unat p, k)} \<and>
      heap_data h' = heap_data h \<and> (\<Sum>(p, k) \<in> live cs. k) + k = (\<Sum>(p, k) \<in> live bs. k)" by blast
  show "kfree q h = Some h" using assms(4) by (auto simp: kfree_def)
  have "heap_rep h (live bs)" using assms(1) by (auto simp: heap_rep_def)
  from kheap.alloc_free_cancel [OF this assms(5-8)]
  show "\<exists>h' cs. kfree r h'' = Some h' \<and> heap_blocks h' cs \<and> live cs = live bs"
    by (auto simp: heap_rep_def)
qed

theorem kfree_releases_one_witness:
  "(\<exists>h' cs. kfree 0x80000C heap1 = Some h' \<and> heap_blocks h' cs \<and> live cs = {}) \<and> kfree 0 heap1 = Some heap1"
proof -
  have "map_option fst (kmalloc 50 heap1) = Some 0x80007C" by code_simp
  then have "kmalloc 50 heap1 = Some (0x80007C, heap2)" by (auto simp: heap2_def)
  then show ?thesis
    using kfree_releases_one [OF heap1_blocks, of "0x80000C" 100 0 50 "0x80007C" heap2]
    by (auto simp: live_def)
qed


text \<open>
  C24. \<open>krealloc\<close> keeps the contents. Resizing a region returns null, with the heap
  unchanged, exactly when the region is too small and no free block has room for the request rounded
  up to four bytes. Otherwise it returns a region of at least the requested size whose first bytes are those of the
  old region; the old region is no longer in use (unless it was large enough and is
  returned as it is), every other region stays in use and keeps its bytes.
\<close>
theorem krealloc_keeps_contents:
  assumes "heap_blocks h bs" and "(unat p, k) \<in> live bs" and "0 < k"
    and "0 < sz" and "sz \<le> KMALLOC_LIMIT"
  shows "\<exists>q h'. krealloc p sz h = Some (q, h') \<and>
    (q = 0 \<longleftrightarrow> k < unat sz \<and> (\<forall>(s, f) \<in> set bs. f \<longrightarrow> s < round4 (unat sz))) \<and>
    (if q = 0 then h' = h
     else \<exists>cs j. heap_blocks h' cs \<and> live cs = insert (unat q, j) (live bs - {(unat p, k)}) \<and> unat sz \<le> j \<and>
       (\<forall>i < min k (unat sz). heap_data h' (q + of_nat i) = heap_data h (p + of_nat i)) \<and>
       (\<forall>(r, l) \<in> live bs. \<forall>x. (r, l) \<noteq> (unat p, k) \<and> r \<le> unat x \<and> unat x < r + l \<longrightarrow>
          heap_data h' x = heap_data h x))"
proof -
  obtain q h' where r: "krealloc p sz h = Some (q, h')" "q = 0 \<longleftrightarrow> k < unat sz \<and> (\<forall>(s, f) \<in> set bs. f \<longrightarrow> s < round4 (unat sz))"
    "if q = 0 then h' = h else resized h bs p k sz q h'" using krealloc_step [OF assms] by blast
  show ?thesis
  proof (cases "q = 0")
    case True
    then show ?thesis using r by auto
  next
    case False
    then have "resized h bs p k sz q h'" using r(3) by simp
    then show ?thesis using r(1,2) False unfolding resized_def by (intro exI [of _ q] exI [of _ h'] conjI) (blast, blast, simp, blast)
  qed
qed

theorem krealloc_keeps_contents_witness:
  "\<exists>q h'. krealloc 0x80000C 200 heap1 = Some (q, h') \<and> q \<noteq> 0 \<and>
    (\<exists>cs j. heap_blocks h' cs \<and> live cs = {(unat q, j)} \<and> 200 \<le> j) \<and> heap_data h' (q + 99) = heap_data heap1 (0x80000C + 99)"
proof -
  obtain q h' where t: "krealloc 0x80000C 200 heap1 = Some (q, h')" "q \<noteq> 0"
    "\<exists>cs j. heap_blocks h' cs \<and> live cs = insert (unat q, j) (live [(100, False), (0x27FFF84, True)] - {(0x80000C, 100)}) \<and> 200 \<le> j \<and>
       (\<forall>i < 100. heap_data h' (q + of_nat i) = heap_data heap1 (0x80000C + of_nat i))"
    using krealloc_keeps_contents [OF heap1_blocks, of "0x80000C" 100 200] by (auto simp: live_def round4_def split: if_splits)
  obtain cs j where "\<forall>i < 100. heap_data h' (q + of_nat i) = heap_data heap1 (0x80000C + of_nat i)" using t(3) by blast
  then have "heap_data h' (q + of_nat 99) = heap_data heap1 (0x80000C + of_nat 99)" by (rule allE [of _ 99]) simp
  then show ?thesis using t by (auto simp: live_def)
qed

text \<open>
  The rounding in \<open>kmalloc\<close> wraps. A request of \<open>0xFFFFFFFD\<close> bytes or more is rounded
  to zero and succeeds: on a freshly initialised heap it returns a non-null pointer to a
  region of size zero.
\<close>
theorem kmalloc_rounding_wraps:
  "\<exists>h' cs. kmalloc 0xFFFFFFFF (heap_init h) = Some (0x80000C, h') \<and> heap_blocks h' cs \<and> live cs = {(0x80000C, 0)}"
proof -
  let ?h = "heap_init h"
  have f: "find_fit ?h 0 HEAP_START = Some HEAP_START"
    by (subst find_fit.simps) (simp add: heap_init_def)
  have r: "(0xFFFFFFFF + 3 :: u32) AND NOT 3 = 0" by code_simp
  have hd: "heap_head ?h = HEAP_START" by (simp add: heap_init_def)
  have "kmalloc 0xFFFFFFFF ?h = Some (0x80000C, take_block HEAP_START 0 ?h)"
    unfolding kmalloc_def Let_def r hd f by simp
  moreover have "take_first 0x800000 0 [(0x27FFFF4, True)] = Some (0x80000C, [(0, False), (0x27FFFE8, True)])" by simp
  from take_block_layout [OF _ this, of ?h] have "heap_blocks (take_block HEAP_START 0 ?h) [(0, False), (0x27FFFE8, True)]"
    using heap_init_blocks [of h] by (simp add: heap_blocks_def take_block_frame)
  ultimately show ?thesis by (auto simp: live_def intro!: exI [of _ "[(0, False), (0x27FFFE8, True)]"])
qed

end
