(* ===== verification/Libc_Facts.thy ===== *)
theory Libc_Facts
  imports Libc_String "HOL-Library.Sublist"
begin

text \<open>
  What the string routines compute, stated over the list of bytes a terminated string
  spells: length, comparison, search, copy. Every lemma also shows that the loop returns.
\<close>

primrec cstr :: "bytes \<Rightarrow> u32 \<Rightarrow> u8 list \<Rightarrow> bool" where
  "cstr m p [] \<longleftrightarrow> m p = 0"
| "cstr m p (c # cs) \<longleftrightarrow> m p = c \<and> c \<noteq> 0 \<and> cstr m (p + 1) cs"

lemma cstr_append: "cstr m p (xs @ ys) \<longleftrightarrow> cstr m (p + of_nat (length xs)) ys \<and>
    (\<forall>i < length xs. m (p + of_nat i) = xs ! i \<and> xs ! i \<noteq> 0)"
proof (induction xs arbitrary: p)
  case (Cons c xs)
  have "(\<forall>i < length (c # xs). m (p + of_nat i) = (c # xs) ! i \<and> (c # xs) ! i \<noteq> 0) \<longleftrightarrow>
      m p = c \<and> c \<noteq> 0 \<and> (\<forall>i < length xs. m (p + 1 + of_nat i) = xs ! i \<and> xs ! i \<noteq> 0)"
    by (auto simp: less_Suc_eq_0_disj add.assoc)
  with Cons show ?case by (auto simp: add.assoc)
qed simp

lemma cstr_iff: "cstr m p xs \<longleftrightarrow> m (p + of_nat (length xs)) = 0 \<and>
    (\<forall>i < length xs. m (p + of_nat i) = xs ! i \<and> xs ! i \<noteq> 0)"
  using cstr_append [of m p xs "[]"] by simp

lemma cstr_length: "cstr m p xs \<Longrightarrow> length xs < 2 ^ 32"
proof (rule ccontr)
  assume c: "cstr m p xs" and "\<not> length xs < 2 ^ 32"
  then have "length xs mod 2 ^ 32 < length xs" by (simp add: mod_less_divisor order_less_le_trans)
  moreover have "(of_nat (length xs mod 2 ^ 32) :: u32) = of_nat (length xs)"
    by (simp add: word_of_nat_eq_iff take_bit_eq_mod)
  ultimately show False using c unfolding cstr_iff by metis
qed

lemma cstr_unique: "cstr m p xs \<Longrightarrow> cstr m p ys \<Longrightarrow> xs = ys"
proof (induction xs arbitrary: p ys)
  case Nil then show ?case by (cases ys) auto
next
  case (Cons c xs) then show ?case by (cases ys) auto
qed

lemma strlen_cstr: "cstr m p xs \<Longrightarrow> strlen p m = Some (of_nat (length xs))"
proof -
  have "cstr m (p + len) xs \<Longrightarrow> strlen_from p len m = Some (len + of_nat (length xs))" for len
  proof (induction xs arbitrary: len)
    case (Cons c xs)
    then show ?case by (subst strlen_from.simps) (simp add: add.assoc)
  qed (simp add: strlen_from.simps)
  then show "cstr m p xs \<Longrightarrow> strlen p m = Some (of_nat (length xs))"
    by (simp add: strlen_def)
qed

text \<open>The sign of a comparison, the specification of \<open>strcmp\<close> and \<open>strncmp\<close>.\<close>

definition lex_sign :: "int \<Rightarrow> u8 list \<Rightarrow> u8 list \<Rightarrow> bool" where
  "lex_sign r xs ys \<longleftrightarrow>
     (r = 0 \<longleftrightarrow> xs = ys) \<and> (r < 0 \<longleftrightarrow> (xs, ys) \<in> lexord {(a, b). a < b})"

lemma lex_sign_Cons [simp]: "lex_sign r (c # xs) (c # ys) \<longleftrightarrow> lex_sign r xs ys"
  by (simp add: lex_sign_def)

lemma lex_sign_diff:
  "x \<noteq> y \<Longrightarrow> lex_sign (uint x - uint (y :: u8)) (x # xs) (y # ys)"
  by (auto simp: lex_sign_def word_less_def word_uint_eq_iff)

lemma lex_sign_ends:
  "y \<noteq> 0 \<Longrightarrow> lex_sign (- uint (y :: u8)) [] (y # ys)" "x \<noteq> 0 \<Longrightarrow> lex_sign (uint (x :: u8)) (x # xs) []"
  "lex_sign 0 [] []"
  by (auto simp: lex_sign_def uint_0_iff zero_less_iff_neq_zero less_le)

lemma strcmp_cstr:
  "cstr m a xs \<Longrightarrow> cstr m b ys \<Longrightarrow> \<exists>r. strcmp a b m = Some r \<and> lex_sign r xs ys"
proof (induction xs arbitrary: a b ys)
  case Nil
  then show ?case by (cases ys) (auto simp: strcmp.simps [of a b] lex_sign_ends)
next
  case (Cons x xs)
  show ?case
  proof (cases ys)
    case Nil
    with Cons.prems show ?thesis by (auto simp: strcmp.simps [of a b] lex_sign_ends)
  next
    case (Cons y ys')
    with Cons.prems Cons.IH [of "a + 1" "b + 1" ys'] show ?thesis
      by (cases "x = y") (auto simp: strcmp.simps [of a b] lex_sign_diff)
  qed
qed

lemma strncmp_loop_cstr:
  "n \<noteq> 0 \<Longrightarrow> cstr m a xs \<Longrightarrow> cstr m b ys \<Longrightarrow>
    lex_sign (strncmp_loop a b n m) (take (unat n) xs) (take (unat n) ys)"
proof (induction xs arbitrary: a b n ys)
  case Nil
  then show ?case by (cases ys) (auto simp: strncmp_loop.simps [of a b] lex_sign_ends take_Cons' unat_eq_0)
next
  case (Cons x xs)
  have t: "take (unat n) (z # zs) = z # take (unat (n - 1)) zs" for z :: u8 and zs
    using Cons.prems(1) by (simp add: take_Cons' unat_dec_nonzero unat_gt_0)
  show ?case
  proof (cases ys)
    case Nil
    with Cons.prems show ?thesis by (auto simp: strncmp_loop.simps [of a b] lex_sign_ends t)
  next
    case (Cons y ys')
    have "n - 1 = 0 \<Longrightarrow> lex_sign 0 (take (unat (n - 1)) xs) (take (unat (n - 1)) ys')"
      by (simp add: lex_sign_ends)
    then show ?thesis using Cons Cons.prems Cons.IH [of "n - 1" "a + 1" "b + 1" ys']
      by (cases "x = y") (auto simp: strncmp_loop.simps [of a b] lex_sign_diff t)
  qed
qed

lemma strncmp_cstr:
  "cstr m a xs \<Longrightarrow> cstr m b ys \<Longrightarrow> lex_sign (strncmp a b n m) (take (unat n) xs) (take (unat n) ys)"
  by (cases "n = 0") (simp_all add: strncmp_def lex_sign_ends strncmp_loop_cstr)

lemma strncmp_prefix:
  assumes "cstr m a xs" and "cstr m b ys" and "unat n = length ys"
  shows "strncmp a b n m = 0 \<longleftrightarrow> prefix ys xs"
proof -
  have "strncmp a b n m = 0 \<longleftrightarrow> take (length ys) xs = ys"
    using strncmp_cstr [OF assms(1,2), of n] assms(3) by (simp add: lex_sign_def)
  then show ?thesis by (metis append_eq_conv_conj prefix_def take_is_prefix)
qed


section \<open>Searching\<close>

lemma cstr_drop: "cstr m p xs \<Longrightarrow> k \<le> length xs \<Longrightarrow> cstr m (p + of_nat k) (drop k xs)"
  using cstr_append [of m p "take k xs" "drop k xs"] by (simp add: min_absorb2)

lemma length_takeWhile_lt: "x \<in> set xs \<Longrightarrow> \<not> P x \<Longrightarrow> length (takeWhile P xs) < length xs"
  by (induction xs) auto

text \<open>Index of the first and of the last occurrence of a byte in a string.\<close>

lemma strchr_loop_cstr:
  "cstr m p xs \<Longrightarrow> strchr_loop p c m =
    Some (let k = length (takeWhile (\<lambda>x. x \<noteq> c) xs) in (p + of_nat k, k < length xs))"
proof (induction xs arbitrary: p)
  case (Cons x xs)
  then show ?case by (subst strchr_loop.simps) (auto simp: Let_def add.assoc)
qed (simp add: strchr_loop.simps)

lemma strrchr_loop_cstr:
  assumes "cstr m p xs"
  shows "strrchr_loop p c l m = Some
    (if c \<in> set (xs @ [0]) then p + of_nat (length xs - length (takeWhile (\<lambda>x. x \<noteq> c) (rev (xs @ [0])))) else l)"
  using assms
proof (induction xs arbitrary: p l)
  case Nil
  then show ?case by (simp add: strrchr_loop.simps)
next
  case (Cons x xs)
  show ?case
  proof (cases "c \<in> set (xs @ [0])")
    case True
    then have t: "takeWhile (\<lambda>x. x \<noteq> c) (rev (xs @ [0]) @ [x]) = takeWhile (\<lambda>x. x \<noteq> c) (rev (xs @ [0]))"
      by (intro takeWhile_append1 [of c]) auto
    moreover have "length (takeWhile (\<lambda>x. x \<noteq> c) (rev (xs @ [0]))) < length (rev (xs @ [0]))"
      using True by (intro length_takeWhile_lt [of c]) auto
    ultimately show ?thesis using True Cons.prems Cons.IH [of "p + 1"]
      by (subst strrchr_loop.simps) (simp add: Let_def add.assoc Suc_diff_le)
  next
    case False
    then have "takeWhile (\<lambda>x. x \<noteq> c) (rev (xs @ [0])) = rev (xs @ [0])"
      by (auto simp: takeWhile_eq_all_conv)
    moreover from this have "takeWhile (\<lambda>x. x \<noteq> c) (rev (xs @ [0]) @ [c]) = rev (xs @ [0])"
      using False by (subst takeWhile_append2) auto
    ultimately show ?thesis using False Cons.prems Cons.IH [of "p + 1"]
      by (subst strrchr_loop.simps) (auto simp: Let_def add.assoc)
  qed
qed

lemma strstr_loop_cstr:
  assumes "cstr m h xs" and "cstr m n ys" and "ys \<noteq> []"
  shows "\<exists>r. strstr_loop h n (of_nat (length ys)) m = Some r \<and>
    (if sublist ys xs
     then \<exists>k. r = h + of_nat k \<and> prefix ys (drop k xs) \<and> (\<forall>j < k. \<not> prefix ys (drop j xs)) \<and> k < length xs
     else r = 0)"
  using assms(1)
proof (induction xs arbitrary: h)
  case Nil
  then show ?case using assms(3) by (simp add: strstr_loop.simps)
next
  case (Cons x xs)
  have len: "unat (of_nat (length ys) :: u32) = length ys"
    using cstr_length [OF assms(2)] by (simp add: unsigned_of_nat take_bit_nat_eq_self)
  show ?case
  proof (cases "prefix ys (x # xs)")
    case True
    then have "sublist ys (x # xs)" by (rule prefix_imp_sublist)
    then show ?thesis using True strncmp_prefix [OF Cons.prems assms(2) len] Cons.prems
      by (subst strstr_loop.simps) (auto intro: exI [of _ 0])
  next
    case False
    then have s: "sublist ys (x # xs) \<longleftrightarrow> sublist ys xs" by (simp add: sublist_Cons_right)
    obtain r where r: "strstr_loop (h + 1) n (of_nat (length ys)) m = Some r"
      and spec: "if sublist ys xs
        then \<exists>k. r = h + 1 + of_nat k \<and> prefix ys (drop k xs) \<and> (\<forall>j < k. \<not> prefix ys (drop j xs)) \<and> k < length xs
        else r = 0"
      using Cons.IH [of "h + 1"] Cons.prems by auto
    have "strstr_loop h n (of_nat (length ys)) m = Some r"
      using False strncmp_prefix [OF Cons.prems assms(2) len] Cons.prems r
      by (subst strstr_loop.simps) auto
    moreover have "\<exists>k'. r = h + of_nat k' \<and> prefix ys (drop k' (x # xs)) \<and>
        (\<forall>j < k'. \<not> prefix ys (drop j (x # xs))) \<and> k' < length (x # xs)" if sl: "sublist ys xs"
    proof -
      from spec sl obtain k where "r = h + 1 + of_nat k" "prefix ys (drop k xs)"
        "\<forall>j < k. \<not> prefix ys (drop j xs)" "k < length xs" by auto
      then show ?thesis using False
        by (intro exI [of _ "Suc k"]) (auto simp: less_Suc_eq_0_disj)
    qed
    ultimately show ?thesis using s spec by auto
  qed
qed

section \<open>Copying strings\<close>

lemma unat_sub_one: "x \<noteq> d \<Longrightarrow> unat (x - (d + 1) :: u32) = unat (x - d) - 1"
  using unat_dec_nonzero [of "x - d"] by (simp add: algebra_simps)

lemma unat_sub_of_nat:
  "k < 2 ^ 32 \<Longrightarrow> unat (w - of_nat k :: u32) = (if k \<le> unat w then unat w - k else unat w + 2 ^ 32 - k)"
  by (simp add: unat_sub_if' unsigned_of_nat take_bit_nat_eq_self)

lemma cstr_upd: "cstr m p xs \<Longrightarrow> (\<And>k. k \<le> length xs \<Longrightarrow> p + of_nat k \<noteq> d) \<Longrightarrow> cstr (m(d := v)) p xs"
  by (simp add: cstr_iff)

lemma strcpy_cstr:
  assumes "cstr m s xs"
    and "\<And>j k. j \<le> length xs \<Longrightarrow> k \<le> length xs \<Longrightarrow> s + of_nat k \<noteq> d + of_nat j"
  shows "strcpy d s m = Some (\<lambda>x. if unat (x - d) \<le> length xs then m (s + (x - d)) else m x)"
  using assms
proof (induction xs arbitrary: m d s)
  case Nil
  then show ?case by (subst strcpy.simps) (auto simp: Let_def fun_eq_iff unat_eq_0)
next
  case (Cons c xs)
  let ?m = "m(d := m s)"
  have c: "cstr ?m (s + 1) xs"
  proof (rule cstr_upd)
    show "cstr m (s + 1) xs" using Cons.prems(1) by simp
    show "s + 1 + of_nat k \<noteq> d" if "k \<le> length xs" for k
      using Cons.prems(2) [of 0 "Suc k"] that by (simp add: add.assoc)
  qed
  have IH: "strcpy (d + 1) (s + 1) ?m =
      Some (\<lambda>x. if unat (x - (d + 1)) \<le> length xs then ?m (s + 1 + (x - (d + 1))) else ?m x)"
  proof (rule Cons.IH [OF c])
    show "s + 1 + of_nat k \<noteq> d + 1 + of_nat j" if "j \<le> length xs" "k \<le> length xs" for j k
      using Cons.prems(2) [of "Suc j" "Suc k"] that by (simp add: algebra_simps)
  qed
  have "(\<lambda>x. if unat (x - (d + 1)) \<le> length xs then ?m (s + 1 + (x - (d + 1))) else ?m x) =
      (\<lambda>x. if unat (x - d) \<le> length (c # xs) then m (s + (x - d)) else m x)"
  proof
    fix x
    have off: "s + 1 + (x - (d + 1)) = s + (x - d)" by simp
    show "(if unat (x - (d + 1)) \<le> length xs then ?m (s + 1 + (x - (d + 1))) else ?m x) =
        (if unat (x - d) \<le> length (c # xs) then m (s + (x - d)) else m x)"
    proof (cases "x = d")
      case True
      have "\<not> unat (x - (d + 1)) \<le> length xs"
        using True cstr_length [OF Cons.prems(1)] by (simp add: unsigned_minus_1_eq_mask mask_eq_exp_minus_1)
      with True show ?thesis by simp
    next
      case False
      then have "0 < unat (x - d)" by (simp add: unat_gt_0)
      moreover have "s + (x - d) \<noteq> d" if "unat (x - d) \<le> length (c # xs)"
        using Cons.prems(2) [of 0 "unat (x - d)"] that by simp
      ultimately show ?thesis using False unfolding off unat_sub_one [OF False] by auto
    qed
  qed
  with IH show ?case using Cons.prems(1) by (subst strcpy.simps) (simp add: Let_def)
qed

lemma str_end_cstr: "cstr m p xs \<Longrightarrow> str_end p m = Some (p + of_nat (length xs))"
proof (induction xs arbitrary: p)
  case (Cons c xs)
  then show ?case by (subst str_end.simps) (simp add: add.assoc)
qed (simp add: str_end.simps)

lemma strncpy_copy_cstr:
  assumes "cstr m (s + i) xs" and "i \<le> n"
    and "\<And>j k. j < n \<Longrightarrow> k \<le> length xs \<Longrightarrow> s + i + of_nat k \<noteq> d + j"
    and "length xs + unat i < 2 ^ 32"
  shows "strncpy_copy d s i n m =
    (if unat n - unat i \<le> length xs then n else i + of_nat (length xs),
     \<lambda>x. if i \<le> x - d \<and> x - d < n \<and> unat (x - d) < unat i + length xs then xs ! (unat (x - d) - unat i) else m x)"
  using assms
proof (induction xs arbitrary: i m)
  case Nil
  then show ?case by (subst strncpy_copy.simps) (auto simp: fun_eq_iff word_le_nat_alt word_less_nat_alt)
next
  case (Cons c xs)
  show ?case
  proof (cases "i < n")
    case False
    with Cons.prems(2) have "i = n" by simp
    with False show ?thesis by (subst strncpy_copy.simps) (auto simp: fun_eq_iff)
  next
    case True
    note ui = unat_inc_below [OF True]
    let ?m = "m(d + i := m (s + i))"
    have IH: "strncpy_copy d s (i + 1) n ?m =
      (if unat n - unat (i + 1) \<le> length xs then n else i + 1 + of_nat (length xs),
       \<lambda>x. if i + 1 \<le> x - d \<and> x - d < n \<and> unat (x - d) < unat (i + 1) + length xs
            then xs ! (unat (x - d) - unat (i + 1)) else ?m x)"
    proof (rule Cons.IH)
      show "cstr ?m (s + (i + 1)) xs"
      proof (rule cstr_upd)
        show "cstr m (s + (i + 1)) xs" using Cons.prems(1) by (simp add: add.assoc)
        show "s + (i + 1) + of_nat k \<noteq> d + i" if "k \<le> length xs" for k
          using Cons.prems(3) [OF True, of "Suc k"] that by (simp add: algebra_simps)
      qed
      show "i + 1 \<le> n" using True ui by (simp add: word_le_nat_alt word_less_nat_alt)
      show "s + (i + 1) + of_nat k \<noteq> d + j" if "j < n" "k \<le> length xs" for j k
        using Cons.prems(3) [OF that(1), of "Suc k"] that(2) by (simp add: algebra_simps)
      show "length xs + unat (i + 1) < 2 ^ 32" using Cons.prems(4) ui by simp
    qed
    have mi: "m (s + i) = c" "c \<noteq> 0" using Cons.prems(1) by auto
    have x: "x = d + i \<longleftrightarrow> unat (x - d) = unat i" for x
      by (metis add_diff_cancel_left' diff_add_cancel add.commute unat_eq_iff)
    have f: "(if i + 1 \<le> x - d \<and> x - d < n \<and> unat (x - d) < unat (i + 1) + length xs
        then xs ! (unat (x - d) - unat (i + 1)) else ?m x) =
      (if i \<le> x - d \<and> x - d < n \<and> unat (x - d) < unat i + length (c # xs)
        then (c # xs) ! (unat (x - d) - unat i) else m x)" for x
    proof (cases "x = d + i")
      case True
      then show ?thesis using \<open>i < n\<close> mi ui by (simp add: word_le_nat_alt)
    next
      case False
      then have "unat (x - d) \<noteq> unat i" using x by blast
      with False show ?thesis using ui by (simp add: word_le_nat_alt nth_Cons' Suc_le_eq)
    qed
    have "strncpy_copy d s i n m = strncpy_copy d s (i + 1) n ?m"
      using True mi by (subst strncpy_copy.simps) simp
    also note IH
    finally show ?thesis using True by (simp only: f) (auto simp: ui word_less_nat_alt)
  qed
qed

lemma strncpy_cstr:
  assumes "cstr m s xs"
    and "\<And>j k. j < n \<Longrightarrow> k \<le> length xs \<Longrightarrow> s + of_nat k \<noteq> d + j"
  shows "strncpy d s n m x =
    (if x - d < n then if unat (x - d) < length xs then xs ! unat (x - d) else 0 else m x)"
proof -
  have len: "length xs < 2 ^ 32" by (rule cstr_length [OF assms(1)])
  then have ul: "unat (of_nat (length xs) :: u32) = length xs"
    by (simp add: unsigned_of_nat take_bit_nat_eq_self)
  have z: "for_up (\<lambda>i m. m(d + i := 0)) i n m x = (if i \<le> x - d \<and> x - d < n then 0 else m x)"
    for i and m :: bytes by (rule for_up_fill)
  have "strncpy_copy d s 0 n m =
    (if unat n \<le> length xs then n else of_nat (length xs),
     \<lambda>x. if x - d < n \<and> unat (x - d) < length xs then xs ! unat (x - d) else m x)"
    using strncpy_copy_cstr [of m s 0 xs n d] assms len by (simp cong: if_cong)
  then show ?thesis
    by (simp add: strncpy_def z) (auto simp: word_le_nat_alt word_less_nat_alt ul)
qed

section \<open>Comparing memory\<close>

definition load :: "bytes \<Rightarrow> u32 \<Rightarrow> nat \<Rightarrow> u8 list" where
  "load m p n = map (\<lambda>k. m (p + of_nat k)) [0..<n]"

lemma memcmp_load: "lex_sign (memcmp a b n m) (load m a (unat n)) (load m b (unat n))"
proof -
  have "lex_sign (memcmp_from a b i n m)
      (map (\<lambda>k. m (a + of_nat k)) [unat i ..< unat n]) (map (\<lambda>k. m (b + of_nat k)) [unat i ..< unat n])" for i
  proof (induction a b i n m rule: memcmp_from.induct)
    case (1 a b i n m)
    show ?case
    proof (cases "i < n")
      case True
      have upt: "[unat i ..< unat n] = unat i # [unat (i + 1) ..< unat n]"
        using True by (simp add: unat_inc_below upt_rec word_less_nat_alt)
      have lt: "x < y \<Longrightarrow> lex_sign (- 1) (x # xs) (y # ys)" "x > y \<Longrightarrow> lex_sign 1 (x # xs) (y # ys)"
        for x y :: u8 and xs ys by (auto simp: lex_sign_def)
      show ?thesis
      proof (cases "m (a + i) = m (b + i)")
        case eq: True
        with 1 [OF True] True show ?thesis by (subst memcmp_from.simps) (simp add: upt)
      next
        case False
        with True show ?thesis by (subst memcmp_from.simps) (auto simp: upt lt)
      qed
    next
      case False
      then show ?thesis by (subst memcmp_from.simps) (simp add: lex_sign_ends word_less_nat_alt)
    qed
  qed
  from this [of 0] show ?thesis by (simp add: memcmp_def load_def)
qed

end
