(* ===== verification/Libc_Properties.thy ===== *)
theory Libc_Properties
  imports Libc_Facts
begin

text \<open>Properties of the C library routines, with concrete instances.\<close>

definition mem_of :: "u32 \<Rightarrow> u8 list \<Rightarrow> bytes \<Rightarrow> bytes" where
  "mem_of p xs m = (\<lambda>x. if unat (x - p) < length xs then xs ! unat (x - p) else m x)"

definition two_words :: bytes where
  "two_words = mem_of 0x100 [0x6D, 0x61, 0x6B, 0x61, 0x72, 0] (mem_of 0x200 [0x61, 0x6B, 0] (\<lambda>_. 0))"

lemma two_words_cstr:
  "cstr two_words 0x100 [0x6D, 0x61, 0x6B, 0x61, 0x72]" "cstr two_words 0x200 [0x61, 0x6B]"
  by code_simp+

text \<open>
  C32. Block copies are exact. \<open>memmove\<close> gives every byte of the destination the value the
  corresponding source byte had before the call and changes nothing else, whether or not
  the two regions overlap, as long as neither wraps around the address space; \<open>memcpy\<close>
  computes the same memory when the regions are disjoint; \<open>memset\<close> fills exactly its region.
\<close>
theorem block_copies_exact:
  assumes "unat dst + unat n \<le> 2 ^ 32" and "unat src + unat n \<le> 2 ^ 32"
  shows "memmove dst src n m = (\<lambda>x. if x - dst < n then m (src + (x - dst)) else m x) \<and>
    ((\<forall>j < n. \<forall>k < n. src + k \<noteq> dst + j) \<longrightarrow> memcpy dst src n m = memmove dst src n m) \<and>
    memset dst v n m = (\<lambda>x. if x - dst < n then v else m x)"
  using memmove_correct [OF assms] memcpy_correct [of n src dst m] memset_correct [of dst v n m]
  by (simp add: fun_eq_iff)

theorem block_copies_exact_witness:
  "memmove 0x1002 0x1000 8 (\<lambda>x. ucast x) =
    (\<lambda>x. if x - 0x1002 < 8 then ucast (0x1000 + (x - 0x1002)) else ucast x)"
  using block_copies_exact [of "0x1002" 8 "0x1000" "\<lambda>x. ucast x" 0] by simp

text \<open>
  C33. Comparisons return, and their sign is the lexicographic order of the unsigned bytes:
  \<open>strcmp\<close> on the whole strings, \<open>strncmp\<close> on their first \<open>n\<close> bytes, \<open>memcmp\<close> on the two
  regions; the result is zero exactly for equal contents.
\<close>
theorem comparisons_lexicographic:
  assumes "cstr m a xs" and "cstr m b ys"
  shows "(\<exists>r. strcmp a b m = Some r \<and> lex_sign r xs ys) \<and>
    lex_sign (strncmp a b n m) (take (unat n) xs) (take (unat n) ys) \<and>
    lex_sign (memcmp a b n m) (load m a (unat n)) (load m b (unat n))"
  using strcmp_cstr [OF assms] strncmp_cstr [OF assms] memcmp_load by blast

theorem comparisons_lexicographic_witness:
  "\<exists>r. strcmp 0x100 0x200 two_words = Some r \<and>
    lex_sign r [0x6D, 0x61, 0x6B, 0x61, 0x72] [0x61, 0x6B]"
  using comparisons_lexicographic [OF two_words_cstr, of 2] by blast

text \<open>
  Searches return the right pointer. On a terminated string, \<open>strlen\<close> is its length;
  \<open>strchr\<close> of a byte value points at its first occurrence (the terminator counts), or is
  null when there is none; \<open>strrchr\<close> points at the last; \<open>strstr\<close> points at the first
  position where the needle occurs, and is null exactly when it is not a substring.
\<close>
theorem searches_correct:
  assumes "cstr m p xs" and "cstr m q ys" and "c < 256"
  shows "strlen p m = Some (of_nat (length xs)) \<and>
    strchr p c m = Some (if ucast c \<in> set (xs @ [0])
       then p + of_nat (length (takeWhile (\<lambda>x. x \<noteq> ucast c) xs)) else 0) \<and>
    strrchr p c m = Some (if ucast c \<in> set (xs @ [0])
       then p + of_nat (length xs - length (takeWhile (\<lambda>x. x \<noteq> ucast c) (rev (xs @ [0])))) else 0) \<and>
    (\<exists>r. strstr p q m = Some r \<and>
       (if sublist ys xs
        then \<exists>k \<le> length xs. r = p + of_nat k \<and> prefix ys (drop k xs) \<and> (\<forall>j < k. \<not> prefix ys (drop j xs))
        else r = 0))"
proof (intro conjI)
  show "strlen p m = Some (of_nat (length xs))" by (rule strlen_cstr [OF assms(1)])
  have uc: "(ucast c :: u8) = 0 \<longleftrightarrow> c = 0"
    using assms(3) by (simp add: word_less_nat_alt unat_eq_iff [symmetric] unsigned_ucast_eq take_bit_nat_eq_self del: unat_eq_iff)
  have "length (takeWhile (\<lambda>x. x \<noteq> ucast c) xs) < length xs \<longleftrightarrow> ucast c \<in> set xs"
    by (metis (mono_tags, lifting) length_takeWhile_lt less_irrefl takeWhile_eq_all_conv)
  then show "strchr p c m = Some (if ucast c \<in> set (xs @ [0])
       then p + of_nat (length (takeWhile (\<lambda>x. x \<noteq> ucast c) xs)) else 0)"
    by (simp add: strchr_def strchr_loop_cstr [OF assms(1)] Let_def uc)
  show "strrchr p c m = Some (if ucast c \<in> set (xs @ [0])
       then p + of_nat (length xs - length (takeWhile (\<lambda>x. x \<noteq> ucast c) (rev (xs @ [0])))) else 0)"
    by (simp only: strrchr_def strrchr_loop_cstr [OF assms(1)])
  show "\<exists>r. strstr p q m = Some r \<and>
       (if sublist ys xs
        then \<exists>k \<le> length xs. r = p + of_nat k \<and> prefix ys (drop k xs) \<and> (\<forall>j < k. \<not> prefix ys (drop j xs))
        else r = 0)"
  proof (cases "ys = []")
    case True
    then have "m q = 0" using assms(2) by simp
    with True show ?thesis by (simp add: strstr_def) (intro exI [of _ 0]; simp)
  next
    case False
    then have "m q \<noteq> 0" using assms(2) by (cases ys) auto
    then have "strstr p q m = strstr_loop p q (of_nat (length ys)) m"
      by (simp add: strstr_def strlen_cstr [OF assms(2)])
    with strstr_loop_cstr [OF assms(1,2) False] show ?thesis
      by (metis less_imp_le)
  qed
qed

theorem searches_correct_witness:
  "strlen 0x100 two_words = Some 5 \<and> strchr 0x100 0x61 two_words = Some 0x101 \<and>
   strrchr 0x100 0x61 two_words = Some 0x103 \<and> (\<exists>r. strstr 0x100 0x200 two_words = Some r)"
  using searches_correct [OF two_words_cstr, of "0x61"] by auto

text \<open>
  String copies are exact. When source and destination do not overlap, \<open>strcpy\<close>
  returns and writes exactly the string and its terminator, \<open>strcat\<close> makes the destination
  spell the concatenation, and \<open>strncpy\<close> writes exactly \<open>n\<close> bytes, the string cut or
  padded with zeros (so it leaves no terminator when the string has \<open>n\<close> bytes or more).
\<close>
theorem string_copies_exact:
  assumes "cstr m src xs" and "cstr m dst ys"
    and "\<And>j k. j \<le> length ys + length xs \<Longrightarrow> k \<le> length xs \<Longrightarrow> src + of_nat k \<noteq> dst + of_nat j"
    and "length ys + length xs < 2 ^ 32" and "unat n \<le> length ys + length xs"
  shows "(\<exists>m'. strcpy dst src m = Some m' \<and> cstr m' dst xs \<and>
            (\<forall>x. length xs < unat (x - dst) \<longrightarrow> m' x = m x)) \<and>
    (\<exists>m'. strcat dst src m = Some m' \<and> cstr m' dst (ys @ xs) \<and>
            (\<forall>x. length ys + length xs < unat (x - dst) \<longrightarrow> m' x = m x)) \<and>
    strncpy dst src n m =
      (\<lambda>x. if x - dst < n then if unat (x - dst) < length xs then xs ! unat (x - dst) else 0 else m x)"
proof (intro conjI)
  have u: "unat (of_nat k :: u32) = k" if "k \<le> length ys + length xs" for k
    using that assms(4) by (simp add: unsigned_of_nat take_bit_nat_eq_self)
  have src: "m (src + of_nat (length xs)) = 0" "\<And>i. i < length xs \<Longrightarrow> m (src + of_nat i) = xs ! i \<and> xs ! i \<noteq> 0"
    using assms(1) by (auto simp: cstr_iff)
  have cp: "cstr (\<lambda>x. if unat (x - d) \<le> length xs then m (src + (x - d)) else m x) d xs" for d
    using src u by (simp add: cstr_iff)
  show "\<exists>m'. strcpy dst src m = Some m' \<and> cstr m' dst xs \<and>
            (\<forall>x. length xs < unat (x - dst) \<longrightarrow> m' x = m x)"
    using strcpy_cstr [OF assms(1), of dst] assms(3) cp [of dst] by (simp add: trans_le_add2)
  let ?e = "dst + of_nat (length ys)"
  let ?m = "\<lambda>x. if unat (x - ?e) \<le> length xs then m (src + (x - ?e)) else m x"
  have "strcpy ?e src m = Some ?m"
  proof (rule strcpy_cstr [OF assms(1)])
    show "src + of_nat k \<noteq> ?e + of_nat j" if "j \<le> length xs" "k \<le> length xs" for j k
      using assms(3) [of "length ys + j" k] that by (simp add: add.assoc)
  qed
  then have "strcat dst src m = Some ?m"
    by (simp add: strcat_def str_end_cstr [OF assms(2)])
  moreover have out: "unat (x - ?e) > length xs" if "unat (x - dst) < length ys \<or> length ys + length xs < unat (x - dst)" for x
  proof -
    have "unat (x - ?e) = unat ((x - dst) - of_nat (length ys))" by (simp add: algebra_simps)
    also have "\<dots> = (if length ys \<le> unat (x - dst) then unat (x - dst) - length ys
        else unat (x - dst) + 2 ^ 32 - length ys)"
      using assms(4) by (intro unat_sub_of_nat) simp
    finally show ?thesis using that assms(4) by (auto split: if_splits)
  qed
  moreover have "cstr ?m dst (ys @ xs)"
  proof -
    have "?m (dst + of_nat i) = ys ! i \<and> ys ! i \<noteq> 0" if "i < length ys" for i
      using out [of "dst + of_nat i"] u [of i] that assms(2) by (auto simp: cstr_iff)
    with cp [of ?e] show ?thesis by (simp add: cstr_append)
  qed
  ultimately show "\<exists>m'. strcat dst src m = Some m' \<and> cstr m' dst (ys @ xs) \<and>
            (\<forall>x. length ys + length xs < unat (x - dst) \<longrightarrow> m' x = m x)"
    by (intro exI [of _ ?m] conjI allI impI) (auto dest: leD)
  have "src + of_nat k \<noteq> dst + j" if "j < n" "k \<le> length xs" for j k
    using assms(3) [of "unat j" k] that assms(5) by (simp add: word_less_nat_alt)
  then show "strncpy dst src n m =
      (\<lambda>x. if x - dst < n then if unat (x - dst) < length xs then xs ! unat (x - dst) else 0 else m x)"
    using strncpy_cstr [OF assms(1), of n dst] by (simp add: fun_eq_iff)
qed

theorem string_copies_exact_witness:
  "\<exists>m'. strcat 0x100 0x200 two_words = Some m' \<and> cstr m' 0x100 [0x6D, 0x61, 0x6B, 0x61, 0x72, 0x61, 0x6B]"
proof -
  have "(0x200 :: u32) + of_nat k \<noteq> 0x100 + of_nat j" if "j \<le> 7" "k \<le> 2" for j k
  proof
    assume "(0x200 :: u32) + of_nat k = 0x100 + of_nat j"
    then have "unat ((0x200 :: u32) + of_nat k) = unat ((0x100 :: u32) + of_nat j)" by simp
    with that show False by (simp add: unat_word_ariths unsigned_of_nat take_bit_nat_eq_self)
  qed
  then show ?thesis
    using string_copies_exact [OF two_words_cstr(2,1), of 4] by auto
qed

end
