(* ===== verification/Vmm.thy ===== *)
theory Vmm
  imports Pmm Libc_String
begin

text \<open>
  Page tables: \<^verbatim>\<open>mm/vmm.c\<close>, the kernel directory of \<^verbatim>\<open>mm/paging.c\<close>, and the two
  page-fault handlers of \<^verbatim>\<open>debug/debug.c\<close> that create mappings. Physical memory is
  seen page by page: \<open>phys_mem s b i\<close> is the \<open>i\<close>-th 32-bit word of the page whose
  physical base address is \<open>b\<close>. The kernel reaches a page through a pointer that is
  either its physical address (identity window) or that address plus \<open>KERNEL_VBASE\<close>
  (the kernel image), so every access translates its pointer with \<open>v2p_pd\<close>, as the two
  windows that \<open>paging_init\<close> builds do. The TLB is not modelled: the flushes of the code
  have no counterpart here.
\<close>

abbreviation "PAGE_PRESENT \<equiv> 0x1 :: u32"
abbreviation "PAGE_WRITABLE \<equiv> 0x2 :: u32"
abbreviation "PAGE_USER \<equiv> 0x4 :: u32"
abbreviation "PAGE_LARGE \<equiv> 0x80 :: u32"
abbreviation "PAGE_PAT \<equiv> 0x80 :: u32"
abbreviation "VMM_PTE_COW \<equiv> 0x200 :: u32"
abbreviation "VMM_FLAG_WRITABLE \<equiv> 0x2 :: u32"
abbreviation "VMM_FLAG_USER \<equiv> 0x4 :: u32"
abbreviation "VMM_KERNEL_IDMAP_END \<equiv> 0x10000000 :: u32"
abbreviation "KERNEL_VBASE \<equiv> 0xC0000000 :: u32"
abbreviation "EXTRA_PAGE_TABLES \<equiv> 128 :: u32"
abbreviation "LARGE_PAGE_SIZE \<equiv> 0x400000 :: u32"
abbreviation "IDENTITY_LARGE_PAGES \<equiv> 64 :: u32"
abbreviation "KERNEL_PD_IDX \<equiv> 768 :: u32"
abbreviation "USER_MMAP_BASE \<equiv> 0x90000000 :: u32"
abbreviation "PF_ERR_PRESENT \<equiv> 0x1 :: u32"
abbreviation "PF_ERR_WRITE \<equiv> 0x2 :: u32"

type_synonym page = "u32 \<Rightarrow> u32"

text \<open>
  \<open>kernel_pd\<close> is the address of the static \<^verbatim>\<open>page_directory\<close>,
  \<open>extra_tables\<close> that of the first of the static \<^verbatim>\<open>extra_page_tables\<close>, of
  which \<open>next_extra_pt\<close> are in use.
\<close>

record vm =
  phys_mem :: "u32 \<Rightarrow> page"
  pool :: pmm
  cr3 :: u32
  kernel_pd :: u32
  extra_tables :: u32
  next_extra_pt :: u32

definition v2p_pd :: "u32 \<Rightarrow> u32" where
  "v2p_pd a = (if KERNEL_VBASE \<le> a then a - KERNEL_VBASE else a)"

definition rd :: "vm \<Rightarrow> u32 \<Rightarrow> u32 \<Rightarrow> u32" where
  "rd s p i = phys_mem s (v2p_pd p) i"

definition wr :: "u32 \<Rightarrow> u32 \<Rightarrow> u32 \<Rightarrow> vm \<Rightarrow> vm" where
  "wr p i v s = s\<lparr>phys_mem := (phys_mem s)(v2p_pd p := (phys_mem s (v2p_pd p))(i := v))\<rparr>"

definition wr_page :: "u32 \<Rightarrow> page \<Rightarrow> vm \<Rightarrow> vm" where
  "wr_page p pg s = s\<lparr>phys_mem := (phys_mem s)(v2p_pd p := pg)\<rparr>"

text \<open>\<open>pmm_alloc_frame\<close> and \<open>pmm_free_frame\<close> as calls that change the pool.\<close>

definition alloc_frame :: "vm \<Rightarrow> u32 \<times> vm" where
  "alloc_frame s = (let (a, p) = pmm_alloc_frame (pool s) in (a, s\<lparr>pool := p\<rparr>))"

definition free_frame :: "u32 \<Rightarrow> vm \<Rightarrow> vm" where
  "free_frame a s = s\<lparr>pool := pmm_free_frame a (pool s)\<rparr>"

definition inc_ref :: "u32 \<Rightarrow> vm \<Rightarrow> vm" where
  "inc_ref a s = s\<lparr>pool := pmm_inc_ref a (pool s)\<rparr>"

definition pd_index :: "u32 \<Rightarrow> u32" where "pd_index virt = drop_bit 22 virt"
definition pt_index :: "u32 \<Rightarrow> u32" where "pt_index virt = drop_bit 12 virt AND 0x3FF"
definition base_of :: "u32 \<Rightarrow> u32" where "base_of e = e AND NOT 0xFFF"

section \<open>Page directories\<close>

definition copy_kernel_pdes :: "u32 \<Rightarrow> vm \<Rightarrow> vm" where
  "copy_kernel_pdes pd s =
     for_up (\<lambda>i s. if rd s (kernel_pd s) i \<noteq> 0 then wr pd i (rd s (kernel_pd s) i) s else s) 0 1024 s"

definition vmm_create_pd :: "vm \<Rightarrow> u32 \<times> vm" where
  "vmm_create_pd s =
     (let (phys, s) = alloc_frame s in
      if phys = PMM_ALLOC_ERROR then (0, s)
      else (phys, copy_kernel_pdes phys (wr_page phys (\<lambda>_. 0) s)))"

definition vmm_map_page :: "u32 \<Rightarrow> u32 \<Rightarrow> u32 \<Rightarrow> u32 \<Rightarrow> vm \<Rightarrow> vm" where
  "vmm_map_page pd virt phys flags s =
     (let pdi = pd_index virt; pti = pt_index virt;
          install = (\<lambda>s. wr (base_of (rd s pd pdi)) pti
                           (base_of phys OR (flags AND 0xFFF) OR PAGE_PRESENT) s)
      in if rd s pd pdi AND PAGE_LARGE \<noteq> 0 then s
         else if rd s pd pdi AND PAGE_PRESENT = 0 then
           let (pt_phys, s) = alloc_frame s in
           if pt_phys = PMM_ALLOC_ERROR then s
           else install (wr pd pdi (pt_phys OR PAGE_PRESENT OR PAGE_WRITABLE OR PAGE_USER)
                           (wr_page pt_phys (\<lambda>_. 0) s))
         else install s)"

definition vmm_protect_page :: "u32 \<Rightarrow> u32 \<Rightarrow> u32 \<Rightarrow> vm \<Rightarrow> vm" where
  "vmm_protect_page pd virt flags s =
     (let pdi = pd_index virt; pti = pt_index virt; pt = base_of (rd s pd pdi) in
      if rd s pd pdi AND PAGE_LARGE \<noteq> 0 then s
      else if rd s pd pdi AND PAGE_PRESENT = 0 then s
      else if rd s pt pti AND PAGE_PRESENT = 0 then s
      else wr pt pti (base_of (rd s pt pti) OR (flags AND 0xFFF) OR PAGE_PRESENT) s)"

definition vmm_unmap_page :: "u32 \<Rightarrow> u32 \<Rightarrow> vm \<Rightarrow> vm" where
  "vmm_unmap_page pd virt s =
     (let pdi = pd_index virt; pti = pt_index virt; pt = base_of (rd s pd pdi) in
      if rd s pd pdi AND PAGE_PRESENT = 0 \<or> rd s pd pdi AND PAGE_LARGE \<noteq> 0 then s
      else if rd s pt pti AND PAGE_PRESENT = 0 then s
      else wr pt pti 0 s)"

definition vmm_unmap_and_free :: "u32 \<Rightarrow> u32 \<Rightarrow> vm \<Rightarrow> vm" where
  "vmm_unmap_and_free pd virt s =
     (let pdi = pd_index virt; pti = pt_index virt; pt = base_of (rd s pd pdi) in
      if rd s pd pdi AND PAGE_PRESENT = 0 \<or> rd s pd pdi AND PAGE_LARGE \<noteq> 0 then s
      else
        let pte = rd s pt pti in
        if pte AND PAGE_PRESENT = 0 then s
        else
          let frame = base_of pte; s = wr pt pti 0 s in
          if frame \<noteq> 0 \<and> frame < VMM_KERNEL_IDMAP_END then free_frame frame s else s)"

definition vmm_switch :: "u32 \<Rightarrow> vm \<Rightarrow> vm" where
  "vmm_switch pd s = s\<lparr>cr3 := v2p_pd pd\<rparr>"

section \<open>Teardown\<close>

text \<open>
  The guards the directory walkers share: a directory entry is followed when it is present,
  not a large page, and not the kernel's own page table (compared by frame), and its table
  lies in the identity window.
\<close>

definition free_table :: "u32 \<Rightarrow> vm \<Rightarrow> vm" where
  "free_table pt_phys s =
     for_up (\<lambda>pti s.
       let pte = rd s pt_phys pti; frame = base_of pte in
       if pte AND PAGE_PRESENT = 0 then s
       else if frame \<noteq> 0 \<and> frame < VMM_KERNEL_IDMAP_END then free_frame frame s else s) 0 1024 s"

definition free_pde :: "u32 \<Rightarrow> u32 \<Rightarrow> vm \<Rightarrow> vm" where
  "free_pde pd pdi s =
     (let pde = rd s pd pdi; pt_phys = base_of pde in
      if pde AND PAGE_PRESENT = 0 \<or> pde AND PAGE_LARGE \<noteq> 0 then s
      else if pt_phys = base_of (rd s (kernel_pd s) pdi) then s
      else if pt_phys = 0 \<or> VMM_KERNEL_IDMAP_END \<le> pt_phys then s
      else free_frame pt_phys (free_table pt_phys s))"

definition vmm_free_pd :: "u32 \<Rightarrow> vm \<Rightarrow> vm" where
  "vmm_free_pd pd s = free_frame pd (for_up (free_pde pd) 0 1024 s)"

section \<open>Copy-on-write clone\<close>

definition clone_pte :: "u32 \<Rightarrow> u32 \<Rightarrow> u32 \<Rightarrow> vm \<Rightarrow> vm" where
  "clone_pte parent_pt child_pt pti s =
     (let pte = rd s parent_pt pti; frame = base_of pte in
      if pte AND PAGE_PRESENT = 0 then s
      else if pte AND PAGE_USER \<noteq> 0 then
        let cow_pte = (pte AND NOT PAGE_WRITABLE) OR VMM_PTE_COW in
        wr child_pt pti cow_pte (wr parent_pt pti cow_pte (inc_ref frame s))
      else wr child_pt pti pte s)"

text \<open>The walk over the directory; the flag is false when a table could not be allocated.\<close>

function clone_pdes :: "u32 \<Rightarrow> u32 \<Rightarrow> u32 \<Rightarrow> vm \<Rightarrow> bool \<times> vm" where
  "clone_pdes parent_pd child pdi s =
     (if pdi < 1024 then
        let ppde = rd s parent_pd pdi; parent_pt = base_of ppde in
        if ppde AND PAGE_PRESENT = 0 \<or> ppde AND PAGE_LARGE \<noteq> 0 \<or>
           parent_pt = base_of (rd s (kernel_pd s) pdi) \<or>
           parent_pt = 0 \<or> VMM_KERNEL_IDMAP_END \<le> parent_pt
        then clone_pdes parent_pd child (pdi + 1) s
        else
          let (child_pt, s) = alloc_frame s in
          if child_pt = PMM_ALLOC_ERROR then (False, vmm_free_pd child s)
          else
            let s = wr_page child_pt (\<lambda>_. 0) s;
                s = for_up (clone_pte parent_pt child_pt) 0 1024 s;
                s = wr child pdi (child_pt OR (ppde AND 0xFFF)) s
            in clone_pdes parent_pd child (pdi + 1) s
      else (True, s))"
  by pat_completeness auto
termination
  by (relation "measure (\<lambda>(parent_pd, child, pdi, s). unat (1024 :: u32) - unat pdi)")
     (auto simp: loop_measure [of _ 1024, simplified])

declare clone_pdes.simps [simp del]

definition vmm_clone_pd_cow :: "u32 \<Rightarrow> vm \<Rightarrow> u32 \<times> vm" where
  "vmm_clone_pd_cow parent_pd s =
     (let (child, s) = alloc_frame s in
      if child = PMM_ALLOC_ERROR then (0, s)
      else
        let s = copy_kernel_pdes child (wr_page child (\<lambda>_. 0) s);
            (ok, s) = clone_pdes parent_pd child 0 s
        in (if ok then child else 0, s))"

definition count_table :: "vm \<Rightarrow> u32 \<Rightarrow> u32 \<Rightarrow> u32" where
  "count_table s pt pages =
     for_up (\<lambda>pti pages. if rd s pt pti AND PAGE_PRESENT \<noteq> 0 \<and> rd s pt pti AND PAGE_USER \<noteq> 0
                         then pages + 1 else pages) 0 1024 pages"

definition vmm_count_user_pages :: "u32 \<Rightarrow> vm \<Rightarrow> u32" where
  "vmm_count_user_pages pd s =
     (if pd = 0 then 0
      else for_up (\<lambda>pdi pages.
        let pde = rd s pd pdi; pt_phys = base_of pde in
        if pde AND PAGE_PRESENT = 0 \<or> pde AND PAGE_LARGE \<noteq> 0 then pages
        else if pt_phys = 0 \<or> VMM_KERNEL_IDMAP_END \<le> pt_phys then pages
        else count_table s pt_phys pages) 0 1024 0)"

section \<open>Page faults\<close>

text \<open>
  The fields of the current task that the demand-paging handler reads; the result is whether
  the fault was resolved.
\<close>

record task_vm =
  page_dir :: u32
  user_brk_base :: u32
  user_brk :: u32
  mmap_next :: u32

definition try_handle_anon_fault :: "task_vm option \<Rightarrow> u32 \<Rightarrow> u32 \<Rightarrow> vm \<Rightarrow> bool \<times> vm" where
  "try_handle_anon_fault cur fault_addr err_code s =
     (if err_code AND PF_ERR_PRESENT \<noteq> 0 then (False, s)
      else case cur of
        None \<Rightarrow> (False, s)
      | Some t \<Rightarrow>
          if user_brk t = 0 then (False, s)
          else
            let in_heap = (user_brk_base t \<noteq> 0 \<and> user_brk_base t \<le> fault_addr \<and> fault_addr < user_brk t);
                in_mmap = (mmap_next t \<noteq> 0 \<and> USER_MMAP_BASE \<le> fault_addr \<and> fault_addr < mmap_next t)
            in if \<not> in_heap \<and> \<not> in_mmap then (False, s)
               else
                 let (phys, s) = alloc_frame s in
                 if phys = PMM_ALLOC_ERROR then (False, s)
                 else (True, vmm_map_page (page_dir t) (base_of fault_addr) phys
                               (VMM_FLAG_USER OR VMM_FLAG_WRITABLE) (wr_page phys (\<lambda>_. 0) s)))"

definition try_handle_cow_fault :: "u32 \<Rightarrow> u32 \<Rightarrow> vm \<Rightarrow> bool \<times> vm" where
  "try_handle_cow_fault fault_addr err_code s =
     (if err_code AND PF_ERR_WRITE = 0 \<or> err_code AND PF_ERR_PRESENT = 0 then (False, s)
      else
        let pd = base_of (cr3 s); pdi = pd_index fault_addr; pde = rd s pd pdi in
        if pde AND PAGE_PRESENT = 0 \<or> pde AND PAGE_LARGE \<noteq> 0 then (False, s)
        else
          let pt = base_of pde; pti = pt_index fault_addr; pte = rd s pt pti in
          if pte AND PAGE_PRESENT = 0 \<or> pte AND VMM_PTE_COW = 0 then (False, s)
          else
            let frame = base_of pte; flags = pte AND 0xFFF in
            if pmm_ref_count frame (pool s) \<le> 1 then
              (True, wr pt pti (frame OR ((flags OR PAGE_WRITABLE) AND NOT VMM_PTE_COW)) s)
            else
              let (new_frame, s) = alloc_frame s in
              if new_frame = PMM_ALLOC_ERROR then (False, s)
              else
                let s = wr_page new_frame (phys_mem s (v2p_pd frame)) s;
                    s = free_frame frame s
                in (True, wr pt pti (new_frame OR ((flags OR PAGE_WRITABLE) AND NOT VMM_PTE_COW)) s))"

section \<open>The kernel directory\<close>

definition paging_init :: "vm \<Rightarrow> vm" where
  "paging_init s =
     (let s = for_up (\<lambda>i s.
            let pde = i * LARGE_PAGE_SIZE OR PAGE_PRESENT OR PAGE_WRITABLE OR PAGE_LARGE in
            wr (kernel_pd s) (KERNEL_PD_IDX + i) pde (wr (kernel_pd s) i pde s))
          0 IDENTITY_LARGE_PAGES s
      in s\<lparr>cr3 := v2p_pd (kernel_pd s)\<rparr>)"

text \<open>
  The loop of \<open>map_region_flags\<close> steps a page at a time until it meets the end address;
  it stops early, flag false, when the static tables run out.
\<close>

partial_function (option) map_region_pages :: "u32 \<Rightarrow> u32 \<Rightarrow> u32 \<Rightarrow> vm \<Rightarrow> (bool \<times> vm) option" where
  "map_region_pages addr end_addr extra_flags s =
     (if addr \<noteq> end_addr then
        let pdi = pd_index addr; pti = pt_index addr;
            install = (\<lambda>s. let pt = base_of (rd s (kernel_pd s) pdi) in
              if rd s pt pti AND PAGE_PRESENT = 0
              then wr pt pti (addr OR PAGE_PRESENT OR PAGE_WRITABLE OR extra_flags) s else s)
        in
        if rd s (kernel_pd s) pdi AND PAGE_LARGE \<noteq> 0
        then map_region_pages (addr + 0x1000) end_addr extra_flags s
        else if rd s (kernel_pd s) pdi AND PAGE_PRESENT = 0 then
          if EXTRA_PAGE_TABLES \<le> next_extra_pt s then Some (False, s)
          else
            let pt = extra_tables s + next_extra_pt s * 0x1000;
                s = wr_page pt (\<lambda>_. 0) (s\<lparr>next_extra_pt := next_extra_pt s + 1\<rparr>);
                s = wr (kernel_pd s) pdi (pt - KERNEL_VBASE OR PAGE_PRESENT OR PAGE_WRITABLE) s
            in map_region_pages (addr + 0x1000) end_addr extra_flags (install s)
        else map_region_pages (addr + 0x1000) end_addr extra_flags (install s)
      else Some (True, s))"

declare map_region_pages.simps [code]

definition map_region_flags :: "u32 \<Rightarrow> u32 \<Rightarrow> u32 \<Rightarrow> vm \<Rightarrow> (bool \<times> vm) option" where
  "map_region_flags phys_start sz extra_flags s =
     (if sz = 0 then Some (True, s)
      else
        let start = base_of phys_start;
            end_addr = (if 0xFFFFFFFF - phys_start < sz then 0xFFFFF000
                        else base_of (phys_start + sz + 0xFFF))
        in if end_addr \<le> start then Some (True, s)
           else map_region_pages start end_addr extra_flags s)"

definition paging_map_region :: "u32 \<Rightarrow> u32 \<Rightarrow> vm \<Rightarrow> (bool \<times> vm) option" where
  "paging_map_region phys_start sz s = map_region_flags phys_start sz 0 s"

end
