(* ===== verification/Vmm_Inv.thy ===== *)
theory Vmm_Inv
  imports Vmm Pmm_Spec "HOL-Library.Multiset"
begin

text \<open>
  Who holds which frame. A set of page directories claims its directory frames, the page
  tables its directories own, and every frame its page tables map, once per mapping. The
  invariant says that the reference count of a frame is the number of these claims plus the
  references held elsewhere (page cache, code in the middle of an operation), and that no
  two directory slots share a table, so that a write to one table changes one mapping.
\<close>

section \<open>Entries\<close>

lemma low_mask: "(0xFFF :: u32) = mask 12" by (simp add: mask_eq_exp_minus_1)

lemma flag_iff:
  fixes e :: u32
  shows "e AND 0x1 = 0 \<longleftrightarrow> \<not> bit e 0" "e AND 0x2 = 0 \<longleftrightarrow> \<not> bit e 1" "e AND 0x4 = 0 \<longleftrightarrow> \<not> bit e 2"
    "e AND 0x80 = 0 \<longleftrightarrow> \<not> bit e 7" "e AND 0x200 = 0 \<longleftrightarrow> \<not> bit e 9"
  using and_exp_eq_0_iff_not_bit [of e 0] and_exp_eq_0_iff_not_bit [of e 1] and_exp_eq_0_iff_not_bit [of e 2]
    and_exp_eq_0_iff_not_bit [of e 7] and_exp_eq_0_iff_not_bit [of e 9] by simp_all

lemma bit_base_of: "bit (base_of e) n \<longleftrightarrow> 12 \<le> n \<and> bit e n"
  by (auto simp: base_of_def low_mask bit_simps dest: bit_imp_le_length)

lemma base_of_base_of [simp]: "base_of (base_of e) = base_of e"
  by (rule bit_word_eqI) (simp add: bit_base_of)

lemma base_of_or_low: "base_of (base_of e OR x) = base_of e" if "\<And>n. 12 \<le> n \<Longrightarrow> \<not> bit x n"
  using that by (intro bit_word_eqI) (auto simp: bit_base_of bit_or_iff)

lemma aligned_base_of: "a AND 0xFFF = 0 \<Longrightarrow> base_of a = (a :: u32)"
proof (rule bit_word_eqI)
  fix n assume a: "a AND 0xFFF = 0"
  have "bit (a AND 0xFFF) n \<longleftrightarrow> bit a n \<and> n < 12" for n
    by (auto simp: low_mask bit_simps dest: bit_imp_le_length)
  with a have "\<not> (bit a n \<and> n < 12)" by (metis bit_0_eq bot_apply bot_bool_def)
  then show "bit (base_of a) n \<longleftrightarrow> bit a n" by (auto simp: bit_base_of)
qed

text \<open>The simplifier reads the bits of a word numeral off the integer numeral.\<close>

lemma bit_numerals:
  "bit (2 :: int) n \<longleftrightarrow> n = 1" "bit (4 :: int) n \<longleftrightarrow> n = 2" "bit (0x80 :: int) n \<longleftrightarrow> n = 7"
  "bit (0x200 :: int) n \<longleftrightarrow> n = 9"
  using bit_exp_iff [where ?'a = int, of 1 n] bit_exp_iff [where ?'a = int, of 2 n]
    bit_exp_iff [where ?'a = int, of 7 n] bit_exp_iff [where ?'a = int, of 9 n] by auto

lemma bit_masks:
  "bit (0xFFF :: int) n \<longleftrightarrow> n < 12" "bit (7 :: int) n \<longleftrightarrow> n < 3" "bit (- 3 :: int) n \<longleftrightarrow> n \<noteq> 1"
  "bit (- 0x201 :: int) n \<longleftrightarrow> n \<noteq> 9"
proof -
  have 12: "(0xFFF :: int) = mask 12" by (simp add: mask_eq_exp_minus_1)
  show "bit (0xFFF :: int) n \<longleftrightarrow> n < 12" unfolding 12 by (simp add: bit_mask_iff)
  have 7: "(7 :: int) = mask 3" by (simp add: mask_eq_exp_minus_1)
  show "bit (7 :: int) n \<longleftrightarrow> n < 3" unfolding 7 by (simp add: bit_mask_iff)
  have "bit (NOT 2 :: int) n \<longleftrightarrow> n \<noteq> 1" "bit (NOT 0x200 :: int) n \<longleftrightarrow> n \<noteq> 9"
    by (simp_all only: bit_not_int_iff bit_numerals)
  then show "bit (- 3 :: int) n \<longleftrightarrow> n \<noteq> 1" "bit (- 0x201 :: int) n \<longleftrightarrow> n \<noteq> 9" by simp_all
qed

lemmas entry_bits = bit_base_of bit_masks bit_numerals bit_or_iff bit_and_iff bit_1_iff

lemma new_pte:
  "base_of (base_of p OR (f AND 0xFFF) OR 1) = base_of p" "bit (base_of p OR (f AND 0xFFF) OR 1) 0"
  "bit (base_of p OR (f AND 0xFFF) OR 1) 2 \<longleftrightarrow> bit f 2"
  by (rule bit_word_eqI) (auto simp: entry_bits)

lemma new_pde:
  assumes "base_of p = p"
  shows "base_of (p OR 1 OR 2 OR 4) = p" "bit (p OR 1 OR 2 OR 4) 0" "\<not> bit (p OR 1 OR 2 OR 4) 7"
proof -
  have p: "bit p n \<Longrightarrow> 12 \<le> n" for n using assms by (metis bit_base_of)
  show "base_of (p OR 1 OR 2 OR 4) = p" using p by (intro bit_word_eqI) (auto simp: entry_bits)
  show "bit (p OR 1 OR 2 OR 4) 0" "\<not> bit (p OR 1 OR 2 OR 4) 7"
    using p [of 7] by (auto simp: entry_bits)
qed

lemma linked_pde:
  assumes "base_of p = p"
  shows "base_of (p OR (e AND 0xFFF)) = p" "n < 12 \<Longrightarrow> bit (p OR (e AND 0xFFF)) n \<longleftrightarrow> bit e n"
proof -
  have p: "bit p n \<Longrightarrow> 12 \<le> n" for n using assms by (metis bit_base_of)
  show "base_of (p OR (e AND 0xFFF)) = p" using p by (intro bit_word_eqI) (auto simp: entry_bits)
  show "n < 12 \<Longrightarrow> bit (p OR (e AND 0xFFF)) n \<longleftrightarrow> bit e n" using p [of n] by (auto simp: entry_bits)
qed

lemma cow_pte:
  "base_of ((e AND NOT 2) OR 0x200) = base_of e" "bit ((e AND NOT 2) OR (0x200 :: u32)) 0 \<longleftrightarrow> bit e 0"
  "bit ((e AND NOT 2) OR (0x200 :: u32)) 2 \<longleftrightarrow> bit e 2" "\<not> bit ((e AND NOT 2) OR (0x200 :: u32)) 1"
  "bit ((e AND NOT 2) OR (0x200 :: u32)) 9"
  subgoal by (rule bit_word_eqI) (auto simp: entry_bits)
  by (auto simp: entry_bits)

lemma page_number_inj:
  assumes "base_of a = a" and "base_of b = b" and "a div 0x1000 = b div (0x1000 :: u32)"
  shows "a = b"
proof -
  have "unat x = unat (x div 0x1000) * 4096" if "base_of x = x" for x :: u32
    using that unat_page_base [of x] by (simp add: base_of_def unat_div)
  with assms show ?thesis by (metis unat_eq_iff)
qed

section \<open>Claims\<close>

definition pte_claim :: "u32 \<Rightarrow> u32 multiset" where
  "pte_claim e = (if bit e 0 \<and> base_of e \<noteq> 0 \<and> base_of e < VMM_KERNEL_IDMAP_END then {#base_of e#} else {#})"

definition table_claim :: "vm \<Rightarrow> u32 \<Rightarrow> u32 multiset" where
  "table_claim s pt = (\<Sum>j | j < (1024 :: u32). pte_claim (phys_mem s pt j))"

text \<open>A directory entry the directory owns, by the guards of the walkers.\<close>

definition owned :: "vm \<Rightarrow> u32 \<Rightarrow> u32 \<Rightarrow> bool" where
  "owned s pd i \<longleftrightarrow> i < 1024 \<and> bit (phys_mem s pd i) 0 \<and> \<not> bit (phys_mem s pd i) 7 \<and>
     base_of (phys_mem s pd i) \<noteq> base_of (rd s (kernel_pd s) i) \<and>
     base_of (phys_mem s pd i) \<noteq> 0 \<and> base_of (phys_mem s pd i) < VMM_KERNEL_IDMAP_END"

definition pt_of :: "vm \<Rightarrow> u32 \<times> u32 \<Rightarrow> u32" where
  "pt_of s x = base_of (phys_mem s (fst x) (snd x))"

definition slots :: "vm \<Rightarrow> u32 set \<Rightarrow> (u32 \<times> u32) set" where
  "slots s D = {(pd, i). pd \<in> D \<and> owned s pd i}"

definition tables :: "vm \<Rightarrow> u32 set \<Rightarrow> u32 set" where
  "tables s D = D \<union> pt_of s ` slots s D"

definition slot_claim :: "vm \<Rightarrow> u32 \<times> u32 \<Rightarrow> u32 multiset" where
  "slot_claim s x = add_mset (pt_of s x) (table_claim s (pt_of s x))"

definition claims :: "vm \<Rightarrow> u32 set \<Rightarrow> u32 multiset" where
  "claims s D = mset_set D + (\<Sum>x \<in> slots s D. slot_claim s x)"

definition frame_ok :: "u32 \<Rightarrow> bool" where
  "frame_ok f \<longleftrightarrow> base_of f = f \<and> f \<noteq> 0 \<and> f < VMM_KERNEL_IDMAP_END"

text \<open>
  \<open>vm_wf\<close>: no two owned slots share a table, no table is a directory, every directory has
  the kernel's large pages, and an entry the kernel directory leaves free is empty or owned. \<open>kernel_ok\<close>: an absent entry of the kernel directory is 0,
  and what the kernel directory uses is outside the frames the allocator manages.
\<close>

definition vm_wf :: "vm \<Rightarrow> u32 set \<Rightarrow> bool" where
  "vm_wf s D \<longleftrightarrow> (\<forall>pd \<in> D. frame_ok pd) \<and> inj_on (pt_of s) (slots s D) \<and>
     (\<forall>x \<in> slots s D. pt_of s x \<notin> D) \<and>
     (\<forall>pd \<in> D. \<forall>i < 1024. bit (rd s (kernel_pd s) i) 7 \<longrightarrow> bit (phys_mem s pd i) 7) \<and>
     (\<forall>pd \<in> D. \<forall>i < 1024. rd s (kernel_pd s) i = 0 \<longrightarrow> phys_mem s pd i = 0 \<or> owned s pd i)"

definition kernel_ok :: "vm \<Rightarrow> bool" where
  "kernel_ok s \<longleftrightarrow> 0 \<notin> managed_frames (pool s) \<and> v2p_pd (kernel_pd s) div 0x1000 \<notin> managed_frames (pool s) \<and>
     (\<forall>i < 1024. \<not> bit (rd s (kernel_pd s) i) 0 \<longrightarrow> rd s (kernel_pd s) i = 0) \<and>
     (\<forall>i < 1024. \<not> bit (rd s (kernel_pd s) i) 7 \<longrightarrow>
        base_of (rd s (kernel_pd s) i) div 0x1000 \<notin> managed_frames (pool s))"

definition vm_inv :: "vm \<Rightarrow> u32 set \<Rightarrow> (u32 \<Rightarrow> nat) \<Rightarrow> bool" where
  "vm_inv s D ext \<longleftrightarrow> pmm_inv (pool s) \<and> kernel_ok s \<and> vm_wf s D \<and>
     (\<forall>f. frame_ok f \<longrightarrow> frame_refs (pool s) (f div 0x1000) = ext f + count (claims s D) f)"

lemma vm_inv_ext_cong: "vm_inv s D ext \<Longrightarrow> (\<And>f. frame_ok f \<Longrightarrow> ext f = ext' f) \<Longrightarrow> vm_inv s D ext'"
  by (simp add: vm_inv_def)

lemma finite_slots [simp]: "finite (slots s D)" by simp

lemma frame_ok_v2p [simp]: "frame_ok f \<Longrightarrow> v2p_pd f = f"
proof -
  assume "frame_ok f"
  then have "f < 0x10000000" by (simp add: frame_ok_def)
  then have "\<not> KERNEL_VBASE \<le> f" by (simp add: word_less_nat_alt word_le_nat_alt)
  then show ?thesis by (simp add: v2p_pd_def)
qed

lemma owned_table: "owned s pd i \<Longrightarrow> frame_ok (pt_of s (pd, i))"
  by (simp add: owned_def pt_of_def frame_ok_def)

lemma tables_frame_ok: "vm_wf s D \<Longrightarrow> t \<in> tables s D \<Longrightarrow> frame_ok t"
  by (auto simp: vm_wf_def tables_def slots_def owned_table)

lemma table_in_claims: "t \<in> tables s D \<Longrightarrow> t \<in># claims s D"
proof -
  have "pt_of s x \<in># (\<Sum>y \<in> slots s D. slot_claim s y)" if "x \<in> slots s D" for x
    using sum.remove [OF finite_slots that, of "slot_claim s"] by (simp add: slot_claim_def)
  then show "t \<in> tables s D \<Longrightarrow> t \<in># claims s D" by (auto simp: tables_def claims_def)
qed

lemma table_managed:
  assumes "vm_inv s D ext" and "t \<in> tables s D" shows "t div 0x1000 \<in> managed_frames (pool s)"
proof -
  have "frame_ok t" using assms tables_frame_ok by (auto simp: vm_inv_def)
  moreover have "0 < count (claims s D) t" using table_in_claims [OF assms(2)] by simp
  ultimately have "0 < frame_refs (pool s) (t div 0x1000)" using assms(1) by (simp add: vm_inv_def)
  then show ?thesis using pmm.refs_managed assms(1) by (auto simp: vm_inv_def)
qed

lemma kernel_not_table:
  assumes "vm_inv s D ext"
  shows "v2p_pd (kernel_pd s) \<notin> tables s D"
    and "i < 1024 \<Longrightarrow> \<not> bit (rd s (kernel_pd s) i) 7 \<Longrightarrow>
      base_of (rd s (kernel_pd s) i) \<notin> tables s D"
  using assms table_managed [OF assms] by (auto simp: vm_inv_def kernel_ok_def)

section \<open>Frame conditions\<close>

text \<open>Nothing changes for the directories when their tables and the kernel directory are kept.\<close>

lemma claims_cong:
  assumes "kernel_pd s' = kernel_pd s" and "rd s' (kernel_pd s) = rd s (kernel_pd s)"
    and "\<And>t. t \<in> tables s D \<Longrightarrow> phys_mem s' t = phys_mem s t"
  shows "slots s' D = slots s D" and "\<And>x. x \<in> slots s D \<Longrightarrow> pt_of s' x = pt_of s x"
    and "\<And>x. x \<in> slots s D \<Longrightarrow> slot_claim s' x = slot_claim s x"
    and "claims s' D = claims s D" and "tables s' D = tables s D" and "vm_wf s' D = vm_wf s D"
proof -
  have pd: "phys_mem s' pd = phys_mem s pd" if "pd \<in> D" for pd
    using that by (intro assms(3)) (simp add: tables_def)
  then have ow: "owned s' pd i \<longleftrightarrow> owned s pd i" if "pd \<in> D" for pd i
    using that assms(1,2) by (simp add: owned_def)
  show sl: "slots s' D = slots s D" using ow by (auto simp: slots_def)
  show pt: "pt_of s' x = pt_of s x" if "x \<in> slots s D" for x
    using that pd by (auto simp: pt_of_def slots_def)
  show sc: "slot_claim s' x = slot_claim s x" if "x \<in> slots s D" for x
  proof -
    have "pt_of s x \<in> tables s D" using that by (simp add: tables_def)
    then show ?thesis using assms(3) pt [OF that] by (simp add: slot_claim_def table_claim_def)
  qed
  show "claims s' D = claims s D" by (simp add: claims_def sl sc cong: sum.cong)
  show "tables s' D = tables s D" by (auto simp: tables_def sl pt)
  show "vm_wf s' D = vm_wf s D" using pd ow assms(1,2) by (auto simp: vm_wf_def sl pt inj_on_def)
qed

lemma wr_simps [simp]:
  "frame_ok p \<Longrightarrow> phys_mem (wr p i v s) = (phys_mem s)(p := (phys_mem s p)(i := v))"
  "frame_ok p \<Longrightarrow> phys_mem (wr_page p pg s) = (phys_mem s)(p := pg)"
  "frame_ok p \<Longrightarrow> rd s p = phys_mem s p"
  by (simp_all add: wr_def wr_page_def rd_def fun_eq_iff)

lemma wr_frame [frame_simps, simp]:
  "pool (wr p i v s) = pool s" "kernel_pd (wr p i v s) = kernel_pd s" "cr3 (wr p i v s) = cr3 s"
  "pool (wr_page p pg s) = pool s" "kernel_pd (wr_page p pg s) = kernel_pd s" "cr3 (wr_page p pg s) = cr3 s"
  by (simp_all add: wr_def wr_page_def)

section \<open>Writing one entry\<close>

lemma table_claim_upd:
  assumes "j < 1024" and "phys_mem s' pt = (phys_mem s pt)(j := v)"
  shows "table_claim s' pt + pte_claim (phys_mem s pt j) = table_claim s pt + pte_claim v"
proof -
  have j: "j \<in> {j. j < (1024 :: u32)}" using assms(1) by simp
  have "(\<Sum>k \<in> {j. j < 1024} - {j}. pte_claim (((phys_mem s pt)(j := v)) k)) =
      (\<Sum>k \<in> {j. j < 1024} - {j}. pte_claim (phys_mem s pt k))" by (rule sum.cong) auto
  then show ?thesis
    using sum.remove [OF _ j, of "\<lambda>k. pte_claim (phys_mem s pt k)"]
      sum.remove [OF _ j, of "\<lambda>k. pte_claim (((phys_mem s pt)(j := v)) k)"]
    by (simp add: table_claim_def assms(2))
qed

lemma write_pte:
  assumes wf: "vm_wf s D" and x: "x \<in> slots s D" and j: "j < 1024"
    and k: "v2p_pd (kernel_pd s) \<noteq> pt_of s x" and s': "s' = wr (pt_of s x) j v s"
  shows "slots s' D = slots s D" and "tables s' D = tables s D" and "vm_wf s' D"
    and "claims s' D + pte_claim (phys_mem s (pt_of s x) j) = claims s D + pte_claim v"
proof -
  let ?t = "pt_of s x"
  have t: "frame_ok ?t" "?t \<notin> D" using wf x owned_table by (auto simp: vm_wf_def slots_def)
  then have mem: "phys_mem s' = (phys_mem s)(?t := (phys_mem s ?t)(j := v))" by (simp add: s')
  have kp: "kernel_pd s' = kernel_pd s" "rd s' (kernel_pd s) = rd s (kernel_pd s)"
    using k mem by (simp_all add: s' rd_def fun_eq_iff wr_def)
  have pd: "phys_mem s' pd = phys_mem s pd" if "pd \<in> D" for pd using that t(2) mem by auto
  then have ow: "owned s' pd i \<longleftrightarrow> owned s pd i" if "pd \<in> D" for pd i
    using that kp by (simp add: owned_def)
  show sl: "slots s' D = slots s D" using ow by (auto simp: slots_def)
  have pt: "pt_of s' y = pt_of s y" if "y \<in> slots s D" for y
    using that pd by (auto simp: pt_of_def slots_def)
  show "tables s' D = tables s D" by (auto simp: tables_def sl pt)
  show "vm_wf s' D" using wf pd kp ow by (auto simp: vm_wf_def sl pt inj_on_def)
  have "slot_claim s' y = slot_claim s y" if "y \<in> slots s D - {x}" for y
  proof -
    have "pt_of s y \<noteq> ?t" using that wf x by (auto simp: vm_wf_def inj_on_def)
    then show ?thesis using that mem by (simp add: slot_claim_def table_claim_def pt)
  qed
  then have rest: "(\<Sum>y \<in> slots s D - {x}. slot_claim s' y) = (\<Sum>y \<in> slots s D - {x}. slot_claim s y)"
    by (rule sum.cong [OF refl])
  have "slot_claim s' x + pte_claim (phys_mem s ?t j) = slot_claim s x + pte_claim v"
    using table_claim_upd [OF j, of s' ?t s v] mem by (simp add: slot_claim_def pt [OF x])
  then show "claims s' D + pte_claim (phys_mem s ?t j) = claims s D + pte_claim v"
    using sum.remove [OF finite_slots x, of "slot_claim s"] sum.remove [OF finite_slots x, of "slot_claim s'"]
    by (simp add: claims_def sl rest)
qed

lemma link_pde:
  assumes wf: "vm_wf s D" and pd: "pd \<in> D" "i < 1024" "\<not> owned s pd i" "\<not> bit (phys_mem s pd i) 7"
    and e: "bit e 0" "\<not> bit e 7" "frame_ok (base_of e)" "base_of e \<noteq> base_of (rd s (kernel_pd s) i)"
      "base_of e \<notin> tables s D"
    and k: "v2p_pd (kernel_pd s) \<noteq> pd" and s': "s' = wr pd i e s"
  shows "slots s' D = insert (pd, i) (slots s D)" and "tables s' D = insert (base_of e) (tables s D)"
    and "vm_wf s' D" and "claims s' D = claims s D + add_mset (base_of e) (table_claim s (base_of e))"
    and "pt_of s' (pd, i) = base_of e"
proof -
  have p: "frame_ok pd" using wf pd by (auto simp: vm_wf_def)
  have mem: "phys_mem s' = (phys_mem s)(pd := (phys_mem s pd)(i := e))" using p by (simp add: s')
  have kp: "kernel_pd s' = kernel_pd s" "rd s' (kernel_pd s) = rd s (kernel_pd s)"
    using k mem by (simp_all add: s' rd_def fun_eq_iff wr_def)
  have ow: "owned s' q m \<longleftrightarrow> q = pd \<and> m = i \<or> owned s q m" for q m
    using pd e kp mem by (auto simp: owned_def frame_ok_def)
  show sl: "slots s' D = insert (pd, i) (slots s D)" using pd(1) ow by (auto simp: slots_def)
  have ni: "(pd, i) \<notin> slots s D" using pd(3) by (simp add: slots_def)
  have pt: "pt_of s' y = pt_of s y" if "y \<in> slots s D" for y
    using that ni mem by (auto simp: pt_of_def)
  show pti: "pt_of s' (pd, i) = base_of e" using mem by (simp add: pt_of_def)
  show "tables s' D = insert (base_of e) (tables s D)" by (auto simp: tables_def sl pt pti)
  have "pt_of s y \<noteq> base_of e" if "y \<in> slots s D" for y
    using that e(5) by (metis UnCI image_eqI tables_def)
  then show "vm_wf s' D"
    using wf e(5) pt pti kp mem pd ow unfolding vm_wf_def sl tables_def inj_on_def by (auto 0 3)
  have same: "phys_mem s' t = phys_mem s t" if "t \<noteq> pd" for t using that mem by simp
  have sc: "slot_claim s' y = slot_claim s y" if "y \<in> slots s D" for y
  proof -
    have "pt_of s y \<noteq> pd" using that wf pd(1) by (auto simp: vm_wf_def)
    then show ?thesis using that same by (simp add: slot_claim_def table_claim_def pt)
  qed
  have "base_of e \<noteq> pd" using e(5) pd(1) by (auto simp: tables_def)
  then have "slot_claim s' (pd, i) = add_mset (base_of e) (table_claim s (base_of e))"
    using same by (simp add: slot_claim_def table_claim_def pti)
  with sc show "claims s' D = claims s D + add_mset (base_of e) (table_claim s (base_of e))"
    using ni by (simp add: claims_def sl cong: sum.cong)
qed

section \<open>Moving references\<close>

text \<open>
  Each step of the code moves references between the claims of the directories and the
  references held by the running code (\<open>ext\<close>).
\<close>

lemma kernel_ok_cong:
  assumes "managed_frames (pool s') = managed_frames (pool s)" and "kernel_pd s' = kernel_pd s"
    and "rd s' (kernel_pd s) = rd s (kernel_pd s)"
  shows "kernel_ok s' = kernel_ok s"
  using assms by (simp add: kernel_ok_def)

lemma alloc_step:
  assumes inv: "vm_inv s D ext" and al: "alloc_frame s = (a, s')"
  shows "a = PMM_ALLOC_ERROR \<Longrightarrow> s' = s"
    and "a \<noteq> PMM_ALLOC_ERROR \<Longrightarrow> frame_ok a \<and> a \<notin> tables s D \<and> a \<notin># claims s D \<and> ext a = 0 \<and>
      a \<noteq> v2p_pd (kernel_pd s) \<and>
      (\<forall>i < 1024. \<not> bit (rd s (kernel_pd s) i) 7 \<longrightarrow> a \<noteq> base_of (rd s (kernel_pd s) i)) \<and>
      vm_inv s' D (ext(a := 1))"
    and "phys_mem s' = phys_mem s" and "kernel_pd s' = kernel_pd s" and "cr3 s' = cr3 s"
proof -
  obtain q where q: "pmm_alloc_frame (pool s) = (a, q)" "s' = s\<lparr>pool := q\<rparr>"
    using al by (auto simp: alloc_frame_def split: prod.splits)
  note p = inv [unfolded vm_inv_def, THEN conjunct1]
  show "a = PMM_ALLOC_ERROR \<Longrightarrow> s' = s" using pmm.alloc_fails [OF p, of q] q by simp
  show same: "phys_mem s' = phys_mem s" "kernel_pd s' = kernel_pd s" "cr3 s' = cr3 s" using q by simp_all
  assume ne: "a \<noteq> PMM_ALLOC_ERROR"
  have r: "frame_refs (pool s) (a div 0x1000) = 0" "frame_refs q = (frame_refs (pool s))(a div 0x1000 := 1)"
    using pmm.refs_alloc [OF p q(1) ne] by simp_all
  have m: "a div 0x1000 \<in> managed_frames (pool s)" "managed_frames q = managed_frames (pool s)"
    using pmm.alloc_managed [OF p q(1) ne] pmm.managed_alloc [OF p] q(1) by simp_all
  have ok: "frame_ok a" unfolding frame_ok_def
  proof (intro conjI)
    show "base_of a = a" using pmm.alloc_aligned [OF p q(1) ne] by (rule aligned_base_of)
    show "a \<noteq> 0" using m(1) inv by (auto simp: vm_inv_def kernel_ok_def)
    show "a < VMM_KERNEL_IDMAP_END" using pmm.alloc_window [OF p q(1) ne] .
  qed
  have z: "ext a = 0" "count (claims s D) a = 0" using inv ok r(1) by (simp_all add: vm_inv_def)
  have "a \<noteq> v2p_pd (kernel_pd s)"
    "\<forall>i < 1024. \<not> bit (rd s (kernel_pd s) i) 7 \<longrightarrow> a \<noteq> base_of (rd s (kernel_pd s) i)"
    using m(1) inv by (auto simp: vm_inv_def kernel_ok_def)
  moreover have "a \<notin> tables s D" using table_in_claims [of a s D] z(2) by (metis count_eq_zero_iff)
  moreover have rd': "rd s' = rd s" using q by (simp add: rd_def fun_eq_iff)
  moreover have cl: "claims s' D = claims s D" "vm_wf s' D = vm_wf s D"
    using same rd' claims_cong(4,6) [of s' s D] by simp_all
  moreover have "kernel_ok s'" using kernel_ok_cong [of s' s] q m(2) rd' inv by (simp add: vm_inv_def)
  moreover have "pmm_inv (pool s')" using pmm.inv_alloc [OF p] q by simp
  moreover have "frame_refs (pool s') (f div 0x1000) = (ext(a := 1)) f + count (claims s D) f" if "frame_ok f" for f
    using that inv z r q page_number_inj [of f a] ok by (auto simp: vm_inv_def frame_ok_def)
  ultimately show "frame_ok a \<and> a \<notin> tables s D \<and> a \<notin># claims s D \<and> ext a = 0 \<and> a \<noteq> v2p_pd (kernel_pd s) \<and>
      (\<forall>i < 1024. \<not> bit (rd s (kernel_pd s) i) 7 \<longrightarrow> a \<noteq> base_of (rd s (kernel_pd s) i)) \<and>
      vm_inv s' D (ext(a := 1))"
    using ok z inv by (simp add: vm_inv_def not_in_iff)
qed

text \<open>A step that only changes the pool.\<close>

lemma pool_step:
  assumes inv: "vm_inv s D ext" and s': "s' = s\<lparr>pool := q\<rparr>" and "pmm_inv q"
    and "managed_frames q = managed_frames (pool s)"
    and refs: "\<And>f. frame_ok f \<Longrightarrow> frame_refs q (f div 0x1000) + ext f = frame_refs (pool s) (f div 0x1000) + ext' f"
  shows "vm_inv s' D ext'"
proof -
  have same: "phys_mem s' = phys_mem s" "kernel_pd s' = kernel_pd s" "rd s' = rd s"
    using s' by (simp_all add: rd_def fun_eq_iff)
  then have "claims s' D = claims s D" "vm_wf s' D = vm_wf s D" using claims_cong(4,6) [of s' s D] by simp_all
  moreover have "kernel_ok s'" using kernel_ok_cong [of s' s] same assms(4) s' inv by (simp add: vm_inv_def)
  moreover have "frame_refs q (f div 0x1000) = ext' f + count (claims s D) f" if "frame_ok f" for f
    using refs [OF that] inv that by (simp add: vm_inv_def)
  ultimately show ?thesis using inv assms(3) s' by (simp add: vm_inv_def)
qed

lemma free_step:
  assumes inv: "vm_inv s D ext" and f: "frame_ok f" "0 < ext f"
  shows "vm_inv (free_frame f s) D (ext(f := ext f - 1))"
proof -
  have p: "pmm_inv (pool s)" using inv by (simp add: vm_inv_def)
  have "0 < frame_refs (pool s) (f div 0x1000)" using inv f by (simp add: vm_inv_def)
  then show ?thesis
    using f pmm.inv_free [OF p] pmm.managed_free [OF p] pmm.refs_free [OF p, of f] page_number_inj [of _ f]
    by (intro pool_step [OF inv, of _ "pmm_free_frame f (pool s)"]) (auto simp: free_frame_def frame_ok_def)
qed

lemma inc_step:
  assumes inv: "vm_inv s D ext" and f: "frame_ok f" "0 < ext f + count (claims s D) f" "ext f + count (claims s D) f < 255"
  shows "vm_inv (inc_ref f s) D (ext(f := ext f + 1))"
proof -
  have p: "pmm_inv (pool s)" using inv by (simp add: vm_inv_def)
  have "frame_refs (pool s) (f div 0x1000) = ext f + count (claims s D) f" using inv f by (simp add: vm_inv_def)
  then show ?thesis
    using f pmm.inv_inc [OF p] pmm.managed_inc [OF p] pmm.refs_inc [OF p, of f] page_number_inj [of _ f]
    by (intro pool_step [OF inv, of _ "pmm_inc_ref f (pool s)"]) (auto simp: inc_ref_def frame_ok_def)
qed

text \<open>Counting a reference to a frame outside the window or to frame 0 does nothing.\<close>

lemma inc_step_outside:
  assumes inv: "vm_inv s D ext" and f: "base_of f = f" "\<not> frame_ok f"
  shows "vm_inv (inc_ref f s) D ext"
proof -
  have p: "pmm_inv (pool s)" using inv by (simp add: vm_inv_def)
  have "frame_refs (pool s) (f div 0x1000) = 0"
  proof (rule ccontr)
    assume "frame_refs (pool s) (f div 0x1000) \<noteq> 0"
    then have r: "f div 0x1000 \<in> managed_frames (pool s)" "f div 0x1000 < 0x10000"
      using pmm.refs_managed [OF p, of "f div 0x1000"] by auto
    then have "f \<noteq> 0" using inv by (auto simp: vm_inv_def kernel_ok_def)
    moreover have "f < 0x10000000"
      using r(2) by (simp add: word_less_nat_alt unat_div)
    ultimately show False using f by (simp add: frame_ok_def)
  qed
  then show ?thesis
    using pmm.inv_inc [OF p] pmm.managed_inc [OF p] pmm.refs_inc [OF p, of f]
    by (intro pool_step [OF inv, of _ "pmm_inc_ref f (pool s)"]) (auto simp: inc_ref_def)
qed

end
