(* ===== verification/Vmm_Ops.thy ===== *)
theory Vmm_Ops
  imports Vmm_Inv
begin

text \<open>
  Every operation on page directories keeps the invariant of \<^verbatim>\<open>Vmm_Inv\<close>, with the
  references it takes over or hands back accounted for.
\<close>

section \<open>Memory steps\<close>

lemma pte_step:
  assumes inv: "vm_inv s D ext" and x: "x \<in> slots s D" and j: "j < 1024"
    and ext: "\<And>f. frame_ok f \<Longrightarrow>
      ext' f + count (pte_claim v) f = ext f + count (pte_claim (phys_mem s (pt_of s x) j)) f"
  shows "vm_inv (wr (pt_of s x) j v s) D ext'"
    and "slots (wr (pt_of s x) j v s) D = slots s D" and "tables (wr (pt_of s x) j v s) D = tables s D"
    and "claims (wr (pt_of s x) j v s) D + pte_claim (phys_mem s (pt_of s x) j) = claims s D + pte_claim v"
proof -
  let ?s = "wr (pt_of s x) j v s"
  have wf: "vm_wf s D" using inv by (simp add: vm_inv_def)
  have k: "v2p_pd (kernel_pd s) \<noteq> pt_of s x"
    using kernel_not_table(1) [OF inv] x by (auto simp: tables_def)
  note w = write_pte [OF wf x j k refl, of v]
  have t: "frame_ok (pt_of s x)" using x owned_table by (auto simp: slots_def)
  then have "rd ?s (kernel_pd s) = rd s (kernel_pd s)" using k by (simp add: rd_def fun_eq_iff)
  then have "kernel_ok ?s" using kernel_ok_cong [of ?s s] inv by (simp add: vm_inv_def)
  moreover have "frame_refs (pool s) (f div 0x1000) = ext' f + count (claims ?s D) f" if "frame_ok f" for f
    using ext [OF that] arg_cong [OF w(4), of "\<lambda>M. count M f"] inv that by (simp add: vm_inv_def)
  ultimately show "vm_inv ?s D ext'" using inv w(3) by (simp add: vm_inv_def)
  show "slots ?s D = slots s D" by (rule w(1))
  show "tables ?s D = tables s D" by (rule w(2))
  show "claims ?s D + pte_claim (phys_mem s (pt_of s x) j) = claims s D + pte_claim v" by (rule w(4))
qed

lemma link_step:
  assumes inv: "vm_inv s D ext" and pd: "pd \<in> D" "i < 1024" "\<not> owned s pd i" "\<not> bit (phys_mem s pd i) 7"
    and e: "bit e 0" "\<not> bit e 7" "frame_ok (base_of e)" "base_of e \<noteq> base_of (rd s (kernel_pd s) i)"
      "base_of e \<notin> tables s D"
    and ext: "\<And>f. frame_ok f \<Longrightarrow> ext' f + count (add_mset (base_of e) (table_claim s (base_of e))) f = ext f"
  shows "vm_inv (wr pd i e s) D ext'" and "slots (wr pd i e s) D = insert (pd, i) (slots s D)"
    and "pt_of (wr pd i e s) (pd, i) = base_of e"
    and "claims (wr pd i e s) D = claims s D + add_mset (base_of e) (table_claim s (base_of e))"
proof -
  let ?s = "wr pd i e s"
  have wf: "vm_wf s D" using inv by (simp add: vm_inv_def)
  have k: "v2p_pd (kernel_pd s) \<noteq> pd" using kernel_not_table(1) [OF inv] pd(1) by (auto simp: tables_def)
  note l = link_pde [OF wf pd e k refl]
  have "frame_ok pd" using wf pd by (auto simp: vm_wf_def)
  then have "rd ?s (kernel_pd s) = rd s (kernel_pd s)" using k by (simp add: rd_def fun_eq_iff)
  then have "kernel_ok ?s" using kernel_ok_cong [of ?s s] inv by (simp add: vm_inv_def)
  moreover have "frame_refs (pool s) (f div 0x1000) = ext' f + count (claims ?s D) f" if "frame_ok f" for f
    using ext [OF that] l(4) inv that by (auto simp: vm_inv_def split: if_splits)
  ultimately show "vm_inv ?s D ext'" using inv l(3) by (simp add: vm_inv_def)
  show "slots ?s D = insert (pd, i) (slots s D)" by (rule l(1))
  show "pt_of ?s (pd, i) = base_of e" by (rule l(5))
  show "claims ?s D = claims s D + add_mset (base_of e) (table_claim s (base_of e))" by (rule l(4))
qed

text \<open>Writing a page that is neither a table nor the kernel directory.\<close>

lemma data_step:
  assumes inv: "vm_inv s D ext" and p: "p \<notin> tables s D" "p \<noteq> v2p_pd (kernel_pd s)"
    and s': "phys_mem s' = (phys_mem s)(p := pg)" "pool s' = pool s" "kernel_pd s' = kernel_pd s"
  shows "vm_inv s' D ext" and "slots s' D = slots s D" and "tables s' D = tables s D"
    and "x \<in> slots s D \<Longrightarrow> pt_of s' x = pt_of s x" and "claims s' D = claims s D"
proof -
  have rd': "rd s' (kernel_pd s) = rd s (kernel_pd s)" using p s' by (simp add: rd_def fun_eq_iff)
  have mem: "t \<in> tables s D \<Longrightarrow> phys_mem s' t = phys_mem s t" for t using p s' by auto
  note c = claims_cong [OF s'(3) rd' mem]
  have "kernel_ok s'" using kernel_ok_cong [of s' s] s' rd' inv by (simp add: vm_inv_def)
  then show "vm_inv s' D ext" using inv c(4,6) s'(2) by (simp add: vm_inv_def)
  show "slots s' D = slots s D" by (rule c(1))
  show "tables s' D = tables s D" by (rule c(5))
  show "claims s' D = claims s D" by (rule c(4))
  show "x \<in> slots s D \<Longrightarrow> pt_of s' x = pt_of s x" by (rule c(2))
qed

section \<open>Mapping a page\<close>

lemma pd_index_bound: "pd_index v < 1024"
proof -
  have "unat (drop_bit 22 v) = unat v div 2 ^ 22" by (simp add: drop_bit_eq_div unat_div)
  then show ?thesis using unsigned_less [where ?'a = nat, of v] by (simp add: pd_index_def word_less_nat_alt)
qed

lemma pt_index_bound: "pt_index v < 1024"
proof -
  have "x AND 0x3FF = take_bit 10 x" for x :: u32 by (simp add: take_bit_eq_mask mask_eq_exp_minus_1)
  then have "unat (pt_index v) = take_bit 10 (unat (drop_bit 12 v))" by (simp only: pt_index_def unsigned_take_bit_eq)
  then show ?thesis by (simp add: word_less_nat_alt take_bit_eq_mod)
qed

text \<open>The page-table entry an address resolves to in a directory that owns its slot.\<close>

definition pte_of :: "vm \<Rightarrow> u32 \<Rightarrow> u32 \<Rightarrow> u32" where
  "pte_of s pd virt = phys_mem s (pt_of s (pd, pd_index virt)) (pt_index virt)"

lemma map_page_owned:
  assumes inv: "vm_inv s D ext" and pd: "pd \<in> D" and ow: "owned s pd (pd_index virt)"
    and ph: "frame_ok phys" "0 < ext phys"
  defines "old \<equiv> pte_claim (pte_of s pd virt)"
  shows "vm_inv (vmm_map_page pd virt phys flags s) D (\<lambda>f. (ext(phys := ext phys - 1)) f + count old f)"
proof -
  have x: "(pd, pd_index virt) \<in> slots s D" using pd ow by (simp add: slots_def)
  have p: "frame_ok pd" using inv pd by (auto simp: vm_inv_def vm_wf_def)
  let ?v = "base_of phys OR (flags AND 0xFFF) OR PAGE_PRESENT"
  have eq: "vmm_map_page pd virt phys flags s = wr (pt_of s (pd, pd_index virt)) (pt_index virt) ?v s"
    using ow p by (simp add: vmm_map_page_def Let_def owned_def flag_iff pt_of_def)
  have nw: "pte_claim ?v = {#phys#}"
    using ph(1) new_pte(1,2) [of phys flags] unfolding pte_claim_def frame_ok_def by metis
  show ?thesis unfolding eq
    by (rule pte_step(1) [OF inv x pt_index_bound]) (unfold nw, use ph in \<open>auto simp: old_def pte_of_def\<close>)
qed


text \<open>
  When the slot has no table yet, one is allocated; if that fails nothing happens. An entry
  that is present but not owned belongs to the kernel.
\<close>

lemma map_page_absent:
  assumes inv: "vm_inv s D ext" and pd: "pd \<in> D" and ab: "\<not> bit (phys_mem s pd (pd_index virt)) 0" "\<not> bit (phys_mem s pd (pd_index virt)) 7"
    and ph: "frame_ok phys" "0 < ext phys"
  shows "let s' = vmm_map_page pd virt phys flags s in
    if fst (alloc_frame s) = PMM_ALLOC_ERROR then s' = s
    else owned s' pd (pd_index virt) \<and> vm_inv s' D (ext(phys := ext phys - 1))"
proof -
  let ?i = "pd_index virt" and ?j = "pt_index virt"
  let ?v = "base_of phys OR (flags AND 0xFFF) OR PAGE_PRESENT"
  have p: "frame_ok pd" using inv pd by (auto simp: vm_inv_def vm_wf_def)
  obtain t s1 where al: "alloc_frame s = (t, s1)" by (cases "alloc_frame s")
  note a = alloc_step [OF inv al]
  show ?thesis
  proof (cases "t = PMM_ALLOC_ERROR")
    case True
    then show ?thesis using al ab p a(1) by (simp add: vmm_map_page_def Let_def flag_iff)
  next
    case False
    note a2 = a(2) [OF False]
    then have t: "frame_ok t" "t \<notin> tables s D" "ext t = 0" "t \<noteq> v2p_pd (kernel_pd s)" by blast+
    let ?s2 = "wr_page t (\<lambda>_. 0) s1" and ?e = "t OR PAGE_PRESENT OR PAGE_WRITABLE OR PAGE_USER"
    let ?s3 = "wr pd ?i ?e ?s2"
    have inv1: "vm_inv s1 D (ext(t := 1))" using a2 by blast
    have tp: "t \<noteq> pd" "t \<noteq> phys" using t(2) pd ph(2) t(3) by (auto simp: tables_def)
    have eq: "vmm_map_page pd virt phys flags s = wr (base_of ?e) ?j ?v ?s3"
      using ab p al False t(1) tp(1) by (simp add: vmm_map_page_def Let_def flag_iff rd_def)
    have k7: "\<not> bit (rd s (kernel_pd s) ?i) 7"
      using inv pd ab(2) pd_index_bound by (auto simp: vm_inv_def vm_wf_def)
    have d: "vm_inv ?s2 D (ext(t := 1))" "slots ?s2 D = slots s1 D" "tables ?s2 D = tables s1 D"
      using data_step [OF inv1, of t ?s2 "\<lambda>_. 0"] t a(3,4) claims_cong(5) [of s1 s D]
      by (simp_all add: rd_def fun_eq_iff)
    have s1t: "tables s1 D = tables s D" using claims_cong(5) [of s1 s D] a(3,4) by (simp add: rd_def fun_eq_iff)
    note e = new_pde [OF t(1) [unfolded frame_ok_def, THEN conjunct1]]
    have krd: "rd ?s2 (kernel_pd ?s2) = rd s (kernel_pd s)" using t a(3,4) by (simp add: rd_def fun_eq_iff)
    have pdm: "phys_mem ?s2 pd = phys_mem s pd" using t(1) tp(1) a(3) by simp
    have l1: "\<not> owned ?s2 pd ?i" "\<not> bit (phys_mem ?s2 pd ?i) 7" using ab pdm by (simp_all add: owned_def)
    have l2: "frame_ok (base_of ?e)" "base_of ?e \<notin> tables ?s2 D" using e t s1t d(3) by simp_all
    have l3: "base_of ?e \<noteq> base_of (rd ?s2 (kernel_pd ?s2) ?i)"
      using a2 k7 pd_index_bound unfolding krd e(1) by blast
    have z: "table_claim ?s2 (base_of ?e) = {#}" using t(1) e(1) by (simp add: table_claim_def pte_claim_def)
    have l4: "(ext(t := 0)) f + count (add_mset (base_of ?e) (table_claim ?s2 (base_of ?e))) f = (ext(t := 1)) f" for f
      unfolding z unfolding e(1) by simp
    note l = link_step [OF d(1) pd pd_index_bound l1 e(2,3) l2(1) l3 l2(2) l4]
    have ow: "owned ?s3 pd ?i" using l(2) pd by (auto simp: slots_def)
    have old: "pte_claim (phys_mem ?s3 (pt_of ?s3 (pd, ?i)) ?j) = {#}"
      using l(3) e(1) t(1) p tp(1) by (simp add: pte_claim_def)
    have nw: "pte_claim ?v = {#phys#}"
      using ph(1) new_pte(1,2) [of phys flags] unfolding pte_claim_def frame_ok_def by metis
    have x3: "(pd, ?i) \<in> slots ?s3 D" using l(2) by simp
    have bal: "(ext(phys := ext phys - 1)) f + count (pte_claim ?v) f =
        (ext(t := 0)) f + count (pte_claim (phys_mem ?s3 (pt_of ?s3 (pd, ?i)) ?j)) f" for f
      unfolding old nw using tp(2) ph(2) t(3) by auto
    note w = pte_step [OF l(1) x3 pt_index_bound bal]
    have "vm_inv (wr (pt_of ?s3 (pd, ?i)) ?j ?v ?s3) D (ext(phys := ext phys - 1))" by (rule w(1))
    moreover have "owned (wr (pt_of ?s3 (pd, ?i)) ?j ?v ?s3) pd ?i"
      using x3 unfolding w(2) [symmetric] by (simp add: slots_def)
    ultimately show ?thesis using eq l(3) al False by (simp add: Let_def)
  qed
qed

section \<open>Unmapping, protection, copy-on-write faults\<close>

lemma pd_frame_ok: "vm_inv s D ext \<Longrightarrow> pd \<in> D \<Longrightarrow> frame_ok pd"
  by (auto simp: vm_inv_def vm_wf_def)

lemma owned_entry:
  assumes "vm_inv s D ext" and "pd \<in> D" and "owned s pd (pd_index virt)"
  shows "rd s pd (pd_index virt) AND PAGE_PRESENT \<noteq> 0" "rd s pd (pd_index virt) AND PAGE_LARGE = 0"
    "base_of (rd s pd (pd_index virt)) = pt_of s (pd, pd_index virt)"
    "rd s (pt_of s (pd, pd_index virt)) (pt_index virt) = pte_of s pd virt"
    "(pd, pd_index virt) \<in> slots s D"
  using assms pd_frame_ok [OF assms(1,2)] owned_table [OF assms(3)]
  by (simp_all add: owned_def flag_iff pt_of_def pte_of_def slots_def)

lemma unmap_step:
  assumes inv: "vm_inv s D ext" and pd: "pd \<in> D" and ow: "owned s pd (pd_index virt)"
  shows "vm_inv (vmm_unmap_page pd virt s) D (\<lambda>f. ext f + count (pte_claim (pte_of s pd virt)) f)"
proof (cases "bit (pte_of s pd virt) 0")
  case True
  note o = owned_entry [OF inv pd ow]
  have "vmm_unmap_page pd virt s = wr (pt_of s (pd, pd_index virt)) (pt_index virt) 0 s"
    using o True by (simp add: vmm_unmap_page_def Let_def flag_iff)
  then show ?thesis
    by (simp only:) (rule pte_step(1) [OF inv o(5) pt_index_bound], simp add: pte_claim_def pte_of_def)
next
  case False
  note o = owned_entry [OF inv pd ow]
  then have "vmm_unmap_page pd virt s = s" using False by (simp add: vmm_unmap_page_def Let_def flag_iff)
  with False inv show ?thesis by (simp add: pte_claim_def)
qed

lemma unmap_and_free_step:
  assumes inv: "vm_inv s D ext" and pd: "pd \<in> D" and ow: "owned s pd (pd_index virt)"
  shows "vm_inv (vmm_unmap_and_free pd virt s) D ext"
proof (cases "bit (pte_of s pd virt) 0")
  case True
  note o = owned_entry [OF inv pd ow]
  let ?s = "wr (pt_of s (pd, pd_index virt)) (pt_index virt) 0 s" and ?f = "base_of (pte_of s pd virt)"
  have "vmm_unmap_page pd virt s = ?s"
    using o True by (simp add: vmm_unmap_page_def Let_def flag_iff)
  with unmap_step [OF inv pd ow]
  have inv': "vm_inv ?s D (\<lambda>f. ext f + count (pte_claim (pte_of s pd virt)) f)" by simp
  have eq: "vmm_unmap_and_free pd virt s =
      (if ?f \<noteq> 0 \<and> ?f < VMM_KERNEL_IDMAP_END then free_frame ?f ?s else ?s)"
    using o True by (simp add: vmm_unmap_and_free_def Let_def flag_iff)
  show ?thesis
  proof (cases "?f \<noteq> 0 \<and> ?f < VMM_KERNEL_IDMAP_END")
    case t: True
    then have "frame_ok ?f" by (simp add: frame_ok_def)
    from free_step [OF inv' this] have "vm_inv (free_frame ?f ?s) D ext"
      by (rule vm_inv_ext_cong) (use t True in \<open>auto simp: pte_claim_def\<close>)
    with t eq show ?thesis by simp
  next
    case False
    with inv' eq show ?thesis by (simp add: pte_claim_def)
  qed
next
  case False
  then have "vmm_unmap_and_free pd virt s = s"
    using owned_entry [OF inv pd ow] by (simp add: vmm_unmap_and_free_def Let_def flag_iff)
  with inv show ?thesis by simp
qed

lemma protect_step:
  assumes inv: "vm_inv s D ext" and pd: "pd \<in> D" and ow: "owned s pd (pd_index virt)"
  shows "vm_inv (vmm_protect_page pd virt flags s) D ext"
proof (cases "bit (pte_of s pd virt) 0")
  case True
  note o = owned_entry [OF inv pd ow]
  let ?v = "base_of (pte_of s pd virt) OR (flags AND 0xFFF) OR PAGE_PRESENT"
  have eq: "vmm_protect_page pd virt flags s = wr (pt_of s (pd, pd_index virt)) (pt_index virt) ?v s"
    using o True by (simp add: vmm_protect_page_def Let_def flag_iff)
  have "pte_claim ?v = pte_claim (pte_of s pd virt)" using True unfolding pte_claim_def new_pte(1) by (simp add: new_pte(2) del: bit_or_iff)
  then show ?thesis unfolding eq
    by (intro pte_step(1) [OF inv o(5) pt_index_bound]) (simp add: pte_of_def)
next
  case False
  then have "vmm_protect_page pd virt flags s = s"
    using owned_entry [OF inv pd ow] by (simp add: vmm_protect_page_def Let_def flag_iff)
  with inv show ?thesis by simp
qed

lemma free_wr_commute: "free_frame f (wr p i v s) = wr p i v (free_frame f s)"
  by (simp add: free_frame_def wr_def)

lemma cow_result:
  assumes "base_of b = b"
  shows "base_of (b OR (((e AND 0xFFF) OR 2) AND NOT 0x200)) = b"
    and "bit (b OR (((e AND 0xFFF) OR 2) AND NOT 0x200)) 0 \<longleftrightarrow> bit e 0"
    and "bit (b OR (((e AND 0xFFF) OR 2) AND NOT 0x200)) 1"
    and "bit (b OR (((e AND 0xFFF) OR 2) AND NOT 0x200)) 2 \<longleftrightarrow> bit e 2"
proof -
  have p: "bit b n \<Longrightarrow> 12 \<le> n" for n using assms by (metis bit_base_of)
  show "base_of (b OR (((e AND 0xFFF) OR 2) AND NOT 0x200)) = b"
    using p by (intro bit_word_eqI) (auto simp: entry_bits)
  show "bit (b OR (((e AND 0xFFF) OR 2) AND NOT 0x200)) 0 \<longleftrightarrow> bit e 0"
    "bit (b OR (((e AND 0xFFF) OR 2) AND NOT 0x200)) 1"
    "bit (b OR (((e AND 0xFFF) OR 2) AND NOT 0x200)) 2 \<longleftrightarrow> bit e 2"
    using p [of 0] p [of 1] p [of 2] by (auto simp: entry_bits)
qed

lemma in_claims:
  assumes "x \<in> slots s D" and "j < 1024"
  shows "pte_claim (phys_mem s (pt_of s x) j) \<subseteq># claims s D"
proof -
  have "j \<in> {j. j < (1024 :: u32)}" using assms(2) by simp
  from sum.remove [OF _ this, of "\<lambda>j. pte_claim (phys_mem s (pt_of s x) j)"]
  have "pte_claim (phys_mem s (pt_of s x) j) \<subseteq># slot_claim s x"
    by (simp add: slot_claim_def table_claim_def subset_eq_diff_conv)
  moreover have "slot_claim s x \<subseteq># claims s D"
    using sum.remove [OF finite_slots assms(1), of "slot_claim s"] by (simp add: claims_def)
  ultimately show ?thesis by (rule subset_mset.order_trans)
qed

lemma alloc_keeps:
  assumes "vm_inv s D ext" and "alloc_frame s = (a, s')"
  shows "slots s' D = slots s D" "tables s' D = tables s D" "claims s' D = claims s D" "pt_of s' = pt_of s"
    "pte_of s' = pte_of s" "rd s' = rd s" "owned s' = owned s"
proof -
  note same = alloc_step(3,4) [OF assms]
  show rd': "rd s' = rd s" using same by (simp add: rd_def fun_eq_iff)
  have c: "slots s' D = slots s D" "tables s' D = tables s D" "claims s' D = claims s D"
    using claims_cong(1,4,5) [of s' s D] same rd' by simp_all
  then show "slots s' D = slots s D" "tables s' D = tables s D" "claims s' D = claims s D" .
  show "pt_of s' = pt_of s" using same by (simp add: pt_of_def fun_eq_iff)
  then show "pte_of s' = pte_of s" using same by (simp add: pte_of_def fun_eq_iff)
  show "owned s' = owned s" using same rd' by (simp add: owned_def fun_eq_iff)
qed

text \<open>
  Resolving a copy-on-write fault keeps the accounting: the faulting directory gives up one
  reference to the shared frame and owns its private copy.
\<close>

lemma cow_fault_step:
  assumes inv: "vm_inv s D ext" and pd: "base_of (cr3 s) \<in> D" and ow: "owned s (base_of (cr3 s)) (pd_index va)"
    and ok: "frame_ok (base_of (pte_of s (base_of (cr3 s)) va))"
  shows "vm_inv (snd (try_handle_cow_fault va err s)) D ext"
proof -
  let ?pd = "base_of (cr3 s)" let ?x = "(?pd, pd_index va)" let ?e = "pte_of s ?pd va"
  let ?new = "\<lambda>b. b OR (((?e AND 0xFFF) OR PAGE_WRITABLE) AND NOT VMM_PTE_COW)"
  note o = owned_entry [OF inv pd ow]
  show ?thesis
  proof (cases "err AND PF_ERR_WRITE = 0 \<or> err AND PF_ERR_PRESENT = 0 \<or> \<not> bit ?e 0 \<or> \<not> bit ?e 9")
    case True
    then have "snd (try_handle_cow_fault va err s) = s"
      using o by (auto simp: try_handle_cow_fault_def Let_def flag_iff)
    with inv show ?thesis by simp
  next
    case False
    then have g: "bit ?e 0" by simp
    have cl: "pte_claim ?e = {#base_of ?e#}" using ok g by (simp add: pte_claim_def frame_ok_def)
    show ?thesis
    proof (cases "pmm_ref_count (base_of ?e) (pool s) \<le> 1")
      case True
      have eq: "snd (try_handle_cow_fault va err s) = wr (pt_of s ?x) (pt_index va) (?new (base_of ?e)) s"
        using o False True by (simp add: try_handle_cow_fault_def Let_def flag_iff)
      have "pte_claim (?new (base_of ?e)) = pte_claim ?e"
        unfolding pte_claim_def cow_result(1,2) [OF base_of_base_of] by (rule refl)
      then show ?thesis unfolding eq
        by (intro pte_step(1) [OF inv o(5) pt_index_bound]) (simp add: pte_of_def)
    next
      case shared: False
      obtain a s1 where al: "alloc_frame s = (a, s1)" by (cases "alloc_frame s")
      note as = alloc_step [OF inv al] and ak = alloc_keeps [OF inv al]
      show ?thesis
      proof (cases "a = PMM_ALLOC_ERROR")
        case True
        then have "snd (try_handle_cow_fault va err s) = s1"
          using o False shared al by (simp add: try_handle_cow_fault_def Let_def flag_iff)
        with as(1) True inv show ?thesis by simp
      next
        case got: False
        note a2 = as(2) [OF got]
        then have a: "frame_ok a" "a \<notin> tables s D" "ext a = 0" "a \<notin># claims s D" "a \<noteq> v2p_pd (kernel_pd s)"
          and inv1: "vm_inv s1 D (ext(a := 1))" by blast+
        let ?pg = "phys_mem s1 (v2p_pd (base_of ?e))"
        let ?s2 = "wr_page a ?pg s1"
        have "vm_inv ?s2 D (ext(a := 1))" and sl2: "slots ?s2 D = slots s D" and pt2: "pt_of ?s2 ?x = pt_of s ?x"
          using data_step [OF inv1, of a ?s2 ?pg] a ak as(4) o(5) by simp_all
        note inv2 = this(1)
        have pa: "pt_of s ?x \<noteq> a" using a(2) o(5) by (auto simp: tables_def)
        have old: "phys_mem ?s2 (pt_of ?s2 ?x) (pt_index va) = ?e"
          using a(1) pa pt2 as(3) by (simp add: pte_of_def)
        have nw: "pte_claim (?new a) = {#a#}"
          using a(1) g cow_result(1,2) [of a ?e] unfolding pte_claim_def frame_ok_def by metis
        let ?s3 = "wr (pt_of s ?x) (pt_index va) (?new a) ?s2"
        have inv3: "vm_inv ?s3 D (ext(base_of ?e := ext (base_of ?e) + 1))"
        proof -
          have x2: "?x \<in> slots ?s2 D" using sl2 o(5) by simp
          have "a \<noteq> base_of ?e"
          proof
            assume "a = base_of ?e"
            moreover have "pte_claim ?e \<subseteq># claims s D"
              using in_claims [OF o(5) pt_index_bound [of va]] by (simp add: pte_of_def)
            then have "base_of ?e \<in># claims s D" using cl by simp
            ultimately show False using a(4) by simp
          qed
          then show ?thesis unfolding pt2 [symmetric]
            by (intro pte_step(1) [OF inv2 x2 pt_index_bound]) (unfold old nw cl, use a(3) in auto)
        qed
        have "snd (try_handle_cow_fault va err s) = free_frame (base_of ?e) ?s3"
          using o False shared al got a(1)
          by (simp add: try_handle_cow_fault_def Let_def flag_iff free_wr_commute)
        moreover have "vm_inv (free_frame (base_of ?e) ?s3) D ext"
          by (rule vm_inv_ext_cong [OF free_step [OF inv3 ok]]) auto
        ultimately show ?thesis by simp
      qed
    qed
  qed
qed

section \<open>Creating a directory\<close>

lemma loop_le: "(k :: u32) < n \<Longrightarrow> k + 1 \<le> i \<longleftrightarrow> k < i"
  using unat_inc_below [of k n] by (simp add: word_le_nat_alt word_less_nat_alt Suc_le_eq)

lemma copy_kernel_pdes_mem:
  assumes p: "frame_ok pd" "pd \<noteq> v2p_pd (kernel_pd s)"
  shows "copy_kernel_pdes pd s = s\<lparr>phys_mem := (phys_mem s)(pd := \<lambda>i. if i < 1024 \<and> rd s (kernel_pd s) i \<noteq> 0
    then rd s (kernel_pd s) i else phys_mem s pd i)\<rparr>"
proof -
  let ?K = "rd s (kernel_pd s)"
  have "for_up (\<lambda>i s. if rd s (kernel_pd s) i \<noteq> 0 then wr pd i (rd s (kernel_pd s) i) s else s) k 1024 t =
      t\<lparr>phys_mem := (phys_mem t)(pd := \<lambda>i. if k \<le> i \<and> i < 1024 \<and> ?K i \<noteq> 0 then ?K i else phys_mem t pd i)\<rparr>"
    if "rd t (kernel_pd t) = ?K" "kernel_pd t = kernel_pd s" for k t
    using that
  proof (induction "\<lambda>i s. if rd s (kernel_pd s) i \<noteq> 0 then wr pd i (rd s (kernel_pd s) i) s else s" k "1024 :: u32" t
      rule: for_up.induct)
    case (1 k t)
    let ?b = "\<lambda>i s. if rd s (kernel_pd s) i \<noteq> 0 then wr pd i (rd s (kernel_pd s) i) s else s"
    show ?case
    proof (cases "k < 1024")
      case True
      define t' where "t' = ?b k t"
      have t: "rd t' (kernel_pd t') = ?K" "kernel_pd t' = kernel_pd s"
        using 1(2,3) p by (auto simp: t'_def rd_def fun_eq_iff)
      have mem: "phys_mem t' = (phys_mem t)(pd := \<lambda>i. if i = k \<and> ?K k \<noteq> 0 then ?K k else phys_mem t pd i)"
        "t'\<lparr>phys_mem := m\<rparr> = t\<lparr>phys_mem := m\<rparr>" for m
        using 1(2) p(1) by (auto simp: t'_def wr_def fun_eq_iff)
      have f: "(\<lambda>i. if k + 1 \<le> i \<and> i < 1024 \<and> ?K i \<noteq> 0 then ?K i else phys_mem t' pd i) =
          (\<lambda>i. if k \<le> i \<and> i < 1024 \<and> ?K i \<noteq> 0 then ?K i else phys_mem t pd i)"
        using True by (simp add: fun_eq_iff loop_le [OF True] mem(1)) (auto simp: le_less)
      have "for_up ?b (k + 1) 1024 t' = t\<lparr>phys_mem := (phys_mem t)(pd := \<lambda>i. if k \<le> i \<and> i < 1024 \<and> ?K i \<noteq> 0 then ?K i else phys_mem t pd i)\<rparr>"
        using 1(1) [OF True, folded t'_def, OF t] unfolding f mem(2) unfolding mem(1) fun_upd_upd .
      then have "for_up ?b (k + 1) 1024 (?b k t) = t\<lparr>phys_mem := (phys_mem t)(pd := \<lambda>i. if k \<le> i \<and> i < 1024 \<and> ?K i \<noteq> 0 then ?K i else phys_mem t pd i)\<rparr>"
        by (simp only: t'_def)
      with True show ?thesis by (subst for_up.simps) simp
    next
      case False
      then have "(\<lambda>i. if k \<le> i \<and> i < 1024 \<and> ?K i \<noteq> 0 then ?K i else phys_mem t pd i) = phys_mem t pd"
        by (auto simp: fun_eq_iff dest: order_le_less_trans)
      with False show ?thesis by (subst for_up.simps) simp
    qed
  qed
  from this [of s 0] show ?thesis by (simp add: copy_kernel_pdes_def)
qed

text \<open>A page that holds only the kernel's entries joins the directories.\<close>

lemma add_pd_step:
  assumes inv: "vm_inv s D (ext(pd := 1))" and pd: "frame_ok pd" "pd \<notin> tables s D" "ext pd = 0"
    and page: "phys_mem s pd = (\<lambda>i. if i < 1024 \<and> rd s (kernel_pd s) i \<noteq> 0 then rd s (kernel_pd s) i else 0)"
  shows "vm_inv s (insert pd D) ext" and "slots s (insert pd D) = slots s D"
proof -
  have no: "\<not> owned s pd i" for i using page by (auto simp: owned_def)
  then show sl: "slots s (insert pd D) = slots s D" by (auto simp: slots_def)
  have "pd \<notin> D" using pd(2) by (simp add: tables_def)
  then have "claims s (insert pd D) = add_mset pd (claims s D)" by (simp add: claims_def sl)
  then have "frame_refs (pool s) (f div 0x1000) = ext f + count (claims s (insert pd D)) f" if "frame_ok f" for f
    using inv that pd(3) by (auto simp: vm_inv_def)
  moreover have "vm_wf s (insert pd D)"
    using inv pd page unfolding vm_inv_def vm_wf_def sl by (auto simp: tables_def)
  ultimately show "vm_inv s (insert pd D) ext" using inv by (simp add: vm_inv_def)
qed

lemma create_step:
  assumes inv: "vm_inv s D ext" and cr: "vmm_create_pd s = (pd, s')"
  shows "if pd = 0 then s' = s
    else frame_ok pd \<and> pd \<notin> tables s D \<and> vm_inv s' (insert pd D) ext \<and> slots s' (insert pd D) = slots s D \<and>
      kernel_pd s' = kernel_pd s \<and> cr3 s' = cr3 s \<and> rd s' (kernel_pd s) = rd s (kernel_pd s) \<and> ext pd = 0 \<and>
      pd \<notin># claims s D \<and>
      (\<forall>t. t \<noteq> pd \<longrightarrow> phys_mem s' t = phys_mem s t) \<and>
      phys_mem s' pd = (\<lambda>i. if i < 1024 \<and> rd s (kernel_pd s) i \<noteq> 0 then rd s (kernel_pd s) i else 0)"
proof -
  obtain a s1 where al: "alloc_frame s = (a, s1)" by (cases "alloc_frame s")
  note as = alloc_step [OF inv al] and ak = alloc_keeps [OF inv al]
  show ?thesis
  proof (cases "a = PMM_ALLOC_ERROR")
    case True
    then show ?thesis using cr al as(1) by (simp add: vmm_create_pd_def)
  next
    case False
    note a2 = as(2) [OF False]
    then have a: "frame_ok a" "a \<notin> tables s D" "ext a = 0" "a \<noteq> v2p_pd (kernel_pd s)" "a \<notin># claims s D"
      and inv1: "vm_inv s1 D (ext(a := 1))" by blast+
    let ?s2 = "wr_page a (\<lambda>_. 0) s1"
    have s': "pd = a" "s' = copy_kernel_pdes a ?s2" using cr al False by (auto simp: vmm_create_pd_def)
    have k2: "rd ?s2 (kernel_pd ?s2) = rd s (kernel_pd s)" using a as(3,4) by (simp add: rd_def fun_eq_iff)
    have mem: "phys_mem s' = (phys_mem s)(a := \<lambda>i. if i < 1024 \<and> rd s (kernel_pd s) i \<noteq> 0 then rd s (kernel_pd s) i else 0)"
      "pool s' = pool s1" "kernel_pd s' = kernel_pd s" "cr3 s' = cr3 s"
      using copy_kernel_pdes_mem [OF a(1), of ?s2] a(1,4) as(3-5) k2 by (simp_all add: s' cong: if_cong)
    have "vm_inv s' D (ext(a := 1))" "slots s' D = slots s D" "tables s' D = tables s D"
      using data_step(1,2,3) [OF inv1, of a s'] a mem as(3,4) ak by simp_all
    note d = this
    have rd': "rd s' (kernel_pd s') = rd s (kernel_pd s)" using mem a(4) by (simp add: rd_def fun_eq_iff)
    then have pg: "phys_mem s' a = (\<lambda>i. if i < 1024 \<and> rd s' (kernel_pd s') i \<noteq> 0 then rd s' (kernel_pd s') i else 0)"
      using mem(1) by (simp cong: if_cong)
    have "a \<notin> tables s' D" using a(2) d(3) by simp
    note ad = add_pd_step [OF d(1) a(1) this a(3) pg]
    have "a \<noteq> 0" using a(1) by (simp add: frame_ok_def)
    then show ?thesis using ad d a mem rd' s'(1) by simp
  qed
qed

end
