(* ===== verification/Vmm_Fork.thy ===== *)
theory Vmm_Fork
  imports Vmm_Ops
begin

text \<open>
  Tearing down a directory returns every claim it holds, and cloning one for
  \<^verbatim>\<open>fork\<close> shares every page copy-on-write with one more reference each.
\<close>

section \<open>Teardown\<close>

text \<open>\<open>s'\<close> is \<open>s\<close> after references to the frames in \<open>M\<close> were dropped.\<close>

definition dropped :: "vm \<Rightarrow> u32 multiset \<Rightarrow> vm \<Rightarrow> bool" where
  "dropped s M s' \<longleftrightarrow> (\<exists>q. s' = s\<lparr>pool := q\<rparr> \<and> pmm_inv q \<and> managed_frames q = managed_frames (pool s) \<and>
     (\<forall>f. frame_ok f \<longrightarrow> frame_refs q (f div 0x1000) = frame_refs (pool s) (f div 0x1000) - count M f))"

lemma dropped_refl: "pmm_inv (pool s) \<Longrightarrow> dropped s {#} s"
  unfolding dropped_def by (rule exI [of _ "pool s"]) simp

lemma dropped_trans: "dropped s M t \<Longrightarrow> dropped t N u \<Longrightarrow> dropped s (M + N) u"
  unfolding dropped_def by auto

lemma dropped_inv: "dropped s M t \<Longrightarrow> pmm_inv (pool t)" "dropped s M t \<Longrightarrow> phys_mem t = phys_mem s"
  "dropped s M t \<Longrightarrow> kernel_pd t = kernel_pd s" "dropped s M t \<Longrightarrow> rd t = rd s" "dropped s M t \<Longrightarrow> cr3 t = cr3 s"
  by (auto simp: dropped_def rd_def fun_eq_iff)

lemma dropped_frame:
  assumes inv: "pmm_inv (pool s)" and f: "frame_ok f" shows "dropped s {#f#} (free_frame f s)"
proof -
  let ?q = "pmm_free_frame f (pool s)"
  have "frame_refs ?q (g div 0x1000) = frame_refs (pool s) (g div 0x1000) - count {#f#} g" if "frame_ok g" for g
  proof (cases "g = f")
    case False
    then have "g div 0x1000 \<noteq> f div 0x1000" using page_number_inj [of g f] f that by (auto simp: frame_ok_def)
    with False show ?thesis by (simp add: pmm.refs_free [OF inv])
  qed (simp add: pmm.refs_free [OF inv])
  with pmm.inv_free [OF inv] pmm.managed_free [OF inv] show ?thesis
    unfolding dropped_def free_frame_def by blast
qed

lemma sum_from: "(k :: u32) < n \<Longrightarrow>
    (\<Sum>i | k \<le> i \<and> i < n. g i) = g k + (\<Sum>i | k + 1 \<le> i \<and> i < n. (g i :: 'a :: comm_monoid_add))"
proof -
  assume k: "k < n"
  have "{i. k \<le> i \<and> i < n} = insert k {i. k + 1 \<le> i \<and> i < n}"
    unfolding loop_le [OF k] using k by (auto simp: le_less)
  moreover have "k \<notin> {i. k + 1 \<le> i \<and> i < n}" by (simp add: loop_le [OF k])
  ultimately show ?thesis by simp
qed

lemma for_up_dropped:
  assumes "\<And>i t M. i < n \<Longrightarrow> dropped s M t \<Longrightarrow> dropped t (g i) (body i t)" and "dropped s M t"
  shows "dropped t (\<Sum>i | k \<le> i \<and> i < n. g i) (for_up body k n t)"
  using assms(2)
proof (induction "unat n - unat k" arbitrary: k t M)
  case 0
  then have "\<not> k < n" by (simp add: word_less_nat_alt)
  then have "{i. k \<le> i \<and> i < n} = {}" by (auto dest: order_le_less_trans)
  then have "(\<Sum>i | k \<le> i \<and> i < n. g i) = {#}" by (simp only: sum.empty)
  with \<open>\<not> k < n\<close> 0 show ?case by (subst for_up.simps) (simp add: dropped_refl dropped_inv)
next
  case (Suc d)
  then have k: "k < n" by (simp add: word_less_nat_alt)
  have b: "dropped t (g k) (body k t)" by (rule assms(1) [OF k Suc.prems])
  have "dropped (body k t) (\<Sum>i | k + 1 \<le> i \<and> i < n. g i) (for_up body (k + 1) n (body k t))"
    by (rule Suc.hyps(1) [OF _ dropped_trans [OF Suc.prems b]]) (use Suc.hyps(2) unat_inc_below [OF k] in simp)
  from dropped_trans [OF b this] k show ?case by (subst for_up.simps) (simp add: sum_from)
qed

lemma free_table_dropped:
  assumes "pmm_inv (pool s)" and pt: "frame_ok pt"
  shows "dropped s (table_claim s pt) (free_table pt s)"
proof -
  have "dropped s (\<Sum>i | 0 \<le> i \<and> i < 1024. pte_claim (phys_mem s pt i)) (free_table pt s)"
    unfolding free_table_def
  proof (rule for_up_dropped)
    fix i :: u32 and t M
    assume "i < 1024" and d: "dropped s M t"
    let ?e = "phys_mem s pt i"
    note dropped_inv [OF d]
    moreover have "frame_ok (base_of ?e)" if "base_of ?e \<noteq> 0" "base_of ?e < VMM_KERNEL_IDMAP_END"
      using that by (simp add: frame_ok_def)
    ultimately show "dropped t (pte_claim ?e) (let pte = rd t pt i; frame = base_of pte in
        if pte AND PAGE_PRESENT = 0 then t
        else if frame \<noteq> 0 \<and> frame < VMM_KERNEL_IDMAP_END then free_frame frame t else t)"
      using pt by (auto simp: Let_def flag_iff pte_claim_def dropped_refl intro: dropped_frame)
  qed (rule dropped_refl [OF assms(1)])
  then show ?thesis by (simp add: table_claim_def)
qed

lemma free_pde_dropped:
  assumes "pmm_inv (pool s)" and pd: "frame_ok pd" and i: "i < 1024"
  shows "dropped s (if owned s pd i then slot_claim s (pd, i) else {#}) (free_pde pd i s)"
proof (cases "owned s pd i")
  case True
  let ?t = "pt_of s (pd, i)"
  have t: "frame_ok ?t" by (rule owned_table [OF True])
  have "free_pde pd i s = free_frame ?t (free_table ?t s)"
    using True pd by (auto simp: free_pde_def Let_def flag_iff owned_def pt_of_def not_le)
  moreover note ft = free_table_dropped [OF assms(1) t]
  have "dropped s (table_claim s ?t + {#?t#}) (free_frame ?t (free_table ?t s))"
    by (rule dropped_trans [OF ft dropped_frame [OF dropped_inv(1) [OF ft] t]])
  ultimately show ?thesis using True by (simp add: slot_claim_def)
next
  case False
  then have "free_pde pd i s = s" using pd i by (auto simp: free_pde_def Let_def flag_iff owned_def not_le)
  then show ?thesis using False assms(1) by (simp add: dropped_refl)
qed

lemma free_pd_dropped:
  assumes inv: "pmm_inv (pool s)" and pd: "frame_ok pd"
  shows "dropped s (claims s {pd}) (vmm_free_pd pd s)"
proof -
  let ?g = "\<lambda>i. if owned s pd i then slot_claim s (pd, i) else {#}"
  have l: "dropped s (\<Sum>i | 0 \<le> i \<and> i < 1024. ?g i) (for_up (free_pde pd) 0 1024 s)"
  proof (rule for_up_dropped)
    fix i :: u32 and t M
    assume i: "i < 1024" and d: "dropped s M t"
    note di = dropped_inv [OF d]
    have "owned t pd i = owned s pd i" "slot_claim t (pd, i) = slot_claim s (pd, i)"
      using di by (simp_all add: owned_def slot_claim_def table_claim_def pt_of_def)
    with free_pde_dropped [OF di(1) pd i] show "dropped t (?g i) (free_pde pd i t)" by (simp only:)
  qed (rule dropped_refl [OF inv])
  have "slots s {pd} = (\<lambda>i. (pd, i)) ` {i. i < 1024 \<and> owned s pd i}"
    by (auto simp: slots_def owned_def)
  then have "(\<Sum>x \<in> slots s {pd}. slot_claim s x) = (\<Sum>i | i < 1024 \<and> owned s pd i. slot_claim s (pd, i))"
    by (simp add: sum.reindex inj_on_def)
  also have "\<dots> = (\<Sum>i | 0 \<le> i \<and> i < 1024. ?g i)" by (intro sum.mono_neutral_cong_left) auto
  finally have "claims s {pd} = (\<Sum>i | 0 \<le> i \<and> i < 1024. ?g i) + {#pd#}" by (simp add: claims_def)
  with dropped_trans [OF l dropped_frame [OF dropped_inv(1) [OF l] pd]]
  show ?thesis by (simp add: vmm_free_pd_def)
qed

lemma claims_split:
  assumes "pd \<in> D" shows "claims s D = claims s (D - {pd}) + claims s {pd}"
proof -
  have "slots s D = slots s (D - {pd}) \<union> slots s {pd}" "slots s (D - {pd}) \<inter> slots s {pd} = {}"
    using assms by (auto simp: slots_def)
  then have "(\<Sum>x \<in> slots s D. slot_claim s x) = (\<Sum>x \<in> slots s (D - {pd}). slot_claim s x) + (\<Sum>x \<in> slots s {pd}. slot_claim s x)"
    by (simp add: sum.union_disjoint)
  moreover have "mset_set D = add_mset pd (mset_set (D - {pd}))"
    using assms by (metis finite_class.finite_UNIV finite_subset mset_set.remove subset_UNIV)
  ultimately show ?thesis by (simp add: claims_def)
qed

lemma vm_wf_mono: "vm_wf s D \<Longrightarrow> E \<subseteq> D \<Longrightarrow> vm_wf s E"
proof -
  assume wf: "vm_wf s D" and sub: "E \<subseteq> D"
  then have sl: "slots s E \<subseteq> slots s D" by (auto simp: slots_def)
  then have "inj_on (pt_of s) (slots s E)" using wf inj_on_subset by (auto simp: vm_wf_def)
  with wf sub sl show "vm_wf s E" unfolding vm_wf_def by (meson subsetD)
qed

text \<open>Tearing down a directory returns exactly its claims and leaves every other directory alone.\<close>

lemma free_pd_step:
  assumes inv: "vm_inv s D ext" and pd: "pd \<in> D"
  shows "vm_inv (vmm_free_pd pd s) (D - {pd}) ext"
proof -
  have ok: "frame_ok pd" by (rule pd_frame_ok [OF inv pd])
  have p: "pmm_inv (pool s)" using inv by (simp add: vm_inv_def)
  obtain q where q: "vmm_free_pd pd s = s\<lparr>pool := q\<rparr>" "pmm_inv q" "managed_frames q = managed_frames (pool s)"
    "\<And>f. frame_ok f \<Longrightarrow> frame_refs q (f div 0x1000) = frame_refs (pool s) (f div 0x1000) - count (claims s {pd}) f"
    using free_pd_dropped [OF p ok] by (auto simp: dropped_def)
  let ?ext = "\<lambda>f. ext f + count (claims s {pd}) f"
  have "vm_wf s (D - {pd})" using inv vm_wf_mono [of s D "D - {pd}"] by (auto simp: vm_inv_def)
  then have "vm_inv s (D - {pd}) ?ext"
    using inv claims_split [OF pd, of s] by (simp add: vm_inv_def)
  then show ?thesis
    by (rule pool_step [OF _ q(1-3)]) (use inv claims_split [OF pd, of s] q(4) in \<open>auto simp: vm_inv_def\<close>)
qed

section \<open>Cloning one page table\<close>

definition cow :: "u32 \<Rightarrow> u32" where
  "cow e = (if bit e 0 then (e AND NOT PAGE_WRITABLE) OR VMM_PTE_COW else e)"

lemma cow_facts: "base_of (cow e) = base_of e" "bit (cow e) 0 \<longleftrightarrow> bit e 0" "bit (cow e) 2 \<longleftrightarrow> bit e 2"
  "pte_claim (cow e) = pte_claim e" "bit e 0 \<Longrightarrow> bit (cow e) 9 \<and> \<not> bit (cow e) 1"
proof -
  have c: "cow e = (e AND NOT 2) OR 0x200" if "bit e 0" using that by (simp only: cow_def if_True)
  show b: "base_of (cow e) = base_of e" by (cases "bit e 0") (simp_all only: c cow_pte, simp add: cow_def)
  show p: "bit (cow e) 0 \<longleftrightarrow> bit e 0" by (cases "bit e 0") (simp_all only: c cow_pte, simp add: cow_def)
  show "bit (cow e) 2 \<longleftrightarrow> bit e 2" by (cases "bit e 0") (simp_all only: c cow_pte, simp add: cow_def)
  show "pte_claim (cow e) = pte_claim e" by (simp only: pte_claim_def b p)
  show "bit (cow e) 9 \<and> \<not> bit (cow e) 1" if "bit e 0" by (simp only: c [OF that] cow_pte not_False_eq_True conj_absorb simp_thms)
qed

text \<open>The state of the inner loop before entry \<open>k\<close>, relative to its start \<open>s\<close>.\<close>

definition copying :: "vm \<Rightarrow> u32 set \<Rightarrow> (u32 \<Rightarrow> nat) \<Rightarrow> u32 \<Rightarrow> u32 \<Rightarrow> u32 \<Rightarrow> vm \<Rightarrow> bool" where
  "copying s D ext ppt c k t \<longleftrightarrow>
     vm_inv t D (\<lambda>f. ext f + count (\<Sum>j | j < k. pte_claim (phys_mem s ppt j)) f) \<and>
     phys_mem t = (phys_mem s)
       (ppt := \<lambda>j. if j < k then cow (phys_mem s ppt j) else phys_mem s ppt j,
        c := \<lambda>j. if j < k \<and> bit (phys_mem s ppt j) 0 then cow (phys_mem s ppt j) else 0) \<and>
     kernel_pd t = kernel_pd s \<and> cr3 t = cr3 s \<and> slots t D = slots s D \<and> tables t D = tables s D \<and>
     claims t D = claims s D"

lemma sum_upto: "(k :: u32) < n \<Longrightarrow> (\<Sum>j | j < k + 1. g j) = g k + (\<Sum>j | j < k. (g j :: 'a :: comm_monoid_add))"
proof -
  assume k: "k < n"
  have "j < k + 1 \<longleftrightarrow> j < k \<or> j = k" for j
    using unat_inc_below [OF k] by (auto simp: word_less_nat_alt less_Suc_eq)
  then have "{j. j < k + 1} = insert k {j. j < k}" by auto
  then show ?thesis by simp
qed

lemma partial_claim: "k < 1024 \<Longrightarrow>
  count (\<Sum>j | j < k. pte_claim (phys_mem s pt j)) f + count (pte_claim (phys_mem s pt k)) f \<le> count (table_claim s pt) f"
proof -
  assume k: "k < 1024"
  have "(\<Sum>j | j < k + 1. pte_claim (phys_mem s pt j)) \<subseteq># (\<Sum>j | j < (1024 :: u32). pte_claim (phys_mem s pt j))"
  proof -
    have "{j. j < k + 1} \<subseteq> {j. j < (1024 :: u32)}"
      using unat_inc_below [OF k] k by (auto simp: word_less_nat_alt)
    from sum.subset_diff [OF this, of "\<lambda>j. pte_claim (phys_mem s pt j)"] show ?thesis by simp
  qed
  then have "count (\<Sum>j | j < k + 1. pte_claim (phys_mem s pt j)) f \<le> count (table_claim s pt) f"
    unfolding table_claim_def by (rule mset_subset_eq_count)
  then show ?thesis unfolding sum_upto [OF k] by simp
qed

lemma pool_only:
  assumes "s' = s\<lparr>pool := q\<rparr>"
  shows "slots s' D = slots s D" "tables s' D = tables s D" "claims s' D = claims s D" "pt_of s' = pt_of s"
    "phys_mem s' = phys_mem s" "kernel_pd s' = kernel_pd s" "cr3 s' = cr3 s" "rd s' = rd s"
proof -
  show m: "phys_mem s' = phys_mem s" "kernel_pd s' = kernel_pd s" "cr3 s' = cr3 s" using assms by simp_all
  show r: "rd s' = rd s" using m by (simp add: rd_def fun_eq_iff)
  show "pt_of s' = pt_of s" using m by (simp add: pt_of_def fun_eq_iff)
  show "slots s' D = slots s D" "tables s' D = tables s D" "claims s' D = claims s D"
    using claims_cong(1,5,4) [of s' s D] m r by simp_all
qed

lemma inc_ref_any:
  assumes inv: "vm_inv s D ext" and x: "x \<in> slots s D" and j: "j < 1024"
    and e: "e = phys_mem s (pt_of s x) j" "bit e 0"
    and sat: "\<And>f. f \<in># pte_claim e \<Longrightarrow> ext f + count (claims s D) f < 255"
  shows "vm_inv (inc_ref (base_of e) s) D (\<lambda>f. ext f + count (pte_claim e) f)"
proof (cases "frame_ok (base_of e)")
  case True
  then have c: "pte_claim e = {#base_of e#}" using e(2) by (simp add: pte_claim_def frame_ok_def)
  have "base_of e \<in># claims s D" using in_claims [OF x j] e(1) c by simp
  then have "vm_inv (inc_ref (base_of e) s) D (ext(base_of e := ext (base_of e) + 1))"
    using sat [of "base_of e"] c by (intro inc_step [OF inv True]) simp_all
  then show ?thesis by (rule vm_inv_ext_cong) (simp add: c)
next
  case False
  then have "pte_claim e = {#}" by (auto simp: pte_claim_def frame_ok_def)
  with inc_step_outside [OF inv _ False] show ?thesis by simp
qed

lemma copying_step:
  assumes cp: "copying s D ext (pt_of s x) c k t" and wf: "vm_wf s D" and x: "x \<in> slots s D" and k: "k < 1024"
    and c: "frame_ok c" "c \<notin> tables s D" "c \<noteq> v2p_pd (kernel_pd s)"
    and user: "bit (phys_mem s (pt_of s x) k) 0 \<Longrightarrow> bit (phys_mem s (pt_of s x) k) 2"
    and sat: "\<And>f. frame_ok f \<Longrightarrow> ext f + count (claims s D) f + count (table_claim s (pt_of s x)) f \<le> 255"
  shows "copying s D ext (pt_of s x) c (k + 1) (clone_pte (pt_of s x) c k t)"
proof -
  let ?p = "pt_of s x" let ?P = "phys_mem s ?p" let ?e = "?P k"
  let ?ext = "\<lambda>k f. ext f + count (\<Sum>j | j < k. pte_claim (?P j)) f"
  have pc: "?p \<noteq> c" "frame_ok ?p" using c(2) x owned_table by (auto simp: tables_def slots_def)
  have inv: "vm_inv t D (?ext k)" and mem: "phys_mem t = (phys_mem s)
       (?p := \<lambda>j. if j < k then cow (?P j) else ?P j, c := \<lambda>j. if j < k \<and> bit (?P j) 0 then cow (?P j) else 0)"
    and kp: "kernel_pd t = kernel_pd s" "cr3 t = cr3 s" and sl: "slots t D = slots s D" "tables t D = tables s D" "claims t D = claims s D"
    using cp by (simp_all add: copying_def)
  have lt: "j < k + 1 \<longleftrightarrow> j < k \<or> j = k" for j
    using unat_inc_below [OF k] by (auto simp: word_less_nat_alt less_Suc_eq)
  have ext1: "?ext (k + 1) f = ?ext k f + count (pte_claim ?e) f" for f unfolding sum_upto [OF k] by simp
  have rdt: "phys_mem t ?p k = ?e" "pt_of t x = ?p"
  proof -
    show "phys_mem t ?p k = ?e" using mem pc(1) by simp
    have "fst x \<in> D" "?p \<notin> D" "c \<notin> D" using x c(2) wf by (auto simp: tables_def slots_def vm_wf_def)
    then have "fst x \<noteq> ?p" "fst x \<noteq> c" by auto
    then show "pt_of t x = ?p" using mem by (simp add: pt_of_def)
  qed
  show ?thesis
  proof (cases "bit ?e 0")
    case False
    then have "clone_pte ?p c k t = t" "pte_claim ?e = {#}" "cow ?e = ?e"
      using pc rdt by (simp_all add: clone_pte_def flag_iff pte_claim_def cow_def)
    moreover have "(\<lambda>j. if j < k + 1 then cow (?P j) else ?P j) = (\<lambda>j. if j < k then cow (?P j) else ?P j)"
      "(\<lambda>j. if j < k + 1 \<and> bit (?P j) 0 then cow (?P j) else 0) = (\<lambda>j. if j < k \<and> bit (?P j) 0 then cow (?P j) else 0)"
      using False calculation(3) by (auto simp: fun_eq_iff lt)
    ultimately show ?thesis using cp unfolding copying_def sum_upto [OF k] by simp
  next
    case True
    let ?t1 = "inc_ref (base_of ?e) t" let ?t2 = "wr ?p k (cow ?e) ?t1" let ?t3 = "wr c k (cow ?e) ?t2"
    have xt: "x \<in> slots t D" using x sl by simp
    have s1: "f \<in># pte_claim ?e \<Longrightarrow> ?ext k f + count (claims t D) f < 255" for f
      using sat [of f] partial_claim [OF k, of s ?p f] sl(3) by (auto simp: pte_claim_def frame_ok_def split: if_splits)
    have inv1: "vm_inv ?t1 D (?ext (k + 1))"
      by (rule vm_inv_ext_cong [OF inc_ref_any [OF inv xt k _ True s1]]) (simp_all add: rdt ext1 del: sum.insert)
    note po = pool_only [where s' = ?t1 and s = t, OF inc_ref_def]
    have x1: "x \<in> slots ?t1 D" using xt po(1) by simp
    have pt1: "pt_of ?t1 x = ?p" using po(4) rdt by simp
    have "vm_inv ?t2 D (?ext (k + 1))" "slots ?t2 D = slots s D" "tables ?t2 D = tables s D" "claims ?t2 D = claims s D"
      using pte_step [OF inv1 x1 k, of "?ext (k + 1)" "cow ?e"] po rdt sl by (simp_all add: cow_facts pt1)
    note t2 = this
    have mem3: "phys_mem ?t3 = (phys_mem ?t2)(c := (phys_mem ?t2 c)(k := cow ?e))" using c(1) by simp
    have t3: "vm_inv ?t3 D (?ext (k + 1))" "slots ?t3 D = slots ?t2 D" "tables ?t3 D = tables ?t2 D" "claims ?t3 D = claims ?t2 D"
      using data_step [OF t2(1), of c ?t3] c t2(3) kp po(6) mem3 by simp_all
    have a: "(\<lambda>j. if j < k + 1 then cow (?P j) else ?P j) = (\<lambda>j. if j < k then cow (?P j) else ?P j)(k := cow ?e)"
      "(\<lambda>j. if j < k + 1 \<and> bit (?P j) 0 then cow (?P j) else 0) =
        (\<lambda>j. if j < k \<and> bit (?P j) 0 then cow (?P j) else 0)(k := cow ?e)"
      using True by (auto simp: fun_eq_iff lt)
    have "phys_mem ?t3 = (phys_mem s)(?p := \<lambda>j. if j < k + 1 then cow (?P j) else ?P j,
        c := \<lambda>j. if j < k + 1 \<and> bit (?P j) 0 then cow (?P j) else 0)"
      unfolding a using c(1) pc mem po(5) by (simp add: fun_eq_iff)
    moreover have "clone_pte ?p c k t = ?t3"
      using True user [OF True] pc rdt by (simp add: clone_pte_def Let_def flag_iff cow_def)
    ultimately show ?thesis unfolding copying_def using t2 t3 kp po(6,7) by simp
  qed
qed

lemma clone_table_step:
  assumes inv: "vm_inv s D ext" and x: "x \<in> slots s D"
    and c: "frame_ok c" "c \<notin> tables s D" "c \<noteq> v2p_pd (kernel_pd s)" "phys_mem s c = (\<lambda>_. 0)"
    and user: "\<And>j. j < 1024 \<Longrightarrow> bit (phys_mem s (pt_of s x) j) 0 \<Longrightarrow> bit (phys_mem s (pt_of s x) j) 2"
    and sat: "\<And>f. frame_ok f \<Longrightarrow> ext f + count (claims s D) f + count (table_claim s (pt_of s x)) f \<le> 255"
  shows "copying s D ext (pt_of s x) c 1024 (for_up (clone_pte (pt_of s x) c) 0 1024 s)"
proof (rule for_up_inv)
  show "copying s D ext (pt_of s x) c 0 s"
    using inv c(4) unfolding copying_def by (simp add: fun_eq_iff)
  show "copying s D ext (pt_of s x) c (i + 1) (clone_pte (pt_of s x) c i t)"
    if "0 \<le> i" "i < 1024" "copying s D ext (pt_of s x) c i t" for i t
    using inv by (intro copying_step [OF that(3) _ x that(2) c(1-3) user [OF that(2)] sat]) (simp_all add: vm_inv_def)
qed simp

section \<open>Cloning a directory\<close>

text \<open>The contents a page table and its copy end up with.\<close>

definition cow_page :: "page \<Rightarrow> page" where
  "cow_page P = (\<lambda>j. if j < 1024 then cow (P j) else P j)"

definition cow_copy :: "page \<Rightarrow> page" where
  "cow_copy P = (\<lambda>j. if j < 1024 \<and> bit (P j) 0 then cow (P j) else 0)"

lemma cow_copy_claim: "(\<Sum>j | j < (1024 :: u32). pte_claim (cow_copy P j)) = (\<Sum>j | j < (1024 :: u32). pte_claim (P j))"
  by (rule sum.cong) (auto simp: cow_copy_def cow_facts, simp add: pte_claim_def)

lemma sum_subseteq_mset:
  "(\<And>x. x \<in> A \<Longrightarrow> f x \<subseteq># g x) \<Longrightarrow> (\<Sum>x \<in> A. f x) \<subseteq># (\<Sum>x \<in> A. g x :: 'b multiset)"
proof (induction A rule: infinite_finite_induct)
  case (insert x A)
  then show ?case by (simp add: subset_mset.add_mono)
qed auto

definition pending_claim :: "vm \<Rightarrow> u32 \<Rightarrow> u32 \<Rightarrow> u32 multiset" where
  "pending_claim s parent i =
     (\<Sum>m | i \<le> m \<and> m < 1024. if owned s parent m then table_claim s (pt_of s (parent, m)) else {#})"

text \<open>The walk before directory entry \<open>i\<close>, relative to its start \<open>s\<close>.\<close>

definition cloning :: "vm \<Rightarrow> u32 \<Rightarrow> u32 \<Rightarrow> u32 set \<Rightarrow> (u32 \<Rightarrow> nat) \<Rightarrow> u32 \<Rightarrow> vm \<Rightarrow> bool" where
  "cloning s parent child D ext i t \<longleftrightarrow>
     vm_inv t (insert child D) ext \<and> kernel_pd t = kernel_pd s \<and> cr3 t = cr3 s \<and>
     rd t (kernel_pd s) = rd s (kernel_pd s) \<and>
     (\<forall>pd \<in> D. phys_mem t pd = phys_mem s pd) \<and>
     (\<forall>m. owned t child m \<longleftrightarrow> m < i \<and> owned s parent m) \<and>
     (\<forall>m. i \<le> m \<longrightarrow> phys_mem t child m = phys_mem s child m) \<and>
     (\<forall>m. m < i \<and> owned s parent m \<longrightarrow>
        phys_mem t (pt_of t (child, m)) = cow_copy (phys_mem s (pt_of s (parent, m)))) \<and>
     (\<forall>m. owned s parent m \<longrightarrow> phys_mem t (pt_of s (parent, m)) =
        (if m < i then cow_page else id) (phys_mem s (pt_of s (parent, m)))) \<and>
     (\<forall>x \<in> slots s D. fst x \<noteq> parent \<longrightarrow> phys_mem t (pt_of s x) = phys_mem s (pt_of s x)) \<and>
     (\<forall>f. frame_ok f \<longrightarrow> ext f + count (claims t (insert child D)) f + count (pending_claim s parent i) f \<le> 255)"

lemma cloning_slots:
  assumes "cloning s parent child D ext i t" and "pd \<in> D"
  shows "owned t pd m \<longleftrightarrow> owned s pd m" and "pt_of t (pd, m) = pt_of s (pd, m)"
  using assms by (auto simp: cloning_def owned_def pt_of_def)

lemma pending_claim_step:
  "i < 1024 \<Longrightarrow> pending_claim s parent i =
    (if owned s parent i then table_claim s (pt_of s (parent, i)) else {#}) + pending_claim s parent (i + 1)"
  unfolding pending_claim_def by (rule sum_from)

lemma pending_in_claims:
  assumes "parent \<in> D" shows "pending_claim s parent i \<subseteq># claims s D"
proof -
  have "pending_claim s parent i = (\<Sum>m | i \<le> m \<and> m < 1024 \<and> owned s parent m. table_claim s (pt_of s (parent, m)))"
    unfolding pending_claim_def by (rule sum.mono_neutral_cong_right) auto
  also have "\<dots> = (\<Sum>x \<in> (\<lambda>m. (parent, m)) ` {m. i \<le> m \<and> m < 1024 \<and> owned s parent m}. table_claim s (pt_of s x))"
    by (simp add: sum.reindex inj_on_def)
  also have "\<dots> \<subseteq># (\<Sum>x \<in> (\<lambda>m. (parent, m)) ` {m. i \<le> m \<and> m < 1024 \<and> owned s parent m}. slot_claim s x)"
    by (rule sum_subseteq_mset) (simp add: slot_claim_def)
  also have "\<dots> \<subseteq># (\<Sum>x \<in> slots s D. slot_claim s x)"
  proof -
    have "(\<lambda>m. (parent, m)) ` {m. i \<le> m \<and> m < 1024 \<and> owned s parent m} \<subseteq> slots s D"
      using assms by (auto simp: slots_def)
    from sum.subset_diff [OF this finite_slots, of "slot_claim s"] show ?thesis by simp
  qed
  also have "\<dots> \<subseteq># claims s D" by (simp add: claims_def)
  finally show ?thesis .
qed

lemma cow_page_claim: "(\<Sum>j | j < (1024 :: u32). pte_claim (cow_page P j)) = (\<Sum>j | j < (1024 :: u32). pte_claim (P j))"
  by (rule sum.cong) (auto simp: cow_page_def cow_facts)

lemma cloning_claims:
  assumes cl: "cloning s parent child D ext i t" and "child \<notin> D"
  shows "claims s D \<subseteq># claims t (insert child D)"
proof -
  have sl: "slots t D = slots s D" "\<And>x. x \<in> slots s D \<Longrightarrow> pt_of t x = pt_of s x"
    using cloning_slots [OF cl] by (auto simp: slots_def)
  have "table_claim t (pt_of s x) = table_claim s (pt_of s x)" if x: "x \<in> slots s D" for x
  proof (cases "fst x = parent")
    case True
    then obtain m where m: "x = (parent, m)" "owned s parent m" using x by (cases x) (auto simp: slots_def)
    then have "phys_mem t (pt_of s x) = (if m < i then cow_page else id) (phys_mem s (pt_of s x))"
      using cl by (simp add: cloning_def)
    then show ?thesis by (simp add: table_claim_def cow_page_claim split: if_splits)
  next
    case False
    then have "phys_mem t (pt_of s x) = phys_mem s (pt_of s x)" using cl x by (auto simp: cloning_def)
    then show ?thesis by (simp add: table_claim_def)
  qed
  then have "claims t D = claims s D" by (simp add: claims_def sl slot_claim_def cong: sum.cong)
  then show ?thesis using claims_split [of child "insert child D" t] assms(2) by simp
qed

lemma cloning_skip:
  assumes cl: "cloning s parent child D ext i t" and i: "i < 1024" and no: "\<not> owned s parent i"
  shows "cloning s parent child D ext (i + 1) t"
proof -
  have lt: "m < i + 1 \<longleftrightarrow> m < i \<or> m = i" for m
    using unat_inc_below [OF i] by (auto simp: word_less_nat_alt less_Suc_eq)
  have p: "pending_claim s parent i = pending_claim s parent (i + 1)" using pending_claim_step [OF i] no by simp
  show ?thesis
    using cl no unfolding cloning_def lt p loop_le [OF i] by (auto simp: le_less)
qed

text \<open>One owned entry of the parent: allocate, copy, link.\<close>

definition clone_slot :: "vm \<Rightarrow> u32 \<Rightarrow> u32 \<Rightarrow> u32 \<Rightarrow> u32 \<Rightarrow> vm \<Rightarrow> vm" where
  "clone_slot s parent child i c t1 = wr child i (c OR (phys_mem s parent i AND 0xFFF))
      (for_up (clone_pte (pt_of s (parent, i)) c) 0 1024 (wr_page c (\<lambda>_. 0) t1))"

lemma clone_slot_state:
  assumes cl: "cloning s parent child D ext i t" and par: "parent \<in> D" and ch: "child \<notin> D"
      "phys_mem s child i = 0 \<or> phys_mem s child i = rd s (kernel_pd s) i"
    and i: "i < 1024" and ow: "owned s parent i"
    and al: "alloc_frame t = (c, t1)" "c \<noteq> PMM_ALLOC_ERROR"
    and user: "\<And>j. j < 1024 \<Longrightarrow> bit (phys_mem s (pt_of s (parent, i)) j) 0 \<Longrightarrow> bit (phys_mem s (pt_of s (parent, i)) j) 2"
  defines "t4 \<equiv> clone_slot s parent child i c t1" and "p \<equiv> pt_of s (parent, i)"
  shows "vm_inv t4 (insert child D) ext" and "kernel_pd t4 = kernel_pd s" and "cr3 t4 = cr3 s"
    and "phys_mem t4 = (phys_mem t)(p := cow_page (phys_mem s p), c := cow_copy (phys_mem s p),
      child := (phys_mem t child)(i := c OR (phys_mem s parent i AND 0xFFF)))"
    and "slots t4 (insert child D) = insert (child, i) (slots t (insert child D))"
    and "claims t4 (insert child D) = claims t (insert child D) + add_mset c (table_claim s p)"
    and "c \<notin> tables t (insert child D)" and "c \<noteq> v2p_pd (kernel_pd s)" and "pt_of t4 (child, i) = c"
    and "c \<notin># claims t (insert child D)" and "ext c = 0"
proof -
  let ?D = "insert child D" let ?x = "(parent, i)" let ?P = "phys_mem s p"
  let ?e = "c OR (phys_mem s parent i AND 0xFFF)"
  have inv: "vm_inv t ?D ext" and kp: "kernel_pd t = kernel_pd s" "cr3 t = cr3 s" "rd t (kernel_pd s) = rd s (kernel_pd s)"
    and cho: "\<not> owned t child i" and chm: "phys_mem t child i = phys_mem s child i"
    and pap: "phys_mem t p = ?P" and dirs: "phys_mem t parent = phys_mem s parent"
    and sat: "\<And>f. frame_ok f \<Longrightarrow> ext f + count (claims t ?D) f + count (pending_claim s parent i) f \<le> 255"
    using cl ow par by (auto simp: cloning_def p_def)
  have wf: "vm_wf t ?D" using inv by (simp add: vm_inv_def)
  have pt: "pt_of t ?x = p" and xt: "?x \<in> slots t ?D"
    using cloning_slots [OF cl par] ow par by (auto simp: slots_def p_def)
  note as = alloc_step [OF inv al(1)] and ak = alloc_keeps [OF inv al(1)]
  note a2 = as(2) [OF al(2)]
  have c: "frame_ok c" "c \<notin> tables t ?D" "c \<notin># claims t ?D" "ext c = 0" "c \<noteq> v2p_pd (kernel_pd t)"
    and ck: "\<not> bit (rd t (kernel_pd t) i) 7 \<Longrightarrow> c \<noteq> base_of (rd t (kernel_pd t) i)"
    and inv1: "vm_inv t1 ?D (ext(c := 1))" using a2 i by blast+
  show "c \<notin> tables t ?D" "c \<noteq> v2p_pd (kernel_pd s)" "c \<notin># claims t ?D" "ext c = 0" using c kp by simp_all
  define t2 where "t2 = wr_page c (\<lambda>_. 0) t1"
  have mem2: "phys_mem t2 = (phys_mem t)(c := \<lambda>_. 0)" "kernel_pd t2 = kernel_pd s" "cr3 t2 = cr3 s"
    using c(1) as(3-5) kp by (simp_all add: t2_def)
  have d2: "vm_inv t2 ?D (ext(c := 1))" "slots t2 ?D = slots t ?D" "tables t2 ?D = tables t ?D" "claims t2 ?D = claims t ?D"
    using data_step(1,2,3,5) [OF inv1, of c t2 "\<lambda>_. 0"] c ak(1-3) as(3,4) mem2 kp(1) by (simp_all add: t2_def)
  have "p \<in> tables t ?D" using xt pt by (metis UnCI image_eqI tables_def)
  moreover have "p \<notin> ?D" using wf xt pt by (auto simp: vm_wf_def)
  ultimately have pn: "p \<noteq> c" "frame_ok p" "p \<noteq> child" "p \<notin> D"
    using c(2) owned_table [OF ow] by (auto simp: p_def)
  have pc: "parent \<noteq> c" "child \<noteq> c" using c(2) par by (auto simp: tables_def)
  then have pt2: "pt_of t2 ?x = p" using pt mem2(1) by (simp add: pt_of_def)
  have P2: "phys_mem t2 p = ?P" using pn(1) mem2(1) pap by simp
  then have tc2: "table_claim t2 p = table_claim s p" by (simp add: table_claim_def)
  have tc_le: "count (table_claim s p) f \<le> count (pending_claim s parent i) f" for f
    using pending_claim_step [OF i, of s parent] ow by (simp add: p_def)
  have tc_c: "count (table_claim s p) c = 0"
  proof -
    have "table_claim t p \<subseteq># slot_claim t ?x" by (simp add: slot_claim_def pt)
    also have "\<dots> \<subseteq># claims t ?D" using sum.remove [OF finite_slots xt, of "slot_claim t"] by (simp add: claims_def)
    finally have "table_claim s p \<subseteq># claims t ?D" using pap by (simp add: table_claim_def)
    then show ?thesis using c(3) by (meson count_eq_zero_iff mset_subset_eqD)
  qed
  have sat2: "(ext(c := 1)) f + count (claims t2 ?D) f + count (table_claim t2 (pt_of t2 ?x)) f \<le> 255" if "frame_ok f" for f
    using sat [OF that] tc_le [of f] tc_c c(3,4) unfolding d2(4) pt2 tc2 by (auto simp: not_in_iff)
  have x2: "?x \<in> slots t2 ?D" using xt d2(2) by simp
  have c2: "c \<notin> tables t2 ?D" "c \<noteq> v2p_pd (kernel_pd t2)" "phys_mem t2 c = (\<lambda>_. 0)" using c d2(3) mem2 kp by simp_all
  have user2: "\<And>j. j < 1024 \<Longrightarrow> bit (phys_mem t2 (pt_of t2 ?x) j) 0 \<Longrightarrow> bit (phys_mem t2 (pt_of t2 ?x) j) 2"
    using user P2 pt2 by (simp add: p_def)
  define t3 where "t3 = for_up (clone_pte p c) 0 1024 t2"
  have cp: "copying t2 ?D (ext(c := 1)) p c 1024 t3"
    using clone_table_step [OF d2(1) x2 c(1) c2 user2 sat2] unfolding pt2 t3_def .
  have inv3: "vm_inv t3 ?D (\<lambda>f. (ext(c := 1)) f + count (table_claim s p) f)"
    and mem3: "phys_mem t3 = (phys_mem t)(p := cow_page ?P, c := cow_copy ?P)"
    and k3: "kernel_pd t3 = kernel_pd s" "cr3 t3 = cr3 s" and sl3: "slots t3 ?D = slots t ?D" "tables t3 ?D = tables t ?D" "claims t3 ?D = claims t ?D"
    using cp P2 mem2 d2(2-4) pn(1) unfolding copying_def
    by (simp_all add: table_claim_def cow_page_def cow_copy_def cong: if_cong)
  have t4: "t4 = wr child i ?e t3" by (simp add: t4_def clone_slot_def t3_def t2_def p_def)
  have kf: "v2p_pd (kernel_pd s) \<noteq> p" "v2p_pd (kernel_pd s) \<noteq> c"
    using kernel_not_table(1) [OF inv] kp(1) c(5) xt pt by (auto simp: tables_def)
  have k3': "rd t3 (kernel_pd t3) = rd s (kernel_pd s)"
    using mem3 k3(1) kp kf by (simp add: rd_def fun_eq_iff)
  have chf: "frame_ok child" by (rule pd_frame_ok [OF inv]) simp
  have k7: "\<not> bit (rd s (kernel_pd s) i) 7"
    using wf par i ow kp dirs by (auto simp: vm_wf_def owned_def)
  have ch3: "phys_mem t3 child i = phys_mem s child i" using mem3 pn(3) pc(2) chm by simp
  have "\<not> owned t3 child i" using cho sl3(1) by (auto simp: slots_def set_eq_iff)
  moreover have "\<not> bit (phys_mem t3 child i) 7" using ch3 ch(2) k7 by auto
  moreover note le = linked_pde [OF c(1) [unfolded frame_ok_def, THEN conjunct1], where e = "phys_mem s parent i"]
  have "bit ?e 0" "\<not> bit ?e 7" using le(2) [of 0] le(2) [of 7] ow by (auto simp: owned_def)
  moreover have "frame_ok (base_of ?e)" "base_of ?e \<notin> tables t3 ?D" using le(1) c sl3 by simp_all
  moreover have "base_of ?e \<noteq> base_of (rd t3 (kernel_pd t3) i)" using ck k7 kp le(1) k3' by simp
  moreover have tc3: "table_claim t3 (base_of ?e) = table_claim s p"
    using le(1) mem3 cow_copy_claim [of ?P] by (simp add: table_claim_def)
  moreover have "ext f + count (add_mset (base_of ?e) (table_claim t3 (base_of ?e))) f = (ext(c := 1)) f + count (table_claim s p) f" for f
    unfolding tc3 unfolding le(1) using c(4) by auto
  ultimately have l: "vm_inv (wr child i ?e t3) ?D ext" "slots (wr child i ?e t3) ?D = insert (child, i) (slots t3 ?D)"
    "pt_of (wr child i ?e t3) (child, i) = base_of ?e"
    "claims (wr child i ?e t3) ?D = claims t3 ?D + add_mset (base_of ?e) (table_claim t3 (base_of ?e))"
    using link_step [OF inv3 insertI1 i, of ?e ext] by blast+
  show "vm_inv t4 ?D ext" unfolding t4 by (rule l(1))
  show "kernel_pd t4 = kernel_pd s" "cr3 t4 = cr3 s" using k3 by (simp_all add: t4)
  show "phys_mem t4 = (phys_mem t)(p := cow_page ?P, c := cow_copy ?P, child := (phys_mem t child)(i := ?e))"
    using chf mem3 pn(3) pc(2) by (simp add: t4)
  show "slots t4 ?D = insert (child, i) (slots t ?D)" using l(2) sl3 by (simp add: t4)
  show "claims t4 ?D = claims t ?D + add_mset c (table_claim s p)" using l(4) sl3 tc3 le(1) by (simp add: t4)
  show "pt_of t4 (child, i) = c" using l(3) le(1) by (simp add: t4)
qed

lemma cloning_link:
  assumes cl: "cloning s parent child D ext i t" and wf: "vm_wf s D" and par: "parent \<in> D" and ch: "child \<notin> D" "child \<notin> tables s D"
      "phys_mem s child i = 0 \<or> phys_mem s child i = rd s (kernel_pd s) i"
    and i: "i < 1024" and ow: "owned s parent i"
    and al: "alloc_frame t = (c, t1)" "c \<noteq> PMM_ALLOC_ERROR"
    and user: "\<And>j. j < 1024 \<Longrightarrow> bit (phys_mem s (pt_of s (parent, i)) j) 0 \<Longrightarrow> bit (phys_mem s (pt_of s (parent, i)) j) 2"
  shows "cloning s parent child D ext (i + 1) (clone_slot s parent child i c t1)"
proof -
  let ?D = "insert child D" let ?p = "pt_of s (parent, i)" let ?P = "phys_mem s ?p"
  let ?e = "c OR (phys_mem s parent i AND 0xFFF)"
  define t4 where "t4 = clone_slot s parent child i c t1"
  note cs = clone_slot_state [OF cl par ch(1,3) i ow al user, folded t4_def]
  have inv: "vm_inv t ?D ext" and kp: "kernel_pd t = kernel_pd s" "rd t (kernel_pd s) = rd s (kernel_pd s)"
    and dirs: "\<And>pd. pd \<in> D \<Longrightarrow> phys_mem t pd = phys_mem s pd"
    and cho: "\<And>m. owned t child m \<longleftrightarrow> m < i \<and> owned s parent m"
    and chm: "\<And>m. i \<le> m \<Longrightarrow> phys_mem t child m = phys_mem s child m"
    and chp: "\<And>m. m < i \<Longrightarrow> owned s parent m \<Longrightarrow> phys_mem t (pt_of t (child, m)) = cow_copy (phys_mem s (pt_of s (parent, m)))"
    and pap: "\<And>m. owned s parent m \<Longrightarrow> phys_mem t (pt_of s (parent, m)) = (if m < i then cow_page else id) (phys_mem s (pt_of s (parent, m)))"
    and oth: "\<And>x. x \<in> slots s D \<Longrightarrow> fst x \<noteq> parent \<Longrightarrow> phys_mem t (pt_of s x) = phys_mem s (pt_of s x)"
    and sat: "\<And>f. frame_ok f \<Longrightarrow> ext f + count (claims t ?D) f + count (pending_claim s parent i) f \<le> 255"
    using cl by (auto simp: cloning_def)
  have lt: "m < i + 1 \<longleftrightarrow> m < i \<or> m = i" for m
    using unat_inc_below [OF i] by (auto simp: word_less_nat_alt less_Suc_eq)
  have wft: "vm_wf t ?D" using inv by (simp add: vm_inv_def)
  have Dp: "pd \<noteq> ?p \<and> pd \<noteq> c \<and> pd \<noteq> child" if "pd \<in> D" for pd
    using that wf par ow ch(1) cs(7) by (auto simp: vm_wf_def slots_def tables_def)
  have slD: "(pd, m) \<in> slots t ?D" "pt_of t (pd, m) = pt_of s (pd, m)" if "(pd, m) \<in> slots s D" for pd m
    using that cloning_slots [OF cl, of pd m] by (auto simp: slots_def)
  have tab: "pt_of s x \<noteq> c \<and> pt_of s x \<noteq> child \<and> (x \<noteq> (parent, i) \<longrightarrow> pt_of s x \<noteq> ?p)" if "x \<in> slots s D" for x
  proof -
    obtain pd m where x: "x = (pd, m)" by (cases x)
    have "pt_of s x \<in> tables t ?D" using slD [of pd m] that unfolding x tables_def by (metis UnCI image_eqI)
    moreover have "pt_of s x \<in> tables s D" using that by (simp add: tables_def)
    moreover have "x \<noteq> (parent, i) \<Longrightarrow> pt_of s x \<noteq> ?p"
      using wf that par ow unfolding vm_wf_def inj_on_def by (auto simp: slots_def)
    ultimately show ?thesis using cs(7) ch(2) by blast
  qed
  have pslot: "(parent, m) \<in> slots s D" if "owned s parent m" for m using that par by (simp add: slots_def)
  have "v2p_pd (kernel_pd s) \<noteq> ?p" "v2p_pd (kernel_pd s) \<noteq> child"
    using kernel_not_table(1) [OF inv] slD [OF pslot [OF ow]] kp(1) by (auto simp: tables_def image_iff)
  then have "rd t4 (kernel_pd s) = rd s (kernel_pd s)"
    using cs(4,8) kp(2) by (simp add: rd_def fun_eq_iff)
  moreover have "phys_mem t4 pd = phys_mem s pd" if "pd \<in> D" for pd using Dp [OF that] dirs [OF that] cs(4) by simp
  moreover have "owned t4 child m \<longleftrightarrow> m < i + 1 \<and> owned s parent m" for m
  proof -
    have "(child, m) \<in> slots t4 ?D \<longleftrightarrow> m = i \<or> (child, m) \<in> slots t ?D" using cs(5) by simp
    then have "owned t4 child m \<longleftrightarrow> m = i \<or> owned t child m" by (simp add: slots_def)
    then show ?thesis using cho ow unfolding lt by blast
  qed
  moreover have "phys_mem t4 child m = phys_mem s child m" if "i + 1 \<le> m" for m
    using that chm cs(4) unfolding loop_le [OF i] by auto
  moreover have "phys_mem t4 (pt_of t4 (child, m)) = cow_copy (phys_mem s (pt_of s (parent, m)))"
    if m: "m < i + 1" "owned s parent m" for m
  proof (cases "m = i")
    case True
    have "c \<noteq> child" using cs(7) by (auto simp: tables_def)
    then show ?thesis using True cs(4,9) by simp
  next
    case False
    then have mi: "m < i" using m(1) lt by blast
    have slot: "(child, m) \<in> slots t ?D" using cho mi m(2) by (simp add: slots_def)
    then have "pt_of t (child, m) \<noteq> child" "pt_of t (child, m) \<noteq> c" "pt_of t (child, m) \<noteq> ?p"
    proof -
      show "pt_of t (child, m) \<noteq> child" using slot wft by (auto simp: vm_wf_def)
      show "pt_of t (child, m) \<noteq> c" using slot cs(7) by (auto simp: tables_def)
      have "(child, m) \<noteq> (parent, i)" using par ch(1) by auto
      then show "pt_of t (child, m) \<noteq> ?p"
        using slot slD [OF pslot [OF ow]] wft unfolding vm_wf_def inj_on_def by metis
    qed
    moreover have "pt_of t4 (child, m) = pt_of t (child, m)" using cs(4) False by (simp add: pt_of_def)
    ultimately show ?thesis using cs(4) chp [OF mi m(2)] by simp
  qed
  moreover have "phys_mem t4 (pt_of s (parent, m)) = (if m < i + 1 then cow_page else id) (phys_mem s (pt_of s (parent, m)))"
    if m: "owned s parent m" for m
    using tab [OF pslot [OF m]] pap [OF m] cs(4) unfolding lt by (cases "m = i") auto
  moreover have "phys_mem t4 (pt_of s x) = phys_mem s (pt_of s x)" if "x \<in> slots s D" "fst x \<noteq> parent" for x
    using tab [OF that(1)] oth [OF that] cs(4) that(2) by auto
  moreover have "ext f + count (claims t4 ?D) f + count (pending_claim s parent (i + 1)) f \<le> 255" if f: "frame_ok f" for f
  proof (cases "f = c")
    case True
    have z: "count (claims t ?D) c = 0" using cs(10) by (simp add: not_in_iff)
    have "claims s D \<subseteq># claims t ?D" using cloning_claims [OF cl ch(1)] .
    then have "pending_claim s parent i \<subseteq># claims t ?D"
      using pending_in_claims [OF par] by (rule subset_mset.order_trans [rotated])
    then have "count (pending_claim s parent i) c = 0" using z by (metis le_zero_eq mset_subset_eq_count)
    with z show ?thesis using True cs(6,11) pending_claim_step [OF i, of s parent] ow sat [OF f] by simp
  next
    case False
    then show ?thesis using sat [OF f] cs(6) pending_claim_step [OF i, of s parent] ow by simp
  qed
  ultimately show ?thesis unfolding t4_def [symmetric] cloning_def using cs(1-3) by blast
qed

lemma clone_pdes_walk:
  assumes "cloning s parent child D ext i t" and wf: "vm_wf s D" and par: "parent \<in> D" and ch: "child \<notin> D" "child \<notin> tables s D"
      "\<And>i. phys_mem s child i = 0 \<or> phys_mem s child i = rd s (kernel_pd s) i"
    and user: "\<And>i j. owned s parent i \<Longrightarrow> j < 1024 \<Longrightarrow> bit (phys_mem s (pt_of s (parent, i)) j) 0 \<Longrightarrow>
      bit (phys_mem s (pt_of s (parent, i)) j) 2"
    and "i \<le> 1024"
  shows "case clone_pdes parent child i t of
      (True, t') \<Rightarrow> cloning s parent child D ext 1024 t'
    | (False, t') \<Rightarrow> \<exists>j u. cloning s parent child D ext j u \<and> t' = vmm_free_pd child u"
  using assms(1,8)
proof (induction "1024 - unat i" arbitrary: i t)
  case 0
  then have i: "i = 1024" by (simp add: word_le_nat_alt unat_eq_iff [symmetric] del: unat_eq_iff)
  have "clone_pdes parent child 1024 t = (True, t)" by (subst clone_pdes.simps) simp
  then show ?case using 0 i by simp
next
  case (Suc d)
  then have i: "i < 1024" by (simp add: word_less_nat_alt)
  have i1: "d = 1024 - unat (i + 1)" "i + 1 \<le> 1024"
    using Suc.hyps(2) unat_inc_below [OF i] i by (simp_all add: word_le_nat_alt word_less_nat_alt)
  have pf: "frame_ok parent" using wf par by (auto simp: vm_wf_def)
  have rp: "rd t parent i = phys_mem s parent i" "rd t (kernel_pd t) i = rd s (kernel_pd s) i"
    using Suc.prems(1) par pf by (simp_all add: cloning_def)
  show ?case
  proof (cases "owned s parent i")
    case False
    then have "clone_pdes parent child i t = clone_pdes parent child (i + 1) t"
      using i by (subst clone_pdes.simps) (auto simp: rp Let_def flag_iff owned_def not_less)
    with Suc.hyps(1) [OF i1(1) cloning_skip [OF Suc.prems(1) i False] i1(2)] show ?thesis by simp
  next
    case True
    obtain c t1 where al: "alloc_frame t = (c, t1)" by (cases "alloc_frame t")
    have inv: "vm_inv t (insert child D) ext" using Suc.prems(1) by (simp add: cloning_def)
    have unf: "clone_pdes parent child i t =
        (if c = PMM_ALLOC_ERROR then (False, vmm_free_pd child t1)
         else clone_pdes parent child (i + 1) (clone_slot s parent child i c t1))"
      using i True al
      by (subst clone_pdes.simps) (auto simp: rp Let_def flag_iff owned_def clone_slot_def pt_of_def)
    show ?thesis
    proof (cases "c = PMM_ALLOC_ERROR")
      case err: True
      then have "t1 = t" using alloc_step(1) [OF inv al] by simp
      with unf err Suc.prems(1) show ?thesis by auto
    next
      case ok: False
      have "cloning s parent child D ext (i + 1) (clone_slot s parent child i c t1)"
        by (rule cloning_link [OF Suc.prems(1) wf par ch i True al ok user [OF True]])
      from Suc.hyps(1) [OF i1(1) this i1(2)] unf ok show ?thesis by simp
    qed
  qed
qed

section \<open>What fork gives\<close>

definition mapped :: "vm \<Rightarrow> u32 \<Rightarrow> u32 \<Rightarrow> u32 option" where
  "mapped s pd virt = (if owned s pd (pd_index virt) \<and> bit (pte_of s pd virt) 0 then Some (pte_of s pd virt) else None)"

definition user_ptes :: "vm \<Rightarrow> u32 \<Rightarrow> bool" where
  "user_ptes s pd \<longleftrightarrow> (\<forall>virt e. mapped s pd virt = Some e \<longrightarrow> bit e 2)"

text \<open>Number of mappings of a frame in one directory.\<close>

definition mappings :: "vm \<Rightarrow> u32 \<Rightarrow> u32 \<Rightarrow> nat" where
  "mappings s pd f = count (\<Sum>x \<in> slots s {pd}. table_claim s (pt_of s x)) f"

lemma pending_mappings: "count (pending_claim s pd 0) f = mappings s pd f"
proof -
  have "slots s {pd} = (\<lambda>i. (pd, i)) ` {i. i < 1024 \<and> owned s pd i}" by (auto simp: slots_def owned_def)
  then have "(\<Sum>x \<in> slots s {pd}. table_claim s (pt_of s x)) = (\<Sum>i | i < 1024 \<and> owned s pd i. table_claim s (pt_of s (pd, i)))"
    by (simp add: sum.reindex inj_on_def)
  also have "\<dots> = pending_claim s pd 0" unfolding pending_claim_def by (intro sum.mono_neutral_cong_left) auto
  finally show ?thesis by (simp add: mappings_def)
qed

lemma index_surj: "i < 1024 \<Longrightarrow> j < 1024 \<Longrightarrow> \<exists>virt. pd_index virt = i \<and> pt_index virt = j"
proof -
  assume i: "i < 1024" and j: "j < 1024"
  have b: "bit i n \<Longrightarrow> n < 10" "bit j n \<Longrightarrow> n < 10" for n
  proof -
    have tb: "take_bit 10 k = k" if "k < 1024" for k :: u32
    proof -
      have "unat (take_bit 10 k) = take_bit 10 (unat k)" by (rule unsigned_take_bit_eq)
      also have "\<dots> = unat k" using that by (simp add: word_less_nat_alt take_bit_nat_eq_self)
      finally show ?thesis by simp
    qed
    from tb [OF i] tb [OF j] show "bit i n \<Longrightarrow> n < 10" "bit j n \<Longrightarrow> n < 10" by (metis bit_take_bit_iff)+
  qed
  let ?v = "push_bit 22 i OR push_bit 12 j"
  have "pd_index ?v = i" unfolding pd_index_def
    by (rule bit_word_eqI) (auto simp: bit_simps dest: b)
  moreover have m: "(0x3FF :: u32) = mask 10" by (simp add: mask_eq_exp_minus_1)
  have "pt_index ?v = j" unfolding pt_index_def m
    by (rule bit_word_eqI) (auto simp: bit_simps dest: b)
  ultimately show ?thesis by blast
qed

lemma cloning_start:
  assumes inv: "vm_inv s D ext" and par: "parent \<in> D"
    and sat: "\<forall>f. frame_ok f \<longrightarrow> ext f + count (claims s D) f + mappings s parent f \<le> 255"
    and cr: "vmm_create_pd s = (c, s1)" "c \<noteq> 0"
  shows "cloning s1 parent c D ext 0 s1" and "c \<notin> tables s1 D" and "vm_wf s1 D"
    and "\<And>pd m. pd \<in> D \<Longrightarrow> owned s1 pd m \<longleftrightarrow> owned s pd m" and "\<And>pd m. pd \<in> D \<Longrightarrow> pt_of s1 (pd, m) = pt_of s (pd, m)"
    and "\<And>pd virt. pd \<in> D \<Longrightarrow> owned s pd (pd_index virt) \<Longrightarrow> pte_of s1 pd virt = pte_of s pd virt"
proof -
  have st: "c \<notin> tables s D" "vm_inv s1 (insert c D) ext" "slots s1 (insert c D) = slots s D"
      "kernel_pd s1 = kernel_pd s" "rd s1 (kernel_pd s) = rd s (kernel_pd s)" "ext c = 0" "c \<notin># claims s D"
      "\<And>t. t \<noteq> c \<Longrightarrow> phys_mem s1 t = phys_mem s t"
    using create_step [OF inv cr(1)] cr(2) by simp_all
  have tb: "t \<in> tables s D \<Longrightarrow> phys_mem s1 t = phys_mem s t" for t using st(1,8) by metis
  note cc = claims_cong [OF st(4,5) tb]
  show "c \<notin> tables s1 D" using st(1) cc(5) by simp
  show "vm_wf s1 D" using inv cc(6) by (simp add: vm_inv_def)
  have dir: "phys_mem s1 pd = phys_mem s pd" if "pd \<in> D" for pd using that tb by (simp add: tables_def)
  show ow: "owned s1 pd m \<longleftrightarrow> owned s pd m" if "pd \<in> D" for pd m using dir [OF that] st(4,5) by (simp add: owned_def)
  show pt: "pt_of s1 (pd, m) = pt_of s (pd, m)" if "pd \<in> D" for pd m using dir [OF that] by (simp add: pt_of_def)
  have tm: "phys_mem s1 (pt_of s (pd, m)) = phys_mem s (pt_of s (pd, m))" if "pd \<in> D" "owned s pd m" for pd m
    using that by (intro tb) (auto simp: tables_def slots_def)
  show "pte_of s1 pd virt = pte_of s pd virt" if "pd \<in> D" "owned s pd (pd_index virt)" for pd virt
    using tm [OF that] pt [OF that(1)] by (simp add: pte_of_def)
  have cD: "c \<notin> D" using st(1) by (simp add: tables_def)
  have cl: "claims s1 (insert c D) = add_mset c (claims s D)"
    using cc(3) cD by (simp add: claims_def st(3) cong: sum.cong)
  have pend: "pending_claim s1 parent 0 = pending_claim s parent 0"
    unfolding pending_claim_def using ow [OF par] pt [OF par] tm [OF par]
    by (intro sum.cong) (auto simp: table_claim_def)
  have "ext f + count (claims s1 (insert c D)) f + count (pending_claim s1 parent 0) f \<le> 255" if "frame_ok f" for f
  proof (cases "f = c")
    case True
    have "count (pending_claim s parent 0) c \<le> count (claims s D) c"
      by (rule mset_subset_eq_count [OF pending_in_claims [OF par]])
    then show ?thesis using True st(6,7) cl pend by (simp add: not_in_iff)
  next
    case False
    then show ?thesis using sat that cl pend by (simp add: pending_mappings)
  qed
  moreover have "\<not> owned s1 c m" for m using st(3) cD by (auto simp: slots_def set_eq_iff)
  ultimately show "cloning s1 parent c D ext 0 s1" using st(2) by (simp add: cloning_def)
qed

lemma start_user_ptes:
  assumes inv: "vm_inv s D ext" and par: "parent \<in> D"
    and sat: "\<forall>f. frame_ok f \<longrightarrow> ext f + count (claims s D) f + mappings s parent f \<le> 255"
    and cr: "vmm_create_pd s = (c, s1)" "c \<noteq> 0" and user: "user_ptes s parent"
    and ow: "owned s1 parent i" and j: "j < 1024" and pr: "bit (phys_mem s1 (pt_of s1 (parent, i)) j) 0"
  shows "bit (phys_mem s1 (pt_of s1 (parent, i)) j) 2"
proof -
  note cs = cloning_start [OF inv par sat cr]
  have i: "i < 1024" "owned s parent i" using ow cs(4) [OF par] by (auto simp: owned_def)
  obtain virt where v: "pd_index virt = i" "pt_index virt = j" using index_surj [OF i(1) j] by blast
  have e: "phys_mem s1 (pt_of s1 (parent, i)) j = pte_of s parent virt"
    using cs(6) [OF par, of virt] i(2) v by (simp add: pte_of_def)
  then have "mapped s parent virt = Some (pte_of s parent virt)" using pr i(2) v by (simp add: mapped_def)
  then show ?thesis using user e by (simp add: user_ptes_def)
qed

lemma clone_result:
  assumes cl: "cloning s1 parent c D ext 1024 t" and par: "parent \<in> D"
  shows "mapped t c virt = map_option cow (mapped s1 parent virt)"
    and "mapped t parent virt = map_option cow (mapped s1 parent virt)"
    and "\<And>pd. pd \<in> D \<Longrightarrow> pd \<noteq> parent \<Longrightarrow> mapped t pd virt = mapped s1 pd virt"
proof -
  let ?i = "pd_index virt" let ?j = "pt_index virt"
  note sl = cloning_slots [OF cl]
  have lt: "m < 1024" if "owned s1 parent m" for m using that by (simp add: owned_def)
  have "owned t c ?i \<longleftrightarrow> owned s1 parent ?i" using cl lt by (auto simp: cloning_def)
  moreover have "pte_of t c virt = cow_copy (phys_mem s1 (pt_of s1 (parent, ?i))) ?j" if "owned s1 parent ?i"
    using cl that lt [OF that] by (simp add: cloning_def pte_of_def)
  ultimately show "mapped t c virt = map_option cow (mapped s1 parent virt)"
    using pt_index_bound by (auto simp: mapped_def pte_of_def cow_copy_def cow_facts)
  have "pte_of t parent virt = cow (pte_of s1 parent virt)" if "owned s1 parent ?i"
    using cl that lt [OF that] sl(2) [OF par] pt_index_bound by (simp add: cloning_def pte_of_def cow_page_def)
  then show "mapped t parent virt = map_option cow (mapped s1 parent virt)"
    using sl(1) [OF par] by (auto simp: mapped_def cow_facts)
  fix pd assume pd: "pd \<in> D" "pd \<noteq> parent"
  have "pte_of t pd virt = pte_of s1 pd virt" if "owned s1 pd ?i"
  proof -
    have "(pd, ?i) \<in> slots s1 D" using that pd by (simp add: slots_def)
    then have "phys_mem t (pt_of s1 (pd, ?i)) = phys_mem s1 (pt_of s1 (pd, ?i))"
      using cl pd(2) unfolding cloning_def by (metis fst_conv)
    then show ?thesis using sl(2) [OF pd(1)] by (simp add: pte_of_def)
  qed
  then show "mapped t pd virt = mapped s1 pd virt" using sl(1) [OF pd(1)] by (auto simp: mapped_def)
qed

text \<open>A clone that stops half way has marked some of the parent's pages.\<close>

lemma clone_partial:
  assumes cl: "cloning s1 parent c D ext j u" and ch: "c \<notin> D" and pd: "pd \<in> D"
  shows "mapped (vmm_free_pd c u) pd v \<in> {mapped s1 pd v, map_option cow (mapped s1 pd v)}" "vm_inv (vmm_free_pd c u) D ext"
proof -
  have inv: "vm_inv u (insert c D) ext" using cl by (simp add: cloning_def)
  then show "vm_inv (vmm_free_pd c u) D ext" using free_pd_step [OF inv, of c] ch by simp
  have p: "pmm_inv (pool u)" using inv by (simp add: vm_inv_def)
  note d = dropped_inv [OF free_pd_dropped [OF p pd_frame_ok [OF inv, of c]]]
  note sl = cloning_slots [OF cl pd]
  have m: "mapped (vmm_free_pd c u) pd v = mapped u pd v" using d by (simp add: mapped_def owned_def pte_of_def pt_of_def)
  let ?i = "pd_index v"
  have "pte_of u pd v \<in> {pte_of s1 pd v, cow (pte_of s1 pd v)}" if ow: "owned s1 pd ?i"
  proof (cases "pd = parent")
    case True
    then have "phys_mem u (pt_of s1 (pd, ?i)) \<in> {phys_mem s1 (pt_of s1 (pd, ?i)), cow_page (phys_mem s1 (pt_of s1 (pd, ?i)))}"
      using cl ow by (auto simp: cloning_def)
    then show ?thesis using sl(2) pt_index_bound [of v] by (auto simp: pte_of_def cow_page_def)
  next
    case False
    have "(pd, ?i) \<in> slots s1 D" using ow pd by (simp add: slots_def)
    then have "phys_mem u (pt_of s1 (pd, ?i)) = phys_mem s1 (pt_of s1 (pd, ?i))" using cl False unfolding cloning_def by (metis fst_conv)
    then show ?thesis using sl(2) by (simp add: pte_of_def)
  qed
  then show "mapped (vmm_free_pd c u) pd v \<in> {mapped s1 pd v, map_option cow (mapped s1 pd v)}"
    unfolding m using sl(1) by (auto simp: mapped_def cow_facts)
qed

lemma clone_unfold:
  assumes inv: "vm_inv s D ext" and cr: "vmm_create_pd s = (c, s1)"
  shows "vmm_clone_pd_cow parent s =
      (if c = 0 then (0, s1) else let (ok, t) = clone_pdes parent c 0 s1 in (if ok then c else 0, t))"
proof -
  obtain a s2 where al: "alloc_frame s = (a, s2)" by (cases "alloc_frame s")
  have "a \<noteq> PMM_ALLOC_ERROR \<Longrightarrow> a \<noteq> 0" using alloc_step(2) [OF inv al] by (auto simp: frame_ok_def)
  then show ?thesis using cr al
    by (auto simp: vmm_create_pd_def vmm_clone_pd_cow_def Let_def split: if_splits)
qed

lemma clone_correct:
  assumes inv: "vm_inv s D ext" and par: "parent \<in> D" and user: "user_ptes s parent"
    and sat: "\<forall>f. frame_ok f \<longrightarrow> ext f + count (claims s D) f + mappings s parent f \<le> 255"
    and cl: "vmm_clone_pd_cow parent s = (child, s')"
  shows "if child = 0 then vm_inv s' D ext \<and> (\<forall>pd \<in> D. \<forall>virt. mapped s' pd virt \<in> {mapped s pd virt, map_option cow (mapped s pd virt)})
    else child \<notin> D \<and> vm_inv s' (insert child D) ext \<and>
      (\<forall>virt. mapped s' child virt = map_option cow (mapped s parent virt) \<and>
              mapped s' parent virt = map_option cow (mapped s parent virt)) \<and>
      (\<forall>pd \<in> D - {parent}. \<forall>virt. mapped s' pd virt = mapped s pd virt)"
proof -
  obtain c s1 where cr: "vmm_create_pd s = (c, s1)" by (cases "vmm_create_pd s")
  note cu = clone_unfold [OF inv cr]
  show ?thesis
  proof (cases "c = 0")
    case True
    then show ?thesis using cu cl create_step [OF inv cr] inv by simp
  next
    case False
    note cs = cloning_start [OF inv par sat cr False]
    have c: "c \<notin> D" "\<And>i. phys_mem s1 c i = 0 \<or> phys_mem s1 c i = rd s1 (kernel_pd s1) i"
      using create_step [OF inv cr] False by (auto simp: tables_def)
    have us: "bit (phys_mem s1 (pt_of s1 (parent, i)) j) 2"
      if "owned s1 parent i" "j < 1024" "bit (phys_mem s1 (pt_of s1 (parent, i)) j) 0" for i j
      by (rule start_user_ptes [OF inv par sat cr False user that])
    obtain ok t where w: "clone_pdes parent c 0 s1 = (ok, t)" by (cases "clone_pdes parent c 0 s1")
    have walk: "if ok then cloning s1 parent c D ext 1024 t else \<exists>j u. cloning s1 parent c D ext j u \<and> t = vmm_free_pd c u"
      using clone_pdes_walk [OF cs(1,3) par c(1) cs(2) c(2) us] w by (cases ok) simp_all
    have same: "mapped s1 pd virt = mapped s pd virt" if "pd \<in> D" for pd virt
      using cs(4,6) [OF that] by (auto simp: mapped_def)
    show ?thesis
    proof (cases ok)
      case True
      then have r: "child = c" "s' = t" using cu cl w False by simp_all
      have wk: "cloning s1 parent c D ext 1024 t" using walk True by simp
      have "mapped t c virt = map_option cow (mapped s parent virt) \<and> mapped t parent virt = map_option cow (mapped s parent virt)" for virt
        using clone_result(1,2) [OF wk par] same [OF par] by simp
      moreover have "mapped t pd virt = mapped s pd virt" if "pd \<in> D - {parent}" for pd virt
        using clone_result(3) [OF wk par, of pd] same [of pd] that by simp
      moreover have "vm_inv t (insert c D) ext" using wk by (simp add: cloning_def)
      ultimately show ?thesis using r c(1) False by simp
    next
      case fail: False
      then obtain j u where u: "cloning s1 parent c D ext j u" "t = vmm_free_pd c u" using walk by auto
      have r: "child = 0" "s' = t" using cu cl w False fail by simp_all
      have "mapped s' pd virt \<in> {mapped s pd virt, map_option cow (mapped s pd virt)}" if "pd \<in> D" for pd virt
        using clone_partial(1) [OF u(1) c(1) that] same [OF that] r(2) u(2) by simp
      moreover have "vm_inv s' D ext" using clone_partial(2) [OF u(1) c(1) par] r(2) u(2) by simp
      ultimately show ?thesis using r(1) by simp
    qed
  qed
qed

end
