(* ===== verification/Vmm_Mapped.thy ===== *)
theory Vmm_Mapped
  imports Vmm_Fork
begin

text \<open>
  What the operations on pages do to the mappings, seen as a function from directories and
  addresses to entries.
\<close>

section \<open>Frame conditions\<close>

lemma mapped_cong: "phys_mem s' = phys_mem s \<Longrightarrow> kernel_pd s' = kernel_pd s \<Longrightarrow> mapped s' pd v = mapped s pd v"
  by (simp add: mapped_def owned_def pte_of_def pt_of_def rd_def)

text \<open>Only the directories' own pages, their tables and the kernel directory matter.\<close>

lemma mapped_data:
  assumes k: "kernel_pd s' = kernel_pd s" "rd s' (kernel_pd s) = rd s (kernel_pd s)"
    and t: "\<And>t. t \<in> tables s D \<Longrightarrow> phys_mem s' t = phys_mem s t" and pd: "pd \<in> D"
  shows "mapped s' pd v = mapped s pd v"
proof -
  have p: "phys_mem s' pd = phys_mem s pd" using t pd by (simp add: tables_def)
  then have ow: "owned s' pd i = owned s pd i" for i using k by (simp add: owned_def)
  have "pte_of s' pd v = pte_of s pd v" if "owned s pd (pd_index v)"
  proof -
    have "pt_of s (pd, pd_index v) \<in> tables s D" using that pd by (auto simp: tables_def slots_def)
    then show ?thesis using t p by (simp add: pte_of_def pt_of_def)
  qed
  then show ?thesis by (cases "owned s pd (pd_index v)") (simp_all add: mapped_def ow)
qed

section \<open>Pages\<close>

text \<open>Two addresses lie in one page exactly when both indices agree.\<close>

lemma same_page: "base_of v = base_of w \<longleftrightarrow> pd_index v = pd_index w \<and> pt_index v = pt_index w"
proof
  have m: "(0x3FF :: u32) = mask 10" by (simp add: mask_eq_exp_minus_1)
  have p: "bit (pt_index x) n \<longleftrightarrow> n < 10 \<and> bit x (12 + n)" for x n by (auto simp: pt_index_def m bit_simps)
  have d: "bit (pd_index x) n \<longleftrightarrow> bit x (22 + n)" for x n by (simp add: pd_index_def bit_simps)
  {
    assume b: "base_of v = base_of w"
    have e: "bit v n = bit w n" if "12 \<le> n" for n using arg_cong[OF b, of "\<lambda>x. bit x n"] that by (simp add: bit_base_of)
    show "pd_index v = pd_index w \<and> pt_index v = pt_index w" by (intro conjI bit_word_eqI) (simp_all add: p d e)
  }
  assume a: "pd_index v = pd_index w \<and> pt_index v = pt_index w"
  show "base_of v = base_of w"
  proof (rule bit_word_eqI)
    fix n
    show "bit (base_of v) n = bit (base_of w) n"
    proof (cases "22 \<le> n")
      case True
      then have "bit v n = bit w n" using d[of v "n - 22"] d[of w "n - 22"] a by simp
      then show ?thesis by (simp add: bit_base_of)
    next
      case False
      then show ?thesis using p[of v "n - 12"] p[of w "n - 12"] a by (auto simp: bit_base_of)
    qed
  qed
qed

text \<open>One page of one directory changes to \<open>r\<close>; all other mappings of the directories stay.\<close>

definition remapped :: "vm \<Rightarrow> u32 set \<Rightarrow> u32 \<Rightarrow> u32 \<Rightarrow> u32 option \<Rightarrow> vm \<Rightarrow> bool" where
  "remapped s D pd virt r s' \<longleftrightarrow>
     (\<forall>pd' \<in> D. \<forall>w. mapped s' pd' w = (if pd' = pd \<and> base_of w = base_of virt then r else mapped s pd' w))"

lemma remapped_pool: "remapped s D pd virt r s' \<Longrightarrow> remapped s D pd virt r (s'\<lparr>pool := q\<rparr>)"
  unfolding remapped_def using mapped_cong[of "s'\<lparr>pool := q\<rparr>" s'] by simp

lemma remapped_refl: "mapped s pd virt = r \<Longrightarrow> remapped s D pd virt r s"
  by (auto simp: remapped_def mapped_def same_page pte_of_def)

text \<open>A write to one entry of a table.\<close>

lemma mapped_write:
  assumes inv: "vm_inv s D ext" and pd: "pd \<in> D" and ow: "owned s pd (pd_index virt)"
  shows "remapped s D pd virt (if bit v 0 then Some v else None) (wr (pt_of s (pd, pd_index virt)) (pt_index virt) v s)"
    (is "remapped _ _ _ _ _ ?s")
  unfolding remapped_def
proof (intro ballI allI)
  fix pd' w assume pd': "pd' \<in> D"
  let ?x = "(pd, pd_index virt)" and ?y = "(pd', pd_index w)"
  have x: "?x \<in> slots s D" using pd ow by (simp add: slots_def)
  have wf: "vm_wf s D" using inv by (simp add: vm_inv_def)
  have k: "v2p_pd (kernel_pd s) \<noteq> pt_of s ?x" using kernel_not_table(1) [OF inv] x by (auto simp: tables_def)
  have t: "frame_ok (pt_of s ?x)" "pt_of s ?x \<notin> D" using wf x owned_table by (auto simp: vm_wf_def slots_def)
  have mem: "phys_mem ?s = (phys_mem s)(pt_of s ?x := (phys_mem s (pt_of s ?x))(pt_index virt := v))" using t(1) by simp
  then have p: "phys_mem ?s pd' = phys_mem s pd'" using t(2) pd' by auto
  have kp: "kernel_pd ?s = kernel_pd s" "rd ?s (kernel_pd s) = rd s (kernel_pd s)"
    using k mem by (simp_all add: rd_def fun_eq_iff wr_def)
  have ow': "owned ?s pd' i = owned s pd' i" for i using p kp by (simp add: owned_def)
  have pt: "pt_of ?s ?y = pt_of s ?y" using p by (simp add: pt_of_def)
  show "mapped ?s pd' w = (if pd' = pd \<and> base_of w = base_of virt then if bit v 0 then Some v else None else mapped s pd' w)"
  proof (cases "owned s pd' (pd_index w)")
    case True
    then have y: "?y \<in> slots s D" using pd' by (simp add: slots_def)
    have "inj_on (pt_of s) (slots s D)" using wf by (simp add: vm_wf_def)
    then have "pt_of s ?y = pt_of s ?x \<longleftrightarrow> ?y = ?x" using x y by (metis inj_on_eq_iff)
    then show ?thesis using True ow' pt mem by (auto simp: mapped_def pte_of_def same_page)
  next
    case False
    then show ?thesis using ow' ow by (auto simp: mapped_def same_page)
  qed
qed

lemma page_entry:
  assumes inv: "vm_inv s D ext" and pd: "pd \<in> D" and u: "rd s (kernel_pd s) (pd_index virt) = 0"
  shows "owned s pd (pd_index virt) \<or> phys_mem s pd (pd_index virt) = 0"
  using assms pd_index_bound[of virt] unfolding vm_inv_def vm_wf_def by blast

text \<open>What a page held before: the reference that its entry stands for.\<close>

definition held_by :: "vm \<Rightarrow> u32 \<Rightarrow> u32 \<Rightarrow> u32 multiset" where
  "held_by s pd virt = (case mapped s pd virt of None \<Rightarrow> {#} | Some e \<Rightarrow> pte_claim e)"

lemma held_by_owned: "owned s pd (pd_index virt) \<Longrightarrow> held_by s pd virt = pte_claim (pte_of s pd virt)"
  by (simp add: held_by_def mapped_def pte_claim_def)

lemma held_by_absent: "\<not> owned s pd (pd_index virt) \<Longrightarrow> held_by s pd virt = {#}"
  by (simp add: held_by_def mapped_def)

section \<open>The operations\<close>

lemma map_page_absent_mem:
  assumes pd: "frame_ok pd" and ab: "\<not> bit (phys_mem s pd (pd_index virt)) 0" "\<not> bit (phys_mem s pd (pd_index virt)) 7"
    and al: "alloc_frame s = (t, s1)" "t \<noteq> PMM_ALLOC_ERROR" and t: "frame_ok t" "t \<noteq> pd"
  shows "vmm_map_page pd virt phys flags s = s1\<lparr>phys_mem := (phys_mem s)
    (t := (\<lambda>_. 0)(pt_index virt := base_of phys OR (flags AND 0xFFF) OR PAGE_PRESENT),
     pd := (phys_mem s pd)(pd_index virt := t OR PAGE_PRESENT OR PAGE_WRITABLE OR PAGE_USER))\<rparr>"
proof -
  have s1: "phys_mem s1 = phys_mem s" using al(1) by (auto simp: alloc_frame_def split: prod.splits)
  have e: "base_of (t OR PAGE_PRESENT OR PAGE_WRITABLE OR PAGE_USER) = t"
    by (rule new_pde(1)) (use t(1) in \<open>simp add: frame_ok_def\<close>)
  have "vmm_map_page pd virt phys flags s =
      wr (base_of (rd (wr pd (pd_index virt) (t OR PAGE_PRESENT OR PAGE_WRITABLE OR PAGE_USER) (wr_page t (\<lambda>_. 0) s1)) pd (pd_index virt)))
        (pt_index virt) (base_of phys OR (flags AND 0xFFF) OR PAGE_PRESENT)
        (wr pd (pd_index virt) (t OR PAGE_PRESENT OR PAGE_WRITABLE OR PAGE_USER) (wr_page t (\<lambda>_. 0) s1))"
    using pd ab al by (simp add: vmm_map_page_def Let_def flag_iff rd_def)
  also have "rd (wr pd (pd_index virt) (t OR PAGE_PRESENT OR PAGE_WRITABLE OR PAGE_USER) (wr_page t (\<lambda>_. 0) s1)) pd (pd_index virt)
      = t OR PAGE_PRESENT OR PAGE_WRITABLE OR PAGE_USER"
    by (simp add: rd_def wr_def)
  finally show ?thesis unfolding e using pd t s1
    by (simp add: wr_def wr_page_def fun_upd_twist)
qed

lemma mapped_new_table:
  assumes inv: "vm_inv s D ext" and pd: "pd \<in> D" and z: "phys_mem s pd (pd_index virt) = 0"
    and al: "alloc_frame s = (t, s1)" "t \<noteq> PMM_ALLOC_ERROR" and ph: "frame_ok phys" "0 < ext phys"
  shows "remapped s D pd virt (Some (base_of phys OR (flags AND 0xFFF) OR PAGE_PRESENT)) (vmm_map_page pd virt phys flags s)"
  unfolding remapped_def
proof (intro ballI allI)
  let ?s = "vmm_map_page pd virt phys flags s" and ?v = "base_of phys OR (flags AND 0xFFF) OR PAGE_PRESENT"
  let ?e = "t OR PAGE_PRESENT OR PAGE_WRITABLE OR PAGE_USER"
  have a: "frame_ok t" "t \<notin> tables s D" "t \<noteq> v2p_pd (kernel_pd s)" using alloc_step(2) [OF inv al] by blast+
  have p: "frame_ok pd" "t \<noteq> pd" "pd \<noteq> v2p_pd (kernel_pd s)"
    using pd_frame_ok [OF inv pd] a(2) pd kernel_not_table(1) [OF inv] by (auto simp: tables_def)
  have ab: "\<not> bit (phys_mem s pd (pd_index virt)) 0" "\<not> bit (phys_mem s pd (pd_index virt)) 7" using z by simp_all
  note eq = map_page_absent_mem [OF p(1) ab al a(1) p(2), of phys flags]
  have mem: "phys_mem ?s = (phys_mem s)(t := (\<lambda>_. 0)(pt_index virt := ?v), pd := (phys_mem s pd)(pd_index virt := ?e))"
    "kernel_pd ?s = kernel_pd s" unfolding eq using alloc_step(4) [OF inv al(1)] by simp_all
  have k: "rd ?s (kernel_pd s) = rd s (kernel_pd s)" using mem(1) a(3) p(3) by (simp add: rd_def fun_eq_iff)
  have new: "owned ?s pd (pd_index virt)" using map_page_absent [OF inv pd ab ph, of flags] al by (simp add: Let_def)
  fix pd' w assume pd': "pd' \<in> D"
  have t': "t \<noteq> pd'" using a(2) pd' by (auto simp: tables_def)
  show "mapped ?s pd' w = (if pd' = pd \<and> base_of w = base_of virt then Some ?v else mapped s pd' w)"
  proof (cases "pd' = pd \<and> pd_index w = pd_index virt")
    case True
    have "base_of ?e = t" by (rule new_pde(1)) (use a(1) in \<open>simp add: frame_ok_def\<close>)
    then have "pte_of ?s pd w = ((\<lambda>_. 0)(pt_index virt := ?v)) (pt_index w)" using True p(2) by (simp add: pte_of_def pt_of_def mem(1))
    moreover have "mapped s pd w = None" using True z by (simp add: mapped_def owned_def)
    ultimately show ?thesis using True new new_pte(2) [of phys flags] by (auto simp: mapped_def same_page)
  next
    case False
    then have e: "phys_mem ?s pd' (pd_index w) = phys_mem s pd' (pd_index w)" using mem(1) t' by auto
    then have ow: "owned ?s pd' (pd_index w) = owned s pd' (pd_index w)" "pt_of ?s (pd', pd_index w) = pt_of s (pd', pd_index w)"
      using mem(2) k by (simp_all add: owned_def pt_of_def)
    have "pte_of ?s pd' w = pte_of s pd' w" if o: "owned s pd' (pd_index w)"
    proof -
      have "(pd', pd_index w) \<in> slots s D" using o pd' by (simp add: slots_def)
      then have "pt_of s (pd', pd_index w) \<in> tables s D" "pt_of s (pd', pd_index w) \<notin> D"
        using inv by (auto simp: tables_def vm_inv_def vm_wf_def)
      then have "pt_of s (pd', pd_index w) \<noteq> t" "pt_of s (pd', pd_index w) \<noteq> pd" using a(2) pd by auto
      then show ?thesis using ow(2) mem(1) by (simp add: pte_of_def)
    qed
    then have "mapped ?s pd' w = mapped s pd' w" using ow(1) by (cases "owned s pd' (pd_index w)") (simp_all add: mapped_def)
    with False show ?thesis by (auto simp: same_page)
  qed
qed

text \<open>Mapping a page at a user address, on every branch.\<close>

lemma map_page_result:
  fixes flags :: u32
  assumes inv: "vm_inv s D ext" and pd: "pd \<in> D" and u: "rd s (kernel_pd s) (pd_index virt) = 0" and ph: "frame_ok phys" "0 < ext phys"
  defines "s' \<equiv> vmm_map_page pd virt phys flags s" and "v \<equiv> base_of phys OR (flags AND 0xFFF) OR PAGE_PRESENT"
  shows "\<not> owned s pd (pd_index virt) \<and> fst (alloc_frame s) = PMM_ALLOC_ERROR \<Longrightarrow> s' = s"
    and "owned s pd (pd_index virt) \<or> fst (alloc_frame s) \<noteq> PMM_ALLOC_ERROR \<Longrightarrow>
      remapped s D pd virt (Some v) s' \<and> vm_inv s' D (\<lambda>f. (ext(phys := ext phys - 1)) f + count (held_by s pd virt) f)"
proof -
  obtain t s1 where al: "alloc_frame s = (t, s1)" by (cases "alloc_frame s")
  have z: "phys_mem s pd (pd_index virt) = 0" if "\<not> owned s pd (pd_index virt)" using page_entry [OF inv pd u] that by blast
  have p: "\<not> owned s pd (pd_index virt) \<Longrightarrow> \<not> bit (phys_mem s pd (pd_index virt)) 0 \<and> \<not> bit (phys_mem s pd (pd_index virt)) 7" using z by simp
  show "\<not> owned s pd (pd_index virt) \<and> fst (alloc_frame s) = PMM_ALLOC_ERROR \<Longrightarrow> s' = s"
    using map_page_absent [OF inv pd _ _ ph, of virt flags] p by (simp add: Let_def s'_def)
  assume a: "owned s pd (pd_index virt) \<or> fst (alloc_frame s) \<noteq> PMM_ALLOC_ERROR"
  show "remapped s D pd virt (Some v) s' \<and> vm_inv s' D (\<lambda>f. (ext(phys := ext phys - 1)) f + count (held_by s pd virt) f)"
  proof (cases "owned s pd (pd_index virt)")
    case True
    note o = owned_entry [OF inv pd True]
    have "s' = wr (pt_of s (pd, pd_index virt)) (pt_index virt) v s"
      using o unfolding s'_def v_def by (simp add: vmm_map_page_def Let_def)
    then have "remapped s D pd virt (Some v) s'"
      using mapped_write [OF inv pd True, of v] new_pte(2) [of phys flags] by (simp only: v_def if_True)
    moreover have "vm_inv s' D (\<lambda>f. (ext(phys := ext phys - 1)) f + count (held_by s pd virt) f)"
      using map_page_owned [OF inv pd True ph, of flags] by (simp add: s'_def held_by_owned [OF True])
    ultimately show ?thesis by blast
  next
    case False
    then have got: "t \<noteq> PMM_ALLOC_ERROR" using a al by simp
    have "remapped s D pd virt (Some v) s'" unfolding s'_def v_def by (rule mapped_new_table [OF inv pd z [OF False] al got ph])
    moreover have "vm_inv s' D (ext(phys := ext phys - 1))"
      using map_page_absent [OF inv pd _ _ ph, of virt flags] p [OF False] al got by (simp add: Let_def s'_def)
    ultimately show ?thesis unfolding held_by_absent [OF False] by (simp add: fun_upd_def)
  qed
qed

lemma unmap_result:
  assumes inv: "vm_inv s D ext" and pd: "pd \<in> D" and u: "rd s (kernel_pd s) (pd_index virt) = 0"
  shows "remapped s D pd virt None (vmm_unmap_page pd virt s)"
    and "vm_inv (vmm_unmap_page pd virt s) D (\<lambda>f. ext f + count (held_by s pd virt) f)"
    and "remapped s D pd virt None (vmm_unmap_and_free pd virt s)"
    and "vm_inv (vmm_unmap_and_free pd virt s) D ext"
proof -
  have f: "frame_ok pd" by (rule pd_frame_ok [OF inv pd])
  have "remapped s D pd virt None (vmm_unmap_page pd virt s) \<and> vm_inv (vmm_unmap_page pd virt s) D (\<lambda>f. ext f + count (held_by s pd virt) f) \<and>
    remapped s D pd virt None (vmm_unmap_and_free pd virt s) \<and> vm_inv (vmm_unmap_and_free pd virt s) D ext"
  proof (cases "owned s pd (pd_index virt)")
    case True
    note o = owned_entry [OF inv pd True]
    let ?w = "wr (pt_of s (pd, pd_index virt)) (pt_index virt) 0 s"
    have w: "remapped s D pd virt None ?w" using mapped_write [OF inv pd True, of 0] by simp
    have "vmm_unmap_page pd virt s = (if bit (pte_of s pd virt) 0 then ?w else s)"
      using o by (simp add: vmm_unmap_page_def Let_def flag_iff)
    moreover have "vmm_unmap_and_free pd virt s \<in> {?w, free_frame (base_of (pte_of s pd virt)) ?w}" if "bit (pte_of s pd virt) 0"
      using o that by (simp add: vmm_unmap_and_free_def Let_def flag_iff)
    moreover have "vmm_unmap_and_free pd virt s = s" if "\<not> bit (pte_of s pd virt) 0"
      using o that by (simp add: vmm_unmap_and_free_def Let_def flag_iff)
    moreover have "remapped s D pd virt None s" if "\<not> bit (pte_of s pd virt) 0" by (rule remapped_refl) (simp add: mapped_def that)
    ultimately show ?thesis
      using w remapped_pool [OF w] unmap_step [OF inv pd True] unmap_and_free_step [OF inv pd True]
      by (cases "bit (pte_of s pd virt) 0") (auto simp: held_by_owned [OF True] free_frame_def)
  next
    case False
    then have z: "phys_mem s pd (pd_index virt) = 0" using page_entry [OF inv pd u] by blast
    then have "vmm_unmap_page pd virt s = s" "vmm_unmap_and_free pd virt s = s"
      using f by (simp_all add: vmm_unmap_page_def vmm_unmap_and_free_def Let_def)
    moreover have "remapped s D pd virt None s" by (rule remapped_refl) (simp add: mapped_def False)
    ultimately show ?thesis using inv held_by_absent [OF False] by simp
  qed
  then show "remapped s D pd virt None (vmm_unmap_page pd virt s)" "vm_inv (vmm_unmap_page pd virt s) D (\<lambda>f. ext f + count (held_by s pd virt) f)"
    "remapped s D pd virt None (vmm_unmap_and_free pd virt s)" "vm_inv (vmm_unmap_and_free pd virt s) D ext" by blast+
qed

lemma protect_result:
  assumes inv: "vm_inv s D ext" and pd: "pd \<in> D" and u: "rd s (kernel_pd s) (pd_index virt) = 0"
  shows "remapped s D pd virt (map_option (\<lambda>e. base_of e OR (flags AND 0xFFF) OR PAGE_PRESENT) (mapped s pd virt)) (vmm_protect_page pd virt flags s)"
    and "vm_inv (vmm_protect_page pd virt flags s) D ext"
proof -
  have f: "frame_ok pd" by (rule pd_frame_ok [OF inv pd])
  let ?v = "base_of (pte_of s pd virt) OR (flags AND 0xFFF) OR PAGE_PRESENT"
  have "remapped s D pd virt (map_option (\<lambda>e. base_of e OR (flags AND 0xFFF) OR PAGE_PRESENT) (mapped s pd virt)) (vmm_protect_page pd virt flags s) \<and>
    vm_inv (vmm_protect_page pd virt flags s) D ext"
  proof (cases "owned s pd (pd_index virt) \<and> bit (pte_of s pd virt) 0")
    case True
    then have ow: "owned s pd (pd_index virt)" and m: "mapped s pd virt = Some (pte_of s pd virt)" by (simp_all add: mapped_def)
    note o = owned_entry [OF inv pd ow]
    have "vmm_protect_page pd virt flags s = wr (pt_of s (pd, pd_index virt)) (pt_index virt) ?v s"
      using o True by (simp add: vmm_protect_page_def Let_def flag_iff)
    then have "remapped s D pd virt (Some ?v) (vmm_protect_page pd virt flags s)"
      using mapped_write [OF inv pd ow, of ?v] new_pte(2) [of "pte_of s pd virt" flags] by (simp only: if_True)
    then show ?thesis using protect_step [OF inv pd ow] m by simp
  next
    case False
    then have "mapped s pd virt = None" by (auto simp: mapped_def)
    moreover have "vmm_protect_page pd virt flags s = s"
    proof (cases "owned s pd (pd_index virt)")
      case True
      then show ?thesis using owned_entry [OF inv pd True] False by (simp add: vmm_protect_page_def Let_def flag_iff)
    next
      case no: False
      then have "phys_mem s pd (pd_index virt) = 0" using page_entry [OF inv pd u] by blast
      then show ?thesis using f by (simp add: vmm_protect_page_def Let_def)
    qed
    ultimately show ?thesis using inv remapped_refl [of s pd virt None D] by simp
  qed
  then show "remapped s D pd virt (map_option (\<lambda>e. base_of e OR (flags AND 0xFFF) OR PAGE_PRESENT) (mapped s pd virt)) (vmm_protect_page pd virt flags s)"
    "vm_inv (vmm_protect_page pd virt flags s) D ext" by blast+
qed

end
