(* ===== verification/Pmm_Count.thy ===== *)
theory Pmm_Count
  imports Pmm_Spec
begin

text \<open>
  The frame pool with the number of its free frames: a client that needs a bounded number of
  frames can tell beforehand that it will get them.
\<close>

locale counted_pool = frame_pool +
  fixes avail :: "'a \<Rightarrow> nat"
  assumes alloc_succeeds: "inv s \<Longrightarrow> 0 < avail s \<Longrightarrow> fst (alloc s) \<noteq> PMM_ALLOC_ERROR"
    and avail_alloc: "inv s \<Longrightarrow> fst (alloc s) \<noteq> PMM_ALLOC_ERROR \<Longrightarrow> avail (snd (alloc s)) + 1 = avail s"
    and avail_free: "inv s \<Longrightarrow> avail s \<le> avail (free a s)"
    and avail_inc: "inv s \<Longrightarrow> avail (inc a s) = avail s"
begin

text \<open>Giving a frame back and taking one costs at most one frame.\<close>

lemma free_then_alloc:
  assumes "inv s" "0 < avail s"
  shows "fst (alloc (free a s)) \<noteq> PMM_ALLOC_ERROR" "avail s \<le> avail (snd (alloc (free a s))) + 1"
proof -
  have f: "inv (free a s)" "avail s \<le> avail (free a s)" using assms by (auto intro: inv_free avail_free)
  then show "fst (alloc (free a s)) \<noteq> PMM_ALLOC_ERROR" using alloc_succeeds assms(2) by simp
  then show "avail s \<le> avail (snd (alloc (free a s))) + 1" using avail_alloc f by simp
qed

text \<open>A frame is handed out only with no reference to it, and afterwards it has one.\<close>

lemma alloc_fresh:
  assumes "inv s" "alloc s = (a, t)" "a \<noteq> PMM_ALLOC_ERROR" "0 \<notin> managed s"
  shows "a \<noteq> 0" "a AND 0xFFF = 0" "refs s (a div 0x1000) = 0" "refs t q = (if q = a div 0x1000 then 1 else refs s q)"
    "inv t" "managed t = managed s"
proof -
  have "a div 0x1000 \<noteq> 0" using alloc_managed[OF assms(1-3)] assms(4) by auto
  then show "a \<noteq> 0" by auto
  show "a AND 0xFFF = 0" by (rule alloc_aligned[OF assms(1-3)])
  show "refs s (a div 0x1000) = 0" "refs t q = (if q = a div 0x1000 then 1 else refs s q)"
    using refs_alloc[OF assms(1-3)] by auto
  show "inv t" "managed t = managed s" using inv_alloc[OF assms(1)] managed_alloc[OF assms(1)] assms(2) by auto
qed

end

definition free_frame_count :: "pmm \<Rightarrow> nat" where
  "free_frame_count s = card (free_frames s)"

lemma finite_free: "pmm_inv s \<Longrightarrow> finite (free_frames s)"
  by (simp add: free_frames_finite pmm_inv_def)

lemma free_grows:
  assumes inv: "pmm_inv s"
  shows "free_frames s \<subseteq> free_frames (pmm_free_frame a s)"
proof (cases "a div PMM_FRAME_SIZE < s_max_frames s \<and> pg_refcount (mem_map s (a div PMM_FRAME_SIZE)) \<noteq> 0")
  case True
  note fc = free_pages_cases[OF inv refl conjunct1[OF True] conjunct2[OF True], of 0]
  show ?thesis using fc(4,6) by (cases "pg_refcount (mem_map s (a div PMM_FRAME_SIZE)) = 1") (auto simp: pmm_free_frame_def)
next
  case False
  then show ?thesis using free_pages_noop[of s a 0] by (auto simp: pmm_free_frame_def not_less)
qed

lemma alloc_frame_takes:
  assumes inv: "pmm_inv s" and ok: "fst (pmm_alloc_frame s) \<noteq> PMM_ALLOC_ERROR"
  shows "\<exists>f. f \<in> free_frames s \<and> free_frames (snd (pmm_alloc_frame s)) = free_frames s - {f}"
proof -
  obtain f :: u32 where "blk (unat f) 0 \<subseteq> free_frames s" "free_frames (snd (pmm_alloc_pages 0 s)) = free_frames s - blk (unat f) 0"
    by (rule alloc_pages_success[OF inv surjective_pairing, of 0]) (use ok in \<open>auto simp: pmm_alloc_frame_def intro: that\<close>)
  moreover have "blk (unat f) 0 = {unat f}" by (auto simp: blk_def)
  ultimately show ?thesis by (auto simp: pmm_alloc_frame_def)
qed

interpretation pmm_count: counted_pool pmm_inv managed_frames frame_refs pmm_alloc_frame pmm_free_frame pmm_inc_ref free_frame_count
proof
  fix s :: pmm and a :: u32
  assume inv: "pmm_inv s"
  show "fst (pmm_alloc_frame s) \<noteq> PMM_ALLOC_ERROR" if "0 < free_frame_count s"
  proof -
    have "free_frames s \<noteq> {}" using that by (auto simp: free_frame_count_def)
    then obtain h m where "m < PMM_MAX_ORDER" "h \<in> free_heads s m"
      by (auto simp: free_frames_def cover_def free_blocks_def)
    then have "\<not> (\<forall>m. 0 \<le> m \<longrightarrow> m < PMM_MAX_ORDER \<longrightarrow> free_heads s m = {})" by blast
    then show ?thesis unfolding pmm_alloc_frame_def alloc_pages_error_iff[OF inv] .
  qed
  show "free_frame_count (snd (pmm_alloc_frame s)) + 1 = free_frame_count s" if ok: "fst (pmm_alloc_frame s) \<noteq> PMM_ALLOC_ERROR"
  proof -
    obtain f where f: "f \<in> free_frames s" "free_frames (snd (pmm_alloc_frame s)) = free_frames s - {f}"
      using alloc_frame_takes[OF inv ok] by blast
    then have "Suc (card (free_frames s - {f})) = card (free_frames s)" by (intro card_Suc_Diff1 finite_free[OF inv])
    then show ?thesis by (simp add: free_frame_count_def f(2))
  qed
  show "free_frame_count s \<le> free_frame_count (pmm_free_frame a s)"
    unfolding free_frame_count_def by (intro card_mono finite_free pmm.inv_free inv free_grows)
  show "free_frame_count (pmm_inc_ref a s) = free_frame_count s"
    using inc_ref_cases(3)[OF inv refl, of a] by (simp add: free_frame_count_def)
qed

end
