(* ===== verification/Vmm_Share.thy ===== *)
theory Vmm_Share
  imports Vmm_Mapped Pmm_Count
begin

text \<open>
  Sharing: how often a frame is claimed when several pages map it, what a copy-on-write fault
  does to the mappings, and when a clone has enough memory.
\<close>

section \<open>Claims of mappings\<close>

lemma mapped_entry:
  assumes "mapped s pd v = Some e"
  shows "owned s pd (pd_index v)" "e = pte_of s pd v" "bit e 0"
  using assms by (auto simp: mapped_def split: if_splits)

lemma count_claims_sum:
  "(\<Sum>x \<in> slots s D. \<Sum>j | j < (1024 :: u32). count (pte_claim (phys_mem s (pt_of s x) j)) f) \<le> count (claims s D) f"
proof -
  have "(\<Sum>x \<in> slots s D. \<Sum>j | j < (1024 :: u32). count (pte_claim (phys_mem s (pt_of s x) j)) f) = (\<Sum>x \<in> slots s D. count (table_claim s (pt_of s x)) f)"
    by (simp add: table_claim_def count_sum)
  also have "\<dots> \<le> (\<Sum>x \<in> slots s D. count (slot_claim s x) f)" by (rule sum_mono) (simp add: slot_claim_def)
  also have "\<dots> \<le> count (claims s D) f" by (simp add: claims_def count_sum)
  finally show ?thesis .
qed

lemma mapped_claimed:
  assumes "pd \<in> D" and m: "mapped s pd v = Some e" and "frame_ok (base_of e)"
  shows "base_of e \<in># claims s D"
proof -
  note E = mapped_entry [OF m]
  have "(pd, pd_index v) \<in> slots s D" using assms(1) E(1) by (simp add: slots_def)
  from in_claims [OF this pt_index_bound [of v]] have "pte_claim e \<subseteq># claims s D" by (simp add: E(2) pte_of_def)
  moreover have "pte_claim e = {#base_of e#}" using assms(3) E(3) by (simp add: pte_claim_def frame_ok_def)
  ultimately show ?thesis by simp
qed

text \<open>Two pages on one frame are two references.\<close>

lemma two_mappings:
  assumes d: "pd1 \<in> D" "pd2 \<in> D" and m: "mapped s pd1 v = Some e1" "mapped s pd2 w = Some e2"
    and f: "base_of e1 = f" "base_of e2 = f" "frame_ok f" and ne: "\<not> (pd1 = pd2 \<and> base_of v = base_of w)"
  shows "2 \<le> count (claims s D) f"
proof -
  let ?c = "\<lambda>(x, j). count (pte_claim (phys_mem s (pt_of s x) j)) f"
  let ?a = "((pd1, pd_index v), pt_index v)" and ?b = "((pd2, pd_index w), pt_index w)"
  have "?c ?a = 1" "?c ?b = 1"
    using mapped_entry [OF m(1)] mapped_entry [OF m(2)] f by (auto simp: pte_of_def pte_claim_def frame_ok_def)
  moreover have ab: "?a \<noteq> ?b" using ne by (auto simp: same_page)
  ultimately have "2 = sum ?c {?a, ?b}" by simp
  also have "\<dots> \<le> sum ?c (slots s D \<times> {j. j < (1024 :: u32)})"
    by (rule sum_mono2) (use d mapped_entry(1) [OF m(1)] mapped_entry(1) [OF m(2)] pt_index_bound in \<open>auto simp: slots_def\<close>)
  also have "\<dots> = (\<Sum>x \<in> slots s D. \<Sum>j | j < (1024 :: u32). count (pte_claim (phys_mem s (pt_of s x) j)) f)"
    by (simp add: sum.cartesian_product)
  also have "\<dots> \<le> count (claims s D) f" by (rule count_claims_sum)
  finally show ?thesis .
qed

section \<open>Copy-on-write faults\<close>

text \<open>
  A fault that is resolved gives the page an entry on its own frame, if nobody else refers to it, or
  on a frame that nobody referred to; otherwise nothing changes.
\<close>

lemma cow_fault_result:
  assumes inv: "vm_inv s D ext" and pd: "base_of (cr3 s) \<in> D" and u: "rd s (kernel_pd s) (pd_index va) = 0"
    and ok: "\<forall>e. mapped s (base_of (cr3 s)) va = Some e \<longrightarrow> frame_ok (base_of e)"
  shows "snd (try_handle_cow_fault va err s) = s \<or>
    (\<exists>e e'. mapped s (base_of (cr3 s)) va = Some e \<and> remapped s D (base_of (cr3 s)) va (Some e') (snd (try_handle_cow_fault va err s)) \<and>
       (base_of e' = base_of e \<and> frame_refs (pool s) (base_of e div 0x1000) \<le> 1 \<or> base_of e' \<notin># claims s D))"
    and "vm_inv (snd (try_handle_cow_fault va err s)) D ext"
proof -
  let ?pd = "base_of (cr3 s)" let ?x = "(?pd, pd_index va)" let ?e = "pte_of s ?pd va" let ?r = "snd (try_handle_cow_fault va err s)"
  let ?new = "\<lambda>b. b OR (((?e AND 0xFFF) OR PAGE_WRITABLE) AND NOT VMM_PTE_COW)"
  have "(?r = s \<or> (\<exists>e e'. mapped s ?pd va = Some e \<and> remapped s D ?pd va (Some e') ?r \<and>
       (base_of e' = base_of e \<and> frame_refs (pool s) (base_of e div 0x1000) \<le> 1 \<or> base_of e' \<notin># claims s D))) \<and> vm_inv ?r D ext"
  proof (cases "owned s ?pd (pd_index va) \<and> err AND PF_ERR_WRITE \<noteq> 0 \<and> err AND PF_ERR_PRESENT \<noteq> 0 \<and> bit ?e 0 \<and> bit ?e 9")
    case False
    have "?r = s"
    proof (cases "owned s ?pd (pd_index va)")
      case True
      then show ?thesis using False owned_entry [OF inv pd True] by (auto simp: try_handle_cow_fault_def Let_def flag_iff)
    next
      case no: False
      then have "phys_mem s ?pd (pd_index va) = 0" using page_entry [OF inv pd u] by blast
      then show ?thesis using pd_frame_ok [OF inv pd] by (simp add: try_handle_cow_fault_def Let_def)
    qed
    with inv show ?thesis by simp
  next
    case True
    then have ow: "owned s ?pd (pd_index va)" and m: "mapped s ?pd va = Some ?e" by (simp_all add: mapped_def)
    have fok: "frame_ok (base_of ?e)" using ok m by blast
    note o = owned_entry [OF inv pd ow] and I = cow_fault_step [OF inv pd ow fok, of err]
    show ?thesis
    proof (cases "pmm_ref_count (base_of ?e) (pool s) \<le> 1")
      case one: True
      have eq: "?r = wr (pt_of s ?x) (pt_index va) (?new (base_of ?e)) s"
        using o True one by (simp add: try_handle_cow_fault_def Let_def flag_iff)
      note c = cow_result(1,2) [OF base_of_base_of, of ?e ?e]
      have "remapped s D ?pd va (Some (?new (base_of ?e))) ?r"
        using mapped_write [OF inv pd ow, of "?new (base_of ?e)"] c(2) True unfolding eq by simp
      moreover have "frame_refs (pool s) (base_of ?e div 0x1000) \<le> 1"
        using one ref_count_frame_refs [of "base_of ?e" "pool s"] by (simp add: word_le_nat_alt)
      ultimately show ?thesis using m c(1) I by blast
    next
      case shared: False
      obtain a s1 where al: "alloc_frame s = (a, s1)" by (cases "alloc_frame s")
      show ?thesis
      proof (cases "a = PMM_ALLOC_ERROR")
        case err: True
        then have "?r = s1" using o True shared al by (simp add: try_handle_cow_fault_def Let_def flag_iff)
        with alloc_step(1) [OF inv al err] inv show ?thesis by simp
      next
        case got: False
        have a: "frame_ok a" "a \<notin> tables s D" "a \<notin># claims s D" "a \<noteq> v2p_pd (kernel_pd s)" "vm_inv s1 D (ext(a := 1))"
          using alloc_step(2) [OF inv al got] by blast+
        let ?pg = "phys_mem s1 (base_of ?e)" let ?t = "wr_page a ?pg s1"
        have mem: "phys_mem ?t = (phys_mem s)(a := ?pg)" "kernel_pd ?t = kernel_pd s" using a(1) alloc_step(3,4) [OF inv al] by simp_all
        have same: "phys_mem ?t b = phys_mem s b" if "b \<in> tables s D" for b using mem that a(2) by auto
        have k: "rd ?t (kernel_pd s) = rd s (kernel_pd s)" using mem a(4) by (simp add: rd_def fun_eq_iff)
        have t1: "tables s1 D = tables s D" by (rule alloc_keeps(2) [OF inv al])
        have it: "vm_inv ?t D (ext(a := 1))" by (rule data_step(1) [OF a(5), of a]) (use a alloc_step(4) [OF inv al] t1 in simp_all)
        have mt: "mapped ?t pd' w = mapped s pd' w" if "pd' \<in> D" for pd' w by (rule mapped_data [OF mem(2) k same that])
        have "(?pd, pd_index va) \<in> slots s D" by (rule o(5))
        then have pt: "pt_of ?t ?x = pt_of s ?x" "owned ?t ?pd (pd_index va)"
          using claims_cong(1,2) [OF mem(2) k same] by (auto simp: slots_def)
        have eq: "?r = free_frame (base_of ?e) (wr (pt_of s ?x) (pt_index va) (?new a) ?t)"
          using o True shared al got fok by (simp add: try_handle_cow_fault_def Let_def flag_iff free_wr_commute)
        have c: "base_of (?new a) = a" "bit (?new a) 0" using cow_result(1,2) [of a ?e] a(1) True by (simp_all add: frame_ok_def)
        have "remapped ?t D ?pd va (Some (?new a)) (wr (pt_of s ?x) (pt_index va) (?new a) ?t)"
          using mapped_write [OF it pd pt(2), of "?new a"] c(2) unfolding pt(1) by simp
        then have "remapped s D ?pd va (Some (?new a)) (wr (pt_of s ?x) (pt_index va) (?new a) ?t)" using mt by (simp add: remapped_def)
        then have "remapped s D ?pd va (Some (?new a)) ?r" unfolding eq free_frame_def by (rule remapped_pool)
        moreover have "base_of (?new a) \<notin># claims s D" unfolding c(1) by (rule a(3))
        ultimately show ?thesis using m I by blast
      qed
    qed
  qed
  then show "?r = s \<or> (\<exists>e e'. mapped s ?pd va = Some e \<and> remapped s D ?pd va (Some e') ?r \<and>
       (base_of e' = base_of e \<and> frame_refs (pool s) (base_of e div 0x1000) \<le> 1 \<or> base_of e' \<notin># claims s D))"
    "vm_inv ?r D ext" by blast+
qed

section \<open>Memory for a clone\<close>

lemma alloc_frame_pool: "fst (alloc_frame s) = fst (pmm_alloc_frame (pool s))"
  "pool (snd (alloc_frame s)) = snd (pmm_alloc_frame (pool s))"
  by (auto simp: alloc_frame_def split: prod.splits)

lemma copy_kernel_pdes_pool: "pool (copy_kernel_pdes pd s) = pool s"
  unfolding copy_kernel_pdes_def
  by (rule for_up_inv [where P = "\<lambda>i t. pool t = pool s"]) (auto simp: wr_def)

lemma create_pd_pool: "pool (snd (vmm_create_pd s)) = snd (pmm_alloc_frame (pool s))"
  "fst (vmm_create_pd s) = (if fst (pmm_alloc_frame (pool s)) = PMM_ALLOC_ERROR then 0 else fst (pmm_alloc_frame (pool s)))"
  by (auto simp: vmm_create_pd_def alloc_frame_def copy_kernel_pdes_pool wr_page_def split: prod.splits)

lemma clone_pte_avail:
  assumes "pmm_inv (pool s)"
  shows "pmm_inv (pool (clone_pte p c j s)) \<and> free_frame_count (pool (clone_pte p c j s)) = free_frame_count (pool s)"
  using assms pmm.inv_inc [OF assms] pmm_count.avail_inc [OF assms] by (auto simp: clone_pte_def Let_def inc_ref_def)

lemma clone_slot_avail:
  assumes "pmm_inv (pool t)"
  shows "free_frame_count (pool (clone_slot s parent child i c t)) = free_frame_count (pool t)"
proof -
  let ?P = "\<lambda>(i :: u32) u. pmm_inv (pool u) \<and> free_frame_count (pool u) = free_frame_count (pool t)"
  have "?P 1024 (for_up (clone_pte (pt_of s (parent, i)) c) 0 1024 (wr_page c (\<lambda>_. 0) t))"
    by (rule for_up_inv [where P = ?P]) (use assms clone_pte_avail in \<open>auto simp del: One_nat_def\<close>)
  then show ?thesis by (simp add: clone_slot_def)
qed

text \<open>The walk needs one frame for every table that the parent owns from here on.\<close>

lemma clone_walk_succeeds:
  assumes "cloning s parent child D ext i t" and wf: "vm_wf s D" and par: "parent \<in> D" and ch: "child \<notin> D" "child \<notin> tables s D"
      "\<And>i. phys_mem s child i = 0 \<or> phys_mem s child i = rd s (kernel_pd s) i"
    and user: "\<And>i j. owned s parent i \<Longrightarrow> j < 1024 \<Longrightarrow> bit (phys_mem s (pt_of s (parent, i)) j) 0 \<Longrightarrow>
      bit (phys_mem s (pt_of s (parent, i)) j) 2"
    and "i \<le> 1024" and "card {m. i \<le> m \<and> owned s parent m} \<le> free_frame_count (pool t)"
  shows "fst (clone_pdes parent child i t)"
  using assms(1,8,9)
proof (induction "1024 - unat i" arbitrary: i t)
  case 0
  then have i: "i = 1024" by (simp add: word_le_nat_alt unat_eq_iff [symmetric] del: unat_eq_iff)
  show ?case unfolding i by (subst clone_pdes.simps) simp
next
  case (Suc d)
  then have i: "i < 1024" by (simp add: word_less_nat_alt)
  have i1: "d = 1024 - unat (i + 1)" "i + 1 \<le> 1024"
    using Suc.hyps(2) unat_inc_below [OF i] i by (simp_all add: word_le_nat_alt word_less_nat_alt)
  have pf: "frame_ok parent" using wf par by (auto simp: vm_wf_def)
  have rp: "rd t parent i = phys_mem s parent i" "rd t (kernel_pd t) i = rd s (kernel_pd s) i"
    using Suc.prems(1) par pf by (simp_all add: cloning_def)
  have le: "i \<le> m \<longleftrightarrow> m = i \<or> i + 1 \<le> m" for m using loop_le [OF i, of m] by (auto simp: le_less)
  have fin: "finite {m. i + 1 \<le> m \<and> owned s parent m}" by simp
  show ?case
  proof (cases "owned s parent i")
    case False
    then have "clone_pdes parent child i t = clone_pdes parent child (i + 1) t"
      using i by (subst clone_pdes.simps) (auto simp: rp Let_def flag_iff owned_def not_less)
    moreover have "{m. i + 1 \<le> m \<and> owned s parent m} = {m. i \<le> m \<and> owned s parent m}" using False by (auto simp: le)
    ultimately show ?thesis using Suc.hyps(1) [OF i1(1) cloning_skip [OF Suc.prems(1) i False] i1(2)] Suc.prems(3) by (simp only:)
  next
    case True
    have "{m. i \<le> m \<and> owned s parent m} = insert i {m. i + 1 \<le> m \<and> owned s parent m}" using True by (auto simp: le)
    moreover have "i \<notin> {m. i + 1 \<le> m \<and> owned s parent m}" by (simp add: loop_le [OF i])
    ultimately have card: "card {m. i \<le> m \<and> owned s parent m} = Suc (card {m. i + 1 \<le> m \<and> owned s parent m})" by simp
    obtain c t1 where al: "alloc_frame t = (c, t1)" by (cases "alloc_frame t")
    have inv: "vm_inv t (insert child D) ext" "pmm_inv (pool t)" using Suc.prems(1) by (simp_all add: cloning_def vm_inv_def)
    have pool: "pmm_alloc_frame (pool t) = (c, pool t1)" using al by (auto simp: alloc_frame_def split: prod.splits)
    have ok: "c \<noteq> PMM_ALLOC_ERROR" using pmm_count.alloc_succeeds [OF inv(2)] pool card Suc.prems(3) by simp
    have p1: "pmm_inv (pool t1)" using pmm.inv_alloc [OF inv(2)] pool by simp
    have "free_frame_count (pool t) = free_frame_count (pool t1) + 1" using pmm_count.avail_alloc [OF inv(2)] pool ok by simp
    then have free: "card {m. i + 1 \<le> m \<and> owned s parent m} \<le> free_frame_count (pool (clone_slot s parent child i c t1))"
      unfolding clone_slot_avail [OF p1] using card Suc.prems(3) by simp
    have "clone_pdes parent child i t = clone_pdes parent child (i + 1) (clone_slot s parent child i c t1)"
      using i True al ok by (subst clone_pdes.simps) (auto simp: rp Let_def flag_iff owned_def clone_slot_def pt_of_def)
    moreover have "cloning s parent child D ext (i + 1) (clone_slot s parent child i c t1)"
      by (rule cloning_link [OF Suc.prems(1) wf par ch i True al ok user [OF True]])
    ultimately show ?thesis using Suc.hyps(1) [OF i1(1) _ i1(2) free] by simp
  qed
qed

lemma clone_succeeds:
  assumes inv: "vm_inv s D ext" and par: "parent \<in> D" and user: "user_ptes s parent"
    and sat: "\<forall>f. frame_ok f \<longrightarrow> ext f + count (claims s D) f + mappings s parent f \<le> 255"
    and free: "card {i. owned s parent i} < free_frame_count (pool s)"
  shows "fst (vmm_clone_pd_cow parent s) \<noteq> 0"
proof -
  obtain c s1 where cr: "vmm_create_pd s = (c, s1)" by (cases "vmm_create_pd s")
  have p: "pmm_inv (pool s)" using inv by (simp add: vm_inv_def)
  obtain a q where al: "pmm_alloc_frame (pool s) = (a, q)" by (cases "pmm_alloc_frame (pool s)")
  have got: "a \<noteq> PMM_ALLOC_ERROR" using pmm_count.alloc_succeeds [OF p] al free by simp
  have "pool s1 = q" "c = a" using create_pd_pool [of s] cr al got by simp_all
  then have av: "card {i. owned s parent i} \<le> free_frame_count (pool s1)" using pmm_count.avail_alloc [OF p] al got free by simp
  have c0: "c \<noteq> 0" using alloc_step(2) [OF inv, of a "s\<lparr>pool := q\<rparr>"] al got \<open>c = a\<close> by (auto simp: alloc_frame_def frame_ok_def)
  note cs = cloning_start [OF inv par sat cr c0]
  have c: "c \<notin> D" "\<And>i. phys_mem s1 c i = 0 \<or> phys_mem s1 c i = rd s1 (kernel_pd s1) i"
    using create_step [OF inv cr] c0 by (auto simp: tables_def)
  have us: "bit (phys_mem s1 (pt_of s1 (parent, i)) j) 2"
    if ow: "owned s1 parent i" and j: "j < 1024" and pr: "bit (phys_mem s1 (pt_of s1 (parent, i)) j) 0" for i j
    by (rule start_user_ptes [OF inv par sat cr c0 user ow j pr])
  have "{m. 0 \<le> m \<and> owned s1 parent m} = {i. owned s parent i}" using cs(4) [OF par] by auto
  then have "fst (clone_pdes parent c 0 s1)" using clone_walk_succeeds [OF cs(1,3) par c(1) cs(2) c(2) us] av by simp
  then show ?thesis using c0 by (simp add: clone_unfold [OF inv cr] case_prod_beta)
qed

end
