(* ===== verification/Vmm_Properties.thy ===== *)
theory Vmm_Properties
  imports Vmm_Share Pmm_Properties
begin

text \<open>
  Properties of the page-table code, with instances on a machine of seven free frames. The
  invariant \<open>vm_inv s D ext\<close> reads: with the page directories \<open>D\<close> alive, every frame's
  reference count is the number of times the directories use it (as directory, as page
  table, or mapped) plus \<open>ext\<close>, the references held elsewhere.
\<close>

section \<open>A small machine\<close>

definition pool7 :: pmm where
  "pool7 = fold (\<lambda>f. buddy_free f 0) [1, 2, 3, 4, 5, 6, 7] (pmm_reset
     \<lparr>mem_map = \<lambda>_. page0, free_lists = \<lambda>_. 0, s_max_frames = 0, s_free_frames = 0,
      s_total_managed_frames = 0\<rparr>\<lparr>s_max_frames := 8\<rparr>)"

definition vm0 :: vm where
  "vm0 = \<lparr>phys_mem = (\<lambda>b i. if b = 0x500000 \<and> i = 0 then 0x83 else 0), pool = pool7, cr3 = 0x500000,
     kernel_pd = 0xC0500000, extra_tables = 0xC0501000, next_extra_pt = 0\<rparr>"

text \<open>A directory, a frame taken for it, and the frame mapped for user code.\<close>

definition vm1_pd :: u32 where "vm1_pd = fst (vmm_create_pd vm0)"
definition vm1 :: vm where "vm1 = snd (vmm_create_pd vm0)"
definition vm2_frame :: u32 where "vm2_frame = fst (alloc_frame vm1)"
definition vm2 :: vm where "vm2 = snd (alloc_frame vm1)"
definition vm3 :: vm where "vm3 = vmm_map_page vm1_pd 0x40000000 vm2_frame 6 vm2"

lemma booting_fold:
  assumes "booting s" and "\<forall>f \<in> set fs. f < s_max_frames s \<and> unat f \<notin> free_frames s" and "distinct fs"
  shows "booting (fold (\<lambda>f. buddy_free f 0) fs s) \<and>
    free_frames (fold (\<lambda>f. buddy_free f 0) fs s) = unat ` set fs \<union> free_frames s"
  using assms
proof (induction fs arbitrary: s)
  case (Cons f fs)
  have f: "f < s_max_frames s" "unat f \<notin> free_frames s" using Cons.prems(2) by simp_all
  note b = booting_free_frame [OF Cons.prems(1) f]
  have "\<forall>g \<in> set fs. g < s_max_frames (buddy_free f 0 s) \<and> unat g \<notin> free_frames (buddy_free f 0 s)"
  proof
    fix g assume g: "g \<in> set fs"
    then have "g \<noteq> f" using Cons.prems(3) by auto
    then have "unat g \<noteq> unat f" by simp
    with g show "g < s_max_frames (buddy_free f 0 s) \<and> unat g \<notin> free_frames (buddy_free f 0 s)"
      using b(2,3) Cons.prems(2) by simp
  qed
  then have "booting (fold (\<lambda>f. buddy_free f 0) fs (buddy_free f 0 s)) \<and>
      free_frames (fold (\<lambda>f. buddy_free f 0) fs (buddy_free f 0 s)) = unat ` set fs \<union> free_frames (buddy_free f 0 s)"
    using Cons.prems(3) by (intro Cons.IH b(1)) simp_all
  then show ?case using b(2) by simp
qed simp

lemma pool7_booting: "booting pool7" "free_frames pool7 = {1, 2, 3, 4, 5, 6, 7}"
proof -
  define z where "z = pmm_reset \<lparr>mem_map = \<lambda>_. page0, free_lists = \<lambda>_. 0, s_max_frames = 0,
    s_free_frames = 0, s_total_managed_frames = 0\<rparr>"
  define s where "s = z\<lparr>s_max_frames := 8\<rparr>"
  have z: "booting z" "free_frames z = {}" "s_max_frames z = 0"
    by (simp_all add: z_def booting_reset) (simp add: pmm_reset_def)
  then have 0: "booting s" "free_frames s = {}" "s_max_frames s = 8"
    using booting_raise [OF z(1), of 8] by (simp_all add: s_def)
  show "booting pool7" "free_frames pool7 = {1, 2, 3, 4, 5, 6, 7}"
    using booting_fold [OF 0(1), of "[1, 2, 3, 4, 5, 6, 7]"] 0 by (auto simp: pool7_def s_def z_def)
qed

lemma pool7_facts: "pmm_inv pool7" "managed_frames pool7 = {p. unat p \<in> {1, 2, 3, 4, 5, 6, 7}}" "frame_refs pool7 p = 0"
  using pool7_booting booting_used [OF pool7_booting(1)]
  by (auto simp: booting_def managed_frames_def cover_def frame_refs_def)

lemma vm0_inv: "vm_inv vm0 {} (\<lambda>_. 0)"
proof -
  have rd: "rd vm0 (kernel_pd vm0) i = (if i = 0 then 0x83 else 0)" for i
    by (simp add: rd_def v2p_pd_def vm0_def)
  have "kernel_ok vm0"
    unfolding kernel_ok_def rd by (auto simp: vm0_def pool7_facts v2p_pd_def base_of_def)
  then show ?thesis by (auto simp: vm_inv_def vm_wf_def slots_def claims_def) (simp_all add: vm0_def pool7_facts)
qed

lemma alloc_from_nonempty:
  assumes inv: "pmm_inv p" and n: "card (free_frames p) = Suc n"
  shows "fst (pmm_alloc_frame p) \<noteq> PMM_ALLOC_ERROR" and "pmm_inv (snd (pmm_alloc_frame p))"
    and "card (free_frames (snd (pmm_alloc_frame p))) = n"
proof -
  obtain f where "f \<in> free_frames p" using n by (metis card.empty ex_in_conv old.nat.distinct(2))
  then obtain g k where "(g, k) \<in> free_blocks p"
    by (auto simp: free_frames_def cover_def)
  then have "free_heads p k \<noteq> {}" "k < PMM_MAX_ORDER" by (auto simp: free_blocks_def)
  then show ne: "fst (pmm_alloc_frame p) \<noteq> PMM_ALLOC_ERROR"
    using alloc_pages_error_iff [OF inv, of 0] unfolding pmm_alloc_frame_def by blast
  obtain a t where al: "pmm_alloc_pages 0 p = (a, t)" by (cases "pmm_alloc_pages 0 p")
  have "a \<noteq> PMM_ALLOC_ERROR" using ne al by (simp add: pmm_alloc_frame_def)
  then obtain f :: u32 where f: "blk (unat f) 0 \<subseteq> free_frames p" "free_frames t = free_frames p - blk (unat f) 0" "pmm_inv t"
    by (rule alloc_pages_success [OF inv al])
  then show "pmm_inv (snd (pmm_alloc_frame p))" "card (free_frames (snd (pmm_alloc_frame p))) = n"
    using n al card_Diff_singleton [of "unat f" "free_frames p"] by (simp_all add: pmm_alloc_frame_def blk_def)
qed

lemma vm1_facts: "vm1_pd \<noteq> 0" "vm_inv vm1 {vm1_pd} (\<lambda>_. 0)" "slots vm1 {vm1_pd} = {}" "frame_ok vm1_pd"
  "rd vm1 (kernel_pd vm1) i = (if i = 0 then 0x83 else 0)"
  "phys_mem vm1 vm1_pd i = (if i = 0 then 0x83 else 0)" "frame_refs (pool vm1) p \<le> 1"
  "card (free_frames (pool vm1)) = 6" "kernel_pd vm1 = 0xC0500000"
proof -
  have p0: "pool vm0 = pool7" by (simp add: vm0_def)
  have rd0: "rd vm0 (kernel_pd vm0) i = (if i = 0 then 0x83 else 0)" for i
    by (simp add: rd_def v2p_pd_def vm0_def)
  note al = alloc_from_nonempty [OF pool7_facts(1), of 6]
  have c: "card (free_frames pool7) = Suc 6" by (simp add: pool7_booting)
  obtain q where q: "pmm_alloc_frame pool7 = (fst (pmm_alloc_frame pool7), q)" by (metis prod.collapse)
  note r = pmm.refs_alloc [OF pool7_facts(1) q al(1) [OF c]] pmm.alloc_managed [OF pool7_facts(1) q al(1) [OF c]]
  have "fst (pmm_alloc_frame pool7) \<noteq> 0" using r(2) by (auto simp: pool7_facts)
  then show nz: "vm1_pd \<noteq> 0" using al(1) [OF c] by (simp add: vm1_pd_def create_pd_pool p0)
  have cr: "vmm_create_pd vm0 = (vm1_pd, vm1)" by (simp add: vm1_pd_def vm1_def)
  note st = create_step [OF vm0_inv cr]
  show "vm_inv vm1 {vm1_pd} (\<lambda>_. 0)" "slots vm1 {vm1_pd} = {}" "frame_ok vm1_pd" "kernel_pd vm1 = 0xC0500000"
    "rd vm1 (kernel_pd vm1) i = (if i = 0 then 0x83 else 0)"
    "phys_mem vm1 vm1_pd i = (if i = 0 then 0x83 else 0)"
    using st nz rd0 [unfolded vm0_def] by (auto simp: slots_def rd0) (simp_all add: vm0_def)
  have "pool vm1 = q" using create_pd_pool(1) [of vm0] q p0 by (simp add: vm1_def) (metis snd_conv)
  then show "frame_refs (pool vm1) p \<le> 1" "card (free_frames (pool vm1)) = 6"
    using r(1) al(3) [OF c] q pool7_facts(3) by (auto, metis snd_conv)
qed

lemma vm3_facts: "vm_inv vm3 {vm1_pd} (\<lambda>_. 0)" "owned vm3 vm1_pd (pd_index 0x40000000)"
  "user_ptes vm3 vm1_pd" "frame_refs (pool vm3) p \<le> 1" "card (free_frames (pool vm3)) = 4"
  "base_of (pte_of vm3 vm1_pd 0x40000000) = vm2_frame" "frame_ok vm2_frame"
  "bit (pte_of vm3 vm1_pd 0x40000000) 0" "owned vm3 vm1_pd i \<Longrightarrow> i = 256"
  "rd vm3 (kernel_pd vm3) i = (if i = 0 then 0x83 else 0)" "kernel_pd vm3 = 0xC0500000"
proof -
  note v1 = vm1_facts
  let ?p = "pool vm1"
  have i1: "pmm_inv ?p" using v1(2) by (simp add: vm_inv_def)
  note a1 = alloc_from_nonempty [OF i1, of 5]
  have c1: "card (free_frames ?p) = Suc 5" using v1(8) by simp
  have al1: "alloc_frame vm1 = (vm2_frame, vm2)" by (simp add: vm2_frame_def vm2_def)
  have f1: "vm2_frame \<noteq> PMM_ALLOC_ERROR" using a1(1) [OF c1] by (simp add: vm2_frame_def alloc_frame_pool)
  note s1 = alloc_step [OF v1(2) al1]
  then have inv2: "vm_inv vm2 {vm1_pd} ((\<lambda>_. 0)(vm2_frame := 1))" and fo: "frame_ok vm2_frame" using f1 by blast+
  then show "frame_ok vm2_frame" by simp
  have p2: "pool vm2 = snd (pmm_alloc_frame ?p)" by (simp add: vm2_def alloc_frame_pool)
  note a2 = alloc_from_nonempty [OF a1(2) [OF c1], of 4]
  have c2: "card (free_frames (pool vm2)) = Suc 4" using a1(3) [OF c1] p2 by simp
  obtain t s2 where al2: "alloc_frame vm2 = (t, s2)" by (cases "alloc_frame vm2")
  have f2: "t \<noteq> PMM_ALLOC_ERROR" using a2(1) c2 p2 al2 alloc_frame_pool(1) [of vm2] by simp
  note s2 = alloc_step [OF inv2 al2]
  then have t: "frame_ok t" "t \<notin> tables vm2 {vm1_pd}" "((\<lambda>_. 0)(vm2_frame := 1 :: nat)) t = 0" using f2 by blast+
  then have tp: "t \<noteq> vm1_pd" "t \<noteq> vm2_frame" by (auto simp: tables_def split: if_splits)
  have pdi: "pd_index 0x40000000 = 256" "pt_index 0x40000000 = 0" by (simp_all add: pd_index_def pt_index_def)
  have ab: "\<not> bit (phys_mem vm2 vm1_pd (pd_index 0x40000000)) 0" "\<not> bit (phys_mem vm2 vm1_pd (pd_index 0x40000000)) 7"
    using v1(6) s1(3) by (simp_all add: pdi)
  note mm = map_page_absent [OF inv2 _ ab fo, of 6]
  have "(((\<lambda>_. 0)(vm2_frame := 1 :: nat))(vm2_frame := 0)) = (\<lambda>_. 0 :: nat)" by auto
  then show inv3: "vm_inv vm3 {vm1_pd} (\<lambda>_. 0)" and ow: "owned vm3 vm1_pd (pd_index 0x40000000)"
    using mm f2 al2 by (simp_all add: vm3_def Let_def)
  note me = map_page_absent_mem [OF v1(4) ab al2 f2 t(1) tp(1), of vm2_frame 6]
  have pde: "phys_mem vm3 vm1_pd = (phys_mem vm2 vm1_pd)(256 := t OR 1 OR 2 OR 4)"
    "phys_mem vm3 t = (\<lambda>_. 0)(0 := base_of vm2_frame OR (6 AND 0xFFF) OR 1)"
    "pool vm3 = pool s2" "kernel_pd vm3 = kernel_pd vm2"
    using me tp(1) s2(4) by (simp_all add: vm3_def pdi)
  have "t \<noteq> v2p_pd (kernel_pd vm2)" "vm1_pd \<noteq> v2p_pd (kernel_pd vm2)"
    using s2(2) [OF f2] kernel_not_table(1) [OF inv2] by (auto simp: tables_def)
  then have "phys_mem vm3 (v2p_pd (kernel_pd vm2)) = phys_mem vm2 (v2p_pd (kernel_pd vm2))" using me by (simp add: vm3_def)
  then show "rd vm3 (kernel_pd vm3) i = (if i = 0 then 0x83 else 0)" "kernel_pd vm3 = 0xC0500000"
    using v1(5,9) s1(3,4) pde(4) by (simp_all add: rd_def)
  have ptt: "pt_of vm3 (vm1_pd, 256) = t"
    using new_pde(1) [of t] t(1) by (simp add: pt_of_def pde frame_ok_def)
  then have pte: "pte_of vm3 vm1_pd 0x40000000 = base_of vm2_frame OR (6 AND 0xFFF) OR 1"
    by (simp add: pte_of_def pdi pde)
  have b: "base_of vm2_frame = vm2_frame" using fo by (simp add: frame_ok_def)
  then show "base_of (pte_of vm3 vm1_pd 0x40000000) = vm2_frame" "bit (pte_of vm3 vm1_pd 0x40000000) 0"
    using new_pte(1,2) [of vm2_frame 6] unfolding pte by simp_all
  have only: "i = 256" if ow: "owned vm3 vm1_pd i" for i
  proof (rule ccontr)
    assume "i \<noteq> 256"
    then have "phys_mem vm3 vm1_pd i = (if i = 0 then 0x83 else 0)" using v1(6) s1(3) by (simp add: pde)
    then show False using ow by (auto simp: owned_def split: if_splits)
  qed
  then show "owned vm3 vm1_pd i \<Longrightarrow> i = 256" .
  show "user_ptes vm3 vm1_pd" unfolding user_ptes_def
  proof (intro allI impI)
    fix virt e assume m: "mapped vm3 vm1_pd virt = Some e"
    then have o: "owned vm3 vm1_pd (pd_index virt)" "e = pte_of vm3 vm1_pd virt" "bit e 0"
      by (auto simp: mapped_def split: if_splits)
    have "pd_index virt = 256" by (rule only [OF o(1)])
    then have "e = phys_mem vm3 t (pt_index virt)" using o(2) ptt by (simp add: pte_of_def)
    then have "e = base_of vm2_frame OR (6 AND 0xFFF) OR 1" using o(3) by (auto simp: pde split: if_splits)
    then show "bit e 2" using new_pte(3) [of vm2_frame 6] by simp
  qed
  obtain q1 where q1: "pmm_alloc_frame ?p = (fst (pmm_alloc_frame ?p), q1)" by (metis prod.collapse)
  have r1: "frame_refs q1 p \<le> 1" for p using pmm.refs_alloc [OF i1 q1 a1(1) [OF c1]] v1(7) by auto
  have pq: "pool vm2 = q1" using p2 q1 by (metis snd_conv)
  obtain q2 where q2: "pmm_alloc_frame q1 = (fst (pmm_alloc_frame q1), q2)" by (metis prod.collapse)
  have qi: "pmm_inv q1" using a1(2) [OF c1] p2 pq by simp
  have "frame_refs q2 p \<le> 1" for p
    using pmm.refs_alloc [OF qi q2] a2(1) c2 p2 pq r1 by auto
  moreover have "pool s2 = q2" using al2 alloc_frame_pool(2) [of vm2] pq q2 by (metis snd_conv)
  ultimately show "frame_refs (pool vm3) p \<le> 1" "card (free_frames (pool vm3)) = 4"
    using pde(3) a2(3) c2 p2 pq q2 by (auto, metis snd_conv)
qed

lemma mappings_le: assumes "pd \<in> D" shows "mappings s pd f \<le> count (claims s D) f"
proof -
  have "mappings s pd f \<le> count (\<Sum>x \<in> slots s {pd}. slot_claim s x) f"
    unfolding mappings_def count_sum by (rule sum_mono) (simp add: slot_claim_def)
  also have "\<dots> \<le> count (claims s {pd}) f" by (simp add: claims_def)
  also have "\<dots> \<le> count (claims s D) f" by (simp add: claims_split [OF assms, of s])
  finally show ?thesis .
qed

section \<open>Reference counting\<close>

text \<open>
  C18. Every operation on one page of a user address of a live directory, on every branch, changes
  the mapping of that page and of no other page of any directory, and keeps reference counts exact.
  Mapping a frame the caller holds a reference to makes the page's entry the frame with the given
  flags, moves that reference into the table, and gives the caller the reference of the frame that
  was mapped there before; when the page needs a new table and no frame is left, nothing is mapped
  and nothing changes. Unmapping removes the entry and gives its reference to the caller, unmapping with
  release gives it back to the allocator, and changing the protection replaces the flags
  of a page that is mapped and moves no reference.
\<close>

theorem vmm_page_ops_conserve:
  assumes "vm_inv s D ext" and "pd \<in> D" and "rd s (kernel_pd s) (pd_index virt) = 0"
  shows "(\<forall>phys flags. frame_ok phys \<and> 0 < ext phys \<longrightarrow>
        (if \<not> owned s pd (pd_index virt) \<and> fst (alloc_frame s) = PMM_ALLOC_ERROR then vmm_map_page pd virt phys flags s = s
         else remapped s D pd virt (Some (base_of phys OR (flags AND 0xFFF) OR PAGE_PRESENT)) (vmm_map_page pd virt phys flags s) \<and>
           vm_inv (vmm_map_page pd virt phys flags s) D (\<lambda>f. (ext(phys := ext phys - 1)) f + count (held_by s pd virt) f))) \<and>
    remapped s D pd virt None (vmm_unmap_page pd virt s) \<and>
    vm_inv (vmm_unmap_page pd virt s) D (\<lambda>f. ext f + count (held_by s pd virt) f) \<and>
    remapped s D pd virt None (vmm_unmap_and_free pd virt s) \<and> vm_inv (vmm_unmap_and_free pd virt s) D ext \<and>
    (\<forall>flags. remapped s D pd virt (map_option (\<lambda>e. base_of e OR (flags AND 0xFFF) OR PAGE_PRESENT) (mapped s pd virt))
        (vmm_protect_page pd virt flags s) \<and>
      vm_inv (vmm_protect_page pd virt flags s) D ext)"
proof (intro conjI allI impI)
  fix phys flags assume ph: "frame_ok phys \<and> 0 < ext phys"
  note m = map_page_result [OF assms conjunct1 [OF ph] conjunct2 [OF ph], of flags]
  show "if \<not> owned s pd (pd_index virt) \<and> fst (alloc_frame s) = PMM_ALLOC_ERROR then vmm_map_page pd virt phys flags s = s
         else remapped s D pd virt (Some (base_of phys OR (flags AND 0xFFF) OR PAGE_PRESENT)) (vmm_map_page pd virt phys flags s) \<and>
           vm_inv (vmm_map_page pd virt phys flags s) D (\<lambda>f. (ext(phys := ext phys - 1)) f + count (held_by s pd virt) f)"
  proof (cases "\<not> owned s pd (pd_index virt) \<and> fst (alloc_frame s) = PMM_ALLOC_ERROR")
    case True
    then show ?thesis using m(1) by (simp only: if_True simp_thms)
  next
    case False
    then show ?thesis using m(2) by (simp only: if_False) blast
  qed
qed (use unmap_result [OF assms] protect_result [OF assms] in blast)+

text \<open>The page of a directory that has no table yet is mapped in a new one, then unmapped.\<close>

lemma vm2_facts: "vm_inv vm2 {vm1_pd} ((\<lambda>_. 0)(vm2_frame := 1))" "fst (alloc_frame vm2) \<noteq> PMM_ALLOC_ERROR"
  "rd vm2 (kernel_pd vm2) (pd_index 0x40000000) = 0" "kernel_pd vm2 = 0xC0500000" "rd vm3 (kernel_pd vm3) (pd_index 0x40000000) = 0"
  "mapped vm2 vm1_pd v = None"
proof -
  have al: "alloc_frame vm1 = (vm2_frame, vm2)" by (simp add: vm2_frame_def vm2_def)
  have i1: "pmm_inv (pool vm1)" using vm1_facts(2) by (simp add: vm_inv_def)
  note a1 = alloc_from_nonempty [OF i1, of 5, unfolded vm1_facts(8)]
  have "vm2_frame \<noteq> PMM_ALLOC_ERROR" using a1(1) by (simp add: vm2_frame_def alloc_frame_pool)
  then show inv: "vm_inv vm2 {vm1_pd} ((\<lambda>_. 0)(vm2_frame := 1))" using alloc_step(2) [OF vm1_facts(2) al] by blast
  have "card (free_frames (pool vm2)) = Suc 4" using a1(3) by (simp add: vm2_def alloc_frame_pool)
  then show got: "fst (alloc_frame vm2) \<noteq> PMM_ALLOC_ERROR"
    using alloc_from_nonempty(1) [of "pool vm2" 4] inv by (simp add: alloc_frame_pool vm_inv_def)
  show k: "kernel_pd vm2 = 0xC0500000" using alloc_step(4) [OF vm1_facts(2) al] vm1_facts(9) by simp
  have pi: "pd_index 0x40000000 = 256" by (simp add: pd_index_def)
  show u: "rd vm2 (kernel_pd vm2) (pd_index 0x40000000) = 0"
    using vm1_facts(5) [of 256] alloc_step(3,4) [OF vm1_facts(2) al] by (simp add: rd_def pi)
  show "rd vm3 (kernel_pd vm3) (pd_index 0x40000000) = 0" by (simp add: vm3_facts(10) pi)
  have "slots vm2 {vm1_pd} = {}" using vm1_facts(3) alloc_keeps(1) [OF vm1_facts(2) al] by simp
  then show "mapped vm2 vm1_pd v = None" by (auto simp: mapped_def slots_def)
qed

theorem vmm_page_ops_conserve_witness:
  "mapped vm2 vm1_pd 0x40000000 = None \<and> fst (alloc_frame vm2) \<noteq> PMM_ALLOC_ERROR \<and>
   vm_inv vm3 {vm1_pd} (\<lambda>_. 0) \<and> mapped vm3 vm1_pd 0x40000000 = Some (vm2_frame OR 7) \<and> mapped vm3 vm1_pd 0x40001000 = None \<and>
   vm_inv (vmm_unmap_and_free vm1_pd 0x40000000 vm3) {vm1_pd} (\<lambda>_. 0) \<and>
   mapped (vmm_unmap_and_free vm1_pd 0x40000000 vm3) vm1_pd 0x40000000 = None"
proof -
  note t2 = vmm_page_ops_conserve [OF vm2_facts(1) _ vm2_facts(3), of vm1_pd] and t3 = vmm_page_ops_conserve [OF vm3_facts(1) _ vm2_facts(5), of vm1_pd]
  have "remapped vm2 {vm1_pd} vm1_pd 0x40000000 (Some (base_of vm2_frame OR (6 AND 0xFFF) OR 1)) vm3"
    using spec [OF spec [OF conjunct1 [OF t2], of vm2_frame], of 6] vm2_facts(2) vm3_facts(7) unfolding vm3_def by simp
  moreover have "base_of vm2_frame OR (6 AND 0xFFF) OR 1 = vm2_frame OR 7" using vm3_facts(7) by (simp add: frame_ok_def or.assoc)
  moreover have "base_of 0x40001000 \<noteq> base_of 0x40000000" by (simp add: base_of_def)
  ultimately have "mapped vm3 vm1_pd 0x40000000 = Some (vm2_frame OR 7)" "mapped vm3 vm1_pd 0x40001000 = None"
    using vm2_facts(6) by (simp_all add: remapped_def)
  moreover have "vm_inv (vmm_unmap_and_free vm1_pd 0x40000000 vm3) {vm1_pd} (\<lambda>_. 0)"
    "mapped (vmm_unmap_and_free vm1_pd 0x40000000 vm3) vm1_pd 0x40000000 = None" using t3 by (simp_all add: remapped_def)
  ultimately show ?thesis using vm3_facts(1) vm2_facts(2,6) by simp
qed

text \<open>
  A new directory is a frame no live directory uses, holds the kernel's entries and
  nothing else, and leaves every other page as it was; freeing any live directory releases
  exactly the references it held, so the counts stay exact for the directories that remain.
  When no frame is left creation returns 0 and changes nothing.
\<close>

theorem vmm_directory_lifecycle:
  assumes "vm_inv s D ext"
  shows "(\<forall>pd s'. vmm_create_pd s = (pd, s') \<longrightarrow>
      (if pd = 0 then s' = s
       else pd \<notin> tables s D \<and> vm_inv s' (insert pd D) ext \<and>
         (\<forall>virt. mapped s' pd virt = None) \<and>
         (\<forall>i < 1024. rd s (kernel_pd s) i \<noteq> 0 \<longrightarrow> phys_mem s' pd i = rd s (kernel_pd s) i) \<and>
         (\<forall>t. t \<noteq> pd \<longrightarrow> phys_mem s' t = phys_mem s t))) \<and>
    (\<forall>pd \<in> D. vm_inv (vmm_free_pd pd s) (D - {pd}) ext)"
proof (rule conjI, intro allI impI)
  fix pd s' assume cr: "vmm_create_pd s = (pd, s')"
  note st = create_step [OF assms cr]
  show "if pd = 0 then s' = s
       else pd \<notin> tables s D \<and> vm_inv s' (insert pd D) ext \<and>
         (\<forall>virt. mapped s' pd virt = None) \<and>
         (\<forall>i < 1024. rd s (kernel_pd s) i \<noteq> 0 \<longrightarrow> phys_mem s' pd i = rd s (kernel_pd s) i) \<and>
         (\<forall>t. t \<noteq> pd \<longrightarrow> phys_mem s' t = phys_mem s t)"
  proof (cases "pd = 0")
    case False
    have "\<not> owned s' pd i" for i using st False by (auto simp: owned_def)
    then have "\<forall>virt. mapped s' pd virt = None" by (simp add: mapped_def)
    moreover have "\<forall>i < 1024. rd s (kernel_pd s) i \<noteq> 0 \<longrightarrow> phys_mem s' pd i = rd s (kernel_pd s) i"
      using st False by simp
    ultimately show ?thesis using st False by (simp only: if_False) blast
  qed (use st in simp)
qed (use free_pd_step [OF assms] in blast)

theorem vmm_directory_lifecycle_witness:
  "vm_inv vm3 {vm1_pd} (\<lambda>_. 0) \<and> vm_inv (vmm_free_pd vm1_pd vm3) {} (\<lambda>_. 0)"
  using vmm_directory_lifecycle [OF vm3_facts(1)] vm3_facts(1) by simp

section \<open>Fork and copy-on-write\<close>

text \<open>
  C5. The copy-on-write clone is correct: a child directory is a new one, it maps exactly
  what the parent mapped, both now see every page read-only and marked copy-on-write, no
  other directory sees a change, and every reference count is exact. When a frame runs out
  midway the clone returns 0, its partial directory is gone, the counts are exact and no mapping has
  changed but for pages that became read-only and marked copy-on-write; this cannot happen
  when there is a frame for the directory and one for every table the parent owns. The
  hypothesis on the counts keeps them below the 8-bit saturation.
\<close>

theorem vmm_clone_pd_cow_correct:
  assumes "vm_inv s D ext" and "parent \<in> D" and "user_ptes s parent"
    and "\<forall>f. frame_ok f \<longrightarrow> ext f + count (claims s D) f + mappings s parent f \<le> 255"
    and "vmm_clone_pd_cow parent s = (child, s')"
  shows "(card {i. owned s parent i} < free_frame_count (pool s) \<longrightarrow> child \<noteq> 0) \<and>
    (if child = 0 then vm_inv s' D ext \<and> (\<forall>pd \<in> D. \<forall>virt. mapped s' pd virt \<in> {mapped s pd virt, map_option cow (mapped s pd virt)})
     else child \<notin> D \<and> vm_inv s' (insert child D) ext \<and>
      (\<forall>virt. mapped s' child virt = map_option cow (mapped s parent virt) \<and>
              mapped s' parent virt = map_option cow (mapped s parent virt)) \<and>
      (\<forall>pd \<in> D - {parent}. \<forall>virt. mapped s' pd virt = mapped s pd virt))"
  using clone_correct [OF assms] clone_succeeds [OF assms(1-4)] assms(5) by simp

lemma vm3_unsaturated: "frame_ok f \<Longrightarrow> 0 + count (claims vm3 {vm1_pd}) f + mappings vm3 vm1_pd f \<le> 255"
proof -
  assume "frame_ok f"
  then have "count (claims vm3 {vm1_pd}) f \<le> 1"
    using vm3_facts(1) vm3_facts(4) [of "f div 0x1000"] by (simp add: vm_inv_def)
  then show ?thesis using mappings_le [of vm1_pd "{vm1_pd}" vm3 f] by simp
qed

lemma vm3_enough: "card {i. owned vm3 vm1_pd i} < free_frame_count (pool vm3)"
proof -
  have "{i. owned vm3 vm1_pd i} \<subseteq> {256}" using vm3_facts(9) by blast
  then have "card {i. owned vm3 vm1_pd i} \<le> card {256 :: u32}" by (intro card_mono) simp_all
  then show ?thesis using vm3_facts(5) by (simp add: free_frame_count_def)
qed

theorem vmm_clone_pd_cow_correct_witness:
  "\<exists>child s'. vmm_clone_pd_cow vm1_pd vm3 = (child, s') \<and> child \<noteq> 0 \<and> child \<noteq> vm1_pd \<and> vm_inv s' {child, vm1_pd} (\<lambda>_. 0) \<and>
     mapped s' child 0x40000000 = Some (cow (pte_of vm3 vm1_pd 0x40000000))"
proof -
  have sat: "\<forall>f. frame_ok f \<longrightarrow> 0 + count (claims vm3 {vm1_pd}) f + mappings vm3 vm1_pd f \<le> 255" using vm3_unsaturated by blast
  obtain c s' where cl: "vmm_clone_pd_cow vm1_pd vm3 = (c, s')" by (cases "vmm_clone_pd_cow vm1_pd vm3")
  have m: "mapped vm3 vm1_pd 0x40000000 = Some (pte_of vm3 vm1_pd 0x40000000)"
    using vm3_facts(2,8) by (simp add: mapped_def)
  show ?thesis
    using vmm_clone_pd_cow_correct [OF vm3_facts(1) _ vm3_facts(3) sat cl] cl m vm3_enough by auto
qed

text \<open>
  C19. A write fault on a copy-on-write page keeps every reference count exact, whatever its
  outcome. When the frame is shared and a new one can be had, the faulting directory ends up
  with a page of its own: writable, no longer marked, with the contents of the old page, in a
  frame that was free before, while the old page is untouched.
\<close>

theorem cow_fault_gives_private_copy:
  assumes inv: "vm_inv s D ext" and pd: "base_of (cr3 s) \<in> D" and ow: "owned s (base_of (cr3 s)) (pd_index va)"
    and ok: "frame_ok (base_of (pte_of s (base_of (cr3 s)) va))"
    and data: "base_of (pte_of s (base_of (cr3 s)) va) \<notin> tables s D"
  defines "e \<equiv> pte_of s (base_of (cr3 s)) va"
  shows "vm_inv (snd (try_handle_cow_fault va err s)) D ext \<and>
    (bit err 0 \<and> bit err 1 \<and> bit e 0 \<and> bit e 9 \<and> 1 < frame_refs (pool s) (base_of e div 0x1000) \<and>
       fst (alloc_frame s) \<noteq> PMM_ALLOC_ERROR \<longrightarrow>
     (\<exists>s' e'. try_handle_cow_fault va err s = (True, s') \<and> mapped s' (base_of (cr3 s)) va = Some e' \<and>
        bit e' 1 \<and> \<not> bit e' 9 \<and> frame_refs (pool s) (base_of e' div 0x1000) = 0 \<and>
        phys_mem s' (base_of e') = phys_mem s (base_of e) \<and> phys_mem s' (base_of e) = phys_mem s (base_of e)))"
proof (rule conjI, rule cow_fault_step [OF inv pd ow ok], intro impI)
  let ?pd = "base_of (cr3 s)" let ?x = "(?pd, pd_index va)"
  assume g: "bit err 0 \<and> bit err 1 \<and> bit e 0 \<and> bit e 9 \<and> 1 < frame_refs (pool s) (base_of e div 0x1000) \<and>
       fst (alloc_frame s) \<noteq> PMM_ALLOC_ERROR"
  note o = owned_entry [OF inv pd ow]
  obtain a s1 where al: "alloc_frame s = (a, s1)" by (cases "alloc_frame s")
  then have got: "a \<noteq> PMM_ALLOC_ERROR" using g by simp
  note as = alloc_step [OF inv al]
  then have a: "frame_ok a" "a \<notin> tables s D" "a \<notin># claims s D" "a \<noteq> v2p_pd (kernel_pd s)"
      "ext a = 0" using got by blast+
  define e' where "e' = a OR (((e AND 0xFFF) OR PAGE_WRITABLE) AND NOT VMM_PTE_COW)"
  define s' where "s' = wr (pt_of s ?x) (pt_index va) e' (free_frame (base_of e) (wr_page a (phys_mem s1 (base_of e)) s1))"
  have p: "frame_ok ?pd" "frame_ok (pt_of s ?x)" using pd_frame_ok [OF inv pd] owned_table [OF ow] by simp_all
  have ne: "pt_of s ?x \<noteq> a" "?pd \<noteq> a" "?pd \<noteq> pt_of s ?x" "base_of e \<noteq> pt_of s ?x" "pt_of s ?x \<noteq> v2p_pd (kernel_pd s)"
  proof -
    have t: "pt_of s ?x \<in> tables s D" "?pd \<in> tables s D" using o(5) pd by (simp_all add: tables_def)
    then show "pt_of s ?x \<noteq> a" "?pd \<noteq> a" "base_of e \<noteq> pt_of s ?x" "pt_of s ?x \<noteq> v2p_pd (kernel_pd s)"
      using a(2) data kernel_not_table(1) [OF inv] unfolding e_def by metis+
    show "?pd \<noteq> pt_of s ?x" using inv pd o(5) unfolding vm_inv_def vm_wf_def by metis
  qed
  have "2 \<le> frame_refs (pool s) (base_of e div 0x1000)" using g by simp
  moreover have ra: "frame_refs (pool s) (a div 0x1000) = 0"
    using inv a(1,3,5) by (simp add: vm_inv_def not_in_iff)
  ultimately have ae: "a \<noteq> base_of e" by auto
  have rc: "\<not> pmm_ref_count (base_of e) (pool s) \<le> 1"
    using g ref_count_frame_refs [of "base_of e" "pool s"] by (simp add: word_le_nat_alt)
  have step: "try_handle_cow_fault va err s = (True, s')"
    using o g al got rc ok unfolding s'_def e'_def e_def
    by (simp add: try_handle_cow_fault_def Let_def flag_iff)
  have mem: "phys_mem s' = (phys_mem s)(a := phys_mem s (base_of e), pt_of s ?x := (phys_mem s (pt_of s ?x))(pt_index va := e'))"
    "kernel_pd s' = kernel_pd s"
    using a(1) p(2) ne as(3,4) by (simp_all add: s'_def wr_def wr_page_def free_frame_def)
  have k: "rd s' (kernel_pd s') = rd s (kernel_pd s)" using mem a(4) ne(5) by (simp add: rd_def fun_eq_iff)
  have pt: "pt_of s' ?x = pt_of s ?x" using mem ne by (simp add: pt_of_def)
  have ow': "owned s' ?pd (pd_index va)" using ow mem ne k unfolding owned_def by simp
  have pe: "pte_of s' ?pd va = e'" using pt mem by (simp add: pte_of_def)
  have b: "base_of a = a" using a(1) by (simp add: frame_ok_def)
  note r = cow_result [OF b, of e, folded e'_def]
  have n9: "\<not> bit e' 9"
  proof -
    have "\<not> bit a 9" using b bit_base_of [of a 9] by simp
    then show ?thesis by (simp add: e'_def entry_bits)
  qed
  show "\<exists>s' e'. try_handle_cow_fault va err s = (True, s') \<and> mapped s' ?pd va = Some e' \<and>
        bit e' 1 \<and> \<not> bit e' 9 \<and> frame_refs (pool s) (base_of e' div 0x1000) = 0 \<and>
        phys_mem s' (base_of e') = phys_mem s (base_of e) \<and> phys_mem s' (base_of e) = phys_mem s (base_of e)"
    using step ow' pe r g n9 ra mem ne ae unfolding mapped_def by auto
qed

lemma vm_inv_cr3: "vm_inv (s\<lparr>cr3 := c\<rparr>) D ext \<longleftrightarrow> vm_inv s D ext"
proof -
  have same: "rd (s\<lparr>cr3 := c\<rparr>) = rd s" by (simp add: rd_def fun_eq_iff)
  show ?thesis using claims_cong(4,6) [of "s\<lparr>cr3 := c\<rparr>" s D] same by (simp add: vm_inv_def kernel_ok_def)
qed

lemma mapped_table_twice:
  assumes f: "f \<in> tables s D" and x: "x \<in> slots s D" and j: "j < 1024"
    and p: "pte_claim (phys_mem s (pt_of s x) j) = {#f#}"
  shows "2 \<le> count (claims s D) f"
proof -
  have split: "(\<Sum>y \<in> slots s D. slot_claim s y) =
      (\<Sum>y \<in> slots s D. {#pt_of s y#}) + (\<Sum>y \<in> slots s D. table_claim s (pt_of s y))"
    by (simp add: slot_claim_def sum.distrib [symmetric])
  have "f \<in># table_claim s (pt_of s x)"
    unfolding table_claim_def using j p by (auto simp: set_mset_sum intro!: exI [of _ j])
  then have "f \<in># (\<Sum>y \<in> slots s D. table_claim s (pt_of s y))"
    using x by (auto simp: set_mset_sum)
  then have 1: "1 \<le> count (\<Sum>y \<in> slots s D. table_claim s (pt_of s y)) f" by simp
  have "f \<in># mset_set D + (\<Sum>y \<in> slots s D. {#pt_of s y#})"
    using f by (auto simp: tables_def set_mset_sum)
  then have "1 \<le> count (mset_set D + (\<Sum>y \<in> slots s D. {#pt_of s y#})) f"
    by (simp only: One_nat_def Suc_le_eq count_greater_zero_iff)
  with 1 show ?thesis unfolding claims_def split count_union by linarith
qed

lemma or_low: "frame_ok f \<Longrightarrow> base_of (f OR (x AND 0xFFF)) = f"
  by (rule linked_pde(1)) (simp add: frame_ok_def)

text \<open>
  The page of \<open>vm3\<close> made copy-on-write, its frame referred to by somebody else too, and its
  directory in use.
\<close>

definition vm5 :: vm where
  "vm5 = inc_ref vm2_frame (vmm_switch vm1_pd (vmm_protect_page vm1_pd 0x40000000 0x204 vm3))"

lemma vm5_facts: "vm_inv vm5 {vm1_pd} ((\<lambda>_. 0)(vm2_frame := 1))" "base_of (cr3 vm5) = vm1_pd"
  "mapped vm5 vm1_pd 0x40000000 = Some (vm2_frame OR 0x205)" "frame_refs (pool vm5) (vm2_frame div 0x1000) = 2"
  "fst (alloc_frame vm5) \<noteq> PMM_ALLOC_ERROR" "vm2_frame \<notin> tables vm5 {vm1_pd}"
proof -
  let ?p = "vmm_protect_page vm1_pd 0x40000000 0x204 vm3"
  note pr = protect_result [OF vm3_facts(1) _ vm2_facts(5), of vm1_pd "0x204"]
  have m3: "mapped vm3 vm1_pd 0x40000000 = Some (pte_of vm3 vm1_pd 0x40000000)" using vm3_facts(2,8) by (simp add: mapped_def)
  have ip: "vm_inv ?p {vm1_pd} (\<lambda>_. 0)" using pr(2) by simp
  have mp: "mapped ?p vm1_pd 0x40000000 = Some (vm2_frame OR 0x205)"
    using pr(1) m3 vm3_facts(6) by (simp add: remapped_def or.assoc)
  have pool: "pool ?p = pool vm3" by (simp add: vmm_protect_page_def Let_def)
  have sw: "vmm_switch vm1_pd ?p = ?p\<lparr>cr3 := vm1_pd\<rparr>" using vm1_facts(4) by (simp add: vmm_switch_def)
  have v5: "vm5 = inc_ref vm2_frame (?p\<lparr>cr3 := vm1_pd\<rparr>)" by (simp add: vm5_def sw)
  show "base_of (cr3 vm5) = vm1_pd" using vm1_facts(4) by (simp add: v5 inc_ref_def frame_ok_def)
  have i4: "vm_inv (?p\<lparr>cr3 := vm1_pd\<rparr>) {vm1_pd} (\<lambda>_. 0)" using ip vm_inv_cr3 by simp
  have m4: "mapped (?p\<lparr>cr3 := vm1_pd\<rparr>) vm1_pd v = mapped ?p vm1_pd v" for v by (rule mapped_cong) simp_all
  have b: "base_of (vm2_frame OR 0x205) = vm2_frame"
    using or_low [OF vm3_facts(7), of "0x205"] by simp
  have c: "vm2_frame \<in># claims (?p\<lparr>cr3 := vm1_pd\<rparr>) {vm1_pd}"
    using mapped_claimed [of vm1_pd "{vm1_pd}" "?p\<lparr>cr3 := vm1_pd\<rparr>" "0x40000000"] m4 mp b vm3_facts(7) by simp
  have r3: "frame_refs (pool vm3) (vm2_frame div 0x1000) = 1"
    using i4 c vm3_facts(4) [of "vm2_frame div 0x1000"] vm3_facts(7) pool by (simp add: vm_inv_def)
      (metis count_greater_zero_iff le_less_Suc_eq less_Suc0 not_le le_antisym Suc_leI)
  have "0 + count (claims (?p\<lparr>cr3 := vm1_pd\<rparr>) {vm1_pd}) vm2_frame < 255"
    using i4 r3 vm3_facts(7) pool by (simp add: vm_inv_def)
  from inc_step [OF i4 vm3_facts(7)] c this
  have i5: "vm_inv vm5 {vm1_pd} ((\<lambda>_. 0)(vm2_frame := 0 + 1))" by (simp add: v5)
  then show "vm_inv vm5 {vm1_pd} ((\<lambda>_. 0)(vm2_frame := 1))" by simp
  have same: "phys_mem vm5 = phys_mem (?p\<lparr>cr3 := vm1_pd\<rparr>)" "kernel_pd vm5 = kernel_pd (?p\<lparr>cr3 := vm1_pd\<rparr>)" by (simp_all add: v5 inc_ref_def)
  show m5: "mapped vm5 vm1_pd 0x40000000 = Some (vm2_frame OR 0x205)" using mapped_cong [OF same] m4 mp by simp
  have po: "claims vm5 {vm1_pd} = claims (?p\<lparr>cr3 := vm1_pd\<rparr>) {vm1_pd}" "tables vm5 {vm1_pd} = tables (?p\<lparr>cr3 := vm1_pd\<rparr>) {vm1_pd}"
    using pool_only(2,3) [of vm5 _ "?p\<lparr>cr3 := vm1_pd\<rparr>", OF v5 [unfolded inc_ref_def]] by simp_all
  have one: "count (claims vm5 {vm1_pd}) vm2_frame = 1" using i4 r3 vm3_facts(7) pool po(1) by (simp add: vm_inv_def)
  then show "frame_refs (pool vm5) (vm2_frame div 0x1000) = 2" using i5 vm3_facts(7) by (simp add: vm_inv_def)
  have i3: "pmm_inv (pool vm3)" using vm3_facts(1) by (simp add: vm_inv_def)
  have "free_frame_count (pool vm5) = 4"
    using pmm_count.avail_inc [OF i3] vm3_facts(5) pool by (simp add: v5 inc_ref_def free_frame_count_def)
  then show "fst (alloc_frame vm5) \<noteq> PMM_ALLOC_ERROR"
    using pmm_count.alloc_succeeds [of "pool vm5"] i5 by (simp add: vm_inv_def alloc_frame_pool)
  show "vm2_frame \<notin> tables vm5 {vm1_pd}"
  proof
    assume t: "vm2_frame \<in> tables vm5 {vm1_pd}"
    note E = mapped_entry [OF m5]
    have "(vm1_pd, pd_index 0x40000000) \<in> slots vm5 {vm1_pd}" using E(1) by (simp add: slots_def)
    moreover have "pte_claim (pte_of vm5 vm1_pd 0x40000000) = {#vm2_frame#}"
      using E(3) b vm3_facts(7) unfolding E(2) [symmetric] by (simp add: pte_claim_def frame_ok_def)
    ultimately show False using mapped_table_twice [OF t, of _ "pt_index 0x40000000"] pt_index_bound one
      by (fastforce simp: pte_of_def)
  qed
qed

theorem cow_fault_gives_private_copy_witness:
  "\<exists>s' e'. try_handle_cow_fault 0x40000000 3 vm5 = (True, s') \<and> vm_inv s' {vm1_pd} ((\<lambda>_. 0)(vm2_frame := 1)) \<and>
     mapped s' vm1_pd 0x40000000 = Some e' \<and> bit e' 1 \<and> \<not> bit e' 9 \<and> base_of e' \<noteq> vm2_frame \<and>
     phys_mem s' (base_of e') = phys_mem vm5 vm2_frame"
proof -
  note E = mapped_entry [OF vm5_facts(3)]
  have b: "base_of (vm2_frame OR 0x205) = vm2_frame" using or_low [OF vm3_facts(7), of "0x205"] by simp
  have bits: "bit (vm2_frame OR 0x205) 0" "bit (vm2_frame OR 0x205) 9" by (simp_all add: entry_bits)
  have "bit (3 :: u32) 0" "bit (3 :: u32) 1" by simp_all
  with cow_fault_gives_private_copy [of vm5 "{vm1_pd}" "(\<lambda>_. 0)(vm2_frame := 1)" "0x40000000" 3]
    vm5_facts E b bits vm3_facts(7) show ?thesis by fastforce
qed

text \<open>
  The copy-on-write mark does not remember the page's protection: cloning leaves the
  same entry in parent and child whether the page was writable or read-only, and the fault
  handler makes any marked page writable. So after a fork a write to a read-only page is
  granted instead of reported.
\<close>

theorem fork_forgets_read_only:
  assumes "bit e 0" and "bit e 2" and "frame_ok ppt" and "frame_ok cpt" and "ppt \<noteq> cpt"
    and "phys_mem s ppt j = e AND NOT PAGE_WRITABLE"
  defines "s' \<equiv> clone_pte ppt cpt j s" and "w \<equiv> clone_pte ppt cpt j (wr ppt j (e OR PAGE_WRITABLE) s)"
  shows "phys_mem s' ppt j = phys_mem w ppt j \<and> phys_mem s' cpt j = phys_mem w cpt j \<and>
    phys_mem s' ppt j = phys_mem s' cpt j \<and> bit (phys_mem s' ppt j) 9"
proof -
  have b: "bit (e AND NOT 2 :: u32) 0" "bit (e AND NOT 2 :: u32) 2" "bit (e OR 2 :: u32) 0" "bit (e OR 2 :: u32) 2"
    using assms(1,2) by (simp_all add: entry_bits)
  have eq: "(((e AND NOT 2) AND NOT 2) OR 0x200 :: u32) = ((e OR 2) AND NOT 2) OR 0x200"
    by (rule bit_word_eqI) (auto simp: entry_bits)
  have s': "phys_mem s' ppt j = ((e AND NOT 2) AND NOT 2) OR 0x200" "phys_mem s' cpt j = ((e AND NOT 2) AND NOT 2) OR 0x200"
    using assms(3-6) b unfolding s'_def clone_pte_def Let_def flag_iff
    by (simp_all add: rd_def wr_def inc_ref_def del: bit_not_iff)
  have w: "phys_mem w ppt j = ((e OR 2) AND NOT 2) OR 0x200" "phys_mem w cpt j = ((e OR 2) AND NOT 2) OR 0x200"
    using assms(3-5) b unfolding w_def clone_pte_def Let_def flag_iff
    by (simp_all add: rd_def wr_def inc_ref_def)
  show ?thesis unfolding s' w eq using cow_pte(5) by simp
qed

theorem fork_forgets_read_only_witness:
  "let s = vm0\<lparr>phys_mem := \<lambda>_ _. 0x40005\<rparr> in
   bit (phys_mem (clone_pte 0x1000 0x2000 3 s) 0x1000 3) 9"
proof -
  have h: "bit (0x40005 :: u32) 0" "bit (0x40005 :: u32) 2" "frame_ok 0x1000" "frame_ok 0x2000" "(0x1000 :: u32) \<noteq> 0x2000"
    "phys_mem (vm0\<lparr>phys_mem := \<lambda>_ _. 0x40005\<rparr>) 0x1000 3 = 0x40005 AND NOT PAGE_WRITABLE"
    by (simp_all add: frame_ok_def base_of_def)
  show ?thesis unfolding Let_def using fork_forgets_read_only [OF h] by blast
qed

text \<open>
  Changing the protection of a copy-on-write page to writable drops its mark and makes it
  writable without giving it a frame of its own: if another directory still shares the
  frame, the two now write to the same memory.
\<close>

theorem protect_breaks_copy_on_write:
  assumes "vm_inv s D ext" and "pd \<in> D" and "owned s pd (pd_index virt)"
    and "mapped s pd virt = Some e" and "bit flags 1" and "\<not> bit flags 9"
  defines "s' \<equiv> vmm_protect_page pd virt flags s"
  shows "\<exists>e'. mapped s' pd virt = Some e' \<and> base_of e' = base_of e \<and> bit e' 1 \<and> \<not> bit e' 9 \<and>
    frame_refs (pool s') = frame_refs (pool s)"
proof -
  note o = owned_entry [OF assms(1-3)]
  have e: "e = pte_of s pd virt" "bit e 0" using assms(4) by (auto simp: mapped_def split: if_splits)
  let ?x = "(pd, pd_index virt)" and ?v = "base_of e OR (flags AND 0xFFF) OR PAGE_PRESENT"
  have eq: "s' = wr (pt_of s ?x) (pt_index virt) ?v s"
    using o e unfolding s'_def by (simp add: vmm_protect_page_def Let_def flag_iff)
  have t: "pt_of s ?x \<in> tables s D" using o(5) by (simp add: tables_def)
  have ok: "frame_ok (pt_of s ?x)" using owned_table [OF assms(3)] .
  have ne: "pt_of s ?x \<noteq> pd" "pt_of s ?x \<noteq> v2p_pd (kernel_pd s)"
    using assms(1,2) o(5) t kernel_not_table(1) [OF assms(1)] unfolding vm_inv_def vm_wf_def by metis+
  have mem: "phys_mem s' = (phys_mem s)(pt_of s ?x := (phys_mem s (pt_of s ?x))(pt_index virt := ?v))"
    using ok by (simp add: eq wr_def)
  have k: "rd s' (kernel_pd s') = rd s (kernel_pd s)" "kernel_pd s' = kernel_pd s" "pool s' = pool s"
    using mem ne(2) by (simp_all add: rd_def fun_eq_iff eq)
  have ow: "owned s' pd (pd_index virt)" using assms(3) mem ne(1) k unfolding owned_def by simp
  have "pte_of s' pd virt = ?v" using mem ne(1) by (simp add: pte_of_def pt_of_def)
  moreover have "bit ?v 1" "\<not> bit ?v 9" using assms(5,6) by (simp_all add: entry_bits)
  ultimately show ?thesis using ow new_pte(1,2) [of e flags] k(3) by (simp add: mapped_def)
qed

theorem protect_breaks_copy_on_write_witness:
  "\<exists>e'. mapped (vmm_protect_page vm1_pd 0x40000000 6 vm3) vm1_pd 0x40000000 = Some e' \<and> bit e' 1"
proof -
  have "mapped vm3 vm1_pd 0x40000000 = Some (pte_of vm3 vm1_pd 0x40000000)"
    using vm3_facts(2,8) by (simp add: mapped_def)
  then show ?thesis
    using protect_breaks_copy_on_write [OF vm3_facts(1) _ vm3_facts(2), of "pte_of vm3 vm1_pd 0x40000000" 6] by auto
qed

section \<open>The kernel's own mappings\<close>

lemma map_region_pages_terminates:
  "map_region_pages addr end_addr fl s \<noteq> None" if "end_addr - addr = of_nat k * 0x1000" "k * 0x1000 < 2 ^ 32"
  using that
proof (induction k arbitrary: addr s)
  case 0
  then show ?case by (subst map_region_pages.simps) simp
next
  case (Suc k)
  have "end_addr - (addr + 0x1000) = of_nat k * 0x1000" using Suc.prems(1) by (simp add: algebra_simps)
  then have IH: "map_region_pages (addr + 0x1000) end_addr fl t \<noteq> None" for t using Suc.IH Suc.prems(2) by simp
  show ?case by (subst map_region_pages.simps) (use IH in \<open>simp add: Let_def del: not_None_eq\<close>)
qed

lemma page_multiple: "base_of a = a \<Longrightarrow> a = of_nat (unat a div 0x1000) * 0x1000"
proof -
  assume "base_of a = a"
  then have "unat a = (unat a div 0x1000) * 0x1000" using unat_page_base [of a] by (simp add: base_of_def)
  then have "of_nat (unat a) = (of_nat ((unat a div 0x1000) * 0x1000) :: u32)" by simp
  then show ?thesis by simp
qed

text \<open>
  C34. Mapping a region always ends: the page loop of \<open>map_region_flags\<close>, which steps until
  it meets its end address exactly, returns for every start, size and state. A region whose end
  lies within the last page of the address space, below \<open>2 ^ 32\<close>, has its rounded end wrap to 0
  and is silently not mapped at all. A region that reaches or passes \<open>2 ^ 32\<close> is mapped as if it
  ended where the last page begins.
\<close>

theorem map_region_terminates:
  "(\<exists>r. map_region_flags phys_start sz fl s = Some r) \<and>
   (0xFFFFF000 < phys_start + sz \<and> sz \<le> 0xFFFFFFFF - phys_start \<and> 0 < sz \<longrightarrow>
      map_region_flags phys_start sz fl s = Some (True, s)) \<and>
   (0xFFFFFFFF - phys_start < sz \<longrightarrow> map_region_flags phys_start sz fl s =
      (if 0xFFFFF000 \<le> phys_start then Some (True, s) else map_region_flags phys_start (0xFFFFF000 - phys_start) fl s))"
proof (intro conjI)
  let ?st = "base_of phys_start"
  let ?en = "if 0xFFFFFFFF - phys_start < sz then 0xFFFFF000 else base_of (phys_start + sz + 0xFFF)"
  have al: "base_of ?en = ?en" by (simp add: base_of_def)
  show "\<exists>r. map_region_flags phys_start sz fl s = Some r"
  proof (cases "sz = 0 \<or> ?en \<le> ?st")
    case False
    have "unat ?st div 0x1000 \<le> unat ?en div 0x1000" using False by (simp add: div_le_mono word_less_nat_alt not_le)
    then have "?en - ?st = of_nat (unat ?en div 0x1000 - unat ?st div 0x1000) * 0x1000"
      using page_multiple [of ?st] page_multiple [OF al]
      by (simp only: of_nat_diff left_diff_distrib base_of_base_of)
    moreover have "(unat ?en div 0x1000 - unat ?st div 0x1000) * 0x1000 < 2 ^ 32"
    proof -
      have "(n div 0x1000 - m) * 0x1000 \<le> n" for n m :: nat by linarith
      then show ?thesis using unsigned_less [where ?'a = nat, of ?en] by (simp add: le_less_trans)
    qed
    ultimately have "map_region_pages ?st ?en fl s \<noteq> None" by (rule map_region_pages_terminates)
    then have "\<exists>r. map_region_pages ?st ?en fl s = Some r" by blast
    moreover have "map_region_flags phys_start sz fl s = map_region_pages ?st ?en fl s"
      using False by (simp only: map_region_flags_def Let_def if_False de_Morgan_disj simp_thms)
    ultimately show ?thesis by simp
  next
    case True
    then have "map_region_flags phys_start sz fl s = Some (True, s)"
      by (cases "sz = 0") (simp_all only: map_region_flags_def Let_def if_True if_False simp_thms)
    then show ?thesis by blast
  qed
  show "0xFFFFF000 < phys_start + sz \<and> sz \<le> 0xFFFFFFFF - phys_start \<and> 0 < sz \<longrightarrow>
      map_region_flags phys_start sz fl s = Some (True, s)"
  proof
    assume a: "0xFFFFF000 < phys_start + sz \<and> sz \<le> 0xFFFFFFFF - phys_start \<and> 0 < sz"
    define x where "x = phys_start + sz"
    have "unat (x + 0xFFF) = unat x + 0xFFF - 2 ^ 32"
    proof -
      have "0xFFFFF000 < unat x" using a by (simp add: x_def word_less_nat_alt)
      then have "2 ^ 32 \<le> unat x + 0xFFF" by simp
      then show ?thesis using unsigned_less [where ?'a = nat, of x]
        by (simp add: unat_word_ariths mod_if)
    qed
    then have "unat (x + 0xFFF) < 0x1000" using unsigned_less [where ?'a = nat, of x] by simp
    then have "base_of (x + 0xFFF) = 0" using unat_page_base [of "x + 0xFFF"]
      by (simp add: base_of_def) (metis unat_eq_zero)
    then show "map_region_flags phys_start sz fl s = Some (True, s)"
      using a by (simp add: map_region_flags_def Let_def x_def leD)
  qed
  show "0xFFFFFFFF - phys_start < sz \<longrightarrow> map_region_flags phys_start sz fl s =
      (if 0xFFFFF000 \<le> phys_start then Some (True, s) else map_region_flags phys_start (0xFFFFF000 - phys_start) fl s)"
  proof
    assume a: "0xFFFFFFFF - phys_start < sz"
    have sz: "sz \<noteq> 0" using a by auto
    have top: "base_of phys_start = 0xFFFFF000" if "0xFFFFF000 \<le> phys_start"
    proof -
      have "unat (base_of phys_start) = unat phys_start div 0x1000 * 0x1000" using unat_page_base [of phys_start] by (simp add: base_of_def)
      moreover have "0xFFFFF000 \<le> unat phys_start" "unat phys_start < 2 ^ 32" using that unsigned_less [of phys_start] by (simp_all add: word_le_nat_alt)
      then have "unat phys_start div 0x1000 = 0xFFFFF" by (intro div_nat_eqI) simp_all
      ultimately show ?thesis by (simp add: unat_eq_iff [symmetric] del: unat_eq_iff)
    qed
    have cut: "\<not> 0xFFFFFFFF - phys_start < 0xFFFFF000 - phys_start" "base_of (0xFFFFFFFF :: u32) = 0xFFFFF000" "0xFFFFF000 - phys_start \<noteq> 0"
      if "\<not> 0xFFFFF000 \<le> phys_start" using that by (auto simp: base_of_def word_less_nat_alt word_le_nat_alt unat_sub_if_size)
    show "map_region_flags phys_start sz fl s =
      (if 0xFFFFF000 \<le> phys_start then Some (True, s) else map_region_flags phys_start (0xFFFFF000 - phys_start) fl s)"
      using a sz top cut by (auto simp: map_region_flags_def Let_def)
  qed
qed

theorem map_region_terminates_witness:
  "map_region_flags 0xFFFF0000 0xF800 0 vm0 = Some (True, vm0) \<and>
   map_region_flags 0xFFFF0000 0x10000 0 vm0 = map_region_flags 0xFFFF0000 0xF000 0 vm0"
  using map_region_terminates [of "0xFFFF0000" "0xF800" 0 vm0] map_region_terminates [of "0xFFFF0000" "0x10000" 0 vm0] by simp

end
