(* ===== verification/Vmm_Run.thy ===== *)
theory Vmm_Run
  imports Vmm_Properties
begin

text \<open>
  Runs of the page-table code: directories are created, cloned and freed, pages mapped, unmapped and
  protected, faults handled and memory written, in any order. A page that one directory can
  write is seen by no other directory.
\<close>

section \<open>Demand paging\<close>

lemma base_page [simp]: "pd_index (base_of va) = pd_index va" "pt_index (base_of va) = pt_index va"
  using same_page [of "base_of va" va] by simp_all

text \<open>
  A fault on an unmapped page maps it on a frame nobody referred to; when the frame for a table
  is missing, the page stays unmapped and the frame taken for it is lost.
\<close>

lemma anon_fault_result:
  fixes err :: u32
  assumes inv: "vm_inv s D ext" and pd: "task_vm.page_dir t \<in> D" and u: "rd s (kernel_pd s) (pd_index va) = 0"
    and none: "mapped s (task_vm.page_dir t) va = None"
  defines "r \<equiv> try_handle_anon_fault (Some t) va err s"
  shows "\<not> fst r \<Longrightarrow> snd r = s"
    and "fst r \<Longrightarrow> (\<exists>e. remapped s D (task_vm.page_dir t) va (Some e) (snd r) \<and> base_of e \<notin># claims s D) \<and> vm_inv (snd r) D ext \<or>
      (\<forall>pd \<in> D. \<forall>w. mapped (snd r) pd w = mapped s pd w) \<and> vm_inv (snd r) D (ext(fst (alloc_frame s) := 1))"
proof -
  obtain a s1 where al: "alloc_frame s = (a, s1)" by (cases "alloc_frame s")
  have fail: "s1 = s" if "a = PMM_ALLOC_ERROR" by (rule alloc_step(1) [OF inv al that])
  show "\<not> fst r \<Longrightarrow> snd r = s" using al fail unfolding r_def by (auto simp: try_handle_anon_fault_def Let_def split: if_splits)
  assume ok: "fst r"
  let ?pd = "task_vm.page_dir t" let ?z = "wr_page a (\<lambda>_. 0) s1" let ?s = "vmm_map_page ?pd (base_of va) a (VMM_FLAG_USER OR VMM_FLAG_WRITABLE) ?z"
  have got: "a \<noteq> PMM_ALLOC_ERROR" and r: "snd r = ?s"
    using ok al unfolding r_def by (auto simp: try_handle_anon_fault_def Let_def split: if_splits)
  have a: "frame_ok a" "a \<notin> tables s D" "a \<notin># claims s D" "a \<noteq> v2p_pd (kernel_pd s)" "vm_inv s1 D (ext(a := 1))" "ext a = 0"
    using alloc_step(2) [OF inv al got] by blast+
  have mem: "phys_mem ?z = (phys_mem s)(a := \<lambda>_. 0)" "kernel_pd ?z = kernel_pd s" using a(1) alloc_step(3,4) [OF inv al] by simp_all
  have k: "rd ?z (kernel_pd s) = rd s (kernel_pd s)" using mem a(4) by (simp add: rd_def fun_eq_iff)
  have same: "phys_mem ?z b = phys_mem s b" if "b \<in> tables s D" for b using mem that a(2) by auto
  have mz: "mapped ?z pd' w = mapped s pd' w" if "pd' \<in> D" for pd' w by (rule mapped_data [OF mem(2) k same that])
  have iz: "vm_inv ?z D (ext(a := 1))"
    by (rule data_step(1) [OF a(5), of a]) (use a alloc_step(4) [OF inv al] alloc_keeps(2) [OF inv al] in simp_all)
  have uz: "rd ?z (kernel_pd ?z) (pd_index (base_of va)) = 0" using u k mem(2) by simp
  have nz: "held_by ?z ?pd (base_of va) = {#}"
  proof -
    have "mapped ?z ?pd (base_of va) = mapped ?z ?pd va" by (simp add: mapped_def pte_of_def)
    then show ?thesis using mz [OF pd] none by (simp add: held_by_def)
  qed
  note m = map_page_result [OF iz pd uz a(1), of "VMM_FLAG_USER OR VMM_FLAG_WRITABLE"]
  show "(\<exists>e. remapped s D ?pd va (Some e) (snd r) \<and> base_of e \<notin># claims s D) \<and> vm_inv (snd r) D ext \<or>
      (\<forall>pd \<in> D. \<forall>w. mapped (snd r) pd w = mapped s pd w) \<and> vm_inv (snd r) D (ext(fst (alloc_frame s) := 1))"
  proof (cases "\<not> owned ?z ?pd (pd_index (base_of va)) \<and> fst (alloc_frame ?z) = PMM_ALLOC_ERROR")
    case True
    then have "?s = ?z" using m(1) by simp
    then show ?thesis using mz iz al r by simp
  next
    case False
    let ?e = "base_of a OR ((VMM_FLAG_USER OR VMM_FLAG_WRITABLE) AND 0xFFF) OR PAGE_PRESENT"
    have rm: "remapped ?z D ?pd (base_of va) (Some ?e) ?s" and iv: "vm_inv ?s D (\<lambda>f. ((ext(a := 1))(a := (ext(a := 1)) a - 1)) f + count (held_by ?z ?pd (base_of va)) f)"
      using m(2) False by auto
    have "vm_inv ?s D ext" by (rule vm_inv_ext_cong [OF iv]) (simp add: nz a(6))
    moreover have "remapped s D ?pd va (Some ?e) ?s" using rm mz by (simp add: remapped_def)
    moreover have "base_of ?e = a" using new_pte(1) [of a "VMM_FLAG_USER OR VMM_FLAG_WRITABLE"] a(1) by (simp only: frame_ok_def)
    ultimately show ?thesis using a(3) r by metis
  qed
qed

section \<open>Isolation\<close>

text \<open>A frame mapped writable by some page is mapped by no other page.\<close>

definition isolated :: "vm \<Rightarrow> u32 set \<Rightarrow> bool" where
  "isolated s D \<longleftrightarrow> (\<forall>pd1 \<in> D. \<forall>pd2 \<in> D. \<forall>v w e1 e2. mapped s pd1 v = Some e1 \<and> mapped s pd2 w = Some e2 \<and>
     base_of e1 = base_of e2 \<and> frame_ok (base_of e1) \<and> bit e1 1 \<longrightarrow> pd1 = pd2 \<and> base_of v = base_of w)"

lemma isolatedD:
  assumes "isolated s D" "pd1 \<in> D" "pd2 \<in> D" "mapped s pd1 v = Some e1" "mapped s pd2 w = Some e2" "base_of e1 = base_of e2"
    "frame_ok (base_of e1)" "bit e1 1"
  shows "pd1 = pd2 \<and> base_of v = base_of w"
  using assms unfolding isolated_def by blast

lemma isolated_same: "isolated s D \<Longrightarrow> (\<And>pd v. pd \<in> E \<Longrightarrow> mapped s' pd v = mapped s pd v) \<Longrightarrow> E \<subseteq> D \<Longrightarrow> isolated s' E"
  unfolding isolated_def by (metis subsetD)

text \<open>Where else a frame is mapped, and whether writable.\<close>

definition seen_elsewhere :: "vm \<Rightarrow> u32 set \<Rightarrow> u32 \<Rightarrow> u32 \<Rightarrow> u32 \<Rightarrow> u32 \<Rightarrow> bool" where
  "seen_elsewhere s D pd virt f e \<longleftrightarrow> (\<exists>pd' \<in> D. \<exists>w. mapped s pd' w = Some e \<and> base_of e = f \<and> \<not> (pd' = pd \<and> base_of w = base_of virt))"

lemma seen_elsewhereI:
  "pd' \<in> D \<Longrightarrow> mapped s pd' w = Some e \<Longrightarrow> base_of e = f \<Longrightarrow> \<not> (pd' = pd \<and> base_of w = base_of virt) \<Longrightarrow> seen_elsewhere s D pd virt f e"
  unfolding seen_elsewhere_def by blast

lemma isolated_remap:
  assumes iso: "isolated s D" and rm: "remapped s D pd virt r s'"
    and new: "\<And>e e'. r = Some e \<Longrightarrow> frame_ok (base_of e) \<Longrightarrow> seen_elsewhere s D pd virt (base_of e) e' \<Longrightarrow> \<not> bit e 1 \<and> \<not> bit e' 1"
  shows "isolated s' D"
  unfolding isolated_def
proof (intro ballI allI impI, elim conjE)
  fix pd1 pd2 v w e1 e2
  assume d: "pd1 \<in> D" "pd2 \<in> D" and m: "mapped s' pd1 v = Some e1" "mapped s' pd2 w = Some e2"
    and b: "base_of e1 = base_of e2" "frame_ok (base_of e1)" and wr: "bit e1 1"
  let ?here = "\<lambda>p x. p = pd \<and> base_of x = base_of virt"
  have e: "mapped s' p x = (if ?here p x then r else mapped s p x)" if "p \<in> D" for p x using rm that by (simp add: remapped_def)
  show "pd1 = pd2 \<and> base_of v = base_of w"
  proof (cases "?here pd1 v"; cases "?here pd2 w")
    assume h: "?here pd1 v" "\<not> ?here pd2 w"
    then have "r = Some e1" "mapped s pd2 w = Some e2"
      using m e [OF d(1), of v] e [OF d(2), of w] by (simp_all only: if_True if_False simp_thms)
    moreover from seen_elsewhereI [OF d(2) this(2) b(1) [symmetric] h(2)] have "seen_elsewhere s D pd virt (base_of e1) e2" .
    ultimately show ?thesis using new b wr by blast
  next
    assume h: "\<not> ?here pd1 v" "?here pd2 w"
    then have "r = Some e2" "mapped s pd1 v = Some e1"
      using m e [OF d(1), of v] e [OF d(2), of w] by (simp_all only: if_True if_False simp_thms)
    moreover from seen_elsewhereI [OF d(1) this(2) b(1) h(1)] have "seen_elsewhere s D pd virt (base_of e2) e1" .
    ultimately show ?thesis using new b wr by metis
  next
    assume h: "\<not> ?here pd1 v" "\<not> ?here pd2 w"
    then have "mapped s pd1 v = Some e1" "mapped s pd2 w = Some e2" using m e [OF d(1)] e [OF d(2)] by auto
    then show ?thesis using isolatedD [OF iso d _ _ b wr] by blast
  qed simp
qed

lemma unclaimed_unseen: "frame_ok f \<Longrightarrow> f \<notin># claims s D \<Longrightarrow> \<not> seen_elsewhere s D pd virt f e"
  using mapped_claimed unfolding seen_elsewhere_def by blast

lemma isolated_clone:
  assumes iso: "isolated s D" and par: "parent \<in> D"
    and m: "\<And>v. mapped s' child v = map_option cow (mapped s parent v)" "\<And>v. mapped s' parent v = map_option cow (mapped s parent v)"
      "\<And>pd v. pd \<in> D - {parent} \<Longrightarrow> mapped s' pd v = mapped s pd v"
  shows "isolated s' (insert child D)"
  unfolding isolated_def
proof (intro ballI allI impI, elim conjE)
  fix pd1 pd2 v w e1 e2
  assume d: "pd1 \<in> insert child D" "pd2 \<in> insert child D" and e: "mapped s' pd1 v = Some e1" "mapped s' pd2 w = Some e2"
    and b: "base_of e1 = base_of e2" "frame_ok (base_of e1)" and wr: "bit e1 1"
  have cow: "\<not> bit (cow e) 1" if "mapped s parent x = Some e" for x e using cow_facts(5) mapped_entry(3) [OF that] by blast
  have p1: "pd1 \<notin> {child, parent}" using e(1) wr m(1,2) cow by auto
  then have d1: "pd1 \<in> D - {parent}" using d(1) by auto
  then have e1: "mapped s pd1 v = Some e1" using e(1) m(3) by simp
  show "pd1 = pd2 \<and> base_of v = base_of w"
  proof (cases "pd2 \<in> {child, parent}")
    case True
    then obtain e0 where "mapped s parent w = Some e0" "e2 = cow e0" using e(2) m(1,2) by auto
    then have "pd1 = parent" using isolatedD [OF iso _ par e1, of w e0] d1 b wr cow_facts(1) by auto
    then show ?thesis using d1 by simp
  next
    case False
    then have "pd2 \<in> D - {parent}" using d(2) by auto
    then show ?thesis using isolatedD [OF iso _ _ e1 _ b wr, of pd2 w] d1 e(2) m(3) by auto
  qed
qed

lemma isolated_weaken:
  assumes iso: "isolated s D" and m: "\<forall>pd \<in> D. \<forall>v. mapped s' pd v \<in> {mapped s pd v, map_option cow (mapped s pd v)}"
  shows "isolated s' D"
  unfolding isolated_def
proof (intro ballI allI impI, elim conjE)
  fix pd1 pd2 v w e1 e2
  assume d: "pd1 \<in> D" "pd2 \<in> D" and e: "mapped s' pd1 v = Some e1" "mapped s' pd2 w = Some e2"
    and b: "base_of e1 = base_of e2" "frame_ok (base_of e1)" and wr: "bit e1 1"
  have old: "\<exists>e0. mapped s p x = Some e0 \<and> base_of e0 = base_of e \<and> (bit e 1 \<longrightarrow> bit e0 1)" if pe: "p \<in> D" "mapped s' p x = Some e" for p x e
  proof -
    obtain e0 where e0: "mapped s p x = Some e0" "e = e0 \<or> e = cow e0" using m pe by (auto dest!: bspec spec [of _ x])
    have "bit e 1 \<longrightarrow> bit e0 1" using e0(2) cow_facts(5) mapped_entry(3) [OF e0(1)] by blast
    then show ?thesis using e0 cow_facts(1) by auto
  qed
  obtain f1 f2 where "mapped s pd1 v = Some f1" "base_of f1 = base_of e1" "bit f1 1" "mapped s pd2 w = Some f2" "base_of f2 = base_of e2"
    using old [OF d(1) e(1)] old [OF d(2) e(2)] wr by blast
  then show "pd1 = pd2 \<and> base_of v = base_of w" using isolatedD [OF iso d] b by metis
qed

section \<open>Runs\<close>

text \<open>
  \<open>D\<close> are the live directories, \<open>ext\<close> the references to frames held outside them. A frame mapped writable is
  one that no page maps yet, and a frame that some page can write is not mapped again; a
  page whose frame is shared is not made writable by a change of protection.
\<close>

inductive vm_run :: "vm \<Rightarrow> u32 set \<Rightarrow> (u32 \<Rightarrow> nat) \<Rightarrow> bool" where
  boot: "pmm_inv (pool s) \<Longrightarrow> kernel_ok s \<Longrightarrow> vm_run s {} (\<lambda>f. frame_refs (pool s) (f div 0x1000))"
| create: "vm_run s D ext \<Longrightarrow> vmm_create_pd s = (pd, s') \<Longrightarrow> vm_run s' (if pd = 0 then D else insert pd D) ext"
| clone: "vm_run s D ext \<Longrightarrow> parent \<in> D \<Longrightarrow> user_ptes s parent \<Longrightarrow>
    \<forall>f. frame_ok f \<longrightarrow> frame_refs (pool s) (f div 0x1000) + mappings s parent f \<le> 255 \<Longrightarrow>
    vmm_clone_pd_cow parent s = (child, s') \<Longrightarrow> vm_run s' (if child = 0 then D else insert child D) ext"
| free_pd: "vm_run s D ext \<Longrightarrow> pd \<in> D \<Longrightarrow> vm_run (vmm_free_pd pd s) (D - {pd}) ext"
| switch: "vm_run s D ext \<Longrightarrow> vm_run (vmm_switch pd s) D ext"
| take: "vm_run s D ext \<Longrightarrow> alloc_frame s = (a, s') \<Longrightarrow> vm_run s' D (if a = PMM_ALLOC_ERROR then ext else ext(a := 1))"
| share: "vm_run s D ext \<Longrightarrow> frame_ok a \<Longrightarrow> 0 < frame_refs (pool s) (a div 0x1000) \<Longrightarrow> frame_refs (pool s) (a div 0x1000) < 255 \<Longrightarrow>
    vm_run (inc_ref a s) D (ext(a := ext a + 1))"
| give_back: "vm_run s D ext \<Longrightarrow> frame_ok a \<Longrightarrow> 0 < ext a \<Longrightarrow> vm_run (free_frame a s) D (ext(a := ext a - 1))"
| store: "vm_run s D ext \<Longrightarrow> frame_ok a \<Longrightarrow> a \<notin> tables s D \<Longrightarrow> a \<noteq> v2p_pd (kernel_pd s) \<Longrightarrow> vm_run (wr_page a pg s) D ext"
| map: "vm_run s D ext \<Longrightarrow> pd \<in> D \<Longrightarrow> rd s (kernel_pd s) (pd_index virt) = 0 \<Longrightarrow> frame_ok phys \<Longrightarrow> 0 < ext phys \<Longrightarrow>
    (\<And>e. seen_elsewhere s D pd virt phys e \<Longrightarrow> \<not> bit flags 1 \<and> \<not> bit e 1) \<Longrightarrow>
    vm_run (vmm_map_page pd virt phys flags s) D
      (if mapped (vmm_map_page pd virt phys flags s) pd virt = None then ext
       else (\<lambda>f. (ext(phys := ext phys - 1)) f + count (held_by s pd virt) f))"
| unmap: "vm_run s D ext \<Longrightarrow> pd \<in> D \<Longrightarrow> rd s (kernel_pd s) (pd_index virt) = 0 \<Longrightarrow>
    vm_run (vmm_unmap_page pd virt s) D (\<lambda>f. ext f + count (held_by s pd virt) f)"
| unmap_free: "vm_run s D ext \<Longrightarrow> pd \<in> D \<Longrightarrow> rd s (kernel_pd s) (pd_index virt) = 0 \<Longrightarrow> vm_run (vmm_unmap_and_free pd virt s) D ext"
| protect: "vm_run s D ext \<Longrightarrow> pd \<in> D \<Longrightarrow> rd s (kernel_pd s) (pd_index virt) = 0 \<Longrightarrow>
    (\<And>e e'. mapped s pd virt = Some e \<Longrightarrow> seen_elsewhere s D pd virt (base_of e) e' \<Longrightarrow> \<not> bit flags 1) \<Longrightarrow>
    vm_run (vmm_protect_page pd virt flags s) D ext"
| cow_fault: "vm_run s D ext \<Longrightarrow> base_of (cr3 s) \<in> D \<Longrightarrow> rd s (kernel_pd s) (pd_index va) = 0 \<Longrightarrow>
    \<forall>e. mapped s (base_of (cr3 s)) va = Some e \<longrightarrow> frame_ok (base_of e) \<and> \<not> bit e 1 \<Longrightarrow>
    vm_run (snd (try_handle_cow_fault va err s)) D ext"
| anon_fault: "vm_run s D ext \<Longrightarrow> task_vm.page_dir t \<in> D \<Longrightarrow> rd s (kernel_pd s) (pd_index va) = 0 \<Longrightarrow> mapped s (task_vm.page_dir t) va = None \<Longrightarrow>
    vm_run (snd (try_handle_anon_fault (Some t) va err s)) D
      (if fst (try_handle_anon_fault (Some t) va err s) \<and> mapped (snd (try_handle_anon_fault (Some t) va err s)) (task_vm.page_dir t) va = None
       then ext(fst (alloc_frame s) := 1) else ext)"

lemma new_pte_writable: "bit (base_of p OR (f AND 0xFFF) OR (1 :: u32)) 1 \<longleftrightarrow> bit f 1"
  by (auto simp: entry_bits)

lemma boot_inv: "pmm_inv (pool s) \<Longrightarrow> kernel_ok s \<Longrightarrow> vm_inv s {} (\<lambda>f. frame_refs (pool s) (f div 0x1000))"
  by (simp add: vm_inv_def vm_wf_def claims_def slots_def)

lemma map_keeps:
  assumes i: "vm_inv s D ext" "isolated s D" and pd: "pd \<in> D" and u: "rd s (kernel_pd s) (pd_index virt) = 0" and ph: "frame_ok phys" "0 < ext phys"
    and g: "\<And>e. seen_elsewhere s D pd virt phys e \<Longrightarrow> \<not> bit flags 1 \<and> \<not> bit e 1"
  defines "s' \<equiv> vmm_map_page pd virt phys flags s"
  shows "vm_inv s' D (if mapped s' pd virt = None then ext else (\<lambda>f. (ext(phys := ext phys - 1)) f + count (held_by s pd virt) f)) \<and> isolated s' D"
proof (cases "\<not> owned s pd (pd_index virt) \<and> fst (alloc_frame s) = PMM_ALLOC_ERROR")
  case True
  then have "s' = s" "mapped s pd virt = None" using map_page_result(1) [OF i(1) pd u ph, of flags] by (auto simp: s'_def mapped_def)
  then show ?thesis using i by simp
next
  case False
  let ?v = "base_of phys OR (flags AND 0xFFF) OR PAGE_PRESENT"
  have rm: "remapped s D pd virt (Some ?v) s'" and iv: "vm_inv s' D (\<lambda>f. (ext(phys := ext phys - 1)) f + count (held_by s pd virt) f)"
    using map_page_result(2) [OF i(1) pd u ph, of flags] False by (auto simp: s'_def)
  have b: "base_of ?v = phys" "bit ?v 1 = bit flags 1"
    using new_pte(1) [of phys flags] new_pte_writable [of phys flags] ph(1) unfolding frame_ok_def by metis+
  have "isolated s' D" by (rule isolated_remap [OF i(2) rm]) (use g b in auto)
  moreover have "mapped s' pd virt = Some ?v" using rm pd by (simp add: remapped_def)
  ultimately show ?thesis using iv by simp
qed

lemma protect_keeps:
  assumes i: "vm_inv s D ext" "isolated s D" and pd: "pd \<in> D" and u: "rd s (kernel_pd s) (pd_index virt) = 0"
    and g: "\<And>e e'. mapped s pd virt = Some e \<Longrightarrow> seen_elsewhere s D pd virt (base_of e) e' \<Longrightarrow> \<not> bit flags 1"
  shows "isolated (vmm_protect_page pd virt flags s) D"
proof (rule isolated_remap [OF i(2) protect_result(1) [OF i(1) pd u]])
  fix e e' assume r: "map_option (\<lambda>e. base_of e OR (flags AND 0xFFF) OR PAGE_PRESENT) (mapped s pd virt) = Some e"
    and f: "frame_ok (base_of e)" and seen: "seen_elsewhere s D pd virt (base_of e) e'"
  then obtain e0 where e0: "mapped s pd virt = Some e0" "e = base_of e0 OR (flags AND 0xFFF) OR PAGE_PRESENT" by auto
  then have b: "base_of e = base_of e0" "bit e 1 = bit flags 1" by (simp_all only: e0(2) new_pte(1) new_pte_writable)
  then have nf: "\<not> bit flags 1" using g [OF e0(1)] seen by simp
  obtain pd' w where s: "pd' \<in> D" "mapped s pd' w = Some e'" "base_of e' = base_of e" "\<not> (pd' = pd \<and> base_of w = base_of virt)"
    using seen by (auto simp: seen_elsewhere_def)
  have "\<not> bit e' 1" using isolatedD [OF i(2) s(1) pd s(2) e0(1)] s(3,4) b(1) f by auto
  then show "\<not> bit e 1 \<and> \<not> bit e' 1" using nf b(2) by simp
qed

lemma cow_keeps:
  assumes i: "vm_inv s D ext" "isolated s D" and pd: "base_of (cr3 s) \<in> D" and u: "rd s (kernel_pd s) (pd_index va) = 0"
    and ok: "\<forall>e. mapped s (base_of (cr3 s)) va = Some e \<longrightarrow> frame_ok (base_of e) \<and> \<not> bit e 1"
  shows "isolated (snd (try_handle_cow_fault va err s)) D"
proof -
  have ok': "\<forall>e. mapped s (base_of (cr3 s)) va = Some e \<longrightarrow> frame_ok (base_of e)" using ok by blast
  from cow_fault_result(1) [OF i(1) pd u ok', of err] show ?thesis
  proof
    assume "\<exists>e e'. mapped s (base_of (cr3 s)) va = Some e \<and> remapped s D (base_of (cr3 s)) va (Some e') (snd (try_handle_cow_fault va err s)) \<and>
       (base_of e' = base_of e \<and> frame_refs (pool s) (base_of e div 0x1000) \<le> 1 \<or> base_of e' \<notin># claims s D)"
    then obtain e e' where e: "mapped s (base_of (cr3 s)) va = Some e" "remapped s D (base_of (cr3 s)) va (Some e') (snd (try_handle_cow_fault va err s))"
      "base_of e' = base_of e \<and> frame_refs (pool s) (base_of e div 0x1000) \<le> 1 \<or> base_of e' \<notin># claims s D" by blast
    have "\<not> seen_elsewhere s D (base_of (cr3 s)) va (base_of e') e''" if f: "frame_ok (base_of e')" for e''
      using e(3)
    proof
      assume one: "base_of e' = base_of e \<and> frame_refs (pool s) (base_of e div 0x1000) \<le> 1"
      then have "count (claims s D) (base_of e') \<le> 1" using i(1) f by (simp add: vm_inv_def)
      moreover have "2 \<le> count (claims s D) (base_of e')" if seen: "seen_elsewhere s D (base_of (cr3 s)) va (base_of e') e''"
      proof -
        obtain pd' w where p: "pd' \<in> D" "mapped s pd' w = Some e''" "base_of e'' = base_of e'" "\<not> (pd' = base_of (cr3 s) \<and> base_of w = base_of va)"
          using seen unfolding seen_elsewhere_def by blast
        show ?thesis by (rule two_mappings [OF p(1) pd p(2) e(1) p(3) _ f p(4)]) (use one in simp)
      qed
      ultimately show ?thesis by fastforce
    qed (use unclaimed_unseen [OF f] in blast)
    then show ?thesis by (intro isolated_remap [OF i(2) e(2)]) auto
  qed (simp add: i(2))
qed

lemma vm_run_keeps: "vm_run s D ext \<Longrightarrow> vm_inv s D ext \<and> isolated s D"
proof (induction rule: vm_run.induct)
  case (boot s) then show ?case using boot_inv by (simp add: isolated_def)
next
  case (create s D ext pd s')
  then have i: "vm_inv s D ext" "isolated s D" by blast+
  note c = create_step [OF i(1) create.hyps(2)]
  show ?case
  proof (cases "pd = 0")
    case False
    have kd: "kernel_pd s' = kernel_pd s" "rd s' (kernel_pd s) = rd s (kernel_pd s)" "slots s' (insert pd D) = slots s D" "pd \<notin> tables s D"
      "\<And>t. t \<noteq> pd \<Longrightarrow> phys_mem s' t = phys_mem s t" using c False by simp_all
    have t: "phys_mem s' t = phys_mem s t" if "t \<in> tables s D" for t using kd(4,5) that by metis
    have old: "mapped s' d v = mapped s d v" if "d \<in> D" for d v by (rule mapped_data [OF kd(1,2) t that])
    have "\<not> owned s' pd j" for j using kd(3,4) by (auto simp: slots_def tables_def)
    then have new: "mapped s' pd v = None" for v by (simp add: mapped_def)
    have "isolated s' D" by (rule isolated_same [OF i(2) old]) simp_all
    then have "isolated s' (insert pd D)" unfolding isolated_def using new by (metis insert_iff option.distinct(1))
    then show ?thesis using c False by simp
  qed (use c i in simp)
next
  case (clone s D ext parent child s')
  then have i: "vm_inv s D ext" "isolated s D" by blast+
  have sat: "\<forall>f. frame_ok f \<longrightarrow> ext f + count (claims s D) f + mappings s parent f \<le> 255" using clone.hyps(4) i(1) by (simp add: vm_inv_def)
  note c = clone_correct [OF i(1) clone.hyps(2,3) sat clone.hyps(5)]
  show ?case
  proof (cases "child = 0")
    case False
    then have "isolated s' (insert child D)" using c by (intro isolated_clone [OF i(2) clone.hyps(2)]) simp_all
    then show ?thesis using c False by simp
  next
    case True
    then have "isolated s' D" using c by (intro isolated_weaken [OF i(2)]) simp
    then show ?thesis using c True by simp
  qed
next
  case (free_pd s D ext pd)
  then have i: "vm_inv s D ext" "isolated s D" by blast+
  have "pmm_inv (pool s)" using i(1) by (simp add: vm_inv_def)
  note d = free_pd_dropped [OF this pd_frame_ok [OF i(1) free_pd.hyps(2)]]
  have "mapped (vmm_free_pd pd s) p v = mapped s p v" for p v by (rule mapped_cong) (rule dropped_inv(2,3) [OF d])+
  then have "isolated (vmm_free_pd pd s) (D - {pd})" by (intro isolated_same [OF i(2)]) auto
  then show ?case using free_pd_step [OF i(1) free_pd.hyps(2)] by blast
next
  case (switch s D ext pd)
  then show ?case using vm_inv_cr3 isolated_same [of s D D "vmm_switch pd s"] mapped_cong [of "vmm_switch pd s" s] by (simp add: vmm_switch_def)
next
  case (take s D ext a s')
  then have i: "vm_inv s D ext" "isolated s D" by blast+
  note a = alloc_step [OF i(1) take.hyps(2)]
  have "isolated s' D" by (rule isolated_same [OF i(2) mapped_cong [OF a(3,4)]]) simp_all
  then show ?case using a(1,2) i(1) by simp
next
  case (share s D ext a)
  then have i: "vm_inv s D ext" "isolated s D" by blast+
  have "isolated (inc_ref a s) D" by (rule isolated_same [OF i(2) mapped_cong]) (simp_all add: inc_ref_def)
  moreover have "vm_inv (inc_ref a s) D (ext(a := ext a + 1))"
    by (rule inc_step [OF i(1) share.hyps(2)]) (use share.hyps i(1) in \<open>simp_all add: vm_inv_def\<close>)
  ultimately show ?case by blast
next
  case (give_back s D ext a)
  then have i: "vm_inv s D ext" "isolated s D" by blast+
  have "isolated (free_frame a s) D" by (rule isolated_same [OF i(2) mapped_cong]) (simp_all add: free_frame_def)
  then show ?case using free_step [OF i(1) give_back.hyps(2,3)] by blast
next
  case (store s D ext a pg)
  then have i: "vm_inv s D ext" "isolated s D" by blast+
  let ?s = "wr_page a pg s"
  have m: "phys_mem ?s = (phys_mem s)(a := pg)" "kernel_pd ?s = kernel_pd s" using store.hyps(2) by simp_all
  have "mapped ?s p v = mapped s p v" if "p \<in> D" for p v
    by (rule mapped_data [OF m(2) _ _ that]) (use m(1) store.hyps in \<open>auto simp: rd_def fun_eq_iff\<close>)
  then have "isolated ?s D" by (intro isolated_same [OF i(2)]) simp_all
  then show ?case using data_step(1) [OF i(1) store.hyps(3,4) m(1) _ m(2)] by simp
next
  case (map s D ext pd virt phys flags)
  then show ?case using map_keeps [of s D ext pd virt phys flags] by blast
next
  case (unmap s D ext pd virt)
  then have i: "vm_inv s D ext" "isolated s D" by blast+
  note u = unmap_result [OF i(1) unmap.hyps(2,3)]
  show ?case using u(2) isolated_remap [OF i(2) u(1)] by blast
next
  case (unmap_free s D ext pd virt)
  then have i: "vm_inv s D ext" "isolated s D" by blast+
  note u = unmap_result [OF i(1) unmap_free.hyps(2,3)]
  show ?case using u(4) isolated_remap [OF i(2) u(3)] by blast
next
  case (protect s D ext pd virt flags)
  then show ?case using protect_keeps [of s D ext pd virt flags] protect_result(2) [of s D ext pd virt flags] by blast
next
  case (cow_fault s D ext va err)
  then show ?case using cow_keeps [of s D ext va err] cow_fault_result(2) [of s D ext va err] by blast
next
  case (anon_fault s D ext t va err)
  then have i: "vm_inv s D ext" "isolated s D" by blast+
  let ?r = "try_handle_anon_fault (Some t) va err s"
  note A = anon_fault_result [OF i(1) anon_fault.hyps(2-4), of err]
  show ?case
  proof (cases "fst ?r")
    case True
    from A(2) [OF True] show ?thesis
    proof
      assume "(\<exists>e. remapped s D (task_vm.page_dir t) va (Some e) (snd ?r) \<and> base_of e \<notin># claims s D) \<and> vm_inv (snd ?r) D ext"
      then obtain e where e: "remapped s D (task_vm.page_dir t) va (Some e) (snd ?r)" "base_of e \<notin># claims s D" "vm_inv (snd ?r) D ext" by blast
      have "isolated (snd ?r) D" by (rule isolated_remap [OF i(2) e(1)]) (use unclaimed_unseen e(2) in auto)
      moreover have "mapped (snd ?r) (task_vm.page_dir t) va = Some e" using e(1) anon_fault.hyps(2) by (simp add: remapped_def)
      ultimately show ?thesis using e(3) by simp
    next
      assume a: "(\<forall>pd \<in> D. \<forall>w. mapped (snd ?r) pd w = mapped s pd w) \<and> vm_inv (snd ?r) D (ext(fst (alloc_frame s) := 1))"
      then have "isolated (snd ?r) D" by (intro isolated_same [OF i(2)]) simp_all
      then show ?thesis using a True anon_fault.hyps(2,4) by (simp add: fun_upd_def)
    qed
  qed (use A(1) i in simp)
qed

text \<open>
  C6. Memory isolation. Start with no directories and let directories be created, cloned, freed and
  switched to, frames be taken, shared and given back, pages at user addresses be mapped, unmapped and protected, write
  faults on pages that are not writable and demand faults on pages that are not there be handled, and data pages be written, in
  any order, under these conditions: frames are mapped writable only while no other page maps them, and a frame that some page can write is
  not mapped a second time; a page on a shared frame is not made writable by a change of protection; data writes
  go to no page table; a directory that is cloned has user pages only, and its frames' counts stay below their saturation at 255.
  Then at every moment a page that some directory can write is on a frame that no other page, of this or any other
  directory, maps; and a frame that is mapped has a reference, and is not what the allocator or a new directory gets next.
\<close>

theorem vm_isolation:
  assumes run: "vm_run s D ext" and d: "pd1 \<in> D" "pd2 \<in> D" and m: "mapped s pd1 v = Some e1" and ok: "frame_ok (base_of e1)"
  shows "(\<forall>w e2. mapped s pd2 w = Some e2 \<and> base_of e2 = base_of e1 \<and> (bit e1 1 \<or> bit e2 1) \<longrightarrow> pd1 = pd2 \<and> base_of v = base_of w) \<and>
    0 < frame_refs (pool s) (base_of e1 div 0x1000) \<and> fst (alloc_frame s) \<noteq> base_of e1 \<and> fst (vmm_create_pd s) \<noteq> base_of e1"
proof -
  have i: "vm_inv s D ext" "isolated s D" using vm_run_keeps [OF run] by blast+
  have iso: "pd1 = pd2 \<and> base_of v = base_of w" if "mapped s pd2 w = Some e2 \<and> base_of e2 = base_of e1 \<and> (bit e1 1 \<or> bit e2 1)" for w e2
    using that isolatedD [OF i(2) d m, of w e2] isolatedD [OF i(2) d(2,1) _ m, of w e2] ok by metis
  have c: "base_of e1 \<in># claims s D" by (rule mapped_claimed [OF d(1) m ok])
  then have r: "0 < frame_refs (pool s) (base_of e1 div 0x1000)" using i(1) ok by (simp add: vm_inv_def)
  obtain a t where al: "alloc_frame s = (a, t)" by (cases "alloc_frame s")
  have na: "a \<noteq> base_of e1"
  proof (cases "a = PMM_ALLOC_ERROR")
    case True
    then show ?thesis using ok by (auto simp: frame_ok_def)
  qed (use alloc_step(2) [OF i(1) al] c in blast)
  moreover have "fst (vmm_create_pd s) = (if a = PMM_ALLOC_ERROR then 0 else a)"
    using create_pd_pool(2) [of s] alloc_frame_pool(1) [of s] al by simp
  ultimately have "fst (vmm_create_pd s) \<noteq> base_of e1" using ok by (auto simp: frame_ok_def)
  then show ?thesis using iso r na al by auto
qed

lemma vm3_run: "vm_run vm3 {vm1_pd} (\<lambda>_. 0)"
proof -
  have i0: "pmm_inv (pool vm0)" "kernel_ok vm0" using vm0_inv by (simp_all add: vm_inv_def)
  have z: "frame_refs (pool vm0) p = 0" for p by (simp add: vm0_def pool7_facts)
  have r0: "vm_run vm0 {} (\<lambda>_. 0)" using vm_run.boot [OF i0] by (simp add: z)
  have r1: "vm_run vm1 {vm1_pd} (\<lambda>_. 0)" using vm_run.create [OF r0, of vm1_pd vm1] vm1_facts(1) by (simp add: vm1_pd_def vm1_def)
  have al: "alloc_frame vm1 = (vm2_frame, vm2)" by (simp add: vm2_frame_def vm2_def)
  have "\<not> frame_ok PMM_ALLOC_ERROR" by (simp add: frame_ok_def)
  then have "vm2_frame \<noteq> PMM_ALLOC_ERROR" using vm3_facts(7) by metis
  then have r2: "vm_run vm2 {vm1_pd} ((\<lambda>_. 0)(vm2_frame := 1))" using vm_run.take [OF r1 al] by simp
  have "vm_run vm3 {vm1_pd} (if mapped vm3 vm1_pd 0x40000000 = None then (\<lambda>_. 0)(vm2_frame := 1)
      else (\<lambda>f. (((\<lambda>_. 0)(vm2_frame := 1))(vm2_frame := ((\<lambda>_. 0)(vm2_frame := 1)) vm2_frame - 1)) f + count (held_by vm2 vm1_pd 0x40000000) f))"
    unfolding vm3_def
    by (rule vm_run.map [OF r2]) (use vm2_facts(3,6) vm3_facts(7) in \<open>auto simp: seen_elsewhere_def\<close>)
  moreover have "mapped vm3 vm1_pd 0x40000000 \<noteq> None" using vm3_facts(2,8) by (simp add: mapped_def)
  moreover have "held_by vm2 vm1_pd 0x40000000 = {#}" by (simp add: held_by_def vm2_facts(6))
  moreover have "(\<lambda>f. (((\<lambda>_. 0)(vm2_frame := 1 :: nat))(vm2_frame := ((\<lambda>_. 0)(vm2_frame := 1)) vm2_frame - 1)) f + count {#} f) = (\<lambda>_. 0)" by auto
  ultimately show ?thesis by simp
qed

theorem vm_isolation_witness:
  "\<exists>child s' e. vmm_clone_pd_cow vm1_pd vm3 = (child, s') \<and> child \<noteq> vm1_pd \<and> vm_run s' {child, vm1_pd} (\<lambda>_. 0) \<and>
     mapped s' vm1_pd 0x40000000 = Some e \<and> mapped s' child 0x40000000 = Some e \<and> \<not> bit e 1 \<and> fst (alloc_frame s') \<noteq> base_of e"
proof -
  have sat: "\<forall>f. frame_ok f \<longrightarrow> 0 + count (claims vm3 {vm1_pd}) f + mappings vm3 vm1_pd f \<le> 255" using vm3_unsaturated by blast
  obtain c s' where cl: "vmm_clone_pd_cow vm1_pd vm3 = (c, s')" by (cases "vmm_clone_pd_cow vm1_pd vm3")
  have c0: "c \<noteq> 0" using clone_succeeds [OF vm3_facts(1) _ vm3_facts(3) sat vm3_enough] cl by simp
  let ?e = "pte_of vm3 vm1_pd 0x40000000"
  have m: "mapped vm3 vm1_pd 0x40000000 = Some ?e" using vm3_facts(2,8) by (simp add: mapped_def)
  have m': "mapped s' c 0x40000000 = Some (cow ?e)" "mapped s' vm1_pd 0x40000000 = Some (cow ?e)" "c \<noteq> vm1_pd"
    using clone_correct [OF vm3_facts(1) _ vm3_facts(3) sat cl] c0 m by simp_all
  have "\<forall>f. frame_ok f \<longrightarrow> frame_refs (pool vm3) (f div 0x1000) + mappings vm3 vm1_pd f \<le> 255"
    using sat vm3_facts(1) by (simp add: vm_inv_def)
  from vm_run.clone [OF vm3_run _ vm3_facts(3) this cl] c0 have r: "vm_run s' {c, vm1_pd} (\<lambda>_. 0)" by simp
  have b: "base_of (cow ?e) = vm2_frame" "frame_ok (base_of (cow ?e))" using vm3_facts(6,7) cow_facts(1) by simp_all
  note t = vm_isolation [OF r _ _ m'(2) b(2), of c]
  then have "\<not> bit (cow ?e) 1" "fst (alloc_frame s') \<noteq> base_of (cow ?e)" using m' by auto
  then show ?thesis using cl m' r by (intro exI [of _ c] exI [of _ s'] exI [of _ "cow ?e"]) simp
qed

end
