(* ===== verification/Inflate.thy ===== *)
theory Inflate
  imports Makar_Prelude "HOL-Library.Monad_Syntax"
begin

text \<open>
  The DEFLATE decompressor of \<^verbatim>\<open>fs/inflate.c\<close>. Every array access goes through
  \<open>idx\<close> and \<open>upd\<close>, so that \<open>None\<close> stands for an access outside its array,
  which C leaves undefined, or for a loop that does not end; a decoding error is a value, the code's \<open>-1\<close> with the
  \<open>error\<close> flag. Positions are natural numbers, with the 32-bit wrap-around written out in
  the sums the code compares with a length. What the stack arrays hold before they are
  written is an argument (\<open>h0\<close>, \<open>l0\<close>).
\<close>

definition idx :: "'a list \<Rightarrow> int \<Rightarrow> 'a option" where
  "idx xs i = (if 0 \<le> i \<and> i < int (length xs) then Some (xs ! nat i) else None)"

definition upd :: "'a list \<Rightarrow> int \<Rightarrow> 'a \<Rightarrow> 'a list option" where
  "upd xs i v = (if 0 \<le> i \<and> i < int (length xs) then Some (xs[nat i := v]) else None)"

abbreviation "INF_MAXBITS \<equiv> 15 :: nat"
abbreviation "INF_MAXLCODES \<equiv> 286 :: int"
abbreviation "INF_MAXDCODES \<equiv> 30 :: int"
abbreviation "INF_MAXCODES \<equiv> 316 :: nat"

record inf_state =
  src :: "u8 list"
  src_pos :: nat
  bitbuf :: nat
  bitcnt :: nat
  dst :: "u8 list"
  dst_pos :: nat
  error :: bool

record inf_huff =
  count_of :: "int list"
  symbol :: "int list"

definition inf_getbit :: "inf_state \<Rightarrow> (nat \<times> inf_state) option" where
  "inf_getbit s =
     (let take_bit1 = (\<lambda>s. (bitbuf s mod 2, s\<lparr>bitbuf := bitbuf s div 2, bitcnt := bitcnt s - 1\<rparr>)) in
      if bitcnt s = 0 then
        if length (src s) \<le> src_pos s then Some (0, s\<lparr>error := True\<rparr>)
        else do {
          b \<leftarrow> idx (src s) (int (src_pos s));
          Some (take_bit1 (s\<lparr>bitbuf := unat b, src_pos := src_pos s + 1, bitcnt := 8\<rparr>))
        }
      else Some (take_bit1 s))"

fun inf_getbits_from :: "nat \<Rightarrow> nat \<Rightarrow> nat \<Rightarrow> inf_state \<Rightarrow> (nat \<times> inf_state) option" where
  "inf_getbits_from i 0 v s = Some (v, s)"
| "inf_getbits_from i (Suc n) v s = do {
     (b, s) \<leftarrow> inf_getbit s;
     inf_getbits_from (i + 1) n (v OR push_bit i b) s
   }"

definition inf_getbits :: "inf_state \<Rightarrow> nat \<Rightarrow> (nat \<times> inf_state) option" where
  "inf_getbits s n = inf_getbits_from 0 n 0 s"

section \<open>Canonical Huffman codes\<close>

text \<open>The loops of \<open>inf_build\<close>: code counts, first offsets, and the symbol table.\<close>

fun count_lengths :: "u8 list \<Rightarrow> int list \<Rightarrow> int list option" where
  "count_lengths [] c = Some c"
| "count_lengths (l # ls) c = do {
     k \<leftarrow> idx c (uint l);
     c \<leftarrow> upd c (uint l) (k + 1);
     count_lengths ls c
   }"

fun offsets :: "nat \<Rightarrow> nat \<Rightarrow> int list \<Rightarrow> int list \<Rightarrow> int list option" where
  "offsets len 0 c offs = Some offs"
| "offsets len (Suc n) c offs = do {
     p \<leftarrow> idx offs (int len);
     k \<leftarrow> idx c (int len);
     offs \<leftarrow> upd offs (int len + 1) (p + k);
     offsets (len + 1) n c offs
   }"

fun place_symbols :: "nat \<Rightarrow> u8 list \<Rightarrow> int list \<Rightarrow> int list \<Rightarrow> int list option" where
  "place_symbols sy [] offs syms = Some syms"
| "place_symbols sy (l # ls) offs syms =
     (if l \<noteq> 0 then do {
        p \<leftarrow> idx offs (uint l);
        syms \<leftarrow> upd syms p (int sy);
        offs \<leftarrow> upd offs (uint l) (p + 1);
        place_symbols (sy + 1) ls offs syms
      }
      else place_symbols (sy + 1) ls offs syms)"

definition inf_build :: "inf_huff \<Rightarrow> u8 list \<Rightarrow> inf_huff option" where
  "inf_build h lengths = do {
     c \<leftarrow> count_lengths lengths (replicate (INF_MAXBITS + 1) 0);
     c \<leftarrow> upd c 0 0;
     offs \<leftarrow> offsets 1 (INF_MAXBITS - 1) c (replicate (INF_MAXBITS + 1) 0);
     syms \<leftarrow> place_symbols 0 lengths offs (symbol h);
     Some \<lparr>count_of = c, symbol = syms\<rparr>
   }"

fun inf_decode_from :: "nat \<Rightarrow> nat \<Rightarrow> int \<Rightarrow> int \<Rightarrow> int \<Rightarrow> inf_state \<Rightarrow> inf_huff \<Rightarrow> (int \<times> inf_state) option" where
  "inf_decode_from len 0 code first index s h = Some (- 1, s\<lparr>error := True\<rparr>)"
| "inf_decode_from len (Suc n) code first index s h = do {
     (b, s) \<leftarrow> inf_getbit s;
     k \<leftarrow> idx (count_of h) (int len);
     if (code OR int b) - first < k then do {
       sy \<leftarrow> idx (symbol h) (index + ((code OR int b) - first));
       Some (sy, s)
     }
     else inf_decode_from (len + 1) n (push_bit 1 (code OR int b)) (push_bit 1 (first + k)) (index + k) s h
   }"

definition inf_decode :: "inf_state \<Rightarrow> inf_huff \<Rightarrow> (int \<times> inf_state) option" where
  "inf_decode s h = inf_decode_from 1 INF_MAXBITS 0 0 0 s h"

section \<open>Blocks\<close>

definition inf_len_base :: "int list" where
  "inf_len_base = [3,4,5,6,7,8,9,10,11,13,15,17,19,23,27,31,35,43,51,59,67,83,99,115,131,163,195,227,258]"
definition inf_len_extra :: "int list" where
  "inf_len_extra = [0,0,0,0,0,0,0,0,1,1,1,1,2,2,2,2,3,3,3,3,4,4,4,4,5,5,5,5,0]"
definition inf_dist_base :: "int list" where
  "inf_dist_base = [1,2,3,4,5,7,9,13,17,25,33,49,65,97,129,193,257,385,513,769,
    1025,1537,2049,3073,4097,6145,8193,12289,16385,24577]"
definition inf_dist_extra :: "int list" where
  "inf_dist_extra = [0,0,0,0,1,1,2,2,3,3,4,4,5,5,6,6,7,7,8,8,9,9,10,10,11,11,12,12,13,13]"

text \<open>The byte-by-byte copy of a match; source and target may overlap.\<close>

fun copy_match :: "nat \<Rightarrow> int \<Rightarrow> inf_state \<Rightarrow> inf_state option" where
  "copy_match 0 dist s = Some s"
| "copy_match (Suc n) dist s = do {
     v \<leftarrow> idx (dst s) (int (dst_pos s) - dist);
     d \<leftarrow> upd (dst s) (int (dst_pos s)) v;
     copy_match n dist (s\<lparr>dst := d, dst_pos := dst_pos s + 1\<rparr>)
   }"

definition fail :: "inf_state \<Rightarrow> (int \<times> inf_state) option" where
  "fail s = Some (- 1, s\<lparr>error := True\<rparr>)"

text \<open>
  One step of the loop of \<open>inf_block\<close>: the result is the return value when the loop ends
  (\<open>Inl\<close>) or the state to go on with (\<open>Inr\<close>).
\<close>

definition inf_symbol :: "inf_state \<Rightarrow> inf_huff \<Rightarrow> inf_huff \<Rightarrow> ((int \<times> inf_state) + inf_state) option" where
  "inf_symbol s lh dh = do {
     (sy, s) \<leftarrow> inf_decode s lh;
     if error s then Some (Inl (- 1, s))
     else if sy = 256 then Some (Inl (0, s))
     else if sy < 256 then
       if length (dst s) \<le> dst_pos s then map_option Inl (fail s)
       else do {
         d \<leftarrow> upd (dst s) (int (dst_pos s)) (word_of_int sy);
         Some (Inr (s\<lparr>dst := d, dst_pos := dst_pos s + 1\<rparr>))
       }
     else
       let sy = sy - 257 in
       if 29 \<le> sy then map_option Inl (fail s)
       else do {
         lb \<leftarrow> idx inf_len_base sy;
         le \<leftarrow> idx inf_len_extra sy;
         (lx, s) \<leftarrow> inf_getbits s (nat le);
         (dsym, s) \<leftarrow> inf_decode s dh;
         if error s \<or> dsym < 0 \<or> 30 \<le> dsym then map_option Inl (fail s)
         else do {
           db \<leftarrow> idx inf_dist_base dsym;
           de \<leftarrow> idx inf_dist_extra dsym;
           (dx, s) \<leftarrow> inf_getbits s (nat de);
           let len = lb + int lx; dist = db + int dx in
           if int (dst_pos s) < dist then map_option Inl (fail s)
           else if length (dst s) < (dst_pos s + nat len) mod 2 ^ 32 then map_option Inl (fail s)
           else map_option Inr (copy_match (nat len) dist s)
         }
       }
   }"

partial_function (option) inf_block :: "inf_state \<Rightarrow> inf_huff \<Rightarrow> inf_huff \<Rightarrow> (int \<times> inf_state) option" where
  "inf_block s lh dh = do {
     r \<leftarrow> inf_symbol s lh dh;
     (case r of Inl x \<Rightarrow> Some x | Inr s \<Rightarrow> inf_block s lh dh)
   }"

definition inf_fixed :: "inf_huff \<Rightarrow> inf_huff \<Rightarrow> (inf_huff \<times> inf_huff) option" where
  "inf_fixed lh dh = do {
     lh \<leftarrow> inf_build lh (replicate 144 8 @ replicate 112 9 @ replicate 24 7 @ replicate 8 8);
     dh \<leftarrow> inf_build dh (replicate 30 5);
     Some (lh, dh)
   }"

definition inf_clc_order :: "int list" where
  "inf_clc_order = [16,17,18,0,8,7,9,6,10,5,11,4,12,3,13,2,14,1,15]"

fun read_clen :: "nat \<Rightarrow> nat \<Rightarrow> u8 list \<Rightarrow> inf_state \<Rightarrow> (u8 list \<times> inf_state) option" where
  "read_clen i 0 clen s = Some (clen, s)"
| "read_clen i (Suc n) clen s = do {
     (v, s) \<leftarrow> inf_getbits s 3;
     o1 \<leftarrow> idx inf_clc_order (int i);
     clen \<leftarrow> upd clen o1 (of_nat v);
     read_clen (i + 1) n clen s
   }"

text \<open>The repetition loops: \<open>while (rep-- && num < limit) lengths[num++] = v\<close>.\<close>

fun repeat_length :: "nat \<Rightarrow> u8 \<Rightarrow> nat \<Rightarrow> nat \<Rightarrow> u8 list \<Rightarrow> (nat \<times> u8 list) option" where
  "repeat_length 0 v limit num lengths = Some (num, lengths)"
| "repeat_length (Suc r) v limit num lengths =
     (if num < limit then do {
        lengths \<leftarrow> upd lengths (int num) v;
        repeat_length r v limit (num + 1) lengths
      }
      else Some (num, lengths))"

text \<open>One symbol of the code-length alphabet; \<open>Inl\<close> when the routine returns an error.\<close>

definition length_symbol ::
  "inf_huff \<Rightarrow> nat \<Rightarrow> nat \<Rightarrow> u8 list \<Rightarrow> inf_state \<Rightarrow> (inf_state + nat \<times> u8 list \<times> inf_state) option" where
  "length_symbol clh limit num lengths s = do {
     (sy, s) \<leftarrow> inf_decode s clh;
     if error s then Some (Inl s)
     else if sy < 16 then do {
       lengths \<leftarrow> upd lengths (int num) (word_of_int sy);
       Some (Inr (num + 1, lengths, s))
     }
     else if sy = 16 then
       if num = 0 then Some (Inl (s\<lparr>error := True\<rparr>))
       else do {
         prev \<leftarrow> idx lengths (int num - 1);
         (x, s) \<leftarrow> inf_getbits s 2;
         (num, lengths) \<leftarrow> repeat_length (3 + x) prev limit num lengths;
         Some (Inr (num, lengths, s))
       }
     else if sy = 17 then do {
       (x, s) \<leftarrow> inf_getbits s 3;
       (num, lengths) \<leftarrow> repeat_length (3 + x) 0 limit num lengths;
       Some (Inr (num, lengths, s))
     }
     else do {
       (x, s) \<leftarrow> inf_getbits s 7;
       (num, lengths) \<leftarrow> repeat_length (11 + x) 0 limit num lengths;
       Some (Inr (num, lengths, s))
     }
   }"

partial_function (option) read_lengths ::
  "inf_huff \<Rightarrow> nat \<Rightarrow> nat \<Rightarrow> u8 list \<Rightarrow> inf_state \<Rightarrow> (inf_state + u8 list \<times> inf_state) option" where
  "read_lengths clh limit num lengths s =
     (if num < limit then do {
        r \<leftarrow> length_symbol clh limit num lengths s;
        (case r of Inl s \<Rightarrow> Some (Inl s)
         | Inr x \<Rightarrow> read_lengths clh limit (fst x) (fst (snd x)) (snd (snd x)))
      }
      else Some (Inr (lengths, s)))"

definition inf_dynamic :: "inf_huff \<Rightarrow> u8 list \<Rightarrow> inf_state \<Rightarrow> ((inf_huff \<times> inf_huff) option \<times> inf_state) option" where
  "inf_dynamic h0 l0 s = do {
     (x, s) \<leftarrow> inf_getbits s 5;
     (y, s) \<leftarrow> inf_getbits s 5;
     (z, s) \<leftarrow> inf_getbits s 4;
     let hlit = x + 257; hdist = y + 1; hclen = z + 4 in
     if INF_MAXLCODES < int hlit \<or> INF_MAXDCODES < int hdist then Some (None, s\<lparr>error := True\<rparr>)
     else do {
       (clen, s) \<leftarrow> read_clen 0 hclen (replicate 19 0) s;
       clh \<leftarrow> inf_build h0 clen;
       r \<leftarrow> read_lengths clh (hlit + hdist) 0 l0 s;
       (case r of Inl s \<Rightarrow> Some (None, s)
        | Inr p \<Rightarrow>
            if error (snd p) then Some (None, snd p)
            else do {
              lh \<leftarrow> inf_build h0 (take hlit (fst p));
              dh \<leftarrow> inf_build h0 (take hdist (drop hlit (fst p)));
              Some (Some (lh, dh), snd p)
            })
     }
   }"

fun copy_stored :: "nat \<Rightarrow> inf_state \<Rightarrow> inf_state option" where
  "copy_stored 0 s = Some s"
| "copy_stored (Suc n) s = do {
     v \<leftarrow> idx (src s) (int (src_pos s));
     d \<leftarrow> upd (dst s) (int (dst_pos s)) v;
     copy_stored n (s\<lparr>dst := d, dst_pos := dst_pos s + 1, src_pos := src_pos s + 1\<rparr>)
   }"

definition inf_stored :: "inf_state \<Rightarrow> (int \<times> inf_state) option" where
  "inf_stored s =
     (let s = s\<lparr>bitbuf := 0, bitcnt := 0\<rparr> in
      if length (src s) < (src_pos s + 4) mod 2 ^ 32 then fail s
      else do {
        lo \<leftarrow> idx (src s) (int (src_pos s));
        hi \<leftarrow> idx (src s) (int (src_pos s) + 1);
        let len = unat lo OR push_bit 8 (unat hi); s = s\<lparr>src_pos := src_pos s + 4\<rparr> in
        if length (src s) < (src_pos s + len) mod 2 ^ 32 then fail s
        else if length (dst s) < (dst_pos s + len) mod 2 ^ 32 then fail s
        else do { s \<leftarrow> copy_stored len s; Some (0, s) }
      })"

text \<open>One block: its header and its body.\<close>

definition inf_one_block :: "inf_huff \<Rightarrow> u8 list \<Rightarrow> inf_state \<Rightarrow> (nat \<times> int \<times> inf_state) option" where
  "inf_one_block h0 l0 s = do {
     (final, s) \<leftarrow> inf_getbit s;
     (type, s) \<leftarrow> inf_getbits s 2;
     if error s then Some (final, - 1, s)
     else if type = 0 then do { (rc, s) \<leftarrow> inf_stored s; Some (final, rc, s) }
     else if type = 1 then do {
       (lh, dh) \<leftarrow> inf_fixed h0 h0;
       (rc, s) \<leftarrow> inf_block s lh dh;
       Some (final, rc, s)
     }
     else if type = 2 then do {
       (hs, s) \<leftarrow> inf_dynamic h0 l0 s;
       (case hs of None \<Rightarrow> Some (final, - 1, s)
        | Some h \<Rightarrow> do { (rc, s) \<leftarrow> inf_block s (fst h) (snd h); Some (final, rc, s) })
     }
     else Some (final, - 1, s)
   }"

partial_function (option) inf_blocks :: "inf_huff \<Rightarrow> u8 list \<Rightarrow> inf_state \<Rightarrow> (int \<times> inf_state) option" where
  "inf_blocks h0 l0 s = do {
     r \<leftarrow> inf_one_block h0 l0 s;
     if fst (snd r) \<noteq> 0 then Some (- 1, snd (snd r))
     else if fst r = 0 \<and> \<not> error (snd (snd r)) then inf_blocks h0 l0 (snd (snd r))
     else if error (snd (snd r)) then Some (- 1, snd (snd r))
     else Some (0, snd (snd r))
   }"

text \<open>
  The return code, the number of bytes produced, and the output buffer. The code stores the number for its
  caller only when the return code is 0; here it is part of the result in every case, to say what was written.
\<close>

definition inflate_raw :: "inf_huff \<Rightarrow> u8 list \<Rightarrow> u8 list \<Rightarrow> u8 list \<Rightarrow> (int \<times> nat \<times> u8 list) option" where
  "inflate_raw h0 l0 source buf = do {
     (rc, s) \<leftarrow> inf_blocks h0 l0 \<lparr>src = source, src_pos = 0, bitbuf = 0, bitcnt = 0, dst = buf, dst_pos = 0, error = False\<rparr>;
     Some (rc, dst_pos s, dst s)
   }"

declare inf_block.simps [code] read_lengths.simps [code] inf_blocks.simps [code]

end
