(* ===== verification/Inflate_Facts.thy ===== *)
theory Inflate_Facts
  imports Inflate
begin

text \<open>
  Facts about the decompressor: what the bit reader consumes, that the code tables
  \<open>inf_build\<close> makes are well formed, and that no routine leaves its arrays.
\<close>

section \<open>Properties of the bit reader\<close>

text \<open>
  \<open>bits_left\<close> is the number of input bits not yet consumed. What every reading routine
  promises: no access outside an array, the input and the output so far are kept, and no
  bit is put back; if no error is flagged, the bits asked for have been consumed.
\<close>

definition bits_left :: "inf_state \<Rightarrow> nat" where
  "bits_left s = 8 * (length (src s) - src_pos s) + bitcnt s"

definition inf_ok :: "inf_state \<Rightarrow> bool" where
  "inf_ok s \<longleftrightarrow> src_pos s \<le> length (src s) \<and> dst_pos s \<le> length (dst s) \<and> bitbuf s < 256 \<and> bitcnt s \<le> 8"

definition reads :: "nat \<Rightarrow> inf_state \<Rightarrow> inf_state \<Rightarrow> bool" where
  "reads n s t \<longleftrightarrow> inf_ok t \<and> src t = src s \<and> dst t = dst s \<and> dst_pos t = dst_pos s \<and>
     (error s \<longrightarrow> error t) \<and> bits_left t \<le> bits_left s \<and> (error t \<or> bits_left t + n \<le> bits_left s)"

lemma reads_refl: "inf_ok s \<Longrightarrow> reads 0 s s" by (simp add: reads_def)

lemma reads_trans: "reads m s t \<Longrightarrow> reads n t u \<Longrightarrow> reads (m + n) s u"
  unfolding reads_def by auto

lemma reads_mono: "reads m s t \<Longrightarrow> n \<le> m \<Longrightarrow> reads n s t"
  unfolding reads_def by auto

lemma reads_error: "reads m s t \<Longrightarrow> reads n s (t\<lparr>error := True\<rparr>)"
  unfolding reads_def inf_ok_def bits_left_def by auto

lemma getbit_reads:
  assumes "inf_ok s"
  shows "\<exists>b t. inf_getbit s = Some (b, t) \<and> reads 1 s t \<and> b < 2"
proof (cases "bitcnt s = 0")
  case True
  show ?thesis
  proof (cases "length (src s) \<le> src_pos s")
    case False
    have "unat (src s ! src_pos s) < 256" using unsigned_less [where ?'a = nat, of "src s ! src_pos s"] by simp
    then show ?thesis using True False assms
      by (auto simp: inf_getbit_def reads_def inf_ok_def bits_left_def idx_def Let_def)
  qed (use True assms in \<open>auto simp: inf_getbit_def reads_def inf_ok_def bits_left_def\<close>)
qed (use assms in \<open>auto simp: inf_getbit_def reads_def inf_ok_def bits_left_def Let_def\<close>)

lemma getbits_from_reads:
  "inf_ok s \<Longrightarrow> v < 2 ^ i \<Longrightarrow> \<exists>r t. inf_getbits_from i n v s = Some (r, t) \<and> reads n s t \<and> r < 2 ^ (i + n)"
proof (induction n arbitrary: i v s)
  case 0
  then show ?case by (simp add: reads_refl)
next
  case (Suc n)
  obtain b t where b: "inf_getbit s = Some (b, t)" "reads 1 s t" "b < 2" using getbit_reads [OF Suc.prems(1)] by blast
  have "v OR push_bit i b < 2 ^ (i + 1)"
  proof -
    have "v = take_bit (i + 1) v" using Suc.prems(2) by (simp add: take_bit_nat_eq_self)
    moreover have "push_bit i b < 2 ^ (i + 1)" using b(3) by (simp add: push_bit_eq_mult)
    then have "push_bit i b = take_bit (i + 1) (push_bit i b)" by (simp add: take_bit_nat_eq_self)
    ultimately have "v OR push_bit i b = take_bit (i + 1) (v OR push_bit i b)" by (metis take_bit_or)
    then show ?thesis by (metis take_bit_nat_less_exp)
  qed
  then obtain r u where "inf_getbits_from (i + 1) n (v OR push_bit i b) t = Some (r, u)" "reads n t u" "r < 2 ^ (i + 1 + n)"
    using Suc.IH [of t "v OR push_bit i b" "i + 1"] b(2) by (auto simp: reads_def)
  then show ?case using b reads_trans [OF b(2)] by fastforce
qed

lemma getbits_reads:
  "inf_ok s \<Longrightarrow> \<exists>r t. inf_getbits s n = Some (r, t) \<and> reads n s t \<and> r < 2 ^ n"
  using getbits_from_reads [of s 0 0 n] by (simp add: inf_getbits_def)

section \<open>The code tables\<close>

text \<open>
  A table is well formed for \<open>n\<close> symbols when the symbols of each length lie one after
  the other in the symbol array, from the sum of the counts of the shorter lengths on.
\<close>

definition first_of :: "int list \<Rightarrow> nat \<Rightarrow> int" where
  "first_of c len = (\<Sum>i = 1..<len. c ! i)"

definition huff_ok :: "nat \<Rightarrow> inf_huff \<Rightarrow> bool" where
  "huff_ok n h \<longleftrightarrow> length (count_of h) = 16 \<and> (\<forall>i < 16. 0 \<le> count_of h ! i) \<and>
     (\<forall>len \<in> {1..15}. \<forall>j. 0 \<le> j \<and> j < count_of h ! len \<longrightarrow>
        (\<exists>sy. idx (symbol h) (first_of (count_of h) len + j) = Some sy \<and> 0 \<le> sy \<and> sy < int n))"

lemma first_of_Suc: "1 \<le> len \<Longrightarrow> first_of c (Suc len) = first_of c len + c ! len"
  by (simp add: first_of_def)

lemma decode_from_reads:
  assumes "huff_ok n h" and "inf_ok s" and "len + k = 16" and "1 \<le> len" and "0 \<le> first" and "first \<le> code" and "even code"
  shows "\<exists>sy t. inf_decode_from len k code first (first_of (count_of h) len) s h = Some (sy, t) \<and>
    reads 1 s t \<and> (\<not> error t \<longrightarrow> 0 \<le> sy \<and> sy < int n)"
  using assms(2-)
proof (induction k arbitrary: len code first s)
  case 0
  then show ?case using reads_error [OF reads_refl] by auto
next
  case (Suc k)
  obtain b t where b: "inf_getbit s = Some (b, t)" "reads 1 s t" "b < 2" using getbit_reads [OF Suc.prems(1)] by blast
  have t: "inf_ok t" using b(2) by (simp add: reads_def)
  have len: "len < 16" "len \<in> {1..15}" using Suc.prems by auto
  have c: "idx (count_of h) (int len) = Some (count_of h ! len)" "0 \<le> count_of h ! len"
    using assms(1) len by (auto simp: huff_ok_def idx_def)
  define d where "d = code OR int b"
  have d: "code \<le> d"
  proof -
    have "b = 0 \<or> b = 1" using b(3) by auto
    moreover have "code OR 1 = code + 1" using Suc.prems(6) by (simp add: even_or_iff or_one_eq)
    ultimately show ?thesis by (auto simp: d_def)
  qed
  show ?case
  proof (cases "d - first < count_of h ! len")
    case True
    have "0 \<le> d - first" using d Suc.prems(5) by simp
    then obtain sy where "idx (symbol h) (first_of (count_of h) len + (d - first)) = Some sy" "0 \<le> sy" "sy < int n"
      using assms(1) len(2) True unfolding huff_ok_def by blast
    then show ?thesis using b c True by (auto simp: d_def)
  next
    case False
    have "\<exists>sy u. inf_decode_from (Suc len) k (push_bit 1 d) (push_bit 1 (first + count_of h ! len))
        (first_of (count_of h) (Suc len)) t h = Some (sy, u) \<and>
      reads 1 t u \<and> (\<not> error u \<longrightarrow> 0 \<le> sy \<and> sy < int n)"
      by (rule Suc.IH) (use t False c Suc.prems in \<open>auto simp: push_bit_eq_mult\<close>)
    then obtain sy u where u: "inf_decode_from (Suc len) k (push_bit 1 d) (push_bit 1 (first + count_of h ! len))
        (first_of (count_of h) (Suc len)) t h = Some (sy, u)" "reads 1 t u" "\<not> error u \<longrightarrow> 0 \<le> sy \<and> sy < int n" by blast
    then show ?thesis using b c False reads_mono [OF reads_trans [OF b(2) u(2)], of 1] first_of_Suc [OF Suc.prems(3), of "count_of h"]
      by (auto simp: d_def)
  qed
qed

lemma decode_reads:
  assumes "huff_ok n h" and "inf_ok s"
  shows "\<exists>sy t. inf_decode s h = Some (sy, t) \<and> reads 1 s t \<and> (\<not> error t \<longrightarrow> 0 \<le> sy \<and> sy < int n)"
  using decode_from_reads [OF assms, of 1 15 0 0] by (simp add: inf_decode_def first_of_def)

text \<open>Number of symbols of a given code length.\<close>

definition of_length :: "u8 list \<Rightarrow> nat \<Rightarrow> int" where
  "of_length ls i = int (length (filter (\<lambda>l. unat l = i) ls))"

lemma of_length_simps [simp]:
  "of_length [] i = 0" "of_length (l # ls) i = (if unat l = i then 1 else 0) + of_length ls i"
  by (simp_all add: of_length_def)

lemma of_length_nonneg [simp]: "0 \<le> of_length ls i" by (simp add: of_length_def)

lemma idx_u8: "idx xs (uint (l :: u8)) = (if unat l < length xs then Some (xs ! unat l) else None)"
  and upd_u8: "upd xs (uint (l :: u8)) v = (if unat l < length xs then Some (xs[unat l := v]) else None)"
proof -
  have "uint l < int n \<longleftrightarrow> unat l < n" for n by (metis of_nat_less_iff of_nat_unat)
  then show "idx xs (uint l) = (if unat l < length xs then Some (xs ! unat l) else None)"
    "upd xs (uint l) v = (if unat l < length xs then Some (xs[unat l := v]) else None)"
    by (simp_all add: idx_def upd_def)
qed

lemma count_lengths_total:
  "length c = 16 \<Longrightarrow> \<forall>l \<in> set ls. unat l < 16 \<Longrightarrow>
    count_lengths ls c = Some (map (\<lambda>i. c ! i + of_length ls i) [0..<16])"
proof (induction ls arbitrary: c)
  case Nil
  then show ?case using map_nth [of c] by simp
next
  case (Cons l ls)
  then have "count_lengths (l # ls) c = Some (map (\<lambda>i. c[unat l := c ! unat l + 1] ! i + of_length ls i) [0..<16])"
    by (simp add: idx_u8 upd_u8 del: upt.simps upt_rec_numeral)
  also have "map (\<lambda>i. c[unat l := c ! unat l + 1] ! i + of_length ls i) [0..<16] =
      map (\<lambda>i. c ! i + of_length (l # ls) i) [0..<16]"
    by (rule map_cong) (use Cons.prems in \<open>auto simp: nth_list_update\<close>)
  finally show ?case .
qed

lemma offsets_first:
  assumes "length c = 16"
  shows "1 \<le> len \<Longrightarrow> len + n = 15 \<Longrightarrow> length offs = 16 \<Longrightarrow> (\<forall>i \<in> {1..len}. offs ! i = first_of c i) \<Longrightarrow>
    \<exists>offs'. offsets len n c offs = Some offs' \<and> length offs' = 16 \<and> (\<forall>i \<in> {1..15}. offs' ! i = first_of c i)"
proof (induction n arbitrary: len offs)
  case (Suc n)
  have i: "idx offs (int len) = Some (offs ! len)" "idx c (int len) = Some (c ! len)"
    using Suc.prems assms by (auto simp: idx_def)
  have u: "upd offs (int len + 1) v = Some (offs[Suc len := v])" for v
    using Suc.prems by (auto simp: upd_def nat_add_distrib)
  have "\<exists>offs'. offsets (len + 1) n c (offs[Suc len := offs ! len + c ! len]) = Some offs' \<and> length offs' = 16 \<and>
      (\<forall>i \<in> {1..15}. offs' ! i = first_of c i)"
  proof (rule Suc.IH)
    show "\<forall>i \<in> {1..len + 1}. offs[Suc len := offs ! len + c ! len] ! i = first_of c i"
      using Suc.prems first_of_Suc [of len c] by (auto simp: nth_list_update le_Suc_eq)
  qed (use Suc.prems in auto)
  then show ?case using i u by simp
qed auto

lemma place_symbols_valid:
  assumes "length offs = 16" and "\<forall>l \<in> set ls. unat l < 16" and "k + length ls \<le> n"
    and "\<forall>i \<in> {1..15}. 0 \<le> offs ! i \<and> offs ! i + of_length ls i \<le> int (length syms)"
  shows "\<exists>syms'. place_symbols k ls offs syms = Some syms' \<and> length syms' = length syms \<and>
    (\<forall>p < length syms. 0 \<le> syms ! p \<and> syms ! p < int n \<longrightarrow> 0 \<le> syms' ! p \<and> syms' ! p < int n) \<and>
    (\<forall>i \<in> {1..15}. \<forall>j. 0 \<le> j \<and> j < of_length ls i \<longrightarrow>
       0 \<le> syms' ! nat (offs ! i + j) \<and> syms' ! nat (offs ! i + j) < int n)"
  using assms
proof (induction ls arbitrary: k offs syms)
  case Nil
  then show ?case by simp
next
  case (Cons l ls)
  show ?case
  proof (cases "l = 0")
    case True
    have "of_length (l # ls) i = of_length ls i" if "i \<in> {1..15}" for i using that True by simp
    then show ?thesis using Cons.IH [of offs "k + 1" syms] Cons.prems True by simp
  next
    case False
    define m where "m = unat l"
    have m: "m \<in> {1..15}" using False Cons.prems(2) by (auto simp: m_def Suc_le_eq unat_gt_0)
    let ?p = "offs ! m"
    have p: "0 \<le> ?p" "?p + 1 + of_length ls m \<le> int (length syms)" using bspec [OF Cons.prems(4) m] by (simp_all add: m_def)
    then have pb: "?p < int (length syms)" using of_length_nonneg [of ls m] by linarith
    let ?syms = "syms[nat ?p := int k]" and ?offs = "offs[m := ?p + 1]"
    have step: "place_symbols k (l # ls) offs syms = place_symbols (k + 1) ls ?offs ?syms"
    proof -
      have "idx offs (uint l) = Some ?p" "upd offs (uint l) (?p + 1) = Some ?offs"
        using m Cons.prems(1) by (simp_all add: idx_u8 upd_u8 m_def)
      moreover have "upd syms ?p (int k) = Some ?syms" using p(1) pb by (simp add: upd_def)
      ultimately show ?thesis using False by simp
    qed
    have "\<exists>syms'. place_symbols (k + 1) ls ?offs ?syms = Some syms' \<and> length syms' = length ?syms \<and>
        (\<forall>p < length ?syms. 0 \<le> ?syms ! p \<and> ?syms ! p < int n \<longrightarrow> 0 \<le> syms' ! p \<and> syms' ! p < int n) \<and>
        (\<forall>i \<in> {1..15}. \<forall>j. 0 \<le> j \<and> j < of_length ls i \<longrightarrow>
           0 \<le> syms' ! nat (?offs ! i + j) \<and> syms' ! nat (?offs ! i + j) < int n)"
    proof (rule Cons.IH)
      show "\<forall>i \<in> {1..15}. 0 \<le> ?offs ! i \<and> ?offs ! i + of_length ls i \<le> int (length ?syms)"
        using Cons.prems(1,4) m p by (auto simp: nth_list_update m_def)
    qed (use Cons.prems in auto)
    then obtain syms' where s': "place_symbols (k + 1) ls ?offs ?syms = Some syms'" "length syms' = length syms"
      "\<And>p. p < length syms \<Longrightarrow> 0 \<le> ?syms ! p \<and> ?syms ! p < int n \<Longrightarrow> 0 \<le> syms' ! p \<and> syms' ! p < int n"
      "\<And>i j. i \<in> {1..15} \<Longrightarrow> 0 \<le> j \<Longrightarrow> j < of_length ls i \<Longrightarrow>
         0 \<le> syms' ! nat (?offs ! i + j) \<and> syms' ! nat (?offs ! i + j) < int n" by auto
    have new: "0 \<le> syms' ! nat ?p \<and> syms' ! nat ?p < int n"
      by (rule s'(3)) (use p(1) pb Cons.prems(3) in auto)
    have "0 \<le> syms' ! nat (offs ! i + j) \<and> syms' ! nat (offs ! i + j) < int n"
      if i: "i \<in> {1..15}" and j: "0 \<le> j" "j < of_length (l # ls) i" for i j
    proof (cases "i = m")
      case True
      show ?thesis
      proof (cases "j = 0")
        case False
        have "?offs ! m + (j - 1) = ?p + j" using m Cons.prems(1) by simp
        moreover have "j - 1 < of_length ls m" using j True by (simp add: m_def)
        ultimately show ?thesis using s'(4) [of m "j - 1"] m j False True by (metis diff_ge_0_iff_ge int_one_le_iff_zero_less order_le_less)
      qed (use new True in simp)
    next
      case False
      then show ?thesis using s'(4) [of i j] i j by (simp add: m_def)
    qed
    moreover have "0 \<le> syms' ! q \<and> syms' ! q < int n" if "q < length syms" "0 \<le> syms ! q \<and> syms ! q < int n" for q
      using s'(3) [of q] that Cons.prems(3) by (cases "q = nat ?p") auto
    ultimately show ?thesis using step s'(1,2) by auto
  qed
qed

lemma first_of_le:
  assumes "\<forall>l \<in> set ls. unat l < 16" and "i \<in> {1..15}"
  shows "first_of (map (\<lambda>i. if i = 0 then 0 else of_length ls i) [0..<16]) i + of_length ls i \<le> int (length ls)"
proof -
  have "first_of (map (\<lambda>i. if i = 0 then 0 else of_length ls i) [0..<16]) i + of_length ls i =
      (\<Sum>j = 1..<Suc i. of_length ls j)"
    using assms(2) by (simp add: first_of_def)
  also have "\<dots> \<le> int (length ls)"
    using assms(1)
  proof (induction ls)
    case (Cons l ls)
    have "(\<Sum>j = 1..<Suc i. of_length (l # ls) j) = (\<Sum>j = 1..<Suc i. if unat l = j then 1 else 0) + (\<Sum>j = 1..<Suc i. of_length ls j)"
      by (simp add: sum.distrib)
    moreover have "(\<Sum>j = 1..<Suc i. if unat l = j then 1 else (0 :: int)) \<le> 1" by (simp add: sum.delta')
    ultimately show ?case using Cons by simp
  qed simp
  finally show ?thesis .
qed

lemma build_ok:
  assumes "\<forall>l \<in> set ls. unat l < 16" and "length ls \<le> length (symbol h)"
  shows "\<exists>h'. inf_build h ls = Some h' \<and> huff_ok (length ls) h' \<and> length (symbol h') = length (symbol h)"
proof -
  let ?raw = "map (\<lambda>i. of_length ls i) [0..<16]" and ?c = "map (\<lambda>i. if i = 0 then 0 else of_length ls i) [0..<16]"
  have c0: "count_lengths ls (replicate 16 0) = Some ?raw"
  proof -
    have "map (\<lambda>i. replicate 16 0 ! i + of_length ls i) [0..<16] = ?raw"
      by (rule map_cong) (simp_all del: upt.simps upt_rec_numeral)
    then show ?thesis using count_lengths_total [of "replicate 16 0" ls] assms(1) by (simp only: length_replicate)
  qed
  have u: "upd ?raw 0 0 = Some ?c"
  proof -
    have "?raw[0 := 0] = ?c"
      by (rule nth_equalityI) (auto simp: nth_list_update simp del: upt.simps upt_rec_numeral)
    then show ?thesis by (simp add: upd_def del: upt.simps upt_rec_numeral)
  qed
  obtain offs where offs: "offsets 1 14 ?c (replicate 16 0) = Some offs" "length offs = 16"
      "\<forall>i \<in> {1..15}. offs ! i = first_of ?c i"
    using offsets_first [of ?c 1 14 "replicate 16 0"] by (auto simp: first_of_def)
  have nn: "0 \<le> first_of ?c i" if "i \<in> {1..15}" for i
    unfolding first_of_def by (rule sum_nonneg) (use that in auto)
  have room: "\<forall>i \<in> {1..15}. 0 \<le> offs ! i \<and> offs ! i + of_length ls i \<le> int (length (symbol h))"
    using offs(3) nn first_of_le [OF assms(1)] assms(2) by fastforce
  obtain syms where syms: "place_symbols 0 ls offs (symbol h) = Some syms" "length syms = length (symbol h)"
      "\<forall>i \<in> {1..15}. \<forall>j. 0 \<le> j \<and> j < of_length ls i \<longrightarrow> 0 \<le> syms ! nat (offs ! i + j) \<and> syms ! nat (offs ! i + j) < int (length ls)"
    using place_symbols_valid [OF offs(2) assms(1) _ room, of 0 "length ls"] by auto
  have b: "inf_build h ls = Some \<lparr>count_of = ?c, symbol = syms\<rparr>"
    using c0 u offs(1) syms(1) by (simp add: inf_build_def del: upt.simps upt_rec_numeral)
  have "huff_ok (length ls) \<lparr>count_of = ?c, symbol = syms\<rparr>"
    unfolding huff_ok_def inf_huff.simps
  proof (intro conjI ballI allI impI)
    fix len j assume len: "len \<in> {1..15 :: nat}" and j: "0 \<le> j \<and> j < ?c ! len"
    then have j': "0 \<le> j" "j < of_length ls len" by (auto simp del: upt.simps upt_rec_numeral)
    have "first_of ?c len + j < int (length syms)" using room offs(3) j' len syms(2) by fastforce
    then show "\<exists>sy. idx syms (first_of ?c len + j) = Some sy \<and> 0 \<le> sy \<and> sy < int (length ls)"
      using syms(3) len j' offs(3) nn [OF len] by (simp add: idx_def)
  qed (simp_all del: upt.simps upt_rec_numeral)
  then show ?thesis using b syms(2) by auto
qed

section \<open>Output\<close>

text \<open>
  What a step of the decompressor may do: keep the input, move the output position
  forward, and write only between the old and the new position.
\<close>

definition runs :: "inf_state \<Rightarrow> inf_state \<Rightarrow> bool" where
  "runs s t \<longleftrightarrow> inf_ok t \<and> src t = src s \<and> length (dst t) = length (dst s) \<and> dst_pos s \<le> dst_pos t \<and>
     bits_left t \<le> bits_left s \<and> (\<forall>i. i < dst_pos s \<or> dst_pos t \<le> i \<longrightarrow> dst t ! i = dst s ! i)"

lemma runs_refl: "inf_ok s \<Longrightarrow> runs s s" by (simp add: runs_def)

lemma runs_trans: "runs s t \<Longrightarrow> runs t u \<Longrightarrow> runs s u"
  unfolding runs_def by (intro conjI; (force intro: order_trans)?)

lemma reads_runs: "reads n s t \<Longrightarrow> runs s t" by (simp add: reads_def runs_def)

lemma runs_error: "runs s t \<Longrightarrow> runs s (t\<lparr>error := True\<rparr>)"
  by (auto simp: runs_def inf_ok_def bits_left_def)

lemma runs_put:
  assumes "inf_ok s" and "dst_pos s < length (dst s)"
  shows "runs s (s\<lparr>dst := (dst s)[dst_pos s := v], dst_pos := dst_pos s + 1\<rparr>)"
  using assms by (simp add: runs_def inf_ok_def bits_left_def)

lemma copy_match_runs:
  "inf_ok s \<Longrightarrow> 1 \<le> dist \<Longrightarrow> dist \<le> int (dst_pos s) \<Longrightarrow> dst_pos s + n \<le> length (dst s) \<Longrightarrow>
    \<exists>t. copy_match n dist s = Some t \<and> runs s t \<and> dst_pos t = dst_pos s + n \<and> error t = error s \<and> bits_left t = bits_left s"
proof (induction n arbitrary: s)
  case 0
  then show ?case by (simp add: runs_refl)
next
  case (Suc n)
  let ?v = "dst s ! nat (int (dst_pos s) - dist)"
  let ?s = "s\<lparr>dst := (dst s)[dst_pos s := ?v], dst_pos := dst_pos s + 1\<rparr>"
  have r: "runs s ?s" using Suc.prems by (intro runs_put) auto
  then have "\<exists>t. copy_match n dist ?s = Some t \<and> runs ?s t \<and> dst_pos t = dst_pos ?s + n \<and> error t = error ?s \<and> bits_left t = bits_left ?s"
    using Suc.prems by (intro Suc.IH) (auto simp: runs_def)
  moreover have "copy_match (Suc n) dist s = copy_match n dist ?s" using Suc.prems by (simp add: idx_def upd_def)
  ultimately show ?case using runs_trans [OF r] by (auto simp: bits_left_def)
qed

text \<open>The bounds of the base and extra-bit tables.\<close>

lemma idx_all: "list_all P xs \<Longrightarrow> 0 \<le> i \<Longrightarrow> i < int (length xs) \<Longrightarrow> \<exists>v. idx xs i = Some v \<and> P v"
  by (simp add: idx_def list_all_length)

lemma len_tables:
  assumes "0 \<le> sy" and "sy < 29"
  shows "\<exists>v. idx inf_len_base sy = Some v \<and> 3 \<le> v \<and> v \<le> 258" "\<exists>v. idx inf_len_extra sy = Some v \<and> 0 \<le> v \<and> v \<le> 5"
  by (rule idx_all, simp_all add: assms inf_len_base_def inf_len_extra_def)+

lemma dist_tables:
  assumes "0 \<le> sy" and "sy < 30"
  shows "\<exists>v. idx inf_dist_base sy = Some v \<and> 1 \<le> v \<and> v \<le> 24577" "\<exists>v. idx inf_dist_extra sy = Some v \<and> 0 \<le> v \<and> v \<le> 13"
  by (rule idx_all, simp_all add: assms inf_dist_base_def inf_dist_extra_def)+

text \<open>Sizes for which the 32-bit sums of the code do not wrap.\<close>

definition sizes_ok :: "inf_state \<Rightarrow> bool" where
  "sizes_ok s \<longleftrightarrow> length (src s) + 65540 < 2 ^ 32 \<and> length (dst s) + 65540 < 2 ^ 32"

lemma sizes_ok_runs: "runs s t \<Longrightarrow> sizes_ok s \<Longrightarrow> sizes_ok t" by (simp add: runs_def sizes_ok_def)

lemma fail_runs: "inf_ok s \<Longrightarrow> \<exists>rc t. fail s = Some (rc, t) \<and> runs s t"
  using runs_error [OF runs_refl] by (auto simp: fail_def)

lemma symbol_runs:
  assumes lh: "huff_ok nl lh" and dh: "huff_ok nd dh" and ok: "inf_ok s" and sz: "sizes_ok s"
  shows "\<exists>r. inf_symbol s lh dh = Some r \<and>
    (case r of Inl (rc, t) \<Rightarrow> runs s t | Inr t \<Rightarrow> runs s t \<and> bits_left t < bits_left s)"
proof -
  obtain sy t where d: "inf_decode s lh = Some (sy, t)" "reads 1 s t" "\<not> error t \<longrightarrow> 0 \<le> sy"
    using decode_reads [OF lh ok] by blast
  have st: "runs s t" by (rule reads_runs [OF d(2)])
  have t: "inf_ok t" using d(2) by (simp add: reads_def)
  show ?thesis
  proof (cases "error t \<or> sy = 256")
    case True
    then show ?thesis using d st by (auto simp: inf_symbol_def)
  next
    case False
    then have less: "bits_left t < bits_left s" using d(2) by (simp add: reads_def)
    show ?thesis
    proof (cases "sy < 256")
      case lit: True
      show ?thesis
      proof (cases "length (dst t) \<le> dst_pos t")
        case True
        then show ?thesis using d False lit fail_runs [OF t] runs_trans [OF st] by (auto simp: inf_symbol_def)
      next
        case room: False
        then have "runs t (t\<lparr>dst := (dst t)[dst_pos t := word_of_int sy], dst_pos := dst_pos t + 1\<rparr>)"
          by (intro runs_put [OF t]) simp
        then show ?thesis using d False lit room less runs_trans [OF st]
          by (auto simp: inf_symbol_def upd_def bits_left_def)
      qed
    next
      case lit: False
      show ?thesis
      proof (cases "29 \<le> sy - 257")
        case True
        then show ?thesis using d False lit fail_runs [OF t] runs_trans [OF st] by (auto simp: inf_symbol_def)
      next
        case sm: False
        have "0 \<le> sy - 257" using False lit by simp
        then obtain lb le where l: "idx inf_len_base (sy - 257) = Some lb" "3 \<le> lb" "lb \<le> 258"
            "idx inf_len_extra (sy - 257) = Some le" "0 \<le> le" "le \<le> 5"
          using len_tables [of "sy - 257"] sm by auto
        obtain lx u where u: "inf_getbits t (nat le) = Some (lx, u)" "reads (nat le) t u" "lx < 2 ^ nat le"
          using getbits_reads [OF t] by blast
        obtain dy v where v: "inf_decode u dh = Some (dy, v)" "reads 1 u v"
          using decode_reads [OF dh] u(2) by (metis reads_def)
        have tv: "runs t v" using reads_runs [OF u(2)] reads_runs [OF v(2)] runs_trans by blast
        have vo: "inf_ok v" using v(2) by (simp add: reads_def)
        show ?thesis
        proof (cases "error v \<or> dy < 0 \<or> 30 \<le> dy")
          case True
          then show ?thesis using d False lit sm l u v fail_runs [OF vo] runs_trans [OF runs_trans [OF st tv]]
            by (fastforce simp: inf_symbol_def Let_def)
        next
          case dok: False
          then obtain db de where dt: "idx inf_dist_base dy = Some db" "1 \<le> db"
              "idx inf_dist_extra dy = Some de" "0 \<le> de"
            using dist_tables [of dy] by auto
          obtain dx w where w: "inf_getbits v (nat de) = Some (dx, w)" "reads (nat de) v w"
            using getbits_reads [OF vo] by blast
          have wo: "inf_ok w" and tw: "runs t w" using w(2) reads_runs [OF w(2)] runs_trans [OF tv] by (auto simp: reads_def)
          have sw: "runs s w" using runs_trans [OF st tw] .
          have eq: "inf_symbol s lh dh =
              (if int (dst_pos w) < db + int dx then map_option Inl (fail w)
               else if length (dst w) < (dst_pos w + nat (lb + int lx)) mod 2 ^ 32 then map_option Inl (fail w)
               else map_option Inr (copy_match (nat (lb + int lx)) (db + int dx) w))"
            using d False lit sm l u v dok dt w by (simp add: inf_symbol_def Let_def)
          show ?thesis
          proof (cases "int (dst_pos w) < db + int dx \<or> length (dst w) < (dst_pos w + nat (lb + int lx)) mod 2 ^ 32")
            case True
            then show ?thesis unfolding eq using fail_runs [OF wo] runs_trans [OF sw] by auto
          next
            case cp: False
            have "(2 :: nat) ^ nat le \<le> 2 ^ 5" using l(6) by (intro power_increasing) auto
            then have "nat (lb + int lx) < 300" using l(2,3) u(3) by simp
            moreover have "dst_pos w \<le> length (dst w)" using wo by (simp add: inf_ok_def)
            moreover have "length (dst w) + 65540 < 2 ^ 32" using sizes_ok_runs [OF sw sz] by (simp add: sizes_ok_def)
            ultimately have "(dst_pos w + nat (lb + int lx)) mod 2 ^ 32 = dst_pos w + nat (lb + int lx)" by (intro mod_less) linarith
            then have fit: "dst_pos w + nat (lb + int lx) \<le> length (dst w)" using cp by simp
            obtain z where z: "copy_match (nat (lb + int lx)) (db + int dx) w = Some z" "runs w z" "bits_left z = bits_left w"
              using copy_match_runs [OF wo _ _ fit, of "db + int dx"] cp dt(2) by auto
            have "bits_left z < bits_left s" using z(3) tw less by (simp add: runs_def)
            then show ?thesis unfolding eq using cp z runs_trans [OF sw z(2)] by simp
          qed
        qed
      qed
    qed
  qed
qed

lemma block_runs:
  assumes "huff_ok nl lh" and "huff_ok nd dh" and "inf_ok s" and "sizes_ok s"
  shows "\<exists>rc t. inf_block s lh dh = Some (rc, t) \<and> runs s t"
  using assms(3,4)
proof (induction "bits_left s" arbitrary: s rule: less_induct)
  case less
  obtain r where r: "inf_symbol s lh dh = Some r"
      "case r of Inl (rc, t) \<Rightarrow> runs s t | Inr t \<Rightarrow> runs s t \<and> bits_left t < bits_left s"
    using symbol_runs [OF assms(1,2) less.prems] by blast
  show ?case
  proof (cases r)
    case (Inl x)
    then show ?thesis using r by (subst inf_block.simps) (auto split: prod.splits)
  next
    case (Inr t)
    then have t: "runs s t" "bits_left t < bits_left s" using r(2) by auto
    then obtain rc u where "inf_block t lh dh = Some (rc, u)" "runs t u"
      using less.hyps [OF t(2)] sizes_ok_runs [OF t(1) less.prems(2)] by (auto simp: runs_def)
    then show ?thesis using r(1) Inr runs_trans [OF t(1)] by (subst inf_block.simps) auto
  qed
qed

section \<open>Dynamic code tables\<close>

lemma u8_small: "n < 16 \<Longrightarrow> unat (of_nat n :: u8) < 16"
  by (simp add: unsigned_of_nat take_bit_eq_mod)

lemma clc_order_idx: "i < 19 \<Longrightarrow> \<exists>v. idx inf_clc_order (int i) = Some v \<and> 0 \<le> v \<and> v < 19"
  using idx_all [of "\<lambda>v. 0 \<le> v \<and> v < 19" inf_clc_order "int i"] by (simp add: inf_clc_order_def)

lemma read_clen_ok:
  "inf_ok s \<Longrightarrow> i + n \<le> 19 \<Longrightarrow> length clen = 19 \<Longrightarrow> (\<forall>l \<in> set clen. unat l < 16) \<Longrightarrow>
    \<exists>clen' t. read_clen i n clen s = Some (clen', t) \<and> reads 0 s t \<and> length clen' = 19 \<and> (\<forall>l \<in> set clen'. unat l < 16)"
proof (induction n arbitrary: i clen s)
  case (Suc n)
  obtain v t where v: "inf_getbits s 3 = Some (v, t)" "reads 3 s t" "v < 2 ^ 3" using getbits_reads [OF Suc.prems(1)] by blast
  obtain c where c: "idx inf_clc_order (int i) = Some c" "0 \<le> c" "c < 19" using clc_order_idx [of i] Suc.prems(2) by auto
  have "\<forall>l \<in> set (clen[nat c := of_nat v]). unat l < 16"
    using Suc.prems(4) u8_small [of v] v(3) set_update_subset_insert [of clen "nat c" "of_nat v"] by auto
  then obtain clen' u where "read_clen (i + 1) n (clen[nat c := of_nat v]) t = Some (clen', u)" "reads 0 t u"
      "length clen' = 19" "\<forall>l \<in> set clen'. unat l < 16"
    using Suc.IH [of t "i + 1" "clen[nat c := of_nat v]"] Suc.prems v(2) by (auto simp: reads_def)
  then show ?case using v c Suc.prems(3) reads_mono [OF reads_trans [OF v(2)], of 0] by (auto simp: upd_def)
qed (use reads_refl in auto)

definition lens_ok :: "nat \<Rightarrow> u8 list \<Rightarrow> bool" where
  "lens_ok num ls \<longleftrightarrow> (\<forall>i < num. unat (ls ! i) < 16)"

lemma repeat_length_ok:
  "unat v < 16 \<Longrightarrow> limit \<le> length ls \<Longrightarrow> num \<le> limit \<Longrightarrow> lens_ok num ls \<Longrightarrow>
    \<exists>num' ls'. repeat_length r v limit num ls = Some (num', ls') \<and> length ls' = length ls \<and> lens_ok num' ls' \<and>
      num \<le> num' \<and> num' \<le> limit \<and> (0 < r \<and> num < limit \<longrightarrow> num < num')"
proof (induction r arbitrary: num ls)
  case (Suc r)
  show ?case
  proof (cases "num < limit")
    case True
    have "lens_ok (num + 1) (ls[num := v])" using Suc.prems True by (auto simp: lens_ok_def nth_list_update less_Suc_eq)
    then obtain num' ls' where "repeat_length r v limit (num + 1) (ls[num := v]) = Some (num', ls')"
        "length ls' = length ls" "lens_ok num' ls'" "num + 1 \<le> num'" "num' \<le> limit"
      using Suc.IH [of "ls[num := v]" "num + 1"] Suc.prems True by auto
    then show ?thesis using True Suc.prems by (simp add: upd_def)
  qed (use Suc.prems in simp)
qed simp

lemma length_symbol_ok:
  assumes h: "huff_ok n clh" and ok: "inf_ok s" and num: "num < limit" "limit \<le> length ls" "lens_ok num ls"
  shows "\<exists>r. length_symbol clh limit num ls s = Some r \<and>
    (case r of Inl t \<Rightarrow> runs s t
     | Inr (num', ls', t) \<Rightarrow> reads 0 s t \<and> num < num' \<and> num' \<le> limit \<and> length ls' = length ls \<and> lens_ok num' ls')"
proof -
  obtain sy t where d: "inf_decode s clh = Some (sy, t)" "reads 1 s t" "\<not> error t \<longrightarrow> 0 \<le> sy"
    using decode_reads [OF h ok] by blast
  have t: "inf_ok t" using d(2) by (simp add: reads_def)
  show ?thesis
  proof (cases "error t")
    case True
    then show ?thesis using d reads_runs [OF d(2)] by (simp add: length_symbol_def)
  next
    case ne: False
    have rep: "\<exists>x u num' ls'. inf_getbits t k = Some (x, u) \<and> reads 0 s u \<and>
        repeat_length (c + x) v limit num ls = Some (num', ls') \<and>
        num < num' \<and> num' \<le> limit \<and> length ls' = length ls \<and> lens_ok num' ls'" if "unat v < 16" "0 < c" for k c v
    proof -
      obtain x u where x: "inf_getbits t k = Some (x, u)" "reads k t u" using getbits_reads [OF t] by blast
      then show ?thesis
        using repeat_length_ok [OF that(1) num(2) _ num(3), of "c + x"] num(1) that(2) reads_mono [OF reads_trans [OF d(2) x(2)], of 0]
        by fastforce
    qed
    consider "sy < 16" | "sy = 16" "num = 0" | "sy = 16" "num \<noteq> 0" | "sy = 17" | "17 < sy" by linarith
    then show ?thesis
    proof cases
      case 1
      have "unat (word_of_int sy :: u8) < 16" using u8_small [of "nat sy"] d(3) ne 1 by (simp add: nat_less_iff)
      then have "lens_ok (num + 1) (ls[num := word_of_int sy])"
        using num by (auto simp: lens_ok_def nth_list_update less_Suc_eq)
      then show ?thesis using d ne 1 num reads_mono [OF d(2), of 0] by (simp add: length_symbol_def upd_def)
    next
      case 2
      then show ?thesis using d ne runs_error [OF reads_runs [OF d(2)]] by (simp add: length_symbol_def)
    next
      case 3
      have "idx ls (int num - 1) = Some (ls ! (num - 1))" using 3 num by (auto simp: idx_def nat_diff_distrib')
      moreover have "unat (ls ! (num - 1)) < 16" using 3 num by (simp add: lens_ok_def)
      ultimately show ?thesis using rep [of "ls ! (num - 1)" 3 2] d ne 3 by (auto simp: length_symbol_def simp del: repeat_length.simps)
    next
      case 4
      then show ?thesis using rep [of 0 3 3] d ne by (auto simp: length_symbol_def simp del: repeat_length.simps)
    next
      case 5
      then show ?thesis using rep [of 0 11 7] d ne by (auto simp: length_symbol_def simp del: repeat_length.simps)
    qed
  qed
qed

lemma read_lengths_ok:
  assumes h: "huff_ok n clh"
  shows "inf_ok s \<Longrightarrow> num \<le> limit \<Longrightarrow> limit \<le> length ls \<Longrightarrow> lens_ok num ls \<Longrightarrow>
    \<exists>r. read_lengths clh limit num ls s = Some r \<and>
      (case r of Inl t \<Rightarrow> runs s t | Inr (ls', t) \<Rightarrow> reads 0 s t \<and> length ls' = length ls \<and> lens_ok limit ls')"
proof (induction "limit - num" arbitrary: num ls s rule: less_induct)
  case less
  show ?case
  proof (cases "num < limit")
    case True
    obtain r where r: "length_symbol clh limit num ls s = Some r"
      "case r of Inl t \<Rightarrow> runs s t
       | Inr (num', ls', t) \<Rightarrow> reads 0 s t \<and> num < num' \<and> num' \<le> limit \<and> length ls' = length ls \<and> lens_ok num' ls'"
      using length_symbol_ok [OF h less.prems(1) True less.prems(3,4)] by blast
    show ?thesis
    proof (cases r)
      case (Inl t)
      then show ?thesis using r True by (subst read_lengths.simps) simp
    next
      case (Inr x)
      obtain num' ls' t where x: "x = (num', ls', t)" by (cases x)
      then have y: "reads 0 s t" "num < num'" "num' \<le> limit" "length ls' = length ls" "lens_ok num' ls'"
        using r(2) Inr by auto
      have "limit - num' < limit - num" using y True by simp
      then obtain q where q: "read_lengths clh limit num' ls' t = Some q"
        "case q of Inl t' \<Rightarrow> runs t t' | Inr (ls'', t') \<Rightarrow> reads 0 t t' \<and> length ls'' = length ls' \<and> lens_ok limit ls''"
        using less.hyps [of num' t ls'] y less.prems by (auto simp: reads_def)
      have "read_lengths clh limit num ls s = Some q"
        using r(1) Inr x q(1) True by (subst read_lengths.simps) simp
      moreover have "case q of Inl t' \<Rightarrow> runs s t' | Inr (ls'', t') \<Rightarrow> reads 0 s t' \<and> length ls'' = length ls \<and> lens_ok limit ls''"
        using q(2) y(1,4) runs_trans [OF reads_runs [OF y(1)]] reads_trans [OF y(1)] by (auto split: sum.splits)
      ultimately show ?thesis by blast
    qed
  next
    case False
    then show ?thesis using less.prems reads_refl by (subst read_lengths.simps) auto
  qed
qed

lemma dynamic_ok:
  assumes ok: "inf_ok s" and h0: "length (symbol h0) = INF_MAXCODES" and l0: "length l0 = INF_MAXCODES"
  shows "\<exists>hs t. inf_dynamic h0 l0 s = Some (hs, t) \<and> runs s t \<and>
    (case hs of None \<Rightarrow> True | Some (lh, dh) \<Rightarrow> (\<exists>nl nd. huff_ok nl lh \<and> huff_ok nd dh))"
proof -
  obtain x t1 where x: "inf_getbits s 5 = Some (x, t1)" "reads 5 s t1" "x < 2 ^ 5" using getbits_reads [OF ok] by blast
  then obtain y t2 where y: "inf_getbits t1 5 = Some (y, t2)" "reads 5 t1 t2" "y < 2 ^ 5"
    using getbits_reads [of t1 5] by (auto simp: reads_def)
  then obtain z t3 where z: "inf_getbits t2 4 = Some (z, t3)" "reads 4 t2 t3" "z < 2 ^ 4"
    using getbits_reads [of t2 4] by (auto simp: reads_def)
  have s3: "runs s t3" using runs_trans reads_runs x(2) y(2) z(2) by blast
  have t3: "inf_ok t3" using z(2) by (simp add: reads_def)
  show ?thesis
  proof (cases "INF_MAXLCODES < int (x + 257) \<or> INF_MAXDCODES < int (y + 1)")
    case True
    then show ?thesis using x y z runs_error [OF s3] by (auto simp: inf_dynamic_def Let_def)
  next
    case False
    then have lim: "x + 257 + (y + 1) \<le> length l0" using l0 by simp
    obtain clen t4 where c: "read_clen 0 (z + 4) (replicate 19 0) t3 = Some (clen, t4)" "reads 0 t3 t4"
        "length clen = 19" "\<forall>l \<in> set clen. unat l < 16"
      using read_clen_ok [OF t3, of 0 "z + 4" "replicate 19 0"] z(3) by auto
    obtain clh where clh: "inf_build h0 clen = Some clh" "huff_ok 19 clh"
      using build_ok [OF c(4), of h0] h0 c(3) by auto
    have t4: "inf_ok t4" and s4: "runs s t4" using c(2) reads_runs [OF c(2)] runs_trans [OF s3] by (auto simp: reads_def)
    obtain r where r: "read_lengths clh (x + 257 + (y + 1)) 0 l0 t4 = Some r"
        "case r of Inl t \<Rightarrow> runs t4 t | Inr (ls', t) \<Rightarrow> reads 0 t4 t \<and> length ls' = length l0 \<and> lens_ok (x + 257 + (y + 1)) ls'"
      using read_lengths_ok [OF clh(2) t4 _ lim] by (auto simp: lens_ok_def)
    have eq: "inf_dynamic h0 l0 s = (case r of Inl s \<Rightarrow> Some (None, s)
        | Inr p \<Rightarrow> if error (snd p) then Some (None, snd p)
            else do { lh \<leftarrow> inf_build h0 (take (x + 257) (fst p));
              dh \<leftarrow> inf_build h0 (take (y + 1) (drop (x + 257) (fst p)));
              Some (Some (lh, dh), snd p) })"
      using x(1) y(1) z(1) False c(1) clh(1) r(1)
      by (cases r) (simp_all add: inf_dynamic_def Let_def del: read_clen.simps)
    show ?thesis
    proof (cases r)
      case (Inl t)
      then show ?thesis unfolding eq using r(2) runs_trans [OF s4] by simp
    next
      case (Inr p)
      then have p: "reads 0 t4 (snd p)" "length (fst p) = length l0" "lens_ok (x + 257 + (y + 1)) (fst p)"
        using r(2) by (auto split: prod.splits)
      then have sp: "runs s (snd p)" using runs_trans [OF s4] reads_runs by blast
      show ?thesis
      proof (cases "error (snd p)")
        case False
        let ?l = "take (x + 257) (fst p)" and ?d = "take (y + 1) (drop (x + 257) (fst p))"
        have "\<forall>l \<in> set ?l. unat l < 16" "\<forall>l \<in> set ?d. unat l < 16"
          using p(2,3) lim by (auto simp: lens_ok_def in_set_conv_nth)
        moreover have "length ?l \<le> length (symbol h0)" "length ?d \<le> length (symbol h0)" using p(2) l0 h0 by simp_all
        ultimately obtain lh dh where "inf_build h0 ?l = Some lh" "inf_build h0 ?d = Some dh"
            "huff_ok (length ?l) lh" "huff_ok (length ?d) dh"
          using build_ok by meson
        then show ?thesis unfolding eq using Inr False sp by auto
      qed (unfold eq, use Inr sp in auto)
    qed
  qed
qed

lemma copy_stored_runs:
  "inf_ok s \<Longrightarrow> bitcnt s = 0 \<Longrightarrow> src_pos s + n \<le> length (src s) \<Longrightarrow> dst_pos s + n \<le> length (dst s) \<Longrightarrow>
    \<exists>t. copy_stored n s = Some t \<and> runs s t \<and> src_pos t = src_pos s + n \<and> dst_pos t = dst_pos s + n \<and> error t = error s \<and> bitcnt t = 0 \<and>
      bitbuf t = bitbuf s \<and> (\<forall>i < n. dst t ! (dst_pos s + i) = src s ! (src_pos s + i))"
proof (induction n arbitrary: s)
  case 0
  then show ?case by (simp add: runs_refl)
next
  case (Suc n)
  let ?s = "s\<lparr>dst := (dst s)[dst_pos s := src s ! src_pos s], dst_pos := dst_pos s + 1, src_pos := src_pos s + 1\<rparr>"
  have r: "runs s ?s" using Suc.prems by (auto simp: runs_def inf_ok_def bits_left_def)
  then obtain t where t: "copy_stored n ?s = Some t" "runs ?s t" "src_pos t = src_pos ?s + n" "dst_pos t = dst_pos ?s + n"
      "error t = error ?s" "bitcnt t = 0" "bitbuf t = bitbuf ?s" "\<forall>i < n. dst t ! (dst_pos ?s + i) = src ?s ! (src_pos ?s + i)"
    using Suc.IH [of ?s] Suc.prems by (auto simp: runs_def)
  have e: "copy_stored (Suc n) s = copy_stored n ?s" using Suc.prems by (simp add: idx_def upd_def)
  have "dst t ! (dst_pos s + i) = src s ! (src_pos s + i)" if "i < Suc n" for i
  proof (cases i)
    case 0
    have "dst t ! dst_pos s = dst ?s ! dst_pos s" using t(2) by (simp add: runs_def)
    then show ?thesis using 0 Suc.prems by simp
  qed (use t(8) that in simp)
  then show ?case using e t runs_trans [OF r t(2)] by simp
qed

lemma stored_runs:
  assumes ok: "inf_ok s" and sz: "sizes_ok s"
  shows "\<exists>rc t. inf_stored s = Some (rc, t) \<and> runs s t"
proof -
  let ?s = "s\<lparr>bitbuf := 0, bitcnt := 0\<rparr>"
  have r1: "runs s ?s" using ok by (auto simp: runs_def inf_ok_def bits_left_def)
  have p: "src_pos s \<le> length (src s)" "dst_pos s \<le> length (dst s)" "length (src s) + 65540 < 2 ^ 32" "length (dst s) + 65540 < 2 ^ 32"
    using ok sz by (auto simp: inf_ok_def sizes_ok_def)
  have w: "(src_pos s + 4) mod 2 ^ 32 = src_pos s + 4" using p by (intro mod_less) linarith
  show ?thesis
  proof (cases "length (src s) < src_pos s + 4")
    case True
    then show ?thesis using w fail_runs [of ?s] r1 runs_trans [OF r1] by (auto simp: inf_stored_def Let_def runs_def)
  next
    case False
    let ?len = "unat (src s ! src_pos s) OR push_bit 8 (unat (src s ! (src_pos s + 1)))"
    let ?t = "?s\<lparr>src_pos := src_pos s + 4\<rparr>"
    have ix: "idx (src s) (int (src_pos s)) = Some (src s ! src_pos s)"
      "idx (src s) (int (src_pos s) + 1) = Some (src s ! (src_pos s + 1))"
      using False by (auto simp: idx_def nat_add_distrib)
    have "?len < 2 ^ 16"
    proof -
      have b: "unat (src s ! src_pos s) < 256" "unat (src s ! (src_pos s + 1)) < 256"
        using unsigned_less [where ?'a = nat, of "src s ! src_pos s"] unsigned_less [where ?'a = nat, of "src s ! (src_pos s + 1)"] by simp_all
      then have "take_bit 16 ?len = ?len" by (simp add: take_bit_or take_bit_nat_eq_self push_bit_eq_mult)
      then show ?thesis by (metis take_bit_nat_less_exp)
    qed
    then have len: "?len < 65536" by simp
    have w2: "(src_pos s + 4 + ?len) mod 2 ^ 32 = src_pos s + 4 + ?len" "(dst_pos s + ?len) mod 2 ^ 32 = dst_pos s + ?len"
      using p len by (intro mod_less; linarith)+
    have r2: "runs s ?t" using ok False by (auto simp: runs_def inf_ok_def bits_left_def)
    then have t: "inf_ok ?t" by (simp add: runs_def)
    have eq: "inf_stored s = (if length (src s) < src_pos s + 4 + ?len then fail ?t
        else if length (dst s) < dst_pos s + ?len then fail ?t else do { s \<leftarrow> copy_stored ?len ?t; Some (0, s) })"
      using False w w2 ix by (simp add: inf_stored_def Let_def)
    show ?thesis
    proof (cases "length (src s) < src_pos s + 4 + ?len \<or> length (dst s) < dst_pos s + ?len")
      case True
      then show ?thesis unfolding eq using fail_runs [OF t] runs_trans [OF r2] by auto
    next
      case fit: False
      then obtain u where "copy_stored ?len ?t = Some u" "runs ?t u"
        using copy_stored_runs [OF t, of ?len] by auto
      then show ?thesis unfolding eq using fit runs_trans [OF r2] by auto
    qed
  qed
qed

lemma fixed_ok:
  assumes "length (symbol h0) = INF_MAXCODES"
  shows "\<exists>lh dh nl nd. inf_fixed h0 h0 = Some (lh, dh) \<and> huff_ok nl lh \<and> huff_ok nd dh"
proof -
  let ?l = "replicate 144 8 @ replicate 112 9 @ replicate 24 7 @ replicate 8 8 :: u8 list"
  obtain lh where lh: "inf_build h0 ?l = Some lh" "huff_ok (length ?l) lh"
    using build_ok [of ?l h0] assms by auto
  obtain dh where dh: "inf_build h0 (replicate 30 5) = Some dh" "huff_ok (length (replicate 30 (5 :: u8))) dh"
    using build_ok [of "replicate 30 5" h0] assms by auto
  show ?thesis using lh dh unfolding inf_fixed_def by auto
qed

lemma one_block_runs:
  assumes ok: "inf_ok s" "sizes_ok s" and h0: "length (symbol h0) = INF_MAXCODES" and l0: "length l0 = INF_MAXCODES"
  shows "\<exists>final rc t. inf_one_block h0 l0 s = Some (final, rc, t) \<and> runs s t \<and> (rc = 0 \<longrightarrow> bits_left t < bits_left s)"
proof -
  obtain f t1 where f: "inf_getbit s = Some (f, t1)" "reads 1 s t1" using getbit_reads [OF ok(1)] by blast
  then obtain ty t2 where ty: "inf_getbits t1 2 = Some (ty, t2)" "reads 2 t1 t2"
    using getbits_reads [of t1 2] by (auto simp: reads_def)
  have r: "reads 3 s t2" by (rule reads_mono [OF reads_trans [OF f(2) ty(2)]]) simp
  then have s2: "runs s t2" and t2: "inf_ok t2" "sizes_ok t2" using reads_runs [OF r] sizes_ok_runs ok(2) by (auto simp: reads_def)
  have go: "runs s t \<and> (rc = 0 \<longrightarrow> bits_left t < bits_left s)" if "\<not> error t2" "runs t2 t" for t and rc :: int
    using that r runs_trans [OF s2] by (auto simp: reads_def runs_def)
  show ?thesis
  proof (cases "error t2")
    case True
    then show ?thesis using f ty s2 by (auto simp: inf_one_block_def)
  next
    case ne: False
    consider "ty = 0" | "ty = 1" | "ty = 2" | "2 < ty" by linarith
    then show ?thesis
    proof cases
      case 1
      then show ?thesis using f ty ne stored_runs [OF t2] go [OF ne] by (auto simp: inf_one_block_def)
    next
      case 2
      obtain lh dh nl nd where h: "inf_fixed h0 h0 = Some (lh, dh)" "huff_ok nl lh" "huff_ok nd dh" using fixed_ok [OF h0] by blast
      then show ?thesis using f ty ne 2 block_runs [OF h(2,3) t2] go [OF ne] by (auto simp: inf_one_block_def)
    next
      case 3
      obtain hs t where d: "inf_dynamic h0 l0 t2 = Some (hs, t)" "runs t2 t"
          "case hs of None \<Rightarrow> True | Some (lh, dh) \<Rightarrow> (\<exists>nl nd. huff_ok nl lh \<and> huff_ok nd dh)"
        using dynamic_ok [OF t2(1) h0 l0] by blast
      have to: "inf_ok t" "sizes_ok t" using d(2) sizes_ok_runs [OF d(2) t2(2)] by (auto simp: runs_def)
      show ?thesis
      proof (cases hs)
        case None
        then show ?thesis using f ty ne 3 d(1) runs_trans [OF s2 d(2)] by (auto simp: inf_one_block_def)
      next
        case (Some h)
        then obtain nl nd where "huff_ok nl (fst h)" "huff_ok nd (snd h)" using d(3) by (auto split: prod.splits)
        then obtain rc u where "inf_block t (fst h) (snd h) = Some (rc, u)" "runs t u" using block_runs to by blast
        then show ?thesis using f ty ne 3 d(1) Some go [OF ne runs_trans [OF d(2)]] by (auto simp: inf_one_block_def)
      qed
    next
      case 4
      then show ?thesis using f ty ne s2 by (auto simp: inf_one_block_def)
    qed
  qed
qed

lemma blocks_run:
  assumes h0: "length (symbol h0) = INF_MAXCODES" and l0: "length l0 = INF_MAXCODES"
  shows "inf_ok s \<Longrightarrow> sizes_ok s \<Longrightarrow> \<exists>rc t. inf_blocks h0 l0 s = Some (rc, t) \<and> runs s t \<and> (rc = 0 \<or> rc = - 1) \<and> (rc = 0 \<longrightarrow> \<not> error t)"
proof (induction "bits_left s" arbitrary: s rule: less_induct)
  case less
  obtain f rc t where b: "inf_one_block h0 l0 s = Some (f, rc, t)" "runs s t" "rc = 0 \<longrightarrow> bits_left t < bits_left s"
    using one_block_runs [OF less.prems h0 l0] by blast
  show ?case
  proof (cases "rc = 0 \<and> f = 0 \<and> \<not> error t")
    case True
    then obtain rc' u where "inf_blocks h0 l0 t = Some (rc', u)" "runs t u" "rc' = 0 \<or> rc' = - 1" "rc' = 0 \<longrightarrow> \<not> error u"
      using less.hyps [of t] b sizes_ok_runs [OF b(2) less.prems(2)] by (auto simp: runs_def)
    then show ?thesis using b(1) True runs_trans [OF b(2)] by (subst inf_blocks.simps) auto
  next
    case False
    then show ?thesis using b by (subst inf_blocks.simps) auto
  qed
qed

end
