(* ===== verification/Inflate_Properties.thy ===== *)
theory Inflate_Properties
  imports Inflate_Facts
begin

text \<open>Properties of the decompressor: safety on every input, and the inverse of stored encoding.\<close>

text \<open>
  C9. The decompressor is safe on every input, however malformed: it ends, no array is
  accessed outside its bounds (input, output, code tables, length arrays, whatever the stack
  arrays held before), it returns 0 or -1, and it writes only the bytes it reports. The sizes
  are bounded so that the 32-bit sums do not wrap.
\<close>

theorem inflate_safe:
  assumes "length (symbol h0) = INF_MAXCODES" and "length l0 = INF_MAXCODES"
    and "length source + 65540 < 2 ^ 32" and "length buf + 65540 < 2 ^ 32"
  shows "\<exists>rc n out. inflate_raw h0 l0 source buf = Some (rc, n, out) \<and> (rc = 0 \<or> rc = - 1) \<and>
    n \<le> length buf \<and> length out = length buf \<and> drop n out = drop n buf"
proof -
  let ?s = "\<lparr>src = source, src_pos = 0, bitbuf = 0, bitcnt = 0, dst = buf, dst_pos = 0, error = False\<rparr>"
  have "inf_ok ?s" "sizes_ok ?s" using assms by (simp_all add: inf_ok_def sizes_ok_def)
  then obtain rc t where b: "inf_blocks h0 l0 ?s = Some (rc, t)" "runs ?s t" "rc = 0 \<or> rc = - 1"
    using blocks_run [OF assms(1,2)] by blast
  have "drop (dst_pos t) (dst t) = drop (dst_pos t) buf"
    by (rule nth_equalityI) (use b(2) in \<open>auto simp: runs_def\<close>)
  then show ?thesis using b by (auto simp: inflate_raw_def runs_def inf_ok_def)
qed

section \<open>Stored blocks\<close>

definition stored_block :: "u8 \<Rightarrow> u8 list \<Rightarrow> u8 list" where
  "stored_block f c =
     (let lo = of_nat (length c); hi = of_nat (length c div 256) in [f, lo, hi, NOT lo, NOT hi] @ c)"

fun deflate_stored :: "u8 list list \<Rightarrow> u8 list" where
  "deflate_stored [] = []"
| "deflate_stored [c] = stored_block 1 c"
| "deflate_stored (c # cs) = stored_block 0 c @ deflate_stored cs"

lemma stored_length_field:
  assumes "n < 65536"
  shows "unat (of_nat n :: u8) OR push_bit 8 (unat (of_nat (n div 256) :: u8)) = n"
proof -
  have lo: "unat (of_nat n :: u8) = take_bit 8 n" by (simp add: unsigned_of_nat)
  have "n div 256 < 256" using assms by (simp add: div_less_iff_less_mult)
  then have hi: "unat (of_nat (n div 256) :: u8) = drop_bit 8 n"
    by (simp add: unsigned_of_nat take_bit_nat_eq_self drop_bit_eq_div)
  show ?thesis unfolding lo hi
  proof (rule bit_eqI)
    fix m show "bit (take_bit 8 n OR push_bit 8 (drop_bit 8 n)) m = bit n m"
      by (cases "m < 8") (auto simp: bit_simps)
  qed
qed

lemma header_bits:
  assumes "bitcnt s = 0" and "src_pos s < length (src s)" and "src s ! src_pos s = f" and "f = 0 \<or> f = 1" and "\<not> error s"
  shows "inf_getbit s = Some (unat f, s\<lparr>bitbuf := 0, src_pos := src_pos s + 1, bitcnt := 7\<rparr>)"
    and "inf_getbits (s\<lparr>bitbuf := 0, src_pos := src_pos s + 1, bitcnt := 7\<rparr>) 2 =
      Some (0, s\<lparr>bitbuf := 0, src_pos := src_pos s + 1, bitcnt := 5\<rparr>)"
  using assms by (auto simp: inf_getbit_def inf_getbits_def idx_def Let_def eval_nat_numeral)

lemma one_stored_block:
  assumes ok: "inf_ok s" "sizes_ok s" "bitcnt s = 0" "\<not> error s" and f: "f = 0 \<or> f = 1" and c: "length c < 65536"
    and data: "drop (src_pos s) (src s) = stored_block f c @ rest" and room: "dst_pos s + length c \<le> length (dst s)"
  shows "\<exists>t. inf_one_block h0 l0 s = Some (unat f, 0, t) \<and> runs s t \<and> bitcnt t = 0 \<and> \<not> error t \<and>
    drop (src_pos t) (src t) = rest \<and> dst_pos t = dst_pos s + length c \<and>
    take (dst_pos t) (dst t) = take (dst_pos s) (dst s) @ c"
proof -
  let ?q = "src_pos s"
  have len: "?q + 5 + length c + length rest = length (src s)"
    using arg_cong [OF data, of length] ok(1) by (simp add: stored_block_def Let_def inf_ok_def)
  have at: "src s ! (?q + i) = (stored_block f c @ rest) ! i" if "?q + i < length (src s)" for i
    using that data ok(1) by (metis nth_drop inf_ok_def)
  have b: "src s ! ?q = f" "src s ! (?q + 1) = of_nat (length c)" "src s ! (?q + 2) = of_nat (length c div 256)"
    using at [of 0] at [of 1] at [of 2] len by (simp_all add: stored_block_def Let_def)
  have body: "src s ! (?q + 5 + i) = c ! i" if "i < length c" for i
    using at [of "5 + i"] that len by (simp add: stored_block_def Let_def nth_append add.assoc)
  let ?t = "s\<lparr>bitbuf := 0, src_pos := ?q + 1, bitcnt := 5\<rparr>" and ?u = "s\<lparr>bitbuf := 0, bitcnt := 0, src_pos := 5 + ?q\<rparr>"
  have hd: "inf_getbit s = Some (unat f, s\<lparr>bitbuf := 0, src_pos := ?q + 1, bitcnt := 7\<rparr>)"
    "inf_getbits (s\<lparr>bitbuf := 0, src_pos := ?q + 1, bitcnt := 7\<rparr>) 2 = Some (0, ?t)"
    using header_bits [OF ok(3) _ b(1) f ok(4)] len by simp_all
  have sz: "length (src s) + 65540 < 2 ^ 32" "length (dst s) + 65540 < 2 ^ 32" using ok(2) by (simp_all add: sizes_ok_def)
  have ix: "idx (src s) (int (?q + 1)) = Some (of_nat (length c))" "idx (src s) (int (?q + 1) + 1) = Some (of_nat (length c div 256))"
    using len b(2,3) by (auto simp: idx_def nat_add_distrib)
  have u: "inf_ok ?u" "runs s ?u" using ok(1,3) len by (auto simp: inf_ok_def runs_def bits_left_def)
  obtain v where v: "copy_stored (length c) ?u = Some v" "runs ?u v" "src_pos v = ?q + 5 + length c" "dst_pos v = dst_pos s + length c"
      "\<not> error v" "bitcnt v = 0" "\<forall>i < length c. dst v ! (dst_pos s + i) = src s ! (?q + 5 + i)"
    using copy_stored_runs [OF u(1), of "length c"] len room ok(4) by (auto simp: add.commute [of 5])
  have st: "inf_stored ?t = Some (0, v)"
  proof -
    have "(?q + 1 + 4) mod 2 ^ 32 = ?q + 5" "(?q + 5 + length c) mod 2 ^ 32 = ?q + 5 + length c"
      "(dst_pos s + length c) mod 2 ^ 32 = dst_pos s + length c"
      using sz len room by (simp_all)
    then show ?thesis using ix len room v(1) c
      by (simp add: inf_stored_def Let_def stored_length_field add.assoc)
  qed
  have "take (dst_pos v) (dst v) = take (dst_pos s) (dst s) @ c"
  proof (rule nth_equalityI)
    show "length (take (dst_pos v) (dst v)) = length (take (dst_pos s) (dst s) @ c)"
      using v(2,4) room by (simp add: runs_def)
    fix i assume "i < length (take (dst_pos v) (dst v))"
    then have i: "i < dst_pos s + length c" using v(2,4) by (simp add: runs_def)
    show "take (dst_pos v) (dst v) ! i = (take (dst_pos s) (dst s) @ c) ! i"
    proof (cases "i < dst_pos s")
      case True
      then have "dst v ! i = dst s ! i" using v(2) by (simp add: runs_def)
      then show ?thesis using True i v(4) room by (simp add: nth_append)
    next
      case False
      then have "dst v ! i = c ! (i - dst_pos s)" using v(7) body [of "i - dst_pos s"] i by (metis add_diff_inverse_nat nat_add_left_cancel_less)
      then show ?thesis using False i v(4) room by (simp add: nth_append)
    qed
  qed
  moreover have "drop (src_pos v) (src v) = rest"
  proof -
    have "length (stored_block f c) = 5 + length c" by (simp add: stored_block_def Let_def)
    then have "drop (5 + length c) (drop ?q (src s)) = rest" unfolding data by (metis append_eq_conv_conj)
    moreover have "src v = src s" using v(2) by (simp add: runs_def)
    ultimately show ?thesis using v(3) by (simp add: add.commute add.left_commute)
  qed
  moreover have "inf_one_block h0 l0 s = Some (unat f, 0, v)" using hd st ok(4) by (simp add: inf_one_block_def)
  ultimately show ?thesis using v runs_trans [OF u(2) v(2)] by blast
qed

lemma stored_blocks:
  assumes h0: "length (symbol h0) = INF_MAXCODES"
  shows "cs \<noteq> [] \<Longrightarrow> inf_ok s \<Longrightarrow> sizes_ok s \<Longrightarrow> bitcnt s = 0 \<Longrightarrow> \<not> error s \<Longrightarrow> \<forall>c \<in> set cs. length c < 65536 \<Longrightarrow>
    drop (src_pos s) (src s) = deflate_stored cs \<Longrightarrow> dst_pos s + length (concat cs) \<le> length (dst s) \<Longrightarrow>
    \<exists>t. inf_blocks h0 l0 s = Some (0, t) \<and> runs s t \<and> dst_pos t = dst_pos s + length (concat cs) \<and>
      take (dst_pos t) (dst t) = take (dst_pos s) (dst s) @ concat cs"
proof (induction cs arbitrary: s rule: deflate_stored.induct)
  case (2 c)
  then obtain t where t: "inf_one_block h0 l0 s = Some (unat (1 :: u8), 0, t)" "runs s t" "\<not> error t"
      "dst_pos t = dst_pos s + length c" "take (dst_pos t) (dst t) = take (dst_pos s) (dst s) @ c"
    using one_stored_block [of s 1 c "[]" h0 l0] by auto
  then show ?case by (subst inf_blocks.simps) auto
next
  case (3 c d ds)
  have "drop (src_pos s) (src s) = stored_block 0 c @ deflate_stored (d # ds)" using "3.prems"(7) by simp
  then obtain t where t: "inf_one_block h0 l0 s = Some (unat (0 :: u8), 0, t)" "runs s t" "\<not> error t" "bitcnt t = 0"
      "drop (src_pos t) (src t) = deflate_stored (d # ds)"
      "dst_pos t = dst_pos s + length c" "take (dst_pos t) (dst t) = take (dst_pos s) (dst s) @ c"
    using one_stored_block [of s 0 c "deflate_stored (d # ds)" h0 l0] "3.prems" by auto
  have "inf_ok t" "sizes_ok t" using t(2) sizes_ok_runs [OF t(2) "3.prems"(3)] by (auto simp: runs_def)
  then obtain u where u: "inf_blocks h0 l0 t = Some (0, u)" "runs t u" "dst_pos u = dst_pos t + length (concat (d # ds))"
      "take (dst_pos u) (dst u) = take (dst_pos t) (dst t) @ concat (d # ds)"
    using "3.IH" [of t] t "3.prems" by (auto simp: runs_def)
  have "inf_blocks h0 l0 s = Some (0, u)" using t(1,3) u(1) by (subst inf_blocks.simps) simp
  then show ?case using u t runs_trans [OF t(2) u(2)] by auto
qed simp

text \<open>
  C35. Inflating a sequence of stored blocks gives back the data: for any chunks of less
  than 64 KiB and an output buffer with room for them, the code returns 0, the length
  of the data, and the buffer starting with the data, the rest of it unchanged.
\<close>

theorem inflate_stored_roundtrip:
  assumes "cs \<noteq> []" and "\<forall>c \<in> set cs. length c < 65536" and "length (concat cs) \<le> length buf"
    and "length (deflate_stored cs) + 65540 < 2 ^ 32" and "length buf + 65540 < 2 ^ 32"
    and "length (symbol h0) = INF_MAXCODES"
  shows "inflate_raw h0 l0 (deflate_stored cs) buf =
    Some (0, length (concat cs), concat cs @ drop (length (concat cs)) buf)"
proof -
  let ?s = "\<lparr>src = deflate_stored cs, src_pos = 0, bitbuf = 0, bitcnt = 0, dst = buf, dst_pos = 0, error = False\<rparr>"
  have "inf_ok ?s" "sizes_ok ?s" using assms by (simp_all add: inf_ok_def sizes_ok_def)
  then obtain t where t: "inf_blocks h0 l0 ?s = Some (0, t)" "runs ?s t" "dst_pos t = length (concat cs)"
      "take (dst_pos t) (dst t) = concat cs"
    using stored_blocks [OF assms(6,1), of ?s l0] assms(2,3) by auto
  have "drop (dst_pos t) (dst t) = drop (dst_pos t) buf"
    by (rule nth_equalityI) (use t(2) in \<open>auto simp: runs_def\<close>)
  then have "dst t = concat cs @ drop (length (concat cs)) buf" using t(3,4) by (metis append_take_drop_id)
  then show ?thesis using t(1,3) by (simp add: inflate_raw_def)
qed

theorem inflate_stored_roundtrip_witness:
  "inflate_raw \<lparr>count_of = [], symbol = replicate 316 0\<rparr> [] (deflate_stored [[1, 2, 3], [4]]) [9, 9, 9, 9, 9, 9] =
   Some (0, length [1, 2, 3, 4 :: u8], [1, 2, 3, 4, 9, 9])"
  using inflate_stored_roundtrip [of "[[1, 2, 3], [4]]" "[9, 9, 9, 9, 9, 9]" "\<lparr>count_of = [], symbol = replicate 316 0\<rparr>" "[]"]
  by (simp add: stored_block_def Let_def)

theorem inflate_safe_witness:
  "\<exists>rc n out. inflate_raw \<lparr>count_of = [], symbol = replicate 316 7\<rparr> (replicate 316 200) [0xFF, 0xFF] [0] = Some (rc, n, out) \<and>
     (rc = 0 \<or> rc = - 1) \<and> n \<le> 1 \<and> length out = 1"
  using inflate_safe [of "\<lparr>count_of = [], symbol = replicate 316 7\<rparr>" "replicate 316 200" "[0xFF, 0xFF]" "[0]"] by auto

end
