(* ===== verification/Partition.thy ===== *)
theory Partition
  imports Makar_Prelude
begin

text \<open>
  Partition tables: \<^verbatim>\<open>drivers/partition.c\<close>. Sectors are lists of 512 bytes. The disk is
  hardware: the two IDE transfers, the presence and the size of the drive are the fields of
  \<open>drive_ops\<close>, an argument of the operations; \<open>ticks k\<close> is the value of the timer at
  its \<open>k\<close>-th reading. A name is the list of its bytes before the terminating zero.
\<close>

abbreviation "PART_MBR_EMPTY \<equiv> 0x00 :: u8"
abbreviation "PART_MBR_GPT_PROT \<equiv> 0xEE :: u8"
abbreviation "PART_MAX_ENTRIES \<equiv> 128 :: u32"

datatype part_scheme = PART_SCHEME_NONE | PART_SCHEME_MBR | PART_SCHEME_GPT

record part_info =
  p_scheme :: part_scheme
  mbr_type :: u8
  bootable :: bool
  lba_start :: u32
  lba_count :: u32
  pname :: "u8 list"
  type_guid :: "u8 list"
  part_guid :: "u8 list"

record disk_parts =
  scheme :: part_scheme
  total_sectors :: u32
  parts :: "part_info list"

record 'd drive_ops =
  drive_present :: bool
  drive_size :: u32
  ide_read_sectors :: "u32 \<Rightarrow> nat \<Rightarrow> 'd \<Rightarrow> int \<times> u8 list"
  ide_write_sectors :: "u32 \<Rightarrow> u8 list \<Rightarrow> 'd \<Rightarrow> int \<times> 'd"

section \<open>Byte buffers\<close>

definition PART_GUID_FAT32 :: "u8 list" where
  "PART_GUID_FAT32 = [0xA2,0xA0,0xD0,0xEB, 0xE5,0xB9, 0x33,0x44, 0x87,0xC0, 0x68,0xB6,0xB7,0x26,0x99,0xC7]"
definition PART_GUID_EFI :: "u8 list" where
  "PART_GUID_EFI = [0x28,0x73,0x2A,0xC1, 0x1F,0xF8, 0xD2,0x11, 0xBA,0x4B, 0x00,0xA0,0xC9,0x3E,0xC9,0x3B]"
definition PART_GUID_LINUX :: "u8 list" where
  "PART_GUID_LINUX = [0xAF,0x3D,0xC6,0x0F, 0x83,0x84, 0x72,0x47, 0x8E,0x79, 0x3D,0x69,0xD8,0x47,0x7D,0xE4]"
definition PART_GUID_MDFS :: "u8 list" where
  "PART_GUID_MDFS = [0x52,0x44,0x4B,0x4D, 0x46,0x53, 0x00,0x42, 0x80,0x00, 0x00,0x00,0x00,0x00,0x00,0x01]"

text \<open>\<open>put buf off bs\<close> overwrites the bytes from \<open>off\<close> on, as a \<open>memcpy\<close> into the buffer does.\<close>

definition put :: "u8 list \<Rightarrow> nat \<Rightarrow> u8 list \<Rightarrow> u8 list" where
  "put buf off bs = take off buf @ bs @ drop (off + length bs) buf"

definition crc32_step :: "u32 \<Rightarrow> u32" where
  "crc32_step crc = drop_bit 1 crc XOR (0xEDB88320 AND (- (crc AND 1)))"

definition crc32_buf :: "u8 list \<Rightarrow> u32" where
  "crc32_buf buf = foldl (\<lambda>crc b. (crc32_step ^^ 8) (crc XOR ucast b)) 0xFFFFFFFF buf XOR 0xFFFFFFFF"

definition rd32 :: "u8 list \<Rightarrow> nat \<Rightarrow> u32" where
  "rd32 buf off = ucast (buf ! off) OR push_bit 8 (ucast (buf ! (off + 1))) OR
     push_bit 16 (ucast (buf ! (off + 2))) OR push_bit 24 (ucast (buf ! (off + 3)))"

definition rd64lo :: "u8 list \<Rightarrow> nat \<Rightarrow> u32" where
  "rd64lo buf off = rd32 buf off"

definition le32 :: "u32 \<Rightarrow> u8 list" where
  "le32 v = [ucast v, ucast (drop_bit 8 v), ucast (drop_bit 16 v), ucast (drop_bit 24 v)]"

definition wr32 :: "nat \<Rightarrow> u32 \<Rightarrow> u8 list \<Rightarrow> u8 list" where
  "wr32 off v buf = put buf off (le32 v)"

definition wr64 :: "nat \<Rightarrow> u32 \<Rightarrow> u8 list \<Rightarrow> u8 list" where
  "wr64 off v buf = wr32 (off + 4) 0 (wr32 off v buf)"

definition guid_gen :: "u32 \<Rightarrow> u32 \<Rightarrow> u32 \<Rightarrow> u8 list \<times> u32" where
  "guid_gen now discriminator s_guid_seed =
     (let a = now XOR discriminator XOR s_guid_seed XOR 0xDEADBEEF;
          b = a * 1664525 + 1013904223;
          c = b * 22695477 + 1;
          d = c * 1103515245 + 12345;
          guid = wr32 12 d (wr32 8 c (wr32 4 b (wr32 0 a (replicate 16 0))));
          guid = put guid 6 [(guid ! 6 AND 0x0F) OR 0x40];
          guid = put guid 8 [(guid ! 8 AND 0x3F) OR 0x80]
      in (guid, d))"

definition part_type_name :: "u8 \<Rightarrow> string" where
  "part_type_name ty =
     (if ty = 0x00 then ''Empty'' else if ty = 0x01 then ''FAT12'' else if ty = 0x04 then ''FAT16 <32M''
      else if ty = 0x05 then ''Extended (CHS)'' else if ty = 0x06 then ''FAT16'' else if ty = 0x07 then ''NTFS/exFAT''
      else if ty = 0x0B then ''FAT32 (CHS)'' else if ty = 0x0C then ''FAT32 (LBA)'' else if ty = 0x0E then ''FAT16 (LBA)''
      else if ty = 0x0F then ''Extended (LBA)'' else if ty = 0x82 then ''Linux swap'' else if ty = 0x83 then ''Linux''
      else if ty = 0x8E then ''Linux LVM'' else if ty = 0xEE then ''GPT protective'' else if ty = 0xEF then ''EFI System''
      else if ty = 0xFA then ''MDFS'' else ''Unknown'')"

definition part_guid_type_name :: "u8 list \<Rightarrow> string" where
  "part_guid_type_name guid =
     (if guid = replicate 16 0 then ''Unused'' else if guid = PART_GUID_FAT32 then ''FAT32''
      else if guid = PART_GUID_EFI then ''EFI System'' else if guid = PART_GUID_LINUX then ''Linux Data''
      else if guid = PART_GUID_MDFS then ''MDFS'' else ''Unknown'')"

section \<open>Reading\<close>

fun gpt_name_to_ascii :: "nat \<Rightarrow> u8 list \<Rightarrow> u8 list" where
  "gpt_name_to_ascii 0 utf16le = []"
| "gpt_name_to_ascii (Suc n) utf16le =
     (let c = (ucast (utf16le ! 0) OR push_bit 8 (ucast (utf16le ! 1)) :: u16) in
      if c = 0 then []
      else (if c < 0x80 then ucast c else 0x3F) # gpt_name_to_ascii n (drop 2 utf16le))"

definition mbr_slot :: "u8 list \<Rightarrow> nat \<Rightarrow> part_info list" where
  "mbr_slot sector0 i =
     (let base = 0x1BE + i * 16; status = sector0 ! base; ty = sector0 ! (base + 4) in
      if ty = PART_MBR_EMPTY then []
      else [\<lparr>p_scheme = PART_SCHEME_MBR, mbr_type = ty, bootable = (status = 0x80),
             lba_start = rd32 sector0 (base + 8), lba_count = rd32 sector0 (base + 12),
             pname = [], type_guid = replicate 16 0, part_guid = replicate 16 0\<rparr>])"

definition parse_mbr :: "u8 list \<Rightarrow> disk_parts \<Rightarrow> disk_parts" where
  "parse_mbr sector0 out = out\<lparr>scheme := PART_SCHEME_MBR, parts := concat (map (mbr_slot sector0) [0..<4])\<rparr>"

definition gpt_entry_at :: "u8 list \<Rightarrow> part_info" where
  "gpt_entry_at e =
     (let first = rd32 e 32; last_lba = rd32 e 40 in
      \<lparr>p_scheme = PART_SCHEME_GPT, mbr_type = 0, bootable = False, lba_start = first,
       lba_count = last_lba - first + 1, pname = gpt_name_to_ascii 36 (drop 56 e),
       type_guid = take 16 e, part_guid = take 16 (drop 16 e)\<rparr>)"

fun parse_entries :: "nat \<Rightarrow> u8 list \<Rightarrow> part_info list \<Rightarrow> part_info list" where
  "parse_entries 0 buf acc = acc"
| "parse_entries (Suc n) buf acc =
     (if length acc < 128 then
        parse_entries n (drop 128 buf)
          (if take 16 buf = replicate 16 0 then acc else acc @ [gpt_entry_at (take 128 buf)])
      else acc)"

text \<open>\<open>EFI PART\<close>\<close>

definition gpt_sig :: "u8 list" where
  "gpt_sig = [0x45, 0x46, 0x49, 0x20, 0x50, 0x41, 0x52, 0x54]"

definition parse_gpt :: "'d drive_ops \<Rightarrow> u8 list \<Rightarrow> disk_parts \<Rightarrow> 'd \<Rightarrow> int \<times> disk_parts" where
  "parse_gpt ops hdr_buf out d =
     (if take 8 hdr_buf \<noteq> gpt_sig then (- 1, out)
      else
        let num_entries = rd32 hdr_buf 80; entry_size = rd32 hdr_buf 84; entries_start = rd64lo hdr_buf 72 in
        if entry_size \<noteq> 128 \<or> PART_MAX_ENTRIES < num_entries then (- 1, out)
        else
          let entry_sectors = (num_entries * entry_size + 511) div 512;
              entry_sectors = (if 32 < entry_sectors then 32 else entry_sectors);
              (err, buf) = ide_read_sectors ops entries_start (unat entry_sectors) d
          in if err \<noteq> 0 then (err, out)
             else (0, out\<lparr>scheme := PART_SCHEME_GPT, parts := parse_entries (unat num_entries) buf []\<rparr>))"

definition part_probe :: "'d drive_ops \<Rightarrow> 'd \<Rightarrow> int \<times> disk_parts option" where
  "part_probe ops d =
     (if \<not> drive_present ops then (- 1, None)
      else
        let out = \<lparr>scheme = PART_SCHEME_NONE, total_sectors = drive_size ops, parts = []\<rparr>;
            (err, s_sector0) = ide_read_sectors ops 0 1 d
        in if err \<noteq> 0 then (err, Some out)
           else if s_sector0 ! 510 \<noteq> 0x55 \<or> s_sector0 ! 511 \<noteq> 0xAA then (0, Some out)
           else
             let gpt = (if s_sector0 ! (0x1BE + 4) = PART_MBR_GPT_PROT then
                          (case ide_read_sectors ops 1 1 d of (err, hdr) \<Rightarrow>
                             if err = 0 then parse_gpt ops hdr out d else (err, out))
                        else (- 1, out))
             in if fst gpt = 0 then (0, Some (snd gpt))
                else (0, Some (parse_mbr s_sector0 (snd gpt))))"

section \<open>Writing\<close>

definition mbr_entry :: "part_info \<Rightarrow> nat \<Rightarrow> u8 list \<Rightarrow> u8 list" where
  "mbr_entry e base buf =
     wr32 (base + 12) (lba_count e) (wr32 (base + 8) (lba_start e)
       (put buf base [if bootable e then 0x80 else 0, 0xFE, 0xFF, 0xFF, mbr_type e, 0xFE, 0xFF, 0xFF]))"

fun mbr_entries :: "nat \<Rightarrow> part_info list \<Rightarrow> u8 list \<Rightarrow> u8 list" where
  "mbr_entries base [] buf = buf"
| "mbr_entries base (e # es) buf = mbr_entries (base + 16) es (mbr_entry e base buf)"

definition part_write_mbr :: "'d drive_ops \<Rightarrow> part_info list \<Rightarrow> 'd \<Rightarrow> int \<times> 'd" where
  "part_write_mbr ops entries d =
     (if length entries < 1 \<or> 4 < length entries then (- 1, d)
      else
        let (err, s_mbr) = ide_read_sectors ops 0 1 d in
        if err \<noteq> 0 then (err, d)
        else
          let s_mbr = put s_mbr 0x1BE (replicate (4 * 16) 0);
              s_mbr = mbr_entries 0x1BE entries s_mbr;
              s_mbr = put s_mbr 510 [0x55, 0xAA]
          in ide_write_sectors ops 0 s_mbr d)"

fun gpt_name_bytes :: "u8 list \<Rightarrow> u8 list" where
  "gpt_name_bytes [] = []"
| "gpt_name_bytes (c # cs) = c # 0 # gpt_name_bytes cs"

definition gpt_entry :: "u32 \<Rightarrow> u32 \<Rightarrow> part_info \<Rightarrow> u32 \<Rightarrow> u8 list \<times> u32" where
  "gpt_entry now discriminator p seed =
     (let e = put (put (replicate 128 0) 0 (type_guid p)) 16 (part_guid p);
          (e, seed) = (if take 16 (drop 16 e) = replicate 16 0
                       then let (g, seed) = guid_gen now discriminator seed in (put e 16 g, seed) else (e, seed));
          first = lba_start p; last_lba = lba_start p + lba_count p - 1;
          e = wr64 48 0 (wr64 40 last_lba (wr64 32 first e))
      in (put e 56 (gpt_name_bytes (take 36 (pname p))), seed))"

text \<open>The entry array: the given entries, the \<open>i\<close>-th at offset \<open>128 * i\<close>, zeros after them.\<close>

fun gpt_entries :: "(nat \<Rightarrow> u32) \<Rightarrow> u32 \<Rightarrow> nat \<Rightarrow> part_info list \<Rightarrow> u32 \<Rightarrow> u8 list \<times> u32" where
  "gpt_entries ticks drive i [] seed = ([], seed)"
| "gpt_entries ticks drive i (p # ps) seed =
     (let (e, seed) = gpt_entry (ticks (i + 1)) (of_nat i * 0x1000 + drive) p seed;
          (es, seed) = gpt_entries ticks drive (i + 1) ps seed
      in (e @ es, seed))"

definition gpt_header :: "u32 \<Rightarrow> u32 \<Rightarrow> u32 \<Rightarrow> u32 \<Rightarrow> u8 list \<Rightarrow> u32 \<Rightarrow> u8 list" where
  "gpt_header my_lba other_lba disk_sectors entries_lba disk_guid entries_crc =
     (let h = put (replicate 512 0) 0 gpt_sig;
          h = wr32 20 0 (wr32 16 0 (wr32 12 92 (wr32 8 0x00010000 h)));
          h = wr64 48 (disk_sectors - 34) (wr64 40 34 (wr64 32 other_lba (wr64 24 my_lba h)));
          h = wr64 72 entries_lba (put h 56 disk_guid);
          h = wr32 88 entries_crc (wr32 84 128 (wr32 80 128 h))
      in wr32 16 (crc32_buf (take 92 h)) h)"

definition protective_mbr :: "u32 \<Rightarrow> u8 list" where
  "protective_mbr disk_sectors =
     (let b = put (replicate 512 0) 0x1BE [0x00, 0x00, 0x02, 0x00, PART_MBR_GPT_PROT, 0xFF, 0xFF, 0xFF];
          pmbr_count = (if 1 < disk_sectors then disk_sectors - 1 else 0xFFFFFFFF)
      in put (wr32 (0x1BE + 12) pmbr_count (wr32 (0x1BE + 8) 1 b)) 510 [0x55, 0xAA])"

definition part_write_gpt ::
  "'d drive_ops \<Rightarrow> (nat \<Rightarrow> u32) \<Rightarrow> u32 \<Rightarrow> part_info list \<Rightarrow> 'd \<Rightarrow> int \<times> 'd" where
  "part_write_gpt ops ticks drive entries d =
     (if 128 < length entries then (- 1, d)
      else if \<not> drive_present ops then (- 1, d)
      else
        let disk_sectors = drive_size ops in
        if disk_sectors < 68 then (- 1, d)
        else
          let (err, d) = ide_write_sectors ops 0 (protective_mbr disk_sectors) d in
          if err \<noteq> 0 then (err, d)
          else
            let (es, seed) = gpt_entries ticks drive 0 entries (ticks 0);
                s_entry_buf = put (replicate (128 * 128) 0) 0 es;
                entries_crc = crc32_buf s_entry_buf;
                (err, d) = ide_write_sectors ops 2 s_entry_buf d
            in if err \<noteq> 0 then (err, d)
               else
                 let (err, d) = ide_write_sectors ops (disk_sectors - 33) s_entry_buf d in
                 if err \<noteq> 0 then (err, d)
                 else
                   let (disk_guid, seed) = guid_gen (ticks (length entries + 1)) (push_bit 24 drive) seed;
                       (err, d) = ide_write_sectors ops 1
                         (gpt_header 1 (disk_sectors - 1) disk_sectors 2 disk_guid entries_crc) d
                   in if err \<noteq> 0 then (err, d)
                      else ide_write_sectors ops (disk_sectors - 1)
                        (gpt_header (disk_sectors - 1) 1 disk_sectors (disk_sectors - 33) disk_guid entries_crc) d)"

end
