(* ===== verification/Partition_Properties.thy ===== *)
theory Partition_Properties
  imports Partition
begin

text \<open>
  Writing a partition table and probing it again. The hypothesis \<open>drive_ok\<close> is what the
  code relies on of a healthy drive: a read returns the sectors, a write that reports
  success has replaced exactly the sectors it was given.
\<close>

definition drive_ok :: "'d drive_ops \<Rightarrow> ('d \<Rightarrow> u32 \<Rightarrow> u8 list) \<Rightarrow> bool" where
  "drive_ok ops sec \<longleftrightarrow> (\<forall>d lba. length (sec d lba) = 512) \<and>
     (\<forall>d lba n. ide_read_sectors ops lba n d = (0, concat (map (\<lambda>k. sec d (lba + of_nat k)) [0..<n]))) \<and>
     (\<forall>d lba data d'. ide_write_sectors ops lba data d = (0, d') \<longrightarrow>
        (\<forall>k. sec d' k = (if unat (k - lba) < length data div 512
           then take 512 (drop (512 * unat (k - lba)) data) else sec d k)))"

section \<open>Buffers\<close>

lemma length_put [simp]: "off + length bs \<le> length buf \<Longrightarrow> length (put buf off bs) = length buf"
  by (simp add: put_def)

lemma put_nil [simp]: "put buf off [] = buf" by (simp add: put_def)

lemma put_adjacent: "off \<le> length buf \<Longrightarrow> put (put buf off a) (off + length a) b = put buf off (a @ b)"
  by (simp add: put_def add.commute add.left_commute)

lemma put_adjacent_at: "off \<le> length buf \<Longrightarrow> m = off + length a \<Longrightarrow> put (put buf off a) m b = put buf off (a @ b)"
  by (simp add: put_adjacent)

lemma put_over:
  "off + length a \<le> length buf \<Longrightarrow> length b \<le> length a \<Longrightarrow> put (put buf off a) off b = put buf off (b @ drop (length b) a)"
  by (simp add: put_def)

lemma take_drop_put:
  assumes "off + length bs \<le> length buf" and "off \<le> i" and "i + n \<le> off + length bs"
  shows "take n (drop i (put buf off bs)) = take n (drop (i - off) bs)"
  using assms by (simp add: put_def)

lemma take_drop_put_other:
  assumes "off + length bs \<le> length buf" and "i + n \<le> off \<or> off + length bs \<le> i"
  shows "take n (drop i (put buf off bs)) = take n (drop i buf)"
proof (cases "i + n \<le> off")
  case True
  then show ?thesis using assms(1) by (simp add: put_def take_drop min_def)
qed (use assms in \<open>simp add: put_def\<close>)

lemma length_le32 [simp]: "length (le32 v) = 4" by (simp add: le32_def)

lemma rd32_slice: "off + 4 \<le> length buf \<Longrightarrow> rd32 buf off = rd32 (take 4 (drop off buf)) 0"
  by (simp add: rd32_def)

lemma rd32_le32 [simp]: "rd32 (le32 v) 0 = v"
proof (rule bit_word_eqI)
  fix n assume n: "n < LENGTH(32)"
  have "n < 8 \<or> (8 \<le> n \<and> n < 16) \<or> (16 \<le> n \<and> n < 24) \<or> (24 \<le> n \<and> n < 32)" using n by auto
  then show "bit (rd32 (le32 v) 0) n = bit v n"
    by (elim disjE) (simp_all add: rd32_def le32_def bit_simps, auto simp: bit_simps)
qed

lemma rd32_wr32:
  assumes "off + 4 \<le> length buf"
  shows "rd32 (wr32 off v buf) off = v"
    and "i + 4 \<le> off \<or> off + 4 \<le> i \<Longrightarrow> i + 4 \<le> length buf \<Longrightarrow> rd32 (wr32 off v buf) i = rd32 buf i"
proof -
  have l: "length (wr32 off v buf) = length buf" using assms by (simp add: wr32_def)
  show "rd32 (wr32 off v buf) off = v"
    using assms l rd32_slice [of off "wr32 off v buf"] take_drop_put [of off "le32 v" buf off 4] by (simp add: wr32_def)
  show "rd32 (wr32 off v buf) i = rd32 buf i" if "i + 4 \<le> off \<or> off + 4 \<le> i" "i + 4 \<le> length buf"
    using assms that l rd32_slice [of i "wr32 off v buf"] rd32_slice [of i buf] take_drop_put_other [of off "le32 v" buf i 4]
    by (simp add: wr32_def)
qed

section \<open>MBR\<close>

definition mbr_bytes :: "part_info \<Rightarrow> u8 list" where
  "mbr_bytes e = [if bootable e then 0x80 else 0, 0xFE, 0xFF, 0xFF, mbr_type e, 0xFE, 0xFF, 0xFF] @ le32 (lba_start e) @ le32 (lba_count e)"

lemma length_mbr_bytes [simp]: "length (mbr_bytes e) = 16" by (simp add: mbr_bytes_def)

lemma mbr_entry_put: "base \<le> length buf \<Longrightarrow> mbr_entry e base buf = put buf base (mbr_bytes e)"
  by (simp add: mbr_entry_def wr32_def mbr_bytes_def put_adjacent_at)

lemma length_concat_bytes [simp]: "length (concat (map mbr_bytes es)) = 16 * length es"
  by (induction es) auto

lemma mbr_entries_put:
  "base + 16 * length es \<le> length buf \<Longrightarrow> mbr_entries base es buf = put buf base (concat (map mbr_bytes es))"
proof (induction es arbitrary: base buf)
  case (Cons e es)
  then show ?case using put_adjacent [of base buf "mbr_bytes e"] by (simp add: mbr_entry_put)
qed simp

text \<open>A table slot, read from its 16 bytes.\<close>

definition slot_info :: "u8 list \<Rightarrow> part_info list" where
  "slot_info b = (if b ! 4 = 0 then []
     else [\<lparr>p_scheme = PART_SCHEME_MBR, mbr_type = b ! 4, bootable = (b ! 0 = 0x80), lba_start = rd32 b 8, lba_count = rd32 b 12,
            pname = [], type_guid = replicate 16 0, part_guid = replicate 16 0\<rparr>])"

lemma mbr_slot_info:
  assumes "0x1BE + i * 16 + 16 \<le> length buf"
  shows "mbr_slot buf i = slot_info (take 16 (drop (0x1BE + i * 16) buf))"
proof -
  let ?b = "take 16 (drop (0x1BE + i * 16) buf)"
  have "?b ! k = buf ! (0x1BE + i * 16 + k)" if "k < 16" for k using that assms by simp
  then have "buf ! (0x1BE + i * 16) = ?b ! 0" "buf ! (0x1BE + i * 16 + 4) = ?b ! 4" by simp_all
  moreover have "rd32 buf (0x1BE + i * 16 + 8) = rd32 ?b 8" "rd32 buf (0x1BE + i * 16 + 12) = rd32 ?b 12"
    using assms by (simp_all add: rd32_def add.assoc)
  ultimately show ?thesis by (simp add: mbr_slot_def slot_info_def Let_def)
qed

definition as_mbr :: "part_info \<Rightarrow> part_info" where
  "as_mbr e = \<lparr>p_scheme = PART_SCHEME_MBR, mbr_type = mbr_type e, bootable = bootable e, lba_start = lba_start e,
     lba_count = lba_count e, pname = [], type_guid = replicate 16 0, part_guid = replicate 16 0\<rparr>"

lemma slot_info_bytes: "mbr_type e \<noteq> 0 \<Longrightarrow> slot_info (mbr_bytes e) = [as_mbr e]"
proof -
  assume t: "mbr_type e \<noteq> 0"
  have "rd32 (mbr_bytes e) 8 = lba_start e" "rd32 (mbr_bytes e) 12 = lba_count e"
    using rd32_slice [of 8 "mbr_bytes e"] rd32_slice [of 12 "mbr_bytes e"] by (simp_all add: mbr_bytes_def)
  then show ?thesis using t by (simp add: slot_info_def as_mbr_def) (simp add: mbr_bytes_def)
qed

lemma parse_table:
  assumes "\<forall>e \<in> set es. mbr_type e \<noteq> 0"
  shows "concat (map (\<lambda>i. slot_info (take 16 (drop (i * 16) (concat (map mbr_bytes es) @ replicate (16 * m) 0)))) [0..<length es + m])
    = map as_mbr es"
  using assms
proof (induction es)
  case Nil
  have "slot_info (take 16 (drop (i * 16) (replicate (16 * m) 0))) = []" if "i < m" for i
    using that by (simp add: slot_info_def min_def)
  then show ?case by simp
next
  case (Cons e es)
  have "[0..<length (e # es) + m] = 0 # map Suc [0..<length es + m]"
    by (simp add: map_Suc_upt upt_conv_Cons del: upt_Suc)
  then show ?case using Cons by (simp add: slot_info_bytes o_def add.commute del: upt_Suc)
qed

text \<open>
  C36. Writing an MBR and probing the disk gives back the partitions: on a healthy drive,
  after \<open>part_write_mbr\<close> of one to four non-empty entries (the first not a GPT protective
  one) has reported success, \<open>part_probe\<close> finds an MBR table with exactly these entries in
  order, and the boot code before the table and all other sectors are unchanged.
\<close>

theorem part_mbr_roundtrip:
  assumes "drive_ok ops sec" and "drive_present ops" and "1 \<le> length es" and "length es \<le> 4"
    and "\<forall>e \<in> set es. mbr_type e \<noteq> 0" and "mbr_type (hd es) \<noteq> PART_MBR_GPT_PROT"
    and "part_write_mbr ops es d = (0, d')"
  shows "part_probe ops d' = (0, Some \<lparr>scheme = PART_SCHEME_MBR, total_sectors = drive_size ops, parts = map as_mbr es\<rparr>) \<and>
    take 0x1BE (sec d' 0) = take 0x1BE (sec d 0) \<and> (\<forall>k. k \<noteq> 0 \<longrightarrow> sec d' k = sec d k)"
proof -
  let ?s = "sec d 0" let ?n = "length es" let ?z = "replicate (16 * (4 - ?n)) 0 :: u8 list"
  let ?t = "concat (map mbr_bytes es) @ ?z"
  have len: "length ?s = 512" and rd: "ide_read_sectors ops 0 1 e = (0, sec e 0)" for e
    using assms(1) by (auto simp: drive_ok_def)
  have tl: "length ?t = 64" using assms(4) by simp
  have "mbr_entries 0x1BE es (put ?s 0x1BE (replicate 64 0)) = put (put ?s 0x1BE (replicate 64 0)) 0x1BE (concat (map mbr_bytes es))"
    by (rule mbr_entries_put) (use len assms(4) in simp)
  also have "\<dots> = put ?s 0x1BE ?t"
    using put_over [of "0x1BE" "replicate 64 0" ?s "concat (map mbr_bytes es)"] len assms(4)
    by (simp add: diff_mult_distrib2)
  finally have "put (mbr_entries 0x1BE es (put ?s 0x1BE (replicate 64 0))) 510 [0x55, 0xAA] = put ?s 0x1BE (?t @ [0x55, 0xAA])"
    using put_adjacent [of "0x1BE" ?s ?t "[0x55, 0xAA]"] len tl by simp
  then have w: "ide_write_sectors ops 0 (put ?s 0x1BE (?t @ [0x55, 0xAA])) d = (0, d')"
    using assms(3,4,7) rd [of d] by (auto simp: part_write_mbr_def Let_def simp del: One_nat_def split: if_splits)
  have wl: "length (put ?s 0x1BE (?t @ [0x55, 0xAA])) = 512" using len tl by simp
  have sec': "sec d' k = (if k = 0 then put ?s 0x1BE (?t @ [0x55, 0xAA]) else sec d k)" for k
    using assms(1) w wl unfolding drive_ok_def by (auto simp: unat_eq_0)
  define b where "b = sec d' 0"
  have b: "b = take 0x1BE ?s @ ?t @ [0x55, 0xAA]" using sec' [of 0] len tl by (simp add: b_def put_def)
  have sig: "b ! 510 = 0x55" "b ! 511 = 0xAA" 
  proof -
    define t where "t = ?t"
    have "length t = 64" using tl by (simp add: t_def)
    then show "b ! 510 = 0x55" "b ! 511 = 0xAA" using len unfolding b t_def [symmetric] by (simp_all add: nth_append)
  qed
  have slots: "mbr_slot b i = slot_info (take 16 (drop (i * 16) ?t))" if "i < 4" for i
  proof -
    have bl: "length b = 512" using len tl by (simp add: b)
    have "take 16 (drop (0x1BE + i * 16) b) = take 16 (drop (i * 16) ?t)" using that len tl by (simp add: b)
    then show ?thesis using mbr_slot_info [of i b] that bl by simp
  qed
  have "concat (map (mbr_slot b) [0..<4]) = concat (map (\<lambda>i. slot_info (take 16 (drop (i * 16) ?t))) [0..<4])"
    by (intro arg_cong [of _ _ concat] map_cong) (use slots in auto)
  also have "\<dots> = map as_mbr es"
    using parse_table [OF assms(5), of "4 - ?n"] assms(4) by (simp only: le_add_diff_inverse)
  finally have ps: "concat (map (mbr_slot b) [0..<4]) = map as_mbr es" .
  obtain e es' where es: "es = e # es'" using assms(3) by (cases es) auto
  have "b ! (0x1BE + 4) = mbr_type e" using len by (simp add: b es nth_append mbr_bytes_def)
  then have ty: "b ! 0x1C2 \<noteq> 0xEE" using assms(6) es by simp
  have "part_probe ops d' = (0, Some \<lparr>scheme = PART_SCHEME_MBR, total_sectors = drive_size ops, parts = map as_mbr es\<rparr>)"
    using assms(2) rd [of d'] sig ty ps by (simp add: part_probe_def Let_def b_def parse_mbr_def del: upt.simps upt_rec_numeral)
  moreover have "take 0x1BE (sec d' 0) = take 0x1BE (sec d 0)" using b len by (simp add: b_def)
  ultimately show ?thesis using sec' by simp
qed

section \<open>A disk in memory\<close>

definition ram_sector :: "(u32 \<Rightarrow> u8 list) \<Rightarrow> u32 \<Rightarrow> u8 list" where
  "ram_sector d k = take 512 (d k @ replicate 512 0)"

definition ram_disk :: "u32 \<Rightarrow> (u32 \<Rightarrow> u8 list) drive_ops" where
  "ram_disk n = \<lparr>drive_present = True, drive_size = n,
     ide_read_sectors = (\<lambda>lba n d. (0, concat (map (\<lambda>k. ram_sector d (lba + of_nat k)) [0..<n]))),
     ide_write_sectors = (\<lambda>lba data d. (0, \<lambda>k. if unat (k - lba) < length data div 512
        then take 512 (drop (512 * unat (k - lba)) data) else d k))\<rparr>"

lemma ram_disk_ok: "drive_ok (ram_disk n) ram_sector"
proof -
  have "length (take 512 (drop (512 * j) data)) = 512" if "j < length data div 512" for j and data :: "u8 list"
  proof -
    have "512 * (j + 1) \<le> 512 * (length data div 512)" using that by (intro mult_le_mono2) simp
    also have "\<dots> \<le> length data" by simp
    finally show ?thesis by simp
  qed
  moreover have "min k 512 + (512 - k) = 512" for k :: nat by simp
  ultimately show ?thesis by (simp add: drive_ok_def ram_disk_def ram_sector_def)
qed

theorem part_mbr_roundtrip_witness:
  "let e = \<lparr>p_scheme = PART_SCHEME_MBR, mbr_type = 0x0C, bootable = True, lba_start = 2048, lba_count = 100,
      pname = [], type_guid = [], part_guid = []\<rparr> in
   \<exists>d'. part_write_mbr (ram_disk 4096) [e] (\<lambda>_. []) = (0, d') \<and>
     part_probe (ram_disk 4096) d' = (0, Some \<lparr>scheme = PART_SCHEME_MBR, total_sectors = 4096, parts = [as_mbr e]\<rparr>)"
proof -
  define e where "e = \<lparr>p_scheme = PART_SCHEME_MBR, mbr_type = 0x0C, bootable = True, lba_start = 2048, lba_count = 100,
      pname = [], type_guid = [], part_guid = []\<rparr>"
  obtain d' where d': "part_write_mbr (ram_disk 4096) [e] (\<lambda>_. []) = (0, d')"
    by (auto simp: part_write_mbr_def ram_disk_def Let_def)
  show ?thesis
    using part_mbr_roundtrip [OF ram_disk_ok [of 4096], where d = "\<lambda>_. []" and es = "[e]" and d' = d'] d'
    unfolding Let_def e_def [symmetric] by (simp add: ram_disk_def) (simp add: e_def)
qed

section \<open>GPT\<close>

lemma put_tail: "length pre = off \<Longrightarrow> put (pre @ replicate n 0) off a = (pre @ a) @ replicate (n - length a) 0"
  by (simp add: put_def)

lemma le32_0: "le32 0 = replicate 4 0" by (simp add: le32_def eval_nat_numeral)

lemma wr64_tail: "length pre = off \<Longrightarrow> wr64 off v (pre @ replicate n 0) = (pre @ le32 v @ le32 0) @ replicate (n - 8) 0"
  unfolding wr64_def wr32_def
  using put_tail [of pre off n "le32 v"] put_tail [of "pre @ le32 v" "off + 4" "n - 4" "le32 0"] by simp

lemma length_guid_gen [simp]: "length (fst (guid_gen now disc seed)) = 16"
  by (simp add: guid_gen_def Let_def wr32_def)

lemma length_name_bytes [simp]: "length (gpt_name_bytes cs) = 2 * length cs"
  by (induction cs rule: gpt_name_bytes.induct) auto

lemma name_roundtrip:
  assumes "\<forall>c \<in> set cs. c \<noteq> 0 \<and> c < 0x80" and "length cs < n \<longrightarrow> 2 \<le> m" and "length cs \<le> n"
  shows "gpt_name_to_ascii n (gpt_name_bytes cs @ replicate m 0) = cs"
  using assms
proof (induction cs arbitrary: n rule: gpt_name_bytes.induct)
  case 1
  then show ?case by (cases n) (auto simp: nth_append)
next
  case (2 c cs)
  then obtain k where n: "n = Suc k" by (cases n) auto
  have c: "c \<noteq> 0" "c < 0x80" using "2.prems" by auto
  have u: "unat (ucast c :: u16) = unat c"
    using unsigned_less [where ?'a = nat, of c] by (simp add: unsigned_ucast_eq take_bit_nat_eq_self)
  then have "(ucast c :: u16) \<noteq> 0" using c(1) by (metis unat_0 unat_eq_iff)
  moreover have "(ucast c :: u16) < 0x80"
    using c(2) u by (simp add: word_less_nat_alt)
  moreover have "ucast (ucast c :: u16) = c"
    using unsigned_less [where ?'a = nat, of c] u by (intro unsigned_word_eqI [where ?'a = nat]) (simp add: unsigned_ucast_eq [where ?'a = nat] take_bit_nat_eq_self)
  ultimately show ?case using 2 n by simp
qed

definition as_gpt :: "part_info \<Rightarrow> u8 list \<Rightarrow> part_info" where
  "as_gpt p g = \<lparr>p_scheme = PART_SCHEME_GPT, mbr_type = 0, bootable = False, lba_start = lba_start p, lba_count = lba_count p,
     pname = pname p, type_guid = type_guid p, part_guid = g\<rparr>"

text \<open>The entries a caller may pass: GUIDs of 16 bytes, a used type, a 7-bit name of at most 36 characters.\<close>

definition gpt_input :: "part_info \<Rightarrow> bool" where
  "gpt_input p \<longleftrightarrow> length (type_guid p) = 16 \<and> type_guid p \<noteq> replicate 16 0 \<and> length (part_guid p) = 16 \<and>
     length (pname p) \<le> 36 \<and> (\<forall>c \<in> set (pname p). c \<noteq> 0 \<and> c < 0x80)"

lemma gpt_entry_bytes:
  assumes "gpt_input p"
  shows "\<exists>g. length g = 16 \<and> (part_guid p \<noteq> replicate 16 0 \<longrightarrow> g = part_guid p) \<and>
    fst (gpt_entry now disc p seed) = type_guid p @ g @ le32 (lba_start p) @ le32 0 @ le32 (lba_start p + lba_count p - 1) @
      le32 0 @ le32 0 @ le32 0 @ gpt_name_bytes (pname p) @ replicate (72 - 2 * length (pname p)) 0"
proof -
  let ?t = "type_guid p" and ?p = "part_guid p"
  have l: "length ?t = 16" "length ?p = 16" "length (pname p) \<le> 36" using assms by (simp_all add: gpt_input_def)
  define g where "g = (if ?p = replicate 16 0 then fst (guid_gen now disc seed) else ?p)"
  have gl: "length g = 16" using l by (simp add: g_def)
  have e0: "put (put (replicate 128 0) 0 ?t) 16 ?p = (?t @ ?p) @ replicate 96 0"
    using put_tail [of "[]" 0 128 ?t] put_tail [of ?t 16 112 ?p] l by simp
  have e1: "put ((?t @ ?p) @ replicate 96 0) 16 g = (?t @ g) @ replicate 96 0" using l gl by (simp add: put_def)
  have e2: "wr64 48 0 (wr64 40 b (wr64 32 a ((?t @ g) @ replicate 96 0))) =
      (?t @ g @ le32 a @ le32 0 @ le32 b @ le32 0 @ le32 0 @ le32 0) @ replicate 72 0" for a b
    using wr64_tail [of "?t @ g" 32 a 96] wr64_tail [of "(?t @ g) @ le32 a @ le32 0" 40 b 88]
      wr64_tail [of "((?t @ g) @ le32 a @ le32 0) @ le32 b @ le32 0" 48 0 80] l gl by simp
  have e3: "put ((?t @ g @ le32 a @ le32 0 @ le32 b @ le32 0 @ le32 0 @ le32 0) @ replicate 72 0) 56 n =
      ((?t @ g @ le32 a @ le32 0 @ le32 b @ le32 0 @ le32 0 @ le32 0) @ n) @ replicate (72 - length n) 0" for a b n
    by (rule put_tail) (use l gl in simp)
  have "take 16 (drop 16 ((?t @ ?p) @ replicate 96 0)) = ?p" using l by simp
  then have "fst (gpt_entry now disc p seed) = put (wr64 48 0 (wr64 40 (lba_start p + lba_count p - 1) (wr64 32 (lba_start p)
      ((?t @ g) @ replicate 96 0)))) 56 (gpt_name_bytes (pname p))"
    using l e0 e1 by (auto simp: gpt_entry_def g_def Let_def split: prod.splits)
  then show ?thesis unfolding e2 e3 using gl by (intro exI [of _ g]) (simp add: g_def)
qed

lemma gpt_entry_at_bytes:
  assumes "gpt_input p" and "length g = 16"
  shows "gpt_entry_at (type_guid p @ g @ le32 (lba_start p) @ le32 0 @ le32 (lba_start p + lba_count p - 1) @
      le32 0 @ le32 0 @ le32 0 @ gpt_name_bytes (pname p) @ replicate (72 - 2 * length (pname p)) 0) = as_gpt p g"
proof -
  let ?e = "type_guid p @ g @ le32 (lba_start p) @ le32 0 @ le32 (lba_start p + lba_count p - 1) @
      le32 0 @ le32 0 @ le32 0 @ gpt_name_bytes (pname p) @ replicate (72 - 2 * length (pname p)) 0"
  have l: "length (type_guid p) = 16" "length (pname p) \<le> 36" using assms(1) by (simp_all add: gpt_input_def)
  have len: "40 + 4 \<le> length ?e" "32 + 4 \<le> length ?e" using l assms(2) by simp_all
  have r: "rd32 ?e 32 = lba_start p" "rd32 ?e 40 = lba_start p + lba_count p - 1"
    using rd32_slice [OF len(1)] rd32_slice [OF len(2)] l assms(2) by simp_all
  have n: "drop 56 ?e = gpt_name_bytes (pname p) @ replicate (72 - 2 * length (pname p)) 0" using l assms(2) by simp
  have "gpt_name_to_ascii 36 (drop 56 ?e) = pname p"
    unfolding n by (rule name_roundtrip) (use assms(1) l in \<open>auto simp: gpt_input_def\<close>)
  moreover have "take 16 ?e = type_guid p" "take 16 (drop 16 ?e) = g" using l assms(2) by simp_all
  ultimately show ?thesis using r by (simp add: gpt_entry_at_def Let_def as_gpt_def del: drop_append take_append append_assoc)
qed

lemma parse_entry_cons:
  "length e = 128 \<Longrightarrow> take 16 e \<noteq> replicate 16 0 \<Longrightarrow> gpt_entry_at e = q \<Longrightarrow> length acc < 128 \<Longrightarrow>
    parse_entries (Suc n) (e @ xs) acc = parse_entries n xs (acc @ [q])"
  by simp

lemma gpt_entries_parse:
  assumes "\<forall>p \<in> set ps. gpt_input p"
  shows "\<exists>gs. length gs = length ps \<and> (\<forall>k < length ps. part_guid (ps ! k) \<noteq> replicate 16 0 \<longrightarrow> gs ! k = part_guid (ps ! k)) \<and>
    length (fst (gpt_entries ticks drive i ps seed)) = 128 * length ps \<and>
    (\<forall>acc rest n. length acc + length ps \<le> 128 \<longrightarrow>
      parse_entries (length ps + n) (fst (gpt_entries ticks drive i ps seed) @ rest) acc = parse_entries n rest (acc @ map2 as_gpt ps gs))"
  using assms
proof (induction ps arbitrary: i seed)
  case (Cons p ps)
  let ?r = "gpt_entry (ticks (i + 1)) (of_nat i * 0x1000 + drive) p seed"
  let ?es = "fst (gpt_entries ticks drive (i + 1) ps (snd ?r))"
  have p: "gpt_input p" using Cons.prems by simp
  obtain g where g: "length g = 16" "part_guid p \<noteq> replicate 16 0 \<longrightarrow> g = part_guid p"
    "fst ?r = type_guid p @ g @ le32 (lba_start p) @ le32 0 @ le32 (lba_start p + lba_count p - 1) @
      le32 0 @ le32 0 @ le32 0 @ gpt_name_bytes (pname p) @ replicate (72 - 2 * length (pname p)) 0"
    using gpt_entry_bytes [OF p] by blast
  have el: "length (fst ?r) = 128" unfolding g(3) using p g(1) by (simp add: gpt_input_def)
  have et: "take 16 (fst ?r) = type_guid p" unfolding g(3) using p by (simp add: gpt_input_def)
  have ea: "gpt_entry_at (fst ?r) = as_gpt p g" unfolding g(3) by (rule gpt_entry_at_bytes [OF p g(1)])
  have eq: "fst (gpt_entries ticks drive i (p # ps) seed) = fst ?r @ ?es" by (simp add: Let_def split: prod.splits)
  obtain gs where gs: "length gs = length ps" "\<forall>k < length ps. part_guid (ps ! k) \<noteq> replicate 16 0 \<longrightarrow> gs ! k = part_guid (ps ! k)"
    "length ?es = 128 * length ps"
    "\<And>acc rest n. length acc + length ps \<le> 128 \<Longrightarrow>
      parse_entries (length ps + n) (?es @ rest) acc = parse_entries n rest (acc @ map2 as_gpt ps gs)"
    using Cons.IH [of "i + 1" "snd ?r"] Cons.prems by auto
  have nz: "take 16 (fst ?r) \<noteq> replicate 16 0" using et p by (simp add: gpt_input_def)
  have "parse_entries (length (p # ps) + n) (fst ?r @ ?es @ rest) acc = parse_entries n rest (acc @ map2 as_gpt (p # ps) (g # gs))"
    if "length acc + length (p # ps) \<le> 128" for acc rest n
    using that gs(4) [of "acc @ [as_gpt p g]" n rest] parse_entry_cons [OF el nz ea, of acc "length ps + n" "?es @ rest"] by simp
  then show ?case unfolding eq using gs g(2) el
    by (intro exI [of _ "g # gs"]) (auto simp: nth_Cons split: nat.splits)
qed simp

lemma parse_zeros: "length acc + n \<le> 128 \<Longrightarrow> 128 * n \<le> m \<Longrightarrow> parse_entries n (replicate m 0) acc = acc"
  by (induction n arbitrary: m) (auto simp: min_def)

text \<open>The header fields that probing reads, and the consistency of its checksum.\<close>

lemma length_wr32 [simp]: "off + 4 \<le> length buf \<Longrightarrow> length (wr32 off v buf) = length buf" by (simp add: wr32_def)

lemma rd32_put_other:
  assumes "off + length bs \<le> length buf" and "i + 4 \<le> off \<or> off + length bs \<le> i" and "i + 4 \<le> length buf"
  shows "rd32 (put buf off bs) i = rd32 buf i"
  using assms rd32_slice [of i "put buf off bs"] rd32_slice [of i buf] take_drop_put_other [of off bs buf i 4] by simp

lemma take_wr32: "n \<le> off \<Longrightarrow> off + 4 \<le> length buf \<Longrightarrow> take n (wr32 off v buf) = take n buf"
  using take_drop_put_other [of off "le32 v" buf 0 n] by (simp add: wr32_def)

lemma take_put: "n \<le> off \<Longrightarrow> off + length bs \<le> length buf \<Longrightarrow> take n (put buf off bs) = take n buf"
  using take_drop_put_other [of off bs buf 0 n] by simp

lemma wr32_wr32: "off + 4 \<le> length buf \<Longrightarrow> wr32 off v (wr32 off w buf) = wr32 off v buf"
  using put_over [of off "le32 w" buf "le32 v"] by (simp add: wr32_def)

lemma slice_wr32_other:
  "off + 4 \<le> length buf \<Longrightarrow> i + 4 \<le> off \<or> off + 4 \<le> i \<Longrightarrow> take 4 (drop i (wr32 off v buf)) = take 4 (drop i buf)"
  using take_drop_put_other [of off "le32 v" buf i 4] by (simp add: wr32_def)

lemma put_same: "take (length bs) (drop off buf) = bs \<Longrightarrow> put buf off bs = buf"
  unfolding put_def by (metis append_take_drop_id drop_drop add.commute)

lemma gpt_header_fields:
  fixes my other ds ents crc :: u32
  assumes "length guid = 16"
  defines "h \<equiv> gpt_header my other ds ents guid crc"
  shows "length h = 512" "take 8 h = gpt_sig" "rd32 h 72 = ents" "rd32 h 80 = 128" "rd32 h 84 = 128"
    "rd32 h 16 = crc32_buf (take 92 (wr32 16 0 h))"
proof -
  define z where "z = put (replicate 512 0) 0 gpt_sig"
  define a where "a = wr32 20 0 (wr32 16 0 (wr32 12 92 (wr32 8 0x00010000 z)))"
  define w where "w = wr64 48 (ds - 34) (wr64 40 34 (wr64 32 other (wr64 24 my a)))"
  define b where "b = put w 56 guid"
  define c where "c = wr32 88 crc (wr32 84 128 (wr32 80 128 (wr64 72 ents b)))"
  have h: "h = wr32 16 (crc32_buf (take 92 c)) c" by (simp add: h_def gpt_header_def Let_def z_def a_def w_def b_def c_def)
  have z: "length z = 512" "take 8 z = gpt_sig" by (simp_all add: z_def put_def gpt_sig_def)
  have la: "length a = 512" using z by (simp add: a_def)
  have lw: "length w = 512" using la by (simp add: w_def wr64_def)
  have lb: "length b = 512" using lw assms(1) by (simp add: b_def)
  have lc: "length c = 512" using lb by (simp add: c_def wr64_def)
  show "length h = 512" using lc by (simp add: h)
  have "take 8 a = gpt_sig" using z by (simp add: a_def take_wr32)
  then have "take 8 w = gpt_sig" using la by (simp add: w_def take_wr32 wr64_def)
  then have "take 8 b = gpt_sig" using lw assms(1) by (simp add: b_def take_put)
  then have "take 8 c = gpt_sig" using lb by (simp add: c_def take_wr32 wr64_def)
  then show "take 8 h = gpt_sig" using lc by (simp add: h take_wr32)
  have "rd32 c 72 = ents" "rd32 c 80 = 128" "rd32 c 84 = 128" using lb by (simp_all add: c_def rd32_wr32 wr64_def)
  then show "rd32 h 72 = ents" "rd32 h 80 = 128" "rd32 h 84 = 128" using lc by (simp_all add: h rd32_wr32)
  have "take 4 (drop 16 (wr32 16 0 u)) = le32 0" if "length u = 512" for u
    using that take_drop_put [of 16 "le32 0" u 16 4] by (simp add: wr32_def)
  then have "take 4 (drop 16 a) = le32 0" using z by (simp add: a_def slice_wr32_other)
  then have "take 4 (drop 16 w) = le32 0" using la by (simp add: w_def slice_wr32_other wr64_def)
  then have "take 4 (drop 16 b) = le32 0" using lw assms(1) by (simp add: b_def take_drop_put_other)
  then have "take 4 (drop 16 c) = le32 0" using lb by (simp add: c_def slice_wr32_other wr64_def)
  then have "wr32 16 0 c = c" using put_same [of "le32 0" 16 c] by (simp add: wr32_def)
  then have "wr32 16 0 h = c" using lc by (simp add: h wr32_wr32)
  then show "rd32 h 16 = crc32_buf (take 92 (wr32 16 0 h))" using lc by (simp add: h rd32_wr32)
qed

lemma protective_mbr_fields:
  "length (protective_mbr n) = 512" "protective_mbr n ! 510 = 0x55" "protective_mbr n ! 511 = 0xAA" "protective_mbr n ! 0x1C2 = 0xEE"
  by (simp_all add: protective_mbr_def Let_def put_def wr32_def le32_def nth_append nth_Cons')

lemma far_sector:
  assumes "68 \<le> (n :: u32)" and "k \<le> 33"
  shows "32 \<le> unat (k - (n - 33))" and "k \<noteq> n - 1"
proof -
  have n: "68 \<le> unat n" "unat k \<le> 33" using assms by (simp_all add: word_le_nat_alt)
  have n33: "unat (n - 33) = unat n - 33" using n by (simp add: unat_sub_if')
  then have "\<not> unat (n - 33) \<le> unat k" using n by simp
  then show "32 \<le> unat (k - (n - 33))" using n n33 unsigned_less [where ?'a = nat, of n] by (simp add: unat_sub_if')
  have "unat (n - 1) = unat n - 1" using n by (simp add: unat_sub_if')
  then show "k \<noteq> n - 1" using n by auto
qed

lemma concat_sectors: "length buf = 512 * n \<Longrightarrow> concat (map (\<lambda>k. take 512 (drop (512 * k) buf)) [0..<n]) = buf"
proof -
  have "512 * m \<le> length buf \<Longrightarrow> concat (map (\<lambda>k. take 512 (drop (512 * k) buf)) [0..<m]) = take (512 * m) buf" for m
  proof (induction m)
    case (Suc m)
    then show ?case using take_add [of "512 * m" 512 buf] by (simp add: add.commute)
  qed simp
  then show "length buf = 512 * n \<Longrightarrow> ?thesis" by simp
qed

text \<open>
  C13. Writing a GPT and probing the disk gives back the partitions: on a healthy drive,
  after \<open>part_write_gpt\<close> of at most 128 entries has reported success, \<open>part_probe\<close>
  takes the GPT path and finds exactly these entries in order, with their start, length,
  name and GUIDs (one generated where the caller gave none); the checksum in the
  primary header is that of the header with the checksum field zero.
\<close>

theorem part_gpt_roundtrip:
  assumes ok: "drive_ok ops sec" and pr: "drive_present ops" and ps: "\<forall>p \<in> set ps. gpt_input p"
    and w: "part_write_gpt ops ticks drive ps d = (0, d')"
  shows "\<exists>gs. length gs = length ps \<and>
      (\<forall>k < length ps. part_guid (ps ! k) \<noteq> replicate 16 0 \<longrightarrow> gs ! k = part_guid (ps ! k)) \<and>
      part_probe ops d' = (0, Some \<lparr>scheme = PART_SCHEME_GPT, total_sectors = drive_size ops, parts = map2 as_gpt ps gs\<rparr>) \<and>
      rd32 (sec d' 1) 16 = crc32_buf (take 92 (wr32 16 0 (sec d' 1)))"
proof -
  let ?n = "drive_size ops"
  obtain es seed where es: "gpt_entries ticks drive 0 ps (ticks 0) = (es, seed)" by (cases "gpt_entries ticks drive 0 ps (ticks 0)")
  define buf where "buf = put (replicate (128 * 128) 0) 0 es"
  obtain guid seed2 where guid: "guid_gen (ticks (length ps + 1)) (push_bit 24 drive) seed = (guid, seed2)"
    by (cases "guid_gen (ticks (length ps + 1)) (push_bit 24 drive) seed")
  define h1 where "h1 = gpt_header 1 (?n - 1) ?n 2 guid (crc32_buf buf)"
  define h2 where "h2 = gpt_header (?n - 1) 1 ?n (?n - 33) guid (crc32_buf buf)"
  obtain d1 d2 d3 d4 where ws: "length ps \<le> 128" "68 \<le> ?n" "ide_write_sectors ops 0 (protective_mbr ?n) d = (0, d1)"
      "ide_write_sectors ops 2 buf d1 = (0, d2)" "ide_write_sectors ops (?n - 33) buf d2 = (0, d3)"
      "ide_write_sectors ops 1 h1 d3 = (0, d4)" "ide_write_sectors ops (?n - 1) h2 d4 = (0, d')"
    using w pr es guid unfolding part_write_gpt_def buf_def h1_def h2_def
    by (auto simp: Let_def not_less split: if_splits prod.splits)
  obtain gs where gs: "length gs = length ps" "\<forall>k < length ps. part_guid (ps ! k) \<noteq> replicate 16 0 \<longrightarrow> gs ! k = part_guid (ps ! k)"
      "length es = 128 * length ps"
      "\<And>acc rest n. length acc + length ps \<le> 128 \<Longrightarrow> parse_entries (length ps + n) (es @ rest) acc = parse_entries n rest (acc @ map2 as_gpt ps gs)"
    using gpt_entries_parse [OF ps, of ticks drive 0 "ticks 0"] es by auto
  have buf: "buf = es @ replicate (128 * (128 - length ps)) 0" "length buf = 512 * 32"
    using gs(3) ws(1) by (simp_all add: buf_def put_def diff_mult_distrib2)
  have gl: "length guid = 16" using guid length_guid_gen by (metis fst_conv)
  note h1 = gpt_header_fields [OF gl, of 1 "?n - 1" ?n 2 "crc32_buf buf", folded h1_def]
  note h2 = gpt_header_fields [OF gl, of "?n - 1" 1 ?n "?n - 33" "crc32_buf buf", folded h2_def]
  have rd: "ide_read_sectors ops lba m e = (0, concat (map (\<lambda>k. sec e (lba + of_nat k)) [0..<m]))" for lba m e
    using ok unfolding drive_ok_def by blast
  have wr: "sec e' k = (if unat (k - lba) < length data div 512 then take 512 (drop (512 * unat (k - lba)) data) else sec e k)"
    if "ide_write_sectors ops lba data e = (0, e')" for lba data e e' k
    using ok that unfolding drive_ok_def by blast
  have low: "sec d' k = (if k = 1 then h1 else if k = 0 then protective_mbr ?n
      else take 512 (drop (512 * unat (k - 2)) buf))" if k: "k \<le> 33" for k
  proof -
    note far = far_sector [OF ws(2) k]
    have "sec d' k = sec d4 k" using wr [OF ws(7), of k] far(2) h2(1) by (simp add: unat_eq_0)
    also have "\<dots> = (if k = 1 then h1 else sec d3 k)" using wr [OF ws(6), of k] h1(1) by (simp add: unat_eq_0)
    also have "sec d3 k = sec d2 k" using wr [OF ws(5), of k] far(1) buf(2) by simp
    also have "sec d2 k = (if unat (k - 2) < 32 then take 512 (drop (512 * unat (k - 2)) buf) else sec d1 k)"
      using wr [OF ws(4), of k] buf(2) by simp
    also have "sec d1 k = (if k = 0 then protective_mbr ?n else sec d k)"
      using wr [OF ws(3), of k] protective_mbr_fields(1) by (simp add: unat_eq_0)
    finally have fin: "sec d' k = (if k = 1 then h1
      else if unat (k - 2) < 32 then take 512 (drop (512 * unat (k - 2)) buf) else if k = 0 then protective_mbr ?n else sec d k)" .
    have "k = 0 \<or> k = 1 \<or> 2 \<le> unat k" by (metis One_nat_def Suc_1 leI less_2_cases unat_0 unat_1 unat_eq_iff)
    then show ?thesis using fin k by (auto simp: unat_sub_if' word_le_nat_alt)
  qed
  have s0: "sec d' 0 = protective_mbr ?n" and s1: "sec d' 1 = h1" using low [of 0] low [of 1] by simp_all
  have "map (\<lambda>k. sec d' (2 + of_nat k)) [0..<32] = map (\<lambda>k. take 512 (drop (512 * k) buf)) [0..<32]"
  proof (rule map_cong [OF refl])
    fix k :: nat assume "k \<in> set [0..<32]"
    then have k: "k < 32" by simp
    have u: "unat (2 + of_nat k :: u32) = k + 2" using k by (simp add: unat_word_ariths unsigned_of_nat take_bit_nat_eq_self)
    have "x \<le> 33 \<and> x \<noteq> 1 \<and> x \<noteq> 0" if "unat x = k + 2" for x :: u32
      using that k by (auto simp: word_le_nat_alt)
    from this [OF u] have "2 + of_nat k \<le> (33 :: u32)" "2 + of_nat k \<noteq> (1 :: u32)" "2 + of_nat k \<noteq> (0 :: u32)" by simp_all
    moreover have "unat (2 + of_nat k - 2 :: u32) = k" using k by (simp add: unsigned_of_nat take_bit_nat_eq_self)
    ultimately show "sec d' (2 + of_nat k) = take 512 (drop (512 * k) buf)" using low [of "2 + of_nat k"] by simp
  qed
  then have r2: "ide_read_sectors ops 2 32 d' = (0, buf)" using rd [of 2 32 d'] concat_sectors [OF buf(2)] by (simp only:)
  have "parse_entries 128 buf [] = parse_entries (128 - length ps) (replicate (128 * (128 - length ps)) 0) (map2 as_gpt ps gs)"
    unfolding buf(1) using gs(4) [of "[]" "128 - length ps"] ws(1) by simp
  also have "\<dots> = map2 as_gpt ps gs" by (rule parse_zeros) (use gs(1) ws(1) in simp_all)
  finally have pe: "parse_entries 128 buf [] = map2 as_gpt ps gs" .
  have r0: "ide_read_sectors ops 0 1 d' = (0, protective_mbr ?n)" "ide_read_sectors ops 1 1 d' = (0, h1)"
    using rd s0 s1 by simp_all
  have "parse_gpt ops h1 out d' = (0, out\<lparr>scheme := PART_SCHEME_GPT, parts := map2 as_gpt ps gs\<rparr>)" for out
    using h1 r2 pe by (simp add: parse_gpt_def rd64lo_def Let_def)
  then have "part_probe ops d' = (0, Some \<lparr>scheme = PART_SCHEME_GPT, total_sectors = drive_size ops, parts = map2 as_gpt ps gs\<rparr>)"
    using pr r0 protective_mbr_fields by (simp add: part_probe_def Let_def)
  then show ?thesis using gs(1,2) h1(6) s1 by metis
qed

theorem part_gpt_roundtrip_witness:
  "let p = \<lparr>p_scheme = PART_SCHEME_GPT, mbr_type = 0, bootable = False, lba_start = 2048, lba_count = 100,
      pname = [0x72, 0x6F], type_guid = PART_GUID_LINUX, part_guid = PART_GUID_MDFS\<rparr> in
   \<exists>d'. part_write_gpt (ram_disk 4096) (\<lambda>_. 7) 0 [p] (\<lambda>_. []) = (0, d') \<and>
     part_probe (ram_disk 4096) d' = (0, Some \<lparr>scheme = PART_SCHEME_GPT, total_sectors = 4096, parts = [p]\<rparr>)"
proof -
  define p where "p = \<lparr>p_scheme = PART_SCHEME_GPT, mbr_type = 0, bootable = False, lba_start = 2048, lba_count = 100,
      pname = [0x72, 0x6F], type_guid = PART_GUID_LINUX, part_guid = PART_GUID_MDFS\<rparr>"
  have gi: "gpt_input p" by (simp add: gpt_input_def p_def PART_GUID_LINUX_def PART_GUID_MDFS_def Cons_replicate_eq)
  obtain d' where d': "part_write_gpt (ram_disk 4096) (\<lambda>_. 7) 0 [p] (\<lambda>_. []) = (0, d')"
  proof -
    have "fst (part_write_gpt (ram_disk 4096) (\<lambda>_. 7) 0 [p] (\<lambda>_. [])) = 0"
      by (simp add: part_write_gpt_def ram_disk_def Let_def split: prod.splits)
    then show thesis using that by (metis prod.collapse)
  qed
  have nz: "part_guid p \<noteq> replicate 16 0" "as_gpt p (part_guid p) = p" "drive_size (ram_disk 4096) = 4096" "drive_present (ram_disk 4096)"
    by (simp_all add: p_def PART_GUID_MDFS_def as_gpt_def ram_disk_def Cons_replicate_eq)
  obtain gs where gs: "length gs = 1" "gs ! 0 = part_guid p"
      "part_probe (ram_disk 4096) d' = (0, Some \<lparr>scheme = PART_SCHEME_GPT, total_sectors = 4096, parts = map2 as_gpt [p] gs\<rparr>)"
    using part_gpt_roundtrip [OF ram_disk_ok nz(4) _ d'] gi nz by auto
  obtain g where "gs = [g]" using gs(1) by (cases gs) auto
  then show ?thesis using d' gs nz(2) unfolding Let_def p_def [symmetric] by auto
qed

end
