(* ===== verification/Tmpfs.thy ===== *)
theory Tmpfs
  imports Makar_Prelude
begin

text \<open>
  The in-memory file systems \<^verbatim>\<open>fs/tmpfs.c\<close> and \<^verbatim>\<open>fs/logfs.c\<close>. A path is
  \<open>None\<close> for a null pointer; names are strings, equal when \<open>strcmp\<close> is 0. The linked
  list of records of tmpfs is a list, newest first. The kernel heap enters through what its
  calls return: \<open>mem\<close> says whether a record can be allocated, and \<open>krealloc b n\<close> is the
  buffer the heap returns for the old one, or \<open>None\<close>.
\<close>

section \<open>tmpfs\<close>

abbreviation "TMPFS_NAME_MAX \<equiv> 256 :: nat"
abbreviation "TMPFS_FILE_MAX \<equiv> 16 * 1024 * 1024 :: nat"

record tmpfile =
  t_ns :: int
  t_name :: string
  t_buf :: "u8 list"
  t_len :: nat

type_synonym tmpfs = "tmpfile list"

definition tmpfs_leaf_name :: "string option \<Rightarrow> string option" where
  "tmpfs_leaf_name path =
     (case path of Some (c # cs) \<Rightarrow> if c \<noteq> CHR ''/'' \<or> cs = [] then None else Some cs | _ \<Rightarrow> None)"

fun tmpfs_find :: "tmpfs \<Rightarrow> int \<Rightarrow> string \<Rightarrow> tmpfile option" where
  "tmpfs_find [] ns name = None"
| "tmpfs_find (f # fs) ns name = (if t_ns f = ns \<and> t_name f = name then Some f else tmpfs_find fs ns name)"

text \<open>Update of the record that \<open>tmpfs_find\<close> returns a pointer to.\<close>

fun tmpfs_put :: "int \<Rightarrow> string \<Rightarrow> (tmpfile \<Rightarrow> tmpfile) \<Rightarrow> tmpfs \<Rightarrow> tmpfs" where
  "tmpfs_put ns name g [] = []"
| "tmpfs_put ns name g (f # fs) = (if t_ns f = ns \<and> t_name f = name then g f # fs else f # tmpfs_put ns name g fs)"

definition tmpfs_find_or_create :: "bool \<Rightarrow> int \<Rightarrow> string \<Rightarrow> tmpfs \<Rightarrow> tmpfile option \<times> tmpfs" where
  "tmpfs_find_or_create mem ns name fs =
     (case tmpfs_find fs ns name of Some f \<Rightarrow> (Some f, fs)
      | None \<Rightarrow>
          if TMPFS_NAME_MAX \<le> length name then (None, fs)
          else if \<not> mem then (None, fs)
          else let f = \<lparr>t_ns = ns, t_name = name, t_buf = [], t_len = 0\<rparr> in (Some f, f # fs))"

definition tmpfs_read :: "int \<Rightarrow> string option \<Rightarrow> nat \<Rightarrow> tmpfs \<Rightarrow> int \<times> u8 list" where
  "tmpfs_read ns path bufsz fs =
     (case Option.bind (tmpfs_leaf_name path) (tmpfs_find fs ns) of
        None \<Rightarrow> (- 1, [])
      | Some f \<Rightarrow> (0, take (if t_len f < bufsz then t_len f else bufsz) (t_buf f)))"

definition tmpfs_write ::
  "bool \<Rightarrow> (u8 list \<Rightarrow> nat \<Rightarrow> u8 list option) \<Rightarrow> int \<Rightarrow> string option \<Rightarrow> u8 list \<Rightarrow> tmpfs \<Rightarrow> int \<times> tmpfs" where
  "tmpfs_write mem krealloc ns path data fs =
     (case tmpfs_leaf_name path of None \<Rightarrow> (- 1, fs)
      | Some name \<Rightarrow>
          (case tmpfs_find_or_create mem ns name fs of
             (None, fs) \<Rightarrow> (- 1, fs)
           | (Some f, fs) \<Rightarrow>
               if TMPFS_FILE_MAX < length data then (- 1, fs)
               else
                 (case (if length (t_buf f) < length data then krealloc (t_buf f) (length data) else Some (t_buf f)) of
                    None \<Rightarrow> (- 1, fs)
                  | Some buf \<Rightarrow>
                      (int (length data),
                       tmpfs_put ns name (\<lambda>f. f\<lparr>t_buf := data @ drop (length data) buf, t_len := length data\<rparr>) fs))))"

definition tmpfs_file_exists :: "int \<Rightarrow> string option \<Rightarrow> tmpfs \<Rightarrow> bool" where
  "tmpfs_file_exists ns path fs \<longleftrightarrow> Option.bind (tmpfs_leaf_name path) (tmpfs_find fs ns) \<noteq> None"

text \<open>The listing: the return code and what is written to the terminal.\<close>

definition tmpfs_ls :: "int \<Rightarrow> string option \<Rightarrow> tmpfs \<Rightarrow> int \<times> string" where
  "tmpfs_ls ns path fs =
     (if tmpfs_leaf_name path \<noteq> None then
        (- 1, ''ls: '' @ the path @ (if tmpfs_file_exists ns path fs then '': Not a directory'' else '': No such entry'') @ [CHR 0x0A])
      else (0, concat (map (\<lambda>f. if t_ns f \<noteq> ns then [] else t_name f @ [CHR 0x0A]) fs)))"

definition tmpfs_complete :: "int \<Rightarrow> string \<Rightarrow> tmpfs \<Rightarrow> string list" where
  "tmpfs_complete ns pfx fs =
     concat (map (\<lambda>f. if t_ns f \<noteq> ns then []
       else if pfx = [] \<or> take (length pfx) (t_name f) = pfx then [t_name f] else []) fs)"

definition tmpfs_size :: "int \<Rightarrow> string option \<Rightarrow> tmpfs \<Rightarrow> int" where
  "tmpfs_size ns path fs =
     (case Option.bind (tmpfs_leaf_name path) (tmpfs_find fs ns) of None \<Rightarrow> - 1 | Some f \<Rightarrow> int (t_len f))"

definition tmpfs_mkdir :: "string option \<Rightarrow> int" where
  "tmpfs_mkdir path = (if tmpfs_leaf_name path = None then - 1 else 0)"

fun tmpfs_unlink :: "int \<Rightarrow> string \<Rightarrow> tmpfs \<Rightarrow> tmpfs option" where
  "tmpfs_unlink ns name [] = None"
| "tmpfs_unlink ns name (f # fs) =
     (if t_ns f = ns \<and> t_name f = name then Some fs else map_option ((#) f) (tmpfs_unlink ns name fs))"

definition tmpfs_delete :: "int \<Rightarrow> string option \<Rightarrow> tmpfs \<Rightarrow> int \<times> tmpfs" where
  "tmpfs_delete ns path fs =
     (case tmpfs_leaf_name path of None \<Rightarrow> (- 1, fs)
      | Some name \<Rightarrow> (case tmpfs_unlink ns name fs of None \<Rightarrow> (- 1, fs) | Some fs' \<Rightarrow> (0, fs')))"

section \<open>logfs\<close>

abbreviation "LOGFS_MAX_FILES \<equiv> 16 :: nat"
abbreviation "LOGFS_NAME_MAX \<equiv> 32 :: nat"
abbreviation "LOGFS_FILE_CAP \<equiv> 32 * 1024 :: nat"

text \<open>
  A file of the table: \<open>None\<close> when the slot is not in use. Of the buffer only the first
  \<open>l_len\<close> bytes matter; \<open>l_data\<close> holds them, and the byte after them is zero.
\<close>

record logfile =
  l_name :: string
  l_cap :: nat
  l_data :: "u8 list"

type_synonym logfs = "logfile option list"

text \<open>
  The result is \<open>None\<close> when the final \<open>memcpy\<close> and the zero after it would run past
  the end of the buffer.
\<close>

definition ring_append :: "logfile \<Rightarrow> u8 list \<Rightarrow> logfile option" where
  "ring_append f s =
     (if s = [] \<or> l_cap f = 0 then Some f
      else
        let s = (if l_cap f \<le> length s then drop (length s - (l_cap f - 1)) s else s);
            n = length s;
            keep = l_cap f div 2;
            kept = (if l_cap f \<le> length (l_data f) + n + 1
                    then if keep < length (l_data f) then drop (length (l_data f) - keep) (l_data f) else []
                    else l_data f)
        in if length kept + n + 1 \<le> l_cap f then Some (f\<lparr>l_data := kept @ s\<rparr>) else None)"

definition logfs_leaf_name :: "string option \<Rightarrow> string option" where
  "logfs_leaf_name path =
     (case tmpfs_leaf_name path of None \<Rightarrow> None | Some name \<Rightarrow> if CHR ''/'' \<in> set name then None else Some name)"

fun logfs_find :: "logfs \<Rightarrow> string \<Rightarrow> nat option" where
  "logfs_find [] name = None"
| "logfs_find (e # fs) name =
     (case e of Some f \<Rightarrow> if l_name f = name then Some 0 else map_option Suc (logfs_find fs name)
      | None \<Rightarrow> map_option Suc (logfs_find fs name))"

fun logfs_free_slot :: "logfs \<Rightarrow> nat option" where
  "logfs_free_slot [] = None"
| "logfs_free_slot (e # fs) = (if e = None then Some 0 else map_option Suc (logfs_free_slot fs))"

definition logfs_find_or_create :: "bool \<Rightarrow> string \<Rightarrow> logfs \<Rightarrow> nat option \<times> logfs" where
  "logfs_find_or_create mem name fs =
     (case logfs_find fs name of Some i \<Rightarrow> (Some i, fs)
      | None \<Rightarrow>
          if LOGFS_NAME_MAX \<le> length name then (None, fs)
          else (case logfs_free_slot fs of None \<Rightarrow> (None, fs)
            | Some i \<Rightarrow>
                if \<not> mem then (None, fs)
                else (Some i, fs[i := Some \<lparr>l_name = name, l_cap = LOGFS_FILE_CAP, l_data = []\<rparr>])))"

definition logfs_append :: "nat \<Rightarrow> u8 list \<Rightarrow> logfs \<Rightarrow> logfs option" where
  "logfs_append i s fs =
     (case fs ! i of None \<Rightarrow> Some fs | Some f \<Rightarrow> map_option (\<lambda>g. fs[i := Some g]) (ring_append f s))"

definition logfs_read :: "string option \<Rightarrow> nat \<Rightarrow> logfs \<Rightarrow> int \<times> u8 list" where
  "logfs_read path bufsz fs =
     (case Option.bind (logfs_leaf_name path) (logfs_find fs) of
        None \<Rightarrow> (- 1, [])
      | Some i \<Rightarrow> (0, take bufsz (l_data (the (fs ! i)))))"

definition logfs_write :: "bool \<Rightarrow> string option \<Rightarrow> u8 list \<Rightarrow> logfs \<Rightarrow> (int \<times> logfs) option" where
  "logfs_write mem path data fs =
     (case logfs_leaf_name path of None \<Rightarrow> Some (- 1, fs)
      | Some name \<Rightarrow>
          (case logfs_find_or_create mem name fs of
             (None, fs) \<Rightarrow> Some (- 1, fs)
           | (Some i, fs) \<Rightarrow> map_option (Pair (int (length data))) (logfs_append i data fs)))"

definition logfs_file_exists :: "string option \<Rightarrow> logfs \<Rightarrow> bool" where
  "logfs_file_exists path fs \<longleftrightarrow> Option.bind (logfs_leaf_name path) (logfs_find fs) \<noteq> None"

definition logfs_ls :: "string option \<Rightarrow> logfs \<Rightarrow> int \<times> string" where
  "logfs_ls path fs =
     (if tmpfs_leaf_name path \<noteq> None then
        (- 1, ''ls: /log'' @ the path @ (if logfs_file_exists path fs then '': Not a directory'' else '': No such entry'') @ [CHR 0x0A])
      else (0, concat (map (\<lambda>e. case e of None \<Rightarrow> [] | Some f \<Rightarrow> l_name f @ [CHR 0x0A]) fs)))"

definition logfs_complete :: "string \<Rightarrow> logfs \<Rightarrow> string list" where
  "logfs_complete pfx fs =
     concat (map (\<lambda>e. case e of None \<Rightarrow> []
       | Some f \<Rightarrow> if pfx = [] \<or> take (length pfx) (l_name f) = pfx then [l_name f] else []) fs)"

definition logfs_kwrite :: "u8 list \<Rightarrow> logfs \<Rightarrow> logfs option" where
  "logfs_kwrite s fs = logfs_append 0 s fs"

definition logfs_kreset :: "logfs \<Rightarrow> logfs" where
  "logfs_kreset fs = fs[0 := map_option (\<lambda>f. f\<lparr>l_data := []\<rparr>) (fs ! 0)]"

definition logfs_append_line :: "bool \<Rightarrow> string \<Rightarrow> u8 list \<Rightarrow> logfs \<Rightarrow> logfs option" where
  "logfs_append_line mem name line fs =
     (case logfs_find_or_create mem name fs of
        (None, fs) \<Rightarrow> Some fs
      | (Some i, fs) \<Rightarrow> Option.bind (logfs_append i line fs) (logfs_append i [0x0A]))"

end
