(* ===== verification/Tmpfs_Properties.thy ===== *)
theory Tmpfs_Properties
  imports Tmpfs "HOL-Library.Sublist"
begin

text \<open>
  The in-memory file systems against what they promise: tmpfs is a finite map from
  namespaces and names to contents; a log keeps the newest bytes.
\<close>

section \<open>tmpfs\<close>

text \<open>The abstract file system.\<close>

definition tmpfs_abs :: "tmpfs \<Rightarrow> int \<times> string \<Rightarrow> u8 list option" where
  "tmpfs_abs fs k = map_option (\<lambda>f. take (t_len f) (t_buf f)) (tmpfs_find fs (fst k) (snd k))"

definition tmpfs_inv :: "tmpfs \<Rightarrow> bool" where
  "tmpfs_inv fs \<longleftrightarrow> distinct (map (\<lambda>f. (t_ns f, t_name f)) fs) \<and>
     (\<forall>f \<in> set fs. t_len f \<le> length (t_buf f) \<and> length (t_name f) < TMPFS_NAME_MAX)"

text \<open>What tmpfs relies on of the heap: a reallocated buffer has the size asked for.\<close>

definition krealloc_ok :: "(u8 list \<Rightarrow> nat \<Rightarrow> u8 list option) \<Rightarrow> bool" where
  "krealloc_ok krealloc \<longleftrightarrow> (\<forall>b n b'. krealloc b n = Some b' \<longrightarrow> length b' = n)"

lemma find_None_iff: "tmpfs_find fs ns name = None \<longleftrightarrow> (ns, name) \<notin> (\<lambda>f. (t_ns f, t_name f)) ` set fs"
  by (induction fs) auto

lemma find_key: "tmpfs_find fs ns name = Some f \<Longrightarrow> t_ns f = ns \<and> t_name f = name \<and> f \<in> set fs"
  by (induction fs) (auto split: if_splits)

lemma find_put:
  assumes "\<And>f. t_ns (g f) = t_ns f \<and> t_name (g f) = t_name f"
  shows "tmpfs_find (tmpfs_put ns name g fs) ns' name' =
    (if ns' = ns \<and> name' = name then map_option g (tmpfs_find fs ns name) else tmpfs_find fs ns' name')"
  using assms by (induction fs) auto

lemma put_keys:
  assumes "\<And>f. t_ns (g f) = t_ns f \<and> t_name (g f) = t_name f"
  shows "map (\<lambda>f. (t_ns f, t_name f)) (tmpfs_put ns name g fs) = map (\<lambda>f. (t_ns f, t_name f)) fs"
  using assms by (induction fs) auto

lemma put_set: "f \<in> set (tmpfs_put ns name g fs) \<Longrightarrow> f \<in> set fs \<or> (\<exists>h \<in> set fs. f = g h)"
  by (induction fs) (auto split: if_splits)

lemma unlink_find:
  "distinct (map (\<lambda>f. (t_ns f, t_name f)) fs) \<Longrightarrow>
    case tmpfs_unlink ns name fs of None \<Rightarrow> tmpfs_find fs ns name = None
    | Some fs' \<Rightarrow> tmpfs_find fs ns name \<noteq> None \<and> set fs' \<subseteq> set fs \<and> distinct (map (\<lambda>f. (t_ns f, t_name f)) fs') \<and>
        (\<forall>ns' name'. tmpfs_find fs' ns' name' = (if ns' = ns \<and> name' = name then None else tmpfs_find fs ns' name'))"
proof (induction fs)
  case (Cons f fs)
  show ?case
  proof (cases "t_ns f = ns \<and> t_name f = name")
    case True
    then have "tmpfs_find fs ns name = None" using Cons.prems by (auto simp: find_None_iff)
    then show ?thesis using True Cons.prems by auto
  next
    case other: False
    show ?thesis
    proof (cases "tmpfs_unlink ns name fs")
      case None
      then show ?thesis using Cons other by auto
    next
      case (Some fs')
      then have IH: "tmpfs_find fs ns name \<noteq> None" "set fs' \<subseteq> set fs" "distinct (map (\<lambda>f. (t_ns f, t_name f)) fs')"
        "\<And>ns' name'. tmpfs_find fs' ns' name' = (if ns' = ns \<and> name' = name then None else tmpfs_find fs ns' name')"
        using Cons by auto
      have "(t_ns f, t_name f) \<notin> (\<lambda>f. (t_ns f, t_name f)) ` set fs'" using Cons.prems IH(2) by auto
      then show ?thesis using Some other IH by auto
    qed
  qed
qed simp

lemma tmpfs_create_step:
  assumes "tmpfs_inv fs" and "tmpfs_find_or_create mem ns name fs = (r, fs')"
  shows "tmpfs_inv fs' \<and> (case r of
      None \<Rightarrow> fs' = fs \<and> tmpfs_abs fs (ns, name) = None
    | Some f \<Rightarrow> tmpfs_find fs' ns name = Some f \<and> length name < TMPFS_NAME_MAX \<and>
        (fs' = fs \<or> (tmpfs_abs fs (ns, name) = None \<and> tmpfs_abs fs' = (tmpfs_abs fs)((ns, name) \<mapsto> []))))"
proof (cases "tmpfs_find fs ns name")
  case None
  then show ?thesis using assms
    by (auto simp: tmpfs_find_or_create_def tmpfs_inv_def find_None_iff [symmetric] tmpfs_abs_def fun_eq_iff Let_def split: if_splits)
next
  case (Some f)
  then have "r = Some f" "fs' = fs" using assms(2) by (simp_all add: tmpfs_find_or_create_def)
  then show ?thesis using assms(1) Some find_key [OF Some] by (auto simp: tmpfs_inv_def)
qed

text \<open>
  C10. tmpfs refines a finite map from (namespace, name) to contents. A successful write sets
  exactly the named entry to the data; a read returns the stored contents cut to the
  caller's buffer, and fails exactly for absent entries; a delete removes exactly the named
  entry and fails exactly when it is absent; other namespaces and names never change. A
  failed write changes nothing, except that it may leave a new empty file behind.
\<close>

theorem tmpfs_refines_map:
  assumes inv: "tmpfs_inv fs" and heap: "krealloc_ok krealloc" and leaf: "tmpfs_leaf_name path = Some name"
  shows "(case tmpfs_write mem krealloc ns path data fs of (rc, fs') \<Rightarrow> tmpfs_inv fs' \<and>
      (if rc = - 1 then tmpfs_abs fs' = tmpfs_abs fs \<or>
         (tmpfs_abs fs (ns, name) = None \<and> tmpfs_abs fs' = (tmpfs_abs fs)((ns, name) \<mapsto> []))
       else rc = int (length data) \<and> tmpfs_abs fs' = (tmpfs_abs fs)((ns, name) \<mapsto> data))) \<and>
    tmpfs_read ns path bufsz fs =
      (case tmpfs_abs fs (ns, name) of None \<Rightarrow> (- 1, []) | Some c \<Rightarrow> (0, take bufsz c)) \<and>
    (case tmpfs_delete ns path fs of (rc, fs') \<Rightarrow> tmpfs_inv fs' \<and> tmpfs_abs fs' = (tmpfs_abs fs)((ns, name) := None) \<and>
      (rc = 0 \<longleftrightarrow> tmpfs_abs fs (ns, name) \<noteq> None))"
proof (intro conjI)
  obtain r fs1 where cr: "tmpfs_find_or_create mem ns name fs = (r, fs1)" by (cases "tmpfs_find_or_create mem ns name fs")
  note st = tmpfs_create_step [OF inv cr]
  show "case tmpfs_write mem krealloc ns path data fs of (rc, fs') \<Rightarrow> tmpfs_inv fs' \<and>
      (if rc = - 1 then tmpfs_abs fs' = tmpfs_abs fs \<or>
         (tmpfs_abs fs (ns, name) = None \<and> tmpfs_abs fs' = (tmpfs_abs fs)((ns, name) \<mapsto> []))
       else rc = int (length data) \<and> tmpfs_abs fs' = (tmpfs_abs fs)((ns, name) \<mapsto> data))"
  proof (cases r)
    case None
    then show ?thesis using st cr leaf by (auto simp: tmpfs_write_def)
  next
    case (Some f)
    define new where "new = (if length (t_buf f) < length data then krealloc (t_buf f) (length data) else Some (t_buf f))"
    show ?thesis
    proof (cases "TMPFS_FILE_MAX < length data \<or> new = None")
      case True
      then have "tmpfs_write mem krealloc ns path data fs = (- 1, fs1)"
        using cr leaf Some by (auto simp: tmpfs_write_def new_def)
      then show ?thesis using st Some by auto
    next
      case False
      then obtain buf where buf: "new = Some buf" by auto
      have bl: "length data \<le> length buf" using buf heap by (auto simp: new_def krealloc_ok_def split: if_splits)
      let ?g = "\<lambda>f. f\<lparr>t_buf := data @ drop (length data) buf, t_len := length data\<rparr>"
      let ?fs = "tmpfs_put ns name ?g fs1"
      have w: "tmpfs_write mem krealloc ns path data fs = (int (length data), ?fs)"
        using cr leaf Some False buf by (simp add: tmpfs_write_def new_def)
      have i1: "tmpfs_inv fs1" "tmpfs_find fs1 ns name = Some f" using st Some by auto
      have "tmpfs_inv ?fs"
        using i1(1) bl put_keys [of ?g ns name fs1] put_set [of _ ns name ?g fs1] unfolding tmpfs_inv_def by fastforce
      moreover have "tmpfs_abs ?fs = (tmpfs_abs fs1)((ns, name) \<mapsto> data)"
        using i1(2) by (auto simp: fun_eq_iff tmpfs_abs_def find_put)
      moreover have "(tmpfs_abs fs1)((ns, name) \<mapsto> data) = (tmpfs_abs fs)((ns, name) \<mapsto> data)" using st Some by auto
      ultimately show ?thesis using w by simp
    qed
  qed
  show "tmpfs_read ns path bufsz fs = (case tmpfs_abs fs (ns, name) of None \<Rightarrow> (- 1, []) | Some c \<Rightarrow> (0, take bufsz c))"
    using leaf by (auto simp: tmpfs_read_def tmpfs_abs_def min_def split: option.splits)
  show "case tmpfs_delete ns path fs of (rc, fs') \<Rightarrow> tmpfs_inv fs' \<and> tmpfs_abs fs' = (tmpfs_abs fs)((ns, name) := None) \<and>
      (rc = 0 \<longleftrightarrow> tmpfs_abs fs (ns, name) \<noteq> None)"
    using unlink_find [of fs ns name] inv leaf
    by (auto simp: tmpfs_delete_def tmpfs_inv_def tmpfs_abs_def fun_eq_iff split: option.splits)
qed

theorem tmpfs_refines_map_witness:
  "tmpfs_read 0 (Some ''/a'') 10 (snd (tmpfs_write True (\<lambda>b n. Some (replicate n 0)) 0 (Some ''/a'') [1, 2] [])) = (0, [1, 2])"
proof -
  let ?k = "\<lambda>(b :: u8 list) n. Some (replicate n (0 :: u8))"
  let ?r = "tmpfs_write True ?k 0 (Some ''/a'') [1, 2] []"
  have k: "krealloc_ok ?k" by (simp add: krealloc_ok_def)
  have l: "tmpfs_leaf_name (Some ''/a'') = Some ''a''" by (simp add: tmpfs_leaf_name_def)
  have i: "tmpfs_inv []" by (simp add: tmpfs_inv_def)
  have "fst ?r = 2" by (simp add: tmpfs_write_def tmpfs_find_or_create_def l Let_def)
  then obtain fs' where r: "?r = (2, fs')" by (metis prod.collapse)
  have h: "tmpfs_inv fs'" "tmpfs_abs fs' = (tmpfs_abs [])((0, ''a'') \<mapsto> [1, 2])"
    using tmpfs_refines_map [OF i k l, where mem = True and ns = 0 and data = "[1, 2]"] r by simp_all
  show ?thesis using tmpfs_refines_map [OF h(1) k l, where ns = 0 and bufsz = 10] h(2) r by simp
qed

section \<open>logfs\<close>

text \<open>
  C37. When the log append is safe. With the terminating zero inside the buffer before the
  call, \<open>ring_append\<close> runs past the end of the buffer exactly when more than half of the
  buffer is in use and the new bytes do not fit into the other half; otherwise the zero is
  inside again, the log is a suffix of the old log followed by the new bytes, and a write
  that fits the buffer is kept whole. In particular a 20000-byte write to a 32 KiB log that
  holds 20000 bytes overruns it.
\<close>

theorem ring_append_bounds:
  assumes "length (l_data f) + 1 \<le> l_cap f" and "s \<noteq> []"
  defines "n \<equiv> min (length s) (l_cap f - 1)"
  shows "(ring_append f s = None \<longleftrightarrow>
      l_cap f \<le> length (l_data f) + n + 1 \<and> l_cap f div 2 < length (l_data f) \<and> l_cap f < l_cap f div 2 + n + 1) \<and>
    (\<forall>g. ring_append f s = Some g \<longrightarrow> length (l_data g) + 1 \<le> l_cap f \<and> l_cap g = l_cap f \<and> l_name g = l_name f \<and>
      suffix (l_data g) (l_data f @ s) \<and> (length s < l_cap f \<longrightarrow> suffix s (l_data g))) \<and>
    ring_append \<lparr>l_name = [], l_cap = LOGFS_FILE_CAP, l_data = replicate 20000 0\<rparr> (replicate 20000 0) = None"
proof (intro conjI)
  let ?c = "l_cap f" and ?d = "l_data f"
  define t where "t = (if ?c \<le> length s then drop (length s - (?c - 1)) s else s)"
  define kept where "kept = (if ?c \<le> length ?d + n + 1
      then if ?c div 2 < length ?d then drop (length ?d - ?c div 2) ?d else [] else ?d)"
  have c: "0 < ?c" using assms(1) by simp
  have tn: "length t = n" using c by (auto simp: t_def n_def)
  have eq: "ring_append f s = (if length kept + n + 1 \<le> ?c then Some (f\<lparr>l_data := kept @ t\<rparr>) else None)"
    using assms(2) c tn by (simp add: ring_append_def Let_def t_def [symmetric] kept_def)
  have kl: "length kept = (if ?c \<le> length ?d + n + 1 then if ?c div 2 < length ?d then ?c div 2 else 0 else length ?d)"
    by (auto simp: kept_def)
  show "ring_append f s = None \<longleftrightarrow>
      ?c \<le> length ?d + n + 1 \<and> ?c div 2 < length ?d \<and> ?c < ?c div 2 + n + 1"
    unfolding eq kl using c by (auto simp: n_def)
  have "suffix kept ?d" by (auto simp: kept_def suffix_drop)
  have "suffix t s" by (auto simp: t_def suffix_drop)
  show "\<forall>g. ring_append f s = Some g \<longrightarrow> length (l_data g) + 1 \<le> ?c \<and> l_cap g = ?c \<and> l_name g = l_name f \<and>
      suffix (l_data g) (?d @ s) \<and> (length s < ?c \<longrightarrow> suffix s (l_data g))"
  proof (intro allI impI)
    fix g assume "ring_append f s = Some g"
    then have g: "g = f\<lparr>l_data := kept @ t\<rparr>" "length kept + n + 1 \<le> ?c" by (auto simp: eq split: if_splits)
    have "suffix (kept @ t) (?d @ s)"
    proof (cases "?c \<le> length s")
      case True
      then have "n = ?c - 1" using c by (simp add: n_def)
      then have "length kept = 0" using g(2) c by linarith
      then have "kept = []" by simp
      then show ?thesis using \<open>suffix t s\<close> by (simp add: suffix_appendI)
    next
      case False
      then show ?thesis using \<open>suffix kept ?d\<close> by (simp add: t_def)
    qed
    moreover have "length s < ?c \<longrightarrow> suffix s (kept @ t)" by (auto simp: t_def suffix_def)
    ultimately show "length (l_data g) + 1 \<le> ?c \<and> l_cap g = ?c \<and> l_name g = l_name f \<and>
      suffix (l_data g) (?d @ s) \<and> (length s < ?c \<longrightarrow> suffix s (l_data g))" using g tn by simp
  qed
  show "ring_append \<lparr>l_name = [], l_cap = LOGFS_FILE_CAP, l_data = replicate 20000 0\<rparr> (replicate 20000 0) = None"
    by (simp add: ring_append_def Let_def)
qed

theorem ring_append_bounds_witness:
  "ring_append \<lparr>l_name = [], l_cap = 8, l_data = [1, 2, 3, 4, 5]\<rparr> [7, 8, 9, 10] = None"
  using ring_append_bounds [of "\<lparr>l_name = [], l_cap = 8, l_data = [1, 2, 3, 4, 5]\<rparr>" "[7, 8, 9, 10]"] by simp

end
