(* ===== verification/Task.thy ===== *)
theory Task
  imports Makar_Prelude "HOL-Library.Monad_Syntax"
begin

text \<open>
  Tasks, signals and the scheduler: \<^verbatim>\<open>proc/task.c\<close>, \<^verbatim>\<open>proc/signal.c\<close>, and the
  signal system calls of \<^verbatim>\<open>proc/syscall.c\<close>. A task is its slot in the pool; a pointer
  to a task is a slot or \<open>None\<close>. The calls of \<open>task_terminate\<close> into the keyboard, the
  terminals and the shared surfaces are recorded in \<open>exit_log\<close>, in order. An
  access to \<open>s_handlers\<close> outside its eight rows is \<open>None\<close>.
\<close>

datatype task_state = TASK_READY | TASK_RUNNING | TASK_DEAD | TASK_ZOMBIE | TASK_BLOCKED
datatype ipc_st = IPC_STATE_IDLE | IPC_STATE_SENDING | IPC_STATE_RECVING

record ipc_msg =
  m_src :: int
  m_type :: int
  m_data :: "u32 list"

record task =
  esp :: u32
  page_dir :: u32
  state :: task_state
  next_task :: nat
  pid :: int
  parent_pid :: int
  exit_status :: int
  sig_pending :: u32
  sig_mask :: u32
  unkillable :: bool
  last_sched_tick :: u32
  ipc_state :: ipc_st
  ipc_partner :: int
  ipc_rc :: int
  ipc_buf :: ipc_msg
  ipc_sender_q :: "nat option"
  ipc_sq_next :: "nat option"

datatype exit_call = Keyboard_release nat | Vtty_exited nat | Surface_release nat

record kern =
  task_pool :: "nat \<Rightarrow> task"
  task_pool_count :: nat
  current_task :: nat
  tasking_active :: bool
  in_schedule :: bool
  kernel_dir :: u32
  cr3_dir :: u32
  s_handlers :: "nat \<Rightarrow> nat \<Rightarrow> u32"
  exit_log :: "exit_call list"

abbreviation "MAX_TASKS \<equiv> 32 :: nat"
abbreviation "SIG_TABLE_MAX_TASKS \<equiv> 8 :: nat"
abbreviation "SIG_MAX \<equiv> 31 :: nat"
abbreviation "SIG_DFL \<equiv> 0 :: u32"
abbreviation "SIG_IGN \<equiv> 1 :: u32"
abbreviation "SIGKILL \<equiv> 9 :: nat"
abbreviation "SIGSTOP \<equiv> 19 :: nat"
abbreviation "IPC_ANY \<equiv> - 1 :: int"
abbreviation "IPC_ESRCH \<equiv> - 3 :: int"
abbreviation "IPC_EAGAIN \<equiv> - 11 :: int"
abbreviation "IPC_EFAULT \<equiv> - 14 :: int"
abbreviation "IPC_EINVAL \<equiv> - 22 :: int"

definition SIG_BIT :: "nat \<Rightarrow> u32" where "SIG_BIT n = push_bit (n - 1) 1"

definition upd_task :: "nat \<Rightarrow> (task \<Rightarrow> task) \<Rightarrow> kern \<Rightarrow> kern" where
  "upd_task t f k = k\<lparr>task_pool := (task_pool k)(t := f (task_pool k t))\<rparr>"

section \<open>The pool\<close>

definition task_by_pid :: "int \<Rightarrow> kern \<Rightarrow> nat option" where
  "task_by_pid p k = find (\<lambda>i. pid (task_pool k i) = p \<and> state (task_pool k i) \<noteq> TASK_DEAD) [0..<task_pool_count k]"

definition task_get :: "int \<Rightarrow> kern \<Rightarrow> nat option" where
  "task_get i k = (if i < 0 \<or> int (task_pool_count k) \<le> i then None else Some (nat i))"

section \<open>Rendezvous clean-up\<close>

text \<open>The loop that wakes the senders queued on a dying task.\<close>

partial_function (option) wake_senders :: "nat option \<Rightarrow> kern \<Rightarrow> kern option" where
  "wake_senders s k =
     (case s of None \<Rightarrow> Some k
      | Some x \<Rightarrow>
          let nx = ipc_sq_next (task_pool k x) in
          wake_senders nx (upd_task x (\<lambda>s. s\<lparr>ipc_sq_next := None, ipc_rc := IPC_ESRCH, ipc_state := IPC_STATE_IDLE,
            state := (if state s = TASK_BLOCKED then TASK_READY else state s)\<rparr>) k))"

text \<open>The loop that unlinks a task from the queue it is on; \<open>prev\<close> trails the cursor.\<close>

partial_function (option) unlink_sender :: "nat \<Rightarrow> nat \<Rightarrow> nat option \<Rightarrow> nat option \<Rightarrow> kern \<Rightarrow> kern option" where
  "unlink_sender tt d prev p k =
     (case p of None \<Rightarrow> Some k
      | Some x \<Rightarrow>
          if x = tt then
            Some (case prev of
                Some y \<Rightarrow> upd_task y (\<lambda>s. s\<lparr>ipc_sq_next := ipc_sq_next (task_pool k x)\<rparr>) k
              | None \<Rightarrow> upd_task d (\<lambda>s. s\<lparr>ipc_sender_q := ipc_sq_next (task_pool k x)\<rparr>) k)
          else unlink_sender tt d (Some x) (ipc_sq_next (task_pool k x)) k)"

definition ipc_task_cleanup :: "nat \<Rightarrow> kern \<Rightarrow> kern option" where
  "ipc_task_cleanup tt k = do {
     k \<leftarrow> wake_senders (ipc_sender_q (task_pool k tt)) k;
     let k = upd_task tt (\<lambda>s. s\<lparr>ipc_sender_q := None\<rparr>) k in do {
       k \<leftarrow> (if ipc_state (task_pool k tt) = IPC_STATE_SENDING then
               (case task_by_pid (ipc_partner (task_pool k tt)) k of
                  None \<Rightarrow> Some k
                | Some d \<Rightarrow> unlink_sender tt d None (ipc_sender_q (task_pool k d)) k)
             else Some k);
       Some (upd_task tt (\<lambda>s. s\<lparr>ipc_state := IPC_STATE_IDLE, ipc_sq_next := None\<rparr>) k)
     }
   }"

declare wake_senders.simps [code] unlink_sender.simps [code]

section \<open>Termination\<close>

definition task_terminate :: "nat \<Rightarrow> int \<Rightarrow> kern \<Rightarrow> kern option" where
  "task_terminate t status k = do {
     k \<leftarrow> ipc_task_cleanup t (k\<lparr>exit_log := exit_log k @ [Keyboard_release t, Vtty_exited t]\<rparr>);
     let k = upd_task t (\<lambda>s. s\<lparr>exit_status := status\<rparr>) (k\<lparr>exit_log := exit_log k @ [Surface_release t]\<rparr>);
         leave_zombie = (0 < parent_pid (task_pool k t) \<and>
           (case task_by_pid (parent_pid (task_pool k t)) k of None \<Rightarrow> False
            | Some p \<Rightarrow> page_dir (task_pool k p) \<noteq> 0 \<and> page_dir (task_pool k p) \<noteq> kernel_dir k))
     in Some (upd_task t (\<lambda>s. s\<lparr>state := (if leave_zombie then TASK_ZOMBIE else TASK_DEAD)\<rparr>) k)
   }"

section \<open>Signals\<close>

definition slot_of :: "nat \<Rightarrow> kern \<Rightarrow> nat option" where
  "slot_of t k = find (\<lambda>i. i = t) [0..<task_pool_count k]"

definition sig_default_terminates :: "nat \<Rightarrow> bool" where
  "sig_default_terminates signo \<longleftrightarrow> signo \<in> {1, 2, 3, 4, 5, 6, 8, 9, 10, 11, 12, 13, 14, 15}"

text \<open>Reading and writing a row of the handler table.\<close>

definition get_handler :: "nat \<Rightarrow> nat \<Rightarrow> kern \<Rightarrow> u32 option" where
  "get_handler slot signo k = (if slot < SIG_TABLE_MAX_TASKS then Some (s_handlers k slot signo) else None)"

definition set_handler :: "nat \<Rightarrow> nat \<Rightarrow> u32 \<Rightarrow> kern \<Rightarrow> kern option" where
  "set_handler slot signo h k =
     (if slot < SIG_TABLE_MAX_TASKS
      then Some (k\<lparr>s_handlers := (s_handlers k)(slot := (s_handlers k slot)(signo := h))\<rparr>) else None)"

fun reset_handlers :: "nat \<Rightarrow> nat \<Rightarrow> kern \<Rightarrow> kern option" where
  "reset_handlers slot 0 k = Some k"
| "reset_handlers slot (Suc s) k = Option.bind (reset_handlers slot s k) (set_handler slot s SIG_DFL)"

definition sig_task_init :: "nat \<Rightarrow> kern \<Rightarrow> kern option" where
  "sig_task_init t k =
     (let k = upd_task t (\<lambda>s. s\<lparr>sig_pending := 0, sig_mask := 0\<rparr>) k in
      case slot_of t k of None \<Rightarrow> Some k | Some slot \<Rightarrow> reset_handlers slot (SIG_MAX + 1) k)"

definition sig_send :: "nat \<Rightarrow> int \<Rightarrow> kern \<Rightarrow> kern" where
  "sig_send t signo k =
     (if signo < 1 \<or> int SIG_MAX < signo then k
      else if state (task_pool k t) = TASK_DEAD then k
      else upd_task t (\<lambda>s. s\<lparr>sig_pending := sig_pending s OR SIG_BIT (nat signo)\<rparr>) k)"

definition sig_send_pid :: "int \<Rightarrow> int \<Rightarrow> kern \<Rightarrow> int \<times> kern" where
  "sig_send_pid p signo k = (case task_by_pid p k of None \<Rightarrow> (- 1, k) | Some t \<Rightarrow> (0, sig_send t signo k))"

definition sig_set_handler :: "nat \<Rightarrow> int \<Rightarrow> u32 \<Rightarrow> kern \<Rightarrow> (int \<times> kern) option" where
  "sig_set_handler t signo h k =
     (if signo < 1 \<or> int SIG_MAX < signo then Some (- 1, k)
      else if signo = int SIGKILL \<or> signo = int SIGSTOP then Some (- 1, k)
      else case slot_of t k of None \<Rightarrow> Some (- 1, k)
        | Some slot \<Rightarrow> map_option (Pair 0) (set_handler slot (nat signo) h k))"

definition handler_for :: "nat \<Rightarrow> nat \<Rightarrow> kern \<Rightarrow> u32 option" where
  "handler_for t signo k = (case slot_of t k of None \<Rightarrow> Some SIG_DFL | Some slot \<Rightarrow> get_handler slot signo k)"

definition sig_get_handler :: "nat \<Rightarrow> int \<Rightarrow> kern \<Rightarrow> u32 option" where
  "sig_get_handler t signo k =
     (if signo < 1 \<or> int SIG_MAX < signo then Some SIG_DFL else handler_for t (nat signo) k)"

definition clear_pending :: "nat \<Rightarrow> nat \<Rightarrow> kern \<Rightarrow> kern" where
  "clear_pending t sig k = upd_task t (\<lambda>s. s\<lparr>sig_pending := sig_pending s AND NOT (SIG_BIT sig)\<rparr>) k"

text \<open>The delivery loop, from signal \<open>sig\<close> on, over the signals found deliverable at entry.\<close>

function deliver_from :: "nat \<Rightarrow> u32 \<Rightarrow> nat \<Rightarrow> kern \<Rightarrow> kern option" where
  "deliver_from t deliverable sig k =
     (if SIG_MAX < sig then Some k
      else if deliverable AND SIG_BIT sig = 0 then deliver_from t deliverable (sig + 1) k
      else if sig = SIGKILL then
        let k = clear_pending t sig k in
        if unkillable (task_pool k t) then deliver_from t deliverable (sig + 1) k
        else task_terminate t (128 + int SIGKILL) k
      else
        (case handler_for t sig k of None \<Rightarrow> None
         | Some h \<Rightarrow>
             if h = SIG_IGN then deliver_from t deliverable (sig + 1) (clear_pending t sig k)
             else if h = SIG_DFL then
               let k = clear_pending t sig k in
               if sig_default_terminates sig then
                 if unkillable (task_pool k t) then deliver_from t deliverable (sig + 1) k
                 else task_terminate t (128 + int sig) k
               else deliver_from t deliverable (sig + 1) k
             else Some k))"
  by pat_completeness auto
termination by (relation "measure (\<lambda>(t, deliverable, sig, k). 32 - sig)") auto

declare deliver_from.simps [simp del]

definition sig_deliver :: "nat \<Rightarrow> kern \<Rightarrow> kern option" where
  "sig_deliver t k =
     (if state (task_pool k t) = TASK_DEAD then Some k
      else
        let deliverable = sig_pending (task_pool k t) AND NOT (sig_mask (task_pool k t)) in
        if deliverable = 0 then Some k else deliver_from t deliverable 1 k)"

definition sig_check_and_clear :: "int \<Rightarrow> kern \<Rightarrow> bool \<times> kern" where
  "sig_check_and_clear signo k =
     (if signo < 1 \<or> int SIG_MAX < signo then (False, k)
      else
        let t = current_task k in
        if sig_pending (task_pool k t) AND SIG_BIT (nat signo) = 0 then (False, k)
        else (True, clear_pending t (nat signo) k))"

section \<open>User handlers\<close>

record registers =
  r_ds :: u32
  r_edi :: u32
  r_esi :: u32
  r_ebp :: u32
  r_esp :: u32
  r_ebx :: u32
  r_edx :: u32
  r_ecx :: u32
  r_eax :: u32
  r_int_no :: u32
  r_err_code :: u32
  r_eip :: u32
  r_cs :: u32
  r_eflags :: u32
  r_useresp :: u32
  r_ss :: u32

abbreviation "SIGFRAME_MAGIC \<equiv> 0x53494746 :: u32"
abbreviation "SYS_SIGRETURN \<equiv> 119 :: u32"
abbreviation "USER_STACK_TOP \<equiv> 0xBFFF0000 :: u32"
abbreviation "USER_STACK_PAGES \<equiv> 8 :: u32"

text \<open>
  User memory as 32-bit words by address. The frame is the 18 words of \<open>sigframe_t\<close>; the
  last two are the trampoline \<open>movl $SYS_SIGRETURN, %eax; int $0x80; nop\<close>.
\<close>

type_synonym umem = "u32 \<Rightarrow> u32"

definition SIGFRAME_SIZE :: u32 where "SIGFRAME_SIZE = 72"

definition store_words :: "u32 \<Rightarrow> u32 list \<Rightarrow> umem \<Rightarrow> umem" where
  "store_words a ws mem = (\<lambda>x. if unat (x - a) mod 4 = 0 \<and> unat (x - a) div 4 < length ws then ws ! (unat (x - a) div 4) else mem x)"

definition sigframe_words :: "u32 \<Rightarrow> nat \<Rightarrow> registers \<Rightarrow> u32 list" where
  "sigframe_words base sig regs =
     [base + 64, of_nat sig, r_eip regs, r_cs regs, r_eflags regs, r_useresp regs, r_ss regs,
      r_eax regs, r_ebx regs, r_ecx regs, r_edx regs, r_esi regs, r_edi regs, r_ebp regs, r_ds regs,
      SIGFRAME_MAGIC, 0x000077B8, 0x9080CD00]"

function check_user_from :: "nat \<Rightarrow> u32 \<Rightarrow> nat \<Rightarrow> registers \<Rightarrow> umem \<Rightarrow> kern \<Rightarrow> (registers \<times> umem \<times> kern) option" where
  "check_user_from t deliverable sig regs mem k =
     (if SIG_MAX < sig then Some (regs, mem, k)
      else if deliverable AND SIG_BIT sig = 0 then check_user_from t deliverable (sig + 1) regs mem k
      else
        (case sig_get_handler t (int sig) k of None \<Rightarrow> None
         | Some h \<Rightarrow>
             if h = SIG_DFL \<or> h = SIG_IGN then check_user_from t deliverable (sig + 1) regs mem k
             else if sig = SIGKILL then check_user_from t deliverable (sig + 1) regs mem k
             else
               let base = r_useresp regs - SIGFRAME_SIZE;
                   mem = store_words base (sigframe_words base sig regs) mem
               in Some (regs\<lparr>r_useresp := base, r_eip := h\<rparr>, mem, clear_pending t sig k)))"
  by pat_completeness auto
termination by (relation "measure (\<lambda>(t, deliverable, sig, regs, mem, k). 32 - sig)") auto

declare check_user_from.simps [simp del]

definition signal_check_user :: "registers \<Rightarrow> umem \<Rightarrow> kern \<Rightarrow> (registers \<times> umem \<times> kern) option" where
  "signal_check_user regs mem k =
     (if r_cs regs AND 3 \<noteq> 3 then Some (regs, mem, k)
      else
        let t = current_task k; deliverable = sig_pending (task_pool k t) AND NOT (sig_mask (task_pool k t)) in
        if deliverable = 0 then Some (regs, mem, k) else check_user_from t deliverable 1 regs mem k)"

text \<open>\<open>SYS_SIGRETURN\<close>; the flag is false when the task is killed.\<close>

definition sys_sigreturn :: "registers \<Rightarrow> umem \<Rightarrow> kern \<Rightarrow> bool \<times> registers \<times> kern" where
  "sys_sigreturn regs mem k =
     (let base = r_useresp regs - 4; w = (\<lambda>i. mem (base + 4 * i));
          kill = upd_task (current_task k) (\<lambda>s. s\<lparr>state := TASK_DEAD\<rparr>) k
      in if base < USER_STACK_TOP - USER_STACK_PAGES * 4096 \<or> USER_STACK_TOP < base + SIGFRAME_SIZE then (False, regs, kill)
         else if w 15 \<noteq> SIGFRAME_MAGIC then (False, regs, kill)
         else (True, regs\<lparr>r_eip := w 2, r_cs := w 3, r_eflags := w 4, r_useresp := w 5, r_ss := w 6,
                r_eax := w 7, r_ebx := w 8, r_ecx := w 9, r_edx := w 10, r_esi := w 11, r_edi := w 12,
                r_ebp := w 13, r_ds := w 14\<rparr>, k))"

definition sys_signal :: "registers \<Rightarrow> kern \<Rightarrow> (registers \<times> kern) option" where
  "sys_signal regs k =
     (let signo = sint (r_ebx regs); new_h = r_ecx regs; t = current_task k in
      if signo < 1 \<or> int SIG_MAX < signo \<or> signo = int SIGKILL \<or> signo = int SIGSTOP
      then Some (regs\<lparr>r_eax := - 1\<rparr>, k)
      else do {
        prev \<leftarrow> sig_get_handler t signo k;
        (rc, k) \<leftarrow> sig_set_handler t signo new_h k;
        Some (if rc \<noteq> 0 then (regs\<lparr>r_eax := - 1\<rparr>, k) else (regs\<lparr>r_eax := prev\<rparr>, k))
      })"

definition sys_kill :: "registers \<Rightarrow> kern \<Rightarrow> registers \<times> kern" where
  "sys_kill regs k =
     (let p = sint (r_ebx regs); signo = sint (r_ecx regs) in
      if signo = 0 then
        (regs\<lparr>r_eax := (case task_by_pid p k of None \<Rightarrow> - 1
           | Some t \<Rightarrow> if state (task_pool k t) \<noteq> TASK_DEAD \<and> state (task_pool k t) \<noteq> TASK_ZOMBIE then 0 else - 1)\<rparr>, k)
      else if signo < 1 \<or> int SIG_MAX < signo then (regs\<lparr>r_eax := - 1\<rparr>, k)
      else let (rc, k) = sig_send_pid p signo k in (regs\<lparr>r_eax := (if rc = 0 then 0 else - 1)\<rparr>, k))"

section \<open>The scheduler\<close>

text \<open>The search for a runnable task, at most \<open>n\<close> steps around the ring.\<close>

fun pick_next :: "nat \<Rightarrow> nat \<Rightarrow> kern \<Rightarrow> (nat \<times> kern) option" where
  "pick_next 0 nxt k = Some (nxt, k)"
| "pick_next (Suc n) nxt k =
     (if state (task_pool k nxt) = TASK_READY then do {
        k \<leftarrow> sig_deliver nxt k;
        if state (task_pool k nxt) = TASK_READY then Some (nxt, k)
        else pick_next n (next_task (task_pool k nxt)) k
      }
      else pick_next n (next_task (task_pool k nxt)) k)"

text \<open>The switch to the task found.\<close>

definition switch_to :: "nat \<Rightarrow> u32 \<Rightarrow> kern \<Rightarrow> kern" where
  "switch_to nxt now k =
     (let prev = current_task k;
          k = upd_task prev (\<lambda>s. if state s = TASK_RUNNING then s\<lparr>state := TASK_READY\<rparr> else s) k;
          k = upd_task nxt (\<lambda>s. s\<lparr>state := TASK_RUNNING, last_sched_tick := now\<rparr>) (k\<lparr>current_task := nxt\<rparr>);
          k = (if page_dir (task_pool k nxt) \<noteq> page_dir (task_pool k prev)
               then k\<lparr>cr3_dir := page_dir (task_pool k nxt)\<rparr> else k)
      in k\<lparr>in_schedule := False\<rparr>)"

definition schedule :: "u32 \<Rightarrow> kern \<Rightarrow> kern option" where
  "schedule now k =
     (if \<not> tasking_active k \<or> task_pool_count k < 2 then Some k
      else if in_schedule k then Some k
      else do {
        k \<leftarrow> (let k = k\<lparr>in_schedule := True\<rparr>; c = current_task k in
               if state (task_pool k c) = TASK_RUNNING then sig_deliver c k else Some k);
        (nxt, k) \<leftarrow> pick_next (task_pool_count k) (next_task (task_pool k (current_task k))) k;
        if nxt = current_task k \<or> state (task_pool k nxt) \<noteq> TASK_READY then Some (k\<lparr>in_schedule := False\<rparr>)
        else Some (switch_to nxt now k)
      })"

definition task_yield :: "u32 \<Rightarrow> kern \<Rightarrow> kern option" where
  "task_yield now k = (if \<not> tasking_active k then Some k else schedule now k)"

text \<open>The part of \<open>task_exit\<close> before it gives the processor away for good.\<close>

fun reap_zombies :: "nat \<Rightarrow> int \<Rightarrow> kern \<Rightarrow> kern" where
  "reap_zombies 0 me k = k"
| "reap_zombies (Suc n) me k =
     (let k = reap_zombies n me k in
      if 1 \<le> n \<and> state (task_pool k n) = TASK_ZOMBIE \<and> parent_pid (task_pool k n) = me
      then upd_task n (\<lambda>s. s\<lparr>state := TASK_DEAD\<rparr>) k else k)"

definition task_exit :: "kern \<Rightarrow> kern option" where
  "task_exit k =
     (let c = current_task k; k = reap_zombies (task_pool_count k) (pid (task_pool k c)) k
      in task_terminate c (exit_status (task_pool k c)) k)"

end
