(* ===== verification/Ipc.thy ===== *)
theory Ipc
  imports Task
begin

text \<open>
  Synchronous message passing: \<^verbatim>\<open>proc/ipc.c\<close>. A call that blocks is cut at the point
  where it gives the processor away: \<open>Block\<close> is the outcome of its first part, and
  \<open>ipc_send_resume\<close> and \<open>ipc_recv_resume\<close> are what it does when it runs again. The
  interrupt guard makes each part one atomic step. A null message pointer is \<open>None\<close>.
\<close>

datatype ipc_result = Ret int "ipc_msg option" | Block

definition ipc_task_init :: "nat \<Rightarrow> kern \<Rightarrow> kern" where
  "ipc_task_init t k = upd_task t (\<lambda>s. s\<lparr>ipc_state := IPC_STATE_IDLE, ipc_partner := 0, ipc_rc := 0,
     ipc_sender_q := None, ipc_sq_next := None\<rparr>) k"

definition ipc_block :: "nat \<Rightarrow> kern \<Rightarrow> kern" where
  "ipc_block cur k = upd_task cur (\<lambda>s. s\<lparr>state := TASK_BLOCKED\<rparr>) k"

definition wake :: "task \<Rightarrow> task" where
  "wake s = (if state s = TASK_BLOCKED then s\<lparr>state := TASK_READY\<rparr> else s)"

text \<open>The tail of a sender queue.\<close>

partial_function (option) queue_tail :: "nat \<Rightarrow> kern \<Rightarrow> nat option" where
  "queue_tail tk k = (case ipc_sq_next (task_pool k tk) of None \<Rightarrow> Some tk | Some n \<Rightarrow> queue_tail n k)"

definition enqueue_sender :: "nat \<Rightarrow> nat \<Rightarrow> kern \<Rightarrow> kern option" where
  "enqueue_sender d cur k =
     (case ipc_sender_q (task_pool k d) of
        None \<Rightarrow> Some (upd_task d (\<lambda>s. s\<lparr>ipc_sender_q := Some cur\<rparr>) k)
      | Some h \<Rightarrow> map_option (\<lambda>tk. upd_task tk (\<lambda>s. s\<lparr>ipc_sq_next := Some cur\<rparr>) k) (queue_tail h k))"

definition ipc_send :: "int \<Rightarrow> ipc_msg option \<Rightarrow> kern \<Rightarrow> (ipc_result \<times> kern) option" where
  "ipc_send dst msg k =
     (let cur = current_task k in
      case msg of None \<Rightarrow> Some (Ret IPC_EFAULT None, k)
      | Some m \<Rightarrow>
          if dst = pid (task_pool k cur) then Some (Ret IPC_EINVAL None, k)
          else
            let k = upd_task cur (\<lambda>s. s\<lparr>ipc_buf := m\<lparr>m_src := pid s\<rparr>\<rparr>) k in
            (case task_by_pid dst k of
               None \<Rightarrow> Some (Ret IPC_ESRCH None, k)
             | Some d \<Rightarrow>
                 if state (task_pool k d) = TASK_DEAD \<or> state (task_pool k d) = TASK_ZOMBIE then Some (Ret IPC_ESRCH None, k)
                 else if ipc_state (task_pool k d) = IPC_STATE_RECVING \<and>
                    (ipc_partner (task_pool k d) = IPC_ANY \<or> ipc_partner (task_pool k d) = pid (task_pool k cur)) then
                   Some (Ret 0 None, upd_task d (\<lambda>s. wake (s\<lparr>ipc_buf := ipc_buf (task_pool k cur),
                     ipc_state := IPC_STATE_IDLE, ipc_partner := 0, ipc_rc := 0\<rparr>)) k)
                 else do {
                   k \<leftarrow> enqueue_sender d cur (upd_task cur (\<lambda>s. s\<lparr>ipc_state := IPC_STATE_SENDING, ipc_partner := dst,
                     ipc_rc := 0, ipc_sq_next := None\<rparr>) k);
                   Some (Block, ipc_block cur k)
                 }))"

definition ipc_send_resume :: "kern \<Rightarrow> ipc_result \<times> kern" where
  "ipc_send_resume k =
     (let cur = current_task k in
      (Ret (ipc_rc (task_pool k cur)) None, upd_task cur (\<lambda>s. s\<lparr>ipc_state := IPC_STATE_IDLE\<rparr>) k))"

text \<open>The scan for a queued sender that matches; \<open>prev\<close> trails the cursor.\<close>

partial_function (option) find_sender :: "int \<Rightarrow> nat option \<Rightarrow> nat option \<Rightarrow> kern \<Rightarrow> (nat option \<times> nat option) option" where
  "find_sender from_pid prev s k =
     (case s of None \<Rightarrow> Some (prev, None)
      | Some x \<Rightarrow>
          if from_pid = IPC_ANY \<or> pid (task_pool k x) = from_pid then Some (prev, Some x)
          else find_sender from_pid (Some x) (ipc_sq_next (task_pool k x)) k)"

text \<open>Taking the message of a queued sender, as \<open>ipc_recv\<close> and \<open>ipc_nbrecv\<close> both do.\<close>

definition take_sender :: "nat \<Rightarrow> nat option \<Rightarrow> nat \<Rightarrow> kern \<Rightarrow> kern" where
  "take_sender cur prev s k =
     (let nx = ipc_sq_next (task_pool k s);
          k = (case prev of Some p \<Rightarrow> upd_task p (\<lambda>t. t\<lparr>ipc_sq_next := nx\<rparr>) k
               | None \<Rightarrow> upd_task cur (\<lambda>t. t\<lparr>ipc_sender_q := nx\<rparr>) k);
          k = upd_task s (\<lambda>t. t\<lparr>ipc_sq_next := None\<rparr>) k;
          k = upd_task cur (\<lambda>t. t\<lparr>ipc_buf := ipc_buf (task_pool k s)\<rparr>) k
      in upd_task s (\<lambda>t. wake (t\<lparr>ipc_rc := 0, ipc_state := IPC_STATE_IDLE, ipc_partner := 0\<rparr>)) k)"

definition ipc_recv :: "int \<Rightarrow> bool \<Rightarrow> kern \<Rightarrow> (ipc_result \<times> kern) option" where
  "ipc_recv from_pid out k =
     (let cur = current_task k in
      if \<not> out then Some (Ret IPC_EFAULT None, k)
      else do {
        (prev, s) \<leftarrow> find_sender from_pid None (ipc_sender_q (task_pool k cur)) k;
        (case s of
           Some s \<Rightarrow>
             let k = take_sender cur prev s k in Some (Ret 0 (Some (ipc_buf (task_pool k cur))), k)
         | None \<Rightarrow>
             Some (Block, ipc_block cur (upd_task cur (\<lambda>s. s\<lparr>ipc_state := IPC_STATE_RECVING,
               ipc_partner := from_pid, ipc_rc := 0\<rparr>) k)))
      })"

definition ipc_recv_resume :: "kern \<Rightarrow> ipc_result \<times> kern" where
  "ipc_recv_resume k =
     (let cur = current_task k; rc = ipc_rc (task_pool k cur);
          k = upd_task cur (\<lambda>s. s\<lparr>ipc_state := IPC_STATE_IDLE\<rparr>) k
      in (Ret rc (if rc = 0 then Some (ipc_buf (task_pool k cur)) else None), k))"

definition ipc_nbrecv :: "int \<Rightarrow> bool \<Rightarrow> kern \<Rightarrow> (ipc_result \<times> kern) option" where
  "ipc_nbrecv from_pid out k =
     (let cur = current_task k in
      if \<not> out then Some (Ret IPC_EFAULT None, k)
      else do {
        (prev, s) \<leftarrow> find_sender from_pid None (ipc_sender_q (task_pool k cur)) k;
        (case s of
           None \<Rightarrow> Some (Ret IPC_EAGAIN None, k)
         | Some s \<Rightarrow> let k = take_sender cur prev s k in Some (Ret 0 (Some (ipc_buf (task_pool k cur))), k))
      })"

text \<open>
  \<open>ipc_sendrec\<close>: the send and, when it has returned 0 (at once, or in
  \<open>ipc_send_resume\<close>), the receive from the same task.
\<close>

definition ipc_sendrec :: "int \<Rightarrow> ipc_msg option \<Rightarrow> kern \<Rightarrow> (ipc_result \<times> kern) option" where
  "ipc_sendrec dst msg k = do {
     (r, k) \<leftarrow> ipc_send dst msg k;
     (case r of Block \<Rightarrow> Some (Block, k)
      | Ret rc x \<Rightarrow> if rc \<noteq> 0 then Some (Ret rc x, k) else ipc_recv dst True k)
   }"

definition ipc_sendrec_resume :: "int \<Rightarrow> kern \<Rightarrow> (ipc_result \<times> kern) option" where
  "ipc_sendrec_resume dst k =
     (case ipc_send_resume k of
        (Ret rc x, k) \<Rightarrow> if rc \<noteq> 0 then Some (Ret rc x, k) else ipc_recv dst True k
      | (Block, k) \<Rightarrow> Some (Block, k))"

declare queue_tail.simps [code] find_sender.simps [code]

section \<open>Sender queues as lists\<close>

text \<open>
  \<open>chain k h xs\<close>: following the links from \<open>h\<close> visits exactly \<open>xs\<close>.
\<close>

fun chain :: "kern \<Rightarrow> nat option \<Rightarrow> nat list \<Rightarrow> bool" where
  "chain k h [] \<longleftrightarrow> h = None"
| "chain k h (x # xs) \<longleftrightarrow> h = Some x \<and> chain k (ipc_sq_next (task_pool k x)) xs"

text \<open>
  The abstract state \<open>Q\<close> gives each task the list of the tasks waiting to send to it. The
  invariant: the links represent \<open>Q\<close>; the tasks queued on \<open>d\<close> are the tasks that are in the
  sending state with \<open>d\<close>'s pid as partner, and both ends are alive; a task that is sending or
  receiving is blocked; pids identify the tasks that are not dead.
\<close>

definition alive :: "kern \<Rightarrow> nat \<Rightarrow> bool" where
  "alive k t \<longleftrightarrow> state (task_pool k t) \<noteq> TASK_DEAD \<and> state (task_pool k t) \<noteq> TASK_ZOMBIE"

definition ipc_inv :: "kern \<Rightarrow> (nat \<Rightarrow> nat list) \<Rightarrow> bool" where
  "ipc_inv k Q \<longleftrightarrow>
     (\<forall>d. chain k (ipc_sender_q (task_pool k d)) (Q d) \<and> distinct (Q d)) \<and>
     (\<forall>d s. s \<in> set (Q d) \<longrightarrow> ipc_state (task_pool k s) = IPC_STATE_SENDING \<and>
        ipc_partner (task_pool k s) = pid (task_pool k d) \<and>
        d < task_pool_count k \<and> alive k d \<and> s < task_pool_count k \<and> s \<noteq> d) \<and>
     (\<forall>s. ipc_state (task_pool k s) = IPC_STATE_SENDING \<longrightarrow> (\<exists>d. s \<in> set (Q d))) \<and>
     (\<forall>s. ipc_state (task_pool k s) \<noteq> IPC_STATE_IDLE \<longrightarrow> state (task_pool k s) = TASK_BLOCKED) \<and>
     (\<forall>i j. i < task_pool_count k \<longrightarrow> j < task_pool_count k \<longrightarrow> state (task_pool k i) \<noteq> TASK_DEAD \<longrightarrow>
        state (task_pool k j) \<noteq> TASK_DEAD \<longrightarrow> pid (task_pool k i) = pid (task_pool k j) \<longrightarrow> i = j)"

end
