(* ===== verification/Task_Facts.thy ===== *)
theory Task_Facts
  imports Task
begin

text \<open>
  Facts on tasks shared by the signal and the message-passing proofs: reading an updated
  pool, and the outcomes of the signal-delivery loop.
\<close>

section \<open>Reading an updated pool\<close>

lemma task_pool_upd_task [simp]:
  "task_pool (upd_task t f k) = (task_pool k)(t := f (task_pool k t))"
  by (simp add: upd_task_def)

lemma upd_task_rest [simp]:
  "task_pool_count (upd_task t f k) = task_pool_count k"
  "current_task (upd_task t f k) = current_task k"
  "tasking_active (upd_task t f k) = tasking_active k"
  "in_schedule (upd_task t f k) = in_schedule k"
  "kernel_dir (upd_task t f k) = kernel_dir k"
  "s_handlers (upd_task t f k) = s_handlers k"
  "exit_log (upd_task t f k) = exit_log k"
  "cr3_dir (upd_task t f k) = cr3_dir k"
  by (simp_all add: upd_task_def)

lemma upd_task_upd_task [simp]: "upd_task t f (upd_task t g k) = upd_task t (\<lambda>s. f (g s)) k"
  by (simp add: upd_task_def)

lemma handler_for_upd [simp]: "handler_for t sig (upd_task x f k) = handler_for t sig k"
  by (simp add: handler_for_def slot_of_def get_handler_def split: option.splits)

lemma slot_of_eq: "slot_of t k = (if t < task_pool_count k then Some t else None)"
proof (cases "slot_of t k")
  case None then show ?thesis by (auto simp: slot_of_def find_None_iff)
next
  case (Some i) then show ?thesis by (auto simp: slot_of_def find_Some_iff)
qed

section \<open>Signal numbers as bits\<close>

lemma bit_SIG_BIT: "1 \<le> sig \<Longrightarrow> sig \<le> 31 \<Longrightarrow> bit (SIG_BIT sig) n \<longleftrightarrow> n = sig - 1"
  by (auto simp: SIG_BIT_def bit_simps)

lemma and_SIG_BIT: "1 \<le> sig \<Longrightarrow> sig \<le> 31 \<Longrightarrow> (d AND SIG_BIT sig \<noteq> 0) \<longleftrightarrow> bit d (sig - 1)"
  by (auto simp: bit_eq_iff[where 'a = u32] bit_simps bit_SIG_BIT)

text \<open>\<open>k1\<close> is \<open>k\<close> with some of the signals \<open>del\<close> of \<open>t\<close> no longer pending.\<close>

definition cleared :: "nat \<Rightarrow> u32 \<Rightarrow> kern \<Rightarrow> kern \<Rightarrow> bool" where
  "cleared t del k k1 \<longleftrightarrow> (\<exists>m. k1 = upd_task t (\<lambda>s. s\<lparr>sig_pending := m\<rparr>) k \<and>
     m AND NOT del = sig_pending (task_pool k t) AND NOT del \<and> m AND sig_pending (task_pool k t) = m)"

lemma cleared_refl: "cleared t del k k"
  unfolding cleared_def by (intro exI[of _ "sig_pending (task_pool k t)"]) (simp add: upd_task_def)

lemma cleared_step:
  assumes "cleared t del (clear_pending t sig k) k1" "1 \<le> sig" "sig \<le> 31" "del AND SIG_BIT sig \<noteq> 0"
  shows "cleared t del k k1"
proof -
  let ?p = "sig_pending (task_pool k t)"
  obtain m where m: "k1 = upd_task t (\<lambda>s. s\<lparr>sig_pending := m\<rparr>) k"
     "m AND NOT del = (?p AND NOT (SIG_BIT sig)) AND NOT del" "m AND (?p AND NOT (SIG_BIT sig)) = m"
    using assms(1) by (auto simp: cleared_def clear_pending_def upd_task_def)
  have "(?p AND NOT (SIG_BIT sig)) AND NOT del = ?p AND NOT del"
    using assms(2-) by (auto simp: and_SIG_BIT bit_eq_iff[where 'a = u32] bit_simps bit_SIG_BIT)
  moreover have "m AND ?p = m"
    using m(3) by (auto simp: bit_eq_iff[where 'a = u32] bit_simps)
  ultimately show ?thesis unfolding cleared_def using m by auto
qed

section \<open>The outcomes of signal delivery\<close>

definition fatal :: "nat \<Rightarrow> nat \<Rightarrow> kern \<Rightarrow> bool" where
  "fatal t sig k \<longleftrightarrow> sig = SIGKILL \<or> handler_for t sig k = Some SIG_DFL \<and> sig_default_terminates sig"

lemma deliver_from_outcome:
  "deliver_from t del sig k = Some k' \<Longrightarrow> 1 \<le> sig \<Longrightarrow>
     cleared t del k k' \<or>
     (\<exists>sg k1. sig \<le> sg \<and> sg \<le> SIG_MAX \<and> del AND SIG_BIT sg \<noteq> 0 \<and> fatal t sg k \<and>
        \<not> unkillable (task_pool k t) \<and> cleared t del k k1 \<and> task_terminate t (128 + int sg) k1 = Some k')"
proof (induction t del sig k arbitrary: k' rule: deliver_from.induct)
  case (1 t del sig k)
  let ?c = "clear_pending t sig k"
  have uk: "unkillable (task_pool ?c t) = unkillable (task_pool k t)" and fa: "fatal t sg ?c = fatal t sg k" for sg
    by (simp_all add: clear_pending_def fatal_def)
  have lift: ?case if "deliver_from t del (sig + 1) ?c = Some k'" "del AND SIG_BIT sig \<noteq> 0" "sig \<le> 31"
    "cleared t del ?c k' \<or> (\<exists>sg k1. sig + 1 \<le> sg \<and> sg \<le> SIG_MAX \<and> del AND SIG_BIT sg \<noteq> 0 \<and> fatal t sg ?c \<and>
        \<not> unkillable (task_pool ?c t) \<and> cleared t del ?c k1 \<and> task_terminate t (128 + int sg) k1 = Some k')"
    using that(4) cleared_step[OF _ "1.prems"(2) that(3,2)] uk fa by (metis Suc_eq_plus1 Suc_leD)
  have die: ?case if "task_terminate t (128 + int sig) ?c = Some k'" "del AND SIG_BIT sig \<noteq> 0" "sig \<le> 31"
    "\<not> unkillable (task_pool ?c t)" "fatal t sig k"
    using that cleared_step[OF cleared_refl "1.prems"(2) that(3,2)] uk by (intro disjI2 exI[of _ sig] exI[of _ ?c]) auto
  consider "SIG_MAX < sig" | "sig \<le> SIG_MAX" "del AND SIG_BIT sig = 0" |
    "sig \<le> SIG_MAX" "del AND SIG_BIT sig \<noteq> 0" "sig = SIGKILL" |
    "sig \<le> SIG_MAX" "del AND SIG_BIT sig \<noteq> 0" "sig \<noteq> SIGKILL" by linarith
  then show ?case
  proof cases
    case 1 with "1.prems" show ?thesis by (subst (asm) deliver_from.simps) (auto simp: cleared_refl)
  next
    case 2
    then have "deliver_from t del (sig + 1) k = Some k'" using "1.prems"(1) by (subst (asm) deliver_from.simps) simp
    from "1.IH"(1)[OF _ _ this] 2 show ?thesis by (auto dest: Suc_leD)
  next
    case 3
    show ?thesis
    proof (cases "unkillable (task_pool ?c t)")
      case True
      then have d: "deliver_from t del (sig + 1) ?c = Some k'" using "1.prems"(1) 3 by (subst (asm) deliver_from.simps) simp
      from "1.IH"(2)[OF _ _ _ refl True d] 3 show ?thesis by (intro lift[OF d]) auto
    next
      case False
      then have "task_terminate t (128 + int sig) ?c = Some k'" using "1.prems"(1) 3 by (subst (asm) deliver_from.simps) simp
      then show ?thesis by (rule die) (use 3 False in \<open>auto simp: fatal_def\<close>)
    qed
  next
    case 4
    then obtain h where h: "handler_for t sig k = Some h"
      using "1.prems"(1) by (subst (asm) deliver_from.simps) (auto split: option.splits)
    show ?thesis
    proof (cases "h = SIG_DFL \<and> sig_default_terminates sig \<and> \<not> unkillable (task_pool ?c t)")
      case True
      then have "task_terminate t (128 + int sig) ?c = Some k'" using "1.prems"(1) 4 h by (subst (asm) deliver_from.simps) simp
      then show ?thesis by (rule die) (use 4 True h in \<open>auto simp: fatal_def\<close>)
    next
      case False
      show ?thesis
      proof (cases "h = SIG_DFL \<or> h = SIG_IGN")
        case True
        with False have d: "deliver_from t del (sig + 1) ?c = Some k'"
          using "1.prems"(1) 4 h by (subst (asm) deliver_from.simps) (auto simp: Let_def split: if_splits)
        consider "h = SIG_IGN" | "h = SIG_DFL" "sig_default_terminates sig" "unkillable (task_pool ?c t)"
          | "h = SIG_DFL" "\<not> sig_default_terminates sig" using True False by blast
        then show ?thesis
        proof cases
          case a: 1
          have "\<not> SIG_MAX < sig" using 4 by simp
          from "1.IH"(3)[OF this 4(2,3) h a d] 4 show ?thesis by (intro lift[OF d]) simp_all
        next
          case a: 2
          have n: "\<not> SIG_MAX < sig" "h \<noteq> SIG_IGN" using 4 a by simp_all
          from "1.IH"(4)[OF n(1) 4(2,3) h n(2) a(1) refl a(2,3) d] 4 show ?thesis by (intro lift[OF d]) simp_all
        next
          case a: 3
          have n: "\<not> SIG_MAX < sig" "h \<noteq> SIG_IGN" using 4 a by simp_all
          from "1.IH"(5)[OF n(1) 4(2,3) h n(2) a(1) refl a(2) d] 4 show ?thesis by (intro lift[OF d]) simp_all
        qed
      next
        case F: False
        then have "k' = k" using "1.prems"(1) 4 h by (subst (asm) deliver_from.simps) auto
        then show ?thesis by (simp add: cleared_refl)
      qed
    qed
  qed
qed

end
