(* ===== verification/Ipc_Facts.thy ===== *)
theory Ipc_Facts
  imports Ipc Task_Facts
begin

text \<open>
  Facts on sender queues: the loops of \<^verbatim>\<open>proc/ipc.c\<close> over a represented queue, and the
  invariant under each operation.
\<close>

section \<open>Reading an updated pool\<close>

lemma wake_fields [simp]:
  "pid (wake s) = pid s" "ipc_state (wake s) = ipc_state s" "ipc_buf (wake s) = ipc_buf s"
  "ipc_sender_q (wake s) = ipc_sender_q s" "ipc_sq_next (wake s) = ipc_sq_next s"
  "ipc_partner (wake s) = ipc_partner s" "ipc_rc (wake s) = ipc_rc s"
  by (simp_all add: wake_def)

lemma state_wake [simp]:
  "state (wake s) = (if state s = TASK_BLOCKED then TASK_READY else state s)"
  by (simp add: wake_def)

lemma task_by_pid_Some:
  "task_by_pid p k = Some d \<Longrightarrow> d < task_pool_count k \<and> pid (task_pool k d) = p \<and> state (task_pool k d) \<noteq> TASK_DEAD"
  by (auto simp: task_by_pid_def find_Some_iff)

lemma task_by_pid_unique:
  assumes "ipc_inv k Q" "d < task_pool_count k" "state (task_pool k d) \<noteq> TASK_DEAD"
  shows "task_by_pid (pid (task_pool k d)) k = Some d"
proof -
  obtain e where e: "task_by_pid (pid (task_pool k d)) k = Some e"
    using assms(2,3) by (cases "task_by_pid (pid (task_pool k d)) k") (auto simp: task_by_pid_def find_None_iff)
  from task_by_pid_Some[OF this] assms have "e = d" unfolding ipc_inv_def by metis
  with e show ?thesis by simp
qed

section \<open>Chains\<close>

lemma chain_cong:
  "(\<And>x. x \<in> set xs \<Longrightarrow> ipc_sq_next (task_pool k' x) = ipc_sq_next (task_pool k x)) \<Longrightarrow> chain k' h xs = chain k h xs"
  by (induction xs arbitrary: h) auto

lemma chain_unique: "chain k h xs \<Longrightarrow> chain k h ys \<Longrightarrow> xs = ys"
  by (induction xs arbitrary: h ys) (case_tac ys; auto)+

text \<open>Where a queue splits: the head of the rest, and a way to replace the rest.\<close>

lemma chain_mid:
  "chain k h (xs @ y # ys) \<Longrightarrow>
     (if xs = [] then h else ipc_sq_next (task_pool k (last xs))) = Some y \<and> chain k (Some y) (y # ys)"
  by (induction xs arbitrary: h) auto

lemma chain_replace:
  assumes "chain k h (xs @ zs)" "xs \<noteq> []" "chain k' (ipc_sq_next (task_pool k' (last xs))) ys"
    "\<And>x. x \<in> set (butlast xs) \<Longrightarrow> ipc_sq_next (task_pool k' x) = ipc_sq_next (task_pool k x)"
  shows "chain k' h (xs @ ys)"
  using assms
proof (induction xs arbitrary: h)
  case (Cons x xs)
  show ?case
  proof (cases "xs = []")
    case True with Cons.prems show ?thesis by simp
  next
    case False
    then have "chain k' (ipc_sq_next (task_pool k x)) (xs @ ys)"
      using Cons.prems by (intro Cons.IH) auto
    with Cons.prems False show ?thesis by simp
  qed
qed simp

lemma queue_tail_chain:
  "chain k (Some h) xs \<Longrightarrow> queue_tail h k = Some (last xs)"
proof (induction xs arbitrary: h)
  case (Cons x xs)
  then show ?case
    by (subst queue_tail.simps, cases xs) (auto split: option.splits)
qed simp

lemma find_sender_chain:
  "chain k h xs \<Longrightarrow> find_sender f prev h k =
     (let pre = takeWhile (\<lambda>s. \<not> (f = IPC_ANY \<or> pid (task_pool k s) = f)) xs;
          prev' = (if pre = [] then prev else Some (last pre))
      in Some (prev', find (\<lambda>s. f = IPC_ANY \<or> pid (task_pool k s) = f) xs))"
proof (induction xs arbitrary: h prev)
  case Nil then show ?case by (subst find_sender.simps) simp
next
  case (Cons x xs)
  then show ?case
    by (subst find_sender.simps) (auto simp: Let_def)
qed

lemma find_split:
  "find P xs = Some s \<Longrightarrow> \<exists>ys. xs = takeWhile (\<lambda>s. \<not> P s) xs @ s # ys"
  by (induction xs) (auto split: if_splits)

lemma ipc_invD:
  assumes "ipc_inv k Q"
  shows "chain k (ipc_sender_q (task_pool k d)) (Q d)" "distinct (Q d)"
    and "s \<in> set (Q d) \<Longrightarrow> ipc_state (task_pool k s) = IPC_STATE_SENDING \<and> state (task_pool k s) = TASK_BLOCKED \<and>
      ipc_partner (task_pool k s) = pid (task_pool k d) \<and>
      d < task_pool_count k \<and> alive k d \<and> s < task_pool_count k \<and> s \<noteq> d"
    and "ipc_state (task_pool k s) \<noteq> IPC_STATE_IDLE \<Longrightarrow> state (task_pool k s) = TASK_BLOCKED"
    and "ipc_state (task_pool k s) = IPC_STATE_SENDING \<Longrightarrow> \<exists>d. s \<in> set (Q d)"
    and "s \<in> set (Q d) \<Longrightarrow> s \<in> set (Q e) \<Longrightarrow> d = e"
  using assms unfolding ipc_inv_def
  by (blast, blast, simp, blast, blast, metis alive_def)

lemma ipc_inv_pids:
  assumes "ipc_inv k Q" "i < task_pool_count k" "j < task_pool_count k"
    "state (task_pool k i) \<noteq> TASK_DEAD" "state (task_pool k j) \<noteq> TASK_DEAD" "pid (task_pool k i) = pid (task_pool k j)"
  shows "i = j"
  using assms unfolding ipc_inv_def by metis

section \<open>Sending\<close>

lemma enqueue_sender_eq:
  "chain k (ipc_sender_q (task_pool k d)) xs \<Longrightarrow>
     enqueue_sender d cur k = Some (if xs = [] then upd_task d (\<lambda>s. s\<lparr>ipc_sender_q := Some cur\<rparr>) k
       else upd_task (last xs) (\<lambda>s. s\<lparr>ipc_sq_next := Some cur\<rparr>) k)"
  by (cases "ipc_sender_q (task_pool k d)"; cases xs)
    (auto simp: enqueue_sender_def queue_tail_chain[of k _ xs] simp del: last.simps)

text \<open>
  What a send that has to wait does to the pool: the sender is marked, and hung at the end
  of the queue.
\<close>

lemma ipc_inv_enqueue:
  fixes m :: ipc_msg
  assumes inv: "ipc_inv k Q" and d: "task_by_pid dst k = Some d" "alive k d"
    and cur: "cur < task_pool_count k" "alive k cur" "cur \<noteq> d" "ipc_state (task_pool k cur) = IPC_STATE_IDLE"
    and k1: "k1 = upd_task cur (\<lambda>s. s\<lparr>ipc_buf := m, ipc_state := IPC_STATE_SENDING, ipc_partner := dst,
       ipc_rc := 0, ipc_sq_next := None\<rparr>) k"
  shows "\<exists>k2. enqueue_sender d cur k1 = Some k2 \<and> ipc_inv (ipc_block cur k2) (Q(d := Q d @ [cur])) \<and>
    task_pool (ipc_block cur k2) cur = (task_pool k1 cur)\<lparr>state := TASK_BLOCKED\<rparr> \<and>
    current_task k2 = current_task k \<and> task_pool_count k2 = task_pool_count k \<and>
    (\<forall>t. t \<noteq> cur \<longrightarrow> state (task_pool k2 t) = state (task_pool k t) \<and> ipc_buf (task_pool k2 t) = ipc_buf (task_pool k t) \<and>
       ipc_rc (task_pool k2 t) = ipc_rc (task_pool k t))"
proof -
  note D = ipc_invD[OF inv]
  have notin: "cur \<notin> set (Q e)" for e using D(3)[of cur e] cur by auto
  have ch1: "chain k1 h (Q e) = chain k h (Q e)" for h e
    using notin[of e] by (intro chain_cong) (auto simp: k1)
  have qd: "ipc_sender_q (task_pool k1 e) = ipc_sender_q (task_pool k e)" for e by (simp add: k1)
  define k2 where "k2 = (if Q d = [] then upd_task d (\<lambda>s. s\<lparr>ipc_sender_q := Some cur\<rparr>) k1
       else upd_task (last (Q d)) (\<lambda>s. s\<lparr>ipc_sq_next := Some cur\<rparr>) k1)"
  have eq: "enqueue_sender d cur k1 = Some k2"
    unfolding k2_def by (rule enqueue_sender_eq) (simp add: ch1 qd D(1))
  have dd: "d < task_pool_count k" "pid (task_pool k d) = dst" using task_by_pid_Some[OF d(1)] by auto
  have lst: "Q d \<noteq> [] \<Longrightarrow> last (Q d) \<noteq> cur" using notin[of d] last_in_set[of "Q d"] by metis
  let ?k = "ipc_block cur k2" let ?Q = "Q(d := Q d @ [cur])"
  have fields: "pid (task_pool ?k t) = pid (task_pool k t)"
     "ipc_state (task_pool ?k t) = (if t = cur then IPC_STATE_SENDING else ipc_state (task_pool k t))"
     "ipc_partner (task_pool ?k t) = (if t = cur then dst else ipc_partner (task_pool k t))"
     "state (task_pool ?k t) = (if t = cur then TASK_BLOCKED else state (task_pool k t))"
     "ipc_sender_q (task_pool ?k t) = (if t = d \<and> Q d = [] then Some cur else ipc_sender_q (task_pool k t))"
     "ipc_sq_next (task_pool ?k t) = (if t = cur then None else if Q d \<noteq> [] \<and> t = last (Q d) then Some cur
        else ipc_sq_next (task_pool k t))" for t
    using lst by (auto simp: ipc_block_def k2_def k1)
  have cnt: "task_pool_count ?k = task_pool_count k" by (simp add: ipc_block_def k2_def k1)
  have al: "alive ?k t = alive k t" for t using cur(2) by (simp add: alive_def fields)
  have c: "chain ?k (ipc_sender_q (task_pool ?k e)) (?Q e)" for e
  proof (cases "e = d")
    case False
    have "chain ?k (ipc_sender_q (task_pool k e)) (Q e) = chain k (ipc_sender_q (task_pool k e)) (Q e)"
    proof (rule chain_cong)
      fix x assume x: "x \<in> set (Q e)"
      then have "x \<noteq> cur" using notin by auto
      moreover have "\<not> (Q d \<noteq> [] \<and> x = last (Q d))" using D(6)[OF x, of d] False by auto
      ultimately show "ipc_sq_next (task_pool ?k x) = ipc_sq_next (task_pool k x)" by (auto simp: fields)
    qed
    with False D(1)[of e] show ?thesis by (simp add: fields)
  next
    case True
    show ?thesis
    proof (cases "Q d = []")
      case T: True with True show ?thesis by (simp add: fields)
    next
      case F: False
      have bl: "x \<in> set (butlast (Q d)) \<Longrightarrow> x \<noteq> last (Q d)" for x
        using D(2)[of d] F by (metis append_butlast_last_id distinct_append disjoint_iff list.set_intros(1))
      have "chain ?k (ipc_sender_q (task_pool k d)) (Q d @ [cur])"
      proof (rule chain_replace[where k = k and zs = "[]"])
        show "chain k (ipc_sender_q (task_pool k d)) (Q d @ [])" using D(1)[of d] by simp
        show "chain ?k (ipc_sq_next (task_pool ?k (last (Q d)))) [cur]" using F lst by (simp add: fields)
        show "ipc_sq_next (task_pool ?k x) = ipc_sq_next (task_pool k x)" if "x \<in> set (butlast (Q d))" for x
          using bl[OF that] in_set_butlastD[OF that] notin[of d] by (auto simp: fields)
      qed (rule F)
      with True F show ?thesis by (simp add: fields)
    qed
  qed
  have "ipc_inv ?k ?Q"
    unfolding ipc_inv_def cnt
  proof (intro conjI allI)
    fix e show "chain ?k (ipc_sender_q (task_pool ?k e)) (?Q e)" by (rule c)
    show "distinct (?Q e)" using D(2) notin by auto
  next
    fix i j
    show "i < task_pool_count k \<longrightarrow> j < task_pool_count k \<longrightarrow> state (task_pool ?k i) \<noteq> TASK_DEAD \<longrightarrow>
        state (task_pool ?k j) \<noteq> TASK_DEAD \<longrightarrow> pid (task_pool ?k i) = pid (task_pool ?k j) \<longrightarrow> i = j"
      using ipc_inv_pids[OF inv, of i j] cur(2) by (auto simp: fields alive_def split: if_splits)
  next
    fix s show "ipc_state (task_pool ?k s) = IPC_STATE_SENDING \<longrightarrow> (\<exists>e. s \<in> set (?Q e))"
      using D(5)[of s] by (auto simp: fields)
  next
    fix s show "ipc_state (task_pool ?k s) \<noteq> IPC_STATE_IDLE \<longrightarrow> state (task_pool ?k s) = TASK_BLOCKED"
      using D(4)[of s] by (auto simp: fields)
  next
    fix e s
    show "s \<in> set (?Q e) \<longrightarrow> ipc_state (task_pool ?k s) = IPC_STATE_SENDING \<and>
        ipc_partner (task_pool ?k s) = pid (task_pool ?k e) \<and> e < task_pool_count k \<and> alive ?k e \<and> s < task_pool_count k \<and> s \<noteq> e"
      using D(3)[of s e] notin[of e] cur d dd by (auto simp: fields al)
  qed
  moreover have "task_pool ?k cur = (task_pool k1 cur)\<lparr>state := TASK_BLOCKED\<rparr>"
    using lst cur(3) by (auto simp: ipc_block_def k2_def)
  moreover have "current_task k2 = current_task k" "task_pool_count k2 = task_pool_count k"
    by (simp_all add: k2_def k1)
  moreover have "state (task_pool k2 t) = state (task_pool k t)" "ipc_buf (task_pool k2 t) = ipc_buf (task_pool k t)"
    "ipc_rc (task_pool k2 t) = ipc_rc (task_pool k t)" if "t \<noteq> cur" for t
    using that by (cases "Q d = []"; simp add: k2_def k1)+
  ultimately show ?thesis using eq by blast
qed

section \<open>Receiving\<close>

lemma chain_remove:
  assumes ch: "chain k h (pre @ s # post)" and dist: "distinct (pre @ s # post)"
    and h': "h' = (if pre = [] then ipc_sq_next (task_pool k s) else h)"
    and lst: "pre \<noteq> [] \<Longrightarrow> ipc_sq_next (task_pool k' (last pre)) = ipc_sq_next (task_pool k s)"
    and rest: "\<And>x. x \<in> set (pre @ post) \<Longrightarrow> pre = [] \<or> x \<noteq> last pre \<Longrightarrow>
      ipc_sq_next (task_pool k' x) = ipc_sq_next (task_pool k x)"
  shows "chain k' h' (pre @ post)"
proof -
  have post: "chain k (ipc_sq_next (task_pool k s)) post" using chain_mid[OF ch] by simp
  have lpost: "pre \<noteq> [] \<Longrightarrow> last pre \<notin> set post" using dist by (simp add: disjoint_iff)
  have post': "chain k' (ipc_sq_next (task_pool k s)) post"
    using chain_cong[of post k' k] post lpost rest by (auto simp: disjoint_iff)
  show ?thesis
  proof (cases "pre = []")
    case True with post' h' show ?thesis by simp
  next
    case False
    have bl: "x \<in> set (butlast pre) \<Longrightarrow> x \<noteq> last pre" for x
      using dist False by (metis append_butlast_last_id distinct_append disjoint_iff list.set_intros(1))
    have "chain k' h (pre @ post)"
    proof (rule chain_replace[OF ch False])
      show "chain k' (ipc_sq_next (task_pool k' (last pre))) post" using post' lst[OF False] by simp
      show "ipc_sq_next (task_pool k' x) = ipc_sq_next (task_pool k x)" if "x \<in> set (butlast pre)" for x
        using rest[of x] bl[OF that] in_set_butlastD[OF that] by simp
    qed
    with False h' show ?thesis by simp
  qed
qed

text \<open>Taking \<open>s\<close> out of the queue of \<open>d\<close>, whatever else happens to \<open>s\<close>.\<close>

lemma dequeue_inv:
  assumes inv: "ipc_inv k Q" and q: "Q d = pre @ s # post"
    and cnt: "task_pool_count k' = task_pool_count k"
    and same: "\<And>t. pid (task_pool k' t) = pid (task_pool k t)"
      "\<And>t. t \<noteq> s \<Longrightarrow> ipc_state (task_pool k' t) = ipc_state (task_pool k t)"
      "\<And>t. t \<noteq> s \<Longrightarrow> ipc_partner (task_pool k' t) = ipc_partner (task_pool k t)"
      "\<And>t. t \<noteq> s \<Longrightarrow> state (task_pool k' t) = state (task_pool k t)"
    and s: "ipc_state (task_pool k' s) = IPC_STATE_IDLE" "alive k' s"
    and hd: "\<And>t. ipc_sender_q (task_pool k' t) =
        (if t = d \<and> pre = [] then ipc_sq_next (task_pool k s) else ipc_sender_q (task_pool k t))"
    and nx: "\<And>t. ipc_sq_next (task_pool k' t) = (if t = s then None else if pre \<noteq> [] \<and> t = last pre
        then ipc_sq_next (task_pool k s) else ipc_sq_next (task_pool k t))"
  shows "ipc_inv k' (Q(d := pre @ post))"
proof -
  note D = ipc_invD[OF inv]
  have sb: "s \<noteq> d" "state (task_pool k s) = TASK_BLOCKED" using D(3)[of s d] q by auto
  have dist: "distinct (pre @ s # post)" using D(2)[of d] q by simp
  have lst: "pre \<noteq> [] \<Longrightarrow> last pre \<noteq> s \<and> last pre \<in> set (Q d)"
    using dist q by auto
  have al: "alive k' t = alive k t" for t using sb s same(4)[of t] by (cases "t = s") (auto simp: alive_def)
  let ?Q = "Q(d := pre @ post)"
  have sub: "set (?Q e) = set (Q e) - (if e = d then {s} else {})" for e using q dist by auto
  have c: "chain k' (ipc_sender_q (task_pool k' e)) (?Q e)" for e
  proof (cases "e = d")
    case True
    have "chain k' (ipc_sender_q (task_pool k' d)) (pre @ post)"
      by (rule chain_remove[OF _ dist]) (use D(1)[of d] q lst dist in \<open>auto simp: hd nx\<close>)
    with True show ?thesis by simp
  next
    case False
    have "chain k' (ipc_sender_q (task_pool k e)) (Q e) = chain k (ipc_sender_q (task_pool k e)) (Q e)"
    proof (rule chain_cong)
      fix x assume x: "x \<in> set (Q e)"
      have "x \<noteq> s" "\<not> (pre \<noteq> [] \<and> x = last pre)" using D(6)[OF x, of d] False q lst by auto
      then show "ipc_sq_next (task_pool k' x) = ipc_sq_next (task_pool k x)" by (auto simp: nx)
    qed
    with False D(1)[of e] show ?thesis by (simp add: hd)
  qed
  show ?thesis
    unfolding ipc_inv_def cnt
  proof (intro conjI allI)
    fix e show "chain k' (ipc_sender_q (task_pool k' e)) (?Q e)" by (rule c)
    show "distinct (?Q e)" using D(2) dist by auto
  next
    fix i j
    have "state (task_pool k' x) \<noteq> TASK_DEAD \<Longrightarrow> state (task_pool k x) \<noteq> TASK_DEAD" for x
      using sb same(4)[of x] by (cases "x = s") auto
    then show "i < task_pool_count k \<longrightarrow> j < task_pool_count k \<longrightarrow> state (task_pool k' i) \<noteq> TASK_DEAD \<longrightarrow>
        state (task_pool k' j) \<noteq> TASK_DEAD \<longrightarrow> pid (task_pool k' i) = pid (task_pool k' j) \<longrightarrow> i = j"
      using ipc_inv_pids[OF inv, of i j] by (auto simp: same(1))
  next
    fix x show "ipc_state (task_pool k' x) = IPC_STATE_SENDING \<longrightarrow> (\<exists>e. x \<in> set (?Q e))"
      using D(5)[of x] s same(2)[of x] unfolding sub by (cases "x = s") auto
  next
    fix x show "ipc_state (task_pool k' x) \<noteq> IPC_STATE_IDLE \<longrightarrow> state (task_pool k' x) = TASK_BLOCKED"
      using D(4)[of x] s same(2,4)[of x] by (cases "x = s") auto
  next
    fix e x
    have "x \<in> set (?Q e) \<Longrightarrow> x \<in> set (Q e) \<and> x \<noteq> s" using D(6)[of s d e] q unfolding sub by auto
    then show "x \<in> set (?Q e) \<longrightarrow> ipc_state (task_pool k' x) = IPC_STATE_SENDING \<and>
        ipc_partner (task_pool k' x) = pid (task_pool k' e) \<and> e < task_pool_count k \<and> alive k' e \<and> x < task_pool_count k \<and> x \<noteq> e"
      using D(3)[of x e] same(2,3)[of x] unfolding same(1) al by metis
  qed
qed

lemma take_sender_inv:
  assumes inv: "ipc_inv k Q" and q: "Q cur = pre @ s # post"
    and prev: "prev = (if pre = [] then None else Some (last pre))"
    and k': "k' = take_sender cur prev s k"
  shows "ipc_inv k' (Q(cur := pre @ post))"
    and "ipc_buf (task_pool k' cur) = ipc_buf (task_pool k s)"
    and "ipc_rc (task_pool k' s) = 0 \<and> state (task_pool k' s) = TASK_READY \<and> ipc_state (task_pool k' s) = IPC_STATE_IDLE"
    and "t \<noteq> s \<Longrightarrow> state (task_pool k' t) = state (task_pool k t)"
    and "t \<noteq> cur \<Longrightarrow> ipc_buf (task_pool k' t) = ipc_buf (task_pool k t)"
    and "current_task k' = current_task k" "task_pool_count k' = task_pool_count k"
proof -
  note D = ipc_invD[OF inv]
  have s: "s \<noteq> cur" "state (task_pool k s) = TASK_BLOCKED" using D(3)[of s cur] q by auto
  have dist: "distinct (pre @ s # post)" using D(2)[of cur] q by simp
  have lst: "pre \<noteq> [] \<Longrightarrow> last pre \<noteq> s \<and> last pre \<noteq> cur"
    using dist D(3)[of "last pre" cur] q by auto
  have fields: "pid (task_pool k' t) = pid (task_pool k t)"
     "ipc_state (task_pool k' t) = (if t = s then IPC_STATE_IDLE else ipc_state (task_pool k t))"
     "ipc_partner (task_pool k' t) = (if t = s then 0 else ipc_partner (task_pool k t))"
     "state (task_pool k' t) = (if t = s then TASK_READY else state (task_pool k t))"
     "ipc_rc (task_pool k' t) = (if t = s then 0 else ipc_rc (task_pool k t))"
     "ipc_buf (task_pool k' t) = (if t = cur then ipc_buf (task_pool k s) else ipc_buf (task_pool k t))"
     "ipc_sender_q (task_pool k' t) = (if t = cur \<and> pre = [] then ipc_sq_next (task_pool k s) else ipc_sender_q (task_pool k t))"
     "ipc_sq_next (task_pool k' t) = (if t = s then None else if pre \<noteq> [] \<and> t = last pre then ipc_sq_next (task_pool k s)
        else ipc_sq_next (task_pool k t))" for t
    using s lst by (auto simp: k' take_sender_def prev Let_def)
  show cnt: "task_pool_count k' = task_pool_count k" and "current_task k' = current_task k"
    by (auto simp: k' take_sender_def prev Let_def)
  show "ipc_buf (task_pool k' cur) = ipc_buf (task_pool k s)"
    "ipc_rc (task_pool k' s) = 0 \<and> state (task_pool k' s) = TASK_READY \<and> ipc_state (task_pool k' s) = IPC_STATE_IDLE"
    "t \<noteq> s \<Longrightarrow> state (task_pool k' t) = state (task_pool k t)"
    "t \<noteq> cur \<Longrightarrow> ipc_buf (task_pool k' t) = ipc_buf (task_pool k t)"
    by (auto simp: fields)
  show "ipc_inv k' (Q(cur := pre @ post))"
    by (rule dequeue_inv[OF inv q cnt]) (auto simp: fields alive_def)
qed

text \<open>Changes of one task that no queue sees.\<close>

lemma ipc_inv_local:
  assumes inv: "ipc_inv k Q"
    and f: "pid (f (task_pool k t)) = pid (task_pool k t)" "ipc_sender_q (f (task_pool k t)) = ipc_sender_q (task_pool k t)"
      "ipc_sq_next (f (task_pool k t)) = ipc_sq_next (task_pool k t)"
      "ipc_state (task_pool k t) \<noteq> IPC_STATE_SENDING" "ipc_state (f (task_pool k t)) \<noteq> IPC_STATE_SENDING"
      "ipc_state (f (task_pool k t)) \<noteq> IPC_STATE_IDLE \<Longrightarrow> state (f (task_pool k t)) = TASK_BLOCKED"
    and st: "Q t = [] \<or> state (f (task_pool k t)) \<notin> {TASK_DEAD, TASK_ZOMBIE}"
      "state (task_pool k t) = TASK_DEAD \<Longrightarrow> state (f (task_pool k t)) = TASK_DEAD"
  shows "ipc_inv (upd_task t f k) Q"
proof -
  note D = ipc_invD[OF inv]
  have ch: "chain (upd_task t f k) h xs = chain k h xs" for h xs by (rule chain_cong) (simp add: f)
  show ?thesis
    unfolding ipc_inv_def ch
  proof (intro conjI allI)
    fix e show "chain k (ipc_sender_q (task_pool (upd_task t f k) e)) (Q e)" using D(1)[of e] f by auto
    show "distinct (Q e)" by (rule D)
  next
    fix i j
    show "i < task_pool_count (upd_task t f k) \<longrightarrow> j < task_pool_count (upd_task t f k) \<longrightarrow>
        state (task_pool (upd_task t f k) i) \<noteq> TASK_DEAD \<longrightarrow> state (task_pool (upd_task t f k) j) \<noteq> TASK_DEAD \<longrightarrow>
        pid (task_pool (upd_task t f k) i) = pid (task_pool (upd_task t f k) j) \<longrightarrow> i = j"
      using ipc_inv_pids[OF inv, of i j] f st by auto
  next
    fix x show "ipc_state (task_pool (upd_task t f k) x) = IPC_STATE_SENDING \<longrightarrow> (\<exists>e. x \<in> set (Q e))"
      using D(5)[of x] f by auto
  next
    fix x show "ipc_state (task_pool (upd_task t f k) x) \<noteq> IPC_STATE_IDLE \<longrightarrow> state (task_pool (upd_task t f k) x) = TASK_BLOCKED"
      using D(4)[of x] f by auto
  next
    fix e x
    show "x \<in> set (Q e) \<longrightarrow> ipc_state (task_pool (upd_task t f k) x) = IPC_STATE_SENDING \<and>
        ipc_partner (task_pool (upd_task t f k) x) = pid (task_pool (upd_task t f k) e) \<and>
        e < task_pool_count (upd_task t f k) \<and> alive (upd_task t f k) e \<and> x < task_pool_count (upd_task t f k) \<and> x \<noteq> e"
      using D(3)[of x e] f st by (auto simp: alive_def)
  qed
qed

section \<open>Termination\<close>

definition woken :: "task \<Rightarrow> task" where
  "woken s = s\<lparr>ipc_sq_next := None, ipc_rc := IPC_ESRCH, ipc_state := IPC_STATE_IDLE,
     state := (if state s = TASK_BLOCKED then TASK_READY else state s)\<rparr>"

lemma wake_senders_chain:
  "chain k h xs \<Longrightarrow> distinct xs \<Longrightarrow>
     wake_senders h k = Some (k\<lparr>task_pool := \<lambda>t. if t \<in> set xs then woken (task_pool k t) else task_pool k t\<rparr>)"
proof (induction xs arbitrary: h k)
  case Nil then show ?case by (subst wake_senders.simps) simp
next
  case (Cons x xs)
  let ?k = "upd_task x woken k"
  have "chain ?k (ipc_sq_next (task_pool k x)) xs"
    using Cons.prems by (subst chain_cong[where k = k]) auto
  moreover have "(\<lambda>t. if t \<in> set xs then woken (task_pool ?k t) else task_pool ?k t) =
     (\<lambda>t. if t \<in> set (x # xs) then woken (task_pool k t) else task_pool k t)"
    using Cons.prems by (auto simp: fun_eq_iff)
  ultimately have "wake_senders (ipc_sq_next (task_pool k x)) ?k =
     Some (k\<lparr>task_pool := \<lambda>t. if t \<in> set (x # xs) then woken (task_pool k t) else task_pool k t\<rparr>)"
    using Cons.IH[of ?k] Cons.prems by (simp add: upd_task_def)
  with Cons.prems show ?case
    by (subst wake_senders.simps) (simp add: woken_def[abs_def])
qed

lemma unlink_sender_chain:
  "chain k p (pre @ tt # post) \<Longrightarrow> tt \<notin> set pre \<Longrightarrow>
     unlink_sender tt d prev p k = Some (
       if pre = [] then (case prev of
           Some y \<Rightarrow> upd_task y (\<lambda>s. s\<lparr>ipc_sq_next := ipc_sq_next (task_pool k tt)\<rparr>) k
         | None \<Rightarrow> upd_task d (\<lambda>s. s\<lparr>ipc_sender_q := ipc_sq_next (task_pool k tt)\<rparr>) k)
       else upd_task (last pre) (\<lambda>s. s\<lparr>ipc_sq_next := ipc_sq_next (task_pool k tt)\<rparr>) k)"
proof (induction pre arbitrary: p prev)
  case Nil then show ?case by (subst unlink_sender.simps) simp
next
  case (Cons x pre)
  then show ?case by (subst unlink_sender.simps) auto
qed

text \<open>The first half of the clean-up, which empties the queue of \<open>t\<close>.\<close>

lemma wake_senders_inv:
  assumes inv: "ipc_inv k Q"
    and k1: "k1 = upd_task t (\<lambda>s. s\<lparr>ipc_sender_q := None\<rparr>)
       (k\<lparr>task_pool := \<lambda>x. if x \<in> set (Q t) then woken (task_pool k x) else task_pool k x\<rparr>)"
  shows "ipc_inv k1 (Q(t := []))"
proof -
  note D = ipc_invD[OF inv]
  have t: "t \<notin> set (Q t)" using D(3)[of t t] by auto
  have fields: "pid (task_pool k1 x) = pid (task_pool k x)" "ipc_partner (task_pool k1 x) = ipc_partner (task_pool k x)"
    "ipc_state (task_pool k1 x) = (if x \<in> set (Q t) then IPC_STATE_IDLE else ipc_state (task_pool k x))"
    "state (task_pool k1 x) = (if x \<in> set (Q t) then TASK_READY else state (task_pool k x))"
    "ipc_sender_q (task_pool k1 x) = (if x = t then None else ipc_sender_q (task_pool k x))"
    "ipc_sq_next (task_pool k1 x) = (if x \<in> set (Q t) then None else ipc_sq_next (task_pool k x))" for x
    using t D(3)[of x t] by (auto simp: k1 woken_def)
  have cnt: "task_pool_count k1 = task_pool_count k" by (simp add: k1)
  have al: "alive k1 x = alive k x" for x using D(3)[of x t] by (auto simp: alive_def fields)
  have qe: "x \<in> set (Q e) \<Longrightarrow> e \<noteq> t \<Longrightarrow> x \<notin> set (Q t)" for x e using D(6)[of x e t] by auto
  show ?thesis
    unfolding ipc_inv_def cnt
  proof (intro conjI allI)
    fix e
    have "chain k1 h (Q e) = chain k h (Q e)" if "e \<noteq> t" for h
      using qe[OF _ that] by (intro chain_cong) (auto simp: fields)
    then show "chain k1 (ipc_sender_q (task_pool k1 e)) ((Q(t := [])) e)" using D(1)[of e] by (simp add: fields)
    show "distinct ((Q(t := [])) e)" using D(2) by simp
  next
    fix i j
    show "i < task_pool_count k \<longrightarrow> j < task_pool_count k \<longrightarrow> state (task_pool k1 i) \<noteq> TASK_DEAD \<longrightarrow>
        state (task_pool k1 j) \<noteq> TASK_DEAD \<longrightarrow> pid (task_pool k1 i) = pid (task_pool k1 j) \<longrightarrow> i = j"
      using ipc_inv_pids[OF inv, of i j] D(3)[of i t] D(3)[of j t] by (auto simp: fields split: if_splits)
  next
    fix x show "ipc_state (task_pool k1 x) = IPC_STATE_SENDING \<longrightarrow> (\<exists>e. x \<in> set ((Q(t := [])) e))"
      using D(5)[of x] by (auto simp: fields)
  next
    fix x show "ipc_state (task_pool k1 x) \<noteq> IPC_STATE_IDLE \<longrightarrow> state (task_pool k1 x) = TASK_BLOCKED"
      using D(4)[of x] by (auto simp: fields)
  next
    fix e x
    show "x \<in> set ((Q(t := [])) e) \<longrightarrow> ipc_state (task_pool k1 x) = IPC_STATE_SENDING \<and>
        ipc_partner (task_pool k1 x) = pid (task_pool k1 e) \<and> e < task_pool_count k \<and> alive k1 e \<and> x < task_pool_count k \<and> x \<noteq> e"
      using D(3)[of x e] qe[of x e] by (auto simp: fields al)
  qed
qed

lemma ipc_inv_unqueued:
  assumes inv: "ipc_inv k Q" and nq: "\<And>e. t \<notin> set (Q e)" and "ipc_state (task_pool k t) \<noteq> IPC_STATE_SENDING"
  shows "ipc_inv (upd_task t (\<lambda>s. s\<lparr>ipc_state := IPC_STATE_IDLE, ipc_sq_next := None\<rparr>) k) Q" (is "ipc_inv ?k Q")
proof -
  note D = ipc_invD[OF inv]
  have ch: "chain ?k h (Q e) = chain k h (Q e)" for h e
    using nq[of e] by (intro chain_cong) auto
  show ?thesis
    unfolding ipc_inv_def ch
  proof (intro conjI allI)
    fix e show "chain k (ipc_sender_q (task_pool ?k e)) (Q e)" using D(1)[of e] by auto
    show "distinct (Q e)" by (rule D)
  next
    fix i j
    show "i < task_pool_count ?k \<longrightarrow> j < task_pool_count ?k \<longrightarrow> state (task_pool ?k i) \<noteq> TASK_DEAD \<longrightarrow>
        state (task_pool ?k j) \<noteq> TASK_DEAD \<longrightarrow> pid (task_pool ?k i) = pid (task_pool ?k j) \<longrightarrow> i = j"
      using ipc_inv_pids[OF inv, of i j] by auto
  next
    fix x show "ipc_state (task_pool ?k x) = IPC_STATE_SENDING \<longrightarrow> (\<exists>e. x \<in> set (Q e))"
      using D(5)[of x] by auto
  next
    fix x show "ipc_state (task_pool ?k x) \<noteq> IPC_STATE_IDLE \<longrightarrow> state (task_pool ?k x) = TASK_BLOCKED"
      using D(4)[of x] by auto
  next
    fix e x
    show "x \<in> set (Q e) \<longrightarrow> ipc_state (task_pool ?k x) = IPC_STATE_SENDING \<and>
        ipc_partner (task_pool ?k x) = pid (task_pool ?k e) \<and>
        e < task_pool_count ?k \<and> alive ?k e \<and> x < task_pool_count ?k \<and> x \<noteq> e"
      using D(3)[of x e] nq[of e] by (auto simp: alive_def)
  qed
qed

text \<open>The senders of \<open>t\<close> are released, and \<open>t\<close> leaves the queue it was in.\<close>

definition without :: "nat \<Rightarrow> (nat \<Rightarrow> nat list) \<Rightarrow> nat \<Rightarrow> nat list" where
  "without t Q = (\<lambda>d. if d = t then [] else filter (\<lambda>s. s \<noteq> t) (Q d))"

lemma ipc_task_cleanup_inv:
  assumes inv: "ipc_inv k Q"
  shows "\<exists>k'. ipc_task_cleanup t k = Some k' \<and> ipc_inv k' (without t Q) \<and>
    current_task k' = current_task k \<and> task_pool_count k' = task_pool_count k \<and>
    ipc_state (task_pool k' t) = IPC_STATE_IDLE \<and> kernel_dir k' = kernel_dir k \<and> s_handlers k' = s_handlers k \<and>
    tasking_active k' = tasking_active k \<and> in_schedule k' = in_schedule k \<and>
    (\<forall>x. state (task_pool k' x) = (if x \<in> set (Q t) then TASK_READY else state (task_pool k x)) \<and>
       ipc_rc (task_pool k' x) = (if x \<in> set (Q t) then IPC_ESRCH else ipc_rc (task_pool k x)) \<and>
       ipc_buf (task_pool k' x) = ipc_buf (task_pool k x) \<and> pid (task_pool k' x) = pid (task_pool k x) \<and>
       unkillable (task_pool k' x) = unkillable (task_pool k x) \<and> next_task (task_pool k' x) = next_task (task_pool k x) \<and>
       sig_pending (task_pool k' x) = sig_pending (task_pool k x) \<and> sig_mask (task_pool k' x) = sig_mask (task_pool k x))"
proof -
  note D = ipc_invD[OF inv]
  have t: "t \<notin> set (Q t)" using D(3)[of t t] by auto
  define k0 where "k0 = k\<lparr>task_pool := \<lambda>x. if x \<in> set (Q t) then woken (task_pool k x) else task_pool k x\<rparr>"
  define k1 where "k1 = upd_task t (\<lambda>s. s\<lparr>ipc_sender_q := None\<rparr>) k0"
  have ws: "wake_senders (ipc_sender_q (task_pool k t)) k = Some k0"
    unfolding k0_def by (rule wake_senders_chain[OF D(1,2)])
  have inv1: "ipc_inv k1 (Q(t := []))" by (rule wake_senders_inv[OF inv]) (simp add: k1_def k0_def)
  note D1 = ipc_invD[OF inv1]
  have f1: "state (task_pool k1 x) = (if x \<in> set (Q t) then TASK_READY else state (task_pool k x))"
    "ipc_rc (task_pool k1 x) = (if x \<in> set (Q t) then IPC_ESRCH else ipc_rc (task_pool k x))"
    "ipc_buf (task_pool k1 x) = ipc_buf (task_pool k x)" "pid (task_pool k1 x) = pid (task_pool k x)"
    "unkillable (task_pool k1 x) = unkillable (task_pool k x)" "next_task (task_pool k1 x) = next_task (task_pool k x)"
    "sig_pending (task_pool k1 x) = sig_pending (task_pool k x)" "sig_mask (task_pool k1 x) = sig_mask (task_pool k x)"
    "current_task k1 = current_task k" "task_pool_count k1 = task_pool_count k" "kernel_dir k1 = kernel_dir k"
    "s_handlers k1 = s_handlers k" "tasking_active k1 = tasking_active k" "in_schedule k1 = in_schedule k" for x
    using t D(3)[of x t] by (auto simp: k1_def k0_def woken_def)
  let ?fin = "upd_task t (\<lambda>s. s\<lparr>ipc_state := IPC_STATE_IDLE, ipc_sq_next := None\<rparr>)"
  show ?thesis
  proof (cases "ipc_state (task_pool k1 t) = IPC_STATE_SENDING")
    case False
    have nq: "t \<notin> set ((Q(t := [])) e)" for e using D1(3)[of t e] False by auto
    have Q': "without t Q = Q(t := [])"
    proof
      fix e show "without t Q e = (Q(t := [])) e"
        using nq[of e] by (auto simp: without_def filter_id_conv)
    qed
    have "ipc_inv (?fin k1) (Q(t := []))"
      using ipc_inv_unqueued[OF inv1 nq False] .
    moreover have "ipc_task_cleanup t k = Some (?fin k1)"
      using False ws by (simp add: ipc_task_cleanup_def k1_def Let_def)
    ultimately show ?thesis using Q' by (intro exI[of _ "?fin k1"]) (simp add: f1)
  next
    case True
    then obtain d where td: "t \<in> set (Q d)" "d \<noteq> t" using D1(5)[OF True] by (auto split: if_splits)
    have dq: "alive k1 d" "d < task_pool_count k1" "ipc_partner (task_pool k1 t) = pid (task_pool k1 d)"
      using D1(3)[of t d] td by auto
    obtain pre post where q: "Q d = pre @ t # post" "t \<notin> set pre" using split_list_first[OF td(1)] by auto
    then have q1: "(Q(t := [])) d = pre @ t # post" using td by simp
    have tp: "t \<notin> set post" using D(2)[of d] q by auto
    have bp: "task_by_pid (ipc_partner (task_pool k1 t)) k1 = Some d"
      using task_by_pid_unique[OF inv1 dq(2)] dq(1,3) by (simp add: alive_def)
    define k2 where "k2 = (if pre = [] then upd_task d (\<lambda>s. s\<lparr>ipc_sender_q := ipc_sq_next (task_pool k1 t)\<rparr>) k1
       else upd_task (last pre) (\<lambda>s. s\<lparr>ipc_sq_next := ipc_sq_next (task_pool k1 t)\<rparr>) k1)"
    have un: "unlink_sender t d None (ipc_sender_q (task_pool k1 d)) k1 = Some k2"
      using unlink_sender_chain[OF _ q(2), of k1 "ipc_sender_q (task_pool k1 d)" post d None] D1(1)[of d] q1
      by (simp add: k2_def)
    have lst: "pre \<noteq> [] \<Longrightarrow> last pre \<noteq> t" using q(2) last_in_set by metis
    define k3 where "k3 = ?fin k2"
    have k3_st: "ipc_state (task_pool k3 t) = IPC_STATE_IDLE" by (simp add: k3_def)
    have f2: "state (task_pool k3 x) = state (task_pool k1 x)" "ipc_rc (task_pool k3 x) = ipc_rc (task_pool k1 x)"
      "ipc_buf (task_pool k3 x) = ipc_buf (task_pool k1 x)" "pid (task_pool k3 x) = pid (task_pool k1 x)"
      "unkillable (task_pool k3 x) = unkillable (task_pool k1 x)" "next_task (task_pool k3 x) = next_task (task_pool k1 x)"
      "sig_pending (task_pool k3 x) = sig_pending (task_pool k1 x)" "sig_mask (task_pool k3 x) = sig_mask (task_pool k1 x)"
      "current_task k3 = current_task k1" "task_pool_count k3 = task_pool_count k1" "kernel_dir k3 = kernel_dir k1"
      "s_handlers k3 = s_handlers k1" "tasking_active k3 = tasking_active k1" "in_schedule k3 = in_schedule k1" for x
      by (simp_all add: k2_def k3_def)
    have "ipc_inv k3 ((Q(t := []))(d := pre @ post))"
    proof (rule dequeue_inv[OF inv1 q1])
      show "alive k3 t" using D1(3)[of t d] td unfolding alive_def f2 by simp
      show "ipc_sender_q (task_pool k3 x) =
          (if x = d \<and> pre = [] then ipc_sq_next (task_pool k1 t) else ipc_sender_q (task_pool k1 x))" for x
        using td(2) by (auto simp: k2_def k3_def)
      show "ipc_sq_next (task_pool k3 x) = (if x = t then None else if pre \<noteq> [] \<and> x = last pre
          then ipc_sq_next (task_pool k1 t) else ipc_sq_next (task_pool k1 x))" for x
        using lst by (auto simp: k2_def k3_def)
    qed (auto simp: k2_def k3_def)
    moreover have "(Q(t := []))(d := pre @ post) = without t Q"
    proof
      fix e
      consider "e = t" | "e = d" | "e \<noteq> t" "e \<noteq> d" by blast
      then show "((Q(t := []))(d := pre @ post)) e = without t Q e"
      proof cases
        case 1 with td show ?thesis by (simp add: without_def)
      next
        case 2
        have "filter (\<lambda>s. s \<noteq> t) pre = pre" "filter (\<lambda>s. s \<noteq> t) post = post"
          using q(2) tp by (auto simp: filter_id_conv)
        with 2 td q show ?thesis by (simp add: without_def)
      next
        case 3
        then have "t \<notin> set (Q e)" using D(6)[of t d e] td by blast
        then have "filter (\<lambda>s. s \<noteq> t) (Q e) = Q e" by (auto simp: filter_id_conv)
        with 3 show ?thesis by (simp add: without_def)
      qed
    qed
    moreover have "ipc_task_cleanup t k = Some k3"
      by (simp add: ipc_task_cleanup_def k1_def[symmetric] Let_def True ws un bp k3_def del: task_pool_upd_task)
    ultimately show ?thesis by (intro exI[of _ k3]) (simp add: f1 f2 k3_st)
  qed
qed

lemma task_terminate_inv:
  assumes inv: "ipc_inv k Q" and t: "state (task_pool k t) \<noteq> TASK_DEAD"
  shows "\<exists>k'. task_terminate t st k = Some k' \<and> ipc_inv k' (without t Q) \<and> \<not> alive k' t \<and>
    current_task k' = current_task k \<and> task_pool_count k' = task_pool_count k \<and>
    (\<forall>x. x \<noteq> t \<longrightarrow> state (task_pool k' x) = (if x \<in> set (Q t) then TASK_READY else state (task_pool k x))) \<and>
    (\<forall>x. ipc_rc (task_pool k' x) = (if x \<in> set (Q t) then IPC_ESRCH else ipc_rc (task_pool k x)) \<and>
       ipc_buf (task_pool k' x) = ipc_buf (task_pool k x) \<and> pid (task_pool k' x) = pid (task_pool k x) \<and>
       unkillable (task_pool k' x) = unkillable (task_pool k x) \<and> next_task (task_pool k' x) = next_task (task_pool k x) \<and>
       sig_pending (task_pool k' x) = sig_pending (task_pool k x) \<and> sig_mask (task_pool k' x) = sig_mask (task_pool k x)) \<and>
    exit_status (task_pool k' t) = st \<and> s_handlers k' = s_handlers k \<and>
    tasking_active k' = tasking_active k \<and> in_schedule k' = in_schedule k"
proof -
  let ?k0 = "k\<lparr>exit_log := exit_log k @ [Keyboard_release t, Vtty_exited t]\<rparr>"
  have ch: "chain ?k0 h xs = chain k h xs" for h xs by (rule chain_cong) simp
  have "ipc_inv ?k0 Q" using inv unfolding ipc_inv_def alive_def ch by simp
  from ipc_task_cleanup_inv[OF this, of t] obtain k1 where
    k1: "ipc_task_cleanup t ?k0 = Some k1" "ipc_inv k1 (without t Q)" and
    c: "current_task k1 = current_task k" "task_pool_count k1 = task_pool_count k"
      "ipc_state (task_pool k1 t) = IPC_STATE_IDLE" "s_handlers k1 = s_handlers k"
      "tasking_active k1 = tasking_active k" "in_schedule k1 = in_schedule k" and
    f: "\<And>x. state (task_pool k1 x) = (if x \<in> set (Q t) then TASK_READY else state (task_pool k x))"
      "\<And>x. ipc_rc (task_pool k1 x) = (if x \<in> set (Q t) then IPC_ESRCH else ipc_rc (task_pool k x))"
      "\<And>x. ipc_buf (task_pool k1 x) = ipc_buf (task_pool k x)" "\<And>x. pid (task_pool k1 x) = pid (task_pool k x)"
      "\<And>x. unkillable (task_pool k1 x) = unkillable (task_pool k x)" "\<And>x. next_task (task_pool k1 x) = next_task (task_pool k x)"
      "\<And>x. sig_pending (task_pool k1 x) = sig_pending (task_pool k x)" "\<And>x. sig_mask (task_pool k1 x) = sig_mask (task_pool k x)"
    by auto
  define k2 where "k2 = k1\<lparr>exit_log := exit_log k1 @ [Surface_release t]\<rparr>"
  have ch2: "chain k2 h xs = chain k1 h xs" for h xs by (rule chain_cong) (simp add: k2_def)
  have inv2: "ipc_inv k2 (without t Q)" using k1(2) unfolding ipc_inv_def alive_def ch2 by (simp add: k2_def)
  obtain z where z: "task_terminate t st k = Some (upd_task t (\<lambda>s. s\<lparr>state := (if z then TASK_ZOMBIE else TASK_DEAD)\<rparr>)
      (upd_task t (\<lambda>s. s\<lparr>exit_status := st\<rparr>) k2))"
    using k1(1) by (simp add: task_terminate_def Let_def k2_def[symmetric])
  let ?f = "\<lambda>s. s\<lparr>exit_status := st, state := (if z then TASK_ZOMBIE else TASK_DEAD)\<rparr>"
  have z': "task_terminate t st k = Some (upd_task t ?f k2)"
    using z by (simp add: upd_task_def)
  have "t \<notin> set (Q t)" using ipc_invD(3)[OF inv, of t t] by auto
  then have nd: "state (task_pool k2 t) \<noteq> TASK_DEAD" using t by (simp add: k2_def f)
  have "ipc_inv (upd_task t ?f k2) (without t Q)"
    by (rule ipc_inv_local[OF inv2]) (use nd c in \<open>auto simp: k2_def without_def\<close>)
  with z' show ?thesis
    by (intro exI[of _ "upd_task t ?f k2"]) (auto simp: alive_def k2_def c f)
qed

end
