(* ===== verification/Ipc_Run.thy ===== *)
theory Ipc_Run
  imports Ipc_Facts
begin

text \<open>
  The message operations as transitions, and the runs of the whole system: any interleaving
  of sends, receives, resumptions, scheduling points, signals and exits, each of them atomic
  because the code masks interrupts around it.
\<close>

section \<open>What each operation does to the queues\<close>

definition running :: "kern \<Rightarrow> bool" where
  "running k \<longleftrightarrow> current_task k < task_pool_count k \<and> state (task_pool k (current_task k)) = TASK_RUNNING"

definition receiving :: "kern \<Rightarrow> nat \<Rightarrow> int \<Rightarrow> bool" where
  "receiving k d p \<longleftrightarrow> ipc_state (task_pool k d) = IPC_STATE_RECVING \<and>
     (ipc_partner (task_pool k d) = IPC_ANY \<or> ipc_partner (task_pool k d) = p)"

definition matches :: "kern \<Rightarrow> int \<Rightarrow> nat \<Rightarrow> bool" where
  "matches k f s \<longleftrightarrow> f = IPC_ANY \<or> pid (task_pool k s) = f"

lemma running_idle:
  assumes "ipc_inv k Q" "running k"
  shows "ipc_state (task_pool k (current_task k)) = IPC_STATE_IDLE" "alive k (current_task k)"
  using ipc_invD(4)[OF assms(1), of "current_task k"] assms(2) by (auto simp: running_def alive_def)

text \<open>The case of \<open>ipc_send\<close> that applies, with its effect.\<close>

lemma ipc_send_cases:
  fixes k dst m
  defines "cur \<equiv> current_task k" and "m' \<equiv> m\<lparr>m_src := pid (task_pool k (current_task k))\<rparr>"
  assumes inv: "ipc_inv k Q" and run: "running k"
  shows "(dst = pid (task_pool k cur) \<and> ipc_send dst (Some m) k = Some (Ret IPC_EINVAL None, k)) \<or>
    (dst \<noteq> pid (task_pool k cur) \<and> (\<forall>d. task_by_pid dst k = Some d \<longrightarrow> \<not> alive k d) \<and>
       ipc_send dst (Some m) k = Some (Ret IPC_ESRCH None, upd_task cur (\<lambda>s. s\<lparr>ipc_buf := m'\<rparr>) k)) \<or>
    (\<exists>d. d \<noteq> cur \<and> task_by_pid dst k = Some d \<and> alive k d \<and> receiving k d (pid (task_pool k cur)) \<and>
       ipc_send dst (Some m) k = Some (Ret 0 None,
         upd_task d (\<lambda>s. wake (s\<lparr>ipc_buf := m', ipc_state := IPC_STATE_IDLE, ipc_partner := 0, ipc_rc := 0\<rparr>))
           (upd_task cur (\<lambda>s. s\<lparr>ipc_buf := m'\<rparr>) k))) \<or>
    (\<exists>d k2. d \<noteq> cur \<and> task_by_pid dst k = Some d \<and> alive k d \<and> \<not> receiving k d (pid (task_pool k cur)) \<and>
       enqueue_sender d cur (upd_task cur (\<lambda>s. s\<lparr>ipc_buf := m', ipc_state := IPC_STATE_SENDING, ipc_partner := dst,
         ipc_rc := 0, ipc_sq_next := None\<rparr>) k) = Some k2 \<and>
       ipc_send dst (Some m) k = Some (Block, ipc_block cur k2))"
proof -
  let ?k1 = "upd_task cur (\<lambda>s. s\<lparr>ipc_buf := m'\<rparr>) k"
  have bp: "task_by_pid dst ?k1 = task_by_pid dst k"
    unfolding task_by_pid_def by (rule find_cong) auto
  have stg: "upd_task cur (\<lambda>s. s\<lparr>ipc_buf := m\<lparr>m_src := pid s\<rparr>\<rparr>) k = ?k1"
    by (simp add: upd_task_def m'_def cur_def)
  have kk: "upd_task cur (\<lambda>s. s\<lparr>ipc_state := IPC_STATE_SENDING, ipc_partner := dst, ipc_rc := 0, ipc_sq_next := None\<rparr>) ?k1 =
     upd_task cur (\<lambda>s. s\<lparr>ipc_buf := m', ipc_state := IPC_STATE_SENDING, ipc_partner := dst, ipc_rc := 0, ipc_sq_next := None\<rparr>) k"
    by (simp add: upd_task_def)
  consider "dst = pid (task_pool k cur)" | "dst \<noteq> pid (task_pool k cur)" "\<forall>d. task_by_pid dst k = Some d \<longrightarrow> \<not> alive k d"
    | d where "dst \<noteq> pid (task_pool k cur)" "task_by_pid dst k = Some d" "alive k d" by blast
  then show ?thesis
  proof cases
    case 1 then show ?thesis by (simp add: ipc_send_def cur_def)
  next
    case 2
    then have "ipc_send dst (Some m) k = Some (Ret IPC_ESRCH None, ?k1)"
      using bp by (auto simp: ipc_send_def Let_def cur_def m'_def alive_def upd_task_def split: option.splits)
    with 2 show ?thesis by blast
  next
    case 3
    have dc: "d \<noteq> cur" using 3 task_by_pid_Some[OF 3(2)] by auto
    show ?thesis
    proof (cases "receiving k d (pid (task_pool k cur))")
      case True
      have "ipc_send dst (Some m) k = Some (Ret 0 None,
         upd_task d (\<lambda>s. wake (s\<lparr>ipc_buf := m', ipc_state := IPC_STATE_IDLE, ipc_partner := 0, ipc_rc := 0\<rparr>)) ?k1)"
        using 3 True bp dc by (auto simp: ipc_send_def Let_def cur_def m'_def alive_def receiving_def upd_task_def)
      with 3 dc True show ?thesis by blast
    next
      case False
      obtain k2 where k2: "enqueue_sender d cur (upd_task cur (\<lambda>s. s\<lparr>ipc_buf := m', ipc_state := IPC_STATE_SENDING,
          ipc_partner := dst, ipc_rc := 0, ipc_sq_next := None\<rparr>) k) = Some k2"
        using ipc_inv_enqueue[OF inv 3(2,3) _ _ not_sym[OF dc] _ refl] run running_idle[OF inv run] dc
        unfolding cur_def[symmetric] running_def by blast
      have "ipc_send dst (Some m) k = Some (Block, ipc_block cur k2)"
        using 3 False dc k2
        unfolding ipc_send_def Let_def cur_def[symmetric] option.case stg bp kk
        by (auto simp: alive_def receiving_def)
      with 3 dc False k2 show ?thesis by blast
    qed
  qed
qed

lemma stage_inv:
  "ipc_inv k Q \<Longrightarrow> running k \<Longrightarrow> ipc_inv (upd_task (current_task k) (\<lambda>s. s\<lparr>ipc_buf := m\<rparr>) k) Q"
  by (rule ipc_inv_local) (use running_idle[of k Q] in \<open>auto simp: running_def\<close>)

lemma handover_inv:
  assumes inv: "ipc_inv k Q" and d: "alive k d" "receiving k d p"
  shows "ipc_inv (upd_task d (\<lambda>s. wake (s\<lparr>ipc_buf := m, ipc_state := IPC_STATE_IDLE, ipc_partner := 0, ipc_rc := 0\<rparr>)) k) Q"
  by (rule ipc_inv_local[OF inv]) (use d in \<open>auto simp: receiving_def alive_def\<close>)

text \<open>
  A send never fails to finish its part; only a send that has to wait changes the queues, by
  one entry at the end.
\<close>

lemma ipc_send_inv:
  assumes inv: "ipc_inv k Q" and run: "running k" and res: "ipc_send dst msg k = Some (r, k')"
  shows "\<exists>d. ipc_inv k' (if r = Block then Q(d := Q d @ [current_task k]) else Q) \<and>
    (\<forall>t. alive k' t = alive k t) \<and> (\<forall>t. ipc_state (task_pool k t) = IPC_STATE_SENDING \<longrightarrow> ipc_buf (task_pool k' t) = ipc_buf (task_pool k t)) \<and>
    current_task k' = current_task k \<and> task_pool_count k' = task_pool_count k \<and>
    (\<forall>t. next_task (task_pool k' t) = next_task (task_pool k t))"
proof (cases msg)
  case None with res inv show ?thesis by (auto simp: ipc_send_def)
next
  case (Some m)
  let ?cur = "current_task k" and ?m = "m\<lparr>m_src := pid (task_pool k (current_task k))\<rparr>"
  let ?k1 = "upd_task ?cur (\<lambda>s. s\<lparr>ipc_buf := ?m\<rparr>) k"
  note idle = running_idle[OF inv run]
  note I1 = stage_inv[OF inv run, of ?m]
  from ipc_send_cases[OF inv run, of dst m] show ?thesis
  proof (elim disjE exE conjE, goal_cases)
    case 1 with res Some inv show ?thesis by auto
  next
    case 2
    with res Some have "r = Ret IPC_ESRCH None" "k' = ?k1" by auto
    with I1 idle show ?thesis by (auto simp: alive_def)
  next
    case (3 d)
    have d: "alive ?k1 d" "receiving ?k1 d (pid (task_pool k ?cur))" using 3 by (auto simp: alive_def receiving_def)
    from 3 res Some have k': "r = Ret 0 None"
      "k' = upd_task d (\<lambda>s. wake (s\<lparr>ipc_buf := ?m, ipc_state := IPC_STATE_IDLE, ipc_partner := 0, ipc_rc := 0\<rparr>)) ?k1" by auto
    have "ipc_inv k' Q" unfolding k' by (rule handover_inv[OF I1 d])
    with k' 3 idle show ?thesis
      by (auto simp: alive_def receiving_def wake_def)
  next
    case (4 d k2)
    obtain k3 where k3: "enqueue_sender d ?cur (upd_task ?cur (\<lambda>s. s\<lparr>ipc_buf := ?m, ipc_state := IPC_STATE_SENDING, ipc_partner := dst,
         ipc_rc := 0, ipc_sq_next := None\<rparr>) k) = Some k3"
      and e: "ipc_inv (ipc_block ?cur k3) (Q(d := Q d @ [?cur]))" "current_task k3 = ?cur" "task_pool_count k3 = task_pool_count k"
        "\<And>t. t \<noteq> ?cur \<Longrightarrow> state (task_pool k3 t) = state (task_pool k t) \<and> ipc_buf (task_pool k3 t) = ipc_buf (task_pool k t)"
      using ipc_inv_enqueue[OF inv 4(2,3) _ _ not_sym[OF 4(1)] _ refl] run idle unfolding running_def by metis
    have eq: "r = Block" "k' = ipc_block ?cur k3" "k3 = k2" using 4 res Some k3 by auto
    have nx: "next_task (task_pool k3 t) = next_task (task_pool k t)" for t
      using k3 by (auto simp: enqueue_sender_def split: option.splits if_splits)
    have al: "alive k' t = alive k t" for t using e(4)[of t] idle by (cases "t = ?cur") (auto simp: eq ipc_block_def alive_def)
    have bf: "ipc_buf (task_pool k' t) = ipc_buf (task_pool k t)" if "ipc_state (task_pool k t) = IPC_STATE_SENDING" for t
      using e(4)[of t] idle that by (cases "t = ?cur") (auto simp: eq ipc_block_def)
    show ?thesis using e al bf nx by (intro exI[of _ d]) (simp add: eq ipc_block_def)
  qed
qed

text \<open>
  A receive (\<open>nb\<close>: the polling variant) takes the first matching sender of the queue.
\<close>

definition receive :: "bool \<Rightarrow> int \<Rightarrow> bool \<Rightarrow> kern \<Rightarrow> (ipc_result \<times> kern) option" where
  "receive nb f out k = (if nb then ipc_nbrecv f out k else ipc_recv f out k)"

lemma receive_inv:
  assumes inv: "ipc_inv k Q" and run: "running k"
  defines "cur \<equiv> current_task k"
  shows "\<exists>r k'. receive nb f True k = Some (r, k') \<and>
    current_task k' = current_task k \<and> task_pool_count k' = task_pool_count k \<and>
    (\<forall>t. next_task (task_pool k' t) = next_task (task_pool k t)) \<and> (\<forall>t. alive k' t = alive k t) \<and>
    (\<forall>t. t \<noteq> cur \<longrightarrow> ipc_buf (task_pool k' t) = ipc_buf (task_pool k t)) \<and>
    (case find (matches k f) (Q cur) of
       Some s \<Rightarrow> ipc_inv k' (Q(cur := remove1 s (Q cur))) \<and> r = Ret 0 (Some (ipc_buf (task_pool k s))) \<and>
         ipc_rc (task_pool k' s) = 0 \<and> state (task_pool k' s) = TASK_READY
     | None \<Rightarrow> ipc_inv k' Q \<and> r = (if nb then Ret IPC_EAGAIN None else Block) \<and>
         state (task_pool k' cur) = (if nb then TASK_RUNNING else TASK_BLOCKED) \<and>
         (\<not> nb \<longrightarrow> ipc_state (task_pool k' cur) = IPC_STATE_RECVING \<and> ipc_partner (task_pool k' cur) = f))"
proof -
  note D = ipc_invD[OF inv]
  note idle = running_idle[OF inv run]
  have m: "(\<lambda>s. f = IPC_ANY \<or> pid (task_pool k s) = f) = matches k f" by (auto simp: matches_def)
  let ?pre = "takeWhile (\<lambda>s. \<not> matches k f s) (Q cur)"
  let ?prev = "if ?pre = [] then None else Some (last ?pre)"
  have fs: "find_sender f None (ipc_sender_q (task_pool k cur)) k = Some (?prev, find (matches k f) (Q cur))"
    using find_sender_chain[OF D(1)[of cur], of f None] by (simp add: Let_def m matches_def)
  show ?thesis
  proof (cases "find (matches k f) (Q cur)")
    case None
    have "ipc_inv (ipc_block cur (upd_task cur (\<lambda>s. s\<lparr>ipc_state := IPC_STATE_RECVING, ipc_partner := f, ipc_rc := 0\<rparr>) k)) Q"
      using ipc_inv_local[OF inv, of "\<lambda>s. s\<lparr>ipc_state := IPC_STATE_RECVING, ipc_partner := f, ipc_rc := 0, state := TASK_BLOCKED\<rparr>" cur]
        idle run by (simp add: cur_def ipc_block_def upd_task_def running_def)
    with None fs inv idle run show ?thesis
      by (auto simp: receive_def ipc_nbrecv_def ipc_recv_def Let_def cur_def[symmetric] ipc_block_def alive_def running_def)
  next
    case (Some s)
    from find_split[OF Some] obtain post where q: "Q cur = ?pre @ s # post" by auto
    have "distinct (Q cur)" by (rule D)
    then have "s \<notin> set ?pre" using q by (metis disjoint_iff distinct_append list.set_intros(1))
    then have rm: "remove1 s (Q cur) = ?pre @ post" by (subst q) (simp add: remove1_append)
    define k' where "k' = take_sender cur ?prev s k"
    note T = take_sender_inv[OF inv q refl k'_def]
    have nx: "next_task (task_pool k' t) = next_task (task_pool k t)" for t
      by (simp add: k'_def take_sender_def Let_def wake_def)
    have "state (task_pool k s) = TASK_BLOCKED" using D(3)[of s cur] q by (metis in_set_conv_decomp)
    then have al: "alive k' t = alive k t" for t using T(3) T(4)[of t] by (cases "t = s") (auto simp: alive_def)
    have "receive nb f True k = Some (Ret 0 (Some (ipc_buf (task_pool k' cur))), k')"
      using fs Some by (simp add: receive_def ipc_nbrecv_def ipc_recv_def Let_def cur_def[symmetric] k'_def)
    with T Some nx al rm show ?thesis by auto
  qed
qed

section \<open>Signals, exits and the scheduler\<close>

text \<open>
  What they do to the queues: a task that dies loses its queue and leaves the queue it is in;
  nothing else moves.
\<close>

definition prune :: "kern \<Rightarrow> (nat \<Rightarrow> nat list) \<Rightarrow> nat \<Rightarrow> nat list" where
  "prune k Q = (\<lambda>d. if alive k d then filter (alive k) (Q d) else [])"

definition evolve :: "kern \<Rightarrow> (nat \<Rightarrow> nat list) \<Rightarrow> kern \<Rightarrow> bool" where
  "evolve k Q k' \<longleftrightarrow> ipc_inv k' (prune k' Q) \<and> (\<forall>x. alive k' x \<longrightarrow> alive k x) \<and>
     (\<forall>x. ipc_buf (task_pool k' x) = ipc_buf (task_pool k x) \<and> next_task (task_pool k' x) = next_task (task_pool k x)) \<and>
     task_pool_count k' = task_pool_count k"

lemma prune_id:
  assumes "ipc_inv k Q"
  shows "prune k Q = Q"
proof
  fix d
  have "s \<in> set (Q d) \<Longrightarrow> alive k s \<and> alive k d" for s
    using ipc_invD(3)[OF assms, of s d] by (auto simp: alive_def)
  then show "prune k Q d = Q d"
    by (cases "Q d") (auto simp: prune_def filter_id_conv)
qed

lemma prune_prune: "(\<And>x. alive k2 x \<Longrightarrow> alive k1 x) \<Longrightarrow> prune k2 (prune k1 Q) = prune k2 Q"
  by (auto simp: prune_def fun_eq_iff intro!: filter_cong)

lemma evolve_trans: "evolve k Q k1 \<Longrightarrow> evolve k1 (prune k1 Q) k2 \<Longrightarrow> evolve k Q k2"
  unfolding evolve_def using prune_prune[of k2 k1 Q] by auto

lemma evolve_refl: "ipc_inv k Q \<Longrightarrow> evolve k Q k"
  by (simp add: evolve_def prune_id)

lemma evolve_inv: "evolve k Q k' \<Longrightarrow> ipc_inv k' (prune k' Q)"
  by (simp add: evolve_def)

text \<open>Changes outside the fields of the rendezvous.\<close>

lemma ipc_inv_other:
  assumes "ipc_inv k Q"
    and "\<And>t. pid (task_pool k' t) = pid (task_pool k t)" "\<And>t. ipc_sender_q (task_pool k' t) = ipc_sender_q (task_pool k t)"
      "\<And>t. ipc_sq_next (task_pool k' t) = ipc_sq_next (task_pool k t)" "\<And>t. ipc_state (task_pool k' t) = ipc_state (task_pool k t)"
      "\<And>t. ipc_partner (task_pool k' t) = ipc_partner (task_pool k t)" "\<And>t. state (task_pool k' t) = state (task_pool k t)"
      "task_pool_count k' = task_pool_count k"
  shows "ipc_inv k' Q"
proof -
  have "chain k' h xs = chain k h xs" for h xs by (rule chain_cong) (simp add: assms)
  then show ?thesis using assms(1) unfolding ipc_inv_def alive_def by (simp add: assms)
qed

lemma evolve_same_alive:
  assumes "ipc_inv k' Q" "\<And>x. alive k' x = alive k x" "task_pool_count k' = task_pool_count k"
    "\<And>x. ipc_buf (task_pool k' x) = ipc_buf (task_pool k x)" "\<And>x. next_task (task_pool k' x) = next_task (task_pool k x)"
  shows "evolve k Q k'"
  using assms by (simp add: evolve_def prune_id[OF assms(1)])

lemma cleared_inv:
  assumes inv: "ipc_inv k Q" and "cleared t del k k'"
  shows "ipc_inv k' Q" "evolve k Q k'" "state (task_pool k' x) = state (task_pool k x)" "current_task k' = current_task k"
proof -
  obtain m where k': "k' = upd_task t (\<lambda>s. s\<lparr>sig_pending := m\<rparr>) k" using assms(2) by (auto simp: cleared_def)
  show st: "state (task_pool k' x) = state (task_pool k x)" for x by (simp add: k')
  show "current_task k' = current_task k" by (simp add: k')
  show i: "ipc_inv k' Q" by (rule ipc_inv_other[OF inv]) (simp_all add: k')
  show "evolve k Q k'" by (rule evolve_same_alive[OF i]) (simp_all add: k' alive_def)
qed

lemma task_terminate_evolve:
  assumes inv: "ipc_inv k Q" and t: "state (task_pool k t) \<noteq> TASK_DEAD" and res: "task_terminate t st k = Some k'"
  shows "evolve k Q k' \<and> current_task k' = current_task k"
proof -
  note D = ipc_invD[OF inv]
  from task_terminate_inv[OF inv t, of st] res have
    i: "ipc_inv k' (without t Q)" and dead: "\<not> alive k' t"
    and cnt: "task_pool_count k' = task_pool_count k" "current_task k' = current_task k"
    and st: "\<And>x. x \<noteq> t \<Longrightarrow> state (task_pool k' x) = (if x \<in> set (Q t) then TASK_READY else state (task_pool k x))"
    and f: "\<And>x. ipc_buf (task_pool k' x) = ipc_buf (task_pool k x) \<and> next_task (task_pool k' x) = next_task (task_pool k x)"
    by auto
  have al: "alive k' x \<longleftrightarrow> alive k x \<and> x \<noteq> t" for x
    using st[of x] dead D(3)[of x t] by (cases "x = t") (auto simp: alive_def)
  have "without t Q = prune k' (without t Q)" by (rule prune_id[OF i, symmetric])
  also have "prune k' (without t Q) = prune k' Q"
    using al by (auto simp: prune_def without_def fun_eq_iff intro!: filter_cong)
  finally show ?thesis using i al cnt f by (simp add: evolve_def)
qed

lemma sig_deliver_evolve:
  assumes inv: "ipc_inv k Q" and res: "sig_deliver t k = Some k'"
  shows "evolve k Q k' \<and> current_task k' = current_task k"
proof (cases "state (task_pool k t) = TASK_DEAD \<or> sig_pending (task_pool k t) AND NOT (sig_mask (task_pool k t)) = 0")
  case True
  then have "k' = k" using res by (auto simp: sig_deliver_def Let_def split: if_splits)
  then show ?thesis by (simp add: evolve_refl[OF inv])
next
  case False
  then have "deliver_from t (sig_pending (task_pool k t) AND NOT (sig_mask (task_pool k t))) 1 k = Some k'"
    using res by (auto simp: sig_deliver_def Let_def)
  from deliver_from_outcome[OF this order_refl] show ?thesis
  proof (elim disjE exE conjE)
    fix k1 sg assume k1: "cleared t (sig_pending (task_pool k t) AND NOT (sig_mask (task_pool k t))) k k1"
      "task_terminate t (128 + int sg) k1 = Some k'"
    note C = cleared_inv[OF inv k1(1)]
    have "evolve k1 Q k' \<and> current_task k' = current_task k1"
      by (rule task_terminate_evolve[OF C(1) _ k1(2)]) (use False C(3) in simp)
    with C evolve_trans prune_id show ?thesis by metis
  qed (use cleared_inv(2,4)[OF inv] in blast)
qed

lemma pick_next_evolve:
  "pick_next n nxt k = Some (nx, k') \<Longrightarrow> ipc_inv k Q \<Longrightarrow> evolve k Q k' \<and> current_task k' = current_task k"
proof (induction n arbitrary: nxt k Q)
  case 0 then show ?case by (simp add: evolve_refl)
next
  case (Suc n)
  show ?case
  proof (cases "state (task_pool k nxt) = TASK_READY")
    case False with Suc show ?thesis by simp
  next
    case True
    then obtain k1 where k1: "sig_deliver nxt k = Some k1"
      "(if state (task_pool k1 nxt) = TASK_READY then Some (nxt, k1) else pick_next n (next_task (task_pool k1 nxt)) k1) = Some (nx, k')"
      using Suc.prems(1) by (auto simp: bind_eq_Some_conv)
    have E: "evolve k Q k1" "current_task k1 = current_task k"
      using sig_deliver_evolve[OF Suc.prems(2) k1(1)] by auto
    have "evolve k1 (prune k1 Q) k' \<and> current_task k' = current_task k1"
      using k1(2) Suc.IH[OF _ evolve_inv[OF E(1)]] evolve_refl[OF evolve_inv[OF E(1)]] by (auto split: if_splits)
    with E evolve_trans show ?thesis by metis
  qed
qed

lemma pick_next_bound:
  "pick_next n nxt k = Some (nx, k') \<Longrightarrow> ipc_inv k Q \<Longrightarrow> nxt < task_pool_count k \<Longrightarrow>
     (\<forall>t < task_pool_count k. next_task (task_pool k t) < task_pool_count k) \<Longrightarrow> nx < task_pool_count k"
proof (induction n arbitrary: nxt k Q)
  case (Suc n)
  show ?case
  proof (cases "state (task_pool k nxt) = TASK_READY")
    case False with Suc show ?thesis by simp
  next
    case True
    then obtain k1 where k1: "sig_deliver nxt k = Some k1"
      "(if state (task_pool k1 nxt) = TASK_READY then Some (nxt, k1) else pick_next n (next_task (task_pool k1 nxt)) k1) = Some (nx, k')"
      using Suc.prems(1) by (auto simp: bind_eq_Some_conv)
    have E: "evolve k Q k1" using sig_deliver_evolve[OF Suc.prems(2) k1(1)] by simp
    then have "task_pool_count k1 = task_pool_count k" "\<And>x. next_task (task_pool k1 x) = next_task (task_pool k x)"
      by (simp_all add: evolve_def)
    then show ?thesis using k1(2) Suc.IH[OF _ evolve_inv[OF E]] Suc.prems(3,4) by (auto split: if_splits)
  qed
qed simp

definition ring_ok :: "kern \<Rightarrow> bool" where
  "ring_ok k \<longleftrightarrow> current_task k < task_pool_count k \<and> (\<forall>t < task_pool_count k. next_task (task_pool k t) < task_pool_count k)"

lemma in_schedule_inv: "ipc_inv (k\<lparr>in_schedule := b\<rparr>) Q = ipc_inv k Q"
proof -
  have "chain (k\<lparr>in_schedule := b\<rparr>) h xs = chain k h xs" for h xs by (rule chain_cong) simp
  then show ?thesis by (simp add: ipc_inv_def alive_def)
qed

lemma alive_flag [simp]: "alive (k\<lparr>in_schedule := b\<rparr>) = alive k"
  by (simp add: alive_def fun_eq_iff)

lemma evolve_flag [simp]: "evolve (k\<lparr>in_schedule := b\<rparr>) Q k' = evolve k Q k'" "evolve k Q (k'\<lparr>in_schedule := b\<rparr>) = evolve k Q k'"
  by (simp_all add: evolve_def prune_def in_schedule_inv cong: if_cong)

text \<open>The switch itself: only the states of two tasks that take part in no rendezvous change.\<close>

lemma switch_evolve:
  assumes inv: "ipc_inv k Q" and nxt: "state (task_pool k nxt) = TASK_READY"
    and k': "task_pool k' = task_pool (upd_task nxt (\<lambda>s. s\<lparr>state := TASK_RUNNING, last_sched_tick := now\<rparr>)
       (upd_task prev (\<lambda>s. if state s = TASK_RUNNING then s\<lparr>state := TASK_READY\<rparr> else s) k))"
      "task_pool_count k' = task_pool_count k"
  shows "evolve k Q k'"
proof -
  let ?k1 = "upd_task prev (\<lambda>s. if state s = TASK_RUNNING then s\<lparr>state := TASK_READY\<rparr> else s) k"
  let ?k2 = "upd_task nxt (\<lambda>s. s\<lparr>state := TASK_RUNNING, last_sched_tick := now\<rparr>) ?k1"
  have idle: "state (task_pool k t) \<noteq> TASK_BLOCKED \<Longrightarrow> ipc_state (task_pool k t) = IPC_STATE_IDLE" for t
    using ipc_invD(4)[OF inv, of t] by auto
  have i1: "ipc_inv ?k1 Q"
  proof (cases "state (task_pool k prev) = TASK_RUNNING")
    case True
    then show ?thesis using idle[of prev] by (intro ipc_inv_local[OF inv]) auto
  next
    case False
    then have "?k1 = k" by (simp add: upd_task_def)
    with inv show ?thesis by simp
  qed
  have "ipc_inv ?k2 Q"
    by (rule ipc_inv_local[OF i1]) (use idle[of nxt] nxt in \<open>auto split: if_splits\<close>)
  then have "ipc_inv k' Q" by (rule ipc_inv_other) (simp_all add: k')
  then show ?thesis by (rule evolve_same_alive) (use nxt in \<open>auto simp: k' alive_def\<close>)
qed

lemma schedule_evolve:
  assumes inv: "ipc_inv k Q" and ring: "ring_ok k" and res: "schedule now k = Some k'"
  shows "evolve k Q k' \<and> ring_ok k'"
proof (cases "\<not> tasking_active k \<or> task_pool_count k < 2 \<or> in_schedule k")
  case True
  with res have "k' = k" by (auto simp: schedule_def split: if_splits)
  with inv ring show ?thesis by (simp add: evolve_refl)
next
  case False
  let ?k0 = "k\<lparr>in_schedule := True\<rparr>"
  obtain k1 nxt k2 where
    k1: "(if state (task_pool k (current_task k)) = TASK_RUNNING then sig_deliver (current_task k) ?k0 else Some ?k0) = Some k1" and
    k2: "pick_next (task_pool_count k1) (next_task (task_pool k1 (current_task k1))) k1 = Some (nxt, k2)" and
    k': "(if nxt = current_task k2 \<or> state (task_pool k2 nxt) \<noteq> TASK_READY then Some (k2\<lparr>in_schedule := False\<rparr>)
        else Some (switch_to nxt now k2)) = Some k'"
    using res False by (auto simp: schedule_def Let_def bind_eq_Some_conv cong: if_cong)
  have i0: "ipc_inv ?k0 Q" using inv by (simp add: in_schedule_inv)
  have e1: "evolve k Q k1" "current_task k1 = current_task k"
    using k1 sig_deliver_evolve[OF i0] evolve_refl[OF i0] by (auto split: if_splits)
  note i1 = evolve_inv[OF e1(1)]
  have e2: "evolve k1 (prune k1 Q) k2" "current_task k2 = current_task k1" using pick_next_evolve[OF k2 i1] by auto
  then have e12: "evolve k Q k2" using evolve_trans[OF e1(1)] by simp
  note i2 = evolve_inv[OF e12]
  have ring1: "ring_ok k1" using ring e1 by (simp add: ring_ok_def evolve_def)
  have nx: "nxt < task_pool_count k1"
    by (rule pick_next_bound[OF k2 i1]) (use ring1 in \<open>auto simp: ring_ok_def\<close>)
  show ?thesis
  proof (cases "nxt = current_task k2 \<or> state (task_pool k2 nxt) \<noteq> TASK_READY")
    case True
    then have k'2: "k' = k2\<lparr>in_schedule := False\<rparr>" using k' by auto
    have "ring_ok k2" using ring e12 e1(2) e2(2) by (simp add: ring_ok_def evolve_def)
    then show ?thesis using e12 by (simp add: k'2 ring_ok_def)
  next
    case F: False
    then have kp: "task_pool k' = task_pool (upd_task nxt (\<lambda>s. s\<lparr>state := TASK_RUNNING, last_sched_tick := now\<rparr>)
       (upd_task (current_task k2) (\<lambda>s. if state s = TASK_RUNNING then s\<lparr>state := TASK_READY\<rparr> else s) k2))"
      "task_pool_count k' = task_pool_count k2" "current_task k' = nxt"
      using k' by (auto simp: switch_to_def Let_def upd_task_def)
    have "evolve k2 (prune k2 Q) k'" by (rule switch_evolve[OF i2 _ kp(1,2)]) (use F in simp)
    then have "evolve k Q k'" by (rule evolve_trans[OF e12])
    then show ?thesis using nx kp(3) e1(1) ring by (auto simp: ring_ok_def evolve_def)
  qed
qed

section \<open>Runs\<close>

datatype act = Send int "ipc_msg option" | Receive bool int | Resume_send | Resume_recv | Sched u32 | Kill int int | Exit

text \<open>Every act but the scheduling point is done by the running task.\<close>

definition enabled :: "act \<Rightarrow> kern \<Rightarrow> bool" where
  "enabled a k = (case a of Sched _ \<Rightarrow> True | _ \<Rightarrow> running k)"

definition perform :: "act \<Rightarrow> kern \<Rightarrow> (ipc_result \<times> kern) option" where
  "perform a k = (case a of
     Send dst msg \<Rightarrow> ipc_send dst msg k
   | Receive nb f \<Rightarrow> receive nb f True k
   | Resume_send \<Rightarrow> Some (ipc_send_resume k)
   | Resume_recv \<Rightarrow> Some (ipc_recv_resume k)
   | Sched now \<Rightarrow> map_option (Pair (Ret 0 None)) (task_yield now k)
   | Kill p signo \<Rightarrow> let (rc, k') = sig_send_pid p signo k in Some (Ret rc None, k')
   | Exit \<Rightarrow> map_option (Pair (Ret 0 None)) (task_exit k))"

definition pos :: "nat \<Rightarrow> nat list \<Rightarrow> nat" where
  "pos s xs = length (takeWhile (\<lambda>x. x \<noteq> s) xs)"

text \<open>An act by which \<open>d\<close> asks for a message from anyone.\<close>

definition asks :: "nat \<Rightarrow> act \<Rightarrow> kern \<Rightarrow> bool" where
  "asks d a k \<longleftrightarrow> current_task k = d \<and> (\<exists>nb. a = Receive nb IPC_ANY)"

lemma pos_filter: "P s \<Longrightarrow> pos s (filter P xs) \<le> pos s xs"
  by (induction xs) (auto simp: pos_def)

lemma pos_append: "s \<in> set xs \<Longrightarrow> pos s (xs @ ys) = pos s xs"
  by (induction xs) (auto simp: pos_def)

lemma pos_remove1: "x \<noteq> s \<Longrightarrow> pos s (remove1 x xs) \<le> pos s xs"
  by (induction xs) (auto simp: pos_def)

text \<open>One act, seen by a sender \<open>s\<close> queued on \<open>d\<close>.\<close>

definition progress :: "act \<Rightarrow> kern \<Rightarrow> ipc_result \<Rightarrow> kern \<Rightarrow> (nat \<Rightarrow> nat list) \<Rightarrow> (nat \<Rightarrow> nat list) \<Rightarrow> bool" where
  "progress a k r k' Q Q' \<longleftrightarrow> (\<forall>d s. s \<in> set (Q d) \<and> alive k' s \<and> alive k' d \<longrightarrow>
     current_task k = d \<and> r = Ret 0 (Some (ipc_buf (task_pool k s))) \<and> (\<exists>nb f. a = Receive nb f) \<or>
     s \<in> set (Q' d) \<and> pos s (Q' d) \<le> pos s (Q d) - of_bool (asks d a k) \<and> (asks d a k \<longrightarrow> 0 < pos s (Q d)) \<and>
     ipc_buf (task_pool k' s) = ipc_buf (task_pool k s))"

lemma evolve_progress:
  assumes "evolve k Q k'" "\<And>d. \<not> asks d a k"
  shows "progress a k r k' Q (prune k' Q)"
  using assms pos_filter by (auto simp: progress_def evolve_def prune_def)

lemma send_progress:
  assumes inv: "ipc_inv k Q" and ring: "ring_ok k" and run: "running k" and res: "ipc_send dst msg k = Some (r, k')"
  shows "\<exists>Q'. ipc_inv k' Q' \<and> ring_ok k' \<and> (\<forall>x. alive k' x \<longrightarrow> alive k x) \<and> progress (Send dst msg) k r k' Q Q'"
proof -
  from ipc_send_inv[OF inv run res] obtain d where
    S: "ipc_inv k' (if r = Block then Q(d := Q d @ [current_task k]) else Q)" "\<And>t. alive k' t = alive k t"
      "\<And>t. ipc_state (task_pool k t) = IPC_STATE_SENDING \<Longrightarrow> ipc_buf (task_pool k' t) = ipc_buf (task_pool k t)"
      "current_task k' = current_task k" "task_pool_count k' = task_pool_count k"
      "\<And>t. next_task (task_pool k' t) = next_task (task_pool k t)" by blast
  have "progress (Send dst msg) k r k' Q (if r = Block then Q(d := Q d @ [current_task k]) else Q)"
    using S(3) ipc_invD(3)[OF inv] by (auto simp: progress_def asks_def pos_append)
  with S ring show ?thesis by (auto simp: ring_ok_def)
qed

lemma receive_progress:
  assumes inv: "ipc_inv k Q" and ring: "ring_ok k" and run: "running k" and res: "receive nb f True k = Some (r, k')"
  shows "\<exists>Q'. ipc_inv k' Q' \<and> ring_ok k' \<and> (\<forall>x. alive k' x \<longrightarrow> alive k x) \<and> progress (Receive nb f) k r k' Q Q'"
proof -
  let ?cur = "current_task k"
  note D = ipc_invD[OF inv]
  from receive_inv[OF inv run, of nb f] res have
    R: "current_task k' = ?cur" "task_pool_count k' = task_pool_count k"
      "\<And>t. next_task (task_pool k' t) = next_task (task_pool k t)" "\<And>t. alive k' t = alive k t"
      "\<And>t. t \<noteq> ?cur \<Longrightarrow> ipc_buf (task_pool k' t) = ipc_buf (task_pool k t)"
    and C: "case find (matches k f) (Q ?cur) of
       Some s \<Rightarrow> ipc_inv k' (Q(?cur := remove1 s (Q ?cur))) \<and> r = Ret 0 (Some (ipc_buf (task_pool k s)))
     | None \<Rightarrow> ipc_inv k' Q"
    by (auto split: option.splits)
  have nc: "s \<in> set (Q d) \<Longrightarrow> s \<noteq> ?cur" for s d
    using D(3)[of s d] run by (auto simp: running_def)
  have "\<exists>Q'. ipc_inv k' Q' \<and> progress (Receive nb f) k r k' Q Q'"
  proof (cases "find (matches k f) (Q ?cur)")
    case None
    have "f = IPC_ANY \<Longrightarrow> Q ?cur = []" using None by (cases "Q ?cur") (auto simp: matches_def)
    then have "progress (Receive nb f) k r k' Q Q"
      using R(5) nc by (auto simp: progress_def asks_def)
    with C None show ?thesis by auto
  next
    case (Some x)
    let ?Q = "Q(?cur := remove1 x (Q ?cur))"
    have hd: "f = IPC_ANY \<Longrightarrow> \<exists>ys. Q ?cur = x # ys" using Some by (cases "Q ?cur") (auto simp: matches_def)
    have "progress (Receive nb f) k r k' Q ?Q"
      unfolding progress_def
    proof (intro allI impI)
      fix d s assume s: "s \<in> set (Q d) \<and> alive k' s \<and> alive k' d"
      show "?cur = d \<and> r = Ret 0 (Some (ipc_buf (task_pool k s))) \<and> (\<exists>nb' f'. Receive nb f = Receive nb' f') \<or>
        s \<in> set (?Q d) \<and> pos s (?Q d) \<le> pos s (Q d) - of_bool (asks d (Receive nb f) k) \<and>
        (asks d (Receive nb f) k \<longrightarrow> 0 < pos s (Q d)) \<and> ipc_buf (task_pool k' s) = ipc_buf (task_pool k s)"
      proof (cases "d = ?cur \<and> s = x")
        case True with C Some show ?thesis by auto
      next
        case False
        have buf: "ipc_buf (task_pool k' s) = ipc_buf (task_pool k s)" using R(5) nc s by blast
        show ?thesis
        proof (cases "d = ?cur")
          case d: True
          then have "s \<noteq> x" using False by simp
          then have "s \<in> set (?Q d)" "pos s (?Q d) \<le> pos s (Q d)" using s d pos_remove1[of x s] by auto
          moreover have "asks d (Receive nb f) k \<Longrightarrow> pos s (?Q d) < pos s (Q d)"
            using hd d \<open>s \<noteq> x\<close> by (auto simp: asks_def pos_def)
          ultimately show ?thesis using buf by (cases "asks d (Receive nb f) k") auto
        next
          case d: False
          then show ?thesis using s buf by (auto simp: asks_def)
        qed
      qed
    qed
    with C Some show ?thesis by auto
  qed
  with R ring show ?thesis by (auto simp: ring_ok_def)
qed

lemma reap_zombies_evolve:
  "ipc_inv k Q \<Longrightarrow> ipc_inv (reap_zombies n me k) Q \<and> (\<forall>x. alive (reap_zombies n me k) x = alive k x \<and>
     ipc_buf (task_pool (reap_zombies n me k) x) = ipc_buf (task_pool k x) \<and>
     next_task (task_pool (reap_zombies n me k) x) = next_task (task_pool k x) \<and>
     (state (task_pool k x) \<noteq> TASK_ZOMBIE \<longrightarrow> task_pool (reap_zombies n me k) x = task_pool k x)) \<and>
     task_pool_count (reap_zombies n me k) = task_pool_count k \<and> current_task (reap_zombies n me k) = current_task k"
proof (induction n)
  case (Suc n)
  let ?k = "reap_zombies n me k"
  have ih: "ipc_inv ?k Q" using Suc by simp
  have i: "ipc_inv (upd_task n (\<lambda>s. s\<lparr>state := TASK_DEAD\<rparr>) ?k) Q" if z: "state (task_pool ?k n) = TASK_ZOMBIE"
  proof (rule ipc_inv_local[OF ih])
    have "Q n = []" using ipc_invD(3)[OF ih, of _ n] z by (cases "Q n") (auto simp: alive_def)
    then show "Q n = [] \<or> state ((task_pool ?k n)\<lparr>state := TASK_DEAD\<rparr>) \<notin> {TASK_DEAD, TASK_ZOMBIE}" by simp
  qed (use z ipc_invD(4)[OF ih, of n] in auto)
  have a: "alive (upd_task n (\<lambda>s. s\<lparr>state := TASK_DEAD\<rparr>) ?k) x = alive ?k x"
    if "state (task_pool ?k n) = TASK_ZOMBIE" for x using that by (simp add: alive_def)
  have z0: "state (task_pool ?k n) = TASK_ZOMBIE \<Longrightarrow> state (task_pool k n) = TASK_ZOMBIE" using Suc by metis
  show ?case
  proof (cases "1 \<le> n \<and> state (task_pool ?k n) = TASK_ZOMBIE \<and> parent_pid (task_pool ?k n) = me")
    case True
    then have "reap_zombies (Suc n) me k = upd_task n (\<lambda>s. s\<lparr>state := TASK_DEAD\<rparr>) ?k" by (simp add: Let_def)
    moreover have "state (task_pool k n) = TASK_ZOMBIE" using z0 True by simp
    ultimately show ?thesis using Suc True i a by auto
  next
    case False
    then have "reap_zombies (Suc n) me k = ?k" by (auto simp: Let_def)
    with Suc show ?thesis by simp
  qed
qed simp

lemma task_exit_evolve:
  assumes inv: "ipc_inv k Q" and run: "running k" and res: "task_exit k = Some k'"
  shows "evolve k Q k' \<and> current_task k' = current_task k"
proof -
  let ?k = "reap_zombies (task_pool_count k) (pid (task_pool k (current_task k))) k"
  note Z = reap_zombies_evolve[OF inv, of "task_pool_count k" "pid (task_pool k (current_task k))"]
  have "evolve k Q ?k" using Z by (intro evolve_same_alive) auto
  moreover have "evolve ?k Q k' \<and> current_task k' = current_task ?k"
    using res Z run by (intro task_terminate_evolve) (auto simp: task_exit_def Let_def running_def)
  ultimately show ?thesis using Z evolve_trans prune_id by metis
qed

lemma unrelated_evolve:
  assumes inv: "ipc_inv k Q" and ring: "ring_ok k"
    and "\<And>t. pid (task_pool k' t) = pid (task_pool k t)" "\<And>t. ipc_sender_q (task_pool k' t) = ipc_sender_q (task_pool k t)"
      "\<And>t. ipc_sq_next (task_pool k' t) = ipc_sq_next (task_pool k t)" "\<And>t. ipc_state (task_pool k' t) = ipc_state (task_pool k t)"
      "\<And>t. ipc_partner (task_pool k' t) = ipc_partner (task_pool k t)" "\<And>t. state (task_pool k' t) = state (task_pool k t)"
      "\<And>t. ipc_buf (task_pool k' t) = ipc_buf (task_pool k t)" "\<And>t. next_task (task_pool k' t) = next_task (task_pool k t)"
      "task_pool_count k' = task_pool_count k" "current_task k' = current_task k"
  shows "evolve k Q k' \<and> ring_ok k'"
proof
  have "ipc_inv k' Q" by (rule ipc_inv_other[OF inv]) (simp_all add: assms)
  then show "evolve k Q k'" by (rule evolve_same_alive) (simp_all add: assms alive_def)
  show "ring_ok k'" using ring by (simp add: ring_ok_def assms)
qed

lemma act_progress:
  assumes inv: "ipc_inv k Q" and ring: "ring_ok k" and en: "enabled a k" and res: "perform a k = Some (r, k')"
  shows "\<exists>Q'. ipc_inv k' Q' \<and> ring_ok k' \<and> (\<forall>x. alive k' x \<longrightarrow> alive k x) \<and> progress a k r k' Q Q'"
proof -
  have by_evolve: ?thesis if "evolve k Q k'" "ring_ok k'" "\<And>d. \<not> asks d a k"
    using evolve_inv[OF that(1)] evolve_progress[OF that(1,3)] that(1,2) by (auto simp: evolve_def)
  show ?thesis
  proof (cases a)
    case (Send dst msg) with send_progress[OF inv ring] en res show ?thesis by (simp add: enabled_def perform_def)
  next
    case (Receive nb f) with receive_progress[OF inv ring] en res show ?thesis by (simp add: enabled_def perform_def)
  next
    case (Sched now)
    with res have "evolve k Q k' \<and> ring_ok k'"
      using schedule_evolve[OF inv ring] inv ring evolve_refl by (auto simp: perform_def task_yield_def split: if_splits)
    with Sched by_evolve show ?thesis by (auto simp: asks_def)
  next
    case Exit
    with res en have "evolve k Q k' \<and> current_task k' = current_task k"
      using task_exit_evolve[OF inv] by (auto simp: perform_def enabled_def)
    with ring Exit by_evolve show ?thesis by (auto simp: asks_def ring_ok_def evolve_def)
  next
    case Resume_send
    have "current_task k = t \<Longrightarrow> ipc_state (task_pool k t) = IPC_STATE_IDLE" for t
      using running_idle[OF inv] en Resume_send by (simp add: enabled_def)
    then have "evolve k Q k' \<and> ring_ok k'"
      using res Resume_send by (intro unrelated_evolve[OF inv ring]) (auto simp: perform_def ipc_send_resume_def Let_def)
    with Resume_send by_evolve show ?thesis by (auto simp: asks_def)
  next
    case Resume_recv
    have "current_task k = t \<Longrightarrow> ipc_state (task_pool k t) = IPC_STATE_IDLE" for t
      using running_idle[OF inv] en Resume_recv by (simp add: enabled_def)
    then have "evolve k Q k' \<and> ring_ok k'"
      using res Resume_recv by (intro unrelated_evolve[OF inv ring]) (auto simp: perform_def ipc_recv_resume_def Let_def)
    with Resume_recv by_evolve show ?thesis by (auto simp: asks_def)
  next
    case (Kill p signo)
    have k': "k' = snd (sig_send_pid p signo k)" using res Kill by (auto simp: perform_def split: prod.splits)
    have "evolve k Q k' \<and> ring_ok k'"
      by (intro unrelated_evolve[OF inv ring]) (auto simp: k' sig_send_pid_def sig_send_def split: option.splits)
    with Kill by_evolve show ?thesis by (auto simp: asks_def)
  qed
qed

end
