(* ===== verification/Ipc_Properties.thy ===== *)
theory Ipc_Properties
  imports Ipc_Run
begin

text \<open>
  The properties of message passing: the sender queues are first-in first-out queues, a
  queued message is received after a bounded number of receives, and the senders blocked on
  a task that dies are released with an error.
\<close>

section \<open>Runs\<close>

fun run :: "act list \<Rightarrow> kern \<Rightarrow> kern option" where
  "run [] k = Some k"
| "run (a # as) k = (if enabled a k then (case perform a k of None \<Rightarrow> None | Some (r, k') \<Rightarrow> run as k') else None)"

text \<open>How often \<open>d\<close> asks for a message from anyone along a run, and what it is handed.\<close>

fun asked :: "nat \<Rightarrow> act list \<Rightarrow> kern \<Rightarrow> nat" where
  "asked d [] k = 0"
| "asked d (a # as) k = (case perform a k of None \<Rightarrow> 0 | Some (r, k') \<Rightarrow> of_bool (asks d a k) + asked d as k')"

fun received :: "nat \<Rightarrow> act list \<Rightarrow> kern \<Rightarrow> ipc_msg list" where
  "received d [] k = []"
| "received d (a # as) k = (case perform a k of None \<Rightarrow> []
     | Some (r, k') \<Rightarrow> (case (a, r) of (Receive nb f, Ret rc (Some m)) \<Rightarrow> if current_task k = d then [m] else []
                       | _ \<Rightarrow> []) @ received d as k')"

lemma run_alive:
  "run as k = Some k' \<Longrightarrow> ipc_inv k Q \<Longrightarrow> ring_ok k \<Longrightarrow> alive k' x \<Longrightarrow> alive k x"
proof (induction as arbitrary: k Q)
  case (Cons a as)
  then obtain r k1 where 1: "enabled a k" "perform a k = Some (r, k1)" "run as k1 = Some k'"
    by (auto split: if_splits option.splits prod.splits)
  from act_progress[OF Cons.prems(2,3) 1(1,2)] Cons.IH[OF 1(3)] Cons.prems(4) show ?case by blast
qed simp

lemma served_within:
  "run as k = Some k' \<Longrightarrow> ipc_inv k Q \<Longrightarrow> ring_ok k \<Longrightarrow> s \<in> set (Q d) \<Longrightarrow> alive k' s \<Longrightarrow> alive k' d \<Longrightarrow>
     pos s (Q d) < asked d as k \<Longrightarrow> ipc_buf (task_pool k s) \<in> set (received d as k)"
proof (induction as arbitrary: k Q)
  case (Cons a as)
  then obtain r k1 where 1: "enabled a k" "perform a k = Some (r, k1)" "run as k1 = Some k'"
    by (auto split: if_splits option.splits prod.splits)
  from act_progress[OF Cons.prems(2,3) 1(1,2)] obtain Q' where
    Q': "ipc_inv k1 Q'" "ring_ok k1" "progress a k r k1 Q Q'" by blast
  have "alive k1 s" "alive k1 d" using run_alive[OF 1(3) Q'(1,2)] Cons.prems by auto
  with Q'(3) Cons.prems(4) consider
    "current_task k = d" "r = Ret 0 (Some (ipc_buf (task_pool k s)))" "\<exists>nb f. a = Receive nb f"
    | "s \<in> set (Q' d)" "pos s (Q' d) \<le> pos s (Q d) - of_bool (asks d a k)" "asks d a k \<longrightarrow> 0 < pos s (Q d)"
      "ipc_buf (task_pool k1 s) = ipc_buf (task_pool k s)"
    unfolding progress_def by blast
  then show ?case
  proof cases
    case served: 1 with 1 show ?thesis by auto
  next
    case 2
    have "pos s (Q' d) < asked d as k1" using 2 Cons.prems(7) 1 by (cases "asks d a k") auto
    from Cons.IH[OF 1(3) Q'(1,2) 2(1) Cons.prems(5,6) this] 2 1 show ?thesis by auto
  qed
qed simp

section \<open>A concrete system\<close>

definition task0 :: task where
  "task0 = \<lparr>esp = 0, page_dir = 0x1000, state = TASK_READY, next_task = 0, pid = 0, parent_pid = 0, exit_status = 0,
     sig_pending = 0, sig_mask = 0, unkillable = False, last_sched_tick = 0, ipc_state = IPC_STATE_IDLE, ipc_partner = 0,
     ipc_rc = 0, ipc_buf = \<lparr>m_src = 0, m_type = 0, m_data = []\<rparr>, ipc_sender_q = None, ipc_sq_next = None\<rparr>"

text \<open>Tasks with pids 1 to 4, of which number 1 is running.\<close>

definition kern4 :: kern where
  "kern4 = \<lparr>task_pool = (\<lambda>i. task0\<lparr>pid := int i + 1, next_task := (i + 1) mod 4, unkillable := (i = 0),
       state := (if i = 1 then TASK_RUNNING else if i < 4 then TASK_READY else TASK_DEAD)\<rparr>),
     task_pool_count = 4, current_task = 1, tasking_active = True, in_schedule = False, kernel_dir = 0x1000,
     cr3_dir = 0x1000, s_handlers = (\<lambda>_ _. 0), exit_log = []\<rparr>"

lemma kern4_inv: "ipc_inv kern4 (\<lambda>_. [])" "ring_ok kern4" "running kern4"
  by (auto simp: ipc_inv_def kern4_def task0_def ring_ok_def running_def)

definition hello :: ipc_msg where "hello = \<lparr>m_src = 0, m_type = 7, m_data = [1, 2]\<rparr>"

text \<open>Task 1 has sent to task 3, which is not receiving, and is blocked; task 2 runs.\<close>

definition kern4_sent :: kern where
  "kern4_sent = upd_task 1 (\<lambda>s. s\<lparr>state := TASK_BLOCKED, ipc_state := IPC_STATE_SENDING, ipc_partner := 4,
       ipc_buf := hello\<lparr>m_src := 2\<rparr>\<rparr>)
     (upd_task 3 (\<lambda>s. s\<lparr>ipc_sender_q := Some 1\<rparr>)
     (upd_task 2 (\<lambda>s. s\<lparr>state := TASK_RUNNING\<rparr>) (kern4\<lparr>current_task := 2\<rparr>)))"

lemma kern4_sent_inv: "ipc_inv kern4_sent ((\<lambda>_. [])(3 := [1]))" "ring_ok kern4_sent"
  by (auto simp: ipc_inv_def kern4_sent_def kern4_def task0_def ring_ok_def alive_def split: if_splits)

section \<open>Queues\<close>

lemma ipc_send_refines:
  fixes k :: kern and dst :: int and m m' :: ipc_msg and cur :: nat
  defines "cur \<equiv> current_task k" and "m' \<equiv> m\<lparr>m_src := pid (task_pool k cur)\<rparr>"
  assumes inv: "ipc_inv k Q" and run: "running k"
  shows "\<exists>r k'. ipc_send dst (Some m) k = Some (r, k') \<and>
     (if dst = pid (task_pool k cur) then r = Ret IPC_EINVAL None \<and> k' = k
      else case task_by_pid dst k of
        None \<Rightarrow> r = Ret IPC_ESRCH None \<and> ipc_inv k' Q
      | Some d \<Rightarrow>
          if \<not> alive k d then r = Ret IPC_ESRCH None \<and> ipc_inv k' Q
          else if receiving k d (pid (task_pool k cur))
          then r = Ret 0 None \<and> ipc_inv k' Q \<and> ipc_buf (task_pool k' d) = m' \<and>
            ipc_state (task_pool k' d) = IPC_STATE_IDLE \<and> state (task_pool k' d) = TASK_READY
          else r = Block \<and> ipc_inv k' (Q(d := Q d @ [cur])) \<and> ipc_buf (task_pool k' cur) = m' \<and>
            state (task_pool k' cur) = TASK_BLOCKED)"
proof -
  note idle = running_idle[OF inv run, folded cur_def]
  let ?k1 = "upd_task cur (\<lambda>s. s\<lparr>ipc_buf := m'\<rparr>) k"
  have i1: "ipc_inv ?k1 Q" unfolding cur_def by (rule stage_inv[OF inv run])
  from ipc_send_cases[OF inv run, of dst m, folded cur_def, folded m'_def] show ?thesis
  proof (elim disjE exE conjE, goal_cases)
    case 1 then show ?thesis by simp
  next
    case 2 then show ?thesis using i1 by (auto split: option.splits)
  next
    case (3 d)
    let ?k' = "upd_task d (\<lambda>s. wake (s\<lparr>ipc_buf := m', ipc_state := IPC_STATE_IDLE, ipc_partner := 0, ipc_rc := 0\<rparr>)) ?k1"
    have d: "alive ?k1 d" "receiving ?k1 d (pid (task_pool k cur))" using 3 by (auto simp: alive_def receiving_def)
    have "ipc_inv ?k' Q" by (rule handover_inv[OF i1 d])
    moreover have "dst \<noteq> pid (task_pool k cur)"
      using task_by_pid_Some[OF 3(2)] ipc_inv_pids[OF inv, of d cur] 3(1) idle run
      by (auto simp: running_def cur_def alive_def)
    moreover have "state (task_pool k d) = TASK_BLOCKED" using ipc_invD(4)[OF inv, of d] 3(4) by (auto simp: receiving_def)
    ultimately show ?thesis using 3 by simp
  next
    case (4 d k2)
    have "dst \<noteq> pid (task_pool k cur)"
      using task_by_pid_Some[OF 4(2)] ipc_inv_pids[OF inv, of d cur] 4(1) idle run
      by (auto simp: running_def cur_def alive_def)
    moreover have "ipc_inv (ipc_block cur k2) (Q(d := Q d @ [cur]))" "ipc_buf (task_pool (ipc_block cur k2) cur) = m'"
      using ipc_inv_enqueue[OF inv 4(2,3) _ _ not_sym[OF 4(1)] _ refl, of m'] 4(5) idle run
      by (auto simp: running_def cur_def)
    ultimately show ?thesis using 4 by (auto simp: ipc_block_def)
  qed
qed

text \<open>
  C4. The sender queues are the FIFO queues they stand for. In a well-formed kernel state
  with queues \<open>Q\<close>, each operation of the running task finishes its atomic part, and: a send
  to itself, to no task or to a task that has ended fails without touching a queue; a send to
  a task waiting for it hands the message over and wakes the receiver; any other send appends
  the sender to the end of the destination's queue and blocks it with the message staged. A
  receive takes the first matching sender out of the queue, returns its message and makes it
  ready; with no match, \<open>ipc_recv\<close> blocks and \<open>ipc_nbrecv\<close> returns EAGAIN. The invariant that
  links, states and pids represent the queues is kept throughout.
\<close>

theorem ipc_queues_fifo:
  fixes k :: kern and dst f :: int and m m' :: ipc_msg and cur :: nat
  defines "cur \<equiv> current_task k" and "m' \<equiv> m\<lparr>m_src := pid (task_pool k cur)\<rparr>"
  assumes "ipc_inv k Q" and "running k"
  shows "(\<exists>r k'. ipc_send dst (Some m) k = Some (r, k') \<and>
     (if dst = pid (task_pool k cur) then r = Ret IPC_EINVAL None \<and> k' = k
      else case task_by_pid dst k of
        None \<Rightarrow> r = Ret IPC_ESRCH None \<and> ipc_inv k' Q
      | Some d \<Rightarrow>
          if \<not> alive k d then r = Ret IPC_ESRCH None \<and> ipc_inv k' Q
          else if receiving k d (pid (task_pool k cur))
          then r = Ret 0 None \<and> ipc_inv k' Q \<and> ipc_buf (task_pool k' d) = m' \<and>
            ipc_state (task_pool k' d) = IPC_STATE_IDLE \<and> state (task_pool k' d) = TASK_READY
          else r = Block \<and> ipc_inv k' (Q(d := Q d @ [cur])) \<and> ipc_buf (task_pool k' cur) = m' \<and>
            state (task_pool k' cur) = TASK_BLOCKED)) \<and>
     (case find (matches k f) (Q cur) of
       Some s \<Rightarrow> \<exists>k'. ipc_recv f True k = Some (Ret 0 (Some (ipc_buf (task_pool k s))), k') \<and>
         ipc_inv k' (Q(cur := remove1 s (Q cur))) \<and> ipc_rc (task_pool k' s) = 0 \<and> state (task_pool k' s) = TASK_READY
     | None \<Rightarrow> \<exists>k'. ipc_recv f True k = Some (Block, k') \<and> ipc_inv k' Q \<and> state (task_pool k' cur) = TASK_BLOCKED \<and>
         ipc_state (task_pool k' cur) = IPC_STATE_RECVING \<and> ipc_partner (task_pool k' cur) = f) \<and>
     (case find (matches k f) (Q cur) of
       Some s \<Rightarrow> \<exists>k'. ipc_nbrecv f True k = Some (Ret 0 (Some (ipc_buf (task_pool k s))), k') \<and>
         ipc_inv k' (Q(cur := remove1 s (Q cur))) \<and> ipc_rc (task_pool k' s) = 0 \<and> state (task_pool k' s) = TASK_READY
     | None \<Rightarrow> \<exists>k'. ipc_nbrecv f True k = Some (Ret IPC_EAGAIN None, k') \<and> ipc_inv k' Q)"
proof (intro conjI, goal_cases)
  case 1 show ?case using ipc_send_refines[OF assms(3,4), of dst m] unfolding cur_def m'_def .
next
  case 2 show ?case using receive_inv[OF assms(3,4), of False f] unfolding cur_def receive_def by (auto split: option.splits)
next
  case 3 show ?case using receive_inv[OF assms(3,4), of True f] unfolding cur_def receive_def by (auto split: option.splits)
qed

theorem ipc_queues_fifo_witness:
  "\<exists>k'. ipc_send 4 (Some hello) kern4 = Some (Block, k') \<and> ipc_inv k' ((\<lambda>_. [])(3 := [1]))"
proof -
  have e: "task_by_pid 4 kern4 = Some 3" "alive kern4 3" "current_task kern4 = 1" "pid (task_pool kern4 1) = 2"
    "\<not> receiving kern4 3 2" by code_simp+
  have "(4 :: int) \<noteq> 2" by simp
  with ipc_queues_fifo[OF kern4_inv(1,3), of 4 hello 0] show ?thesis
    unfolding e(1,3,4) option.case using e(2,5) by (auto simp del: One_nat_def)
qed

text \<open>
  C3. No sender starves. Let \<open>s\<close> wait at position \<open>p\<close> of \<open>d\<close>'s queue (counted from 0), and let
  the system run in any way at all: other tasks send, receive, poll, are scheduled, are
  signalled or exit, in any interleaving. If \<open>s\<close> and \<open>d\<close> are still alive at the end and \<open>d\<close>
  has asked for a message from anyone more than \<open>p\<close> times, then the message of \<open>s\<close> is among
  those \<open>d\<close> has been handed.
\<close>

theorem ipc_no_starvation:
  assumes "ipc_inv k Q" "ring_ok k" "run as k = Some k'"
    and "s \<in> set (Q d)" "alive k' s" "alive k' d" "pos s (Q d) < asked d as k"
  shows "ipc_buf (task_pool k s) \<in> set (received d as k)"
  by (rule served_within[OF assms(3,1,2,4-)])

theorem ipc_no_starvation_witness:
  "hello\<lparr>m_src := 2\<rparr> \<in> set (received 3 [Sched 6, Receive True IPC_ANY] kern4_sent)"
proof -
  let ?as = "[Sched 6, Receive True IPC_ANY]"
  have "\<not> Option.is_none (run ?as kern4_sent)" by code_simp
  then have r: "run ?as kern4_sent = Some (the (run ?as kern4_sent))" by (cases "run ?as kern4_sent") simp_all
  have a: "alive (the (run ?as kern4_sent)) 1" "alive (the (run ?as kern4_sent)) 3" by code_simp+
  have p: "pos 1 (((\<lambda>_. [])(3 := [1])) (3 :: nat)) < asked 3 ?as kern4_sent" by code_simp
  have "ipc_buf (task_pool kern4_sent 1) = hello\<lparr>m_src := 2\<rparr>" by (simp add: kern4_sent_def)
  with ipc_no_starvation[OF kern4_sent_inv r _ a p] show ?thesis by simp
qed

text \<open>
  C27. A task that dies releases the tasks that wait to send to it. Terminating a task that is
  not dead returns; every sender that was queued on it is ready, with ESRCH as the result its
  send will return; the task itself is in no queue and has none; other tasks keep their state,
  and the other queues keep their order.
\<close>

theorem task_terminate_releases_senders:
  assumes "ipc_inv k Q" "state (task_pool k t) \<noteq> TASK_DEAD"
  shows "\<exists>k'. task_terminate t st k = Some k' \<and>
    ipc_inv k' (\<lambda>d. if d = t then [] else filter (\<lambda>s. s \<noteq> t) (Q d)) \<and>
    state (task_pool k' t) \<in> {TASK_DEAD, TASK_ZOMBIE} \<and> exit_status (task_pool k' t) = st \<and>
    (\<forall>x. x \<noteq> t \<longrightarrow> state (task_pool k' x) = (if x \<in> set (Q t) then TASK_READY else state (task_pool k x))) \<and>
    (\<forall>x. x \<in> set (Q t) \<longrightarrow> fst (ipc_send_resume (k'\<lparr>current_task := x\<rparr>)) = Ret IPC_ESRCH None)"
  using task_terminate_inv[OF assms, of st]
  by (auto simp: without_def[abs_def] alive_def ipc_send_resume_def Let_def)


theorem task_terminate_releases_senders_witness:
  "\<exists>k'. task_terminate 3 137 kern4_sent = Some k' \<and> state (task_pool k' 1) = TASK_READY \<and>
     fst (ipc_send_resume (k'\<lparr>current_task := 1\<rparr>)) = Ret IPC_ESRCH None"
proof -
  have "state (task_pool kern4_sent 3) \<noteq> TASK_DEAD" by code_simp
  from task_terminate_releases_senders[OF kern4_sent_inv(1) this, of 137] show ?thesis by auto
qed

end
