(* ===== verification/Signal_Facts.thy ===== *)
theory Signal_Facts
  imports Ipc_Facts
begin

text \<open>
  Exact descriptions of the two signal loops: which pending signal decides a delivery pass,
  and what is cleared on the way to it.
\<close>

section \<open>Ranges of signals\<close>

definition sig_range :: "nat \<Rightarrow> nat \<Rightarrow> u32" where
  "sig_range a b = mask (b - 1) AND NOT (mask (a - 1))"

lemma bit_sig_range: "1 \<le> a \<Longrightarrow> bit (sig_range a b) n \<longleftrightarrow> a \<le> n + 1 \<and> n + 1 < b \<and> n < 32"
  by (auto simp: sig_range_def bit_simps)

definition clear_range :: "nat \<Rightarrow> u32 \<Rightarrow> nat \<Rightarrow> nat \<Rightarrow> kern \<Rightarrow> kern" where
  "clear_range t dl a b k = upd_task t (\<lambda>s. s\<lparr>sig_pending := sig_pending s AND NOT (dl AND sig_range a b)\<rparr>) k"

lemma clear_range_empty: "1 \<le> a \<Longrightarrow> b \<le> a \<Longrightarrow> clear_range t dl a b k = k"
proof -
  assume "1 \<le> a" "b \<le> a"
  then have "sig_range a b = 0" by (auto simp: bit_eq_iff[where 'a = u32] bit_sig_range)
  then show ?thesis by (simp add: clear_range_def upd_task_def)
qed

lemma clear_range_skip:
  assumes "1 \<le> a" "a \<le> 31" "dl AND SIG_BIT a = 0"
  shows "clear_range t dl a b k = clear_range t dl (Suc a) b k"
proof -
  have "\<not> bit dl (a - 1)" using and_SIG_BIT[OF assms(1,2), of dl] assms(3) by simp
  then have "dl AND sig_range a b = dl AND sig_range (Suc a) b"
    using assms(1) by (auto simp: bit_eq_iff[where 'a = u32] bit_simps bit_sig_range)
      (metis One_nat_def Suc_eq_plus1 diff_Suc_1 le_antisym not_less_eq_eq)
  then show ?thesis by (simp add: clear_range_def)
qed

lemma clear_range_step:
  assumes "1 \<le> a" "a \<le> 31" "dl AND SIG_BIT a \<noteq> 0" "a < b"
  shows "clear_range t dl (Suc a) b (clear_pending t a k) = clear_range t dl a b k"
proof -
  have d: "bit dl (a - 1)" using and_SIG_BIT[OF assms(1,2), of dl] assms(3) by simp
  have "(p AND NOT (SIG_BIT a)) AND NOT (dl AND sig_range (Suc a) b) = p AND NOT (dl AND sig_range a b)" for p
  proof (rule bit_eqI)
    fix n
    show "bit ((p AND NOT (SIG_BIT a)) AND NOT (dl AND sig_range (Suc a) b)) n = bit (p AND NOT (dl AND sig_range a b)) n"
      using assms(1,2,4) d by (cases "n = a - 1") (auto simp: bit_simps bit_sig_range bit_SIG_BIT)
  qed
  then show ?thesis by (simp add: clear_range_def clear_pending_def)
qed

lemma clear_pending_range:
  assumes "1 \<le> a" "a \<le> 31" "dl AND SIG_BIT a \<noteq> 0"
  shows "clear_pending t a k = clear_range t dl a (Suc a) k"
  using clear_range_step[OF assms, of "Suc a" t k] clear_range_empty[of "Suc a" "Suc a"] by simp

section \<open>Delivery\<close>

text \<open>The signals that end a delivery pass: a fatal one, or one with a handler of the task's own.\<close>

definition user_handled :: "nat \<Rightarrow> nat \<Rightarrow> kern \<Rightarrow> bool" where
  "user_handled t sg k \<longleftrightarrow> sg \<noteq> SIGKILL \<and> s_handlers k t sg \<noteq> SIG_DFL \<and> s_handlers k t sg \<noteq> SIG_IGN"

definition kills :: "nat \<Rightarrow> nat \<Rightarrow> kern \<Rightarrow> bool" where
  "kills t sg k \<longleftrightarrow> \<not> unkillable (task_pool k t) \<and>
     (sg = SIGKILL \<or> s_handlers k t sg = SIG_DFL \<and> sig_default_terminates sg)"

definition decisive :: "nat \<Rightarrow> u32 \<Rightarrow> nat \<Rightarrow> kern \<Rightarrow> nat option" where
  "decisive t dl a k = find (\<lambda>sg. dl AND SIG_BIT sg \<noteq> 0 \<and> (kills t sg k \<or> user_handled t sg k)) [a..<32]"

lemma decisive_unfold:
  "decisive t dl a k = (if 31 < a then None
     else if dl AND SIG_BIT a \<noteq> 0 \<and> (kills t a k \<or> user_handled t a k) then Some a else decisive t dl (Suc a) k)"
  by (auto simp: decisive_def upt_rec[of a])

lemma kills_clear [simp]:
  "kills t sg (clear_pending t a k) = kills t sg k" "user_handled t sg (clear_pending t a k) = user_handled t sg k"
  "decisive t dl b (clear_pending t a k) = decisive t dl b k"
  by (simp_all add: kills_def user_handled_def decisive_def clear_pending_def)

lemma handler_for_eq:
  "t < task_pool_count k \<Longrightarrow> t < 8 \<Longrightarrow> handler_for t sg k = Some (s_handlers k t sg)"
  by (simp add: handler_for_def slot_of_eq get_handler_def)

lemma clear_pending_rest [simp]:
  "task_pool_count (clear_pending t a k) = task_pool_count k" "s_handlers (clear_pending t a k) = s_handlers k"
  "unkillable (task_pool (clear_pending t a k) t) = unkillable (task_pool k t)"
  by (simp_all add: clear_pending_def)

lemma deliver_from_exact:
  assumes "t < task_pool_count k" "t < 8" "1 \<le> sig"
  shows "deliver_from t dl sig k =
    (case decisive t dl sig k of
       None \<Rightarrow> Some (clear_range t dl sig 32 k)
     | Some sg \<Rightarrow> if kills t sg k then task_terminate t (128 + int sg) (clear_range t dl sig (Suc sg) k)
                 else Some (clear_range t dl sig sg k))"
  using assms
proof (induction t dl sig k rule: deliver_from.induct)
  case (1 t dl sig k)
  note H = handler_for_eq[OF "1.prems"(1,2)]
  let ?c = "clear_pending t sig k"
  have ge: "decisive t dl (Suc sig) k = Some sg \<Longrightarrow> sig < sg" for sg
    by (auto simp: decisive_def find_Some_iff)
  have go: "deliver_from t dl (Suc sig) ?c =
      (case decisive t dl sig k of
         None \<Rightarrow> Some (clear_range t dl sig 32 k)
       | Some sg \<Rightarrow> if kills t sg k then task_terminate t (128 + int sg) (clear_range t dl sig (Suc sg) k)
                   else Some (clear_range t dl sig sg k))"
    if ih: "deliver_from t dl (sig + 1) ?c =
      (case decisive t dl (sig + 1) ?c of
         None \<Rightarrow> Some (clear_range t dl (sig + 1) 32 ?c)
       | Some sg \<Rightarrow> if kills t sg ?c then task_terminate t (128 + int sg) (clear_range t dl (sig + 1) (Suc sg) ?c)
                   else Some (clear_range t dl (sig + 1) sg ?c))"
      and s: "sig \<le> 31" "dl AND SIG_BIT sig \<noteq> 0" "\<not> kills t sig k" "\<not> user_handled t sig k"
  proof -
    have "decisive t dl sig k = decisive t dl (Suc sig) k" using s by (subst decisive_unfold) simp
    then show ?thesis
      using ih s(1,2) "1.prems"(3) clear_range_step[OF "1.prems"(3) s(1,2)] ge
      by (auto split: option.splits)
  qed
  consider "SIG_MAX < sig" | "sig \<le> SIG_MAX" "dl AND SIG_BIT sig = 0" |
    "sig \<le> SIG_MAX" "dl AND SIG_BIT sig \<noteq> 0" "kills t sig k" |
    "sig \<le> SIG_MAX" "dl AND SIG_BIT sig \<noteq> 0" "\<not> kills t sig k" "user_handled t sig k" |
    "sig \<le> SIG_MAX" "dl AND SIG_BIT sig \<noteq> 0" "\<not> kills t sig k" "\<not> user_handled t sig k" by linarith
  then show ?case
  proof cases
    case 1
    then have "decisive t dl sig k = None" by (subst decisive_unfold) simp
    with 1 show ?thesis by (subst deliver_from.simps) (simp add: clear_range_empty)
  next
    case 2
    then have "decisive t dl sig k = decisive t dl (Suc sig) k" by (subst decisive_unfold) simp
    moreover have "deliver_from t dl sig k = deliver_from t dl (sig + 1) k" using 2 by (subst deliver_from.simps) simp
    ultimately show ?thesis using "1.IH"(1) 2 "1.prems" clear_range_skip[OF "1.prems"(3) 2(1,2)] by (simp split: option.splits)
  next
    case 3
    then have "decisive t dl sig k = Some sig" by (subst decisive_unfold) simp
    moreover have "deliver_from t dl sig k = task_terminate t (128 + int sig) ?c"
      using 3 H by (subst deliver_from.simps) (auto simp: kills_def Let_def)
    ultimately show ?thesis using 3 clear_pending_range[OF "1.prems"(3) 3(1,2)] by simp
  next
    case 4
    then have "decisive t dl sig k = Some sig" by (subst decisive_unfold) simp
    moreover have "deliver_from t dl sig k = Some k"
      using 4 H by (subst deliver_from.simps) (auto simp: user_handled_def)
    ultimately show ?thesis using 4 "1.prems"(3) by (simp add: clear_range_empty)
  next
    case 5
    have eq: "deliver_from t dl sig k = deliver_from t dl (Suc sig) ?c"
      using 5 H by (subst deliver_from.simps) (auto simp: user_handled_def kills_def Let_def)
    have "deliver_from t dl (sig + 1) ?c =
      (case decisive t dl (sig + 1) ?c of
         None \<Rightarrow> Some (clear_range t dl (sig + 1) 32 ?c)
       | Some sg \<Rightarrow> if kills t sg ?c then task_terminate t (128 + int sg) (clear_range t dl (sig + 1) (Suc sg) ?c)
                   else Some (clear_range t dl (sig + 1) sg ?c))"
    proof (cases "sig = SIGKILL")
      case True
      with 5 have u: "unkillable (task_pool ?c t)" by (simp add: kills_def)
      show ?thesis using "1.IH"(2)[OF _ 5(2) True refl u] 5(1) "1.prems" by simp
    next
      case False
      show ?thesis
      proof (cases "s_handlers k t sig = SIG_IGN")
        case ign: True
        show ?thesis using "1.IH"(3)[OF _ 5(2) False H ign] 5(1) "1.prems" by simp
      next
        case nign: False
        with False 5 have dfl: "s_handlers k t sig = SIG_DFL" by (simp add: user_handled_def)
        show ?thesis
        proof (cases "sig_default_terminates sig")
          case True
          with dfl 5 have u: "unkillable (task_pool ?c t)" by (simp add: kills_def)
          show ?thesis using "1.IH"(4)[OF _ 5(2) False H nign dfl refl True u] 5(1) "1.prems" by simp
        next
          case nt: False
          show ?thesis using "1.IH"(5)[OF _ 5(2) False H nign dfl refl nt] 5(1) "1.prems" by simp
        qed
      qed
    qed
    from go[OF this 5] eq show ?thesis by simp
  qed
qed

end
