(* ===== verification/Task_Properties.thy ===== *)
theory Task_Properties
  imports Signal_Facts Ipc_Run
begin

text \<open>
  The properties of signals and of the scheduler.
\<close>

section \<open>User frames\<close>

lemma store_words_nth:
  "i < length ws \<Longrightarrow> length ws \<le> 2 ^ 20 \<Longrightarrow> store_words a ws mem (a + 4 * of_nat i) = ws ! i"
proof -
  assume i: "i < length ws" "length ws \<le> 2 ^ 20"
  then have "unat (4 * of_nat i :: u32) = 4 * i"
    by (simp add: unat_mult_lem[THEN iffD1] unsigned_of_nat take_bit_nat_eq_self unat_word_ariths)
  then show ?thesis using i by (simp add: store_words_def)
qed

lemma store_words_outside: "4 * length ws \<le> unat (x - a) \<Longrightarrow> store_words a ws mem x = mem x"
  by (auto simp: store_words_def)

lemma check_user_from_outcome:
  assumes "check_user_from t dl sig regs mem k = Some (regs', mem', k')"
    and "t < task_pool_count k" "t < 8" "1 \<le> sig"
  shows "(regs', mem', k') = (regs, mem, k) \<or>
    (\<exists>sg. sig \<le> sg \<and> sg \<le> 31 \<and> dl AND SIG_BIT sg \<noteq> 0 \<and> user_handled t sg k \<and> k' = clear_pending t sg k \<and>
      mem' = store_words (r_useresp regs - 72) (sigframe_words (r_useresp regs - 72) sg regs) mem \<and>
      regs' = regs\<lparr>r_useresp := r_useresp regs - 72, r_eip := s_handlers k t sg\<rparr>)"
  using assms
proof (induction t dl sig regs mem k rule: check_user_from.induct)
  case (1 t dl sig regs mem k)
  have H: "sig_get_handler t (int sig) k = Some (s_handlers k t sig)" if "sig \<le> 31"
    using handler_for_eq[OF "1.prems"(2,3)] that "1.prems"(4) by (simp add: sig_get_handler_def)
  consider "SIG_MAX < sig" | "sig \<le> SIG_MAX" "dl AND SIG_BIT sig = 0" |
    "sig \<le> SIG_MAX" "dl AND SIG_BIT sig \<noteq> 0" "user_handled t sig k" |
    "sig \<le> SIG_MAX" "dl AND SIG_BIT sig \<noteq> 0" "\<not> user_handled t sig k" by linarith
  then show ?case
  proof cases
    case 1 with "1.prems" show ?thesis by (subst (asm) check_user_from.simps) auto
  next
    case 2
    then have "check_user_from t dl (sig + 1) regs mem k = Some (regs', mem', k')"
      using "1.prems"(1) by (subst (asm) check_user_from.simps) simp
    from "1.IH"(1)[OF _ 2(2) this] 2 "1.prems" show ?thesis by (auto dest: Suc_leD)
  next
    case 3
    then show ?thesis using "1.prems"(1) H
      by (subst (asm) check_user_from.simps)
        (auto simp: user_handled_def Let_def SIGFRAME_SIZE_def intro!: disjI2 exI[of _ sig])
  next
    case 4
    then have d: "check_user_from t dl (sig + 1) regs mem k = Some (regs', mem', k')"
      using "1.prems"(1) H by (subst (asm) check_user_from.simps) (auto simp: user_handled_def split: if_splits)
    have n: "\<not> SIG_MAX < sig" using 4 by simp
    have "(regs', mem', k') = (regs, mem, k) \<or>
      (\<exists>sg. sig + 1 \<le> sg \<and> sg \<le> 31 \<and> dl AND SIG_BIT sg \<noteq> 0 \<and> user_handled t sg k \<and> k' = clear_pending t sg k \<and>
        mem' = store_words (r_useresp regs - 72) (sigframe_words (r_useresp regs - 72) sg regs) mem \<and>
        regs' = regs\<lparr>r_useresp := r_useresp regs - 72, r_eip := s_handlers k t sg\<rparr>)"
    proof (cases "s_handlers k t sig = SIG_DFL \<or> s_handlers k t sig = SIG_IGN")
      case True
      show ?thesis by (rule "1.IH"(2)[OF n 4(2) H[OF 4(1)] True d]) (use "1.prems" in simp_all)
    next
      case False
      then have kill: "sig = SIGKILL" using 4(3) by (simp add: user_handled_def)
      show ?thesis by (rule "1.IH"(3)[OF n 4(2) H[OF 4(1)] False kill d]) (use "1.prems" in simp_all)
    qed
    then show ?thesis using Suc_leD[of sig] by (metis Suc_eq_plus1)
  qed
qed

text \<open>
  C21. Signal delivery does exactly what the dispositions say. For a task whose slot has a
  row in the handler table, \<open>sig_deliver\<close> always returns. The pending, unmasked signals are
  taken in increasing order up to the first decisive one: a signal that kills (SIGKILL, or a
  default-terminate signal without a handler) on a task that may be killed, or a signal with
  a handler of the task's own. A killing signal \<open>sg\<close> terminates the task with status
  \<open>128 + sg\<close>; a handled signal stays pending; the signals before it are cleared, and all
  other pending signals stay. In particular an unkillable task survives every signal.
\<close>

theorem signal_delivery_exact:
  fixes k t
  defines "dl \<equiv> sig_pending (task_pool k t) AND NOT (sig_mask (task_pool k t))"
  assumes "ipc_inv k Q" "t < task_pool_count k" "t < SIG_TABLE_MAX_TASKS" "alive k t"
  shows "\<exists>k'. sig_deliver t k = Some k' \<and>
    (case decisive t dl 1 k of
       None \<Rightarrow> k' = clear_range t dl 1 32 k
     | Some sg \<Rightarrow>
         if kills t sg k then \<not> alive k' t \<and> exit_status (task_pool k' t) = 128 + int sg \<and>
           task_terminate t (128 + int sg) (clear_range t dl 1 (sg + 1) k) = Some k'
         else k' = clear_range t dl 1 sg k) \<and>
    (unkillable (task_pool k t) \<longrightarrow> alive k' t) \<and>
    sig_pending (task_pool k' t) AND sig_mask (task_pool k t) = sig_pending (task_pool k t) AND sig_mask (task_pool k t)"
proof -
  have clr: "alive (clear_range t dl 1 b k) x = alive k x" "ipc_inv (clear_range t dl 1 b k) Q" for b x
    using assms(2) by (auto simp: clear_range_def alive_def intro: ipc_inv_other[OF assms(2)])
  have dl0: "dl = 0 \<Longrightarrow> decisive t dl 1 k = None \<and> clear_range t dl 1 32 k = k"
    by (auto simp: decisive_def find_None_iff clear_range_def upd_task_def)
  have "sig_deliver t k = deliver_from t dl 1 k \<or> dl = 0 \<and> sig_deliver t k = Some k"
    using assms(5) by (auto simp: sig_deliver_def alive_def dl_def Let_def)
  then have sd: "sig_deliver t k = (case decisive t dl 1 k of
       None \<Rightarrow> Some (clear_range t dl 1 32 k)
     | Some sg \<Rightarrow> if kills t sg k then task_terminate t (128 + int sg) (clear_range t dl 1 (Suc sg) k)
                 else Some (clear_range t dl 1 sg k))"
    using deliver_from_exact[OF assms(3,4) order_refl, of dl] dl0 by auto
  have msk: "(p AND NOT (dl AND r)) AND sig_mask (task_pool k t) = p AND sig_mask (task_pool k t)" for p r
    by (auto simp: dl_def bit_eq_iff[where 'a = u32] bit_simps)
  then have mk: "sig_pending (task_pool (clear_range t dl a b k) t) AND sig_mask (task_pool k t) =
      sig_pending (task_pool k t) AND sig_mask (task_pool k t)" for a b
    by (simp add: clear_range_def)
  show ?thesis
  proof (cases "decisive t dl 1 k")
    case None then show ?thesis using sd clr mk assms(5) by simp
  next
    case (Some sg)
    show ?thesis
    proof (cases "kills t sg k")
      case False then show ?thesis using Some sd clr mk assms(5) by simp
    next
      case True
      let ?k = "clear_range t dl 1 (Suc sg) k"
      have "state (task_pool ?k t) \<noteq> TASK_DEAD" using clr(1)[of "Suc sg" t] assms(5) by (simp add: alive_def)
      from task_terminate_inv[OF clr(2) this, of "128 + int sg"] obtain k' where
        "task_terminate t (128 + int sg) ?k = Some k'" "\<not> alive k' t" "exit_status (task_pool k' t) = 128 + int sg"
        "sig_pending (task_pool k' t) = sig_pending (task_pool ?k t)" by auto
      moreover have "\<not> unkillable (task_pool k t)" using True by (simp add: kills_def)
      ultimately show ?thesis using Some True sd mk by simp
    qed
  qed
qed

text \<open>
  C28. A signal handler runs and returns as if it had not interrupted the program. When
  \<open>signal_check_user\<close> redirects a ring-3 frame whose stack pointer leaves room for the signal
  frame in the user stack, then some pending unmasked signal with a handler is no longer
  pending, the program continues at that handler with the stack pointer at the frame, whose
  first word is the address of the trampoline and whose second is the signal number; the trampoline, the last
  eight bytes of the frame, is the code \<open>movl $SYS_SIGRETURN, %eax; int $0x80; nop\<close>; memory
  outside the 72 bytes of the frame is unchanged. When the handler returns with the frame
  intact (its \<open>ret\<close> has popped the first word), \<open>SYS_SIGRETURN\<close> restores the instruction
  pointer, flags, stack pointer, segments and general registers of the interrupted program.
\<close>

theorem sigframe_roundtrip:
  assumes "signal_check_user regs mem k = Some (regs', mem', k')" "r_useresp regs' \<noteq> r_useresp regs"
    and "current_task k < task_pool_count k" "current_task k < SIG_TABLE_MAX_TASKS"
    and "USER_STACK_TOP - USER_STACK_PAGES * 4096 + SIGFRAME_SIZE \<le> r_useresp regs" "r_useresp regs \<le> USER_STACK_TOP"
  shows "\<exists>sg. user_handled (current_task k) sg k \<and> 1 \<le> sg \<and> sg \<le> SIG_MAX \<and>
      (sig_pending (task_pool k (current_task k)) AND NOT (sig_mask (task_pool k (current_task k)))) AND SIG_BIT sg \<noteq> 0 \<and>
      k' = clear_pending (current_task k) sg k \<and>
      r_eip regs' = s_handlers k (current_task k) sg \<and> r_useresp regs' = r_useresp regs - SIGFRAME_SIZE \<and>
      mem' (r_useresp regs') = r_useresp regs' + 64 \<and> mem' (r_useresp regs' + 4) = of_nat sg \<and>
      mem' (r_useresp regs' + 64) = 0xB8 OR push_bit 8 SYS_SIGRETURN \<and> mem' (r_useresp regs' + 68) = 0x9080CD00 \<and>
      (\<forall>x. 72 \<le> unat (x - r_useresp regs') \<longrightarrow> mem' x = mem x) \<and>
      (\<forall>now kk. r_useresp now = r_useresp regs' + 4 \<longrightarrow>
         sys_sigreturn now mem' kk = (True, regs\<lparr>r_esp := r_esp now, r_int_no := r_int_no now, r_err_code := r_err_code now\<rparr>, kk))"
proof -
  let ?t = "current_task k" let ?p = "sig_pending (task_pool k ?t) AND NOT (sig_mask (task_pool k ?t))"
  define base where "base = r_useresp regs - 72"
  have "check_user_from ?t ?p 1 regs mem k = Some (regs', mem', k')"
    using assms(1,2) by (auto simp: signal_check_user_def Let_def split: if_splits)
  from check_user_from_outcome[OF this assms(3,4)] assms(2) obtain sg where
    sg: "1 \<le> sg" "sg \<le> 31" "?p AND SIG_BIT sg \<noteq> 0" "user_handled ?t sg k" "k' = clear_pending ?t sg k"
      "mem' = store_words base (sigframe_words base sg regs) mem"
      "regs' = regs\<lparr>r_useresp := base, r_eip := s_handlers k ?t sg\<rparr>" unfolding base_def by auto
  have b: "USER_STACK_TOP - USER_STACK_PAGES * 4096 \<le> base" "base + 72 \<le> USER_STACK_TOP" "base + 72 = r_useresp regs"
    using assms(5,6) by (auto simp: base_def SIGFRAME_SIZE_def word_le_nat_alt unat_sub_if')
  have w: "mem' (base + 4 * of_nat i) = sigframe_words base sg regs ! i" if "i < 18" for i
    unfolding sg(6) using that by (intro store_words_nth) (simp_all add: sigframe_words_def)
  have ret: "sys_sigreturn now mem' kk =
      (True, regs\<lparr>r_esp := r_esp now, r_int_no := r_int_no now, r_err_code := r_err_code now\<rparr>, kk)"
    if "r_useresp now = base + 4" for now kk
    using b that w[of 2] w[of 3] w[of 4] w[of 5] w[of 6] w[of 7] w[of 8] w[of 9] w[of 10] w[of 11] w[of 12] w[of 13]
      w[of 14] w[of 15]
    by (simp add: sys_sigreturn_def Let_def sigframe_words_def SIGFRAME_SIZE_def not_less)
  show ?thesis
    using sg(1-5) sg(7) w[of 0] w[of 1] w[of 16] w[of 17] ret b(3)
      store_words_outside[of "sigframe_words base sg regs" _ base mem] sg(6)
    by (intro exI[of _ sg]) (auto simp: sigframe_words_def SIGFRAME_SIZE_def base_def)
qed

text \<open>
  \<open>SYS_SIGRETURN\<close> does not check the segment selectors and flags it restores. Whatever
  task runs, for every code selector, stack selector, flags word and address there is user
  memory from which the call, made from ring 3, returns to that address with that selector
  and those flags: a program that writes the frame itself continues in ring 0 with the
  kernel's code segment and interrupts off.
\<close>

theorem sigreturn_unchecked:
  "\<exists>regs mem regs'. r_cs regs = 0x1B \<and> sys_sigreturn regs mem k = (True, regs', k) \<and>
     r_eip regs' = addr \<and> r_cs regs' = cs \<and> r_ss regs' = ss \<and> r_eflags regs' = fl"
proof -
  define base where "base = USER_STACK_TOP - 72"
  define fr where "fr = \<lparr>r_ds = 0, r_edi = 0, r_esi = 0, r_ebp = 0, r_esp = 0, r_ebx = 0, r_edx = 0, r_ecx = 0, r_eax = 0,
     r_int_no = 0, r_err_code = 0, r_eip = addr, r_cs = cs, r_eflags = fl, r_useresp = 0, r_ss = ss\<rparr>"
  let ?mem = "store_words base (sigframe_words base 0 fr) (\<lambda>_. 0)" and ?regs = "fr\<lparr>r_cs := 0x1B, r_useresp := base + 4\<rparr>"
  have w: "?mem (base + 4 * of_nat i) = sigframe_words base 0 fr ! i" if "i < 18" for i
    using that by (intro store_words_nth) (simp_all add: sigframe_words_def)
  have r: "\<not> (base < USER_STACK_TOP - USER_STACK_PAGES * 4096 \<or> USER_STACK_TOP < base + SIGFRAME_SIZE)"
    by (simp add: base_def SIGFRAME_SIZE_def)
  have "fst (sys_sigreturn ?regs ?mem k)" "snd (snd (sys_sigreturn ?regs ?mem k)) = k"
    "r_eip (fst (snd (sys_sigreturn ?regs ?mem k))) = addr" "r_cs (fst (snd (sys_sigreturn ?regs ?mem k))) = cs"
    "r_ss (fst (snd (sys_sigreturn ?regs ?mem k))) = ss" "r_eflags (fst (snd (sys_sigreturn ?regs ?mem k))) = fl"
    using r w[of 2] w[of 3] w[of 4] w[of 6] w[of 15]
    by (simp_all add: sys_sigreturn_def Let_def sigframe_words_def fr_def)
  then show ?thesis
    by (intro exI[of _ ?regs] exI[of _ ?mem] exI[of _ "fst (snd (sys_sigreturn ?regs ?mem k))"]) (simp add: prod_eq_iff)
qed

lemma reset_handlers_eq:
  "slot < 8 \<Longrightarrow> reset_handlers slot n k =
     Some (k\<lparr>s_handlers := (s_handlers k)(slot := \<lambda>s. if s < n then SIG_DFL else s_handlers k slot s)\<rparr>)"
proof (induction n)
  case (Suc n)
  then show ?case by (auto simp: set_handler_def fun_eq_iff intro!: arg_cong[where f = "\<lambda>h. k\<lparr>s_handlers := h\<rparr>"])
qed simp

lemma reset_handlers_outside: "8 \<le> slot \<Longrightarrow> reset_handlers slot (Suc n) k = None"
  by (induction n) (simp_all add: set_handler_def)

text \<open>
  The handler table has eight rows for thirty-two task slots. Initialising the signal
  state of a task whose slot has a row sets every handler of that row to the default,
  clears the pending and blocked signals and touches nothing else; for every slot in use
  from the ninth on it writes outside the table.
\<close>

theorem sig_task_init_bounds:
  "sig_task_init t k =
     (if task_pool_count k \<le> t then Some (upd_task t (\<lambda>s. s\<lparr>sig_pending := 0, sig_mask := 0\<rparr>) k)
      else if t < SIG_TABLE_MAX_TASKS then
        Some ((upd_task t (\<lambda>s. s\<lparr>sig_pending := 0, sig_mask := 0\<rparr>) k)\<lparr>s_handlers :=
          (s_handlers k)(t := \<lambda>s. if s \<le> SIG_MAX then SIG_DFL else s_handlers k t s)\<rparr>)
      else None)"
proof -
  have "s < 32 \<longleftrightarrow> s \<le> SIG_MAX" for s :: nat by auto
  then show ?thesis
    using reset_handlers_eq[of t 32] reset_handlers_outside[of t 31]
    by (auto simp: sig_task_init_def slot_of_eq Let_def cong: if_cong)
qed

section \<open>The scheduler\<close>

text \<open>The circular list of tasks, read from the current one on; no signal is deliverable.\<close>

definition ring :: "kern \<Rightarrow> nat list \<Rightarrow> bool" where
  "ring k xs \<longleftrightarrow> xs \<noteq> [] \<and> length xs = task_pool_count k \<and> distinct xs \<and> hd xs = current_task k \<and>
     (\<forall>i < length xs. next_task (task_pool k (xs ! i)) = xs ! (Suc i mod length xs))"

definition quiet :: "kern \<Rightarrow> bool" where
  "quiet k \<longleftrightarrow> (\<forall>t. sig_pending (task_pool k t) AND NOT (sig_mask (task_pool k t)) = 0)"

lemma quiet_deliver: "quiet k \<Longrightarrow> sig_deliver t k = Some k"
  by (simp add: quiet_def sig_deliver_def)

abbreviation "ready k \<equiv> (\<lambda>t. state (task_pool k t) = TASK_READY)"

lemma pick_next_ring:
  assumes "ring k xs" "quiet k" "j \<le> length xs"
  shows "\<exists>nx. pick_next (Suc (length xs - j)) (xs ! (j mod length xs)) k = Some (nx, k) \<and>
    (case find (ready k) (drop j xs) of Some t \<Rightarrow> nx = t | None \<Rightarrow> nx = xs ! 0 \<or> nx = xs ! (1 mod length xs))"
  using assms(3)
proof (induction "length xs - j" arbitrary: j)
  case 0
  have "next_task (task_pool k (xs ! 0)) = xs ! (1 mod length xs)" using assms(1) by (auto simp: ring_def)
  with 0 show ?case using assms quiet_deliver[OF assms(2)] by (auto simp: ring_def)
next
  case (Suc m)
  then have j: "j < length xs" by simp
  then have d: "drop j xs = xs ! j # drop (Suc j) xs" by (simp add: Cons_nth_drop_Suc)
  have nx: "next_task (task_pool k (xs ! j)) = xs ! (Suc j mod length xs)" using assms(1) j by (simp add: ring_def)
  have m: "Suc (length xs - j) = Suc (Suc (length xs - Suc j))" using j by simp
  obtain nx' where "pick_next (Suc (length xs - Suc j)) (xs ! (Suc j mod length xs)) k = Some (nx', k) \<and>
    (case find (ready k) (drop (Suc j) xs) of Some t \<Rightarrow> nx' = t | None \<Rightarrow> nx' = xs ! 0 \<or> nx' = xs ! (1 mod length xs))"
    using Suc.hyps(1)[of "Suc j"] Suc.hyps(2) j by (metis Suc_leI diff_Suc_Suc diff_diff_left Suc_eq_plus1 Suc_diff_Suc nat.inject)
  then show ?case
    using quiet_deliver[OF assms(2)] j nx unfolding m d by (cases "ready k (xs ! j)") (auto simp: d)
qed

lemma schedule_ring:
  assumes "ring k xs" "quiet k" "tasking_active k" "\<not> in_schedule k" "2 \<le> length xs"
  shows "schedule now k = Some (case find (ready k) (tl xs) of None \<Rightarrow> k | Some t \<Rightarrow> switch_to t now k)"
proof -
  have len: "length xs = task_pool_count k" "xs \<noteq> []" "distinct xs" "xs ! 0 = current_task k"
    using assms(1) by (auto simp: ring_def hd_conv_nth)
  let ?k = "k\<lparr>in_schedule := True\<rparr>"
  have r: "ring ?k xs" "quiet ?k" using assms(1,2) by (simp_all add: ring_def quiet_def)
  have one: "1 mod length xs = 1" using assms(5) by simp
  have nxt: "next_task (task_pool k (current_task k)) = xs ! 1"
  proof -
    have "next_task (task_pool k (xs ! 0)) = xs ! (Suc 0 mod length xs)" using assms(1) unfolding ring_def by blast
    with assms(5) len show ?thesis by simp
  qed
  obtain nx where nx: "pick_next (Suc (length xs - 1)) (xs ! (1 mod length xs)) ?k = Some (nx, ?k)"
    "case find (ready k) (tl xs) of Some t \<Rightarrow> nx = t | None \<Rightarrow> nx = xs ! 0 \<or> nx = xs ! 1"
    using pick_next_ring[OF r, of 1] assms(5) unfolding one by (auto simp: drop_Suc simp del: pick_next.simps)
  have pick: "pick_next (task_pool_count k) (xs ! 1) ?k = Some (nx, ?k)"
    using nx(1) one assms(5) len(1) by simp
  have res: "schedule now k = (if nx = current_task k \<or> \<not> ready k nx then Some k else Some (switch_to nx now ?k))"
    using assms(3,4,5) len quiet_deliver[OF r(2)] nxt pick by (simp add: schedule_def Let_def cong: if_cong)
  show ?thesis
  proof (cases "find (ready k) (tl xs)")
    case None
    obtain a b ys where "xs = a # b # ys" using assms(5) by (cases xs; cases "tl xs") auto
    then have "xs ! 1 \<in> set (tl xs)" by simp
    then have "\<not> ready k (xs ! 1)" using None by (auto simp: find_None_iff)
    with None nx(2) res len show ?thesis by auto
  next
    case (Some t)
    then have t: "ready k t" "t \<in> set (tl xs)" by (auto simp: find_Some_iff in_set_conv_nth)
    then have "t \<noteq> current_task k" using len by (cases xs) auto
    moreover have "switch_to t now ?k = switch_to t now k" by (simp add: switch_to_def Let_def upd_task_def)
    ultimately show ?thesis using Some nx(2) res t by simp
  qed
qed

text \<open>The ring after a switch is the same ring, read from the task switched to.\<close>

lemma switch_ring:
  assumes "ring k xs" "quiet k" "j < length xs" "xs ! j = t"
  shows "ring (switch_to t now k) (rotate j xs)" "quiet (switch_to t now k)"
    "tasking_active (switch_to t now k) = tasking_active k" "\<not> in_schedule (switch_to t now k)"
    "current_task (switch_to t now k) = t" "state (task_pool (switch_to t now k) t) = TASK_RUNNING"
    "x \<noteq> t \<Longrightarrow> x \<noteq> current_task k \<Longrightarrow> state (task_pool (switch_to t now k) x) = state (task_pool k x)"
    "t \<noteq> current_task k \<Longrightarrow> state (task_pool k (current_task k)) = TASK_RUNNING \<Longrightarrow>
      state (task_pool (switch_to t now k) (current_task k)) = TASK_READY"
proof -
  have nx: "next_task (task_pool (switch_to t now k) x) = next_task (task_pool k x)" for x
    by (simp add: switch_to_def Let_def)
  have cnt: "task_pool_count (switch_to t now k) = task_pool_count k" "current_task (switch_to t now k) = t"
    by (simp_all add: switch_to_def Let_def)
  have len: "length xs = task_pool_count k" "xs \<noteq> []" "distinct xs"
    and nxt: "\<And>i. i < length xs \<Longrightarrow> next_task (task_pool k (xs ! i)) = xs ! (Suc i mod length xs)"
    using assms(1) by (auto simp: ring_def)
  have "hd (rotate j xs) = t" using assms(3,4) len by (simp add: hd_rotate_conv_nth)
  moreover have "next_task (task_pool k (rotate j xs ! i)) = rotate j xs ! (Suc i mod length xs)" if "i < length xs" for i
    using that nxt[of "(i + j) mod length xs"] len(2) by (simp add: nth_rotate mod_Suc_eq mod_add_right_eq add.commute)
  ultimately show "ring (switch_to t now k) (rotate j xs)"
    using len cnt by (simp add: ring_def nx)
  show "quiet (switch_to t now k)" using assms(2) by (auto simp: quiet_def switch_to_def Let_def)
  show "tasking_active (switch_to t now k) = tasking_active k" "\<not> in_schedule (switch_to t now k)"
    "current_task (switch_to t now k) = t" "state (task_pool (switch_to t now k) t) = TASK_RUNNING"
    "x \<noteq> t \<Longrightarrow> x \<noteq> current_task k \<Longrightarrow> state (task_pool (switch_to t now k) x) = state (task_pool k x)"
    "t \<noteq> current_task k \<Longrightarrow> state (task_pool k (current_task k)) = TASK_RUNNING \<Longrightarrow>
      state (task_pool (switch_to t now k) (current_task k)) = TASK_READY"
    by (simp_all add: switch_to_def Let_def)
qed

text \<open>Consecutive scheduling points, at the given ticks.\<close>

fun schedules :: "u32 list \<Rightarrow> kern \<Rightarrow> kern option" where
  "schedules [] k = Some k"
| "schedules (now # ts) k = Option.bind (schedule now k) (schedules ts)"

lemma scheduled_within:
  assumes "ring k xs" "quiet k" "tasking_active k" "\<not> in_schedule k"
    "0 < i" "i < length xs" "ready k (xs ! i)" "i \<le> length ts"
  shows "\<exists>m k'. 1 \<le> m \<and> m \<le> i \<and> schedules (take m ts) k = Some k' \<and> current_task k' = xs ! i \<and>
    state (task_pool k' (xs ! i)) = TASK_RUNNING"
  using assms
proof (induction i arbitrary: k xs ts rule: less_induct)
  case (less i)
  obtain now ts' where ts: "ts = now # ts'" using less.prems(5,8) by (cases ts) auto
  have len2: "2 \<le> length xs" using less.prems(5,6) by simp
  have hd0: "xs ! 0 = current_task k" and dist: "distinct xs" using less.prems(1) by (auto simp: ring_def hd_conv_nth)
  have it: "xs ! i = tl xs ! (i - 1)" "i - 1 < length (tl xs)" using less.prems(5,6) by (simp_all add: nth_tl)
  then have "find (ready k) (tl xs) \<noteq> None" using less.prems(7) by (auto simp: find_None_iff in_set_conv_nth simp del: length_tl)
  then obtain t where t: "find (ready k) (tl xs) = Some t" by blast
  then obtain j' where j': "j' < length (tl xs)" "tl xs ! j' = t" "\<And>l. l < j' \<Longrightarrow> \<not> ready k (tl xs ! l)"
    by (auto simp: find_Some_iff)
  define j where "j = Suc j'"
  have j: "j < length xs" "xs ! j = t" "0 < j" using j'(1,2) by (auto simp: j_def nth_tl)
  have ji: "j \<le> i"
  proof (rule ccontr)
    assume "\<not> j \<le> i"
    then have "i - 1 < j'" using less.prems(5) by (simp add: j_def)
    from j'(3)[OF this] it less.prems(7) show False by simp
  qed
  let ?k = "switch_to t now k"
  note S = switch_ring[OF less.prems(1,2) j(1,2), where now = now]
  have sch: "schedule now k = Some ?k" using schedule_ring[OF less.prems(1-4) len2] t by simp
  show ?case
  proof (cases "j = i")
    case True
    have "schedules (take 1 ts) k = Some ?k" using ts sch by simp
    then show ?thesis using S(5,6) True j less.prems(5) by (intro exI[of _ 1] exI[of _ ?k]) simp
  next
    case False
    then have lt: "i - j < i" "0 < i - j" using ji j by auto
    have idx: "rotate j xs ! (i - j) = xs ! i" using ji less.prems(6) by (simp add: nth_rotate)
    have ne: "xs ! i \<noteq> t" "xs ! i \<noteq> current_task k"
      using False less.prems(5,6) j hd0 nth_eq_iff_index_eq[OF dist, of i j] nth_eq_iff_index_eq[OF dist, of i 0]
      by (auto, cases xs, auto)
    have rd: "ready ?k (rotate j xs ! (i - j))" using S(7)[OF ne] less.prems(7) idx by simp
    have act: "tasking_active ?k" using S(3) less.prems(3) by simp
    have b: "i - j < length (rotate j xs)" "i - j \<le> length ts'" using less.prems(6,8) j(3) ts by auto
    from less.IH[OF lt(1) S(1,2) act S(4) lt(2) b(1) rd b(2)] obtain m k' where
      m: "1 \<le> m" "m \<le> i - j" "schedules (take m ts') ?k = Some k'" "current_task k' = xs ! i"
        "state (task_pool k' (xs ! i)) = TASK_RUNNING" unfolding idx by auto
    then have "schedules (take (Suc m) ts) k = Some k'" using ts sch by simp
    then show ?thesis using m j(3) ji by (intro exI[of _ "Suc m"] exI[of _ k']) auto
  qed
qed

text \<open>
  C15. Scheduling is round robin and starves nobody. In a state without deliverable signals
  whose tasks form the ring \<open>xs\<close>, read from the running task on, a scheduling point switches
  to the first ready task of the ring after the running one, which becomes ready; with no
  ready task it changes nothing. Hence a ready task \<open>i\<close> places down the ring is running after
  at most \<open>i\<close> consecutive scheduling points, whatever the other tasks' states.
\<close>

theorem schedule_round_robin:
  assumes "ring k xs" "quiet k" "tasking_active k" "\<not> in_schedule k" "2 \<le> length xs"
    "state (task_pool k (current_task k)) = TASK_RUNNING"
  shows "(case find (\<lambda>t. state (task_pool k t) = TASK_READY) (tl xs) of
       None \<Rightarrow> schedule now k = Some k
     | Some t \<Rightarrow> \<exists>k'. schedule now k = Some k' \<and> current_task k' = t \<and> state (task_pool k' t) = TASK_RUNNING \<and>
         state (task_pool k' (current_task k)) = TASK_READY \<and> \<not> in_schedule k' \<and>
         (\<forall>x. x \<noteq> t \<longrightarrow> x \<noteq> current_task k \<longrightarrow> state (task_pool k' x) = state (task_pool k x))) \<and>
    (0 < i \<and> i < length xs \<and> state (task_pool k (xs ! i)) = TASK_READY \<and> i \<le> length ts \<longrightarrow>
      (\<exists>m k'. m \<le> i \<and> schedules (take m ts) k = Some k' \<and> current_task k' = xs ! i \<and>
        state (task_pool k' (xs ! i)) = TASK_RUNNING))"
proof (intro conjI impI)
  show "0 < i \<and> i < length xs \<and> state (task_pool k (xs ! i)) = TASK_READY \<and> i \<le> length ts \<Longrightarrow>
      \<exists>m k'. m \<le> i \<and> schedules (take m ts) k = Some k' \<and> current_task k' = xs ! i \<and>
        state (task_pool k' (xs ! i)) = TASK_RUNNING"
    using scheduled_within[OF assms(1-4)] by blast
next
  show "case find (ready k) (tl xs) of
       None \<Rightarrow> schedule now k = Some k
     | Some t \<Rightarrow> \<exists>k'. schedule now k = Some k' \<and> current_task k' = t \<and> state (task_pool k' t) = TASK_RUNNING \<and>
         state (task_pool k' (current_task k)) = TASK_READY \<and> \<not> in_schedule k' \<and>
         (\<forall>x. x \<noteq> t \<longrightarrow> x \<noteq> current_task k \<longrightarrow> state (task_pool k' x) = state (task_pool k x))"
  proof (cases "find (ready k) (tl xs)")
    case None then show ?thesis using schedule_ring[OF assms(1-5), of now] by simp
  next
    case (Some t)
    then obtain j where j: "j < length (tl xs)" "tl xs ! j = t" by (auto simp: find_Some_iff)
    have dist: "distinct xs" "xs ! 0 = current_task k" using assms(1) by (auto simp: ring_def hd_conv_nth)
    have j': "Suc j < length xs" "xs ! Suc j = t" using j by (auto simp: nth_tl)
    have "t \<noteq> current_task k" using nth_eq_iff_index_eq[OF dist(1), of "Suc j" 0] j' dist(2) by (cases xs) auto
    then show ?thesis
      using Some schedule_ring[OF assms(1-5), of now] switch_ring[OF assms(1,2) j', where now = now] assms(6) by auto
  qed
qed

section \<open>Witnesses\<close>

text \<open>Four tasks with pids 1 to 4; number 1 runs, in ring 3, with a handler for signal 10.\<close>

definition stask :: task where
  "stask = \<lparr>esp = 0, page_dir = 0x1000, state = TASK_READY, next_task = 0, pid = 0, parent_pid = 0, exit_status = 0,
     sig_pending = 0, sig_mask = 0, unkillable = False, last_sched_tick = 0, ipc_state = IPC_STATE_IDLE, ipc_partner = 0,
     ipc_rc = 0, ipc_buf = \<lparr>m_src = 0, m_type = 0, m_data = []\<rparr>, ipc_sender_q = None, ipc_sq_next = None\<rparr>"

definition skern :: "u32 \<Rightarrow> kern" where
  "skern pending = \<lparr>task_pool = (\<lambda>i. stask\<lparr>pid := int i + 1, next_task := (i + 1) mod 4, unkillable := (i = 0),
       sig_pending := (if i = 1 then pending else 0),
       state := (if i = 1 then TASK_RUNNING else if i < 4 then TASK_READY else TASK_DEAD)\<rparr>),
     task_pool_count = 4, current_task = 1, tasking_active = True, in_schedule = False, kernel_dir = 0x1000,
     cr3_dir = 0x1000, s_handlers = (\<lambda>_ sg. if sg = 10 then 0x8000 else 0), exit_log = []\<rparr>"

lemma skern_inv: "ipc_inv (skern p) (\<lambda>_. [])" "alive (skern p) 1" "(1 :: nat) < task_pool_count (skern p)"
  by (auto simp: ipc_inv_def skern_def stask_def alive_def)

theorem signal_delivery_exact_witness:
  "\<exists>k'. sig_deliver 1 (skern (SIG_BIT 17 OR SIG_BIT 15)) = Some k' \<and> exit_status (task_pool k' 1) = 143"
proof -
  let ?k = "skern (SIG_BIT 17 OR SIG_BIT 15)"
  have d: "decisive 1 (sig_pending (task_pool ?k 1) AND NOT (sig_mask (task_pool ?k 1))) 1 ?k = Some 15" "kills 1 15 ?k"
    by code_simp+
  from signal_delivery_exact[OF skern_inv(1,3) _ skern_inv(2), of "SIG_BIT 17 OR SIG_BIT 15"] d show ?thesis by auto
qed

definition sregs :: registers where
  "sregs = \<lparr>r_ds = 0x23, r_edi = 1, r_esi = 2, r_ebp = 3, r_esp = 0, r_ebx = 4, r_edx = 5, r_ecx = 6, r_eax = 7,
     r_int_no = 0x80, r_err_code = 0, r_eip = 0x1000, r_cs = 0x1B, r_eflags = 0x202, r_useresp = 0xBFFEFF00, r_ss = 0x23\<rparr>"

theorem sigframe_roundtrip_witness:
  "\<exists>regs' mem' k'. signal_check_user sregs (\<lambda>_. 0) (skern (SIG_BIT 10)) = Some (regs', mem', k') \<and>
     r_eip regs' = 0x8000 \<and>
     (\<exists>back. sys_sigreturn (regs'\<lparr>r_useresp := r_useresp regs' + 4\<rparr>) mem' k' = (True, back, k') \<and> r_eip back = 0x1000)"
proof -
  let ?k = "skern (SIG_BIT 10)" let ?r = "signal_check_user sregs (\<lambda>_. 0) ?k"
  have "\<not> Option.is_none ?r" by code_simp
  then obtain regs' mem' k' where r: "?r = Some (regs', mem', k')" by (cases ?r) auto
  have "r_useresp (fst (the ?r)) \<noteq> r_useresp sregs" by code_simp
  then have ne: "r_useresp regs' \<noteq> r_useresp sregs" using r by simp
  have t: "current_task ?k < task_pool_count ?k" "current_task ?k < SIG_TABLE_MAX_TASKS" by (simp_all add: skern_def)
  have b: "USER_STACK_TOP - USER_STACK_PAGES * 4096 + SIGFRAME_SIZE \<le> r_useresp sregs" "r_useresp sregs \<le> USER_STACK_TOP"
    by (simp_all add: sregs_def SIGFRAME_SIZE_def)
  from sigframe_roundtrip[OF r ne t b] obtain sg where
    "user_handled (current_task ?k) sg ?k" "r_eip regs' = s_handlers ?k (current_task ?k) sg"
    "\<And>now kk. r_useresp now = r_useresp regs' + 4 \<Longrightarrow> sys_sigreturn now mem' kk =
      (True, sregs\<lparr>r_esp := r_esp now, r_int_no := r_int_no now, r_err_code := r_err_code now\<rparr>, kk)" by blast
  then show ?thesis using r by (intro exI[of _ regs'] exI[of _ mem'] exI[of _ k'])
    (auto simp: user_handled_def skern_def sregs_def split: if_splits)
qed

theorem schedule_round_robin_witness:
  "(\<exists>k'. schedule 9 (skern 0) = Some k' \<and> current_task k' = 2) \<and>
   (\<exists>m k'. m \<le> 3 \<and> schedules (take m [9, 10, 11]) (skern 0) = Some k' \<and> current_task k' = 0)"
proof -
  let ?k = "skern 0" let ?xs = "[1, 2, 3, 0] :: nat list"
  have c: "list_all (\<lambda>i. next_task (task_pool ?k (?xs ! i)) = ?xs ! (Suc i mod length ?xs)) [0..<length ?xs]" by code_simp
  have "next_task (task_pool ?k (?xs ! i)) = ?xs ! (Suc i mod length ?xs)" if "i < length ?xs" for i
  proof -
    have "i \<in> set [0..<length ?xs]" using that by (simp only: set_upt atLeastLessThan_iff) simp
    from bspec[OF c[unfolded list_all_iff] this] show ?thesis .
  qed
  moreover have "length ?xs = task_pool_count ?k" "hd ?xs = current_task ?k" by (simp_all add: skern_def)
  moreover have "?xs \<noteq> []" "distinct ?xs" by simp_all
  ultimately have r: "ring ?k ?xs" unfolding ring_def by blast
  have q: "quiet ?k" "tasking_active ?k" "\<not> in_schedule ?k" "2 \<le> length ?xs" "state (task_pool ?k (current_task ?k)) = TASK_RUNNING"
    by (simp_all add: quiet_def skern_def stask_def)
  have f: "find (\<lambda>t. state (task_pool ?k t) = TASK_READY) (tl ?xs) = Some 2" by (simp add: skern_def stask_def)
  have i: "0 < (3::nat)" "3 < length ?xs" "state (task_pool ?k (?xs ! 3)) = TASK_READY" "3 \<le> length [9, 10, 11 :: u32]"
    by (simp_all add: skern_def stask_def)
  from schedule_round_robin[OF r q, of 9 3 "[9, 10, 11]"] f i show ?thesis by auto
qed

end
