(* ===== verification/Glob.thy ===== *)
theory Glob
  imports Makar_Prelude "HOL-Library.Monad_Syntax" "HOL-Library.Sublist"
begin

text \<open>
  Wildcard expansion of the kernel shell: \<^verbatim>\<open>shell/shell_glob.c\<close>. A C string is the list of
  its characters before the terminator. The argument vector is an array of \<open>argv_cap\<close> strings
  of which the first \<open>argc\<close> count; a write beyond the array is \<open>None\<close>. What \<open>vfs_complete\<close>
  reports for a directory (\<open>None\<close>: the working directory) is an argument, the list of the
  entry names it calls back with.
\<close>

abbreviation "VFS_PATH_MAX \<equiv> 256 :: nat"

definition glob_has_wildcard :: "string \<Rightarrow> bool" where
  "glob_has_wildcard s \<longleftrightarrow> list_ex (\<lambda>c. c = CHR ''*'' \<or> c = CHR ''?'') s"

text \<open>The matcher; \<open>glob_scan\<close> is the loop that tries the rest of the pattern at each position.\<close>

function (sequential) glob_match :: "string \<Rightarrow> string \<Rightarrow> bool" and glob_scan :: "string \<Rightarrow> string \<Rightarrow> bool" where
  "glob_match [] name \<longleftrightarrow> name = []"
| "glob_match (c # pat) name \<longleftrightarrow>
     (if c = CHR ''*'' then
        let pat' = dropWhile (\<lambda>c. c = CHR ''*'') (c # pat) in
        if pat' = [] then True else glob_scan pat' name
      else case name of [] \<Rightarrow> False
        | n # ns \<Rightarrow> if c = CHR ''?'' \<or> c = n then glob_match pat ns else False)"
| "glob_scan pat [] \<longleftrightarrow> False"
| "glob_scan pat (n # ns) \<longleftrightarrow> (if glob_match pat (n # ns) then True else glob_scan pat ns)"
  by pat_completeness auto
termination
  by (relation "measures [\<lambda>x. case x of Inl (p, n) \<Rightarrow> length p | Inr (p, n) \<Rightarrow> length p,
        \<lambda>x. case x of Inl (p, n) \<Rightarrow> length n | Inr (p, n) \<Rightarrow> length n,
        \<lambda>x. case x of Inl (p, n) \<Rightarrow> 0 | Inr (p, n) \<Rightarrow> 1]")
    (auto simp: le_imp_less_Suc length_dropWhile_le)

record glob_ctx =
  pattern :: string
  dir_prefix :: string
  prefix_needs_slash :: bool
  buf_left :: nat
  g_matches :: "string list"
  max_matches :: int

definition glob_cb :: "string \<Rightarrow> glob_ctx \<Rightarrow> glob_ctx" where
  "glob_cb name g =
     (if max_matches g \<le> int (length (g_matches g)) then g
      else if \<not> glob_match (pattern g) name then g
      else if (name \<noteq> [] \<and> hd name = CHR ''.'') \<and> \<not> (pattern g \<noteq> [] \<and> hd (pattern g) = CHR ''.'') then g
      else
        let plen = length (dir_prefix g); slen = (if prefix_needs_slash g then 1 else 0);
            nlen = length name; need = plen + slen + nlen + 1
        in if buf_left g < need then g
           else g\<lparr>g_matches := g_matches g @ [dir_prefix g @ (if slen = 1 then ''/'' else '''') @ name],
                  buf_left := buf_left g - need\<rparr>)"

text \<open>Writing an element of the argument vector.\<close>

definition set_arg :: "nat \<Rightarrow> string \<Rightarrow> string list \<Rightarrow> string list option" where
  "set_arg j s argv = (if j < length argv then Some (argv[j := s]) else None)"

text \<open>The loop that shifts \<open>argv[i+1..j]\<close> right by \<open>extra\<close>, from the end.\<close>

fun shift_args :: "nat \<Rightarrow> nat \<Rightarrow> nat \<Rightarrow> string list \<Rightarrow> string list option" where
  "shift_args i 0 extra argv = Some argv"
| "shift_args i (Suc n) extra argv =
     (if i < Suc n then Option.bind (set_arg (Suc n + extra) (argv ! Suc n) argv) (shift_args i n extra) else Some argv)"

fun place_args :: "nat \<Rightarrow> string list \<Rightarrow> string list \<Rightarrow> string list option" where
  "place_args i [] argv = Some argv"
| "place_args i (m # ms) argv = Option.bind (set_arg i m argv) (place_args (Suc i) ms)"

text \<open>A token split at its last slash: the directory to scan, whether a slash follows it, and the pattern.\<close>

definition split_token :: "string \<Rightarrow> string \<times> bool \<times> string" where
  "split_token tok =
     (if CHR ''/'' \<in> set tok then
        let pat = rev (takeWhile (\<lambda>c. c \<noteq> CHR ''/'') (rev tok));
            dl = length tok - length pat - 1
        in if dl = 0 then (''/'', False, pat)
           else (take (if VFS_PATH_MAX \<le> dl then VFS_PATH_MAX - 1 else dl) tok, True, pat)
      else ('''', False, tok))"

text \<open>
  One round of the expansion loop, on a token with a wildcard: the matches found, or none.
\<close>

definition scan_token :: "(string option \<Rightarrow> string list) \<Rightarrow> int \<Rightarrow> nat \<Rightarrow> string \<Rightarrow> glob_ctx" where
  "scan_token vfs_complete slots_left left tok =
     (let (dir_part, needs_slash, pat) = split_token tok;
          max_here = (if slots_left + 1 > 32 then 32 else slots_left + 1);
          ctx = \<lparr>pattern = pat, dir_prefix = dir_part, prefix_needs_slash = needs_slash, buf_left = left,
                 g_matches = [], max_matches = max_here\<rparr>;
          scan = (if dir_part = [] then None else Some dir_part)
      in fold glob_cb (vfs_complete scan) ctx)"

text \<open>The loop: a round moves \<open>i\<close> forward by as much as it grows \<open>argc\<close>, plus one.\<close>

function expand_from :: "(string option \<Rightarrow> string list) \<Rightarrow> nat \<Rightarrow> nat \<Rightarrow> string list \<Rightarrow> nat \<Rightarrow>
    (nat \<times> string list) option" where
  "expand_from vfs_complete i argc argv left =
     (if argc \<le> i then Some (argc, argv)
      else
        let tok = argv ! i in
        if \<not> glob_has_wildcard tok then expand_from vfs_complete (i + 1) argc argv left
        else if \<not> glob_has_wildcard (snd (snd (split_token tok))) then expand_from vfs_complete (i + 1) argc argv left
        else
          let ctx = scan_token vfs_complete (int (length argv) - int argc) left tok;
              ms = g_matches ctx; extra = length ms - 1
          in if ms = [] then expand_from vfs_complete (i + 1) argc argv left
             else do {
               argv \<leftarrow> (if 0 < extra then shift_args i (argc - 1) extra argv else Some argv);
               argv \<leftarrow> place_args i ms argv;
               expand_from vfs_complete (i + length ms) (argc + extra) argv (buf_left ctx)
             })"
  by pat_completeness auto
termination
  by (relation "measure (\<lambda>(v, i, argc, argv, left). argc - i)") (auto simp: Suc_le_eq dest: length_greater_0_conv[THEN iffD2])

declare expand_from.simps [simp del]

definition shell_expand_globs :: "(string option \<Rightarrow> string list) \<Rightarrow> nat \<Rightarrow> string list \<Rightarrow> nat \<Rightarrow>
    (nat \<times> string list) option" where
  "shell_expand_globs vfs_complete argc argv storage_size = expand_from vfs_complete 0 argc argv storage_size"

end
