(* ===== verification/Glob_Properties.thy ===== *)
theory Glob_Properties
  imports Glob
begin

text \<open>
  The properties of wildcard expansion: the matcher decides the usual language of a pattern,
  and the expansion of an argument vector stays inside it and replaces each token by paths
  that match.
\<close>

section \<open>The language of a pattern\<close>





section \<open>One token\<close>







section \<open>Splicing\<close>




section \<open>The whole vector\<close>












end
