(* ===== verification/Shadow.thy ===== *)
theory Shadow
  imports Makar_Prelude "HOL-Library.Monad_Syntax"
begin

text \<open>
  The password database: \<^verbatim>\<open>auth/microhash.c\<close> and \<^verbatim>\<open>auth/shadow.c\<close>. A C string is the list of
  its characters before the terminator. The file buffer is an array of \<open>SHADOW_MAX\<close>
  characters, with the terminator and whatever an earlier read has left behind it; an access
  beyond it is \<open>None\<close>. Reading and writing \<^verbatim>\<open>/etc/shadow\<close> through the VFS, the tick counter and
  the clock are arguments.
\<close>

section \<open>The hash\<close>

definition rotl32 :: "u32 \<Rightarrow> nat \<Rightarrow> u32" where
  "rotl32 v n = push_bit n v OR drop_bit (32 - n) v"

definition microhash_padded :: "nat \<Rightarrow> nat" where
  "microhash_padded len = (len + 5 + 31) div 32 * 32"

text \<open>The byte at index \<open>idx\<close> of the padded message; the last four hold the length.\<close>

definition microhash_byte :: "u8 list \<Rightarrow> nat \<Rightarrow> u8" where
  "microhash_byte data idx =
     (let n = length data; padded = microhash_padded n; i = idx mod 32 in
      if idx < n then data ! idx
      else if idx = n then 0x80
      else if padded - 4 \<le> idx then of_nat (n div 2 ^ (8 * (31 - i)) mod 256)
      else 0)"

definition microhash_word :: "u8 list \<Rightarrow> nat \<Rightarrow> u32" where
  "microhash_word data base =
     ucast (microhash_byte data base) OR push_bit 8 (ucast (microhash_byte data (base + 1))) OR
     push_bit 16 (ucast (microhash_byte data (base + 2))) OR push_bit 24 (ucast (microhash_byte data (base + 3)))"

definition microhash_mix :: "u32 \<Rightarrow> u32 \<times> u32 \<Rightarrow> u32 \<times> u32" where
  "microhash_mix word st =
     (let s0 = rotl32 (fst st XOR word) 5 + snd st; s1 = rotl32 (snd st + word) 11 XOR s0 in (s0, s1))"

definition microhash_block :: "u8 list \<Rightarrow> nat \<Rightarrow> u32 \<times> u32 \<Rightarrow> u32 \<times> u32" where
  "microhash_block data off st = fold (\<lambda>i. microhash_mix (microhash_word data (off + i * 4))) [0..<4] st"

definition microhash_u64 :: "u8 list \<Rightarrow> u64" where
  "microhash_u64 data =
     (let st = fold (\<lambda>b. microhash_block data (b * 32)) [0..<microhash_padded (length data) div 32] (0x243F6A88, 0x85A308D3);
          final_val = fst st XOR rotl32 (snd st) 3
      in push_bit 32 (ucast final_val) OR ucast (snd st))"

definition hex_digit :: "u64 \<Rightarrow> char" where
  "hex_digit d = ''0123456789abcdef'' ! unat (d AND 0xF)"

definition hex16 :: "u64 \<Rightarrow> string" where
  "hex16 h = map (\<lambda>i. hex_digit (drop_bit (60 - i * 4) h)) [0..<16]"

definition microhash_hex16 :: "u8 list \<Rightarrow> string" where
  "microhash_hex16 data = hex16 (microhash_u64 data)"

section \<open>Salt and password hash\<close>

definition char_byte :: "char \<Rightarrow> u8" where "char_byte c = of_nat (of_char c)"

definition le_bytes :: "u32 \<Rightarrow> u8 list" where
  "le_bytes w = map (\<lambda>i. ucast (drop_bit (8 * i) w)) [0..<4]"

definition generate_salt :: "u32 \<Rightarrow> u32 \<Rightarrow> string" where
  "generate_salt ticks rtcsec = hex16 (microhash_u64 (le_bytes ticks @ le_bytes rtcsec))"

definition compute_hash :: "string \<Rightarrow> string \<Rightarrow> string" where
  "compute_hash salt_hex password =
     (let plen = length password; total = (if 16 + plen > 1024 then 1024 else 16 + plen)
      in microhash_hex16 (map char_byte (take 16 salt_hex) @ map char_byte (take (total - 16) password)))"

section \<open>The file\<close>

abbreviation "SHADOW_MAX \<equiv> 4096 :: nat"
abbreviation "NUL \<equiv> CHR 0x00"
abbreviation "NL \<equiv> CHR 0x0A"

text \<open>The buffer after a read of \<open>data\<close>: the terminator, then what was there.\<close>

definition load_buf :: "string \<Rightarrow> string \<Rightarrow> string" where
  "load_buf old data = data @ [NUL] @ drop (length data + 1) old"

text \<open>The end of the line that starts at \<open>i\<close>; \<open>None\<close> if no terminator follows.\<close>

function line_end :: "string \<Rightarrow> nat \<Rightarrow> nat option" where
  "line_end buf i = (if length buf \<le> i then None else if buf ! i = NUL \<or> buf ! i = NL then Some i else line_end buf (i + 1))"
  by pat_completeness auto
termination by (relation "measure (\<lambda>(buf, i). length buf - i)") auto

declare line_end.simps [simp del]

text \<open>
  \<open>strncmp(line, username, ulen) == 0 && line[ulen] == ':'\<close>. The name has no terminator in
  it, so that the comparison stops inside the buffer.
\<close>

definition line_of_user :: "string \<Rightarrow> nat \<Rightarrow> string \<Rightarrow> bool" where
  "line_of_user buf line user \<longleftrightarrow> take (length user) (drop line buf) = user \<and>
     line + length user < length buf \<and> buf ! (line + length user) = CHR '':''"

definition chars_at :: "string \<Rightarrow> nat \<Rightarrow> nat \<Rightarrow> string option" where
  "chars_at buf p n = (if p + n \<le> length buf then Some (take n (drop p buf)) else None)"

datatype find_result = Found string string | Not_found | Next_line

text \<open>One round of the search, on the buffer in which the line end has been overwritten.\<close>

definition find_in_line :: "string \<Rightarrow> nat \<Rightarrow> string \<Rightarrow> find_result option" where
  "find_in_line buf line user =
     (if line_of_user buf line user then
        let p = line + length user + 1 in
        if take 4 (drop p buf) = ''$mh$'' then do {
          salt \<leftarrow> chars_at buf (p + 4) 16;
          c \<leftarrow> chars_at buf (p + 20) 1;
          (if c = ''$'' then do {
             stored \<leftarrow> chars_at buf (p + 21) 16;
             Some (Found salt stored)
           } else Some Next_line)
        } else Some Next_line
      else Some Next_line)"

partial_function (option) find_from :: "string \<Rightarrow> nat \<Rightarrow> string \<Rightarrow> find_result option" where
  "find_from buf line user = do {
     c \<leftarrow> chars_at buf line 1;
     if c = [NUL] then Some Not_found
     else do {
       e \<leftarrow> line_end buf line;
       r \<leftarrow> find_in_line (buf[e := NUL]) line user;
       (case r of Next_line \<Rightarrow> find_from buf (if buf ! e = NL then e + 1 else e) user | _ \<Rightarrow> Some r)
     }
   }"

declare find_from.simps [code]

text \<open>The result of the C function: 1 with the two strings, 0, or -1 when the file cannot be read.\<close>

definition shadow_find :: "string option \<Rightarrow> string \<Rightarrow> string \<Rightarrow> (int \<times> string \<times> string) option" where
  "shadow_find file old user =
     (case file of None \<Rightarrow> Some (- 1, [], [])
      | Some data \<Rightarrow> do {
          r \<leftarrow> find_from (load_buf old data) 0 user;
          Some (case r of Found salt stored \<Rightarrow> (1, salt, stored) | _ \<Rightarrow> (0, [], []))
        })"

definition shadow_user_exists :: "string option \<Rightarrow> string \<Rightarrow> string \<Rightarrow> bool option" where
  "shadow_user_exists file old user = map_option (\<lambda>(rc, _). rc = 1) (shadow_find file old user)"

definition shadow_verify :: "string option \<Rightarrow> string \<Rightarrow> string \<Rightarrow> string \<Rightarrow> int option" where
  "shadow_verify file old user password = do {
     (rc, salt, stored) \<leftarrow> shadow_find file old user;
     Some (if rc < 0 then (if user = ''root'' \<and> password = [] then 0 else - 1)
       else if rc = 0 then - 1
       else if take 16 (compute_hash salt password) = take 16 stored then 0 else - 1)
   }"

definition shadow_entry :: "string \<Rightarrow> string \<Rightarrow> string \<Rightarrow> string" where
  "shadow_entry user salt hash = user @ '':$mh$'' @ take 16 salt @ ''$'' @ take 16 hash @ '':::::::'' @ [NL]"

text \<open>The loop that keeps the lines of the other users, as long as they fit.\<close>

partial_function (option) keep_lines :: "string \<Rightarrow> nat \<Rightarrow> string \<Rightarrow> string \<Rightarrow> string option" where
  "keep_lines buf line user out = do {
     c \<leftarrow> chars_at buf line 1;
     if c = [NUL] then Some out
     else do {
       e \<leftarrow> line_end buf line;
       let llen = (e - line) + (if buf ! e = NL then 1 else 0);
           skip = line_of_user buf line user;
           out = (if \<not> skip \<and> length out + llen < SHADOW_MAX - 1 then out @ take llen (drop line buf) else out)
       in keep_lines buf (if buf ! e = NL then e + 1 else e) user out
     }
   }"

declare keep_lines.simps [code]

text \<open>What is handed to \<open>vfs_write_file\<close>; \<open>Inl\<close> is the early error return.\<close>

definition shadow_set_password ::
  "string option \<Rightarrow> string \<Rightarrow> u32 \<Rightarrow> u32 \<Rightarrow> string \<Rightarrow> string \<Rightarrow> (int + string) option" where
  "shadow_set_password file old ticks rtcsec user password =
     (let salt = generate_salt ticks rtcsec; hash = compute_hash salt password in
      if length user > 64 then Some (Inl (- 1))
      else
        let entry = shadow_entry user salt hash;
            buf = load_buf old (case file of None \<Rightarrow> [] | Some data \<Rightarrow> data)
        in do {
          out \<leftarrow> keep_lines buf 0 user [];
          Some (Inr (if length out + length entry < SHADOW_MAX then out @ entry else out))
        })"

end
