(* ===== verification/Shadow_Properties.thy ===== *)
theory Shadow_Properties
  imports Shadow
begin

text \<open>
  The properties of the password database: the file is a list of entries, setting a password
  replaces one entry, and verification accepts what was set.
\<close>

section \<open>Files as lists of entries\<close>

definition plain :: "string \<Rightarrow> bool" where
  "plain s \<longleftrightarrow> NUL \<notin> set s \<and> NL \<notin> set s \<and> CHR '':'' \<notin> set s"

type_synonym entry = "string \<times> string \<times> string"

definition entry_ok :: "entry \<Rightarrow> bool" where
  "entry_ok e = (case e of (u, s, h) \<Rightarrow> plain u \<and> plain s \<and> plain h \<and> length s = 16 \<and> length h = 16)"

definition entry_body :: "entry \<Rightarrow> string" where
  "entry_body e = (case e of (u, s, h) \<Rightarrow> u @ '':$mh$'' @ s @ ''$'' @ h @ '':::::::'')"

definition shadow_file :: "entry list \<Rightarrow> string" where
  "shadow_file es = concat (map (\<lambda>e. entry_body e @ [NL]) es)"

lemma shadow_entry_body: "entry_ok (u, s, h) \<Longrightarrow> shadow_entry u s h = entry_body (u, s, h) @ [NL]"
  by (simp add: shadow_entry_def entry_body_def entry_ok_def)

lemma entry_body_plain:
  "entry_ok e \<Longrightarrow> c \<in> set (entry_body e) \<Longrightarrow> c \<noteq> NUL \<and> c \<noteq> NL"
  by (cases e) (auto simp: entry_body_def entry_ok_def plain_def)

lemma entry_body_nonempty: "entry_body e \<noteq> []"
  by (cases e) (simp add: entry_body_def)

lemma hex_digit_plain: "hex_digit d \<in> set ''0123456789abcdef''"
proof -
  have "d AND 0xF = take_bit 4 d" by (simp add: take_bit_eq_mask mask_numeral)
  then have "unat (d AND 0xF) < 16" by (simp add: unsigned_take_bit_eq take_bit_nat_less_exp[of 4, simplified])
  then show ?thesis unfolding hex_digit_def by (intro nth_mem) simp
qed

lemma hex16_plain: "plain (hex16 h)" "length (hex16 h) = 16"
proof -
  have "set (hex16 h) \<subseteq> set ''0123456789abcdef''" using hex_digit_plain unfolding hex16_def set_map by blast
  then show "plain (hex16 h)" unfolding plain_def by auto
qed (simp add: hex16_def)

lemma new_entry_ok: "plain u \<Longrightarrow> entry_ok (u, generate_salt t r, compute_hash s p)"
  by (simp add: entry_ok_def generate_salt_def compute_hash_def microhash_hex16_def hex16_plain Let_def)

section \<open>Lines\<close>

lemma line_end_at:
  "(\<And>c. c \<in> set l \<Longrightarrow> c \<noteq> NUL \<and> c \<noteq> NL) \<Longrightarrow> z = NUL \<or> z = NL \<Longrightarrow>
     line_end (pre @ l @ z # post) (length pre) = Some (length pre + length l)"
proof (induction l arbitrary: pre)
  case Nil then show ?case by (subst line_end.simps) auto
next
  case (Cons c l)
  have "line_end ((pre @ [c]) @ l @ z # post) (length (pre @ [c])) = Some (length (pre @ [c]) + length l)"
    by (rule Cons.IH) (use Cons.prems in auto)
  moreover have "c \<noteq> NUL \<and> c \<noteq> NL" using Cons.prems(1) by simp
  ultimately show ?case by (subst line_end.simps) simp
qed

lemma line_of_user_body:
  assumes "entry_ok (u, s, h)" "plain user"
  shows "line_of_user (pre @ entry_body (u, s, h) @ z # post) (length pre) user \<longleftrightarrow> user = u"
proof
  let ?b = "entry_body (u, s, h) @ z # post"
  have u: "plain u" using assms by (simp add: entry_ok_def)
  have tw: "takeWhile (\<lambda>c. c \<noteq> CHR '':'') ?b = u" using u by (simp add: entry_body_def plain_def takeWhile_append)
  assume "line_of_user (pre @ ?b) (length pre) user"
  then have l: "take (length user) ?b = user" "length user < length ?b" "?b ! length user = CHR '':''"
    by (auto simp: line_of_user_def nth_append)
  then have "?b = user @ CHR '':'' # drop (Suc (length user)) ?b" by (metis id_take_nth_drop)
  moreover have "takeWhile (\<lambda>c. c \<noteq> CHR '':'') (user @ CHR '':'' # x) = user" for x
    using assms(2) by (simp add: plain_def takeWhile_append)
  ultimately have "takeWhile (\<lambda>c. c \<noteq> CHR '':'') ?b = user" by metis
  with tw show "user = u" by simp
next
  assume "user = u"
  then show "line_of_user (pre @ entry_body (u, s, h) @ z # post) (length pre) user"
    by (simp add: line_of_user_def entry_body_def nth_append)
qed

lemma find_in_body:
  assumes "entry_ok (u, s, h)" "plain user"
  shows "find_in_line (pre @ entry_body (u, s, h) @ NUL # post) (length pre) user =
    Some (if user = u then Found s h else Next_line)"
proof (cases "user = u")
  case False
  then show ?thesis using line_of_user_body[OF assms] by (simp add: find_in_line_def)
next
  case True
  have sh: "length s = 16" "length h = 16" using assms(1) by (simp_all add: entry_ok_def)
  let ?b = "pre @ entry_body (u, s, h) @ NUL # post"
  have l: "line_of_user ?b (length pre) u" using line_of_user_body[OF assms] True by simp
  show ?thesis using sh l True
    by (simp add: find_in_line_def chars_at_def entry_body_def Let_def)
qed

lemma next_char: "chars_at (pre @ c # post) (length pre) 1 = Some [c]"
  by (simp add: chars_at_def)

definition entry_of :: "entry list \<Rightarrow> string \<Rightarrow> entry option" where
  "entry_of es user = find (\<lambda>e. fst e = user) es"

lemma find_from_file:
  "list_all entry_ok es \<Longrightarrow> plain user \<Longrightarrow>
     find_from (pre @ shadow_file es @ NUL # post) (length pre) user =
       Some (case entry_of es user of None \<Rightarrow> Not_found | Some (u, s, h) \<Rightarrow> Found s h)"
proof (induction es arbitrary: pre)
  case Nil
  then show ?case by (subst find_from.simps) (simp add: shadow_file_def entry_of_def chars_at_def)
next
  case (Cons e es)
  obtain u s h where e: "e = (u, s, h)" by (cases e)
  have ok: "entry_ok (u, s, h)" using Cons.prems e by simp
  let ?l = "entry_body (u, s, h)" let ?r = "shadow_file es @ NUL # post"
  let ?b = "pre @ ?l @ NL # ?r"
  have b: "pre @ shadow_file (e # es) @ NUL # post = ?b" by (simp add: shadow_file_def e)
  obtain c l' where l: "?l = c # l'" using entry_body_nonempty[of "(u, s, h)"] by (cases ?l) auto
  have c: "c \<noteq> NUL" using entry_body_plain[OF ok] l by auto
  have le: "line_end ?b (length pre) = Some (length pre + length ?l)"
    by (rule line_end_at) (use entry_body_plain[OF ok] in auto)
  have upd: "?b[length pre + length ?l := NUL] = pre @ ?l @ NUL # ?r" by (simp add: list_update_append)
  have nl: "?b ! (length pre + length ?l) = NL" by (simp add: nth_append)
  have ca: "chars_at ?b (length pre) 1 = Some [c]" using next_char[of pre c "l' @ NL # ?r"] l by simp
  have go: "find_from ?b (length pre) user =
    (if user = u then Some (Found s h) else find_from ?b (length pre + length ?l + 1) user)"
    using c nl by (subst find_from.simps) (simp add: ca le upd find_in_body[OF ok Cons.prems(2)] del: One_nat_def)
  have "find_from ((pre @ ?l @ [NL]) @ ?r) (length (pre @ ?l @ [NL])) user =
       Some (case entry_of es user of None \<Rightarrow> Not_found | Some (u, s, h) \<Rightarrow> Found s h)"
    by (rule Cons.IH) (use Cons.prems in auto)
  then show ?case unfolding b go by (simp add: entry_of_def e)
qed

lemma keep_lines_file:
  "list_all entry_ok es \<Longrightarrow> plain user \<Longrightarrow> length out + length (shadow_file es) < SHADOW_MAX - 1 \<Longrightarrow>
     keep_lines (pre @ shadow_file es @ NUL # post) (length pre) user out =
       Some (out @ shadow_file (filter (\<lambda>e. fst e \<noteq> user) es))"
proof (induction es arbitrary: pre out)
  case Nil
  then show ?case by (subst keep_lines.simps) (simp add: shadow_file_def chars_at_def)
next
  case (Cons e es)
  obtain u s h where e: "e = (u, s, h)" by (cases e)
  have ok: "entry_ok (u, s, h)" using Cons.prems e by simp
  let ?l = "entry_body (u, s, h)" let ?r = "shadow_file es @ NUL # post"
  let ?b = "pre @ ?l @ NL # ?r"
  have b: "pre @ shadow_file (e # es) @ NUL # post = ?b" by (simp add: shadow_file_def e)
  obtain c l' where l: "?l = c # l'" using entry_body_nonempty[of "(u, s, h)"] by (cases ?l) auto
  have c: "c \<noteq> NUL" using entry_body_plain[OF ok] l by auto
  have le: "line_end ?b (length pre) = Some (length pre + length ?l)"
    by (rule line_end_at) (use entry_body_plain[OF ok] in auto)
  have nl: "?b ! (length pre + length ?l) = NL" by (simp add: nth_append)
  have ca: "chars_at ?b (length pre) 1 = Some [c]" using next_char[of pre c "l' @ NL # ?r"] l by simp
  have fits: "length out + (length ?l + 1) < SHADOW_MAX - 1" using Cons.prems(3) by (simp add: shadow_file_def e)
  have t1: "take 1 (NL # ?r) = [NL]" by simp
  let ?out = "if user = u then out else out @ ?l @ [NL]"
  have go: "keep_lines ?b (length pre) user out = keep_lines ?b (length pre + length ?l + 1) user ?out"
    using c nl fits by (subst keep_lines.simps) (simp add: ca le line_of_user_body[OF ok Cons.prems(2)] Let_def t1 del: One_nat_def)
  have "keep_lines ((pre @ ?l @ [NL]) @ ?r) (length (pre @ ?l @ [NL])) user ?out =
       Some (?out @ shadow_file (filter (\<lambda>e. fst e \<noteq> user) es))"
    by (rule Cons.IH) (use Cons.prems e in \<open>auto simp: shadow_file_def\<close>)
  then show ?case unfolding b go by (auto simp: e shadow_file_def)
qed

section \<open>The database\<close>

lemma load_file: "load_buf old (shadow_file es) = [] @ shadow_file es @ NUL # drop (length (shadow_file es) + 1) old"
  by (simp add: load_buf_def)

lemma shadow_find_file:
  assumes "list_all entry_ok es" "plain user"
  shows "shadow_find (Some (shadow_file es)) old user =
    Some (case entry_of es user of None \<Rightarrow> (0, [], []) | Some (u, s, h) \<Rightarrow> (1, s, h))"
  using find_from_file[OF assms, of "[]"] unfolding shadow_find_def option.case load_file
  by (auto split: option.splits)

lemma set_password_file:
  assumes "list_all entry_ok es" "plain user" "length user \<le> 64"
    and "length (shadow_file es) + length (shadow_entry user (generate_salt t r) (compute_hash (generate_salt t r) pw)) < SHADOW_MAX"
    and "file = (if es = [] \<and> absent then None else Some (shadow_file es))"
  shows "shadow_set_password file old t r user pw =
    Some (Inr (shadow_file (filter (\<lambda>e. fst e \<noteq> user) es @ [(user, generate_salt t r, compute_hash (generate_salt t r) pw)])))"
proof -
  let ?e = "(user, generate_salt t r, compute_hash (generate_salt t r) pw)"
  have en: "shadow_entry user (generate_salt t r) (compute_hash (generate_salt t r) pw) = entry_body ?e @ [NL]"
    by (rule shadow_entry_body[OF new_entry_ok[OF assms(2)]])
  have data: "(case file of None \<Rightarrow> [] | Some data \<Rightarrow> data) = shadow_file es"
    using assms(5) by (auto simp: shadow_file_def)
  have "1 \<le> length (entry_body ?e)" using entry_body_nonempty[of ?e] by (cases "entry_body ?e") auto
  then have room: "length [] + length (shadow_file es) < SHADOW_MAX - 1" using assms(4) unfolding en by simp
  have len: "length (shadow_file (filter P es)) \<le> length (shadow_file es)" for P
    by (induction es) (auto simp: shadow_file_def)
  have k: "keep_lines (load_buf old (shadow_file es)) 0 user [] = Some (shadow_file (filter (\<lambda>e. fst e \<noteq> user) es))"
    using keep_lines_file[OF assms(1,2) room, of "[]"] unfolding load_file by simp
  have "length (shadow_file (filter (\<lambda>e. fst e \<noteq> user) es)) + length (entry_body ?e @ [NL]) < SHADOW_MAX"
    using len[of "\<lambda>e. fst e \<noteq> user"] assms(4) unfolding en by linarith
  then show ?thesis using assms(3) unfolding shadow_set_password_def Let_def data en k
    by (simp add: shadow_file_def)
qed

lemma entry_of_update:
  "entry_of (filter (\<lambda>e. fst e \<noteq> user) es @ [(user, x)]) v = (if v = user then Some (user, x) else entry_of es v)"
  unfolding entry_of_def by (induction es) auto

text \<open>
  C30. Setting a password and verifying it round-trip, and nothing else in the database
  moves. Let the file hold the entries \<open>es\<close> (or be absent, with none) and have room for one
  more. Then setting a password produces a file in which the user's old entry is gone and the
  new one is last; verification of that user against it accepts exactly the passwords whose
  salted hash equals that of the password set, so it accepts that password; every other user
  is found, or not found, exactly as before. Without a file, only root with the empty
  password is accepted.
\<close>

theorem shadow_password_roundtrip:
  fixes es user pw t r
  defines "salt \<equiv> generate_salt t r"
  defines "out \<equiv> shadow_file (filter (\<lambda>e. fst e \<noteq> user) es @ [(user, salt, compute_hash salt pw)])"
  assumes "list_all entry_ok es" "plain user" "length user \<le> 64"
    and "length (shadow_file es) + length (shadow_entry user salt (compute_hash salt pw)) < SHADOW_MAX"
    and "file = (if es = [] \<and> absent then None else Some (shadow_file es))"
  shows "shadow_set_password file old t r user pw = Some (Inr out) \<and>
    shadow_verify (Some out) old' user pw' = Some (if compute_hash salt pw' = compute_hash salt pw then 0 else - 1) \<and>
    (\<forall>v. plain v \<and> v \<noteq> user \<longrightarrow> shadow_find (Some out) old' v = shadow_find (Some (shadow_file es)) old' v) \<and>
    (\<forall>v p. shadow_verify None old' v p = Some (if v = ''root'' \<and> p = [] then 0 else - 1))"
proof (intro conjI allI impI)
  let ?es = "filter (\<lambda>e. fst e \<noteq> user) es @ [(user, salt, compute_hash salt pw)]"
  have ok: "list_all entry_ok ?es" using assms(3) new_entry_ok[OF assms(4)] by (auto simp: list_all_iff salt_def)
  show "shadow_set_password file old t r user pw = Some (Inr out)"
    unfolding out_def salt_def by (rule set_password_file) (use assms in auto)
  have len: "length (compute_hash s p) = 16" for s p
    by (simp add: compute_hash_def microhash_hex16_def hex16_plain Let_def)
  show "shadow_verify (Some out) old' user pw' = Some (if compute_hash salt pw' = compute_hash salt pw then 0 else - 1)"
    unfolding shadow_verify_def out_def shadow_find_file[OF ok assms(4)] entry_of_update by (simp add: len)
  fix v assume v: "plain v \<and> v \<noteq> user"
  then show "shadow_find (Some out) old' v = shadow_find (Some (shadow_file es)) old' v"
    unfolding out_def using shadow_find_file[OF ok] shadow_find_file[OF assms(3)] entry_of_update by simp
next
  fix v p show "shadow_verify None old' v p = Some (if v = ''root'' \<and> p = [] then 0 else - 1)"
    by (simp add: shadow_verify_def shadow_find_def)
qed

theorem shadow_password_roundtrip_witness:
  "\<exists>out. shadow_set_password None (replicate 4096 NUL) 1234 5678 ''root'' ''toor'' = Some (Inr out) \<and>
     shadow_verify (Some out) (replicate 4096 NUL) ''root'' ''toor'' = Some 0"
proof -
  have "plain ''root''" "length ''root'' \<le> 64" by (simp_all add: plain_def)
  moreover have "list_all entry_ok []" by simp
  moreover have "length (shadow_file []) +
      length (shadow_entry ''root'' (generate_salt 1234 5678) (compute_hash (generate_salt 1234 5678) ''toor'')) < SHADOW_MAX"
    by (simp add: shadow_file_def shadow_entry_def)
  moreover have "None = (if ([] :: entry list) = [] \<and> True then None else Some (shadow_file []))" by simp
  ultimately show ?thesis
    using shadow_password_roundtrip[of "[]" "''root''" 1234 5678 "''toor''" None True "replicate 4096 NUL" "replicate 4096 NUL" "''toor''"]
    by auto
qed

section \<open>What the hash reads\<close>

text \<open>
  Of each block of 32 bytes only the first 16 enter the state. A message that fits one block,
  at most 27 bytes, is hashed by its first 16 bytes alone.
\<close>

lemma microhash_word_cong:
  assumes "\<And>k. k < 4 \<Longrightarrow> microhash_byte d (b + k) = microhash_byte d' (b + k)"
  shows "microhash_word d b = microhash_word d' b"
  using assms[of 0] assms[of 1] assms[of 2] assms[of 3] by (simp add: microhash_word_def)

lemma microhash_u64_one_block:
  assumes "length d \<le> 27" "length d' \<le> 27" "16 \<le> length d" "16 \<le> length d'" "take 16 d = take 16 d'"
  shows "microhash_u64 d = microhash_u64 d'"
proof -
  have p: "microhash_padded (length d) div 32 = 1" "microhash_padded (length d') div 32 = 1"
    using assms by (simp_all add: microhash_padded_def)
  have nth: "d ! i = d' ! i" if "i < 16" for i using that assms(5) by (metis nth_take)
  have byte: "microhash_byte d i = microhash_byte d' i" if "i < 16" for i
    using that assms(3,4) nth by (simp add: microhash_byte_def)
  have "microhash_word d (0 * 32 + i * 4) = microhash_word d' (0 * 32 + i * 4)" if "i < 4" for i
    by (rule microhash_word_cong) (use that in \<open>simp add: byte\<close>)
  then have "microhash_block d (0 * 32) st = microhash_block d' (0 * 32) st" for st
    unfolding microhash_block_def by (intro fold_cong) auto
  then show ?thesis unfolding microhash_u64_def p by simp
qed

lemma compute_hash_short:
  assumes "length salt = 16" "length pw \<le> 11" "length pw' \<le> 11"
  shows "compute_hash salt pw = compute_hash salt pw'"
proof -
  let ?d = "\<lambda>pw. map char_byte (take 16 salt) @ map char_byte (take (16 + length pw - 16) pw)"
  have "microhash_u64 (?d pw) = microhash_u64 (?d pw')"
    by (rule microhash_u64_one_block) (use assms in simp_all)
  then show ?thesis using assms by (simp add: compute_hash_def microhash_hex16_def Let_def)
qed

text \<open>
  C38. A password of at most 11 characters protects nothing: if a user's stored hash was
  computed from such a password, verification accepts every password of at most 11
  characters, the empty one included. The hash mixes only the first half of each 32-byte
  block, which the salt fills.
\<close>

theorem short_passwords_interchangeable:
  assumes "list_all entry_ok es" "plain user" "entry_of es user = Some (user, salt, compute_hash salt pw)"
    and "length pw \<le> 11" "length attempt \<le> 11"
  shows "shadow_verify (Some (shadow_file es)) old user attempt = Some 0"
proof -
  have "(user, salt, compute_hash salt pw) \<in> set es" using assms(3) by (auto simp: entry_of_def find_Some_iff)
  then have "length salt = 16" using assms(1) by (auto simp: list_all_iff entry_ok_def)
  then have "compute_hash salt attempt = compute_hash salt pw" using compute_hash_short assms(4,5) by blast
  then show ?thesis
    using shadow_find_file[OF assms(1,2), of old] assms(3) by (simp add: shadow_verify_def)
qed

theorem short_passwords_interchangeable_witness:
  "shadow_verify (Some (shadow_file [(''root'', ''0123456789abcdef'', compute_hash ''0123456789abcdef'' ''secret'')])) [] ''root'' [] = Some 0"
proof -
  have p: "plain (hex16 h)" "length (hex16 h) = 16" for h by (rule hex16_plain)+
  show ?thesis
    by (rule short_passwords_interchangeable[where salt = "''0123456789abcdef''" and pw = "''secret''"])
      (simp_all add: entry_ok_def plain_def[of "''root''"] plain_def[of "''0123456789abcdef''"] compute_hash_def microhash_hex16_def
        Let_def p entry_of_def)
qed

end
