(* ===== verification/Vfs.thy ===== *)
theory Vfs
  imports Partition
begin

text \<open>
  The VFS layer: \<^verbatim>\<open>fs/vfs.c\<close>. The mount table is the list of its entries in use. A C
  string is the list of its characters before the terminator; the buffers of \<open>VFS_PATH_MAX\<close>
  characters show in the lengths at which the code cuts.

  The layer is a client of the file-system drivers, the devices and the page cache. A call
  into one of them is a value of \<open>fs_call\<close>; the state keeps the calls made so far in \<open>calls\<close>,
  and what a call returns is an argument, a function of the calls made before it and of
  the call. Terminal output is left out.
\<close>

abbreviation "VFS_PATH_MAX \<equiv> 256 :: nat"
abbreviation "VFS_MOUNT_NAME_MAX \<equiv> 32 :: nat"
abbreviation "MAX_MOUNTS \<equiv> 20 :: nat"
abbreviation "IDE_MAX_DRIVES \<equiv> 4 :: nat"
abbreviation "ROOTFS_SENTINEL \<equiv> ''/usr/lib/crt0.o''"
abbreviation "PART_MBR_FAT32_CHS \<equiv> 0x0B :: u8"
abbreviation "PART_MBR_FAT32_LBA \<equiv> 0x0C :: u8"

section \<open>Paths\<close>

lemma rest_shorter: "p \<noteq> [] \<Longrightarrow> length (drop 1 (dropWhile P p)) < length p"
  using length_dropWhile_le[of P p] by (cases p) auto

text \<open>
  The loop of \<open>path_normalize\<close>. \<open>out\<close> is the output written so far, \<open>comp_start\<close> the stack of
  positions, its top first.
\<close>

function normalize_from :: "nat \<Rightarrow> string \<Rightarrow> nat list \<Rightarrow> string \<Rightarrow> string" where
  "normalize_from outsz p comp_start out =
     (if p = [] then out
      else
        let seg = takeWhile (\<lambda>c. c \<noteq> CHR ''/'') p;
            rest = drop 1 (dropWhile (\<lambda>c. c \<noteq> CHR ''/'') p)
        in if seg = [] \<or> seg = ''.'' then normalize_from outsz rest comp_start out
           else if seg = ''..'' then
             (case comp_start of [] \<Rightarrow> normalize_from outsz rest [] out
              | c # cs \<Rightarrow> normalize_from outsz rest cs (take c out))
           else
             let comp_start' = (if length comp_start < VFS_PATH_MAX div 2 then length out # comp_start else comp_start);
                 out' = (if 1 < length out \<and> length out < outsz - 1 then out @ ''/'' else out)
             in normalize_from outsz rest comp_start' (out' @ take (outsz - 1 - length out') seg))"
  by pat_completeness auto
termination
  by (relation "measure (\<lambda>(outsz, p, cs, out). length p)") (simp_all add: rest_shorter[simplified])

declare normalize_from.simps [simp del]

definition path_normalize :: "string \<Rightarrow> nat \<Rightarrow> string" where
  "path_normalize inp outsz =
     normalize_from outsz (if take 1 inp = ''/'' then drop 1 inp else inp) [] (if 1 < outsz then ''/'' else [])"

text \<open>\<open>path\<close> is \<open>None\<close> for the null pointer; \<open>cwd\<close> is what \<open>cwd_buf()\<close> points to.\<close>

definition path_resolve :: "string \<Rightarrow> string option \<Rightarrow> string" where
  "path_resolve cwd path =
     (case path of None \<Rightarrow> path_normalize cwd VFS_PATH_MAX
      | Some p \<Rightarrow>
          if p = [] then path_normalize cwd VFS_PATH_MAX
          else if hd p = CHR ''/'' then path_normalize p VFS_PATH_MAX
          else
            let tmp = (if length cwd + 1 + length p + 1 \<le> VFS_PATH_MAX * 2 then cwd @ ''/'' @ p else ''/'')
            in path_normalize tmp VFS_PATH_MAX)"

section \<open>The mount table\<close>

datatype vfs_backend = VFS_BACKEND_NONE | VFS_BACKEND_EXT2 | VFS_BACKEND_FAT32 | VFS_BACKEND_ISO9660
  | VFS_BACKEND_DEVFS | VFS_BACKEND_PROCFS | VFS_BACKEND_TMPFS | VFS_BACKEND_LOGFS

record vfs_mount =
  mountpoint :: string
  backend :: vfs_backend
  drive :: u8
  lba :: u32
  slot_name :: string

datatype fs_call =
    Ext2_probe u8 u32
  | Mount vfs_backend u8 u32
  | Unmount vfs_backend
  | Iso_probe u8
  | Devfs_init
  | Dev_lookup string
  | Dev_location int
  | Dev_size int
  | Dev_pread int u32 u32
  | Dev_pwrite int "u8 list" u32
  | File_exists vfs_backend u8 string
  | List_dir vfs_backend u8 string
  | Cd vfs_backend string
  | Read_file vfs_backend u8 string u32
  | Read_at vfs_backend u8 string u32 u32
  | Write_file vfs_backend u8 string "u8 list"
  | Mkdir vfs_backend u8 string
  | Delete_file vfs_backend u8 string
  | Delete_dir vfs_backend string
  | Complete vfs_backend u8 string string
  | Report string
  | Rename_file vfs_backend string string
  | Rename_dir vfs_backend string string
  | Ext2_stat string
  | Tmpfs_size u8 string
  | Ext2_statfs
  | Kmalloc u32
  | Kfree
  | Invalidate string
  | Fs_lock
  | Fs_unlock

text \<open>What a call returns: its result, and what it stores through its pointer arguments.\<close>

record answer =
  rc :: int
  out_data :: "u8 list"
  out_sz :: u32
  out_isdir :: bool
  out_drive :: u8
  out_lba :: u32

text \<open>The machine around the layer: the drivers' answers, the drives and their partitions.\<close>

record env =
  answer_of :: "fs_call list \<Rightarrow> fs_call \<Rightarrow> answer"
  is_ata :: "nat \<Rightarrow> bool"
  is_atapi :: "nat \<Rightarrow> bool"
  probe_parts :: "nat \<Rightarrow> int \<times> disk_parts"

record vfs =
  s_mounts :: "vfs_mount list"
  s_cdrom_drive :: int
  s_boot_biosdev :: u32
  s_boot_cwd :: string
  cwds :: "string list"
  me :: "nat option"
  calls :: "fs_call list"

definition call :: "env \<Rightarrow> fs_call \<Rightarrow> vfs \<Rightarrow> answer \<times> vfs" where
  "call e c s = (answer_of e (calls s) c, s\<lparr>calls := calls s @ [c]\<rparr>)"

definition cwd_buf :: "vfs \<Rightarrow> string" where
  "cwd_buf s = (case me s of None \<Rightarrow> s_boot_cwd s | Some t \<Rightarrow> cwds s ! t)"

definition set_cwd :: "string \<Rightarrow> vfs \<Rightarrow> vfs" where
  "set_cwd p s = (case me s of None \<Rightarrow> s\<lparr>s_boot_cwd := p\<rparr> | Some t \<Rightarrow> s\<lparr>cwds := (cwds s)[t := p]\<rparr>)"

text \<open>The index of the first entry with a property, -1 in the source when there is none.\<close>

definition find_index :: "(vfs_mount \<Rightarrow> bool) \<Rightarrow> vfs_mount list \<Rightarrow> nat option" where
  "find_index P ms = find (\<lambda>i. P (ms ! i)) [0..<length ms]"

definition mount_find_exact :: "string \<Rightarrow> vfs \<Rightarrow> nat option" where
  "mount_find_exact mp s = find_index (\<lambda>m. mountpoint m = mp) (s_mounts s)"

definition mount_find_slot :: "string \<Rightarrow> vfs \<Rightarrow> nat option" where
  "mount_find_slot name s =
     (if name = [] then None else find_index (\<lambda>m. slot_name m \<noteq> [] \<and> slot_name m = name) (s_mounts s))"

definition mount_add :: "string \<Rightarrow> vfs_backend \<Rightarrow> u8 \<Rightarrow> u32 \<Rightarrow> string \<Rightarrow> vfs \<Rightarrow> nat option \<times> vfs" where
  "mount_add mp b d l slot s =
     (if MAX_MOUNTS \<le> length (s_mounts s) then (None, s)
      else if VFS_PATH_MAX \<le> length mp then (None, s)
      else (Some (length (s_mounts s)),
        s\<lparr>s_mounts := s_mounts s @
           [\<lparr>mountpoint = mp, backend = b, drive = d, lba = l, slot_name = take (VFS_MOUNT_NAME_MAX - 1) slot\<rparr>]\<rparr>))"

definition mount_remove :: "nat \<Rightarrow> vfs \<Rightarrow> vfs" where
  "mount_remove idx s =
     (if length (s_mounts s) \<le> idx then s
      else s\<lparr>s_mounts := take idx (s_mounts s) @ drop (idx + 1) (s_mounts s)\<rparr>)"

definition backend_in_use :: "vfs_backend \<Rightarrow> vfs \<Rightarrow> bool" where
  "backend_in_use b s = list_ex (\<lambda>m. backend m = b) (s_mounts s)"

definition backend_volume_in_use :: "vfs_backend \<Rightarrow> u8 \<Rightarrow> u32 \<Rightarrow> vfs \<Rightarrow> bool" where
  "backend_volume_in_use b d l s = list_ex (\<lambda>m. backend m = b \<and> drive m = d \<and> lba m = l) (s_mounts s)"

definition mount_has_alias :: "nat \<Rightarrow> vfs \<Rightarrow> bool" where
  "mount_has_alias idx s =
     (idx < length (s_mounts s) \<and>
      list_ex (\<lambda>i. i \<noteq> idx \<and> backend (s_mounts s ! i) = backend (s_mounts s ! idx) \<and>
        drive (s_mounts s ! i) = drive (s_mounts s ! idx) \<and> lba (s_mounts s ! i) = lba (s_mounts s ! idx))
       [0..<length (s_mounts s)])"

definition mount_is_bound :: "nat \<Rightarrow> vfs \<Rightarrow> bool" where
  "mount_is_bound idx s \<longleftrightarrow> idx < length (s_mounts s) \<and> backend (s_mounts s ! idx) \<noteq> VFS_BACKEND_NONE"

fun backend_name :: "vfs_backend \<Rightarrow> string" where
  "backend_name VFS_BACKEND_EXT2 = ''ext2''"
| "backend_name VFS_BACKEND_FAT32 = ''FAT32''"
| "backend_name VFS_BACKEND_ISO9660 = ''ISO9660''"
| "backend_name VFS_BACKEND_DEVFS = ''devfs''"
| "backend_name VFS_BACKEND_PROCFS = ''procfs''"
| "backend_name VFS_BACKEND_TMPFS = ''tmpfs''"
| "backend_name VFS_BACKEND_LOGFS = ''logfs''"
| "backend_name VFS_BACKEND_NONE = ''none''"

section \<open>Routing\<close>

text \<open>One round of the search: \<open>best\<close> is the entry found so far with the length of its mountpoint.\<close>

definition route_step :: "vfs_mount list \<Rightarrow> string \<Rightarrow> nat \<Rightarrow> (nat \<times> nat) option \<Rightarrow> (nat \<times> nat) option" where
  "route_step ms path i best =
     (let mp = mountpoint (ms ! i); mn = length mp in
      if mp = ''/'' then (if best = None then Some (i, 1) else best)
      else if take mn path \<noteq> mp then best
      else if mn < length path \<and> path ! mn \<noteq> CHR ''/'' then best
      else if (case best of None \<Rightarrow> 0 | Some (_, best_len) \<Rightarrow> best_len) < mn then Some (i, mn)
      else best)"

definition vfs_route :: "string \<Rightarrow> vfs \<Rightarrow> nat option \<times> string" where
  "vfs_route path s =
     (case fold (route_step (s_mounts s) path) [0..<length (s_mounts s)] None of
        None \<Rightarrow> (None, path)
      | Some (best, _) \<Rightarrow>
          let mp = mountpoint (s_mounts s ! best); mn = length mp in
          (Some best, if mp = ''/'' then path else if take 1 (drop mn path) = ''/'' then drop mn path else ''/''))"

section \<open>Dispatch to the drivers\<close>

definition fs_backend_disk :: "vfs_backend \<Rightarrow> bool" where
  "fs_backend_disk b \<longleftrightarrow> b = VFS_BACKEND_EXT2 \<or> b = VFS_BACKEND_FAT32 \<or> b = VFS_BACKEND_ISO9660"

text \<open>The file-system lock is taken and released around the calls to the disk drivers.\<close>

definition with_fs_lock :: "env \<Rightarrow> vfs_backend \<Rightarrow> (vfs \<Rightarrow> 'a \<times> vfs) \<Rightarrow> vfs \<Rightarrow> 'a \<times> vfs" where
  "with_fs_lock e b f s =
     (if fs_backend_disk b then
        let (_, s) = call e Fs_lock s; (r, s) = f s; (_, s) = call e Fs_unlock s in (r, s)
      else f s)"

text \<open>ISO9660 takes the drive and tmpfs its namespace; the other drivers take neither.\<close>

definition drv_arg :: "vfs_mount \<Rightarrow> u8" where
  "drv_arg m = (if backend m = VFS_BACKEND_ISO9660 \<or> backend m = VFS_BACKEND_TMPFS then drive m else 0)"

definition rc_call :: "env \<Rightarrow> fs_call \<Rightarrow> vfs \<Rightarrow> int \<times> vfs" where
  "rc_call e c s = (case call e c s of (a, s) \<Rightarrow> (rc a, s))"

definition backend_ls :: "env \<Rightarrow> vfs_mount \<Rightarrow> string \<Rightarrow> vfs \<Rightarrow> int \<times> vfs" where
  "backend_ls e m p = with_fs_lock e (backend m)
     (if backend m = VFS_BACKEND_NONE then Pair (- 1) else rc_call e (List_dir (backend m) (drv_arg m) p))"

definition backend_cd :: "env \<Rightarrow> vfs_mount \<Rightarrow> string \<Rightarrow> vfs \<Rightarrow> int \<times> vfs" where
  "backend_cd e m p = with_fs_lock e (backend m)
     (if backend m = VFS_BACKEND_EXT2 \<or> backend m = VFS_BACKEND_FAT32 then rc_call e (Cd (backend m) p) else Pair 0)"

definition dev_read :: "env \<Rightarrow> string \<Rightarrow> u32 \<Rightarrow> vfs \<Rightarrow> (int \<times> u8 list) \<times> vfs" where
  "dev_read e p bufsz s =
     (let (idx, s) = rc_call e (Dev_lookup p) s in
      if idx < 0 then ((- 1, []), s)
      else let (a, s) = call e (Dev_pread idx bufsz 0) s in
        if rc a < 0 then ((- 1, []), s) else ((0, out_data a), s))"

definition backend_read_file :: "env \<Rightarrow> vfs_mount \<Rightarrow> string \<Rightarrow> u32 \<Rightarrow> vfs \<Rightarrow> (int \<times> u8 list) \<times> vfs" where
  "backend_read_file e m p bufsz = with_fs_lock e (backend m) (\<lambda>s.
     (case backend m of
        VFS_BACKEND_NONE \<Rightarrow> ((- 1, []), s)
      | VFS_BACKEND_DEVFS \<Rightarrow> dev_read e p bufsz s
      | _ \<Rightarrow>
          let (a, s) = call e (Read_file (backend m) (drv_arg m) p bufsz) s in
          ((if backend m = VFS_BACKEND_LOGFS \<or> backend m = VFS_BACKEND_TMPFS then (if rc a < 0 then - 1 else 0) else rc a,
            out_data a), s)))"

definition backend_read_at :: "env \<Rightarrow> vfs_mount \<Rightarrow> string \<Rightarrow> u32 \<Rightarrow> u32 \<Rightarrow> vfs \<Rightarrow> (int \<times> u8 list) \<times> vfs" where
  "backend_read_at e m p off len s =
     (if \<not> fs_backend_disk (backend m) then ((- 1, []), s)
      else with_fs_lock e (backend m)
        (\<lambda>s. let (a, s) = call e (Read_at (backend m) (drv_arg m) p off len) s in ((rc a, out_data a), s)) s)"

definition backend_write_file :: "env \<Rightarrow> vfs_mount \<Rightarrow> string \<Rightarrow> u8 list \<Rightarrow> vfs \<Rightarrow> int \<times> vfs" where
  "backend_write_file e m p buf = with_fs_lock e (backend m) (\<lambda>s.
     (case backend m of
        VFS_BACKEND_EXT2 \<Rightarrow> rc_call e (Write_file (backend m) (drv_arg m) p buf) s
      | VFS_BACKEND_FAT32 \<Rightarrow> rc_call e (Write_file (backend m) (drv_arg m) p buf) s
      | VFS_BACKEND_TMPFS \<Rightarrow>
          (case rc_call e (Write_file (backend m) (drv_arg m) p buf) s of (r, s) \<Rightarrow> (if r < 0 then - 1 else 0, s))
      | _ \<Rightarrow> (- 1, s)))"

definition backend_mkdir :: "env \<Rightarrow> vfs_mount \<Rightarrow> string \<Rightarrow> vfs \<Rightarrow> int \<times> vfs" where
  "backend_mkdir e m p = with_fs_lock e (backend m)
     (if backend m \<in> {VFS_BACKEND_EXT2, VFS_BACKEND_FAT32, VFS_BACKEND_TMPFS}
      then rc_call e (Mkdir (backend m) (drv_arg m) p) else Pair (- 1))"

definition backend_delete_file :: "env \<Rightarrow> vfs_mount \<Rightarrow> string \<Rightarrow> vfs \<Rightarrow> int \<times> vfs" where
  "backend_delete_file e m p = with_fs_lock e (backend m)
     (if backend m \<in> {VFS_BACKEND_EXT2, VFS_BACKEND_FAT32, VFS_BACKEND_TMPFS}
      then rc_call e (Delete_file (backend m) (drv_arg m) p) else Pair (- 1))"

definition backend_delete_dir :: "env \<Rightarrow> vfs_mount \<Rightarrow> string \<Rightarrow> vfs \<Rightarrow> int \<times> vfs" where
  "backend_delete_dir e m p = with_fs_lock e (backend m)
     (if backend m = VFS_BACKEND_EXT2 \<or> backend m = VFS_BACKEND_FAT32
      then rc_call e (Delete_dir (backend m) p) else Pair (- 1))"

definition backend_file_exists :: "env \<Rightarrow> vfs_mount \<Rightarrow> string \<Rightarrow> vfs \<Rightarrow> int \<times> vfs" where
  "backend_file_exists e m p = with_fs_lock e (backend m)
     (if backend m = VFS_BACKEND_NONE then Pair 0 else rc_call e (File_exists (backend m) (drv_arg m) p))"

definition backend_complete :: "env \<Rightarrow> vfs_mount \<Rightarrow> string \<Rightarrow> string \<Rightarrow> vfs \<Rightarrow> int \<times> vfs" where
  "backend_complete e m p pre = with_fs_lock e (backend m)
     (if backend m = VFS_BACKEND_NONE then Pair (- 1) else rc_call e (Complete (backend m) (drv_arg m) p pre))"

definition backend_unmount :: "env \<Rightarrow> vfs_backend \<Rightarrow> vfs \<Rightarrow> vfs" where
  "backend_unmount e b s =
     (if b = VFS_BACKEND_EXT2 \<or> b = VFS_BACKEND_FAT32 then snd (call e (Unmount b) s) else s)"

section \<open>Working directories\<close>

definition fixup_cwd_mounted :: "string \<Rightarrow> string \<Rightarrow> string" where
  "fixup_cwd_mounted cwd path = (if cwd = ''/'' then take (VFS_PATH_MAX - 1) path else cwd)"

definition fixup_cwd_unmounted :: "string \<Rightarrow> string \<Rightarrow> string" where
  "fixup_cwd_unmounted cwd path =
     (if cwd = path \<or> take (length path + 1) cwd = path @ ''/'' then ''/'' else cwd)"

definition apply_cwd_fixup :: "(string \<Rightarrow> string \<Rightarrow> string) \<Rightarrow> string \<Rightarrow> vfs \<Rightarrow> vfs" where
  "apply_cwd_fixup fn path s = s\<lparr>s_boot_cwd := fn (s_boot_cwd s) path, cwds := map (\<lambda>c. fn c path) (cwds s)\<rparr>"

section \<open>Start-up\<close>

fun probe_cdrom :: "env \<Rightarrow> nat list \<Rightarrow> vfs \<Rightarrow> vfs" where
  "probe_cdrom e [] s = s"
| "probe_cdrom e (i # is) s =
     (if \<not> is_atapi e i then probe_cdrom e is s
      else let (r, s) = rc_call e (Iso_probe (of_nat i)) s in
        if r = 0 then s\<lparr>s_cdrom_drive := int i\<rparr> else probe_cdrom e is s)"

definition cdrom_u8 :: "vfs \<Rightarrow> u8" where "cdrom_u8 s = of_int (s_cdrom_drive s)"

definition add_mount :: "string \<Rightarrow> vfs_backend \<Rightarrow> u8 \<Rightarrow> u32 \<Rightarrow> string \<Rightarrow> vfs \<Rightarrow> vfs" where
  "add_mount mp b d l slot s = snd (mount_add mp b d l slot s)"

definition vfs_init :: "env \<Rightarrow> vfs \<Rightarrow> vfs" where
  "vfs_init e s =
     (let s = s\<lparr>s_boot_cwd := ''/'', s_cdrom_drive := - 1, s_mounts := []\<rparr>;
          s = probe_cdrom e [0..<IDE_MAX_DRIVES] s;
          s = add_mount ''/dev'' VFS_BACKEND_DEVFS 0 0 [] s;
          s = add_mount ''/proc'' VFS_BACKEND_PROCFS 0 0 [] s;
          s = add_mount ''/tmp'' VFS_BACKEND_TMPFS 0 0 [] s;
          s = add_mount ''/log'' VFS_BACKEND_LOGFS 0 0 [] s;
          s = (if 0 \<le> s_cdrom_drive s then add_mount ''/mnt/cdrom'' VFS_BACKEND_ISO9660 (cdrom_u8 s) 0 ''cdrom'' s else s);
          s = add_mount ''/mnt/boot'' VFS_BACKEND_NONE 0 0 ''boot'' s;
          s = add_mount ''/mnt/root'' VFS_BACKEND_NONE 0 0 ''root'' s
      in snd (call e Devfs_init s))"

definition vfs_getcwd :: "vfs \<Rightarrow> string" where "vfs_getcwd s = cwd_buf s"

definition vfs_set_boot_drive :: "u32 \<Rightarrow> vfs \<Rightarrow> vfs" where
  "vfs_set_boot_drive biosdev s = s\<lparr>s_boot_biosdev := biosdev\<rparr>"

definition volume_has_sentinel :: "env \<Rightarrow> vfs_backend \<Rightarrow> u8 \<Rightarrow> u32 \<Rightarrow> vfs \<Rightarrow> bool \<times> vfs" where
  "volume_has_sentinel e b d l s =
     (let already = backend_in_use b s;
          (r, s) = (if already then (0, s) else rc_call e (Mount b d l) s)
      in if r \<noteq> 0 then (False, s)
         else let (ok, s) = rc_call e (File_exists b 0 ROOTFS_SENTINEL) s
           in (ok \<noteq> 0, if already then s else snd (call e (Unmount b) s)))"

definition try_mount_root :: "env \<Rightarrow> vfs_backend \<Rightarrow> u8 \<Rightarrow> u32 \<Rightarrow> vfs \<Rightarrow> int \<times> vfs" where
  "try_mount_root e b d l s =
     (if backend_in_use b s then (- 1, s)
      else let (r, s) = rc_call e (Mount b d l) s in
        if r \<noteq> 0 then (r, s)
        else (case mount_add ''/'' b d l [] s of
            (None, s) \<Rightarrow> (- 1, backend_unmount e b s)
          | (Some _, s) \<Rightarrow> (0, s)))"

text \<open>The steps of \<open>vfs_mount_root\<close>; each says whether it has elected a root.\<close>

definition root_on_cdrom :: "env \<Rightarrow> vfs \<Rightarrow> bool \<times> vfs" where
  "root_on_cdrom e s =
     (if s_cdrom_drive s < 0 then (False, s)
      else let (ok, s) = rc_call e (File_exists VFS_BACKEND_ISO9660 (cdrom_u8 s) ROOTFS_SENTINEL) s in
        if ok = 0 then (False, s)
        else (case mount_add ''/'' VFS_BACKEND_ISO9660 (cdrom_u8 s) 0 [] s of (r, s) \<Rightarrow> (r \<noteq> None, s)))"

definition root_on_node :: "env \<Rightarrow> string \<Rightarrow> vfs \<Rightarrow> bool \<times> vfs" where
  "root_on_node e spec s =
     (let (node, s) = rc_call e (Dev_lookup (drop 4 spec)) s in
      if node < 0 then (False, s)
      else let (a, s) = call e (Dev_location node) s in
        if rc a \<noteq> 0 then (False, s)
        else
          let (is_ext2, s) = rc_call e (Ext2_probe (out_drive a) (out_lba a)) s;
              (r, s) = (if is_ext2 \<noteq> 0 then try_mount_root e VFS_BACKEND_EXT2 (out_drive a) (out_lba a) s else (- 1, s))
          in if r = 0 then (True, s)
             else case try_mount_root e VFS_BACKEND_FAT32 (out_drive a) (out_lba a) s of (r, s) \<Rightarrow> (r = 0, s))"

definition root_on_volume :: "env \<Rightarrow> vfs_backend \<Rightarrow> u8 \<Rightarrow> u32 \<Rightarrow> vfs \<Rightarrow> bool \<times> vfs" where
  "root_on_volume e b d l s =
     (let (ok, s) = volume_has_sentinel e b d l s in
      if ok then (case try_mount_root e b d l s of (r, s) \<Rightarrow> (r = 0, s)) else (False, s))"

fun root_on_parts :: "env \<Rightarrow> u8 \<Rightarrow> part_info list \<Rightarrow> vfs \<Rightarrow> bool \<times> vfs" where
  "root_on_parts e d [] s = (False, s)"
| "root_on_parts e d (p # ps) s =
     (let (is_ext2, s) = rc_call e (Ext2_probe d (lba_start p)) s;
          (elected, s) = (if is_ext2 \<noteq> 0 then root_on_volume e VFS_BACKEND_EXT2 d (lba_start p) s else (False, s))
      in if elected then (True, s)
         else let (elected, s) = root_on_volume e VFS_BACKEND_FAT32 d (lba_start p) s in
           if elected then (True, s) else root_on_parts e d ps s)"

fun root_on_drives :: "env \<Rightarrow> nat list \<Rightarrow> vfs \<Rightarrow> bool \<times> vfs" where
  "root_on_drives e [] s = (False, s)"
| "root_on_drives e (d # ds) s =
     (if \<not> is_ata e d \<or> fst (probe_parts e d) \<noteq> 0 then root_on_drives e ds s
      else let (elected, s) = root_on_parts e (of_nat d) (parts (snd (probe_parts e d))) s in
        if elected then (True, s) else root_on_drives e ds s)"

definition vfs_mount_root :: "env \<Rightarrow> string option \<Rightarrow> vfs \<Rightarrow> vfs" where
  "vfs_mount_root e spec s =
     (if spec = Some ''none'' then s
      else
        let (elected, s) = (if spec = Some ''cdrom'' then root_on_cdrom e s else (False, s)) in
        if elected then s
        else
          let (elected, s) = (case spec of None \<Rightarrow> (False, s)
                | Some p \<Rightarrow> if take 5 p = ''/dev/'' then root_on_node e p s else (False, s)) in
          if elected then s
          else
            let (elected, s) = root_on_drives e [0..<IDE_MAX_DRIVES] s in
            if elected then s else snd (root_on_cdrom e s))"

section \<open>Binding volumes\<close>

definition bind_mount :: "nat \<Rightarrow> vfs_backend \<Rightarrow> u8 \<Rightarrow> u32 \<Rightarrow> vfs \<Rightarrow> vfs" where
  "bind_mount mi b d l s =
     s\<lparr>s_mounts := (s_mounts s)[mi := (s_mounts s ! mi)\<lparr>backend := b, drive := d, lba := l\<rparr>]\<rparr>"

definition bind_and_enter :: "nat \<Rightarrow> vfs_backend \<Rightarrow> u8 \<Rightarrow> u32 \<Rightarrow> vfs \<Rightarrow> vfs" where
  "bind_and_enter mi b d l s = apply_cwd_fixup fixup_cwd_mounted (mountpoint (s_mounts s ! mi)) (bind_mount mi b d l s)"

definition probe_backend :: "env \<Rightarrow> u8 \<Rightarrow> u32 \<Rightarrow> vfs \<Rightarrow> vfs_backend \<times> vfs" where
  "probe_backend e d l s =
     (let (r, s) = rc_call e (Ext2_probe d l) s in (if r \<noteq> 0 then VFS_BACKEND_EXT2 else VFS_BACKEND_FAT32, s))"

definition bind_root_slot :: "env \<Rightarrow> nat \<Rightarrow> u8 \<Rightarrow> u32 \<Rightarrow> vfs \<Rightarrow> bool \<times> vfs" where
  "bind_root_slot e mi d l s =
     (let (b, s) = probe_backend e d l s in
      if backend_in_use b s then
        (if backend_volume_in_use b d l s then (True, bind_and_enter mi b d l s) else (False, s))
      else let (r, s) = rc_call e (Mount b d l) s in
        if r = 0 then (True, bind_and_enter mi b d l s) else (False, s))"

definition bind_boot_slot :: "env \<Rightarrow> u8 \<Rightarrow> disk_parts \<Rightarrow> vfs \<Rightarrow> vfs" where
  "bind_boot_slot e d dp s =
     (let boot_p = parts dp ! 0;
          boot_is_fat32 = (if scheme dp = PART_SCHEME_MBR
             then mbr_type boot_p = PART_MBR_FAT32_CHS \<or> mbr_type boot_p = PART_MBR_FAT32_LBA
             else type_guid boot_p = PART_GUID_FAT32)
      in case mount_find_slot ''boot'' s of
           None \<Rightarrow> s
         | Some boot_mi \<Rightarrow>
             if boot_is_fat32 \<and> \<not> mount_is_bound boot_mi s \<and> \<not> backend_in_use VFS_BACKEND_FAT32 s then
               let (r, s) = rc_call e (Mount VFS_BACKEND_FAT32 d (lba_start boot_p)) s in
               if r = 0 then
                 add_mount ''/boot'' VFS_BACKEND_FAT32 d (lba_start boot_p) []
                   (bind_mount boot_mi VFS_BACKEND_FAT32 d (lba_start boot_p) s)
               else s
             else s)"

definition try_mount_drive :: "env \<Rightarrow> nat \<Rightarrow> vfs \<Rightarrow> bool \<times> vfs" where
  "try_mount_drive e i s =
     (if \<not> is_ata e i \<or> fst (probe_parts e i) \<noteq> 0 \<or> parts (snd (probe_parts e i)) = [] then (False, s)
      else
        let d = of_nat i; dp = snd (probe_parts e i) in
        if length (parts dp) = 1 then
          (case mount_find_slot ''root'' s of
             None \<Rightarrow> (False, s)
           | Some root_mi \<Rightarrow>
               if mount_is_bound root_mi s then (False, s)
               else bind_root_slot e root_mi d (lba_start (parts dp ! 0)) s)
        else
          let (mounted, s) =
               (case mount_find_slot ''root'' s of
                  None \<Rightarrow> (False, s)
                | Some root_mi \<Rightarrow>
                    if mount_is_bound root_mi s then (False, s)
                    else bind_root_slot e root_mi d (lba_start (parts dp ! 1)) s)
          in (mounted, bind_boot_slot e d dp s))"

fun try_mount_drives :: "env \<Rightarrow> nat list \<Rightarrow> vfs \<Rightarrow> vfs" where
  "try_mount_drives e [] s = s"
| "try_mount_drives e (i # is) s =
     (let (hd_mounted, s) = try_mount_drive e i s in if hd_mounted then s else try_mount_drives e is s)"

definition vfs_rootfs_is_disk :: "vfs \<Rightarrow> bool" where
  "vfs_rootfs_is_disk s =
     (case find_index (\<lambda>m. mountpoint m = ''/'') (s_mounts s) of
        None \<Rightarrow> False
      | Some i \<Rightarrow> backend (s_mounts s ! i) = VFS_BACKEND_EXT2 \<or> backend (s_mounts s ! i) = VFS_BACKEND_FAT32)"

definition vfs_auto_mount :: "env \<Rightarrow> vfs \<Rightarrow> vfs" where
  "vfs_auto_mount e s =
     (let hint = unat (s_boot_biosdev s - 0x80);
          (hd_mounted, s) =
            (if 0x80 \<le> s_boot_biosdev s \<and> s_boot_biosdev s \<le> 0xDF \<and> hint < IDE_MAX_DRIVES
             then try_mount_drive e hint s else (False, s));
          s = (if hd_mounted then s else try_mount_drives e [0..<IDE_MAX_DRIVES] s)
      in if vfs_rootfs_is_disk s then s
         else add_mount ''/home/user'' VFS_BACKEND_TMPFS 2 0 []
                (add_mount ''/home'' VFS_BACKEND_TMPFS 3 0 []
                  (add_mount ''/root'' VFS_BACKEND_TMPFS 1 0 [] s)))"

section \<open>Mounting and unmounting by the user\<close>

text \<open>Names are non-null strings; the checks on them come first in both operations.\<close>

definition bad_mount_name :: "string \<Rightarrow> bool" where
  "bad_mount_name name \<longleftrightarrow> name = [] \<or> CHR ''/'' \<in> set name \<or> VFS_MOUNT_NAME_MAX \<le> length name"

text \<open>The result is the return value with the file-system kind stored through \<open>out_fs\<close>.\<close>

definition vfs_mount_hd :: "env \<Rightarrow> u8 \<Rightarrow> u32 \<Rightarrow> string \<Rightarrow> vfs \<Rightarrow> (int \<times> int option) \<times> vfs" where
  "vfs_mount_hd e d l name s =
     (if bad_mount_name name then ((- 1, None), s)
      else if name = ''cdrom'' then ((- 13, None), s)
      else case mount_find_slot name s of
          None \<Rightarrow> ((- 14, None), s)
        | Some mi \<Rightarrow>
            if mount_is_bound mi s then ((- 10, None), s)
            else
              let (b, s) = probe_backend e d l s in
              if backend_in_use b s then ((- 11, None), s)
              else let (r, s) = rc_call e (Mount b d l) s in
                if r \<noteq> 0 then ((r, None), s)
                else ((0, Some (if b = VFS_BACKEND_EXT2 then 2 else 1)), bind_and_enter mi b d l s))"

definition vfs_make_mountpoint :: "string \<Rightarrow> vfs \<Rightarrow> int \<times> vfs" where
  "vfs_make_mountpoint name s =
     (if bad_mount_name name then (- 1, s)
      else if name = ''cdrom'' then (- 13, s)
      else if mount_find_slot name s \<noteq> None then (- 6, s)
      else if VFS_PATH_MAX < 5 + length name + 1 then (- 1, s)
      else case mount_add (''/mnt/'' @ name) VFS_BACKEND_NONE 0 0 name s of
          (None, s) \<Rightarrow> (- 12, s)
        | (Some _, s) \<Rightarrow> (0, s))"

definition vfs_remove_mountpoint :: "string \<Rightarrow> vfs \<Rightarrow> int \<times> vfs" where
  "vfs_remove_mountpoint name s =
     (case mount_find_slot name s of
        None \<Rightarrow> (- 1, s)
      | Some mi \<Rightarrow> if mount_is_bound mi s then (- 16, s) else (0, mount_remove mi s))"

text \<open>The sole bound disk volume among the slots, if there is exactly one.\<close>

definition sole_volume :: "vfs \<Rightarrow> string option" where
  "sole_volume s =
     (case filter (\<lambda>m. slot_name m \<noteq> [] \<and> (backend m = VFS_BACKEND_EXT2 \<or> backend m = VFS_BACKEND_FAT32)) (s_mounts s) of
        [m] \<Rightarrow> Some (slot_name m) | _ \<Rightarrow> None)"

definition unbind_mount :: "nat \<Rightarrow> vfs \<Rightarrow> vfs" where
  "unbind_mount mi s = s\<lparr>s_mounts := (s_mounts s)[mi := (s_mounts s ! mi)\<lparr>backend := VFS_BACKEND_NONE\<rparr>]\<rparr>"

definition vfs_umount_hd :: "env \<Rightarrow> string option \<Rightarrow> vfs \<Rightarrow> int \<times> vfs" where
  "vfs_umount_hd e nm s =
     (case (case nm of None \<Rightarrow> sole_volume s | Some n \<Rightarrow> if n = [] then sole_volume s else Some n) of
        None \<Rightarrow> (- 20, s)
      | Some name \<Rightarrow>
          (case mount_find_slot name s of
             None \<Rightarrow> (- 1, s)
           | Some mi \<Rightarrow>
               if \<not> mount_is_bound mi s then (- 15, s)
               else
                 let s = (if mount_has_alias mi s then s else backend_unmount e (backend (s_mounts s ! mi)) s);
                     s = apply_cwd_fixup fixup_cwd_unmounted (mountpoint (s_mounts s ! mi)) s;
                     s = unbind_mount mi s
                 in (0, case mount_find_exact ''/boot'' s of
                      None \<Rightarrow> s
                    | Some boot_idx \<Rightarrow> if slot_name (s_mounts s ! mi) = ''boot'' then mount_remove boot_idx s else s)))"

definition vfs_hd_mounted :: "vfs \<Rightarrow> bool" where
  "vfs_hd_mounted s = list_ex (\<lambda>m. backend m = VFS_BACKEND_EXT2 \<or> backend m = VFS_BACKEND_FAT32) (s_mounts s)"

definition vfs_statfs :: "env \<Rightarrow> vfs \<Rightarrow> int \<times> vfs" where
  "vfs_statfs e s =
     (case find_index (\<lambda>m. mountpoint m = ''/'') (s_mounts s) of
        None \<Rightarrow> (- 1, s)
      | Some i \<Rightarrow> if backend (s_mounts s ! i) = VFS_BACKEND_EXT2 then rc_call e Ext2_statfs s else (- 1, s))"

definition vfs_hd_fsname :: "string option \<Rightarrow> vfs \<Rightarrow> string" where
  "vfs_hd_fsname nm s =
     (case Option.bind nm (\<lambda>n. mount_find_slot n s) of
        None \<Rightarrow> ''none'' | Some mi \<Rightarrow> backend_name (backend (s_mounts s ! mi)))"

definition shutdown_entry :: "env \<Rightarrow> nat \<Rightarrow> vfs \<Rightarrow> vfs" where
  "shutdown_entry e i s =
     (let b = backend (s_mounts s ! i) in
      if b \<noteq> VFS_BACKEND_EXT2 \<and> b \<noteq> VFS_BACKEND_FAT32 then s
      else unbind_mount i (if mount_has_alias i s then s else backend_unmount e b s))"

definition vfs_prepare_shutdown :: "env \<Rightarrow> vfs \<Rightarrow> vfs" where
  "vfs_prepare_shutdown e s = fold (shutdown_entry e) (rev [0..<length (s_mounts s)]) s"

definition eject_entry :: "nat \<Rightarrow> vfs \<Rightarrow> vfs" where
  "eject_entry i s =
     (if backend (s_mounts s ! i) = VFS_BACKEND_ISO9660
      then mount_remove i (apply_cwd_fixup fixup_cwd_unmounted (mountpoint (s_mounts s ! i)) s) else s)"

definition vfs_notify_cdrom_ejected :: "vfs \<Rightarrow> vfs" where
  "vfs_notify_cdrom_ejected s = fold eject_entry (rev [0..<length (s_mounts s)]) (s\<lparr>s_cdrom_drive := - 1\<rparr>)"

section \<open>Operations on paths\<close>

definition resolve :: "string option \<Rightarrow> vfs \<Rightarrow> string" where
  "resolve path s = path_resolve (cwd_buf s) path"

definition one_component :: "string \<Rightarrow> bool" where
  "one_component mp \<longleftrightarrow> take 1 mp = ''/'' \<and> mp \<noteq> ''/'' \<and> CHR ''/'' \<notin> set (drop 1 mp)"

definition is_immediate_child :: "string \<Rightarrow> string \<Rightarrow> bool" where
  "is_immediate_child mp parent \<longleftrightarrow>
     take (length parent + 1) mp = parent @ ''/'' \<and> length parent + 1 < length mp \<and>
     CHR ''/'' \<notin> set (drop (length parent + 1) mp)"

text \<open>The part of \<open>ls_root\<close> that calls a driver; the names are only printed.\<close>

definition ls_root :: "env \<Rightarrow> vfs \<Rightarrow> vfs" where
  "ls_root e s =
     (case mount_find_exact ''/'' s of None \<Rightarrow> s | Some i \<Rightarrow> snd (backend_ls e (s_mounts s ! i) ''/'' s))"

definition vfs_ls :: "env \<Rightarrow> string option \<Rightarrow> vfs \<Rightarrow> int \<times> vfs" where
  "vfs_ls e path s =
     (let p = resolve path s in
      if p = ''/'' then (0, ls_root e s)
      else if p = ''/mnt'' then (0, s)
      else case vfs_route p s of
          (None, _) \<Rightarrow> (- 1, s)
        | (Some idx, drv) \<Rightarrow>
            if backend (s_mounts s ! idx) = VFS_BACKEND_NONE then (0, s) else backend_ls e (s_mounts s ! idx) drv s)"

definition vfs_cd :: "env \<Rightarrow> string option \<Rightarrow> vfs \<Rightarrow> int \<times> vfs" where
  "vfs_cd e path s =
     (let p = resolve path s; (idx, drv) = vfs_route p s; cwd = take (VFS_PATH_MAX - 1) p in
      if p = ''/'' \<or> p = ''/mnt'' then (0, set_cwd p s)
      else case idx of
          None \<Rightarrow> (- 1, s)
        | Some i \<Rightarrow>
            let m = s_mounts s ! i in
            if backend m = VFS_BACKEND_NONE then (0, set_cwd p s)
            else if backend m = VFS_BACKEND_EXT2 \<or> backend m = VFS_BACKEND_FAT32 then
              (case backend_cd e m drv s of (r, s) \<Rightarrow> if r \<noteq> 0 then (- 1, s) else (0, set_cwd cwd s))
            else if backend m = VFS_BACKEND_ISO9660 then (0, set_cwd cwd s)
            else if drv = ''/'' then (0, set_cwd cwd s) else (- 1, s))"

text \<open>What is printed is returned.\<close>

definition vfs_cat :: "env \<Rightarrow> string option \<Rightarrow> vfs \<Rightarrow> (int \<times> u8 list) \<times> vfs" where
  "vfs_cat e path s =
     (case vfs_route (resolve path s) s of
        (None, _) \<Rightarrow> ((- 1, []), s)
      | (Some idx, drv) \<Rightarrow>
          let m = s_mounts s ! idx in
          if backend m = VFS_BACKEND_NONE then ((- 1, []), s)
          else let (buf, s) = rc_call e (Kmalloc 0x10000) s in
            if buf = 0 then ((- 1, []), s)
            else let ((err, got), s) = backend_read_file e m drv 0x10000 s; (_, s) = call e Kfree s in
              if err \<noteq> 0 then ((- 1, []), s)
              else ((0, if got \<noteq> [] \<and> last got \<noteq> 0x0A then got @ [0x0A] else got), s))"

definition mnt_leaf :: "string \<Rightarrow> nat \<Rightarrow> string option" where
  "mnt_leaf p outsz =
     (if take 5 p = ''/mnt/'' \<and> drop 5 p \<noteq> [] \<and> CHR ''/'' \<notin> set (drop 5 p) \<and> length (drop 5 p) < outsz
      then Some (drop 5 p) else None)"

definition vfs_mkdir :: "env \<Rightarrow> string option \<Rightarrow> vfs \<Rightarrow> int \<times> vfs" where
  "vfs_mkdir e path s =
     (let p = resolve path s in
      case mnt_leaf p VFS_MOUNT_NAME_MAX of
        Some name \<Rightarrow> (case vfs_make_mountpoint name s of (r, s) \<Rightarrow> (if r = 0 then 0 else - 1, s))
      | None \<Rightarrow>
          (case vfs_route p s of
             (None, _) \<Rightarrow> (- 1, s)
           | (Some idx, drv) \<Rightarrow>
               if backend (s_mounts s ! idx) = VFS_BACKEND_NONE \<or> backend (s_mounts s ! idx) = VFS_BACKEND_ISO9660 then (- 1, s)
               else backend_mkdir e (s_mounts s ! idx) drv s))"

text \<open>The guard that the file operations share: the entry must exist and be bound.\<close>

definition routed :: "string \<Rightarrow> vfs \<Rightarrow> (vfs_mount \<times> string) option" where
  "routed p s =
     (case vfs_route p s of
        (None, _) \<Rightarrow> None
      | (Some idx, drv) \<Rightarrow>
          if backend (s_mounts s ! idx) = VFS_BACKEND_NONE then None else Some (s_mounts s ! idx, drv))"

definition vfs_read_file :: "env \<Rightarrow> string option \<Rightarrow> u32 \<Rightarrow> vfs \<Rightarrow> (int \<times> u8 list) \<times> vfs" where
  "vfs_read_file e path bufsz s =
     (case routed (resolve path s) s of None \<Rightarrow> ((- 1, []), s) | Some (m, drv) \<Rightarrow> backend_read_file e m drv bufsz s)"

definition vfs_read_at :: "env \<Rightarrow> string option \<Rightarrow> u32 \<Rightarrow> u32 \<Rightarrow> vfs \<Rightarrow> (int \<times> u8 list) \<times> vfs" where
  "vfs_read_at e path off len s =
     (case routed (resolve path s) s of None \<Rightarrow> ((- 1, []), s) | Some (m, drv) \<Rightarrow> backend_read_at e m drv off len s)"

definition vfs_path_is_disk :: "string option \<Rightarrow> vfs \<Rightarrow> bool" where
  "vfs_path_is_disk path s =
     (case vfs_route (resolve path s) s of (None, _) \<Rightarrow> False | (Some idx, _) \<Rightarrow> fs_backend_disk (backend (s_mounts s ! idx)))"

definition vfs_write_file :: "env \<Rightarrow> string option \<Rightarrow> u8 list \<Rightarrow> vfs \<Rightarrow> int \<times> vfs" where
  "vfs_write_file e path buf s =
     (let p = resolve path s in
      case routed p s of None \<Rightarrow> (- 1, s)
      | Some (m, drv) \<Rightarrow> let (_, s) = call e (Invalidate p) s in backend_write_file e m drv buf s)"

definition vfs_delete_file :: "env \<Rightarrow> string option \<Rightarrow> vfs \<Rightarrow> int \<times> vfs" where
  "vfs_delete_file e path s =
     (let p = resolve path s in
      case routed p s of None \<Rightarrow> (- 1, s)
      | Some (m, drv) \<Rightarrow> let (_, s) = call e (Invalidate p) s in backend_delete_file e m drv s)"

definition vfs_delete_dir :: "env \<Rightarrow> string option \<Rightarrow> vfs \<Rightarrow> int \<times> vfs" where
  "vfs_delete_dir e path s =
     (let p = resolve path s in
      case mnt_leaf p VFS_MOUNT_NAME_MAX of
        Some name \<Rightarrow> (case vfs_remove_mountpoint name s of (r, s) \<Rightarrow> (if r = - 16 then - 1 else r, s))
      | None \<Rightarrow> (case routed p s of None \<Rightarrow> (- 1, s) | Some (m, drv) \<Rightarrow> backend_delete_dir e m drv s))"

definition vfs_rename :: "env \<Rightarrow> string option \<Rightarrow> string option \<Rightarrow> vfs \<Rightarrow> int \<times> vfs" where
  "vfs_rename e old_path new_path s =
     (let p = resolve old_path s; q = resolve new_path s in
      case (vfs_route p s, vfs_route q s) of
        ((Some oi, old_drv), (Some ni, new_drv)) \<Rightarrow>
          let b = backend (s_mounts s ! oi) in
          if b \<noteq> backend (s_mounts s ! ni) then (- 1, s)
          else
            let (_, s) = call e (Invalidate p) s; (_, s) = call e (Invalidate q) s in
            if b = VFS_BACKEND_EXT2 \<or> b = VFS_BACKEND_FAT32 then
              let (is_file, s) = rc_call e (File_exists b 0 old_drv) s
              in rc_call e (if is_file \<noteq> 0 then Rename_file b old_drv new_drv else Rename_dir b old_drv new_drv) s
            else (- 1, s)
      | _ \<Rightarrow> (- 1, s))"

definition vfs_file_exists :: "env \<Rightarrow> string option \<Rightarrow> vfs \<Rightarrow> int \<times> vfs" where
  "vfs_file_exists e path s =
     (case routed (resolve path s) s of None \<Rightarrow> (0, s) | Some (m, drv) \<Rightarrow> backend_file_exists e m drv s)"

definition vfs_ensure_root_home :: "env \<Rightarrow> vfs \<Rightarrow> vfs" where
  "vfs_ensure_root_home e s =
     (case mount_find_exact ''/'' s of None \<Rightarrow> s
      | Some i \<Rightarrow>
          if backend (s_mounts s ! i) \<noteq> VFS_BACKEND_EXT2 \<and> backend (s_mounts s ! i) \<noteq> VFS_BACKEND_FAT32 then s
          else let (ex, s) = vfs_file_exists e (Some ''/root'') s in
            if ex \<noteq> 0 then s else snd (vfs_mkdir e (Some ''/root'') s))"

definition vfs_blockdev_lookup :: "env \<Rightarrow> string option \<Rightarrow> vfs \<Rightarrow> (int \<times> u32) \<times> vfs" where
  "vfs_blockdev_lookup e path s =
     (case vfs_route (resolve path s) s of
        (None, _) \<Rightarrow> ((- 1, 0), s)
      | (Some idx, drv) \<Rightarrow>
          if backend (s_mounts s ! idx) \<noteq> VFS_BACKEND_DEVFS then ((- 1, 0), s)
          else let (node, s) = rc_call e (Dev_lookup drv) s in
            if node < 0 then ((- 1, 0), s)
            else let (a, s) = call e (Dev_size node) s in ((node, out_sz a), s))"

datatype stat_kind = VFS_STAT_FILE | VFS_STAT_DIR | VFS_STAT_BLOCKDEV

definition stat_by_read :: "env \<Rightarrow> vfs_mount \<Rightarrow> string \<Rightarrow> vfs \<Rightarrow> (int \<times> u32 \<times> stat_kind) \<times> vfs" where
  "stat_by_read e m drv s =
     (let (a, s) = call e (Read_file (backend m) (drv_arg m) drv 0xFFFFFFFF) s in
      if rc a = 0 then ((0, out_sz a, VFS_STAT_FILE), s) else ((- 1, 0, VFS_STAT_FILE), s))"

text \<open>procfs and logfs are read into a heap buffer; a negative result is an error for both.\<close>

definition stat_by_copy :: "env \<Rightarrow> vfs_mount \<Rightarrow> string \<Rightarrow> u32 \<Rightarrow> vfs \<Rightarrow> (int \<times> u32 \<times> stat_kind) \<times> vfs" where
  "stat_by_copy e m drv n s =
     (let (buf, s) = rc_call e (Kmalloc n) s in
      if buf = 0 then ((- 1, 0, VFS_STAT_FILE), s)
      else let (a, s) = call e (Read_file (backend m) (drv_arg m) drv n) s; (_, s) = call e Kfree s in
        if (if backend m = VFS_BACKEND_LOGFS then rc a < 0 else rc a \<noteq> 0) then ((- 1, 0, VFS_STAT_FILE), s)
        else ((0, out_sz a, VFS_STAT_FILE), s))"

definition vfs_stat :: "env \<Rightarrow> string option \<Rightarrow> vfs \<Rightarrow> (int \<times> u32 \<times> stat_kind) \<times> vfs" where
  "vfs_stat e path s =
     (let p = resolve path s; err = (- 1, 0, VFS_STAT_FILE); dir = (0, 0, VFS_STAT_DIR) in
      if p = ''/'' \<or> p = ''/mnt'' then (dir, s)
      else case vfs_route p s of
          (None, _) \<Rightarrow> (err, s)
        | (Some idx, drv) \<Rightarrow>
            let m = s_mounts s ! idx in
            if backend m = VFS_BACKEND_NONE \<or> drv = ''/'' \<and> p = mountpoint m then (dir, s)
            else (case backend m of
                VFS_BACKEND_EXT2 \<Rightarrow>
                  (let (a, s) = call e (Ext2_stat drv) s in
                   if rc a \<noteq> 0 then (err, s)
                   else ((0, out_sz a, if out_isdir a then VFS_STAT_DIR else VFS_STAT_FILE), s))
              | VFS_BACKEND_FAT32 \<Rightarrow> stat_by_read e m drv s
              | VFS_BACKEND_ISO9660 \<Rightarrow> stat_by_read e m drv s
              | VFS_BACKEND_PROCFS \<Rightarrow>
                  (let (ex, s) = rc_call e (File_exists VFS_BACKEND_PROCFS 0 drv) s in
                   if ex = 0 then (err, s) else stat_by_copy e m drv 4096 s)
              | VFS_BACKEND_LOGFS \<Rightarrow> stat_by_copy e m drv 0x10000 s
              | VFS_BACKEND_TMPFS \<Rightarrow>
                  (let (n, s) = rc_call e (Tmpfs_size (drive m) drv) s in
                   if n < 0 then (err, s) else ((0, of_int n, VFS_STAT_FILE), s))
              | VFS_BACKEND_DEVFS \<Rightarrow>
                  (let ((node, n), s) = vfs_blockdev_lookup e (Some p) s in
                   if node < 0 then (err, s) else ((0, n, VFS_STAT_BLOCKDEV), s))
              | VFS_BACKEND_NONE \<Rightarrow> (err, s)))"

definition vfs_blockdev_pread :: "env \<Rightarrow> int \<Rightarrow> u32 \<Rightarrow> u32 \<Rightarrow> vfs \<Rightarrow> answer \<times> vfs" where
  "vfs_blockdev_pread e node len off = call e (Dev_pread node len off)"

definition vfs_blockdev_pwrite :: "env \<Rightarrow> int \<Rightarrow> u8 list \<Rightarrow> u32 \<Rightarrow> vfs \<Rightarrow> int \<times> vfs" where
  "vfs_blockdev_pwrite e node buf off = rc_call e (Dev_pwrite node buf off)"

text \<open>A call of the callback by the layer itself is \<open>Report\<close>.\<close>

definition report_all :: "env \<Rightarrow> bool \<Rightarrow> string list \<Rightarrow> vfs \<Rightarrow> vfs" where
  "report_all e cb names s = (if cb then fold (\<lambda>n s. snd (call e (Report n) s)) names s else s)"

definition vfs_complete :: "env \<Rightarrow> string option \<Rightarrow> string \<Rightarrow> bool \<Rightarrow> vfs \<Rightarrow> int \<times> vfs" where
  "vfs_complete e dir prefix cb s =
     (let p = resolve (Some (case dir of None \<Rightarrow> cwd_buf s | Some d \<Rightarrow> d)) s in
      if p = ''/'' then
        let s = report_all e cb (map (drop 1) (filter one_component (map mountpoint (s_mounts s)))) s
        in (case mount_find_exact ''/'' s of None \<Rightarrow> (0, s)
            | Some i \<Rightarrow> backend_complete e (s_mounts s ! i) ''/'' prefix s)
      else if p = ''/mnt'' then
        (0, report_all e cb
              (map (\<lambda>m. if slot_name m \<noteq> [] then slot_name m else drop 5 (mountpoint m))
                (filter (\<lambda>m. is_immediate_child (mountpoint m) ''/mnt'') (s_mounts s))) s)
      else case routed p s of None \<Rightarrow> (- 1, s) | Some (m, drv) \<Rightarrow> backend_complete e m drv prefix s)"

section \<open>The file-system lock\<close>

text \<open>
  The recursive lock. \<open>fs_try_lock\<close> is one round of the loop of \<open>vfs_fs_lock\<close>, whose test and
  update run with interrupts off; \<open>None\<close> means that the task yields and tries again.
\<close>

record fs_lock =
  s_fs_owner :: int
  s_fs_depth :: int

definition fs_try_lock :: "int \<Rightarrow> fs_lock \<Rightarrow> fs_lock option" where
  "fs_try_lock self k =
     (if s_fs_owner k = - 1 \<or> s_fs_owner k = self
      then Some (k\<lparr>s_fs_owner := self, s_fs_depth := s_fs_depth k + 1\<rparr>) else None)"

definition vfs_fs_unlock :: "fs_lock \<Rightarrow> fs_lock" where
  "vfs_fs_unlock k =
     (if s_fs_depth k > 0 then
        let k = k\<lparr>s_fs_depth := s_fs_depth k - 1\<rparr> in if s_fs_depth k = 0 then k\<lparr>s_fs_owner := - 1\<rparr> else k
      else k)"

end
