(* ===== verification/Vfs_Paths.thy ===== *)
theory Vfs_Paths
  imports Vfs
begin

text \<open>
  Facts about paths and routing: \<open>path_normalize\<close> against a reference on lists of components,
  and the entry that \<open>vfs_route\<close> selects.
\<close>

section \<open>The reference: lists of components\<close>

function comps :: "string \<Rightarrow> string list" where
  "comps p = (if p = [] then [] else takeWhile (\<lambda>c. c \<noteq> CHR ''/'') p # comps (drop 1 (dropWhile (\<lambda>c. c \<noteq> CHR ''/'') p)))"
  by pat_completeness auto
termination by (relation "measure length") (simp_all add: rest_shorter[simplified])

declare comps.simps [simp del]

text \<open>Going to a component: empty and \<open>.\<close> stay, \<open>..\<close> goes up, and the root is its own parent.\<close>

definition visit :: "string list \<Rightarrow> string \<Rightarrow> string list" where
  "visit cs seg = (if seg = [] \<or> seg = ''.'' then cs else if seg = ''..'' then butlast cs else cs @ [seg])"

definition body :: "string list \<Rightarrow> string" where "body cs = concat (map ((#) CHR ''/'') cs)"

definition render :: "string list \<Rightarrow> string" where "render cs = (if cs = [] then ''/'' else body cs)"

definition good_comp :: "string \<Rightarrow> bool" where
  "good_comp c \<longleftrightarrow> c \<noteq> [] \<and> CHR ''/'' \<notin> set c \<and> c \<noteq> ''.'' \<and> c \<noteq> ''..''"

lemma body_snoc [simp]: "body (cs @ [c]) = body cs @ CHR ''/'' # c" by (simp add: body_def)

lemma body_Cons [simp]: "body (c # cs) = CHR ''/'' # c @ body cs" by (simp add: body_def)

lemma body_Nil [simp]: "body [] = []" by (simp add: body_def)

lemma two_per_comp: "list_all good_comp cs \<Longrightarrow> 2 * length cs \<le> length (body cs)"
  by (induction cs) (auto simp: body_def good_comp_def simp flip: length_greater_0_conv)

lemma visit_good: "list_all good_comp cs \<Longrightarrow> CHR ''/'' \<notin> set seg \<Longrightarrow> list_all good_comp (visit cs seg)"
  by (auto simp: visit_def good_comp_def list_all_iff dest: in_set_butlastD)

lemma seg_no_slash: "CHR ''/'' \<notin> set (takeWhile (\<lambda>c. c \<noteq> CHR ''/'') p)"
  by (auto dest: set_takeWhileD)

lemma foldl_visit_good: "list_all good_comp cs \<Longrightarrow> list_all good_comp (foldl visit cs (comps p))"
proof (induction p arbitrary: cs rule: length_induct)
  case (1 p)
  show ?case
  proof (cases "p = []")
    case True then show ?thesis using 1 by (simp add: comps.simps)
  next
    case False
    then show ?thesis using 1 visit_good[OF 1(2) seg_no_slash] rest_shorter[OF False]
      by (subst comps.simps) simp
  qed
qed

section \<open>The loop\<close>

definition starts :: "string list \<Rightarrow> nat list" where
  "starts cs = map (\<lambda>i. length (render (take i cs))) (rev [0..<length cs])"

lemma starts_snoc: "starts (cs @ [c]) = length (render cs) # starts cs"
  by (simp add: starts_def)

lemma take_render: "take (length (render cs)) (render (cs @ [c])) = render cs"
  by (simp add: render_def)

lemma render_snoc:
  "render (cs @ [c]) = (if 1 < length (render cs) then render cs @ ''/'' else render cs) @ c" if "list_all good_comp cs"
proof (cases cs)
  case (Cons a list)
  then have "0 < length cs" by simp
  with two_per_comp[OF that] have "1 < length (body cs)" by linarith
  then show ?thesis using Cons body_snoc[of cs c] by (simp add: render_def)
qed (simp add: render_def)

lemma seg_rest_length:
  assumes "drop 1 (dropWhile (\<lambda>c. c \<noteq> CHR ''/'') p) \<noteq> []"
  shows "length (takeWhile (\<lambda>c. c \<noteq> CHR ''/'') p) + 1 + length (drop 1 (dropWhile (\<lambda>c. c \<noteq> CHR ''/'') p)) = length p"
proof -
  have "length p = length (takeWhile (\<lambda>c. c \<noteq> CHR ''/'') p) + length (dropWhile (\<lambda>c. c \<noteq> CHR ''/'') p)"
    by (metis length_append takeWhile_dropWhile_id)
  then show ?thesis using assms by simp
qed

lemma normalize_from_comps:
  "list_all good_comp cs \<Longrightarrow> p = [] \<or> length (body cs) + 1 + length p \<le> 255 \<Longrightarrow>
     normalize_from VFS_PATH_MAX p (starts cs) (render cs) = render (foldl visit cs (comps p))"
proof (induction p arbitrary: cs rule: length_induct)
  case (1 p)
  define seg rest where "seg = takeWhile (\<lambda>c. c \<noteq> CHR ''/'') p" and "rest = drop 1 (dropWhile (\<lambda>c. c \<noteq> CHR ''/'') p)"
  show ?case
  proof (cases "p = []")
    case True then show ?thesis by (simp add: comps.simps normalize_from.simps)
  next
    case False
    have len: "length (body cs) + 1 + length p \<le> 255" using 1 False by simp
    have c: "comps p = seg # comps rest" using False by (subst comps.simps) (simp add: seg_def rest_def)
    have rl: "rest = [] \<or> length seg + 1 + length rest = length p"
      unfolding seg_def rest_def using seg_rest_length by blast
    have sl: "length seg \<le> length p" unfolding seg_def by (rule length_takeWhile_le)
    have IH: "normalize_from VFS_PATH_MAX rest (starts ds) (render ds) = render (foldl visit ds (comps rest))"
      if "list_all good_comp ds" "rest = [] \<or> length (body ds) + 1 + length rest \<le> 255" for ds
      using 1(1) that rest_shorter[OF False, of "\<lambda>c. c \<noteq> CHR ''/''"] unfolding rest_def[symmetric] by blast
    note unf = normalize_from.simps[of VFS_PATH_MAX p, folded seg_def rest_def]
    consider "seg = [] \<or> seg = ''.''" | "seg = ''..''" "cs = []" | ds d where "seg = ''..''" "cs = ds @ [d]"
      | "good_comp seg"
      using seg_no_slash[of p] unfolding good_comp_def seg_def[symmetric] by (metis rev_exhaust)
    then show ?thesis
    proof cases
      assume s: "seg = [] \<or> seg = ''.''"
      then have "visit cs seg = cs" by (simp add: visit_def)
      moreover have "normalize_from VFS_PATH_MAX rest (starts cs) (render cs) = render (foldl visit cs (comps rest))"
        by (rule IH) (use 1(2) len rl in auto)
      ultimately show ?thesis using s False unfolding c by (subst unf) (auto simp: Let_def)
    next
      assume s: "seg = ''..''" "cs = []"
      have "normalize_from VFS_PATH_MAX rest (starts []) (render []) = render (foldl visit [] (comps rest))"
        by (rule IH) (use len rl s in auto)
      then show ?thesis using s False unfolding c by (subst unf) (simp add: Let_def visit_def starts_def)
    next
      fix ds d assume s: "seg = ''..''" "cs = ds @ [d]"
      have "normalize_from VFS_PATH_MAX rest (starts ds) (render ds) = render (foldl visit ds (comps rest))"
        by (rule IH) (use 1(2) len rl s in auto)
      then show ?thesis using s False take_render[of ds d] unfolding c
        by (subst unf) (simp add: Let_def visit_def starts_snoc)
    next
      assume g: "good_comp seg"
      then have s: "seg \<noteq> []" "seg \<noteq> ''.''" "seg \<noteq> ''..''" by (simp_all add: good_comp_def)
      let ?out = "if 1 < length (render cs) then render cs @ ''/'' else render cs"
      have "1 \<le> length seg" using s by (cases seg) auto
      then have eq: "(if 1 < length (render cs) \<and> length (render cs) < VFS_PATH_MAX - 1 then render cs @ ''/'' else render cs) = ?out"
        using len sl by (auto simp: render_def)
      have st: "length (starts cs) < VFS_PATH_MAX div 2"
        using two_per_comp[OF 1(2)] len sl \<open>1 \<le> length seg\<close> by (simp add: starts_def)
      have "length ?out + length seg \<le> VFS_PATH_MAX - 1" using len sl by (auto simp: render_def)
      then have "?out @ take (VFS_PATH_MAX - 1 - length ?out) seg = render (cs @ [seg])"
        unfolding render_snoc[OF 1(2)] by (intro arg_cong2[where f = "(@)"] take_all refl) linarith
      then have "normalize_from VFS_PATH_MAX p (starts cs) (render cs) =
          normalize_from VFS_PATH_MAX rest (starts (cs @ [seg])) (render (cs @ [seg]))"
        by (subst unf) (simp only: Let_def eq s False st simp_thms if_True if_False starts_snoc)
      moreover have "normalize_from VFS_PATH_MAX rest (starts (cs @ [seg])) (render (cs @ [seg])) =
          render (foldl visit (cs @ [seg]) (comps rest))"
        by (rule IH) (use 1(2) len rl g in auto)
      moreover have "visit cs seg = cs @ [seg]" using s by (simp add: visit_def)
      ultimately show ?thesis unfolding c by simp
    qed
  qed
qed


lemma path_normalize_render:
  assumes "length (if take 1 p = ''/'' then drop 1 p else p) \<le> 254"
  shows "path_normalize p VFS_PATH_MAX = render (foldl visit [] (comps p))"
proof -
  let ?q = "if take 1 p = ''/'' then drop 1 p else p"
  have "foldl visit [] (comps p) = foldl visit [] (comps ?q)"
    by (cases p) (auto simp: comps.simps[of "CHR ''/'' # _"] visit_def)
  moreover have "normalize_from VFS_PATH_MAX ?q (starts []) (render []) = render (foldl visit [] (comps ?q))"
    by (rule normalize_from_comps) (use assms in auto)
  ultimately show ?thesis by (simp add: path_normalize_def starts_def render_def)
qed

lemma seg_slash:
  assumes "CHR ''/'' \<notin> set xs"
  shows "takeWhile (\<lambda>c. c \<noteq> CHR ''/'') (xs @ CHR ''/'' # zs) = xs" "dropWhile (\<lambda>c. c \<noteq> CHR ''/'') (xs @ CHR ''/'' # zs) = CHR ''/'' # zs"
    "takeWhile (\<lambda>c. c \<noteq> CHR ''/'') xs = xs" "dropWhile (\<lambda>c. c \<noteq> CHR ''/'') xs = []"
  using assms by (induction xs) auto

lemma comps_append_slash:
  "comps (xs @ CHR ''/'' # ys) = comps (xs @ ''/'') @ comps ys"
proof (induction xs rule: length_induct)
  case (1 xs)
  let ?P = "\<lambda>c. c \<noteq> CHR ''/''"
  show ?case
  proof (cases "CHR ''/'' \<in> set xs")
    case True
    then have d: "takeWhile ?P (xs @ zs) = takeWhile ?P xs" "dropWhile ?P (xs @ zs) = dropWhile ?P xs @ zs"
        for zs by auto
    obtain z zs where z: "dropWhile ?P xs = z # zs" using True by (cases "dropWhile ?P xs") auto
    have "comps (xs @ CHR ''/'' # ys) = takeWhile ?P xs # comps (drop 1 (dropWhile ?P xs) @ CHR ''/'' # ys)"
      using d z by (subst comps.simps) auto
    moreover have "comps (xs @ ''/'') = takeWhile ?P xs # comps (drop 1 (dropWhile ?P xs) @ ''/'')"
      using d z by (subst comps.simps) auto
    moreover have "length (drop 1 (dropWhile ?P xs)) < length xs" using rest_shorter[of xs ?P] True by (cases xs) auto
    ultimately show ?thesis using 1 by simp
  next
    case False
    note seg_slash(1,2)[OF False]
    then show ?thesis by (subst (1 2) comps.simps) (simp add: comps.simps[of "[]"])
  qed
qed

lemma comps_no_slash:
  "c \<noteq> [] \<Longrightarrow> CHR ''/'' \<notin> set c \<Longrightarrow> comps c = [c]" "CHR ''/'' \<notin> set c \<Longrightarrow> comps (c @ ''/'') = [c]"
  by (simp_all add: seg_slash comps.simps[of c] comps.simps[of "c @ _"] comps.simps[of "[]"])

lemma comps_body: "list_all good_comp cs \<Longrightarrow> cs \<noteq> [] \<Longrightarrow> comps (body cs) = [] # cs"
proof (induction cs rule: rev_induct)
  case (snoc c cs)
  have c: "comps c = [c]" using snoc.prems by (intro comps_no_slash(1)) (auto simp: good_comp_def)
  show ?case
  proof (cases "cs = []")
    case True
    then show ?thesis using c by (subst comps.simps) simp
  next
    case False
    have "comps (body cs) = [] # cs" using snoc False by simp
    moreover have "comps (body cs @ ''/'') = comps (body cs)"
      if "list_all good_comp cs"
      using that False
    proof (induction cs rule: rev_induct)
      case (snoc d ds)
      then have d: "comps d = [d]" "comps (d @ ''/'') = [d]"
        using comps_no_slash[of d] by (auto simp: good_comp_def)
      show ?case using comps_append_slash[of "body ds" d] comps_append_slash[of "body ds" "d @ ''/''"] d by simp
    qed simp
    ultimately show ?thesis using snoc.prems c comps_append_slash[of "body cs" c] by simp
  qed
qed simp

lemma foldl_visit_id: "list_all good_comp cs \<Longrightarrow> foldl visit ds cs = ds @ cs"
  by (induction cs arbitrary: ds) (auto simp: visit_def good_comp_def)

lemma comps_render: "list_all good_comp cs \<Longrightarrow> foldl visit [] (comps (render cs)) = cs"
proof (cases "cs = []")
  case False
  assume "list_all good_comp cs"
  then show ?thesis using False comps_body[of cs] foldl_visit_id[of cs "[]"] by (simp add: render_def visit_def)
qed (simp add: render_def comps.simps visit_def)

text \<open>Whatever the input, the output fits the buffer and is absolute.\<close>

lemma normalize_from_bounds:
  "0 < length out \<Longrightarrow> length out \<le> outsz - 1 \<Longrightarrow> out ! 0 = CHR ''/'' \<Longrightarrow> \<forall>c\<in>set st. 0 < c \<Longrightarrow>
     (let r = normalize_from outsz p st out in 0 < length r \<and> length r \<le> outsz - 1 \<and> r ! 0 = CHR ''/'')"
proof (induction outsz p st out rule: normalize_from.induct)
  case (1 outsz p st out)
  define seg rest where d: "seg = takeWhile (\<lambda>c. c \<noteq> CHR ''/'') p" "rest = drop 1 (dropWhile (\<lambda>c. c \<noteq> CHR ''/'') p)"
  let ?out = "if 1 < length out \<and> length out < outsz - 1 then out @ ''/'' else out"
  note IH = 1(1-4)[OF _ d]
  have o: "0 < length ?out" "length ?out \<le> outsz - 1" "?out ! 0 = CHR ''/''" using 1(5-7) by (auto simp: nth_append)
  then have o2: "0 < length (?out @ take (outsz - 1 - length ?out) seg)"
      "length (?out @ take (outsz - 1 - length ?out) seg) \<le> outsz - 1"
      "(?out @ take (outsz - 1 - length ?out) seg) ! 0 = CHR ''/''" by (auto simp: nth_append)
  note unf = normalize_from.simps[of outsz p, folded d]
  show ?case
  proof (cases "p = []")
    case True then show ?thesis using 1(5-7) by (simp add: normalize_from.simps)
  next
    case False
    show ?thesis
    proof (cases "seg = [] \<or> seg = ''.''")
      case True then show ?thesis using 1(5-8) IH(1)[OF False] False by (subst unf) (auto simp: Let_def)
    next
      case nd: False
      show ?thesis
      proof (cases "seg = ''..''")
        case True
        show ?thesis
        proof (cases st)
          case Nil then show ?thesis using 1(5-8) IH(2)[OF False nd True] nd True False by (subst unf) (simp add: Let_def)
        next
          case (Cons c cs)
          then have "0 < length (take c out)" "length (take c out) \<le> outsz - 1" "take c out ! 0 = CHR ''/''" "\<forall>c\<in>set cs. 0 < c"
            using 1(5-8) by auto
          then show ?thesis using IH(3)[OF False nd True Cons] nd True False Cons by (subst unf) (simp add: Let_def)
        qed
      next
        case dd: False
        define st' where "st' = (if length st < VFS_PATH_MAX div 2 then length out # st else st)"
        have "\<forall>c\<in>set st'. 0 < c" using 1(5,8) by (simp add: st'_def)
        moreover have "normalize_from outsz p st out = normalize_from outsz rest st' (?out @ take (outsz - 1 - length ?out) seg)"
          using False nd dd by (subst unf) (simp only: Let_def st'_def if_False simp_thms)
        ultimately show ?thesis using IH(4)[OF False nd dd st'_def refl] o2 by simp
      qed
    qed
  qed
qed

section \<open>Routing\<close>

text \<open>A mountpoint covers a path if it is the root, the path, or an ancestor directory of it.\<close>

definition covers :: "string \<Rightarrow> string \<Rightarrow> bool" where
  "covers mp path \<longleftrightarrow> mp = ''/'' \<or> path = mp \<or> (\<exists>rest. path = mp @ CHR ''/'' # rest)"

lemma covers_code:
  assumes "mp \<noteq> ''/''"
  shows "covers mp path \<longleftrightarrow> take (length mp) path = mp \<and> \<not> (length mp < length path \<and> path ! length mp \<noteq> CHR ''/'')"
proof
  assume "covers mp path"
  then show "take (length mp) path = mp \<and> \<not> (length mp < length path \<and> path ! length mp \<noteq> CHR ''/'')"
    using assms by (auto simp: covers_def)
next
  assume a: "take (length mp) path = mp \<and> \<not> (length mp < length path \<and> path ! length mp \<noteq> CHR ''/'')"
  show "covers mp path"
  proof (cases "length mp < length path")
    case True
    then have "path = take (length mp) path @ path ! length mp # drop (Suc (length mp)) path" by (rule id_take_nth_drop)
    then show ?thesis using a True by (auto simp: covers_def)
  next
    case False then show ?thesis using a by (auto simp: covers_def)
  qed
qed

definition best_of :: "vfs_mount list \<Rightarrow> string \<Rightarrow> nat \<Rightarrow> (nat \<times> nat) option \<Rightarrow> bool" where
  "best_of ms path k best \<longleftrightarrow>
     (case best of
        None \<Rightarrow> \<forall>i<k. \<not> covers (mountpoint (ms ! i)) path
      | Some (b, n) \<Rightarrow> b < k \<and> n = length (mountpoint (ms ! b)) \<and> covers (mountpoint (ms ! b)) path \<and>
          (\<forall>i<k. covers (mountpoint (ms ! i)) path \<longrightarrow>
             length (mountpoint (ms ! i)) < n \<or> length (mountpoint (ms ! i)) = n \<and> b \<le> i))"

lemma route_step_best:
  assumes b: "best_of ms path k best" and k: "\<forall>m\<in>set ms. take 1 (mountpoint m) = ''/''" "k < length ms"
  shows "best_of ms path (Suc k) (route_step ms path k best)"
proof -
  define mp where "mp = mountpoint (ms ! k)"
  have nonempty: "0 < length (mountpoint (ms ! i))" if "i \<le> k" for i
    using k that by (cases "mountpoint (ms ! i)") (auto dest!: bspec[of _ _ "ms ! i"])
  then have pos: "0 < length mp" by (simp add: mp_def)
  have root: "covers mp path \<and> length mp = 1" if "mp = ''/''" using that by (simp add: covers_def)
  show ?thesis
  proof (cases best)
    case None
    then have n: "\<And>i. i < k \<Longrightarrow> \<not> covers (mountpoint (ms ! i)) path" using b by (simp add: best_of_def)
    show ?thesis
    proof (cases "covers mp path")
      case True
      then have "route_step ms path k best = Some (k, length mp)"
        using None pos covers_code[of mp path] root by (auto simp: route_step_def Let_def mp_def[symmetric])
      then show ?thesis using n True by (auto simp: best_of_def mp_def less_Suc_eq)
    next
      case False
      then have "route_step ms path k best = None"
        using None root covers_code[of mp path] by (auto simp: route_step_def Let_def mp_def[symmetric])
      then show ?thesis using n False by (auto simp: best_of_def mp_def less_Suc_eq)
    qed
  next
    case (Some bn)
    obtain i n where bn: "bn = (i, n)" by (cases bn)
    have B: "i < k" "n = length (mountpoint (ms ! i))" "covers (mountpoint (ms ! i)) path"
      "\<And>j. j < k \<Longrightarrow> covers (mountpoint (ms ! j)) path \<Longrightarrow>
         length (mountpoint (ms ! j)) < n \<or> length (mountpoint (ms ! j)) = n \<and> i \<le> j"
      using b Some bn by (auto simp: best_of_def)
    have npos: "0 < n" using nonempty[of i] B(1,2) by simp
    show ?thesis
    proof (cases "covers mp path \<and> n < length mp")
      case True
      then have "mp \<noteq> ''/''" using npos by auto
      then have "route_step ms path k best = Some (k, length mp)"
        using True Some bn covers_code[of mp path] by (auto simp: route_step_def Let_def mp_def[symmetric])
      then show ?thesis using True B(4) by (fastforce simp: best_of_def mp_def less_Suc_eq)
    next
      case False
      then have "route_step ms path k best = best"
        using Some bn covers_code[of mp path] by (auto simp: route_step_def Let_def mp_def[symmetric])
      moreover have "covers mp path \<longrightarrow> length mp < n \<or> length mp = n \<and> i \<le> k" using False B(1) by auto
      ultimately show ?thesis using Some bn B by (auto simp: best_of_def mp_def less_Suc_eq)
    qed
  qed
qed

lemma route_fold_best:
  assumes "\<forall>m\<in>set ms. take 1 (mountpoint m) = ''/''"
  shows "k \<le> length ms \<Longrightarrow> best_of ms path k (fold (route_step ms path) [0..<k] None)"
proof (induction k)
  case (Suc k)
  then show ?case using assms route_step_best[of ms path k] by (simp add: less_eq_Suc_le)
qed (simp add: best_of_def)

end
