(* ===== verification/Vfs_Mounts.thy ===== *)
theory Vfs_Mounts
  imports Vfs_Paths
begin

text \<open>
  The invariant of the mount table and of the working directories, and how the table and the
  volumes the drivers hold stay in step.
\<close>

section \<open>The table\<close>

definition fixed_mounts :: "string list" where
  "fixed_mounts = [''/dev'', ''/proc'', ''/tmp'', ''/log'', ''/'', ''/boot'', ''/root'', ''/home'', ''/home/user'']"

definition hd_backend :: "vfs_backend \<Rightarrow> bool" where
  "hd_backend b \<longleftrightarrow> b = VFS_BACKEND_EXT2 \<or> b = VFS_BACKEND_FAT32"

definition mount_ok :: "vfs_mount \<Rightarrow> bool" where
  "mount_ok m \<longleftrightarrow>
     (if slot_name m = [] then mountpoint m \<in> set fixed_mounts
      else mountpoint m = ''/mnt/'' @ slot_name m \<and> CHR ''/'' \<notin> set (slot_name m) \<and> length (slot_name m) < VFS_MOUNT_NAME_MAX)"

text \<open>The two disk drivers serve one volume each.\<close>

definition one_volume :: "vfs_mount list \<Rightarrow> bool" where
  "one_volume ms \<longleftrightarrow>
     (\<forall>m\<in>set ms. \<forall>m'\<in>set ms. hd_backend (backend m) \<and> backend m' = backend m \<longrightarrow> drive m' = drive m \<and> lba m' = lba m)"

definition table_ok :: "vfs_mount list \<Rightarrow> bool" where
  "table_ok ms \<longleftrightarrow> length ms \<le> MAX_MOUNTS \<and> distinct (map mountpoint ms) \<and> list_all mount_ok ms \<and> one_volume ms"

definition cwd_ok :: "string \<Rightarrow> bool" where
  "cwd_ok c \<longleftrightarrow> take 1 c = ''/'' \<and> length c < VFS_PATH_MAX"

definition vfs_ok :: "vfs \<Rightarrow> bool" where
  "vfs_ok s \<longleftrightarrow> table_ok (s_mounts s) \<and> cwd_ok (s_boot_cwd s) \<and> list_all cwd_ok (cwds s) \<and>
     (\<forall>t. me s = Some t \<longrightarrow> t < length (cwds s))"

lemma mount_ok_point: "mount_ok m \<Longrightarrow> take 1 (mountpoint m) = ''/'' \<and> length (mountpoint m) < VFS_PATH_MAX"
  by (auto simp: mount_ok_def fixed_mounts_def split: if_splits)

lemma slot_of_point:
  "mount_ok m \<Longrightarrow> mountpoint m = ''/mnt/'' @ name \<Longrightarrow> slot_name m = name"
  by (auto simp: mount_ok_def fixed_mounts_def split: if_splits)

lemma one_volume_insert:
  assumes ov: "one_volume ms" and sub: "set ns \<subseteq> insert m (set ms)"
    and m: "hd_backend (backend m) \<Longrightarrow> (\<forall>m'\<in>set ms. backend m' = backend m \<longrightarrow> drive m' = drive m \<and> lba m' = lba m)"
  shows "one_volume ns"
  unfolding one_volume_def
proof (intro ballI impI)
  fix x y assume xy: "x \<in> set ns" "y \<in> set ns" "hd_backend (backend x) \<and> backend y = backend x"
  then consider "x = m" "y = m" | "x = m" "y \<in> set ms" | "x \<in> set ms" "y = m" | "x \<in> set ms" "y \<in> set ms"
    using sub by blast
  then show "drive y = drive x \<and> lba y = lba x"
  proof cases
    case 2 then show ?thesis using xy(3) m by blast
  next
    case 3 then show ?thesis using xy(3) m by metis
  next
    case 4 then show ?thesis using xy(3) ov unfolding one_volume_def by blast
  qed simp
qed

lemma table_add:
  assumes "table_ok ms" "length ms < MAX_MOUNTS" "mount_ok m" "mountpoint m \<notin> mountpoint ` set ms"
    and "hd_backend (backend m) \<Longrightarrow> (\<forall>m'\<in>set ms. backend m' = backend m \<longrightarrow> drive m' = drive m \<and> lba m' = lba m)"
  shows "table_ok (ms @ [m])"
  using assms(1-4) one_volume_insert[of ms "ms @ [m]" m, OF _ _ assms(5)] by (simp add: table_ok_def)

lemma table_remove:
  assumes t: "table_ok ms"
  shows "table_ok (take i ms @ drop (i + 1) ms)"
proof -
  have s: "set (take i ms @ drop (i + 1) ms) \<subseteq> set ms"
    using set_take_subset[of i ms] set_drop_subset[of "i + 1" ms] by auto
  have d: "distinct (map mountpoint ms)" using t by (simp add: table_ok_def)
  have "set (take i (map mountpoint ms)) \<inter> set (drop (i + 1) (map mountpoint ms)) = {}"
    by (rule set_take_disj_set_drop_if_distinct[OF d]) simp
  then have "distinct (map mountpoint (take i ms @ drop (i + 1) ms))"
    using distinct_take[OF d, of i] distinct_drop[OF d, of "i + 1"] by (simp add: take_map drop_map)
  moreover have "length (take i ms @ drop (i + 1) ms) \<le> length ms" by auto
  ultimately show ?thesis using t s unfolding table_ok_def one_volume_def list_all_iff
    by (meson in_mono le_trans)
qed

lemma table_bind:
  assumes "table_ok ms" "i < length ms"
    and "hd_backend b \<Longrightarrow> (\<forall>m'\<in>set ms. backend m' = b \<longrightarrow> drive m' = d \<and> lba m' = l)"
  shows "table_ok (ms[i := (ms ! i)\<lparr>backend := b, drive := d, lba := l\<rparr>])" (is "table_ok (ms[i := ?m])")
proof -
  have mi: "ms ! i \<in> set ms" using assms(2) by simp
  have "map mountpoint (ms[i := ?m]) = map mountpoint ms"
    by (rule nth_equalityI) (use assms(2) in \<open>auto simp: nth_list_update\<close>)
  moreover have "mount_ok ?m" using assms(1) mi by (simp add: table_ok_def mount_ok_def list_all_iff)
  moreover have sub: "set (ms[i := ?m]) \<subseteq> insert ?m (set ms)" by (rule set_update_subset_insert)
  moreover have "one_volume (ms[i := ?m])"
    by (rule one_volume_insert[OF _ sub]) (use assms in \<open>simp_all add: table_ok_def\<close>)
  ultimately show ?thesis using assms(1) by (auto simp: table_ok_def list_all_iff)
qed

lemma table_unbind:
  assumes "table_ok ms"
  shows "table_ok (ms[i := (ms ! i)\<lparr>backend := VFS_BACKEND_NONE\<rparr>])"
proof (cases "i < length ms")
  case True
  have "(ms ! i)\<lparr>backend := VFS_BACKEND_NONE, drive := drive (ms ! i), lba := lba (ms ! i)\<rparr> = (ms ! i)\<lparr>backend := VFS_BACKEND_NONE\<rparr>"
    by simp
  then show ?thesis using table_bind[OF assms True, of VFS_BACKEND_NONE "drive (ms ! i)" "lba (ms ! i)"]
    by (simp add: hd_backend_def)
next
  case False then show ?thesis using assms by (simp add: list_update_beyond)
qed

lemma find_index_Some:
  "find_index P ms = Some i \<Longrightarrow> i < length ms \<and> P (ms ! i) \<and> (\<forall>j<i. \<not> P (ms ! j))"
  by (auto simp: find_index_def find_Some_iff)

lemma find_index_None: "find_index P ms = None \<Longrightarrow> m \<in> set ms \<Longrightarrow> \<not> P m"
  by (auto simp: find_index_def find_None_iff in_set_conv_nth)

lemma find_slot_Some:
  "mount_find_slot name s = Some i \<Longrightarrow> i < length (s_mounts s) \<and> slot_name (s_mounts s ! i) = name \<and> name \<noteq> []"
  by (auto simp: mount_find_slot_def split: if_splits dest: find_index_Some)

lemma find_slot_None: "mount_find_slot name s = None \<Longrightarrow> name \<noteq> [] \<Longrightarrow> m \<in> set (s_mounts s) \<Longrightarrow> slot_name m \<noteq> name"
  by (auto simp: mount_find_slot_def dest: find_index_None)

section \<open>The volumes the drivers hold\<close>

text \<open>
  What a driver holds after a list of calls: the volume of its last successful mount, until
  it is unmounted. The fold carries the history, on which the answers depend.
\<close>

definition volume_step :: "env \<Rightarrow> vfs_backend \<Rightarrow> fs_call list \<Rightarrow> fs_call \<Rightarrow> (u8 \<times> u32) option \<Rightarrow> (u8 \<times> u32) option" where
  "volume_step e b hist c v =
     (case c of
        Mount b' d l \<Rightarrow> if b' = b \<and> rc (answer_of e hist c) = 0 then Some (d, l) else v
      | Unmount b' \<Rightarrow> if b' = b then None else v
      | _ \<Rightarrow> v)"

definition volume_fold :: "env \<Rightarrow> vfs_backend \<Rightarrow> fs_call list \<Rightarrow> fs_call list \<times> (u8 \<times> u32) option" where
  "volume_fold e b tr = foldl (\<lambda>(hist, v) c. (hist @ [c], volume_step e b hist c v)) ([], None) tr"

definition volume_of :: "env \<Rightarrow> vfs_backend \<Rightarrow> fs_call list \<Rightarrow> (u8 \<times> u32) option" where
  "volume_of e b tr = snd (volume_fold e b tr)"

lemma volume_fold_hist: "fst (volume_fold e b tr) = tr"
proof (induction tr rule: rev_induct)
  case (snoc c tr)
  then show ?case by (cases "volume_fold e b tr") (simp add: volume_fold_def)
qed (simp add: volume_fold_def)

lemma volume_of_Nil [simp]: "volume_of e b [] = None"
  by (simp add: volume_of_def volume_fold_def)

lemma volume_of_snoc [simp]: "volume_of e b (tr @ [c]) = volume_step e b tr c (volume_of e b tr)"
  using volume_fold_hist[of e b tr] unfolding volume_of_def volume_fold_def
  by (auto split: prod.splits)

definition synced :: "env \<Rightarrow> vfs \<Rightarrow> bool" where
  "synced e s \<longleftrightarrow>
     (\<forall>b d l. hd_backend b \<longrightarrow>
        (volume_of e b (calls s) = Some (d, l) \<longleftrightarrow> (\<exists>m\<in>set (s_mounts s). backend m = b \<and> drive m = d \<and> lba m = l)))"

lemma synced_idle: "synced e s \<Longrightarrow> hd_backend b \<Longrightarrow> \<not> backend_in_use b s \<Longrightarrow> volume_of e b (calls s) = None"
  unfolding synced_def backend_in_use_def list_ex_iff by (metis not_None_eq surj_pair)

section \<open>Operations that leave the table alone\<close>

fun quiet :: "fs_call \<Rightarrow> bool" where
  "quiet (Mount b d l) = False"
| "quiet (Unmount b) = False"
| "quiet _ = True"

definition extends :: "vfs \<Rightarrow> vfs \<Rightarrow> bool" where
  "extends s s' \<longleftrightarrow> (\<exists>cs. list_all quiet cs \<and> s' = s\<lparr>calls := calls s @ cs\<rparr>)"

lemma extends_refl [simp]: "extends s s"
  unfolding extends_def by (intro exI[of _ "[]"]) simp

lemma extends_trans: "extends s t \<Longrightarrow> extends t u \<Longrightarrow> extends s u"
proof -
  assume "extends s t" "extends t u"
  then obtain cs ds where "list_all quiet cs" "list_all quiet ds" "t = s\<lparr>calls := calls s @ cs\<rparr>" "u = t\<lparr>calls := calls t @ ds\<rparr>"
    unfolding extends_def by blast
  then show ?thesis unfolding extends_def by (intro exI[of _ "cs @ ds"]) simp
qed

lemma extends_call: "quiet c \<Longrightarrow> extends s (snd (call e c s))" "quiet c \<Longrightarrow> extends s (snd (rc_call e c s))"
  unfolding extends_def by (auto intro!: exI[of _ "[c]"] simp: call_def rc_call_def)

lemma extends_call_eq: "quiet c \<Longrightarrow> call e c s = (a, s') \<Longrightarrow> extends s s'" "quiet c \<Longrightarrow> rc_call e c s = (r, s') \<Longrightarrow> extends s s'"
  using extends_call[of c s e] by auto

lemma extends_fields:
  "extends s s' \<Longrightarrow> s_mounts s' = s_mounts s \<and> s_boot_cwd s' = s_boot_cwd s \<and> cwds s' = cwds s \<and> me s' = me s \<and>
     s_cdrom_drive s' = s_cdrom_drive s"
  by (auto simp: extends_def)

lemma volume_of_quiet: "list_all quiet cs \<Longrightarrow> volume_of e b (tr @ cs) = volume_of e b tr"
proof (induction cs rule: rev_induct)
  case (snoc c cs)
  then have "volume_of e b ((tr @ cs) @ [c]) = volume_of e b (tr @ cs)"
    by (cases c) (simp_all add: volume_step_def del: append_assoc)
  then show ?case using snoc by simp
qed simp

lemma extends_volume: "extends s s' \<Longrightarrow> volume_of e b (calls s') = volume_of e b (calls s)"
  by (auto simp: extends_def volume_of_quiet)

lemma extends_ok: "extends s s' \<Longrightarrow> vfs_ok s' = vfs_ok s"
  using extends_fields[of s s'] by (auto simp: vfs_ok_def split: option.splits)

lemma extends_synced: "extends s s' \<Longrightarrow> synced e s' = synced e s"
  using extends_fields[of s s'] extends_volume[of s s' e] by (simp add: synced_def)

lemma extends_with_lock: "(\<And>s. extends s (snd (f s))) \<Longrightarrow> extends s (snd (with_fs_lock e b f s))"
proof -
  assume f: "\<And>s. extends s (snd (f s))"
  let ?s1 = "snd (call e Fs_lock s)"
  have "extends s ?s1" "extends ?s1 (snd (f ?s1))" "extends (snd (f ?s1)) (snd (call e Fs_unlock (snd (f ?s1))))"
    by (intro extends_call f; simp)+
  then have "extends s (snd (call e Fs_unlock (snd (f ?s1))))" by (blast intro: extends_trans)
  then show ?thesis using f by (auto simp: with_fs_lock_def Let_def split: prod.splits)
qed

lemma extends_calls [simp]: "list_all quiet cs \<Longrightarrow> extends s (s\<lparr>calls := calls s @ cs\<rparr>)"
  by (auto simp: extends_def)

lemmas run = call_def rc_call_def with_fs_lock_def Let_def

lemma backend_ops_extend:
  "extends s (snd (backend_ls e m p s))" "extends s (snd (backend_cd e m p s))"
  "extends s (snd (backend_read_file e m p n s))" "extends s (snd (backend_read_at e m p off n s))"
  "extends s (snd (backend_write_file e m p buf s))" "extends s (snd (backend_mkdir e m p s))"
  "extends s (snd (backend_delete_file e m p s))" "extends s (snd (backend_delete_dir e m p s))"
  "extends s (snd (backend_file_exists e m p s))" "extends s (snd (backend_complete e m p pre s))"
  by (cases "backend m"; simp add: backend_ls_def backend_cd_def backend_read_file_def dev_read_def backend_read_at_def
      backend_write_file_def backend_mkdir_def backend_delete_file_def backend_delete_dir_def backend_file_exists_def
      backend_complete_def run fs_backend_disk_def)+

lemma extends_call_then: "quiet c \<Longrightarrow> extends (snd (call e c s)) s' \<Longrightarrow> extends s s'"
  using extends_call(1) extends_trans by blast

lemma report_all_extends: "extends s (report_all e cb ns s)"
proof -
  have "extends t (fold (\<lambda>n s. snd (call e (Report n) s)) ns t)" for t
  proof (induction ns arbitrary: t)
    case (Cons n ns)
    show ?case using extends_call_then[of "Report n" e t, OF _ Cons.IH] by simp
  qed simp
  then show ?thesis by (simp add: report_all_def)
qed

lemmas unwrap = Let_def case_prod_beta rc_call_def

lemma path_ops_extend:
  "extends s (snd (vfs_ls e path s))" "extends s (snd (vfs_read_file e path n s))"
  "extends s (snd (vfs_read_at e path off n s))" "extends s (snd (vfs_file_exists e path s))"
  "extends s (snd (vfs_blockdev_lookup e path s))" "extends s (snd (vfs_statfs e s))"
  by (auto simp: vfs_ls_def ls_root_def vfs_read_file_def vfs_read_at_def vfs_file_exists_def vfs_blockdev_lookup_def
      vfs_statfs_def unwrap call_def backend_ops_extend split: option.split)

lemma vfs_write_file_extends: "extends s (snd (vfs_write_file e path buf s))" "extends s (snd (vfs_delete_file e path s))"
  by (auto simp: vfs_write_file_def vfs_delete_file_def unwrap split: option.split
      intro!: extends_call_then[of "Invalidate _" e s] backend_ops_extend)

lemma vfs_cat_extends: "extends s (snd (vfs_cat e path s))"
  by (auto simp: vfs_cat_def unwrap split: option.split
      intro!: extends_call_then[of "Kmalloc 0x10000" e s] extends_trans[OF backend_ops_extend(3) extends_call(1)])

lemma vfs_rename_extends: "extends s (snd (vfs_rename e p q s))"
  by (auto simp: vfs_rename_def unwrap call_def split: option.split)

lemma stat_helpers_extend: "extends s (snd (stat_by_read e m drv s))" "extends s (snd (stat_by_copy e m drv n s))"
  by (simp_all add: stat_by_read_def stat_by_copy_def unwrap call_def)

lemma vfs_stat_extends: "extends s (snd (vfs_stat e path s))"
proof (cases "vfs_route (resolve path s) s")
  case (Pair idx drv)
  then show ?thesis
  proof (cases idx)
    case (Some i)
    show ?thesis unfolding vfs_stat_def unwrap Pair Some
      by (cases "backend (s_mounts s ! i)")
        (auto simp: call_def stat_helpers_extend path_ops_extend
          intro: extends_trans[OF extends_calls stat_helpers_extend(2)])
  qed (simp add: vfs_stat_def unwrap)
qed

lemma vfs_complete_extends: "extends s (snd (vfs_complete e dir pre cb s))"
  by (auto simp: vfs_complete_def unwrap report_all_extends backend_ops_extend split: option.split
      intro: extends_trans[OF report_all_extends backend_ops_extend(10)])

section \<open>Operations on the table\<close>

text \<open>What is kept by an operation that ends in a state with a sound table.\<close>

definition good :: "env \<Rightarrow> vfs \<Rightarrow> bool" where "good e s \<longleftrightarrow> vfs_ok s \<and> synced e s"

lemma extends_good: "extends s s' \<Longrightarrow> good e s \<Longrightarrow> good e s'"
  using extends_ok extends_synced by (auto simp: good_def)

lemma resolve_ok: "cwd_ok (path_resolve cwd path)"
proof -
  have n: "cwd_ok (path_normalize p VFS_PATH_MAX)" for p
    using normalize_from_bounds[of "''/''" VFS_PATH_MAX "[]" "if take 1 p = ''/'' then drop 1 p else p"]
    by (cases "path_normalize p VFS_PATH_MAX") (auto simp: path_normalize_def cwd_ok_def Let_def)
  show ?thesis by (auto simp: path_resolve_def n Let_def split: option.split)
qed

lemma list_all_update: "list_all P xs \<Longrightarrow> P x \<Longrightarrow> list_all P (xs[i := x])"
  using set_update_subset_insert[of xs i x] by (auto simp: list_all_iff)

lemma set_cwd_good: "good e s \<Longrightarrow> cwd_ok p \<Longrightarrow> good e (set_cwd p s)"
  by (auto simp: good_def vfs_ok_def synced_def set_cwd_def list_all_update split: option.splits)

text \<open>The state between a successful mount and its entry in the table.\<close>

definition synced_plus :: "env \<Rightarrow> vfs \<Rightarrow> vfs_backend \<Rightarrow> u8 \<Rightarrow> u32 \<Rightarrow> bool" where
  "synced_plus e s b d l \<longleftrightarrow>
     (\<forall>b' d' l'. hd_backend b' \<longrightarrow>
        (volume_of e b' (calls s) = Some (d', l') \<longleftrightarrow>
           (\<exists>m\<in>set (s_mounts s). backend m = b' \<and> drive m = d' \<and> lba m = l') \<or> b' = b \<and> d' = d \<and> l' = l))"

lemma synced_plus_other: "synced e s \<Longrightarrow> \<not> hd_backend b \<Longrightarrow> synced_plus e s b d l"
  by (auto simp: synced_def synced_plus_def)

lemma synced_plus_alias: "synced e s \<Longrightarrow> backend_volume_in_use b d l s \<Longrightarrow> synced_plus e s b d l"
  by (auto simp: synced_def synced_plus_def backend_volume_in_use_def list_ex_iff)

lemma mount_synced:
  assumes "synced e s" "\<not> backend_in_use b s" "hd_backend b" "rc_call e (Mount b d l) s = (r, s')"
  shows "s_mounts s' = s_mounts s" "vfs_ok s' = vfs_ok s" "r = 0 \<Longrightarrow> synced_plus e s' b d l" "r \<noteq> 0 \<Longrightarrow> synced e s'"
proof -
  have s': "s' = s\<lparr>calls := calls s @ [Mount b d l]\<rparr>" "r = rc (answer_of e (calls s) (Mount b d l))"
    using assms(4) by (auto simp: rc_call_def call_def)
  show "s_mounts s' = s_mounts s" "vfs_ok s' = vfs_ok s" by (simp_all add: s' vfs_ok_def)
  have no: "\<And>m. m \<in> set (s_mounts s) \<Longrightarrow> backend m \<noteq> b" using assms(2) by (auto simp: backend_in_use_def list_ex_iff)
  show "synced_plus e s' b d l" if "r = 0"
    using assms(1,3) no that unfolding synced_plus_def synced_def by (auto simp: s' volume_step_def)
  show "synced e s'" if "r \<noteq> 0"
    using assms(1) that unfolding synced_def by (simp add: s' volume_step_def)
qed

lemma plus_volume:
  "synced_plus e s b d l \<Longrightarrow> hd_backend b \<Longrightarrow> m \<in> set (s_mounts s) \<Longrightarrow> backend m = b \<Longrightarrow> drive m = d \<and> lba m = l"
  unfolding synced_plus_def by (metis option.inject prod.inject)

lemma bind_good:
  assumes ok: "vfs_ok s" and sp: "synced_plus e s b d l" and i: "i < length (s_mounts s)" "\<not> hd_backend (backend (s_mounts s ! i))"
  shows "good e (bind_mount i b d l s)"
proof -
  let ?m = "(s_mounts s ! i)\<lparr>backend := b, drive := d, lba := l\<rparr>"
  have "table_ok ((s_mounts s)[i := ?m])"
    by (rule table_bind[OF _ i(1)]) (use ok plus_volume[OF sp] in \<open>auto simp: vfs_ok_def\<close>)
  then have v: "vfs_ok (bind_mount i b d l s)" using ok by (simp add: vfs_ok_def bind_mount_def)
  have ex: "(\<exists>m\<in>set ((s_mounts s)[i := ?m]). backend m = b' \<and> drive m = d' \<and> lba m = l') \<longleftrightarrow>
      (\<exists>m\<in>set (s_mounts s). backend m = b' \<and> drive m = d' \<and> lba m = l') \<or> b' = b \<and> d' = d \<and> l' = l"
    if "hd_backend b'" for b' d' l'
  proof
    assume "\<exists>m\<in>set ((s_mounts s)[i := ?m]). backend m = b' \<and> drive m = d' \<and> lba m = l'"
    then show "(\<exists>m\<in>set (s_mounts s). backend m = b' \<and> drive m = d' \<and> lba m = l') \<or> b' = b \<and> d' = d \<and> l' = l"
      using set_update_subset_insert[of "s_mounts s" i ?m] by fastforce
  next
    assume "(\<exists>m\<in>set (s_mounts s). backend m = b' \<and> drive m = d' \<and> lba m = l') \<or> b' = b \<and> d' = d \<and> l' = l"
    then consider m where "m \<in> set (s_mounts s)" "backend m = b'" "drive m = d'" "lba m = l'" | "b' = b" "d' = d" "l' = l" by blast
    then show "\<exists>m\<in>set ((s_mounts s)[i := ?m]). backend m = b' \<and> drive m = d' \<and> lba m = l'"
    proof cases
      case 1
      then obtain j where j: "j < length (s_mounts s)" "s_mounts s ! j = m" by (auto simp: in_set_conv_nth)
      then have "j \<noteq> i" using i(2) that 1(2) by auto
      then have "m \<in> set ((s_mounts s)[i := ?m])" using j by (metis length_list_update nth_list_update_neq nth_mem)
      then show ?thesis using 1 by blast
    next
      case 2 then show ?thesis using set_update_memI[OF i(1), of ?m] by (intro bexI[of _ ?m]) simp_all
    qed
  qed
  have "synced e (bind_mount i b d l s)"
    unfolding synced_def
  proof (intro allI impI)
    fix b' d' l' assume "hd_backend b'"
    then show "volume_of e b' (calls (bind_mount i b d l s)) = Some (d', l') \<longleftrightarrow>
        (\<exists>m\<in>set (s_mounts (bind_mount i b d l s)). backend m = b' \<and> drive m = d' \<and> lba m = l')"
      using sp ex[of b' d' l'] unfolding synced_plus_def bind_mount_def by simp
  qed
  with v show ?thesis by (simp add: good_def)
qed

lemma add_good:
  assumes ok: "vfs_ok s" and sp: "synced_plus e s b d l"
    and m: "mount_ok \<lparr>mountpoint = mp, backend = b, drive = d, lba = l, slot_name = take (VFS_MOUNT_NAME_MAX - 1) slot\<rparr>"
    and new: "mp \<notin> mountpoint ` set (s_mounts s)" and r: "mount_add mp b d l slot s = (r, s')"
  shows "r \<noteq> None \<Longrightarrow> good e s'" "r = None \<Longrightarrow> s' = s" "r = None \<longleftrightarrow> length (s_mounts s) = MAX_MOUNTS"
proof -
  let ?m = "\<lparr>mountpoint = mp, backend = b, drive = d, lba = l, slot_name = take (VFS_MOUNT_NAME_MAX - 1) slot\<rparr>"
  have mp: "length mp < VFS_PATH_MAX" using mount_ok_point[OF m] by simp
  have le: "length (s_mounts s) \<le> MAX_MOUNTS" using ok by (simp add: vfs_ok_def table_ok_def)
  show "r = None \<Longrightarrow> s' = s" "r = None \<longleftrightarrow> length (s_mounts s) = MAX_MOUNTS"
    using r mp le by (auto simp: mount_add_def split: if_splits)
  assume "r \<noteq> None"
  then have s': "s' = s\<lparr>s_mounts := s_mounts s @ [?m]\<rparr>" "length (s_mounts s) < MAX_MOUNTS"
    using r by (auto simp: mount_add_def split: if_splits)
  have "table_ok (s_mounts s @ [?m])"
    by (rule table_add) (use ok s'(2) m new plus_volume[OF sp] in \<open>auto simp: vfs_ok_def\<close>)
  moreover have "synced e s'" using sp unfolding synced_def synced_plus_def s' by auto
  ultimately show "good e s'" using ok s' by (simp add: good_def vfs_ok_def)
qed

end
