(* ===== verification/Vfs_Inv.thy ===== *)
theory Vfs_Inv
  imports Vfs_Mounts
begin

text \<open>Every operation of the VFS keeps the invariant.\<close>

section \<open>Removing and unbinding entries\<close>

lemma vfs_okD: "vfs_ok s \<Longrightarrow> i < length (s_mounts s) \<Longrightarrow> mount_ok (s_mounts s ! i)"
  by (simp add: vfs_ok_def table_ok_def list_all_length)

lemma apply_fixup_fields [simp]:
  "s_mounts (apply_cwd_fixup fn p s) = s_mounts s" "calls (apply_cwd_fixup fn p s) = calls s" "me (apply_cwd_fixup fn p s) = me s"
  by (simp_all add: apply_cwd_fixup_def)

lemma fixup_ok:
  "vfs_ok s \<Longrightarrow> take 1 p = ''/'' \<Longrightarrow> vfs_ok (apply_cwd_fixup fixup_cwd_mounted p s)"
  "vfs_ok s \<Longrightarrow> vfs_ok (apply_cwd_fixup fixup_cwd_unmounted p s)"
  by (auto simp: vfs_ok_def apply_cwd_fixup_def fixup_cwd_mounted_def fixup_cwd_unmounted_def cwd_ok_def list_all_iff)

lemma fixup_synced [simp]: "synced e (apply_cwd_fixup fn p s) = synced e s"
  by (simp add: synced_def)

lemma unbind_ok: "vfs_ok s \<Longrightarrow> vfs_ok (unbind_mount i s)"
  by (simp add: vfs_ok_def unbind_mount_def table_unbind)

lemma remove_ok: "vfs_ok s \<Longrightarrow> vfs_ok (mount_remove i s)"
  using table_remove[of "s_mounts s" i] by (simp add: vfs_ok_def mount_remove_def)

lemma backend_unmount_fields:
  "s_mounts (backend_unmount e b s) = s_mounts s" "vfs_ok (backend_unmount e b s) = vfs_ok s"
  by (simp_all add: backend_unmount_def call_def vfs_ok_def)

lemma removed_nth:
  assumes "x \<in> set (take k xs @ drop (k + 1) xs)" "k < length xs"
  shows "\<exists>q<length xs. q \<noteq> k \<and> xs ! q = x"
proof -
  obtain p where p: "p < length (take k xs @ drop (k + 1) xs)" "(take k xs @ drop (k + 1) xs) ! p = x"
    using assms(1) by (metis in_set_conv_nth)
  then show ?thesis using assms(2)
    by (cases "p < k") (auto simp: nth_append intro: exI[of _ p] exI[of _ "Suc p"])
qed

lemma bex_nth: "(\<exists>m\<in>set xs. P m) \<longleftrightarrow> (\<exists>j<length xs. P (xs ! j))"
  by (metis in_set_conv_nth)

lemma bex_update:
  assumes "i < length xs"
  shows "(\<exists>m\<in>set (xs[i := x]). P m) \<longleftrightarrow> P x \<or> (\<exists>j<length xs. j \<noteq> i \<and> P (xs ! j))"
proof -
  have "(\<exists>m\<in>set (xs[i := x]). P m) \<longleftrightarrow> (\<exists>j<length xs. P (if j = i then x else xs ! j))"
    unfolding bex_nth using assms by (auto simp: nth_list_update)
  then show ?thesis using assms by auto
qed

lemma unbind_volumes:
  assumes "i < length ms" "hd_backend b"
  shows "(\<exists>m\<in>set (ms[i := (ms ! i)\<lparr>backend := VFS_BACKEND_NONE\<rparr>]). backend m = b \<and> drive m = d \<and> lba m = l) \<longleftrightarrow>
    (\<exists>j<length ms. j \<noteq> i \<and> backend (ms ! j) = b \<and> drive (ms ! j) = d \<and> lba (ms ! j) = l)"
  using assms(2) unfolding bex_update[OF assms(1)] by (auto simp: hd_backend_def)

lemma has_alias_iff:
  "mount_has_alias i s \<longleftrightarrow> i < length (s_mounts s) \<and>
     (\<exists>j<length (s_mounts s). j \<noteq> i \<and> backend (s_mounts s ! j) = backend (s_mounts s ! i) \<and>
        drive (s_mounts s ! j) = drive (s_mounts s ! i) \<and> lba (s_mounts s ! j) = lba (s_mounts s ! i))"
  by (auto simp: mount_has_alias_def list_ex_iff)

text \<open>Taking an entry out of the table, with the unmount that the code does when it is the last one.\<close>

lemma release_synced:
  assumes ok: "vfs_ok s" and sy: "synced e s" and i: "i < length (s_mounts s)"
  shows "synced e (unbind_mount i (if mount_has_alias i s then s else backend_unmount e (backend (s_mounts s ! i)) s))"
proof -
  define ms b0 where d: "ms = s_mounts s" "b0 = backend (ms ! i)"
  have mem: "ms ! j \<in> set ms" if "j < length ms" for j using that by simp
  have ov: "one_volume ms" using ok by (simp add: vfs_ok_def table_ok_def d)
  have vol: "volume_of e b (calls s) = Some (dr, l) \<longleftrightarrow> (\<exists>j<length ms. backend (ms ! j) = b \<and> drive (ms ! j) = dr \<and> lba (ms ! j) = l)"
    if "hd_backend b" for b dr l
    using sy that unfolding synced_def d(1)[symmetric] bex_nth by blast
  show ?thesis
  proof (cases "mount_has_alias i s")
    case True
    then obtain j where j: "j < length ms" "j \<noteq> i" "backend (ms ! j) = b0" "drive (ms ! j) = drive (ms ! i)" "lba (ms ! j) = lba (ms ! i)"
      unfolding has_alias_iff d by blast
    have "(\<exists>k<length ms. k \<noteq> i \<and> backend (ms ! k) = b \<and> drive (ms ! k) = dr \<and> lba (ms ! k) = l) \<longleftrightarrow>
        (\<exists>k<length ms. backend (ms ! k) = b \<and> drive (ms ! k) = dr \<and> lba (ms ! k) = l)" for b dr l
      using j unfolding d(2) by metis
    then show ?thesis using vol i True unfolding synced_def
      by (simp add: unbind_mount_def d(1)[symmetric] unbind_volumes)
  next
    case False
    have none: "\<not> (\<exists>k<length ms. k \<noteq> i \<and> backend (ms ! k) = b0)" if "hd_backend b0"
      using False i that ov mem unfolding has_alias_iff one_volume_def d by metis
    let ?s = "unbind_mount i (backend_unmount e b0 s)"
    have m: "s_mounts ?s = ms[i := (ms ! i)\<lparr>backend := VFS_BACKEND_NONE\<rparr>]"
      by (simp add: unbind_mount_def backend_unmount_fields d)
    have c: "calls ?s = (if hd_backend b0 then calls s @ [Unmount b0] else calls s)"
      by (simp add: unbind_mount_def backend_unmount_def call_def hd_backend_def)
    have "volume_of e b (calls ?s) = Some (dr, l) \<longleftrightarrow> (\<exists>k<length ms. k \<noteq> i \<and> backend (ms ! k) = b \<and> drive (ms ! k) = dr \<and> lba (ms ! k) = l)"
      if b: "hd_backend b" for b dr l
    proof (cases "b = b0")
      case True
      then show ?thesis using b none c by (auto simp: volume_step_def)
    next
      case False
      then have "volume_of e b (calls ?s) = volume_of e b (calls s)" using c by (simp add: volume_step_def)
      then show ?thesis using vol[OF b] False unfolding d(2) by metis
    qed
    then have "synced e ?s" using i unfolding synced_def m by (simp add: unbind_volumes d(1))
    then show ?thesis using False d by simp
  qed
qed

lemma remove_synced:
  assumes sy: "synced e s" and i: "i < length (s_mounts s)" "\<not> hd_backend (backend (s_mounts s ! i))"
  shows "synced e (mount_remove i s)"
proof -
  let ?ms = "s_mounts s"
  have "set ?ms = set (take i ?ms @ drop (i + 1) ?ms) \<union> {?ms ! i}"
    using arg_cong[OF id_take_nth_drop[OF i(1)], of set] by auto
  then have "(\<exists>m\<in>set (take i ?ms @ drop (i + 1) ?ms). backend m = b \<and> drive m = d \<and> lba m = l) \<longleftrightarrow>
      (\<exists>m\<in>set ?ms. backend m = b \<and> drive m = d \<and> lba m = l)" if "hd_backend b" for b d l
    using i(2) that by auto
  then show ?thesis using sy i(1) unfolding synced_def mount_remove_def by simp
qed

section \<open>Mounting and unmounting\<close>

lemma probe_backend_facts:
  assumes "probe_backend e d l s = (b, s')"
  shows "extends s s'" "hd_backend b"
  using assms extends_call[of "Ext2_probe d l" s e]
  by (auto simp: probe_backend_def hd_backend_def Let_def split: prod.splits if_splits)

lemma bind_and_enter_good:
  assumes "vfs_ok s" "synced_plus e s b d l" "i < length (s_mounts s)" "\<not> hd_backend (backend (s_mounts s ! i))"
  shows "good e (bind_and_enter i b d l s)"
  using bind_good[OF assms] fixup_ok(1)[of "bind_mount i b d l s" "mountpoint (s_mounts s ! i)"]
    mount_ok_point[OF vfs_okD[OF assms(1,3)]]
  by (simp add: bind_and_enter_def good_def)

lemma unbound_not_hd: "\<not> mount_is_bound i s \<Longrightarrow> i < length (s_mounts s) \<Longrightarrow> \<not> hd_backend (backend (s_mounts s ! i))"
  by (simp add: mount_is_bound_def hd_backend_def)

text \<open>Mount a volume, or use the one that is mounted, and bind it to an unbound entry.\<close>

lemma mount_and_bind_good:
  assumes g: "good e s" and nu: "\<not> backend_in_use b s" and hd: "hd_backend b" and i: "i < length (s_mounts s)"
    and nb: "\<not> mount_is_bound i s" and r: "rc_call e (Mount b d l) s = (r, s')"
  shows "good e (if r = 0 then bind_and_enter i b d l s' else s')" "r = 0 \<Longrightarrow> good e (bind_mount i b d l s')"
proof -
  note ms = mount_synced[OF _ nu hd r]
  have sy: "synced e s" "vfs_ok s" using g by (simp_all add: good_def)
  show "good e (if r = 0 then bind_and_enter i b d l s' else s')"
    using ms[OF sy(1)] sy(2) i unbound_not_hd[OF nb i] bind_and_enter_good[of s' e b d l i] by (auto simp: good_def)
  show "r = 0 \<Longrightarrow> good e (bind_mount i b d l s')"
    using ms[OF sy(1)] sy(2) i unbound_not_hd[OF nb i] bind_good[of s' e b d l i] by auto
qed

lemma vfs_mount_hd_good:
  assumes g: "good e s"
  shows "good e (snd (vfs_mount_hd e d l name s))"
proof (cases "bad_mount_name name \<or> name = ''cdrom'' \<or> mount_find_slot name s = None")
  case True then show ?thesis using g by (auto simp: vfs_mount_hd_def)
next
  case False
  then obtain mi where mi: "mount_find_slot name s = Some mi" by auto
  obtain b s1 where p: "probe_backend e d l s = (b, s1)" by fastforce
  note pf = probe_backend_facts[OF p]
  have s1: "good e s1" "s_mounts s1 = s_mounts s" using extends_good[OF pf(1) g] extends_fields[OF pf(1)] by simp_all
  obtain r s2 where r: "rc_call e (Mount b d l) s1 = (r, s2)" by fastforce
  have i: "mi < length (s_mounts s1)" using find_slot_Some[OF mi] s1(2) by simp
  show ?thesis
  proof (cases "mount_is_bound mi s \<or> backend_in_use b s1")
    case True then show ?thesis using False g s1 by (auto simp: vfs_mount_hd_def mi p)
  next
    case nb: False
    then have "\<not> mount_is_bound mi s1" using s1(2) by (simp add: mount_is_bound_def)
    then have "good e (if r = 0 then bind_and_enter mi b d l s2 else s2)"
      using mount_and_bind_good(1)[OF s1(1) _ pf(2) i _ r] nb by blast
    then show ?thesis using False nb by (auto simp: vfs_mount_hd_def mi p r split: if_splits)
  qed
qed

lemma vfs_make_mountpoint_good:
  assumes g: "good e s"
  shows "good e (snd (vfs_make_mountpoint name s))"
proof (cases "bad_mount_name name \<or> mount_find_slot name s \<noteq> None")
  case True then show ?thesis using g by (auto simp: vfs_make_mountpoint_def)
next
  case False
  obtain r s' where r: "mount_add (''/mnt/'' @ name) VFS_BACKEND_NONE 0 0 name s = (r, s')" by fastforce
  have sp: "synced_plus e s VFS_BACKEND_NONE 0 0" using g by (intro synced_plus_other) (auto simp: good_def hd_backend_def)
  have n: "name \<noteq> []" "CHR ''/'' \<notin> set name" "length name \<le> VFS_MOUNT_NAME_MAX - 1" using False by (auto simp: bad_mount_name_def)
  have new: "''/mnt/'' @ name \<notin> mountpoint ` set (s_mounts s)"
  proof
    assume "''/mnt/'' @ name \<in> mountpoint ` set (s_mounts s)"
    then obtain m where m: "m \<in> set (s_mounts s)" "mountpoint m = ''/mnt/'' @ name" by fastforce
    have "mount_ok m" using g m(1) by (auto simp: good_def vfs_ok_def table_ok_def list_all_iff)
    then show False using slot_of_point m find_slot_None[of name s m] n False by blast
  qed
  have "good e s'"
    by (cases r; use add_good[OF _ sp _ new r] n g in \<open>simp add: good_def mount_ok_def\<close>)
  then show ?thesis using g r by (auto simp: vfs_make_mountpoint_def split: option.splits)
qed

lemma vfs_remove_mountpoint_good: "good e s \<Longrightarrow> good e (snd (vfs_remove_mountpoint name s))"
  using remove_ok remove_synced unbound_not_hd find_slot_Some[of name s]
  by (auto simp: vfs_remove_mountpoint_def good_def split: option.splits)

text \<open>Unmounting keeps the table sound; the drivers stay in step unless the mirror of the boot volume goes too.\<close>

definition released :: "env \<Rightarrow> nat \<Rightarrow> vfs \<Rightarrow> vfs" where
  "released e mi s =
     (let s = (if mount_has_alias mi s then s else backend_unmount e (backend (s_mounts s ! mi)) s)
      in unbind_mount mi (apply_cwd_fixup fixup_cwd_unmounted (mountpoint (s_mounts s ! mi)) s))"

lemma released_mounts: "s_mounts (released e mi s) = (s_mounts s)[mi := (s_mounts s ! mi)\<lparr>backend := VFS_BACKEND_NONE\<rparr>]"
  by (simp add: released_def Let_def unbind_mount_def backend_unmount_fields)

lemma unbind_fixup: "unbind_mount i (apply_cwd_fixup fn p s) = apply_cwd_fixup fn p (unbind_mount i s)"
  by (simp add: unbind_mount_def apply_cwd_fixup_def)

lemma released_ok: "vfs_ok s \<Longrightarrow> vfs_ok (released e mi s)"
  unfolding released_def Let_def by (intro unbind_ok fixup_ok(2)) (simp add: backend_unmount_fields)

lemma released_good: "good e s \<Longrightarrow> mi < length (s_mounts s) \<Longrightarrow> good e (released e mi s)"
  using released_ok release_synced[of s e mi] by (simp add: good_def) (simp add: released_def Let_def unbind_fixup)

lemma umount_result:
  "vfs_umount_hd e nm s = (r, s') \<Longrightarrow> r \<noteq> 0 \<and> s' = s \<or>
   r = 0 \<and> (\<exists>name mi. mount_find_slot name s = Some mi \<and> mount_is_bound mi s \<and> (if nm = None \<or> nm = Some [] then sole_volume s else nm) = Some name \<and>
      s' = (case mount_find_exact ''/boot'' (released e mi s) of
              None \<Rightarrow> released e mi s
            | Some i \<Rightarrow> if slot_name (s_mounts s ! mi) = ''boot'' then mount_remove i (released e mi s) else released e mi s))"
proof -
  assume u: "vfs_umount_hd e nm s = (r, s')"
  define target where "target = (case nm of None \<Rightarrow> sole_volume s | Some n \<Rightarrow> if n = [] then sole_volume s else Some n)"
  note def = vfs_umount_hd_def[of e nm s, folded target_def]
  have t: "target = (if nm = None \<or> nm = Some [] then sole_volume s else nm)"
    by (auto simp: target_def split: option.splits)
  show ?thesis
  proof (cases "\<exists>name mi. target = Some name \<and> mount_find_slot name s = Some mi \<and> mount_is_bound mi s")
    case False
    then show ?thesis using u unfolding def by (auto split: option.splits if_splits)
  next
    case True
    then obtain name mi where n: "target = Some name" "mount_find_slot name s = Some mi" "mount_is_bound mi s" by blast
    have sl: "slot_name (s_mounts (released e mi s) ! mi) = slot_name (s_mounts s ! mi)"
      using find_slot_Some[OF n(2)] by (simp add: released_mounts)
    have "(r, s') = (0, case mount_find_exact ''/boot'' (released e mi s) of
              None \<Rightarrow> released e mi s
            | Some i \<Rightarrow> if slot_name (s_mounts s ! mi) = ''boot'' then mount_remove i (released e mi s) else released e mi s)"
      using u n sl unfolding def option.case Let_def released_def[unfolded Let_def, symmetric] by (auto split: option.splits)
    then show ?thesis using n t by auto
  qed
qed

lemma vfs_umount_hd_ok:
  assumes "vfs_ok s"
  shows "vfs_ok (snd (vfs_umount_hd e nm s))"
proof (cases "vfs_umount_hd e nm s")
  case (Pair r s')
  show ?thesis using umount_result[OF Pair] assms released_ok[OF assms] remove_ok[OF released_ok[OF assms]] Pair
    by (auto split: option.splits)
qed

lemma vfs_umount_hd_good:
  assumes g: "good e s"
    and nb: "(if nm = None \<or> nm = Some [] then sole_volume s else nm) = Some ''boot'' \<Longrightarrow>
      ''/boot'' \<notin> mountpoint ` set (s_mounts s) \<or> (\<forall>m\<in>set (s_mounts s). slot_name m = ''boot'' \<longrightarrow> backend m = VFS_BACKEND_NONE)"
  shows "good e (snd (vfs_umount_hd e nm s))"
proof (cases "vfs_umount_hd e nm s")
  case (Pair r s')
  have "good e s'" if n: "mount_find_slot name s = Some mi" "mount_is_bound mi s"
      "(if nm = None \<or> nm = Some [] then sole_volume s else nm) = Some name"
    and s': "s' = (case mount_find_exact ''/boot'' (released e mi s) of
              None \<Rightarrow> released e mi s
            | Some i \<Rightarrow> if slot_name (s_mounts s ! mi) = ''boot'' then mount_remove i (released e mi s) else released e mi s)"
    for name mi
  proof -
    note mi = find_slot_Some[OF n(1)]
    have "mount_find_exact ''/boot'' (released e mi s) = None \<or> slot_name (s_mounts s ! mi) \<noteq> ''boot''"
    proof (cases "slot_name (s_mounts s ! mi) = ''boot''")
      case True
      then have "''/boot'' \<notin> mountpoint ` set (s_mounts s)" using nb mi n(2,3) by (auto simp: mount_is_bound_def)
      then have no: "mountpoint (s_mounts s ! j) \<noteq> ''/boot''" if "j < length (s_mounts s)" for j
        using that by (metis image_eqI nth_mem)
      then show ?thesis using mi
        by (auto simp: mount_find_exact_def find_index_def find_None_iff released_mounts nth_list_update)
    qed simp
    then show ?thesis using s' released_good[OF g] mi by (auto split: option.splits)
  qed
  then show ?thesis using umount_result[OF Pair] g Pair by auto
qed

section \<open>Shutdown and ejection\<close>

lemma shutdown_entry_good:
  assumes "good e s" "i < length (s_mounts s)"
  shows "good e (shutdown_entry e i s)" "length (s_mounts (shutdown_entry e i s)) = length (s_mounts s)"
    "j < length (s_mounts s) \<Longrightarrow> s_mounts (shutdown_entry e i s) ! j =
      (if j = i \<and> hd_backend (backend (s_mounts s ! i)) then (s_mounts s ! i)\<lparr>backend := VFS_BACKEND_NONE\<rparr> else s_mounts s ! j)"
  using assms release_synced[of s e i] unbind_ok[of s i] unbind_ok[of "backend_unmount e (backend (s_mounts s ! i)) s" i]
  by (auto simp: shutdown_entry_def Let_def good_def hd_backend_def backend_unmount_fields unbind_mount_def nth_list_update)

lemma shutdown_fold_good:
  "good e s \<Longrightarrow> n \<le> length (s_mounts s) \<Longrightarrow>
     good e (fold (shutdown_entry e) (rev [0..<n]) s) \<and>
     length (s_mounts (fold (shutdown_entry e) (rev [0..<n]) s)) = length (s_mounts s) \<and>
     (\<forall>j<length (s_mounts s). s_mounts (fold (shutdown_entry e) (rev [0..<n]) s) ! j =
        (if j < n \<and> hd_backend (backend (s_mounts s ! j)) then (s_mounts s ! j)\<lparr>backend := VFS_BACKEND_NONE\<rparr> else s_mounts s ! j))"
proof (induction n arbitrary: s)
  case (Suc n)
  note e1 = shutdown_entry_good[OF Suc.prems(1), of n]
  have "good e (shutdown_entry e n s)" "n \<le> length (s_mounts (shutdown_entry e n s))" using e1(1,2) Suc.prems by simp_all
  note IH = Suc.IH[OF this]
  show ?case using IH e1 Suc.prems by (auto simp: less_Suc_eq)
qed simp

lemma eject_entry_good:
  assumes "good e s" "i < length (s_mounts s)"
  shows "good e (eject_entry i s)" "i \<le> length (s_mounts (eject_entry i s))"
  using assms remove_ok[of "apply_cwd_fixup fixup_cwd_unmounted (mountpoint (s_mounts s ! i)) s" i] fixup_ok(2)[of s]
    remove_synced[of e "apply_cwd_fixup fixup_cwd_unmounted (mountpoint (s_mounts s ! i)) s" i]
  by (auto simp: eject_entry_def good_def hd_backend_def mount_remove_def)

lemma eject_fold_good: "good e s \<Longrightarrow> n \<le> length (s_mounts s) \<Longrightarrow> good e (fold eject_entry (rev [0..<n]) s)"
proof (induction n arbitrary: s)
  case (Suc n)
  then show ?case using eject_entry_good[of e s n] by simp
qed simp

lemma cdrom_good [simp]: "good e (s\<lparr>s_cdrom_drive := x\<rparr>) = good e s" "good e (s\<lparr>s_boot_biosdev := y\<rparr>) = good e s"
  by (simp_all add: good_def vfs_ok_def synced_def)

lemma eject_good: "good e s \<Longrightarrow> good e (vfs_notify_cdrom_ejected s)"
  unfolding vfs_notify_cdrom_ejected_def by (rule eject_fold_good) simp_all

section \<open>Directories\<close>

lemma vfs_cd_good:
  assumes g: "good e s"
  shows "good e (snd (vfs_cd e path s))"
proof -
  have c: "cwd_ok (resolve path s)" unfolding resolve_def by (rule resolve_ok)
  then have t: "take (VFS_PATH_MAX - 1) (resolve path s) = resolve path s" by (simp add: cwd_ok_def)
  have b: "good e (snd (backend_cd e m drv s))" for m drv using extends_good[OF backend_ops_extend(2) g] .
  show ?thesis unfolding vfs_cd_def Let_def t
    using g set_cwd_good[OF _ c] b by (auto split: option.split prod.split) (metis snd_conv)+
qed

lemma vfs_mkdir_good: "good e s \<Longrightarrow> good e (snd (vfs_mkdir e path s))"
  using vfs_make_mountpoint_good[of e s] extends_good[OF backend_ops_extend(6), of e s]
  by (auto simp: vfs_mkdir_def Let_def case_prod_beta split: option.split)

lemma vfs_delete_dir_good: "good e s \<Longrightarrow> good e (snd (vfs_delete_dir e path s))"
  using vfs_remove_mountpoint_good[of e s] extends_good[OF backend_ops_extend(8), of e s]
  by (auto simp: vfs_delete_dir_def Let_def case_prod_beta split: option.split)

lemma vfs_ensure_root_home_good: "good e s \<Longrightarrow> good e (vfs_ensure_root_home e s)"
  using extends_good[OF path_ops_extend(4), of e s] vfs_mkdir_good
  by (auto simp: vfs_ensure_root_home_def Let_def case_prod_beta split: option.split)

end
