(* ===== verification/Vfs_Held.thy ===== *)
theory Vfs_Held
  imports Vfs_Inv
begin

text \<open>
  The half of the invariant that no operation breaks: the table is sound, and the volume that each
  entry with a disk driver names is the one its driver holds. The other half, that a driver
  holds no volume without an entry, is part of \<open>good\<close>.
\<close>

definition held :: "env \<Rightarrow> vfs \<Rightarrow> bool" where
  "held e s \<longleftrightarrow> (\<forall>m\<in>set (s_mounts s). hd_backend (backend m) \<longrightarrow> volume_of e (backend m) (calls s) = Some (drive m, lba m))"

definition sound :: "env \<Rightarrow> vfs \<Rightarrow> bool" where "sound e s \<longleftrightarrow> vfs_ok s \<and> held e s"

lemma good_sound: "good e s \<Longrightarrow> sound e s"
  by (auto simp: good_def sound_def synced_def held_def)

lemma extends_sound: "extends s s' \<Longrightarrow> sound e s \<Longrightarrow> sound e s'"
  using extends_ok extends_fields[of s s'] extends_volume[of s s' e] by (auto simp: sound_def held_def)

lemma fewer_sound:
  assumes "sound e s" "vfs_ok s'" "calls s' = calls s"
    and "\<And>m. m \<in> set (s_mounts s') \<Longrightarrow> hd_backend (backend m) \<Longrightarrow> m \<in> set (s_mounts s)"
  shows "sound e s'"
  using assms by (auto simp: sound_def held_def)

lemma sound_fields [simp]:
  "sound e (s\<lparr>s_cdrom_drive := x\<rparr>) = sound e s" "sound e (s\<lparr>s_boot_biosdev := y\<rparr>) = sound e s"
  by (simp_all add: sound_def vfs_ok_def held_def)

lemma set_cwd_sound: "sound e s \<Longrightarrow> cwd_ok p \<Longrightarrow> sound e (set_cwd p s)"
  by (auto simp: sound_def vfs_ok_def held_def set_cwd_def list_all_update split: option.splits)

lemma fixup_sound: "sound e s \<Longrightarrow> sound e (apply_cwd_fixup fixup_cwd_unmounted p s)"
  by (rule fewer_sound) (auto simp: sound_def fixup_ok(2))

lemma remove_sound: "sound e s \<Longrightarrow> sound e (mount_remove i s)"
  using set_take_subset[of i "s_mounts s"] set_drop_subset[of "Suc i" "s_mounts s"]
  by (intro fewer_sound[of e s "mount_remove i s"]) (auto simp: sound_def remove_ok, auto simp: mount_remove_def split: if_splits)

text \<open>Mounting a volume whose driver is idle, and giving it an unbound slot.\<close>

lemma bind_sound:
  assumes s: "sound e s" and i: "i < length (s_mounts s)" and v: "hd_backend b \<Longrightarrow> \<not> backend_in_use b s \<and> volume_of e b (calls s) = Some (d, l)"
  shows "sound e (bind_and_enter i b d l s)"
proof -
  let ?m = "(s_mounts s ! i)\<lparr>backend := b, drive := d, lba := l\<rparr>"
  have ok: "vfs_ok s" "table_ok (s_mounts s)" using s by (simp_all add: sound_def vfs_ok_def)
  have "table_ok ((s_mounts s)[i := ?m])"
    by (rule table_bind[OF ok(2) i]) (use v in \<open>auto simp: backend_in_use_def list_ex_iff\<close>)
  then have "vfs_ok (bind_mount i b d l s)" using ok by (simp add: vfs_ok_def bind_mount_def)
  then have "vfs_ok (bind_and_enter i b d l s)"
    using fixup_ok(1) mount_ok_point[OF vfs_okD[OF ok(1) i]] by (simp add: bind_and_enter_def)
  moreover have "held e (bind_and_enter i b d l s)"
    using s v set_update_subset_insert[of "s_mounts s" i ?m]
    by (auto simp: held_def sound_def bind_and_enter_def bind_mount_def)
  ultimately show ?thesis by (simp add: sound_def)
qed

lemma mount_call_sound:
  assumes "sound e s" "\<not> backend_in_use b s" "rc_call e (Mount b d l) s = (r, s')"
  shows "sound e s'" "s_mounts s' = s_mounts s" "r = 0 \<Longrightarrow> volume_of e b (calls s') = Some (d, l)"
proof -
  have s': "s' = s\<lparr>calls := calls s @ [Mount b d l]\<rparr>" "r = rc (answer_of e (calls s) (Mount b d l))"
    using assms(3) by (auto simp: rc_call_def call_def)
  have "\<And>m. m \<in> set (s_mounts s) \<Longrightarrow> backend m \<noteq> b" using assms(2) by (auto simp: backend_in_use_def list_ex_iff)
  then show "sound e s'" using assms(1) by (auto simp: sound_def vfs_ok_def held_def s' volume_step_def)
  show "s_mounts s' = s_mounts s" "r = 0 \<Longrightarrow> volume_of e b (calls s') = Some (d, l)" by (simp_all add: s' volume_step_def)
qed

lemma vfs_mount_hd_sound:
  assumes g: "sound e s"
  shows "sound e (snd (vfs_mount_hd e d l name s))"
proof (cases "bad_mount_name name \<or> name = ''cdrom'' \<or> mount_find_slot name s = None")
  case True then show ?thesis using g by (auto simp: vfs_mount_hd_def)
next
  case False
  then obtain mi where mi: "mount_find_slot name s = Some mi" by auto
  obtain b s1 where p: "probe_backend e d l s = (b, s1)" by fastforce
  note pf = probe_backend_facts[OF p]
  have s1: "sound e s1" "s_mounts s1 = s_mounts s" using extends_sound[OF pf(1) g] extends_fields[OF pf(1)] by simp_all
  obtain r s2 where r: "rc_call e (Mount b d l) s1 = (r, s2)" by fastforce
  show ?thesis
  proof (cases "mount_is_bound mi s \<or> backend_in_use b s1")
    case True then show ?thesis using False g s1 by (auto simp: vfs_mount_hd_def mi p)
  next
    case nb: False
    note m = mount_call_sound[OF s1(1) _ r]
    have "sound e (if r = 0 then bind_and_enter mi b d l s2 else s2)"
      using bind_sound[of e s2 mi b d l] m nb find_slot_Some[OF mi] s1(2) by (auto simp: backend_in_use_def)
    then show ?thesis using False nb by (auto simp: vfs_mount_hd_def mi p r split: if_splits)
  qed
qed

lemma vfs_make_mountpoint_sound:
  assumes g: "sound e s"
  shows "sound e (snd (vfs_make_mountpoint name s))"
proof (cases "bad_mount_name name \<or> name = ''cdrom'' \<or> mount_find_slot name s \<noteq> None \<or> MAX_MOUNTS \<le> length (s_mounts s)")
  case True then show ?thesis using g by (auto simp: vfs_make_mountpoint_def mount_add_def)
next
  case False
  let ?m = "\<lparr>mountpoint = ''/mnt/'' @ name, backend = VFS_BACKEND_NONE, drive = 0, lba = 0, slot_name = take (VFS_MOUNT_NAME_MAX - 1) name\<rparr>"
  have n: "name \<noteq> []" "CHR ''/'' \<notin> set name" "length name \<le> VFS_MOUNT_NAME_MAX - 1" using False by (auto simp: bad_mount_name_def)
  have "''/mnt/'' @ name \<notin> mountpoint ` set (s_mounts s)"
  proof
    assume "''/mnt/'' @ name \<in> mountpoint ` set (s_mounts s)"
    then obtain m where m: "m \<in> set (s_mounts s)" "mountpoint m = ''/mnt/'' @ name" by fastforce
    have "mount_ok m" using g m(1) by (auto simp: sound_def vfs_ok_def table_ok_def list_all_iff)
    then show False using slot_of_point m find_slot_None[of name s m] n False by blast
  qed
  then have "table_ok (s_mounts s @ [?m])"
    using g n False by (intro table_add) (auto simp: sound_def vfs_ok_def mount_ok_def hd_backend_def)
  then have "sound e (s\<lparr>s_mounts := s_mounts s @ [?m]\<rparr>)"
    using g by (auto simp: sound_def vfs_ok_def held_def hd_backend_def)
  then show ?thesis using g by (auto simp: vfs_make_mountpoint_def mount_add_def)
qed

lemma vfs_remove_mountpoint_sound: "sound e s \<Longrightarrow> sound e (snd (vfs_remove_mountpoint name s))"
  using remove_sound by (auto simp: vfs_remove_mountpoint_def split: option.splits)

text \<open>Taking an entry out of the table: an alias keeps the volume, and otherwise no other entry needs the driver.\<close>

lemma release_sound:
  assumes s: "sound e s" and i: "i < length (s_mounts s)"
  shows "sound e (unbind_mount i (if mount_has_alias i s then s else backend_unmount e (backend (s_mounts s ! i)) s))"
    (is "sound e (unbind_mount i ?s)")
proof -
  let ?ms = "s_mounts s" and ?b = "backend (s_mounts s ! i)"
  have ok: "vfs_ok s" "one_volume ?ms" using s by (simp_all add: sound_def vfs_ok_def table_ok_def)
  have mo: "s_mounts (unbind_mount i ?s) = ?ms[i := (?ms ! i)\<lparr>backend := VFS_BACKEND_NONE\<rparr>]"
    by (simp add: unbind_mount_def backend_unmount_fields)
  have "volume_of e (backend m) (calls ?s) = Some (drive m, lba m)"
    if m: "m \<in> set (?ms[i := (?ms ! i)\<lparr>backend := VFS_BACKEND_NONE\<rparr>])" "hd_backend (backend m)" for m
  proof -
    obtain j where j: "j < length ?ms" "j \<noteq> i" "m = ?ms ! j"
      using m bex_update[OF i, of "(?ms ! i)\<lparr>backend := VFS_BACKEND_NONE\<rparr>" "\<lambda>x. x = m"] by (auto simp: hd_backend_def)
    then have mem: "m \<in> set ?ms" "?ms ! i \<in> set ?ms" using i by auto
    have v: "volume_of e (backend m) (calls s) = Some (drive m, lba m)" using s m(2) mem by (auto simp: sound_def held_def)
    have "mount_has_alias i s" if "backend m = ?b" using that ok(2) mem m(2) i j unfolding has_alias_iff one_volume_def by metis
    then show ?thesis using v by (auto simp: backend_unmount_def call_def volume_step_def)
  qed
  then have "held e (unbind_mount i ?s)" unfolding held_def mo by (simp add: unbind_mount_def)
  moreover have "vfs_ok (unbind_mount i ?s)" using ok by (intro unbind_ok) (simp add: backend_unmount_fields)
  ultimately show ?thesis by (simp add: sound_def)
qed

lemma released_sound: "sound e s \<Longrightarrow> mi < length (s_mounts s) \<Longrightarrow> sound e (released e mi s)"
  using fixup_sound[OF release_sound] by (simp add: released_def Let_def unbind_fixup)

lemma vfs_umount_hd_sound:
  assumes g: "sound e s"
  shows "sound e (snd (vfs_umount_hd e nm s))"
proof (cases "vfs_umount_hd e nm s")
  case (Pair r s')
  then show ?thesis using umount_result[OF Pair] g released_sound[OF g] remove_sound find_slot_Some by (auto split: option.splits)
qed

lemma shutdown_sound:
  assumes "sound e s"
  shows "sound e (vfs_prepare_shutdown e s)"
proof -
  have "sound e s \<Longrightarrow> n \<le> length (s_mounts s) \<Longrightarrow> sound e (fold (shutdown_entry e) (rev [0..<n]) s)" for n s
  proof (induction n arbitrary: s)
    case (Suc n)
    let ?s = "shutdown_entry e n s"
    have "sound e ?s" "length (s_mounts ?s) = length (s_mounts s)"
      using release_sound[of e s n] Suc.prems by (auto simp: shutdown_entry_def Let_def unbind_mount_def backend_unmount_fields)
    then show ?case using Suc by simp
  qed simp
  then show ?thesis using assms by (simp add: vfs_prepare_shutdown_def)
qed

lemma eject_sound: "sound e s \<Longrightarrow> sound e (vfs_notify_cdrom_ejected s)"
proof -
  have "sound e s \<Longrightarrow> sound e (fold eject_entry is s)" for "is" s
  proof (induction "is" arbitrary: s)
    case (Cons i "is")
    have "sound e (eject_entry i s)" using Cons.prems remove_sound[OF fixup_sound] by (simp add: eject_entry_def)
    then show ?case using Cons.IH by simp
  qed simp
  then show "sound e s \<Longrightarrow> ?thesis" by (simp add: vfs_notify_cdrom_ejected_def)
qed

lemma vfs_cd_sound:
  assumes g: "sound e s"
  shows "sound e (snd (vfs_cd e path s))"
proof -
  have c: "cwd_ok (resolve path s)" unfolding resolve_def by (rule resolve_ok)
  then have t: "take (VFS_PATH_MAX - 1) (resolve path s) = resolve path s" by (simp add: cwd_ok_def)
  have b: "sound e (snd (backend_cd e m drv s))" for m drv using extends_sound[OF backend_ops_extend(2) g] .
  show ?thesis unfolding vfs_cd_def Let_def t
    using g set_cwd_sound[OF _ c] b by (auto split: option.split prod.split) (metis snd_conv)+
qed

lemma vfs_mkdir_sound: "sound e s \<Longrightarrow> sound e (snd (vfs_mkdir e path s))"
  using vfs_make_mountpoint_sound[of e s] extends_sound[OF backend_ops_extend(6), of e s]
  by (auto simp: vfs_mkdir_def Let_def case_prod_beta split: option.split)

lemma vfs_delete_dir_sound: "sound e s \<Longrightarrow> sound e (snd (vfs_delete_dir e path s))"
  using vfs_remove_mountpoint_sound[of e s] extends_sound[OF backend_ops_extend(8), of e s]
  by (auto simp: vfs_delete_dir_def Let_def case_prod_beta split: option.split)

lemma vfs_ensure_root_home_sound: "sound e s \<Longrightarrow> sound e (vfs_ensure_root_home e s)"
  using extends_sound[OF path_ops_extend(4), of e s] vfs_mkdir_sound
  by (auto simp: vfs_ensure_root_home_def Let_def case_prod_beta split: option.split)

end
