(* ===== verification/Vfs_Boot.thy ===== *)
theory Vfs_Boot
  imports Vfs_Inv
begin

text \<open>The start-up of the VFS: \<open>vfs_init\<close>, the election of the root and the automatic mounts.\<close>

section \<open>Initialisation\<close>

lemma probe_cdrom_keeps:
  "\<exists>t x. extends s t \<and> probe_cdrom e is s = t\<lparr>s_cdrom_drive := x\<rparr>"
proof (induction "is" arbitrary: s)
  case Nil
  show ?case by (rule exI[of _ s]) (auto intro: exI[of _ "s_cdrom_drive s"])
next
  case (Cons i "is")
  obtain r s1 where r: "rc_call e (Iso_probe (of_nat i)) s = (r, s1)" by fastforce
  have x: "extends s s1" using extends_call_eq(2)[OF _ r] by simp
  obtain t x where "extends s1 t" "probe_cdrom e is s1 = t\<lparr>s_cdrom_drive := x\<rparr>" using Cons by blast
  then have "\<exists>t x. extends s t \<and> probe_cdrom e is s1 = t\<lparr>s_cdrom_drive := x\<rparr>" using extends_trans[OF x] by blast
  then show ?case using Cons x by (auto simp: r)
qed

definition init_table :: "vfs \<Rightarrow> vfs_mount list" where
  "init_table s =
     [\<lparr>mountpoint = ''/dev'', backend = VFS_BACKEND_DEVFS, drive = 0, lba = 0, slot_name = []\<rparr>,
      \<lparr>mountpoint = ''/proc'', backend = VFS_BACKEND_PROCFS, drive = 0, lba = 0, slot_name = []\<rparr>,
      \<lparr>mountpoint = ''/tmp'', backend = VFS_BACKEND_TMPFS, drive = 0, lba = 0, slot_name = []\<rparr>,
      \<lparr>mountpoint = ''/log'', backend = VFS_BACKEND_LOGFS, drive = 0, lba = 0, slot_name = []\<rparr>] @
     (if 0 \<le> s_cdrom_drive s
      then [\<lparr>mountpoint = ''/mnt/cdrom'', backend = VFS_BACKEND_ISO9660, drive = cdrom_u8 s, lba = 0, slot_name = ''cdrom''\<rparr>] else []) @
     [\<lparr>mountpoint = ''/mnt/boot'', backend = VFS_BACKEND_NONE, drive = 0, lba = 0, slot_name = ''boot''\<rparr>,
      \<lparr>mountpoint = ''/mnt/root'', backend = VFS_BACKEND_NONE, drive = 0, lba = 0, slot_name = ''root''\<rparr>]"

lemma init_table_ok: "table_ok (init_table s)"
  by (auto simp: init_table_def table_ok_def mount_ok_def fixed_mounts_def one_volume_def hd_backend_def)

lemma vfs_init_table:
  fixes s0 e
  defines "s \<equiv> vfs_init e s0"
  shows "s_mounts s = init_table s \<and> s_boot_cwd s = ''/'' \<and> cwds s = cwds s0 \<and> me s = me s0 \<and>
    (\<exists>cs. list_all quiet cs \<and> calls s = calls s0 @ cs)"
proof -
  let ?s1 = "s0\<lparr>s_boot_cwd := ''/'', s_cdrom_drive := - 1, s_mounts := []\<rparr>"
  obtain t x where t: "extends ?s1 t" "probe_cdrom e [0..<IDE_MAX_DRIVES] ?s1 = t\<lparr>s_cdrom_drive := x\<rparr>"
    using probe_cdrom_keeps by blast
  then obtain cs where cs: "list_all quiet cs" "t = ?s1\<lparr>calls := calls s0 @ cs\<rparr>" by (auto simp: extends_def)
  have "s_mounts s = init_table s \<and> s_boot_cwd s = ''/'' \<and> cwds s = cwds s0 \<and> me s = me s0 \<and> calls s = (calls s0 @ cs) @ [Devfs_init]"
    unfolding s_def vfs_init_def Let_def t(2) cs(2)
    by (simp add: add_mount_def mount_add_def call_def init_table_def cdrom_u8_def)
  moreover have "list_all quiet (cs @ [Devfs_init])" using cs by simp
  ultimately show ?thesis by (metis append_assoc)
qed

text \<open>The names that are not in the table.\<close>

definition absent :: "string list \<Rightarrow> vfs \<Rightarrow> bool" where
  "absent ns s \<longleftrightarrow> (\<forall>n\<in>set ns. n \<notin> mountpoint ` set (s_mounts s))"

lemma vfs_init_good:
  assumes "calls s0 = []" "list_all cwd_ok (cwds s0)" "\<forall>t. me s0 = Some t \<longrightarrow> t < length (cwds s0)"
  shows "good e (vfs_init e s0)" "absent [''/'', ''/boot'', ''/root'', ''/home'', ''/home/user''] (vfs_init e s0)"
proof -
  note i = vfs_init_table[of e s0]
  obtain cs where cs: "list_all quiet cs" "calls (vfs_init e s0) = cs" using i assms(1) by auto
  have v: "volume_of e b (calls (vfs_init e s0)) = None" for b using volume_of_quiet[OF cs(1), of e b "[]"] cs(2) by simp
  have "vfs_ok (vfs_init e s0)" using i init_table_ok assms(2,3) by (simp add: vfs_ok_def cwd_ok_def)
  moreover have "synced e (vfs_init e s0)"
    unfolding synced_def v using i by (auto simp: init_table_def hd_backend_def)
  ultimately show "good e (vfs_init e s0)" by (simp add: good_def)
  show "absent [''/'', ''/boot'', ''/root'', ''/home'', ''/home/user''] (vfs_init e s0)"
    unfolding absent_def using i by (auto simp: init_table_def)
qed

section \<open>The election of the root\<close>

text \<open>A step of the election adds an entry for the root, or leaves the table alone.\<close>

definition ready :: "env \<Rightarrow> vfs \<Rightarrow> bool" where "ready e s \<longleftrightarrow> good e s \<and> absent [''/''] s"

definition election :: "env \<Rightarrow> vfs \<Rightarrow> bool \<times> vfs \<Rightarrow> bool" where
  "election e s res \<longleftrightarrow>
     good e (snd res) \<and>
       (if fst res then \<exists>m. mountpoint m = ''/'' \<and> s_mounts (snd res) = s_mounts s @ [m] else s_mounts (snd res) = s_mounts s)"

lemma election_none: "ready e s \<Longrightarrow> election e s (False, s)"
  by (simp add: election_def ready_def)

lemma ready_quiet: "ready e s \<Longrightarrow> extends s t \<Longrightarrow> ready e t"
  using extends_good extends_fields[of s t] by (auto simp: ready_def absent_def)

lemma election_quiet: "extends s t \<Longrightarrow> election e t res \<Longrightarrow> election e s res"
  using extends_fields[of s t] by (auto simp: election_def split: if_splits)

lemma election_failed: "ready e s \<Longrightarrow> election e s (False, t) \<Longrightarrow> ready e t"
  by (simp add: election_def ready_def absent_def)

lemma election_seq: "election e s (False, t) \<Longrightarrow> election e t res \<Longrightarrow> election e s res"
  by (auto simp: election_def split: if_splits)

text \<open>The form in which the steps are chained.\<close>

lemma election_or:
  assumes "ready e s" "election e s res" "\<And>t. res = (False, t) \<Longrightarrow> ready e t \<Longrightarrow> election e t (h t)"
  shows "election e s (if fst res then (True, snd res) else h (snd res))"
proof (cases "fst res")
  case True
  then have "(True, snd res) = res" by (cases res) simp
  then show ?thesis using assms(2) True by simp
next
  case False
  then have r: "res = (False, snd res)" by (cases res) simp
  then have f: "election e s (False, snd res)" using assms(2) by simp
  show ?thesis using False election_seq[OF f assms(3)[OF r election_failed[OF assms(1) f]]] by simp
qed

lemma root_mount_ok:
  "mount_ok \<lparr>mountpoint = ''/'', backend = b, drive = d, lba = l, slot_name = take (VFS_MOUNT_NAME_MAX - 1) []\<rparr>"
  by (simp add: mount_ok_def fixed_mounts_def)

lemma try_mount_root_election:
  assumes rd: "ready e s" and hd: "hd_backend b"
  shows "election e s (case try_mount_root e b d l s of (r, s') \<Rightarrow> (r = 0, s'))"
proof (cases "backend_in_use b s")
  case True then show ?thesis using election_none[OF rd] by (simp add: try_mount_root_def)
next
  case False
  obtain r s1 where r: "rc_call e (Mount b d l) s = (r, s1)" by fastforce
  have g: "vfs_ok s" "synced e s" using rd by (simp_all add: ready_def good_def)
  note ms = mount_synced[OF g(2) False hd r]
  show ?thesis
  proof (cases "r = 0")
    case fail: False
    then show ?thesis using False ms g by (simp add: try_mount_root_def r election_def good_def)
  next
    case True
    obtain a s2 where a: "mount_add ''/'' b d l [] s1 = (a, s2)" by fastforce
    have new: "''/'' \<notin> mountpoint ` set (s_mounts s1)" using rd ms(1) by (simp add: ready_def absent_def)
    note ad = add_good[OF _ ms(3)[OF True] root_mount_ok new a]
    have ok1: "vfs_ok s1" using ms(2) g by simp
    show ?thesis
    proof (cases a)
      case None
      have s2: "s2 = s1" using ad(2)[OF ok1 None] .
      have nu: "\<And>m. m \<in> set (s_mounts s1) \<Longrightarrow> backend m \<noteq> b" using False ms(1) by (auto simp: backend_in_use_def list_ex_iff)
      have "synced e (backend_unmount e b s1)"
        using ms(3)[OF True] nu hd unfolding synced_def synced_plus_def
        by (auto simp: backend_unmount_def hd_backend_def call_def volume_step_def)
      then show ?thesis using False True None ms(1) ok1 s2
        by (simp add: try_mount_root_def r a election_def good_def backend_unmount_fields)
    next
      case (Some i)
      have "good e s2" using ad(1)[OF ok1] Some by simp
      moreover have "\<exists>m. mountpoint m = ''/'' \<and> s_mounts s2 = s_mounts s @ [m]"
        using a Some ms(1) by (auto simp: mount_add_def split: if_splits)
      ultimately show ?thesis using False True Some by (simp add: try_mount_root_def r a election_def)
    qed
  qed
qed

lemma sentinel_election:
  assumes rd: "ready e s" and hd: "hd_backend b"
  shows "election e s (False, snd (volume_has_sentinel e b d l s))"
proof (cases "backend_in_use b s")
  case True
  have "extends s (snd (volume_has_sentinel e b d l s))"
    using True by (simp add: volume_has_sentinel_def rc_call_def call_def Let_def)
  then show ?thesis using election_quiet election_none ready_quiet[OF rd] by blast
next
  case False
  obtain r s1 where r: "rc_call e (Mount b d l) s = (r, s1)" by fastforce
  have g: "vfs_ok s" "synced e s" using rd by (simp_all add: ready_def good_def)
  note ms = mount_synced[OF g(2) False hd r]
  show ?thesis
  proof (cases "r = 0")
    case fail: False
    then show ?thesis using False ms g by (simp add: volume_has_sentinel_def r Let_def election_def good_def)
  next
    case True
    let ?s2 = "snd (call e (File_exists b 0 ROOTFS_SENTINEL) s1)"
    let ?s3 = "snd (call e (Unmount b) ?s2)"
    have nu: "\<And>m. m \<in> set (s_mounts s1) \<Longrightarrow> backend m \<noteq> b" using False ms(1) by (auto simp: backend_in_use_def list_ex_iff)
    have c: "calls ?s3 = (calls s1 @ [File_exists b 0 ROOTFS_SENTINEL]) @ [Unmount b]" "s_mounts ?s3 = s_mounts s1"
      "vfs_ok ?s3 = vfs_ok s1"
      by (simp_all add: call_def vfs_ok_def)
    have "synced e ?s3"
      using ms(3)[OF True] nu hd unfolding synced_def synced_plus_def c(1,2) volume_of_snoc by (auto simp: volume_step_def)
    moreover have "snd (volume_has_sentinel e b d l s) = ?s3"
      using False True r by (auto simp: volume_has_sentinel_def unwrap)
    ultimately show ?thesis using c ms g by (simp add: election_def good_def)
  qed
qed

lemma root_on_volume_election:
  assumes rd: "ready e s" and hd: "hd_backend b"
  shows "election e s (root_on_volume e b d l s)"
proof -
  obtain ok t where t: "volume_has_sentinel e b d l s = (ok, t)" by fastforce
  have f: "election e s (False, t)" using sentinel_election[OF rd hd, of d l] t by simp
  note rt = election_failed[OF rd f]
  show ?thesis using f election_seq[OF f try_mount_root_election[OF rt hd, of d l]]
    by (auto simp: root_on_volume_def t)
qed

lemma root_on_parts_election: "ready e s \<Longrightarrow> election e s (root_on_parts e d ps s)"
proof (induction ps arbitrary: s)
  case Nil then show ?case by (simp add: election_none)
next
  case (Cons p ps)
  obtain r t where t: "rc_call e (Ext2_probe d (lba_start p)) s = (r, t)" by fastforce
  have x: "extends s t" using extends_call_eq(2)[OF _ t] by simp
  note rt = ready_quiet[OF Cons.prems x]
  let ?A = "if r \<noteq> 0 then root_on_volume e VFS_BACKEND_EXT2 d (lba_start p) t else (False, t)"
  have A: "election e t ?A"
    using rt election_none root_on_volume_election[of e t VFS_BACKEND_EXT2] by (auto simp: hd_backend_def)
  let ?B = "\<lambda>u. root_on_volume e VFS_BACKEND_FAT32 d (lba_start p) u"
  have "election e u (if fst (?B u) then (True, snd (?B u)) else root_on_parts e d ps (snd (?B u)))" if "ready e u" for u
    by (rule election_or[OF that root_on_volume_election[OF that]]) (use Cons.IH in \<open>auto simp: hd_backend_def\<close>)
  then have "election e t (if fst ?A then (True, snd ?A)
      else (if fst (?B (snd ?A)) then (True, snd (?B (snd ?A))) else root_on_parts e d ps (snd (?B (snd ?A)))))" (is "election e t ?R")
    by (intro election_or[OF rt A])
  moreover have "root_on_parts e d (p # ps) s = ?R" by (simp add: t case_prod_beta Let_def)
  ultimately show ?case using election_quiet[OF x] by simp
qed

lemma root_on_drives_election: "ready e s \<Longrightarrow> election e s (root_on_drives e ds s)"
proof (induction ds arbitrary: s)
  case Nil then show ?case by (simp add: election_none)
next
  case (Cons i ds)
  let ?A = "root_on_parts e (of_nat i) (parts (snd (probe_parts e i))) s"
  have "election e s (if fst ?A then (True, snd ?A) else root_on_drives e ds (snd ?A))"
    by (rule election_or[OF Cons.prems root_on_parts_election[OF Cons.prems]]) (use Cons.IH in auto)
  then show ?case using Cons by (auto simp: case_prod_beta Let_def)
qed

lemma root_on_cdrom_election:
  assumes rd: "ready e s"
  shows "election e s (root_on_cdrom e s)"
proof (cases "s_cdrom_drive s < 0")
  case True then show ?thesis using election_none[OF rd] by (simp add: root_on_cdrom_def)
next
  case False
  obtain ok t where t: "rc_call e (File_exists VFS_BACKEND_ISO9660 (cdrom_u8 s) ROOTFS_SENTINEL) s = (ok, t)" by fastforce
  have x: "extends s t" using extends_call_eq(2)[OF _ t] by simp
  note rt = ready_quiet[OF rd x]
  obtain a u where a: "mount_add ''/'' VFS_BACKEND_ISO9660 (cdrom_u8 t) 0 [] t = (a, u)" by fastforce
  have sp: "synced_plus e t VFS_BACKEND_ISO9660 (cdrom_u8 t) 0"
    using rt by (intro synced_plus_other) (auto simp: ready_def good_def hd_backend_def)
  have new: "''/'' \<notin> mountpoint ` set (s_mounts t)" using rt by (simp add: ready_def absent_def)
  note ad = add_good[OF _ sp root_mount_ok new a]
  have ok: "vfs_ok t" "good e t" using rt by (simp_all add: ready_def good_def)
  have "election e t (a \<noteq> None, u)"
  proof (cases a)
    case None then show ?thesis using ad(2)[OF ok(1)] ok by (simp add: election_def)
  next
    case (Some i)
    then show ?thesis using ad(1)[OF ok(1)] a by (auto simp: election_def mount_add_def split: if_splits)
  qed
  then have "election e s (a \<noteq> None, u)" by (rule election_quiet[OF x])
  then show ?thesis using False election_quiet[OF x election_none[OF rt]] by (simp add: root_on_cdrom_def t a)
qed

lemma root_on_node_election:
  assumes rd: "ready e s"
  shows "election e s (root_on_node e spec s)"
proof -
  obtain node t where t: "rc_call e (Dev_lookup (drop 4 spec)) s = (node, t)" by fastforce
  obtain a u where u: "call e (Dev_location node) t = (a, u)" by fastforce
  obtain r v where v: "rc_call e (Ext2_probe (out_drive a) (out_lba a)) u = (r, v)" by fastforce
  have x: "extends s t" "extends t u" "extends u v"
    using extends_call_eq(2)[OF _ t] extends_call_eq(1)[OF _ u] extends_call_eq(2)[OF _ v] by simp_all
  have xu: "extends s u" using extends_trans[OF x(1,2)] .
  have xv: "extends s v" using extends_trans[OF xu x(3)] .
  note rv = ready_quiet[OF rd xv]
  let ?A = "case (if r \<noteq> 0 then try_mount_root e VFS_BACKEND_EXT2 (out_drive a) (out_lba a) v else (- 1, v)) of (q, w) \<Rightarrow> (q = 0, w)"
  have A: "election e v ?A"
    using rv election_none try_mount_root_election[of e v VFS_BACKEND_EXT2] by (auto simp: hd_backend_def)
  have "election e v (if fst ?A then (True, snd ?A)
      else (case try_mount_root e VFS_BACKEND_FAT32 (out_drive a) (out_lba a) (snd ?A) of (q, w) \<Rightarrow> (q = 0, w)))"
    by (rule election_or[OF rv A]) (rule try_mount_root_election, simp_all add: hd_backend_def)
  then have "election e s (if fst ?A then (True, snd ?A)
      else (case try_mount_root e VFS_BACKEND_FAT32 (out_drive a) (out_lba a) (snd ?A) of (q, w) \<Rightarrow> (q = 0, w)))"
    by (rule election_quiet[OF xv])
  moreover have "election e s (False, t)" "election e s (False, u)"
    using election_quiet[OF x(1) election_none[OF ready_quiet[OF rd x(1)]]]
      election_quiet[OF xu election_none[OF ready_quiet[OF rd xu]]] by simp_all
  ultimately show ?thesis by (auto simp: root_on_node_def t u v case_prod_beta Let_def)
qed

lemma vfs_mount_root_good:
  assumes rd: "ready e s"
  shows "good e (vfs_mount_root e spec s)"
    "s_mounts (vfs_mount_root e spec s) = s_mounts s \<or> (\<exists>m. mountpoint m = ''/'' \<and> s_mounts (vfs_mount_root e spec s) = s_mounts s @ [m])"
proof -
  let ?A = "if spec = Some ''cdrom'' then root_on_cdrom e s else (False, s)"
  let ?B = "\<lambda>s. case spec of None \<Rightarrow> (False, s) | Some p \<Rightarrow> if take 5 p = ''/dev/'' then root_on_node e p s else (False, s)"
  let ?C = "\<lambda>s. root_on_drives e [0..<IDE_MAX_DRIVES] s"
  have C: "election e t (if fst (?C t) then (True, snd (?C t)) else root_on_cdrom e (snd (?C t)))" if "ready e t" for t
    by (rule election_or[OF that root_on_drives_election[OF that]]) (rule root_on_cdrom_election)
  have B: "election e t (if fst (?B t) then (True, snd (?B t))
      else (if fst (?C (snd (?B t))) then (True, snd (?C (snd (?B t)))) else root_on_cdrom e (snd (?C (snd (?B t))))))"
    if "ready e t" for t
    by (rule election_or[OF that]) (use that C election_none root_on_node_election in \<open>auto split: option.split\<close>)
  have "election e s (if fst ?A then (True, snd ?A) else (if fst (?B (snd ?A)) then (True, snd (?B (snd ?A)))
      else (if fst (?C (snd (?B (snd ?A)))) then (True, snd (?C (snd (?B (snd ?A)))))
            else root_on_cdrom e (snd (?C (snd (?B (snd ?A))))))))" (is "election e s ?R")
    by (rule election_or[OF rd]) (use rd election_none root_on_cdrom_election B in auto)
  then obtain R where R: "election e s R" "vfs_mount_root e spec s = (if spec = Some ''none'' then s else snd R)"
    by (simp add: vfs_mount_root_def case_prod_beta Let_def)
  then show "good e (vfs_mount_root e spec s)" using rd by (simp add: election_def ready_def)
  show "s_mounts (vfs_mount_root e spec s) = s_mounts s \<or> (\<exists>m. mountpoint m = ''/'' \<and> s_mounts (vfs_mount_root e spec s) = s_mounts s @ [m])"
    using R by (auto simp: election_def split: if_splits)
qed

section \<open>The automatic mounts\<close>

text \<open>
  The start-up invariant: the home directories are not in the table yet, and the mirror of
  the boot volume is there only if the boot slot is bound.
\<close>

definition starting :: "env \<Rightarrow> vfs \<Rightarrow> bool" where
  "starting e s \<longleftrightarrow> good e s \<and> absent [''/root'', ''/home'', ''/home/user''] s \<and>
     (''/boot'' \<in> mountpoint ` set (s_mounts s) \<longrightarrow> (\<exists>m\<in>set (s_mounts s). slot_name m = ''boot'' \<and> backend m \<noteq> VFS_BACKEND_NONE))"

lemma starting_quiet: "starting e s \<Longrightarrow> extends s t \<Longrightarrow> starting e t"
  using extends_good extends_fields[of s t] by (auto simp: starting_def absent_def)

lemma bind_and_enter_mounts [simp]: "s_mounts (bind_and_enter i b d l s) = s_mounts (bind_mount i b d l s)"
  by (simp add: bind_and_enter_def)

lemma bind_points: "map mountpoint (s_mounts (bind_mount i b d l s)) = map mountpoint (s_mounts s)"
proof (rule nth_equalityI)
  fix j assume "j < length (map mountpoint (s_mounts (bind_mount i b d l s)))"
  then show "map mountpoint (s_mounts (bind_mount i b d l s)) ! j = map mountpoint (s_mounts s) ! j"
    by (cases "j = i") (simp_all add: bind_mount_def)
qed (simp add: bind_mount_def)

lemma image_points: "mountpoint ` set (s_mounts s) = set (map mountpoint (s_mounts s))" by simp

lemma starting_bind:
  assumes st: "starting e s" and g: "good e (bind_mount i b d l t)" and t: "s_mounts t = s_mounts s"
    and i: "i < length (s_mounts s)" and b: "b \<noteq> VFS_BACKEND_NONE"
    and u: "s_mounts u = s_mounts (bind_mount i b d l t)" "good e u"
  shows "starting e u"
proof -
  have p: "mountpoint ` set (s_mounts u) = mountpoint ` set (s_mounts s)"
    unfolding image_points using bind_points[of i b d l t] t u(1) by simp
  have "\<exists>m\<in>set (s_mounts u). slot_name m = ''boot'' \<and> backend m \<noteq> VFS_BACKEND_NONE"
    if "\<exists>m\<in>set (s_mounts s). slot_name m = ''boot'' \<and> backend m \<noteq> VFS_BACKEND_NONE"
    using that i b unfolding u(1) bind_mount_def t by (simp add: bex_update) (auto simp: bex_nth)
  then show ?thesis using st u(2) unfolding starting_def absent_def p by blast
qed

lemma bind_root_slot_starting:
  assumes st: "starting e s" and i: "mount_find_slot n s = Some i" "\<not> mount_is_bound i s"
  shows "starting e (snd (bind_root_slot e i d l s))"
proof -
  obtain b t where p: "probe_backend e d l s = (b, t)" by fastforce
  note pf = probe_backend_facts[OF p]
  have tt: "starting e t" "s_mounts t = s_mounts s" using starting_quiet[OF st pf(1)] extends_fields[OF pf(1)] by simp_all
  have g: "good e t" "vfs_ok t" "synced e t" using tt(1) by (simp_all add: starting_def good_def)
  have il: "i < length (s_mounts t)" "\<not> mount_is_bound i t" using find_slot_Some[OF i(1)] i(2) tt(2) by (simp_all add: mount_is_bound_def)
  have bn: "b \<noteq> VFS_BACKEND_NONE" using pf(2) by (auto simp: hd_backend_def)
  obtain r u where r: "rc_call e (Mount b d l) t = (r, u)" by fastforce
  show ?thesis
  proof (cases "backend_in_use b t")
    case True
    show ?thesis
    proof (cases "backend_volume_in_use b d l t")
      case vu: True
      note sp = synced_plus_alias[OF g(3) vu]
      note nh = unbound_not_hd[OF il(2,1)]
      have "starting e (bind_and_enter i b d l t)"
        by (rule starting_bind[OF tt(1) bind_good[OF g(2) sp il(1) nh] _ _ bn])
          (use il bind_and_enter_good[OF g(2) sp il(1) nh] in simp_all)
      then show ?thesis using True vu by (simp add: bind_root_slot_def p)
    next
      case False then show ?thesis using True tt by (simp add: bind_root_slot_def p)
    qed
  next
    case False
    note mb = mount_and_bind_good[OF g(1) False pf(2) il r]
    have um: "s_mounts u = s_mounts t" using mount_synced(1)[OF g(3) False pf(2) r] .
    show ?thesis
    proof (cases "r = 0")
      case True
      have "starting e (bind_and_enter i b d l u)"
        by (rule starting_bind[OF tt(1) mb(2)[OF True] um il(1) bn]) (use mb(1) True in simp_all)
      then show ?thesis using False True by (simp add: bind_root_slot_def p r)
    next
      case fail: False
      have "starting e u" using mb(1) fail tt(1) um by (simp add: starting_def absent_def)
      then show ?thesis using False fail by (simp add: bind_root_slot_def p r)
    qed
  qed
qed

lemma slot_unique:
  assumes "vfs_ok s" "i < length (s_mounts s)" "m \<in> set (s_mounts s)" "slot_name m = slot_name (s_mounts s ! i)" "slot_name m \<noteq> []"
  shows "m = s_mounts s ! i"
proof -
  obtain j where j: "j < length (s_mounts s)" "s_mounts s ! j = m" using assms(3) by (auto simp: in_set_conv_nth)
  have "mountpoint m = mountpoint (s_mounts s ! i)"
    using vfs_okD[OF assms(1,2)] vfs_okD[OF assms(1) j(1)] assms(4,5) j(2) by (simp add: mount_ok_def)
  then have "map mountpoint (s_mounts s) ! j = map mountpoint (s_mounts s) ! i" using j assms(2) by simp
  moreover have "distinct (map mountpoint (s_mounts s))" using assms(1) by (simp add: vfs_ok_def table_ok_def)
  ultimately have "j = i" using j(1) assms(2) by (metis length_map nth_eq_iff_index_eq)
  then show ?thesis using j(2) by simp
qed

lemma bind_boot_slot_starting:
  assumes st: "starting e s"
  shows "starting e (bind_boot_slot e d dp s)"
proof (cases "mount_find_slot ''boot'' s")
  case None then show ?thesis using st by (simp add: bind_boot_slot_def Let_def)
next
  case (Some i)
  note il = find_slot_Some[OF Some]
  define l where "l = lba_start (parts dp ! 0)"
  have g: "good e s" "vfs_ok s" "synced e s" using st by (simp_all add: starting_def good_def)
  show ?thesis
  proof (cases "mount_is_bound i s \<or> backend_in_use VFS_BACKEND_FAT32 s")
    case True then show ?thesis using st Some by (auto simp: bind_boot_slot_def Let_def)
  next
    case False
    obtain r u where r: "rc_call e (Mount VFS_BACKEND_FAT32 d l) s = (r, u)" by fastforce
    have hd: "hd_backend VFS_BACKEND_FAT32" by (simp add: hd_backend_def)
    have nu: "\<not> backend_in_use VFS_BACKEND_FAT32 s" "\<not> mount_is_bound i s" using False by auto
    note mb = mount_and_bind_good[OF g(1) nu(1) hd _ nu(2) r]
    have um: "s_mounts u = s_mounts s" using mount_synced(1)[OF g(3) nu(1) hd r] .
    have failed: "starting e u" if "r \<noteq> 0" using mb(1) that il st um by (simp add: starting_def absent_def)
    let ?v = "bind_mount i VFS_BACKEND_FAT32 d l u"
    have done0: "starting e (add_mount ''/boot'' VFS_BACKEND_FAT32 d l [] ?v)" if r0: "r = 0"
    proof -
      have gv: "good e ?v" using mb(2) il r0 by blast
      have sv: "starting e ?v" by (rule starting_bind[OF st gv um]) (use il gv in simp_all)
      have vi: "?v = u\<lparr>s_mounts := (s_mounts s)[i := (s_mounts s ! i)\<lparr>backend := VFS_BACKEND_FAT32, drive := d, lba := l\<rparr>]\<rparr>"
        by (simp add: bind_mount_def um)
      have "backend_volume_in_use VFS_BACKEND_FAT32 d l ?v"
        unfolding backend_volume_in_use_def list_ex_iff vi using il by (simp add: bex_update)
      then have sp: "synced_plus e ?v VFS_BACKEND_FAT32 d l" using gv by (intro synced_plus_alias) (simp_all add: good_def)
      have "''/boot'' \<notin> mountpoint ` set (s_mounts s)"
      proof
        assume "''/boot'' \<in> mountpoint ` set (s_mounts s)"
        then obtain m where m: "m \<in> set (s_mounts s)" "slot_name m = ''boot''" "backend m \<noteq> VFS_BACKEND_NONE"
          using st by (auto simp: starting_def)
        then have "m = s_mounts s ! i" using slot_unique[OF g(2), of i m] il by simp
        then show False using m nu(2) il by (simp add: mount_is_bound_def)
      qed
      then have new: "''/boot'' \<notin> mountpoint ` set (s_mounts ?v)"
        unfolding image_points bind_points um by simp
      obtain a w where a: "mount_add ''/boot'' VFS_BACKEND_FAT32 d l [] ?v = (a, w)" by fastforce
      have mo: "mount_ok \<lparr>mountpoint = ''/boot'', backend = VFS_BACKEND_FAT32, drive = d, lba = l, slot_name = take (VFS_MOUNT_NAME_MAX - 1) []\<rparr>"
        by (simp add: mount_ok_def fixed_mounts_def)
      have vo: "vfs_ok ?v" using gv by (simp add: good_def)
      note ad = add_good[OF vo sp mo new a]
      show ?thesis
      proof (cases a)
        case None then show ?thesis using ad(2) sv a by (simp add: add_mount_def)
      next
        case some: (Some k)
        have w: "s_mounts w = s_mounts ?v @ [\<lparr>mountpoint = ''/boot'', backend = VFS_BACKEND_FAT32, drive = d, lba = l, slot_name = []\<rparr>]"
          using a some by (auto simp: mount_add_def split: if_splits)
        have "\<exists>m\<in>set (s_mounts ?v). slot_name m = ''boot'' \<and> backend m \<noteq> VFS_BACKEND_NONE"
          unfolding vi using il by (simp add: bex_update)
        then show ?thesis using ad(1) some sv a w unfolding starting_def absent_def by (simp add: add_mount_def)
      qed
    qed
    show ?thesis using False Some failed done0 st unfolding bind_boot_slot_def Let_def l_def[symmetric] by (simp add: r)
  qed
qed

lemma try_mount_drive_starting: "starting e s \<Longrightarrow> starting e (snd (try_mount_drive e i s))"
  using bind_root_slot_starting[of e s] bind_boot_slot_starting
  by (auto simp: try_mount_drive_def Let_def case_prod_beta split: option.splits)

lemma try_mount_drives_starting: "starting e s \<Longrightarrow> starting e (try_mount_drives e is s)"
proof (induction "is" arbitrary: s)
  case (Cons i "is")
  then show ?case using try_mount_drive_starting[of e s i] by (simp add: Let_def case_prod_beta)
qed simp

lemma add_home:
  assumes g: "good e s" and ab: "absent (mp # ns) s" and mp: "mp \<in> {''/root'', ''/home'', ''/home/user''}" and ns: "mp \<notin> set ns"
  shows "good e (add_mount mp VFS_BACKEND_TMPFS d 0 [] s)" "absent ns (add_mount mp VFS_BACKEND_TMPFS d 0 [] s)"
proof -
  obtain a w where a: "mount_add mp VFS_BACKEND_TMPFS d 0 [] s = (a, w)" by fastforce
  have sp: "synced_plus e s VFS_BACKEND_TMPFS d 0" using g by (intro synced_plus_other) (auto simp: good_def hd_backend_def)
  have mo: "mount_ok \<lparr>mountpoint = mp, backend = VFS_BACKEND_TMPFS, drive = d, lba = 0, slot_name = take (VFS_MOUNT_NAME_MAX - 1) []\<rparr>"
    using mp by (auto simp: mount_ok_def fixed_mounts_def)
  have vo: "vfs_ok s" using g by (simp add: good_def)
  note ad = add_good[OF vo sp mo _ a]
  show "good e (add_mount mp VFS_BACKEND_TMPFS d 0 [] s)"
    using ad(1,2) ab a g by (cases a) (simp_all add: add_mount_def absent_def)
  show "absent ns (add_mount mp VFS_BACKEND_TMPFS d 0 [] s)"
    using ab ns by (auto simp: add_mount_def mount_add_def absent_def)
qed

lemma vfs_auto_mount_good:
  assumes st: "starting e s"
  shows "good e (vfs_auto_mount e s)"
proof -
  define hint where "hint = unat (s_boot_biosdev s - 0x80)"
  define p where "p = (if 0x80 \<le> s_boot_biosdev s \<and> s_boot_biosdev s \<le> 0xDF \<and> hint < IDE_MAX_DRIVES
     then try_mount_drive e hint s else (False, s))"
  define t where "t = (if fst p then snd p else try_mount_drives e [0..<IDE_MAX_DRIVES] (snd p))"
  have "starting e (snd p)" using st try_mount_drive_starting by (simp add: p_def)
  then have "starting e t" using try_mount_drives_starting by (simp add: t_def)
  then have t: "good e t" "absent [''/root'', ''/home'', ''/home/user''] t" by (simp_all add: starting_def)
  note r = add_home[OF t, of 1]
  note h = add_home[OF r, of 3]
  note u = add_home[OF h, of 2]
  have "vfs_auto_mount e s = (if vfs_rootfs_is_disk t then t
      else add_mount ''/home/user'' VFS_BACKEND_TMPFS 2 0 []
        (add_mount ''/home'' VFS_BACKEND_TMPFS 3 0 [] (add_mount ''/root'' VFS_BACKEND_TMPFS 1 0 [] t)))"
    by (simp add: vfs_auto_mount_def Let_def case_prod_beta t_def p_def hint_def)
  then show ?thesis using t u by simp
qed

text \<open>The whole start-up.\<close>

definition vfs_boot :: "env \<Rightarrow> string option \<Rightarrow> vfs \<Rightarrow> vfs" where
  "vfs_boot e spec s0 = vfs_auto_mount e (vfs_mount_root e spec (vfs_init e s0))"

lemma vfs_boot_good:
  assumes "calls s0 = []" "list_all cwd_ok (cwds s0)" "\<forall>t. me s0 = Some t \<longrightarrow> t < length (cwds s0)"
  shows "good e (vfs_boot e spec s0)"
proof -
  note i = vfs_init_good[OF assms, of e]
  then have rd: "ready e (vfs_init e s0)" by (simp add: ready_def absent_def)
  note m = vfs_mount_root_good[OF rd, of spec]
  have "absent [''/boot'', ''/root'', ''/home'', ''/home/user''] (vfs_mount_root e spec (vfs_init e s0))"
    using m(2) i(2) by (auto simp: absent_def)
  then have "starting e (vfs_mount_root e spec (vfs_init e s0))" using m(1) by (simp add: starting_def absent_def)
  then show ?thesis unfolding vfs_boot_def by (rule vfs_auto_mount_good)
qed

end
