(* ===== verification/Vfs_Properties.thy ===== *)
theory Vfs_Properties
  imports Vfs_Held Vfs_Boot
begin

text \<open>The properties of the VFS layer.\<close>

section \<open>Paths and routing\<close>

text \<open>
  C20. \<open>path_normalize\<close> computes the walk through the components of its input. Reading the
  input as components between slashes, and going through them from the root (empty
  components and \<open>.\<close> stay, \<open>..\<close> goes up, the root is its own parent), the output is the
  directory reached, written with one slash before each component; none of its components is
  empty, \<open>.\<close> or \<open>..\<close>, and normalising again changes nothing. This holds for every input of at
  most 254 characters. Whatever the input, the output is absolute and fits the buffer. A
  relative path is resolved from the working directory.
\<close>

theorem path_normalize_correct:
  "(length p \<le> 254 \<longrightarrow>
      path_normalize p VFS_PATH_MAX = render (foldl visit [] (comps p)) \<and>
      list_all good_comp (foldl visit [] (comps p)) \<and>
      path_normalize (path_normalize p VFS_PATH_MAX) VFS_PATH_MAX = path_normalize p VFS_PATH_MAX) \<and>
   (length cwd + length q \<le> 253 \<and> q \<noteq> [] \<and> hd q \<noteq> CHR ''/'' \<longrightarrow>
      path_resolve cwd (Some q) = render (foldl visit (foldl visit [] (comps (cwd @ ''/''))) (comps q))) \<and>
   take 1 (path_resolve cwd path) = ''/'' \<and> length (path_resolve cwd path) < VFS_PATH_MAX"
proof (intro conjI impI)
  assume p: "length p \<le> 254"
  have g: "list_all good_comp (foldl visit [] (comps p))" by (rule foldl_visit_good) simp
  then show "list_all good_comp (foldl visit [] (comps p))" .
  have r: "path_normalize p VFS_PATH_MAX = render (foldl visit [] (comps p))"
    by (rule path_normalize_render) (use p in auto)
  then show "path_normalize p VFS_PATH_MAX = render (foldl visit [] (comps p))" .
  have out: "take 1 (path_normalize p VFS_PATH_MAX) = ''/''" "length (path_normalize p VFS_PATH_MAX) < VFS_PATH_MAX"
    using resolve_ok[of p None] by (simp_all add: path_resolve_def cwd_ok_def)
  have "path_normalize (path_normalize p VFS_PATH_MAX) VFS_PATH_MAX = render (foldl visit [] (comps (path_normalize p VFS_PATH_MAX)))"
    by (rule path_normalize_render) (use out in auto)
  also have "\<dots> = path_normalize p VFS_PATH_MAX" unfolding r comps_render[OF g] ..
  finally show "path_normalize (path_normalize p VFS_PATH_MAX) VFS_PATH_MAX = path_normalize p VFS_PATH_MAX" .
next
  assume q: "length cwd + length q \<le> 253 \<and> q \<noteq> [] \<and> hd q \<noteq> CHR ''/''"
  have "path_resolve cwd (Some q) = path_normalize (cwd @ CHR ''/'' # q) VFS_PATH_MAX"
    using q by (simp add: path_resolve_def)
  also have "\<dots> = render (foldl visit [] (comps (cwd @ CHR ''/'' # q)))"
    by (rule path_normalize_render) (use q in auto)
  finally show "path_resolve cwd (Some q) = render (foldl visit (foldl visit [] (comps (cwd @ ''/''))) (comps q))"
    unfolding comps_append_slash[of cwd q] by simp
next
  show "take 1 (path_resolve cwd path) = ''/''" "length (path_resolve cwd path) < VFS_PATH_MAX"
    using resolve_ok[of cwd path] by (simp_all add: cwd_ok_def)
qed

theorem path_normalize_correct_witness:
  "path_normalize ''/usr/./lib//../bin/'' VFS_PATH_MAX = ''/usr/bin'' \<and> path_resolve ''/usr/bin'' (Some ''../lib'') = ''/usr/lib''"
proof -
  have "foldl visit [] (comps ''/usr/./lib//../bin/'') = [''usr'', ''bin'']"
    "foldl visit (foldl visit [] (comps (''/usr/bin'' @ ''/''))) (comps ''../lib'') = [''usr'', ''lib'']"
    by (simp_all add: comps.simps visit_def)
  then show ?thesis
    using path_normalize_correct[of "''/usr/./lib//../bin/''" "''/usr/bin''" "''../lib''" None] by (simp add: render_def)
qed

text \<open>
  C14. Routing selects the entry with the longest mountpoint that covers the path, where a
  mountpoint covers the paths at and below it (so \<open>/tmpfile\<close> is not under \<open>/tmp\<close>) and the root
  covers all; of two equal mountpoints the first is taken; no entry is selected exactly
  when none covers the path. The path handed to the driver is the path itself for the root,
  and the rest after the mountpoint otherwise, with its leading slash.
\<close>

theorem vfs_route_longest:
  assumes "\<forall>m\<in>set (s_mounts s). take 1 (mountpoint m) = ''/''"
  shows "case vfs_route path s of
      (None, drv) \<Rightarrow> drv = path \<and> (\<forall>m\<in>set (s_mounts s). \<not> covers (mountpoint m) path)
    | (Some b, drv) \<Rightarrow>
        b < length (s_mounts s) \<and> covers (mountpoint (s_mounts s ! b)) path \<and>
        (\<forall>i<length (s_mounts s). covers (mountpoint (s_mounts s ! i)) path \<longrightarrow>
           length (mountpoint (s_mounts s ! i)) \<le> length (mountpoint (s_mounts s ! b)) \<and>
           (mountpoint (s_mounts s ! i) = mountpoint (s_mounts s ! b) \<longrightarrow> b \<le> i)) \<and>
        (if mountpoint (s_mounts s ! b) = ''/'' then drv = path
         else if path = mountpoint (s_mounts s ! b) then drv = ''/''
         else path = mountpoint (s_mounts s ! b) @ drv \<and> take 1 drv = ''/'')"
proof -
  let ?ms = "s_mounts s"
  have b: "best_of ?ms path (length ?ms) (fold (route_step ?ms path) [0..<length ?ms] None)"
    by (rule route_fold_best[OF assms]) simp
  show ?thesis
  proof (cases "fold (route_step ?ms path) [0..<length ?ms] None")
    case None
    then show ?thesis using b by (auto simp: vfs_route_def best_of_def in_set_conv_nth)
  next
    case (Some bn)
    obtain i n where bn: "bn = (i, n)" by (cases bn)
    have B: "i < length ?ms" "covers (mountpoint (?ms ! i)) path"
      "\<And>j. j < length ?ms \<Longrightarrow> covers (mountpoint (?ms ! j)) path \<Longrightarrow>
        length (mountpoint (?ms ! j)) < length (mountpoint (?ms ! i)) \<or> length (mountpoint (?ms ! j)) = length (mountpoint (?ms ! i)) \<and> i \<le> j"
      using b Some bn by (auto simp: best_of_def)
    let ?mp = "mountpoint (?ms ! i)"
    let ?drv = "if ?mp = ''/'' then path else if take 1 (drop (length ?mp) path) = ''/'' then drop (length ?mp) path else ''/''"
    have r: "vfs_route path s = (Some i, ?drv)" by (simp add: vfs_route_def Some bn Let_def)
    have long: "length (mountpoint (?ms ! j)) \<le> length ?mp \<and> (mountpoint (?ms ! j) = ?mp \<longrightarrow> i \<le> j)"
      if "j < length ?ms" "covers (mountpoint (?ms ! j)) path" for j
      using B(3)[OF that] by auto
    have d: "if ?mp = ''/'' then ?drv = path else if path = ?mp then ?drv = ''/'' else path = ?mp @ ?drv \<and> take 1 ?drv = ''/''"
      using B(2) by (auto simp: covers_def)
    show ?thesis unfolding r using B(1,2) long d by simp
  qed
qed

definition route_demo :: vfs where
  "route_demo = \<lparr>s_mounts =
      [\<lparr>mountpoint = ''/tmp'', backend = VFS_BACKEND_TMPFS, drive = 0, lba = 0, slot_name = []\<rparr>,
       \<lparr>mountpoint = ''/'', backend = VFS_BACKEND_EXT2, drive = 0, lba = 2048, slot_name = []\<rparr>],
     s_cdrom_drive = - 1, s_boot_biosdev = 0, s_boot_cwd = ''/'', cwds = [], me = None, calls = []\<rparr>"

theorem vfs_route_longest_witness:
  "vfs_route ''/tmp/x'' route_demo = (Some 0, ''/x'') \<and> vfs_route ''/tmpfile'' route_demo = (Some 1, ''/tmpfile'') \<and>
   covers ''/tmp'' ''/tmp/x'' \<and> \<not> covers ''/tmp'' ''/tmpfile''"
proof -
  have r: "vfs_route ''/tmp/x'' route_demo = (Some 0, ''/x'')" "vfs_route ''/tmpfile'' route_demo = (Some 1, ''/tmpfile'')" by code_simp+
  have m: "\<forall>m\<in>set (s_mounts route_demo). take 1 (mountpoint m) = ''/''" by (simp add: route_demo_def)
  have p: "mountpoint (s_mounts route_demo ! 0) = ''/tmp''" "mountpoint (s_mounts route_demo ! 1) = ''/''" "length (s_mounts route_demo) = 2"
    by (simp_all add: route_demo_def)
  have "covers ''/tmp'' ''/tmp/x''" using vfs_route_longest[OF m, of "''/tmp/x''"] unfolding r by (simp add: p)
  moreover have "\<not> covers ''/tmp'' ''/tmpfile''"
    using vfs_route_longest[OF m, of "''/tmpfile''"] unfolding r by (auto simp: p simp del: One_nat_def dest!: spec[of _ 0])
  ultimately show ?thesis using r by simp
qed

section \<open>Mounts\<close>

text \<open>
  The operations on a running system, in any order. The flag of a step says whether it is an unmount that
  takes the boot slot's mirror away: the slot named (or, without a name, the only bound one) is the boot slot, it is bound,
  and there is an entry at \<open>/boot\<close>.
\<close>

definition drops_mirror :: "string option \<Rightarrow> vfs \<Rightarrow> bool" where
  "drops_mirror nm s \<longleftrightarrow> (if nm = None \<or> nm = Some [] then sole_volume s else nm) = Some ''boot'' \<and>
     ''/boot'' \<in> mountpoint ` set (s_mounts s) \<and> (\<exists>m\<in>set (s_mounts s). slot_name m = ''boot'' \<and> backend m \<noteq> VFS_BACKEND_NONE)"

inductive vfs_step :: "env \<Rightarrow> vfs \<Rightarrow> bool \<Rightarrow> vfs \<Rightarrow> bool" for e where
  mount_hd: "vfs_step e s False (snd (vfs_mount_hd e d l name s))"
| make_mountpoint: "vfs_step e s False (snd (vfs_make_mountpoint name s))"
| remove_mountpoint: "vfs_step e s False (snd (vfs_remove_mountpoint name s))"
| umount_hd: "vfs_step e s (drops_mirror nm s) (snd (vfs_umount_hd e nm s))"
| shutdown: "vfs_step e s False (vfs_prepare_shutdown e s)"
| eject: "vfs_step e s False (vfs_notify_cdrom_ejected s)"
| set_boot_drive: "vfs_step e s False (vfs_set_boot_drive x s)"
| cd: "vfs_step e s False (snd (vfs_cd e path s))"
| ls: "vfs_step e s False (snd (vfs_ls e path s))"
| cat: "vfs_step e s False (snd (vfs_cat e path s))"
| mkdir: "vfs_step e s False (snd (vfs_mkdir e path s))"
| ensure_root_home: "vfs_step e s False (vfs_ensure_root_home e s)"
| read_file: "vfs_step e s False (snd (vfs_read_file e path n s))"
| read_at: "vfs_step e s False (snd (vfs_read_at e path off n s))"
| write_file: "vfs_step e s False (snd (vfs_write_file e path buf s))"
| delete_file: "vfs_step e s False (snd (vfs_delete_file e path s))"
| delete_dir: "vfs_step e s False (snd (vfs_delete_dir e path s))"
| rename: "vfs_step e s False (snd (vfs_rename e path path' s))"
| file_exists: "vfs_step e s False (snd (vfs_file_exists e path s))"
| stat: "vfs_step e s False (snd (vfs_stat e path s))"
| statfs: "vfs_step e s False (snd (vfs_statfs e s))"
| blockdev: "vfs_step e s False (snd (vfs_blockdev_lookup e path s))"
| complete: "vfs_step e s False (snd (vfs_complete e dir pre cb s))"
| switch_task: "t < length (cwds s) \<Longrightarrow> vfs_step e s False (s\<lparr>me := Some t\<rparr>)"

text \<open>A run from start-up; its flag says whether some step took the mirror away.\<close>

inductive vfs_run :: "env \<Rightarrow> vfs \<Rightarrow> bool \<Rightarrow> vfs \<Rightarrow> bool" for e s0 where
  booted: "vfs_run e s0 False s0"
| step: "vfs_run e s0 k s \<Longrightarrow> vfs_step e s l s' \<Longrightarrow> vfs_run e s0 (k \<or> l) s'"

lemmas quiet_extends = path_ops_extend vfs_write_file_extends vfs_cat_extends vfs_rename_extends vfs_stat_extends vfs_complete_extends

lemma vfs_step_sound:
  assumes "vfs_step e s l s'" "sound e s"
  shows "sound e s'"
  using assms
proof cases
  case (switch_task t)
  then show ?thesis using assms(2) by (simp add: sound_def vfs_ok_def held_def)
qed (use assms(2) in \<open>simp_all add: vfs_mount_hd_sound vfs_make_mountpoint_sound vfs_remove_mountpoint_sound vfs_umount_hd_sound
    shutdown_sound eject_sound vfs_set_boot_drive_def vfs_cd_sound vfs_mkdir_sound vfs_delete_dir_sound vfs_ensure_root_home_sound
    quiet_extends[THEN extends_sound]\<close>)

lemma vfs_step_good:
  assumes "vfs_step e s False s'" "good e s"
  shows "good e s'"
  using assms
proof cases
  case (umount_hd nm)
  then show ?thesis using assms(2) vfs_umount_hd_good[of e s nm] by (auto simp: drops_mirror_def)
next
  case shutdown
  then show ?thesis using shutdown_fold_good[OF assms(2) order.refl] by (simp add: vfs_prepare_shutdown_def)
next
  case (switch_task t)
  then show ?thesis using assms(2) by (simp add: good_def vfs_ok_def synced_def)
next
  case (set_boot_drive x)
  then show ?thesis using assms(2) by (simp add: vfs_set_boot_drive_def)
qed (use assms(2) in \<open>simp_all add: vfs_mount_hd_good vfs_make_mountpoint_good vfs_remove_mountpoint_good eject_good
    vfs_cd_good vfs_mkdir_good vfs_delete_dir_good vfs_ensure_root_home_good quiet_extends[THEN extends_good]\<close>)

text \<open>
  C8. The invariant of the mount table. Start the system with any hardware, any driver
  answers and any root specification, and then run any operations in any order: the table has at most
  20 entries with distinct mountpoints; each is a fixed system mountpoint or \<open>/mnt/\<close> and a
  slot name of at most 31 characters without a slash; working directories are absolute and
  fit their buffers; and for both disk drivers every entry with this driver names the volume that the
  driver holds, so all of them agree. As long as no unmount has taken the mirror of a bound boot slot away,
  the converse holds too: a volume that a driver holds is named by an entry. (Such an unmount
  does break it, as \<open>umount_boot_leaks_volume\<close> shows; every other unmount is covered.)
\<close>

theorem vfs_mounts_invariant:
  assumes "calls s0 = []" "list_all cwd_ok (cwds s0)" "\<forall>t. me s0 = Some t \<longrightarrow> t < length (cwds s0)"
    and "vfs_run e (vfs_boot e spec s0) mirror_dropped s"
  shows "length (s_mounts s) \<le> MAX_MOUNTS \<and> distinct (map mountpoint (s_mounts s)) \<and> list_all mount_ok (s_mounts s) \<and>
    list_all cwd_ok (s_boot_cwd s # cwds s) \<and>
    (\<forall>m\<in>set (s_mounts s). backend m = VFS_BACKEND_EXT2 \<or> backend m = VFS_BACKEND_FAT32 \<longrightarrow>
       volume_of e (backend m) (calls s) = Some (drive m, lba m)) \<and>
    (\<not> mirror_dropped \<longrightarrow> (\<forall>b d l. (b = VFS_BACKEND_EXT2 \<or> b = VFS_BACKEND_FAT32) \<and> volume_of e b (calls s) = Some (d, l) \<longrightarrow>
       (\<exists>m\<in>set (s_mounts s). backend m = b \<and> drive m = d \<and> lba m = l)))"
proof -
  have r: "sound e s \<and> (\<not> mirror_dropped \<longrightarrow> good e s)" using assms(4)
  proof induction
    case booted show ?case using vfs_boot_good[OF assms(1-3)] good_sound by blast
  next
    case (step k s l s') then show ?case using vfs_step_sound[of e s l s'] vfs_step_good[of e s s'] by (cases l) auto
  qed
  have "(b = VFS_BACKEND_EXT2 \<or> b = VFS_BACKEND_FAT32) \<and> volume_of e b (calls s) = Some (d, l) \<longrightarrow>
       (\<exists>m\<in>set (s_mounts s). backend m = b \<and> drive m = d \<and> lba m = l)" if "\<not> mirror_dropped" for b d l
    using r that unfolding good_def synced_def hd_backend_def by blast
  then show ?thesis using r by (simp add: sound_def held_def vfs_ok_def table_ok_def hd_backend_def)
qed

definition quiet_env :: env where
  "quiet_env = \<lparr>answer_of = (\<lambda>_ _. \<lparr>rc = 0, out_data = [], out_sz = 0, out_isdir = False, out_drive = 0, out_lba = 0\<rparr>),
     is_ata = (\<lambda>_. False), is_atapi = (\<lambda>_. False), probe_parts = (\<lambda>_. (0, \<lparr>scheme = PART_SCHEME_NONE, total_sectors = 0, parts = []\<rparr>))\<rparr>"

definition cold_vfs :: vfs where
  "cold_vfs = \<lparr>s_mounts = [], s_cdrom_drive = 0, s_boot_biosdev = 0xFF, s_boot_cwd = [], cwds = [], me = None, calls = []\<rparr>"

theorem vfs_mounts_invariant_witness:
  "length (s_mounts (snd (vfs_mount_hd quiet_env 1 2048 ''root'' (vfs_boot quiet_env None cold_vfs)))) \<le> MAX_MOUNTS \<and>
   volume_of quiet_env VFS_BACKEND_FAT32 (calls (snd (vfs_mount_hd quiet_env 1 2048 ''root'' (vfs_boot quiet_env None cold_vfs)))) = Some (1, 2048)"
proof -
  let ?s = "snd (vfs_mount_hd quiet_env 1 2048 ''root'' (vfs_boot quiet_env None cold_vfs))"
  have st: "vfs_run quiet_env (vfs_boot quiet_env None cold_vfs) False ?s"
    using vfs_run.step[OF vfs_run.booted vfs_step.mount_hd] by simp
  have c: "calls cold_vfs = []" "list_all cwd_ok (cwds cold_vfs)" "\<forall>t. me cold_vfs = Some t \<longrightarrow> t < length (cwds cold_vfs)"
    by (simp_all add: cold_vfs_def)
  have "list_ex (\<lambda>m. backend m = VFS_BACKEND_FAT32 \<and> drive m = 1 \<and> lba m = 2048) (s_mounts ?s)" by code_simp
  then have "\<exists>m\<in>set (s_mounts ?s). backend m = VFS_BACKEND_FAT32 \<and> drive m = 1 \<and> lba m = 2048" by (simp add: list_ex_iff)
  then show ?thesis using vfs_mounts_invariant[OF c st] by fastforce
qed






text \<open>
  Unmounting the boot slot leaks its volume. The mirror at \<open>/boot\<close> counts as an alias, so the
  driver's unmount is skipped; then the mirror is removed as well. The call reports success
  and no entry refers to the FAT32 driver any more, but no unmount was made: the driver still
  holds the volume, and the next mount replaces it without a flush.
\<close>

theorem umount_boot_leaks_volume:
  assumes g: "good e s" and b: "boot \<in> set (s_mounts s)" "slot_name boot = ''boot''" "backend boot = VFS_BACKEND_FAT32"
    and mirror: "m \<in> set (s_mounts s)" "mountpoint m = ''/boot''" "backend m = VFS_BACKEND_FAT32"
    and only: "\<forall>x\<in>set (s_mounts s). backend x = VFS_BACKEND_FAT32 \<longrightarrow> x = boot \<or> x = m"
  shows "fst (vfs_umount_hd e (Some ''boot'') s) = 0 \<and>
    \<not> backend_in_use VFS_BACKEND_FAT32 (snd (vfs_umount_hd e (Some ''boot'') s)) \<and>
    calls (snd (vfs_umount_hd e (Some ''boot'') s)) = calls s \<and>
    volume_of e VFS_BACKEND_FAT32 (calls (snd (vfs_umount_hd e (Some ''boot'') s))) = Some (drive boot, lba boot)"
proof -
  let ?ms = "s_mounts s"
  have ok: "vfs_ok s" "one_volume ?ms" "distinct (map mountpoint ?ms)" using g by (simp_all add: good_def vfs_ok_def table_ok_def)
  have "mount_find_slot ''boot'' s \<noteq> None" using find_slot_None[of "''boot''" s boot] b by auto
  then obtain i where i: "mount_find_slot ''boot'' s = Some i" by auto
  note fi = find_slot_Some[OF i]
  have bi: "?ms ! i = boot" using slot_unique[OF ok(1), of i boot] fi b by simp
  obtain j where j: "j < length ?ms" "?ms ! j = m" using mirror(1) by (auto simp: in_set_conv_nth)
  have "mount_ok boot" using vfs_okD[OF ok(1)] fi bi by metis
  then have bp: "mountpoint boot = ''/mnt/boot''" using b(2) by (simp add: mount_ok_def)
  have ij: "j \<noteq> i" using bi j mirror(2) bp by auto
  have vol: "drive m = drive boot \<and> lba m = lba boot" using ok(2) b mirror unfolding one_volume_def hd_backend_def by metis
  have al: "mount_has_alias i s" unfolding has_alias_iff using fi j ij bi vol b(3) mirror(3) by auto
  have bound: "mount_is_bound i s" using fi bi b(3) by (simp add: mount_is_bound_def)
  define t where "t = released e i s"
  have t: "s_mounts t = ?ms[i := boot\<lparr>backend := VFS_BACKEND_NONE\<rparr>]" "calls t = calls s"
    using released_mounts[of e i s] bi al by (simp_all add: t_def released_def unbind_mount_def)
  have mp: "mountpoint (s_mounts t ! k) = mountpoint (?ms ! k)" if "k < length ?ms" for k
    using that bi by (cases "k = i") (simp_all add: t)
  obtain k where k: "mount_find_exact ''/boot'' t = Some k"
    using j ij mirror(2) mp by (cases "mount_find_exact ''/boot'' t") (auto simp: mount_find_exact_def find_index_def find_None_iff t)
  have kf: "k < length ?ms" "mountpoint (?ms ! k) = ''/boot''"
    using k mp unfolding mount_find_exact_def by (auto dest!: find_index_Some simp: t)
  have kj: "k = j" using ok(3) kf j mirror(2) by (metis length_map nth_eq_iff_index_eq nth_map)
  have u: "vfs_umount_hd e (Some ''boot'') s = (0, mount_remove k t)"
  proof (cases "vfs_umount_hd e (Some ''boot'') s")
    case (Pair r s')
    then show ?thesis using umount_result[OF Pair] i bound k b(2) bi
      by (auto simp: vfs_umount_hd_def t_def Let_def split: option.splits)
  qed
  have c: "calls (mount_remove k t) = calls s" by (simp add: mount_remove_def t)
  have "backend x \<noteq> VFS_BACKEND_FAT32" if "x \<in> set (take k (s_mounts t) @ drop (k + 1) (s_mounts t))" for x
  proof -
    obtain q where q: "q < length ?ms" "q \<noteq> k" "s_mounts t ! q = x"
      using removed_nth[OF \<open>x \<in> _\<close>] kf(1) by (auto simp: t)
    have "?ms ! q \<noteq> m" using q(1,2) kj j ok(3) by (metis nth_eq_iff_index_eq length_map nth_map)
    show ?thesis
    proof (cases "q = i")
      case True then show ?thesis using q fi by (auto simp: t)
    next
      case False
      then have "x = ?ms ! q" using q by (simp add: t)
      moreover have "?ms ! q \<noteq> boot" using False q(1) fi bi ok(3) by (metis nth_eq_iff_index_eq length_map nth_map)
      ultimately show ?thesis using only q(1) \<open>?ms ! q \<noteq> m\<close> nth_mem by metis
    qed
  qed
  then have "\<not> backend_in_use VFS_BACKEND_FAT32 (mount_remove k t)"
    using kf(1) by (auto simp: backend_in_use_def mount_remove_def list_ex_iff t)
  moreover have "volume_of e VFS_BACKEND_FAT32 (calls s) = Some (drive boot, lba boot)"
    using g b unfolding good_def synced_def hd_backend_def by blast
  ultimately show ?thesis unfolding u using c by simp
qed

section \<open>The file-system lock\<close>

text \<open>
  Tasks that take the lock and release it, in any interleaving; \<open>holds\<close> counts the locks a
  task has taken and not released. A task only releases what it holds.
\<close>

inductive lock_step :: "fs_lock \<times> (int \<Rightarrow> nat) \<Rightarrow> fs_lock \<times> (int \<Rightarrow> nat) \<Rightarrow> bool" where
  lock: "fs_try_lock p k = Some k' \<Longrightarrow> p \<noteq> - 1 \<Longrightarrow> lock_step (k, holds) (k', holds(p := holds p + 1))"
| unlock: "0 < holds p \<Longrightarrow> p \<noteq> - 1 \<Longrightarrow> lock_step (k, holds) (vfs_fs_unlock k, holds(p := holds p - 1))"

definition lock_inv :: "fs_lock \<times> (int \<Rightarrow> nat) \<Rightarrow> bool" where
  "lock_inv st = (case st of (k, holds) \<Rightarrow>
     (s_fs_owner k = - 1 \<longleftrightarrow> s_fs_depth k = 0) \<and> s_fs_depth k \<ge> 0 \<and>
     (\<forall>p. p \<noteq> - 1 \<longrightarrow> int (holds p) = (if s_fs_owner k = p then s_fs_depth k else 0)))"

lemma lock_step_inv: "lock_step a b \<Longrightarrow> lock_inv a \<Longrightarrow> lock_inv b"
proof (induction rule: lock_step.induct)
  case (lock p k k' holds)
  then show ?case by (auto simp: lock_inv_def fs_try_lock_def split: if_splits)
next
  case (unlock holds p k)
  then have "s_fs_owner k = p" "int (holds p) = s_fs_depth k" by (auto simp: lock_inv_def split: if_splits)
  then show ?case using unlock by (auto simp: lock_inv_def vfs_fs_unlock_def Let_def of_nat_diff)
qed

text \<open>
  C39. The file-system lock excludes: from the unlocked state, in any interleaving of locks
  and releases by tasks that release only what they hold, at most one task holds the lock,
  it may hold it any number of times, another task's attempt fails until it has released as
  often as it locked, and a free lock is granted to whoever tries.
\<close>

theorem fs_lock_excludes:
  assumes "lock_step\<^sup>*\<^sup>* (\<lparr>s_fs_owner = - 1, s_fs_depth = 0\<rparr>, \<lambda>_. 0) (k, holds)" "p \<noteq> - 1" "q \<noteq> - 1"
  shows "(0 < holds p \<and> 0 < holds q \<longrightarrow> p = q) \<and>
    (fs_try_lock p k \<noteq> None \<longleftrightarrow> (\<forall>q. q \<noteq> p \<and> q \<noteq> - 1 \<longrightarrow> holds q = 0)) \<and>
    (holds p = 1 \<longrightarrow> fs_try_lock q (vfs_fs_unlock k) \<noteq> None)"
proof -
  have "lock_inv (k, holds)" using assms(1)
  proof (induction rule: rtranclp_induct)
    case base show ?case by (simp add: lock_inv_def)
  next
    case (step a b) then show ?case using lock_step_inv by blast
  qed
  then have inv: "s_fs_owner k = - 1 \<longleftrightarrow> s_fs_depth k = 0" "s_fs_depth k \<ge> 0"
      "\<And>p. p \<noteq> - 1 \<Longrightarrow> int (holds p) = (if s_fs_owner k = p then s_fs_depth k else 0)" by (auto simp: lock_inv_def)
  have "fs_try_lock p k \<noteq> None \<longleftrightarrow> (\<forall>q. q \<noteq> p \<and> q \<noteq> - 1 \<longrightarrow> holds q = 0)"
  proof
    assume "fs_try_lock p k \<noteq> None"
    then have o: "s_fs_owner k = - 1 \<or> s_fs_owner k = p" by (auto simp: fs_try_lock_def split: if_splits)
    show "\<forall>q. q \<noteq> p \<and> q \<noteq> - 1 \<longrightarrow> holds q = 0"
    proof (intro allI impI)
      fix q assume "q \<noteq> p \<and> q \<noteq> - 1"
      then show "holds q = 0" using o inv(3)[of q] by auto
    qed
  next
    assume h: "\<forall>q. q \<noteq> p \<and> q \<noteq> - 1 \<longrightarrow> holds q = 0"
    show "fs_try_lock p k \<noteq> None"
    proof (cases "s_fs_owner k = - 1 \<or> s_fs_owner k = p")
      case False then show ?thesis using h inv(1) inv(3)[of "s_fs_owner k"] by auto
    qed (simp add: fs_try_lock_def)
  qed
  moreover have "0 < holds p \<and> 0 < holds q \<longrightarrow> p = q" using inv(3)[OF assms(2)] inv(3)[OF assms(3)] by (auto split: if_splits)
  moreover have "holds p = 1 \<longrightarrow> fs_try_lock q (vfs_fs_unlock k) \<noteq> None"
    using inv(3)[OF assms(2)] by (auto simp: vfs_fs_unlock_def fs_try_lock_def Let_def split: if_splits)
  ultimately show ?thesis by blast
qed

theorem fs_lock_excludes_witness:
  "fs_try_lock 7 \<lparr>s_fs_owner = 5, s_fs_depth = 1\<rparr> = None \<and> fs_try_lock 7 (vfs_fs_unlock \<lparr>s_fs_owner = 5, s_fs_depth = 1\<rparr>) \<noteq> None"
proof -
  let ?k = "\<lparr>s_fs_owner = 5, s_fs_depth = 1\<rparr>"
  have "lock_step (\<lparr>s_fs_owner = - 1, s_fs_depth = 0\<rparr>, \<lambda>_. 0) (?k, (\<lambda>_. 0)(5 := (\<lambda>_. 0) 5 + 1))"
    by (rule lock) (simp_all add: fs_try_lock_def)
  then have st: "lock_step\<^sup>*\<^sup>* (\<lparr>s_fs_owner = - 1, s_fs_depth = 0\<rparr>, \<lambda>_. 0) (?k, (\<lambda>_. 0)(5 := 1))" by simp
  have "fs_try_lock 7 ?k = None" using fs_lock_excludes[OF st, of 7 5] by (auto dest!: spec[of _ 5])
  moreover have "fs_try_lock 7 (vfs_fs_unlock ?k) \<noteq> None" using fs_lock_excludes[OF st, of 5 7] by simp
  ultimately show ?thesis by simp
qed

end
