(* ===== verification/Fd.thy ===== *)
theory Fd
  imports Makar_Prelude "HOL-Library.Monad_Syntax"
begin

text \<open>
  File descriptors and pipes: \<^verbatim>\<open>proc/fd.c\<close>, and the system calls of \<^verbatim>\<open>proc/syscall.c\<close> that
  open, read, write, seek, duplicate and connect descriptors. The heap objects that the
  descriptors refer to are kept by address: tables, file buffers and pipe rings, with address 0
  for the null pointer; \<open>kfree\<close> takes an object away. An address returned by \<open>kmalloc\<close>, with the
  bytes found there, is an argument of the operation that allocates. What the VFS, the
  devices, the page cache and the network return are fields of \<open>fd_env\<close>. An access outside a
  buffer is \<open>None\<close>.
\<close>

abbreviation "TASK_MAX_FDS \<equiv> 16 :: nat"
abbreviation "PIPE_RING_CAP \<equiv> 4096 :: nat"
abbreviation "FD_FLAG_NONBLOCK \<equiv> 0x800 :: u32"
abbreviation "FD_PATH_MAX \<equiv> 256 :: nat"
abbreviation "SYSCALL_FILE_MAX \<equiv> 0x800000 :: nat"
abbreviation "SYSCALL_FILE_INITIAL \<equiv> 0x1000 :: nat"

datatype fd_kind = FD_KIND_NONE | FD_KIND_KEYBOARD | FD_KIND_VGA | FD_KIND_VGA_SERIAL | FD_KIND_SERIAL
  | FD_KIND_FILE | FD_KIND_BLOCKDEV | FD_KIND_PIPE | FD_KIND_SOCKET

record pipe_ring =
  ring_buf :: "u8 list"
  head :: u32
  tail :: u32
  refcount_r :: int
  refcount_w :: int

record fd_entry =
  kind :: fd_kind
  data :: u32
  fsize :: u32
  capacity :: u32
  pos :: u32
  flags :: u32
  dev_node :: int
  sock_id :: int
  dirty :: bool
  writable :: bool
  append_mode :: bool
  lazy :: bool
  path :: string
  pipe :: u32
  pipe_is_writer :: bool

type_synonym fd_table = "fd_entry list"

definition zero_entry :: fd_entry where
  "zero_entry = \<lparr>kind = FD_KIND_NONE, data = 0, fsize = 0, capacity = 0, pos = 0, flags = 0, dev_node = 0, sock_id = 0,
     dirty = False, writable = False, append_mode = False, lazy = False, path = [], pipe = 0, pipe_is_writer = False\<rparr>"

datatype fd_event = Flush string "u8 list" | Sock_close int | Put fd_kind "u8 list"

record fdsys =
  tabs :: "u32 \<Rightarrow> fd_table option"
  bufs :: "u32 \<Rightarrow> u8 list option"
  rings :: "u32 \<Rightarrow> pipe_ring option"
  events :: "fd_event list"

record fd_env =
  vfs_write :: "string \<Rightarrow> u8 list \<Rightarrow> int"
  vfs_exists :: "string \<Rightarrow> bool"
  vfs_size :: "string \<Rightarrow> (u32 \<times> bool) option"
  vfs_disk :: "string \<Rightarrow> bool"
  vfs_read :: "string \<Rightarrow> u32 \<Rightarrow> u8 list option"
  blockdev :: "string \<Rightarrow> (int \<times> u32) option"
  dev_pread :: "int \<Rightarrow> u32 \<Rightarrow> u32 \<Rightarrow> u8 list option"
  dev_pwrite :: "int \<Rightarrow> u8 list \<Rightarrow> u32 \<Rightarrow> u32 option"
  cached_read :: "string \<Rightarrow> u32 \<Rightarrow> u32 \<Rightarrow> u32 \<Rightarrow> u8 list option"
  ksock_send :: "int \<Rightarrow> u8 list \<Rightarrow> int"
  ksock_recv :: "int \<Rightarrow> u32 \<Rightarrow> int \<times> u8 list"
  keyboard_poll :: u8
  shell_readline :: "nat \<Rightarrow> u8 list"
  ktest_muted :: bool
  serial_verbose :: bool

type_synonym alloc = "u32 \<times> u8 list"

section \<open>The table\<close>

definition default_table :: fd_table where
  "default_table =
     (replicate TASK_MAX_FDS zero_entry)[0 := zero_entry\<lparr>kind := FD_KIND_KEYBOARD\<rparr>, 1 := zero_entry\<lparr>kind := FD_KIND_VGA\<rparr>,
        2 := zero_entry\<lparr>kind := FD_KIND_VGA_SERIAL\<rparr>]"

definition fd_table_create_default :: "u32 \<Rightarrow> fdsys \<Rightarrow> u32 \<times> fdsys" where
  "fd_table_create_default tbl s = (if tbl = 0 then (0, s) else (tbl, s\<lparr>tabs := (tabs s)(tbl \<mapsto> default_table)\<rparr>))"

definition fd_alloc :: "fd_table \<Rightarrow> int" where
  "fd_alloc tbl = (case find (\<lambda>i. kind (tbl ! i) = FD_KIND_NONE) [0..<TASK_MAX_FDS] of None \<Rightarrow> - 1 | Some i \<Rightarrow> int i)"

definition fd_get :: "fd_table \<Rightarrow> int \<Rightarrow> nat option" where
  "fd_get tbl fd =
     (if fd < 0 \<or> int TASK_MAX_FDS \<le> fd then None
      else if kind (tbl ! nat fd) = FD_KIND_NONE then None else Some (nat fd))"

definition fd_flush_one :: "fd_env \<Rightarrow> fd_entry \<Rightarrow> fdsys \<Rightarrow> int \<times> fdsys" where
  "fd_flush_one env e s =
     (if kind e \<noteq> FD_KIND_FILE \<or> \<not> dirty e \<or> data e = 0 \<or> path e = [] then (0, s)
      else
        let bytes = take (unat (fsize e)) (case bufs s (data e) of None \<Rightarrow> [] | Some b \<Rightarrow> b)
        in (if vfs_write env (path e) bytes = 0 then 0 else - 1, s\<lparr>events := events s @ [Flush (path e) bytes]\<rparr>))"

definition kfree_buf :: "u32 \<Rightarrow> fdsys \<Rightarrow> fdsys" where
  "kfree_buf p s = (if p = 0 then s else s\<lparr>bufs := (bufs s)(p := None)\<rparr>)"

text \<open>One end of the pipe goes away; the ring is freed with the last one.\<close>

definition pipe_drop :: "bool \<Rightarrow> pipe_ring \<Rightarrow> pipe_ring" where
  "pipe_drop w r =
     (if w then (if refcount_w r > 0 then r\<lparr>refcount_w := refcount_w r - 1\<rparr> else r)
      else (if refcount_r r > 0 then r\<lparr>refcount_r := refcount_r r - 1\<rparr> else r))"

definition pipe_release :: "fd_entry \<Rightarrow> fdsys \<Rightarrow> fdsys" where
  "pipe_release e s =
     (if kind e \<noteq> FD_KIND_PIPE \<or> pipe e = 0 then s
      else case rings s (pipe e) of
          None \<Rightarrow> s
        | Some r0 \<Rightarrow>
            let r = pipe_drop (pipe_is_writer e) r0 in
            s\<lparr>rings := (rings s)(pipe e := (if refcount_r r = 0 \<and> refcount_w r = 0 then None else Some r))\<rparr>)"

text \<open>What tear-down does to one slot.\<close>

definition destroy_slot :: "fd_env \<Rightarrow> fd_entry \<Rightarrow> fdsys \<Rightarrow> fdsys" where
  "destroy_slot env e s =
     (case kind e of
        FD_KIND_FILE \<Rightarrow> kfree_buf (data e) (snd (fd_flush_one env e s))
      | FD_KIND_PIPE \<Rightarrow> pipe_release e s
      | FD_KIND_SOCKET \<Rightarrow> s\<lparr>events := events s @ [Sock_close (sock_id e)]\<rparr>
      | _ \<Rightarrow> s)"

definition fd_table_destroy :: "fd_env \<Rightarrow> u32 \<Rightarrow> fdsys \<Rightarrow> fdsys" where
  "fd_table_destroy env tbl s =
     (case tabs s tbl of None \<Rightarrow> s
      | Some slots \<Rightarrow> let s = fold (destroy_slot env) slots s in s\<lparr>tabs := (tabs s)(tbl := None)\<rparr>)"

abbreviation "HEAP_START_ADDR \<equiv> 0x800000 :: u32"
abbreviation "HEAP_MAX_ADDR \<equiv> 0x3000000 :: u32"

definition fd_close :: "fd_env \<Rightarrow> u32 \<Rightarrow> int \<Rightarrow> fdsys \<Rightarrow> int \<times> fdsys" where
  "fd_close env tbl fd s =
     (case tabs s tbl of None \<Rightarrow> (- 1, s)
      | Some slots \<Rightarrow>
          (case fd_get slots fd of None \<Rightarrow> (- 1, s)
           | Some i \<Rightarrow>
               let e = slots ! i;
                   (rc, s) = (case kind e of
                       FD_KIND_FILE \<Rightarrow>
                         (let (rc, s) = fd_flush_one env e s in
                          (rc, if HEAP_START_ADDR \<le> data e \<and> data e < HEAP_MAX_ADDR \<and> data e AND 3 = 0 then kfree_buf (data e) s else s))
                     | FD_KIND_PIPE \<Rightarrow> (0, pipe_release e s)
                     | FD_KIND_SOCKET \<Rightarrow> (0, s\<lparr>events := events s @ [Sock_close (sock_id e)]\<rparr>)
                     | _ \<Rightarrow> (0, s))
               in (rc, s\<lparr>tabs := (tabs s)(tbl \<mapsto> slots[i := zero_entry])\<rparr>)))"

section \<open>Copying a table\<close>

definition pipe_bump :: "fd_entry \<Rightarrow> fdsys \<Rightarrow> fdsys" where
  "pipe_bump e s =
     (case rings s (pipe e) of None \<Rightarrow> s
      | Some r \<Rightarrow> s\<lparr>rings := (rings s)(pipe e \<mapsto>
          (if pipe_is_writer e then r\<lparr>refcount_w := refcount_w r + 1\<rparr> else r\<lparr>refcount_r := refcount_r r + 1\<rparr>))\<rparr>)"

text \<open>
  The loop of \<open>fd_table_clone\<close>: the slots copied so far, those still to do, and the answers of
  \<open>kmalloc\<close> in order (none left means none given). A null answer undoes the buffers.
\<close>

fun clone_slots :: "alloc list \<Rightarrow> fd_table \<Rightarrow> fd_table \<Rightarrow> fdsys \<Rightarrow> fd_table option \<times> fdsys" where
  "clone_slots as copied [] s = (Some copied, s)"
| "clone_slots as copied (e # es) s =
     (if kind e = FD_KIND_FILE \<and> data e \<noteq> 0 \<and> capacity e \<noteq> 0 then
        (let (p, init) = (case as of [] \<Rightarrow> (0, []) | a # _ \<Rightarrow> a) in
         if p = 0 then
           (None, fold (\<lambda>c. kfree_buf (if kind c = FD_KIND_FILE then data c else 0)) copied s)
         else
           let old = (case bufs s (data e) of None \<Rightarrow> [] | Some b \<Rightarrow> b);
               n = unat (fsize e)
           in clone_slots (drop 1 as) (copied @ [e\<lparr>data := p, dirty := False\<rparr>]) es
                (s\<lparr>bufs := (bufs s)(p \<mapsto> take n old @ drop n init)\<rparr>))
      else if kind e = FD_KIND_FILE then
        clone_slots as (copied @ [e\<lparr>data := 0, capacity := 0, dirty := False\<rparr>]) es s
      else if kind e = FD_KIND_PIPE \<and> pipe e \<noteq> 0 then clone_slots as (copied @ [e]) es (pipe_bump e s)
      else if kind e = FD_KIND_SOCKET then clone_slots as (copied @ [e\<lparr>kind := FD_KIND_NONE, sock_id := 0\<rparr>]) es s
      else clone_slots as (copied @ [e]) es s)"

definition fd_table_clone :: "alloc list \<Rightarrow> u32 \<Rightarrow> u32 \<Rightarrow> fdsys \<Rightarrow> u32 \<times> fdsys" where
  "fd_table_clone as t src s =
     (case tabs s src of None \<Rightarrow> (0, s)
      | Some slots \<Rightarrow>
          if t = 0 then (0, s)
          else (case clone_slots as [] slots s of
              (None, s) \<Rightarrow> (0, s)
            | (Some copy, s) \<Rightarrow> (t, s\<lparr>tabs := (tabs s)(t \<mapsto> copy)\<rparr>)))"

section \<open>Pipes\<close>

definition sys_pipe :: "u32 \<Rightarrow> u32 \<Rightarrow> u8 list \<Rightarrow> fdsys \<Rightarrow> (int \<times> int) option \<times> fdsys" where
  "sys_pipe tbl ring init s =
     (case tabs s tbl of None \<Rightarrow> (None, s)
      | Some slots \<Rightarrow>
          let rfd = fd_alloc slots in
          if rfd < 0 then (None, s)
          else
            let slots1 = slots[nat rfd := (slots ! nat rfd)\<lparr>kind := FD_KIND_PIPE\<rparr>];
                wfd = fd_alloc slots1
            in if wfd < 0 then (None, s\<lparr>tabs := (tabs s)(tbl \<mapsto> slots1[nat rfd := zero_entry])\<rparr>)
               else
                 let slots2 = slots1[nat wfd := (slots1 ! nat wfd)\<lparr>kind := FD_KIND_PIPE\<rparr>] in
                 if ring = 0 then (None, s\<lparr>tabs := (tabs s)(tbl \<mapsto> slots2[nat rfd := zero_entry, nat wfd := zero_entry])\<rparr>)
                 else
                   (Some (rfd, wfd),
                    s\<lparr>rings := (rings s)(ring \<mapsto> \<lparr>ring_buf = init, head = 0, tail = 0, refcount_r = 1, refcount_w = 1\<rparr>),
                      tabs := (tabs s)(tbl \<mapsto>
                        slots2[nat rfd := (slots2 ! nat rfd)\<lparr>pipe := ring, pipe_is_writer := False\<rparr>,
                               nat wfd := (slots2 ! nat wfd)\<lparr>pipe := ring, pipe_is_writer := True\<rparr>])\<rparr>))"

text \<open>The common end of \<open>SYS_DUP\<close> and \<open>SYS_DUP2\<close>: copy the slot, then count the new end.\<close>

definition dup_slot :: "u32 \<Rightarrow> nat \<Rightarrow> nat \<Rightarrow> fdsys \<Rightarrow> fdsys" where
  "dup_slot tbl i j s =
     (case tabs s tbl of None \<Rightarrow> s
      | Some slots \<Rightarrow>
          let oe = slots ! i; s = s\<lparr>tabs := (tabs s)(tbl \<mapsto> slots[j := oe])\<rparr>
          in if kind oe = FD_KIND_PIPE \<and> pipe oe \<noteq> 0 then pipe_bump oe s else s)"

definition sys_dup :: "u32 \<Rightarrow> int \<Rightarrow> fdsys \<Rightarrow> int \<times> fdsys" where
  "sys_dup tbl oldfd s =
     (case tabs s tbl of None \<Rightarrow> (- 1, s)
      | Some slots \<Rightarrow>
          (case fd_get slots oldfd of None \<Rightarrow> (- 1, s)
           | Some i \<Rightarrow>
               let newfd = fd_alloc slots in
               if newfd < 0 then (- 1, s) else (newfd, dup_slot tbl i (nat newfd) s)))"

definition sys_dup2 :: "fd_env \<Rightarrow> u32 \<Rightarrow> int \<Rightarrow> int \<Rightarrow> fdsys \<Rightarrow> int \<times> fdsys" where
  "sys_dup2 env tbl oldfd newfd s =
     (case tabs s tbl of None \<Rightarrow> (- 1, s)
      | Some slots \<Rightarrow>
          if newfd < 0 \<or> int TASK_MAX_FDS \<le> newfd then (- 1, s)
          else (case fd_get slots oldfd of None \<Rightarrow> (- 1, s)
            | Some i \<Rightarrow>
                if oldfd = newfd then (newfd, s)
                else
                  let s = (if kind (slots ! nat newfd) \<noteq> FD_KIND_NONE then snd (fd_close env tbl newfd s) else s)
                  in (newfd, dup_slot tbl i (nat newfd) s)))"

text \<open>Bytes in the ring and room in it, in 32-bit arithmetic.\<close>

definition inflight :: "pipe_ring \<Rightarrow> u32" where "inflight r = head r - tail r"

definition space :: "pipe_ring \<Rightarrow> u32" where "space r = of_nat PIPE_RING_CAP - inflight r"

definition ring_put :: "u8 list \<Rightarrow> pipe_ring \<Rightarrow> pipe_ring" where
  "ring_put bs r =
     r\<lparr>ring_buf := fold (\<lambda>i b. b[unat (head r + of_nat i) mod PIPE_RING_CAP := bs ! i]) [0..<length bs] (ring_buf r),
       head := head r + of_nat (length bs)\<rparr>"

definition ring_get :: "nat \<Rightarrow> pipe_ring \<Rightarrow> u8 list \<times> pipe_ring" where
  "ring_get n r =
     (map (\<lambda>i. ring_buf r ! (unat (tail r + of_nat i) mod PIPE_RING_CAP)) [0..<n], r\<lparr>tail := tail r + of_nat n\<rparr>)"

text \<open>
  A read or a write up to the point where it returns or yields: \<open>Wait\<close> carries the number of
  bytes written so far, with which the loop goes on when the task runs again.
\<close>

datatype pipe_result = Return int "u8 list" | Wait nat

definition pipe_read :: "bool \<Rightarrow> u32 \<Rightarrow> pipe_ring \<Rightarrow> pipe_result \<times> pipe_ring" where
  "pipe_read nonblock len r =
     (if 0 < inflight r then
        let avail = (if inflight r > len then len else inflight r); (bs, r) = ring_get (unat avail) r
        in (Return (int (length bs)) bs, r)
      else if refcount_w r = 0 then (Return 0 [], r)
      else if nonblock then (Return (- 11) [], r)
      else (Wait 0, r))"

function pipe_write :: "bool \<Rightarrow> u8 list \<Rightarrow> nat \<Rightarrow> pipe_ring \<Rightarrow> pipe_result \<times> pipe_ring" where
  "pipe_write nonblock buf written r =
     (if written < length buf then
        if refcount_r r = 0 then (Return (if 0 < written then int written else - 32) [], r)
        else if space r = 0 then
          (if nonblock then (Return (if 0 < written then int written else - 11) [], r) else (Wait written, r))
        else
          let chunk = (if length buf - written > unat (space r) then unat (space r) else length buf - written)
          in pipe_write nonblock buf (written + chunk) (ring_put (take chunk (drop written buf)) r)
      else (Return (int written) [], r))"
  by pat_completeness auto
termination
proof (relation "measure (\<lambda>(nb, buf, written, r). length buf - written)", goal_cases)
  case (2 nonblock buf written r chunk)
  then have "0 < unat (space r)" by (simp add: unat_gt_0)
  then show ?case using 2 by auto
qed simp

declare pipe_write.simps [simp del]

section \<open>Files\<close>

abbreviation "O_ACCMODE \<equiv> 3 :: u32"
abbreviation "O_CREAT \<equiv> 0x40 :: u32"
abbreviation "O_TRUNC \<equiv> 0x200 :: u32"
abbreviation "O_APPEND \<equiv> 0x400 :: u32"

text \<open>
  \<open>SYS_OPEN\<close>: the slot it fills in, or its error. \<open>ptr\<close> and \<open>init\<close> are what \<open>kmalloc\<close> returns for the
  size asked for; the third component is the buffer that stays allocated.
\<close>

definition open_empty :: "u32 \<Rightarrow> (int + fd_entry \<times> (u32 \<times> u8 list) option)" where
  "open_empty ptr =
     (if ptr = 0 then Inl (- 1)
      else Inr (zero_entry\<lparr>kind := FD_KIND_FILE, data := ptr, fsize := 0, capacity := of_nat SYSCALL_FILE_INITIAL, dirty := True\<rparr>,
                Some (ptr, replicate SYSCALL_FILE_INITIAL 0)))"

definition open_cap :: "(u32 \<times> bool) option \<Rightarrow> bool \<Rightarrow> nat" where
  "open_cap si wr =
     (case si of None \<Rightarrow> SYSCALL_FILE_MAX
      | Some (n, _) \<Rightarrow>
          let cap = unat n;
              cap = (if wr \<and> cap < SYSCALL_FILE_INITIAL then SYSCALL_FILE_INITIAL else cap);
              cap = (if cap = 0 then SYSCALL_FILE_INITIAL else cap)
          in if cap > SYSCALL_FILE_MAX then SYSCALL_FILE_MAX else cap)"

definition open_file :: "fd_env \<Rightarrow> (nat \<Rightarrow> u32 \<times> u8 list) \<Rightarrow> string \<Rightarrow> u32 \<Rightarrow> (int + fd_entry \<times> (u32 \<times> u8 list) option)" where
  "open_file env kmalloc p fl =
     (let wr = (fl AND O_ACCMODE \<noteq> 0) in
      if \<not> vfs_exists env p then
        (if fl AND O_CREAT = 0 then Inl (- 2) else open_empty (fst (kmalloc SYSCALL_FILE_INITIAL)))
      else if wr \<and> fl AND O_TRUNC \<noteq> 0 then open_empty (fst (kmalloc SYSCALL_FILE_INITIAL))
      else
        let si = vfs_size env p in
        if \<not> wr \<and> (case si of None \<Rightarrow> False | Some (_, is_file) \<Rightarrow> is_file) \<and> vfs_disk env p then
          Inr (zero_entry\<lparr>kind := FD_KIND_FILE, fsize := fst (the si), lazy := True\<rparr>, None)
        else
          let cap = open_cap si wr; (ptr, init) = kmalloc cap in
          if ptr = 0 then Inl (- 1)
          else case vfs_read env p (of_nat cap) of
              None \<Rightarrow> Inl (- 1)
            | Some bs \<Rightarrow> Inr (zero_entry\<lparr>kind := FD_KIND_FILE, data := ptr, fsize := of_nat (length bs), capacity := of_nat cap\<rparr>,
                              Some (ptr, bs @ drop (length bs) init)))"

definition sys_open :: "fd_env \<Rightarrow> (nat \<Rightarrow> u32 \<times> u8 list) \<Rightarrow> u32 \<Rightarrow> string \<Rightarrow> u32 \<Rightarrow> fdsys \<Rightarrow> int \<times> fdsys" where
  "sys_open env kmalloc tbl p fl s =
     (if FD_PATH_MAX \<le> length p then (- 1, s)
      else case tabs s tbl of None \<Rightarrow> (- 1, s)
        | Some slots \<Rightarrow>
            let fd = fd_alloc slots in
            if fd < 0 then (- 1, s)
            else (case blockdev env p of
                Some (node, n) \<Rightarrow>
                  (fd, s\<lparr>tabs := (tabs s)(tbl \<mapsto> slots[nat fd := zero_entry\<lparr>kind := FD_KIND_BLOCKDEV, fsize := n, dev_node := node\<rparr>])\<rparr>)
              | None \<Rightarrow>
                  (case open_file env kmalloc p fl of
                     Inl err \<Rightarrow> (err, s\<lparr>tabs := (tabs s)(tbl \<mapsto> slots[nat fd := zero_entry])\<rparr>)
                   | Inr (e, b) \<Rightarrow>
                       let app = (fl AND O_APPEND \<noteq> 0);
                           e = e\<lparr>writable := (fl AND O_ACCMODE \<noteq> 0), append_mode := app, path := p, pos := (if app then fsize e else 0)\<rparr>
                       in (fd, s\<lparr>tabs := (tabs s)(tbl \<mapsto> slots[nat fd := e]),
                                bufs := (case b of None \<Rightarrow> bufs s | Some (ptr, bs) \<Rightarrow> (bufs s)(ptr \<mapsto> bs))\<rparr>))))"

definition lseek_pos :: "fd_entry \<Rightarrow> int \<Rightarrow> int \<Rightarrow> u32 option" where
  "lseek_pos e offset whence =
     (case (if whence = 0 then Some (of_int offset)
            else if whence = 1 then Some (pos e + of_int offset)
            else if whence = 2 then Some (fsize e + of_int offset)
            else None) of
        None \<Rightarrow> None
      | Some p \<Rightarrow>
          Some (if kind e = FD_KIND_FILE \<and> writable e
                then (if p > of_nat SYSCALL_FILE_MAX then of_nat SYSCALL_FILE_MAX else p)
                else (if p > fsize e then fsize e else p)))"

definition sys_lseek :: "fd_entry \<Rightarrow> int \<Rightarrow> int \<Rightarrow> (int + u32 \<times> fd_entry)" where
  "sys_lseek e offset whence =
     (if kind e \<noteq> FD_KIND_FILE \<and> kind e \<noteq> FD_KIND_BLOCKDEV then Inl (- 1)
      else case lseek_pos e offset whence of None \<Rightarrow> Inl (- 1) | Some p \<Rightarrow> Inr (p, e\<lparr>pos := p\<rparr>))"

text \<open>\<open>SYS_READ\<close> of a buffered file: the bytes stored for the caller; \<open>None\<close> outside the buffer.\<close>

definition file_read :: "fd_entry \<Rightarrow> u8 list \<Rightarrow> u32 \<Rightarrow> (u8 list \<times> fd_entry) option" where
  "file_read e buf len =
     (let avail = fsize e - pos e; n = (if len < avail then len else avail) in
      if n = 0 then Some ([], e)
      else if unat (pos e) + unat n \<le> length buf
        then Some (take (unat n) (drop (unat (pos e)) buf), e\<lparr>pos := pos e + n\<rparr>)
      else None)"

function grow_cap :: "nat \<Rightarrow> nat \<Rightarrow> nat" where
  "grow_cap want c = (if c < want \<and> 0 < c then grow_cap want (c * 2) else c)"
  by pat_completeness auto
termination by (relation "measure (\<lambda>(want, c). want - c)") auto

declare grow_cap.simps [simp del]

definition put_at :: "u8 list \<Rightarrow> nat \<Rightarrow> u8 list \<Rightarrow> u8 list option" where
  "put_at buf i bs = (if i + length bs \<le> length buf then Some (take i buf @ bs @ drop (i + length bs) buf) else None)"

text \<open>
  The \<open>FD_KIND_FILE\<close> branch of \<open>syscall_fd_write\<close>: the result, the slot and its buffer. \<open>krealloc\<close>
  gives the new address for a size, 0 for none; the old contents are kept. \<open>file_store\<close> is the
  part after the buffer has grown, \<open>file_write_pos\<close> the part after the position is settled.
\<close>

definition file_store :: "fd_entry \<Rightarrow> u8 list \<Rightarrow> u8 list \<Rightarrow> (int \<times> fd_entry \<times> u8 list) option" where
  "file_store e buf bs = do {
     buf \<leftarrow> (if pos e > fsize e
       then put_at buf (unat (fsize e)) (replicate (unat (pos e) - unat (fsize e)) 0) else Some buf);
     buf \<leftarrow> put_at buf (unat (pos e)) bs;
     let p' = pos e + of_nat (length bs)
     in Some (int (length bs), e\<lparr>pos := p', fsize := (if p' > fsize e then p' else fsize e), dirty := True\<rparr>, buf)
   }"

definition file_new_cap :: "fd_entry \<Rightarrow> nat \<Rightarrow> nat" where
  "file_new_cap e want_end =
     (let new_cap = grow_cap want_end (if capacity e \<noteq> 0 then unat (capacity e) else SYSCALL_FILE_INITIAL)
      in if new_cap > SYSCALL_FILE_MAX then SYSCALL_FILE_MAX else new_cap)"

definition file_write_pos :: "(nat \<Rightarrow> u32) \<Rightarrow> fd_entry \<Rightarrow> u8 list \<Rightarrow> u8 list \<Rightarrow> (int \<times> fd_entry \<times> u8 list) option" where
  "file_write_pos krealloc e buf bs =
     (let want_end = unat (pos e) + length bs in
      if want_end > SYSCALL_FILE_MAX then Some (- 1, e, buf)
      else if want_end > unat (capacity e) then
        (let new_cap = file_new_cap e want_end; p = krealloc new_cap in
         if p = 0 then Some (- 1, e, buf)
         else file_store (e\<lparr>data := p, capacity := of_nat new_cap\<rparr>) (buf @ replicate (new_cap - unat (capacity e)) 0) bs)
      else file_store e buf bs)"

definition file_write :: "(nat \<Rightarrow> u32) \<Rightarrow> fd_entry \<Rightarrow> u8 list \<Rightarrow> u8 list \<Rightarrow> (int \<times> fd_entry \<times> u8 list) option" where
  "file_write krealloc e buf bs =
     (if \<not> writable e then Some (- 1, e, buf)
      else file_write_pos krealloc (if append_mode e then e\<lparr>pos := fsize e\<rparr> else e) buf bs)"

section \<open>Reading and writing by descriptor\<close>

definition set_slot :: "u32 \<Rightarrow> nat \<Rightarrow> fd_entry \<Rightarrow> fdsys \<Rightarrow> fdsys" where
  "set_slot tbl i e s = s\<lparr>tabs := (tabs s)(tbl := map_option (\<lambda>slots. slots[i := e]) (tabs s tbl))\<rparr>"

definition put_event :: "bool \<Rightarrow> fd_kind \<Rightarrow> u8 list \<Rightarrow> fdsys \<Rightarrow> fdsys" where
  "put_event on k bs s = (if on then s\<lparr>events := events s @ [Put k bs]\<rparr> else s)"

text \<open>
  \<open>syscall_fd_write\<close>: the caller's buffer is the list of its bytes. \<open>None\<close> is an access outside
  a buffer or to a ring that is not there.
\<close>

definition write_slot :: "fd_env \<Rightarrow> (nat \<Rightarrow> u32) \<Rightarrow> u32 \<Rightarrow> nat \<Rightarrow> fd_entry \<Rightarrow> u8 list \<Rightarrow> nat \<Rightarrow> fdsys \<Rightarrow> (pipe_result \<times> fdsys) option" where
  "write_slot env krealloc tbl i e bs written s =
     (case kind e of
        FD_KIND_VGA \<Rightarrow> Some (Return (int (length bs)) [], put_event (\<not> ktest_muted env) FD_KIND_VGA bs s)
      | FD_KIND_VGA_SERIAL \<Rightarrow>
          Some (Return (int (length bs)) [],
            put_event (\<not> serial_verbose env) FD_KIND_SERIAL bs (put_event (\<not> ktest_muted env) FD_KIND_VGA bs s))
      | FD_KIND_SERIAL \<Rightarrow> Some (Return (int (length bs)) [], put_event True FD_KIND_SERIAL bs s)
      | FD_KIND_BLOCKDEV \<Rightarrow>
          (case dev_pwrite env (dev_node e) bs (pos e) of
             None \<Rightarrow> Some (Return (- 1) [], s)
           | Some r \<Rightarrow> Some (Return (int (unat r)) [], set_slot tbl i (e\<lparr>pos := pos e + r\<rparr>) s))
      | FD_KIND_FILE \<Rightarrow>
          (let buf = (case bufs s (data e) of None \<Rightarrow> [] | Some b \<Rightarrow> b)
           in case file_write krealloc e buf bs of
                None \<Rightarrow> None
              | Some (n, e', buf') \<Rightarrow>
                  Some (Return n [], set_slot tbl i e' (s\<lparr>bufs := (if data e' = 0 then bufs s else (bufs s)(data e := None, data e' \<mapsto> buf'))\<rparr>)))
      | FD_KIND_PIPE \<Rightarrow>
          (if \<not> pipe_is_writer e \<or> pipe e = 0 then Some (Return (- 1) [], s)
           else case rings s (pipe e) of None \<Rightarrow> None
             | Some r \<Rightarrow>
                 let (res, r') = pipe_write (flags e AND FD_FLAG_NONBLOCK \<noteq> 0) bs written r
                 in Some (res, s\<lparr>rings := (rings s)(pipe e \<mapsto> r')\<rparr>))
      | FD_KIND_SOCKET \<Rightarrow> Some (Return (ksock_send env (sock_id e) bs) [], s)
      | _ \<Rightarrow> Some (Return (- 1) [], s))"

definition syscall_fd_write :: "fd_env \<Rightarrow> (nat \<Rightarrow> u32) \<Rightarrow> u32 \<Rightarrow> int \<Rightarrow> u8 list \<Rightarrow> nat \<Rightarrow> fdsys \<Rightarrow> (pipe_result \<times> fdsys) option" where
  "syscall_fd_write env krealloc tbl fd bs written s =
     (case tabs s tbl of None \<Rightarrow> Some (Return (- 1) [], s)
      | Some slots \<Rightarrow>
          (case fd_get slots fd of None \<Rightarrow> Some (Return (- 1) [], s)
           | Some i \<Rightarrow> write_slot env krealloc tbl i (slots ! i) bs written s))"

definition read_line :: "fd_env \<Rightarrow> u32 \<Rightarrow> u8 list" where
  "read_line env len =
     (let cap = (if len < 256 then unat len else 256); line = shell_readline env cap;
          line = (if length line < cap - 1 then line @ [10] else line)
      in take (unat len) line)"

definition read_slot :: "fd_env \<Rightarrow> u32 \<Rightarrow> nat \<Rightarrow> fd_entry \<Rightarrow> u32 \<Rightarrow> fdsys \<Rightarrow> (pipe_result \<times> fdsys) option" where
  "read_slot env tbl i e len s =
     (if kind e = FD_KIND_KEYBOARD then
        (if flags e AND FD_FLAG_NONBLOCK \<noteq> 0 then
           (let c = keyboard_poll env in Some (if c = 0 then Return (- 11) [] else Return 1 [c], s))
         else let line = read_line env len in Some (Return (int (length line)) line, s))
      else if kind e = FD_KIND_FILE \<and> lazy e then
        (case cached_read env (path e) (fsize e) (pos e) len of
           None \<Rightarrow> Some (Return (- 1) [], s)
         | Some bs \<Rightarrow> Some (Return (int (length bs)) bs, set_slot tbl i (e\<lparr>pos := pos e + of_nat (length bs)\<rparr>) s))
      else if kind e = FD_KIND_FILE then
        (case file_read e (case bufs s (data e) of None \<Rightarrow> [] | Some b \<Rightarrow> b) len of
           None \<Rightarrow> None
         | Some (bs, e') \<Rightarrow> Some (Return (int (length bs)) bs, set_slot tbl i e' s))
      else if kind e = FD_KIND_BLOCKDEV then
        (case dev_pread env (dev_node e) len (pos e) of
           None \<Rightarrow> Some (Return (- 1) [], s)
         | Some bs \<Rightarrow> Some (Return (int (length bs)) bs, set_slot tbl i (e\<lparr>pos := pos e + of_nat (length bs)\<rparr>) s))
      else if kind e = FD_KIND_PIPE then
        (if pipe_is_writer e \<or> pipe e = 0 then Some (Return (- 1) [], s)
         else case rings s (pipe e) of None \<Rightarrow> None
           | Some r \<Rightarrow>
               let (res, r') = pipe_read (flags e AND FD_FLAG_NONBLOCK \<noteq> 0) len r
               in Some (res, s\<lparr>rings := (rings s)(pipe e \<mapsto> r')\<rparr>))
      else if kind e = FD_KIND_SOCKET then
        (let (r, bs) = ksock_recv env (sock_id e) len in Some (Return r bs, s))
      else Some (Return (- 1) [], s))"

definition sys_read :: "fd_env \<Rightarrow> u32 \<Rightarrow> int \<Rightarrow> u32 \<Rightarrow> fdsys \<Rightarrow> (pipe_result \<times> fdsys) option" where
  "sys_read env tbl fd len s =
     (if len = 0 then Some (Return 0 [], s)
      else case tabs s tbl of None \<Rightarrow> Some (Return (- 1) [], s)
      | Some slots \<Rightarrow>
          (case fd_get slots fd of None \<Rightarrow> Some (Return (- 1) [], s)
           | Some i \<Rightarrow> read_slot env tbl i (slots ! i) len s))"

definition sys_lseek_fd :: "u32 \<Rightarrow> int \<Rightarrow> int \<Rightarrow> int \<Rightarrow> fdsys \<Rightarrow> int \<times> fdsys" where
  "sys_lseek_fd tbl fd offset whence s =
     (case tabs s tbl of None \<Rightarrow> (- 1, s)
      | Some slots \<Rightarrow>
          (case fd_get slots fd of None \<Rightarrow> (- 1, s)
           | Some i \<Rightarrow>
               (case sys_lseek (slots ! i) offset whence of
                  Inl err \<Rightarrow> (err, s)
                | Inr (p, e) \<Rightarrow> (int (unat p), set_slot tbl i e s))))"

text \<open>
  \<open>SYS_WRITEV\<close>: the segments in order until one fails or is short. The result is the total and the
  state; a segment that has to wait leaves \<open>Wait\<close> with the bytes of the earlier segments and of its own,
  and the segments still to be written.
\<close>

datatype writev_result = Written int | Waiting int nat "u8 list list"

fun sys_writev :: "fd_env \<Rightarrow> (nat \<Rightarrow> u32) \<Rightarrow> u32 \<Rightarrow> int \<Rightarrow> u8 list list \<Rightarrow> int \<Rightarrow> nat \<Rightarrow> fdsys \<Rightarrow> (writev_result \<times> fdsys) option" where
  "sys_writev env krealloc tbl fd [] tot written s = Some (Written tot, s)"
| "sys_writev env krealloc tbl fd (bs # iov) tot written s =
     (if bs = [] then sys_writev env krealloc tbl fd iov tot 0 s
      else case syscall_fd_write env krealloc tbl fd bs written s of
        None \<Rightarrow> None
      | Some (Wait w, s) \<Rightarrow> Some (Waiting tot w (bs # iov), s)
      | Some (Return n _, s) \<Rightarrow>
          if n < 0 then Some (Written (if tot = 0 then n else tot), s)
          else if n < int (length bs) then Some (Written (tot + n), s)
          else sys_writev env krealloc tbl fd iov (tot + n) 0 s)"

end
