(* ===== verification/Pipe_Facts.thy ===== *)
theory Pipe_Facts
  imports Fd
begin

text \<open>The ring of a pipe as a queue of bytes.\<close>

definition ring_ok :: "pipe_ring \<Rightarrow> bool" where
  "ring_ok r \<longleftrightarrow> length (ring_buf r) = PIPE_RING_CAP \<and> unat (inflight r) \<le> PIPE_RING_CAP"

definition contents :: "pipe_ring \<Rightarrow> u8 list" where
  "contents r = map (\<lambda>i. ring_buf r ! (unat (tail r + of_nat i) mod PIPE_RING_CAP)) [0..<unat (inflight r)]"

lemma length_contents [simp]: "length (contents r) = unat (inflight r)"
  by (simp add: contents_def)

text \<open>The cursors wrap at a multiple of the capacity, so that the positions do not jump.\<close>

lemma cursor_mod: "unat (x + of_nat i :: u32) mod PIPE_RING_CAP = (unat x + i) mod PIPE_RING_CAP"
proof -
  have "unat (x + of_nat i :: u32) = (unat x + i) mod 2 ^ 32"
    by (simp add: unat_word_ariths unat_of_nat mod_add_right_eq)
  moreover have "PIPE_RING_CAP dvd 2 ^ 32" by (rule dvdI[of _ _ "2 ^ 20"]) simp
  ultimately show ?thesis by (simp add: mod_mod_cancel)
qed

lemma contents_nat: "contents r = map (\<lambda>i. ring_buf r ! ((unat (tail r) + i) mod PIPE_RING_CAP)) [0..<unat (inflight r)]"
  by (simp add: contents_def cursor_mod)

lemma slot_distinct: "i < k \<Longrightarrow> k - i < PIPE_RING_CAP \<Longrightarrow> (h + i) mod PIPE_RING_CAP \<noteq> (h + k) mod PIPE_RING_CAP"
proof
  assume i: "i < k" "k - i < PIPE_RING_CAP" and e: "(h + i) mod PIPE_RING_CAP = (h + k) mod PIPE_RING_CAP"
  then have "PIPE_RING_CAP dvd (h + k) - (h + i)" using mod_eq_dvd_iff_nat[of "h + i" "h + k" PIPE_RING_CAP] by simp
  then have "PIPE_RING_CAP dvd k - i" by simp
  then show False using i dvd_imp_le[of PIPE_RING_CAP "k - i"] by simp
qed

definition put_all :: "nat \<Rightarrow> u8 list \<Rightarrow> nat \<Rightarrow> u8 list \<Rightarrow> u8 list" where
  "put_all h bs k B = fold (\<lambda>i b. b[(h + i) mod PIPE_RING_CAP := bs ! i]) [0..<k] B"

lemma put_all_Suc: "put_all h bs (Suc k) B = (put_all h bs k B)[(h + k) mod PIPE_RING_CAP := bs ! k]"
  by (simp add: put_all_def)

lemma put_all_length [simp]: "length (put_all h bs k B) = length B"
  by (induction k) (simp_all add: put_all_Suc, simp add: put_all_def)

lemma put_all_hit:
  "k \<le> PIPE_RING_CAP \<Longrightarrow> length B = PIPE_RING_CAP \<Longrightarrow> i < k \<Longrightarrow> put_all h bs k B ! ((h + i) mod PIPE_RING_CAP) = bs ! i"
proof (induction k)
  case (Suc k)
  show ?case
  proof (cases "i = k")
    case True then show ?thesis using Suc.prems by (simp add: put_all_Suc)
  next
    case False
    then have "(h + i) mod PIPE_RING_CAP \<noteq> (h + k) mod PIPE_RING_CAP" using Suc.prems by (intro slot_distinct) auto
    then show ?thesis using Suc False by (simp add: put_all_Suc)
  qed
qed simp

lemma put_all_miss: "(\<And>i. i < k \<Longrightarrow> (h + i) mod PIPE_RING_CAP \<noteq> j) \<Longrightarrow> put_all h bs k B ! j = B ! j"
proof (induction k)
  case (Suc k)
  then have "(h + k) mod PIPE_RING_CAP \<noteq> j" by simp
  then show ?case using Suc by (simp add: put_all_Suc)
qed (simp add: put_all_def)

lemma space_unat: "ring_ok r \<Longrightarrow> unat (space r) = PIPE_RING_CAP - unat (inflight r)"
  unfolding ring_ok_def space_def by (subst unat_sub) (auto simp: word_le_nat_alt)

lemma inflight_zero: "inflight r = 0 \<longleftrightarrow> contents r = []"
  by (metis length_0_conv length_contents unat_eq_zero)

lemma head_unat: "unat (head r) = (unat (tail r) + unat (inflight r)) mod 2 ^ 32"
proof -
  have "unat (head r) = unat (tail r + inflight r)" by (simp add: inflight_def)
  also have "\<dots> = (unat (tail r) + unat (inflight r)) mod 2 ^ 32" by (simp add: unat_word_ariths)
  finally show ?thesis .
qed

lemma ring_put_buf:
  "ring_buf (ring_put bs r) = put_all (unat (tail r) + unat (inflight r)) bs (length bs) (ring_buf r)"
proof -
  have "unat (head r) mod PIPE_RING_CAP = (unat (tail r) + unat (inflight r)) mod PIPE_RING_CAP"
    unfolding head_unat by (simp add: mod_mod_cancel)
  then have "unat (head r + of_nat i) mod PIPE_RING_CAP = (unat (tail r) + unat (inflight r) + i) mod PIPE_RING_CAP" for i
    unfolding cursor_mod by (metis mod_add_left_eq)
  then show ?thesis by (simp add: ring_put_def put_all_def)
qed

lemma ring_put_contents:
  assumes ok: "ring_ok r" and len: "length bs \<le> unat (space r)"
  shows "contents (ring_put bs r) = contents r @ bs" "ring_ok (ring_put bs r)"
    "refcount_r (ring_put bs r) = refcount_r r" "refcount_w (ring_put bs r) = refcount_w r"
proof -
  define t n where tn: "t = unat (tail r)" "n = unat (inflight r)"
  have B: "length (ring_buf r) = PIPE_RING_CAP" and n: "n + length bs \<le> PIPE_RING_CAP"
    using ok len space_unat[OF ok] by (auto simp: ring_ok_def tn)
  have "inflight (ring_put bs r) = inflight r + of_nat (length bs)" by (simp add: ring_put_def inflight_def)
  then have fl: "unat (inflight (ring_put bs r)) = n + length bs"
    using n by (simp add: tn unat_word_ariths unat_of_nat)
  have tl: "tail (ring_put bs r) = tail r" by (simp add: ring_put_def)
  show "ring_ok (ring_put bs r)" using fl n B by (simp add: ring_ok_def ring_put_buf)
  show "contents (ring_put bs r) = contents r @ bs"
  proof (rule nth_equalityI)
    show "length (contents (ring_put bs r)) = length (contents r @ bs)" by (simp add: fl tn)
    fix i assume "i < length (contents (ring_put bs r))"
    then have i: "i < n + length bs" by (simp add: fl)
    then have eq: "contents (ring_put bs r) ! i = put_all (t + n) bs (length bs) (ring_buf r) ! ((t + i) mod PIPE_RING_CAP)"
      by (simp add: contents_nat fl tl ring_put_buf tn)
    show "contents (ring_put bs r) ! i = (contents r @ bs) ! i"
    proof (cases "i < n")
      case True
      have "(t + n + k) mod PIPE_RING_CAP \<noteq> (t + i) mod PIPE_RING_CAP" if "k < length bs" for k
        using slot_distinct[of i "n + k" t] True n that by (simp add: add.assoc eq_commute)
      then have "contents (ring_put bs r) ! i = ring_buf r ! ((t + i) mod PIPE_RING_CAP)"
        unfolding eq by (rule put_all_miss) simp
      then show ?thesis using True by (simp add: nth_append contents_nat tn)
    next
      case False
      then obtain k where k: "i = n + k" "k < length bs" using i by (metis add_diff_inverse_nat less_diff_conv2 not_less add.commute)
      then have "contents (ring_put bs r) ! i = bs ! k"
        unfolding eq using put_all_hit[of "length bs" "ring_buf r" k "t + n" bs] B n by (simp add: add.assoc)
      then show ?thesis using k by (simp add: nth_append tn)
    qed
  qed
qed (simp_all add: ring_put_def)

lemma ring_get_contents:
  assumes ok: "ring_ok r" and k: "k \<le> length (contents r)"
  shows "fst (ring_get k r) = take k (contents r)" "contents (snd (ring_get k r)) = drop k (contents r)" "ring_ok (snd (ring_get k r))"
    "refcount_r (snd (ring_get k r)) = refcount_r r" "refcount_w (snd (ring_get k r)) = refcount_w r"
proof -
  let ?r = "snd (ring_get k r)"
  have r: "ring_buf ?r = ring_buf r" "tail ?r = tail r + of_nat k" "head ?r = head r" by (simp_all add: ring_get_def)
  have kk: "k \<le> unat (inflight r)" using k by simp
  have uk: "unat (of_nat k :: u32) = k"
    using kk ok by (simp add: unat_of_nat ring_ok_def)
  have "inflight ?r = inflight r - of_nat k" by (simp add: inflight_def r algebra_simps)
  then have fl: "unat (inflight ?r) = unat (inflight r) - k"
    using kk uk by (simp add: unat_sub word_le_nat_alt)
  show "ring_ok ?r" using ok fl by (auto simp: ring_ok_def r)
  show "fst (ring_get k r) = take k (contents r)"
    by (rule nth_equalityI) (use kk in \<open>simp_all add: ring_get_def contents_def\<close>)
  have at: "contents ?r ! i = contents r ! (k + i)" if "i < unat (inflight r) - k" for i
  proof -
    have "contents ?r ! i = ring_buf r ! (unat (tail r + of_nat (k + i)) mod PIPE_RING_CAP)"
      using that by (simp add: contents_def fl r algebra_simps)
    moreover have "k + i < unat (inflight r)" using that by linarith
    ultimately show ?thesis by (simp add: contents_def[of r])
  qed
  show "contents ?r = drop k (contents r)"
    by (rule nth_equalityI) (use at kk in \<open>auto simp: fl\<close>)
qed (simp_all add: ring_get_def)

lemma pipe_read_result:
  assumes ok: "ring_ok r" and len: "0 < len"
  shows "pipe_read nb len r =
    (if contents r \<noteq> [] then (Return (int (min (unat len) (length (contents r)))) (take (unat len) (contents r)), snd (ring_get (min (unat len) (length (contents r))) r))
     else if refcount_w r = 0 then (Return 0 [], r) else if nb then (Return (- 11) [], r) else (Wait 0, r))"
proof (cases "contents r = []")
  case True
  then have "inflight r = 0" by (simp add: inflight_zero)
  then show ?thesis using True by (simp add: pipe_read_def)
next
  case False
  then have "0 < inflight r" using inflight_zero by (simp add: word_gt_0)
  moreover have "unat (if inflight r > len then len else inflight r) = min (unat len) (length (contents r))"
    by (simp add: word_less_nat_alt)
  ultimately have "pipe_read nb len r = (let (bs, r') = ring_get (min (unat len) (length (contents r))) r in (Return (int (length bs)) bs, r'))"
    by (simp add: pipe_read_def Let_def)
  moreover have "fst (ring_get (min (unat len) (length (contents r))) r) = take (unat len) (contents r)"
    using ring_get_contents(1)[OF ok, of "min (unat len) (length (contents r))"] by (simp add: min_def)
  ultimately show ?thesis using False by (simp add: case_prod_beta min.commute)
qed

lemma pipe_write_result:
  assumes "ring_ok r" "refcount_r r \<noteq> 0" "written \<le> length buf"
  defines "k \<equiv> min (length buf - written) (unat (space r))"
  shows "\<exists>r'. pipe_write nb buf written r =
      (if written + k = length buf then Return (int (length buf)) []
       else if nb then Return (if 0 < written + k then int (written + k) else - 11) [] else Wait (written + k), r') \<and>
    contents r' = contents r @ take k (drop written buf) \<and> ring_ok r' \<and> refcount_r r' = refcount_r r \<and> refcount_w r' = refcount_w r"
proof (cases "written = length buf \<or> unat (space r) = 0")
  case True
  then have "k = 0" using assms(3) by (auto simp: k_def)
  moreover have "space r = 0 \<longleftrightarrow> unat (space r) = 0" by (simp add: unat_eq_zero)
  ultimately show ?thesis using assms True
    by (intro exI[of _ r]) (auto simp: pipe_write.simps[of nb buf written r])
next
  case False
  have k: "0 < k" "k \<le> unat (space r)" using False assms(3) by (auto simp: k_def)
  let ?bs = "take k (drop written buf)"
  have lb: "length ?bs = k" using assms(3) by (simp add: k_def)
  note p = ring_put_contents[OF assms(1), of ?bs, unfolded lb, OF k(2)]
  let ?r = "ring_put ?bs r"
  have step: "pipe_write nb buf written r = pipe_write nb buf (written + k) ?r"
  proof -
    have "(if length buf - written > unat (space r) then unat (space r) else length buf - written) = k" by (simp add: k_def)
    moreover have "space r \<noteq> 0" using False by (auto simp: unat_eq_zero)
    ultimately show ?thesis using False assms(2,3) by (subst pipe_write.simps) (simp add: Let_def)
  qed
  have full: "space ?r = 0" if "written + k < length buf"
  proof -
    have "k = unat (space r)" using that by (auto simp: k_def min_def split: if_splits)
    then have "length (contents ?r) = PIPE_RING_CAP"
      using p(1) lb space_unat[OF assms(1)] assms(1) by (simp add: ring_ok_def)
    then have "unat (space ?r) = 0" using space_unat[OF p(2)] by simp
    then show ?thesis by (simp add: unat_eq_zero)
  qed
  have le: "written + k \<le> length buf" using assms(3) by (auto simp: k_def)
  have "pipe_write nb buf (written + k) ?r =
      (if written + k = length buf then Return (int (length buf)) []
       else if nb then Return (if 0 < written + k then int (written + k) else - 11) [] else Wait (written + k), ?r)"
    using full le p(3) assms(2) k(1) by (subst pipe_write.simps) auto
  then show ?thesis using step p by auto
qed

end
