(* ===== verification/Fd_Facts.thy ===== *)
theory Fd_Facts
  imports Pipe_Facts "HOL-Library.Multiset"
begin

text \<open>
  Reference counts of pipes. The invariant counts the slots that refer to a ring: those of the
  tables in the system, and those of a list of slots held outside them, which is where a
  table is while it is built or taken apart, and where references that nobody will drop any more stay.
\<close>

section \<open>Counting references\<close>

definition is_ref :: "u32 \<Rightarrow> bool \<Rightarrow> fd_entry \<Rightarrow> bool" where
  "is_ref p w e \<longleftrightarrow> kind e = FD_KIND_PIPE \<and> pipe e = p \<and> pipe_is_writer e = w"

definition refs_in :: "u32 \<Rightarrow> bool \<Rightarrow> fd_table \<Rightarrow> nat" where
  "refs_in p w es = length (filter (is_ref p w) es)"

definition table_refs :: "(u32 \<Rightarrow> fd_table option) \<Rightarrow> u32 \<Rightarrow> bool \<Rightarrow> nat" where
  "table_refs ts p w = (\<Sum>t\<in>dom ts. refs_in p w (the (ts t)))"

lemma refs_in_append [simp]: "refs_in p w (xs @ ys) = refs_in p w xs + refs_in p w ys"
  by (simp add: refs_in_def)

lemma refs_in_Cons [simp]: "refs_in p w (e # es) = (if is_ref p w e then 1 else 0) + refs_in p w es"
  by (simp add: refs_in_def)

lemma refs_in_Nil [simp]: "refs_in p w [] = 0" by (simp add: refs_in_def)

lemma refs_in_pos: "e \<in> set es \<Longrightarrow> is_ref p w e \<Longrightarrow> 0 < refs_in p w es"
  by (induction es) auto

lemma table_refs_out:
  assumes "finite (dom ts)" "ts t = Some slots"
  shows "table_refs ts p w = refs_in p w slots + table_refs (ts(t := None)) p w"
proof -
  have "t \<in> dom ts" using assms(2) by auto
  then have "table_refs ts p w = refs_in p w slots + (\<Sum>u\<in>dom ts - {t}. refs_in p w (the (ts u)))"
    using sum.remove[OF assms(1), of t "\<lambda>u. refs_in p w (the (ts u))"] assms(2) by (simp add: table_refs_def)
  moreover have "(\<Sum>u\<in>dom ts - {t}. refs_in p w (the (ts u))) = table_refs (ts(t := None)) p w"
    unfolding table_refs_def by (rule sum.cong) auto
  ultimately show ?thesis by simp
qed

lemma table_refs_in:
  assumes "finite (dom ts)" "ts t = None"
  shows "table_refs (ts(t \<mapsto> slots)) p w = refs_in p w slots + table_refs ts p w"
  using table_refs_out[of "ts(t \<mapsto> slots)" t slots p w] assms by (simp add: fun_upd_idem)

section \<open>The invariant\<close>

definition slot_ok :: "fdsys \<Rightarrow> fd_entry \<Rightarrow> bool" where
  "slot_ok s e \<longleftrightarrow> (kind e = FD_KIND_PIPE \<longrightarrow> pipe e \<noteq> 0 \<and> rings s (pipe e) \<noteq> None)"

definition fd_inv :: "fdsys \<Rightarrow> fd_table \<Rightarrow> bool" where
  "fd_inv s out \<longleftrightarrow> finite (dom (tabs s)) \<and>
     (\<forall>t slots. tabs s t = Some slots \<longrightarrow> length slots = TASK_MAX_FDS \<and> (\<forall>e\<in>set slots. slot_ok s e)) \<and>
     (\<forall>e\<in>set out. slot_ok s e) \<and>
     (\<forall>p r. rings s p = Some r \<longrightarrow>
        refcount_r r = int (table_refs (tabs s) p False + refs_in p False out) \<and>
        refcount_w r = int (table_refs (tabs s) p True + refs_in p True out) \<and>
        0 < refcount_r r + refcount_w r)"

text \<open>Only the counts matter for the slots outside, and the sums for those inside.\<close>

lemma fd_invI:
  assumes "fd_inv s out" "finite (dom ts)"
    and "\<And>t slots e. ts t = Some slots \<Longrightarrow> length slots = TASK_MAX_FDS \<and> (e \<in> set slots \<longrightarrow> slot_ok s e)"
    and "\<And>e. e \<in> set out' \<Longrightarrow> slot_ok s e"
    and "\<And>p w. table_refs ts p w + refs_in p w out' = table_refs (tabs s) p w + refs_in p w out"
  shows "fd_inv (s\<lparr>tabs := ts\<rparr>) out'"
  unfolding fd_inv_def
proof (intro conjI allI ballI impI)
  fix p r assume "rings (s\<lparr>tabs := ts\<rparr>) p = Some r"
  then have r: "rings s p = Some r" by simp
  have c: "table_refs (tabs (s\<lparr>tabs := ts\<rparr>)) p w + refs_in p w out' = table_refs (tabs s) p w + refs_in p w out" for w
    using assms(5) by simp
  show "refcount_r r = int (table_refs (tabs (s\<lparr>tabs := ts\<rparr>)) p False + refs_in p False out')"
    "refcount_w r = int (table_refs (tabs (s\<lparr>tabs := ts\<rparr>)) p True + refs_in p True out')" "0 < refcount_r r + refcount_w r"
    unfolding c using assms(1) r unfolding fd_inv_def by blast+
qed (use assms(2-4) in \<open>auto simp: slot_ok_def\<close>)

lemma inv_ringD:
  "fd_inv s out \<Longrightarrow> rings s p = Some r \<Longrightarrow>
     refcount_r r = int (table_refs (tabs s) p False + refs_in p False out) \<and>
     refcount_w r = int (table_refs (tabs s) p True + refs_in p True out) \<and> 0 < refcount_r r + refcount_w r"
  unfolding fd_inv_def by blast

lemma fd_inv_same:
  assumes "fd_inv s out" "\<And>p w. refs_in p w out' = refs_in p w out" "\<And>e. e \<in> set out' \<Longrightarrow> slot_ok s e"
  shows "fd_inv s out'"
proof -
  have "fd_inv (s\<lparr>tabs := tabs s\<rparr>) out'"
    by (rule fd_invI[OF assms(1)]) (use assms in \<open>auto simp: fd_inv_def\<close>)
  then show ?thesis by simp
qed

lemma fd_inv_perm: "fd_inv s out \<Longrightarrow> mset out' = mset out \<Longrightarrow> fd_inv s out'"
proof (rule fd_inv_same)
  assume i: "fd_inv s out" and m: "mset out' = mset out"
  show "refs_in p w out' = refs_in p w out" for p w
    unfolding refs_in_def by (metis m mset_filter size_mset)
  show "slot_ok s e" if "e \<in> set out'" for e
    using that i mset_eq_setD[OF m] by (simp add: fd_inv_def)
qed

lemma take_out:
  assumes inv: "fd_inv s out" and t: "tabs s t = Some slots"
  shows "fd_inv (s\<lparr>tabs := (tabs s)(t := None)\<rparr>) (slots @ out)"
proof (rule fd_invI[OF inv])
  have fin: "finite (dom (tabs s))" using inv by (simp add: fd_inv_def)
  then show "finite (dom ((tabs s)(t := None)))" by simp
  show "table_refs ((tabs s)(t := None)) p w + refs_in p w (slots @ out) = table_refs (tabs s) p w + refs_in p w out" for p w
    using table_refs_out[OF fin, of t slots p w] t by simp
  show "length xs = TASK_MAX_FDS \<and> (e \<in> set xs \<longrightarrow> slot_ok s e)" if "((tabs s)(t := None)) u = Some xs" for u xs e
    using that inv unfolding fd_inv_def by (auto split: if_splits)
  show "slot_ok s e" if "e \<in> set (slots @ out)" for e
    using that inv t unfolding fd_inv_def by auto
qed

lemma put_in:
  assumes inv: "fd_inv s (slots @ out)" and t: "tabs s t = None" and len: "length slots = TASK_MAX_FDS"
  shows "fd_inv (s\<lparr>tabs := (tabs s)(t \<mapsto> slots)\<rparr>) out"
proof (rule fd_invI[OF inv])
  have fin: "finite (dom (tabs s))" using inv by (simp add: fd_inv_def)
  then show "finite (dom ((tabs s)(t \<mapsto> slots)))" by simp
  show "table_refs ((tabs s)(t \<mapsto> slots)) p w + refs_in p w out = table_refs (tabs s) p w + refs_in p w (slots @ out)" for p w
    using table_refs_in[OF fin, of t slots p w] t by simp
  show "length xs = TASK_MAX_FDS \<and> (e \<in> set xs \<longrightarrow> slot_ok s e)" if "((tabs s)(t \<mapsto> slots)) u = Some xs" for u xs e
    using that inv len unfolding fd_inv_def by (auto split: if_splits)
  show "slot_ok s e" if "e \<in> set out" for e
    using that inv unfolding fd_inv_def by auto
qed

lemma inv_other_fields:
  "fd_inv s' out = fd_inv s out" if "tabs s' = tabs s" "rings s' = rings s"
  using that by (simp add: fd_inv_def slot_ok_def)

section \<open>Dropping and adding a reference\<close>

lemma not_pipe_refs: "kind e \<noteq> FD_KIND_PIPE \<Longrightarrow> \<not> is_ref p w e" by (simp add: is_ref_def)

lemma inv_drop_other: "kind e \<noteq> FD_KIND_PIPE \<Longrightarrow> fd_inv s (e # out) \<Longrightarrow> fd_inv s out"
  by (rule fd_inv_same[of s "e # out"], assumption) (auto simp: fd_inv_def not_pipe_refs)

lemma inv_add_other: "kind e \<noteq> FD_KIND_PIPE \<Longrightarrow> fd_inv s out \<Longrightarrow> fd_inv s (e # out)"
  by (rule fd_inv_same[of s out], assumption) (auto simp: fd_inv_def not_pipe_refs slot_ok_def)

lemma release_inv:
  assumes inv: "fd_inv s (e # out)" and k: "kind e = FD_KIND_PIPE"
  shows "fd_inv (pipe_release e s) out"
proof -
  define p w where pw: "p = pipe e" "w = pipe_is_writer e"
  obtain r where r: "rings s p = Some r" and p0: "p \<noteq> 0" using inv k by (auto simp: fd_inv_def slot_ok_def pw)
  define a b where ab: "a = table_refs (tabs s) p False + refs_in p False out" "b = table_refs (tabs s) p True + refs_in p True out"
  have ref: "is_ref q v e \<longleftrightarrow> q = p \<and> v = w" for q v using k by (auto simp: is_ref_def pw)
  have cnt: "refcount_r r = int (a + (if w then 0 else 1))" "refcount_w r = int (b + (if w then 1 else 0))"
    using inv r ref unfolding fd_inv_def ab by (auto simp: algebra_simps)
  define r' where "r' = pipe_drop w r"
  have r': "refcount_r r' = int a" "refcount_w r' = int b" using cnt by (auto simp: r'_def pipe_drop_def)
  have s': "pipe_release e s = s\<lparr>rings := (rings s)(p := (if a = 0 \<and> b = 0 then None else Some r'))\<rparr>"
    using k p0 r r' by (simp add: pipe_release_def pw[symmetric] r'_def Let_def)
  have live: "rings (pipe_release e s) q = None \<longrightarrow> rings s q = None \<or> (q = p \<and> a = 0 \<and> b = 0)" for q by (simp add: s')
  have nz: "a \<noteq> 0 \<or> b \<noteq> 0" if "d \<in> set out \<or> (\<exists>t slots. tabs s t = Some slots \<and> d \<in> set slots)" "kind d = FD_KIND_PIPE" "pipe d = p" for d
  proof -
    have d: "is_ref p (pipe_is_writer d) d" using that(2,3) by (simp add: is_ref_def)
    have fin: "finite (dom (tabs s))" using inv by (simp add: fd_inv_def)
    have "0 < table_refs (tabs s) p (pipe_is_writer d) + refs_in p (pipe_is_writer d) out"
      using that(1) refs_in_pos[OF _ d] table_refs_out[OF fin, of _ _ p "pipe_is_writer d"] by fastforce
    then show ?thesis unfolding ab by (cases "pipe_is_writer d") auto
  qed
  have ok: "slot_ok (pipe_release e s) d"
    if "d \<in> set out \<or> (\<exists>t slots. tabs s t = Some slots \<and> d \<in> set slots)" for d
  proof -
    have "slot_ok s d" using that inv unfolding fd_inv_def by auto
    then show ?thesis using live[of "pipe d"] nz[OF that] unfolding slot_ok_def by auto
  qed
  have rs: "refcount_r x = int (table_refs (tabs s) q False + refs_in q False out) \<and>
      refcount_w x = int (table_refs (tabs s) q True + refs_in q True out) \<and> 0 < refcount_r x + refcount_w x"
    if "rings (pipe_release e s) q = Some x" for q x
  proof (cases "q = p")
    case True then show ?thesis using that r' unfolding s' ab[symmetric] True by (auto simp: ab split: if_splits)
  next
    case False
    then have "rings s q = Some x" using that by (simp add: s')
    from inv_ringD[OF inv this] show ?thesis using False by (simp add: ref)
  qed
  have t: "tabs (pipe_release e s) = tabs s" by (simp add: s')
  show ?thesis unfolding fd_inv_def t using inv ok rs unfolding fd_inv_def by blast
qed

lemma bump_inv:
  assumes inv: "fd_inv s out" and e: "kind e = FD_KIND_PIPE" "slot_ok s e"
  shows "fd_inv (pipe_bump e s) (e # out)"
proof -
  define p w where pw: "p = pipe e" "w = pipe_is_writer e"
  obtain r where r: "rings s p = Some r" and p0: "p \<noteq> 0" using e by (auto simp: slot_ok_def pw)
  have ref: "is_ref q v e \<longleftrightarrow> q = p \<and> v = w" for q v using e by (auto simp: is_ref_def pw)
  define r' where "r' = (if w then r\<lparr>refcount_w := refcount_w r + 1\<rparr> else r\<lparr>refcount_r := refcount_r r + 1\<rparr>)"
  have s': "pipe_bump e s = s\<lparr>rings := (rings s)(p \<mapsto> r')\<rparr>" using r by (simp add: pipe_bump_def pw r'_def)
  have ok: "slot_ok (pipe_bump e s) d" if "slot_ok s d" for d using that by (auto simp: slot_ok_def s')
  have cnt: "refcount_r r' = refcount_r r + (if w then 0 else 1)" "refcount_w r' = refcount_w r + (if w then 1 else 0)"
    by (simp_all add: r'_def)
  have rs: "refcount_r x = int (table_refs (tabs s) q False + refs_in q False (e # out)) \<and>
      refcount_w x = int (table_refs (tabs s) q True + refs_in q True (e # out)) \<and> 0 < refcount_r x + refcount_w x"
    if "rings (pipe_bump e s) q = Some x" for q x
  proof (cases "q = p")
    case True
    then have x: "x = r'" using that by (simp add: s')
    have "refcount_r r = int (table_refs (tabs s) p False + refs_in p False out) \<and>
      refcount_w r = int (table_refs (tabs s) p True + refs_in p True out) \<and> 0 < refcount_r r + refcount_w r"
      using inv r unfolding fd_inv_def by blast
    then show ?thesis unfolding True x using cnt by (cases w) (auto simp: ref)
  next
    case False
    then have "rings s q = Some x" using that by (simp add: s')
    from inv_ringD[OF inv this] show ?thesis using False by (simp add: ref)
  qed
  have t: "tabs (pipe_bump e s) = tabs s" by (simp add: s')
  have oks: "\<forall>d\<in>set (e # out). slot_ok (pipe_bump e s) d"
      "\<And>t slots. tabs s t = Some slots \<Longrightarrow> length slots = TASK_MAX_FDS \<and> (\<forall>d\<in>set slots. slot_ok (pipe_bump e s) d)"
    using inv ok e(2) unfolding fd_inv_def by auto
  have "finite (dom (tabs s))" using inv by (simp add: fd_inv_def)
  then show ?thesis unfolding fd_inv_def t using oks rs by blast
qed

section \<open>Operations on tables\<close>

lemma pipe_release_fields:
  "tabs (pipe_release e s) = tabs s" "pipe_release e (s\<lparr>tabs := ts\<rparr>) = (pipe_release e s)\<lparr>tabs := ts\<rparr>"
  by (auto simp: pipe_release_def Let_def split: option.splits)

lemma flush_fields:
  "tabs (snd (fd_flush_one env e s)) = tabs s" "rings (snd (fd_flush_one env e s)) = rings s"
  "fd_flush_one env e (s\<lparr>tabs := ts\<rparr>) = (fst (fd_flush_one env e s), (snd (fd_flush_one env e s))\<lparr>tabs := ts\<rparr>)"
  by (auto simp: fd_flush_one_def Let_def)

lemma kfree_fields:
  "tabs (kfree_buf p s) = tabs s" "rings (kfree_buf p s) = rings s" "kfree_buf p (s\<lparr>tabs := ts\<rparr>) = (kfree_buf p s)\<lparr>tabs := ts\<rparr>"
  by (auto simp: kfree_buf_def)

lemma destroy_slot_inv:
  assumes "fd_inv s (e # out)"
  shows "fd_inv (destroy_slot env e s) out"
proof (cases "kind e = FD_KIND_PIPE")
  case True then show ?thesis using release_inv[OF assms] by (simp add: destroy_slot_def)
next
  case False
  have "tabs (destroy_slot env e s) = tabs s" "rings (destroy_slot env e s) = rings s"
    using False by (auto simp: destroy_slot_def kfree_fields flush_fields split: fd_kind.split)
  then show ?thesis using inv_drop_other[OF False assms] inv_other_fields by blast
qed

lemma destroy_slot_tabs: "destroy_slot env e (s\<lparr>tabs := ts\<rparr>) = (destroy_slot env e s)\<lparr>tabs := ts\<rparr>"
  "tabs (destroy_slot env e s) = tabs s"
  by (auto simp: destroy_slot_def kfree_fields flush_fields pipe_release_fields split: fd_kind.split)

lemma destroy_all_tabs: "fold (destroy_slot env) es (s\<lparr>tabs := ts\<rparr>) = (fold (destroy_slot env) es s)\<lparr>tabs := ts\<rparr>"
  "tabs (fold (destroy_slot env) es s) = tabs s"
  by (induction es arbitrary: s) (simp_all add: destroy_slot_tabs)

lemma destroy_all_inv: "fd_inv s (es @ out) \<Longrightarrow> fd_inv (fold (destroy_slot env) es s) out"
  by (induction es arbitrary: s) (simp_all add: destroy_slot_inv)

lemma fd_table_destroy_inv:
  assumes "fd_inv s out"
  shows "fd_inv (fd_table_destroy env tbl s) out"
proof (cases "tabs s tbl")
  case (Some slots)
  have "fd_inv (fold (destroy_slot env) slots (s\<lparr>tabs := (tabs s)(tbl := None)\<rparr>)) out"
    by (rule destroy_all_inv[OF take_out[OF assms Some]])
  then show ?thesis using Some by (simp add: fd_table_destroy_def Let_def destroy_all_tabs)
qed (simp add: fd_table_destroy_def assms)

text \<open>Replacing one slot of a table, whose old value is then outside.\<close>

lemma set_slot_inv:
  assumes inv: "fd_inv s (e # out)" and t: "tabs s tbl = Some slots" "i < length slots"
  shows "fd_inv (s\<lparr>tabs := (tabs s)(tbl \<mapsto> slots[i := e])\<rparr>) (slots ! i # out)"
proof -
  let ?s = "s\<lparr>tabs := (tabs s)(tbl := None)\<rparr>"
  have "fd_inv ?s (slots @ e # out)" by (rule take_out[OF inv t(1)])
  moreover have "mset (slots[i := e] @ slots ! i # out) = mset (slots @ e # out)"
    using t(2) by (simp add: mset_update)
  ultimately have "fd_inv ?s (slots[i := e] @ slots ! i # out)" by (rule fd_inv_perm)
  moreover have "length slots = TASK_MAX_FDS" using inv t by (simp add: fd_inv_def)
  ultimately have "fd_inv (?s\<lparr>tabs := (tabs ?s)(tbl \<mapsto> slots[i := e])\<rparr>) (slots ! i # out)"
    by (intro put_in) simp_all
  then show ?thesis by simp
qed

lemma set_free_slot_inv:
  assumes inv: "fd_inv s (e # out)" and t: "tabs s tbl = Some slots" "i < length slots" "kind (slots ! i) \<noteq> FD_KIND_PIPE"
  shows "fd_inv (s\<lparr>tabs := (tabs s)(tbl \<mapsto> slots[i := e])\<rparr>) out"
  using inv_drop_other[OF t(3) set_slot_inv[OF inv t(1,2)]] .

lemma fd_get_Some: "fd_get slots fd = Some i \<Longrightarrow> i < TASK_MAX_FDS \<and> kind (slots ! i) \<noteq> FD_KIND_NONE \<and> fd = int i"
  by (auto simp: fd_get_def split: if_splits)

lemma fd_alloc_free: "0 \<le> fd_alloc slots \<Longrightarrow> nat (fd_alloc slots) < TASK_MAX_FDS \<and> kind (slots ! nat (fd_alloc slots)) = FD_KIND_NONE"
proof -
  assume a: "0 \<le> fd_alloc slots"
  define f where "f = find (\<lambda>i. kind (slots ! i) = FD_KIND_NONE) [0..<TASK_MAX_FDS]"
  have fd: "fd_alloc slots = (case f of None \<Rightarrow> - 1 | Some i \<Rightarrow> int i)" by (simp only: fd_alloc_def f_def)
  then obtain i where i: "f = Some i" using a by (cases f) auto
  then have "i \<in> set [0..<TASK_MAX_FDS] \<and> kind (slots ! i) = FD_KIND_NONE"
    unfolding f_def find_Some_iff by (metis nth_mem)
  then show ?thesis using fd i by simp
qed

lemma zero_kind [simp]: "kind zero_entry = FD_KIND_NONE" by (simp add: zero_entry_def)

lemma inv_length: "fd_inv s out \<Longrightarrow> tabs s t = Some slots \<Longrightarrow> length slots = TASK_MAX_FDS"
  by (simp add: fd_inv_def)

text \<open>Closing a descriptor is releasing the slot after it has been cleared.\<close>

definition close_effect :: "fd_env \<Rightarrow> fd_entry \<Rightarrow> fdsys \<Rightarrow> int \<times> fdsys" where
  "close_effect env e s =
     (case kind e of
        FD_KIND_FILE \<Rightarrow>
          (let (rc, s) = fd_flush_one env e s in
           (rc, if HEAP_START_ADDR \<le> data e \<and> data e < HEAP_MAX_ADDR \<and> data e AND 3 = 0 then kfree_buf (data e) s else s))
      | FD_KIND_PIPE \<Rightarrow> (0, pipe_release e s)
      | FD_KIND_SOCKET \<Rightarrow> (0, s\<lparr>events := events s @ [Sock_close (sock_id e)]\<rparr>)
      | _ \<Rightarrow> (0, s))"

lemma close_effect_tabs:
  "tabs (snd (close_effect env e s)) = tabs s"
  "snd (close_effect env e (s\<lparr>tabs := ts\<rparr>)) = (snd (close_effect env e s))\<lparr>tabs := ts\<rparr>"
  by (auto simp: close_effect_def case_prod_beta Let_def kfree_fields flush_fields pipe_release_fields split: fd_kind.split)

lemma close_effect_inv:
  assumes "fd_inv s (e # out)"
  shows "fd_inv (snd (close_effect env e s)) out"
proof (cases "kind e = FD_KIND_PIPE")
  case True then show ?thesis using release_inv[OF assms] by (simp add: close_effect_def)
next
  case False
  have "rings (snd (close_effect env e s)) = rings s"
    using False by (auto simp: close_effect_def case_prod_beta Let_def kfree_fields flush_fields split: fd_kind.split)
  then show ?thesis using inv_drop_other[OF False assms] inv_other_fields[OF close_effect_tabs(1)] by blast
qed

lemma fd_close_eq:
  "fd_close env tbl fd s =
     (case tabs s tbl of None \<Rightarrow> (- 1, s)
      | Some slots \<Rightarrow>
          (case fd_get slots fd of None \<Rightarrow> (- 1, s)
           | Some i \<Rightarrow> (fst (close_effect env (slots ! i) s),
               snd (close_effect env (slots ! i) (s\<lparr>tabs := (tabs s)(tbl \<mapsto> slots[i := zero_entry])\<rparr>)))))"
  by (auto simp: fd_close_def close_effect_def Let_def case_prod_beta flush_fields kfree_fields pipe_release_fields
      split: option.split fd_kind.split)

lemma fd_close_inv:
  assumes inv: "fd_inv s out"
  shows "fd_inv (snd (fd_close env tbl fd s)) out"
proof -
  have "fd_inv (snd (close_effect env (slots ! i) (s\<lparr>tabs := (tabs s)(tbl \<mapsto> slots[i := zero_entry])\<rparr>))) out"
    if "tabs s tbl = Some slots" "fd_get slots fd = Some i" for slots i
  proof (rule close_effect_inv, rule set_slot_inv[OF _ that(1)])
    show "fd_inv s (zero_entry # out)" using inv by (intro inv_add_other) simp_all
    show "i < length slots" using fd_get_Some[OF that(2)] inv_length[OF inv that(1)] by simp
  qed
  then show ?thesis using inv by (simp add: fd_close_eq split: option.split)
qed

lemma pipe_bump_tabs: "tabs (pipe_bump e s) = tabs s" "pipe_bump e (s\<lparr>tabs := ts\<rparr>) = (pipe_bump e s)\<lparr>tabs := ts\<rparr>"
  by (auto simp: pipe_bump_def split: option.split)

lemma dup_slot_inv:
  assumes inv: "fd_inv s out" and t: "tabs s tbl = Some slots" "i < length slots" "j < length slots" "kind (slots ! j) \<noteq> FD_KIND_PIPE"
  shows "fd_inv (dup_slot tbl i j s) out"
proof -
  let ?e = "slots ! i"
  have ok: "slot_ok s ?e" using inv t(1,2) unfolding fd_inv_def by auto
  show ?thesis
  proof (cases "kind ?e = FD_KIND_PIPE")
    case True
    then have p: "pipe ?e \<noteq> 0" using ok by (simp add: slot_ok_def)
    have "fd_inv (pipe_bump ?e s) (?e # out)" by (rule bump_inv[OF inv True ok])
    then have "fd_inv ((pipe_bump ?e s)\<lparr>tabs := (tabs (pipe_bump ?e s))(tbl \<mapsto> slots[j := ?e])\<rparr>) out"
      by (rule set_free_slot_inv) (use t in \<open>simp_all add: pipe_bump_tabs\<close>)
    then show ?thesis using True p t(1) by (simp add: dup_slot_def Let_def pipe_bump_tabs)
  next
    case False
    have "fd_inv (s\<lparr>tabs := (tabs s)(tbl \<mapsto> slots[j := ?e])\<rparr>) out"
      by (rule set_free_slot_inv[OF inv_add_other[OF False inv] t(1,3,4)])
    then show ?thesis using False t(1) by (simp add: dup_slot_def Let_def)
  qed
qed

lemma sys_dup_inv:
  assumes inv: "fd_inv s out"
  shows "fd_inv (snd (sys_dup tbl oldfd s)) out"
proof -
  have "fd_inv (dup_slot tbl i (nat (fd_alloc slots)) s) out"
    if "tabs s tbl = Some slots" "fd_get slots oldfd = Some i" "0 \<le> fd_alloc slots" for slots i
    by (rule dup_slot_inv[OF inv that(1)])
      (use fd_get_Some[OF that(2)] fd_alloc_free[OF that(3)] inv_length[OF inv that(1)] in simp_all)
  then show ?thesis using inv by (auto simp: sys_dup_def Let_def split: option.split)
qed

lemma sys_dup2_inv:
  assumes inv: "fd_inv s out"
  shows "fd_inv (snd (sys_dup2 env tbl oldfd newfd s)) out"
proof -
  have main: "fd_inv (dup_slot tbl i (nat newfd) (if kind (slots ! nat newfd) \<noteq> FD_KIND_NONE then snd (fd_close env tbl newfd s) else s)) out"
    if t: "tabs s tbl = Some slots" "fd_get slots oldfd = Some i" "0 \<le> newfd" "newfd < int TASK_MAX_FDS" "oldfd \<noteq> newfd" for slots i
  proof (cases "kind (slots ! nat newfd) = FD_KIND_NONE")
    case True
    then show ?thesis using dup_slot_inv[OF inv t(1), of i "nat newfd"] fd_get_Some[OF t(2)] inv_length[OF inv t(1)] t by simp
  next
    case False
    let ?s = "snd (fd_close env tbl newfd s)"
    have g: "fd_get slots newfd = Some (nat newfd)" using t False by (simp add: fd_get_def)
    have i: "fd_inv ?s out" by (rule fd_close_inv[OF inv])
    have "tabs ?s tbl = Some (slots[nat newfd := zero_entry])"
      using t g by (simp add: fd_close_eq close_effect_tabs)
    then show ?thesis using False dup_slot_inv[OF i, of tbl "slots[nat newfd := zero_entry]" i "nat newfd"]
        fd_get_Some[OF t(2)] inv_length[OF inv t(1)] t by simp
  qed
  show ?thesis
  proof (cases "tabs s tbl")
    case (Some slots)
    then show ?thesis using inv main[OF Some] by (cases "fd_get slots oldfd") (simp_all add: sys_dup2_def Let_def)
  qed (simp add: sys_dup2_def inv)
qed

section \<open>Opening, creating and copying\<close>

lemma sys_open_inv:
  assumes inv: "fd_inv s out"
  shows "fd_inv (snd (sys_open env kmalloc tbl p fl s)) out"
proof -
  have set: "fd_inv (s\<lparr>tabs := (tabs s)(tbl \<mapsto> slots[nat (fd_alloc slots) := e]), bufs := b\<rparr>) out"
    if t: "tabs s tbl = Some slots" "0 \<le> fd_alloc slots" "kind e \<noteq> FD_KIND_PIPE" for slots e b
  proof -
    have "fd_inv (s\<lparr>tabs := (tabs s)(tbl \<mapsto> slots[nat (fd_alloc slots) := e])\<rparr>) out"
      by (rule set_free_slot_inv[OF inv_add_other[OF t(3) inv] t(1)])
        (use fd_alloc_free[OF t(2)] inv_length[OF inv t(1)] in simp_all)
    then show ?thesis by (rule inv_other_fields[THEN iffD1, rotated 2]) simp_all
  qed
  have k: "kind e = FD_KIND_FILE" if "open_file env kmalloc p fl = Inr (e, b)" for e b
    using that by (auto simp: open_file_def open_empty_def Let_def case_prod_beta split: if_splits option.splits)
  show ?thesis
  proof (cases "FD_PATH_MAX \<le> length p \<or> tabs s tbl = None")
    case True then show ?thesis using inv by (auto simp: sys_open_def)
  next
    case False
    then obtain slots where t: "tabs s tbl = Some slots" by auto
    show ?thesis
    proof (cases "fd_alloc slots < 0")
      case True then show ?thesis using inv False t by (simp add: sys_open_def)
    next
      case ge: False
      then have fd: "0 \<le> fd_alloc slots" by simp
      note st = set[OF t fd]
      show ?thesis
        using False t ge st[of zero_entry "bufs s"] st[of "zero_entry\<lparr>kind := FD_KIND_BLOCKDEV, fsize := _, dev_node := _\<rparr>" "bufs s"]
          st[of "_\<lparr>writable := _, append_mode := _, path := _, pos := _\<rparr>"] k
        by (auto simp: sys_open_def Let_def split: option.split sum.split)
    qed
  qed
qed

lemma create_default_inv:
  assumes inv: "fd_inv s out" and fresh: "tabs s tbl = None"
  shows "fd_inv (snd (fd_table_create_default tbl s)) out"
proof -
  have np: "kind e \<noteq> FD_KIND_PIPE" if "e \<in> set default_table" for e
    using that by (auto simp: default_table_def numeral_eq_Suc)
  have "refs_in p w default_table = 0" for p w
    using np not_pipe_refs unfolding refs_in_def by (metis filter_False length_0_conv)
  then have "fd_inv s (default_table @ out)"
    using inv np by (intro fd_inv_same[OF inv]) (auto simp: slot_ok_def fd_inv_def)
  then have "fd_inv (s\<lparr>tabs := (tabs s)(tbl \<mapsto> default_table)\<rparr>) out"
    by (rule put_in) (simp_all add: fresh default_table_def)
  then show ?thesis using inv by (simp add: fd_table_create_default_def)
qed

lemma unwind_fields:
  "tabs (fold (\<lambda>c. kfree_buf (f c)) cs s) = tabs s" "rings (fold (\<lambda>c. kfree_buf (f c)) cs s) = rings s"
  by (induction cs arbitrary: s) (simp_all add: kfree_fields)

text \<open>
  The copy keeps the invariant with the copied slots outside the tables. When it fails, the
  references of the slots copied so far stay counted.
\<close>


text \<open>How many slots are copied before an allocation fails, and the pipe ends among them.\<close>

fun clone_done :: "alloc list \<Rightarrow> fd_table \<Rightarrow> nat" where
  "clone_done as [] = 0"
| "clone_done as (e # es) =
     (if kind e = FD_KIND_FILE \<and> data e \<noteq> 0 \<and> capacity e \<noteq> 0 then
        (if (case as of [] \<Rightarrow> 0 | a # _ \<Rightarrow> fst a) = 0 then 0 else Suc (clone_done (drop 1 as) es))
      else Suc (clone_done as es))"

definition pipe_ends :: "fd_table \<Rightarrow> fd_table" where
  "pipe_ends es = filter (\<lambda>e. kind e = FD_KIND_PIPE) es"

lemma pipe_ends_simps [simp]:
  "pipe_ends [] = []" "pipe_ends (xs @ ys) = pipe_ends xs @ pipe_ends ys"
  "pipe_ends (e # es) = (if kind e = FD_KIND_PIPE then e # pipe_ends es else pipe_ends es)"
  by (simp_all add: pipe_ends_def)

lemma refs_in_pipe_ends: "refs_in p w (pipe_ends es) = refs_in p w es"
  by (induction es) (auto simp: is_ref_def)

lemma inv_pipe_ends: "fd_inv s (es @ out) \<Longrightarrow> fd_inv s (pipe_ends es @ out)"
proof (rule fd_inv_same[of s "es @ out"], assumption)
  assume "fd_inv s (es @ out)"
  then show "slot_ok s e" if "e \<in> set (pipe_ends es @ out)" for e
    using that by (auto simp: fd_inv_def pipe_ends_def)
qed (simp add: refs_in_pipe_ends)

definition clone_post :: "fdsys \<Rightarrow> fd_table \<Rightarrow> nat \<Rightarrow> fd_table \<Rightarrow> fd_table option \<times> fdsys \<Rightarrow> bool" where
  "clone_post s out n leak res \<longleftrightarrow> tabs (snd res) = tabs s \<and>
     (case fst res of
        Some copy \<Rightarrow> fd_inv (snd res) (copy @ out) \<and> length copy = n
      | None \<Rightarrow> fd_inv (snd res) (leak @ out))"

lemma slot_ok_mono: "rings s' = rings s \<Longrightarrow> slot_ok s' e = slot_ok s e" by (simp add: slot_ok_def)

lemma bump_ok: "slot_ok s d \<Longrightarrow> slot_ok (pipe_bump e s) d"
  by (auto simp: slot_ok_def pipe_bump_def split: option.split)

lemma inv_snoc: "fd_inv s (e # copied @ out) \<Longrightarrow> fd_inv s ((copied @ [e]) @ out)"
  by (rule fd_inv_perm, assumption) simp

lemma clone_slots_post:
  "fd_inv s (copied @ out) \<Longrightarrow> \<forall>e\<in>set es. slot_ok s e \<Longrightarrow>
     clone_post s out (length copied + length es) (pipe_ends (copied @ take (clone_done as es) es)) (clone_slots as copied es s)"
proof (induction es arbitrary: as copied s)
  case Nil then show ?case by (simp add: clone_post_def)
next
  case (Cons e es)
  have ok: "slot_ok s e" "\<forall>d\<in>set es. slot_ok s d" using Cons.prems(2) by simp_all
  have next_slot: "clone_post s out (length copied + length (e # es)) (pipe_ends (copied @ take (clone_done as' es) es))
      (clone_slots as' (copied @ [e']) es s')"
    if "tabs s' = tabs s" "rings s' = rings s" "kind e' \<noteq> FD_KIND_PIPE" for as' e' s'
  proof -
    have "fd_inv s' (copied @ out)" using Cons.prems(1) inv_other_fields that(1,2) by blast
    then have "fd_inv s' ((copied @ [e']) @ out)" by (intro inv_snoc inv_add_other[OF that(3)])
    moreover have "\<forall>d\<in>set es. slot_ok s' d" using ok slot_ok_mono[OF that(2)] by simp
    ultimately have "clone_post s' out (length (copied @ [e']) + length es) (pipe_ends ((copied @ [e']) @ take (clone_done as' es) es))
        (clone_slots as' (copied @ [e']) es s')"
      by (rule Cons.IH)
    then show ?thesis using that(1,3) by (simp add: clone_post_def)
  qed
  show ?case
  proof (cases "kind e = FD_KIND_PIPE")
    case True
    then have p: "pipe e \<noteq> 0" using ok by (simp add: slot_ok_def)
    have "fd_inv (pipe_bump e s) ((copied @ [e]) @ out)"
      using bump_inv[OF Cons.prems(1) True ok(1)] by (rule inv_snoc)
    then have "clone_post (pipe_bump e s) out (length (copied @ [e]) + length es) (pipe_ends ((copied @ [e]) @ take (clone_done as es) es))
        (clone_slots as (copied @ [e]) es (pipe_bump e s))"
      by (rule Cons.IH) (use ok bump_ok in blast)
    then show ?thesis using True p by (simp add: clone_post_def pipe_bump_tabs)
  next
    case np: False
    show ?thesis
    proof (cases "kind e = FD_KIND_FILE \<and> data e \<noteq> 0 \<and> capacity e \<noteq> 0")
      case True
      define a where "a = (case as of [] \<Rightarrow> (0, []) | a # _ \<Rightarrow> a)"
      show ?thesis
      proof (cases "fst a = 0")
        case fail: True
        let ?s = "fold (\<lambda>c. kfree_buf (if kind c = FD_KIND_FILE then data c else 0)) copied s"
        have "fd_inv ?s (copied @ out)" unfolding inv_other_fields[OF unwind_fields] by (rule Cons.prems(1))
        then have "clone_post s out (length copied + length (e # es)) (pipe_ends copied) (None, ?s)"
          by (simp add: clone_post_def unwind_fields inv_pipe_ends)
        then show ?thesis using True fail by (cases as) (simp_all add: a_def case_prod_beta Let_def)
      next
        case False
        then show ?thesis using True next_slot[where e' = "e\<lparr>data := fst a, dirty := False\<rparr>"]
          by (cases as) (simp_all add: a_def case_prod_beta Let_def)
      qed
    next
      case nf: False
      show ?thesis
        using nf np next_slot[of s "e\<lparr>data := 0, capacity := 0, dirty := False\<rparr>" as] next_slot[of s e as]
          next_slot[of s "e\<lparr>kind := FD_KIND_NONE, sock_id := 0\<rparr>" as]
        by auto
    qed
  qed
qed

lemma fd_table_clone_inv:
  assumes inv: "fd_inv s out" and t: "tabs s t = None" and r: "fd_table_clone as t src s = (c, s')"
  shows "c \<noteq> 0 \<Longrightarrow> fd_inv s' out" "c = 0 \<Longrightarrow> s' = s \<or> (\<exists>slots. tabs s src = Some slots \<and> fd_inv s' (pipe_ends (take (clone_done as slots) slots) @ out))"
proof -
  have "(c \<noteq> 0 \<longrightarrow> fd_inv s' out) \<and> (c = 0 \<longrightarrow> s' = s \<or> (\<exists>slots. tabs s src = Some slots \<and> fd_inv s' (pipe_ends (take (clone_done as slots) slots) @ out)))"
  proof (cases "tabs s src = None \<or> t = 0")
    case True then show ?thesis using r by (auto simp: fd_table_clone_def split: option.splits)
  next
    case False
    then obtain slots where Some: "tabs s src = Some slots" by auto
    obtain res s1 where cl: "clone_slots as [] slots s = (res, s1)" by fastforce
    have oks: "\<forall>e\<in>set slots. slot_ok s e" using inv Some by (auto simp: fd_inv_def)
    have p: "clone_post s out TASK_MAX_FDS (pipe_ends (take (clone_done as slots) slots)) (res, s1)"
      using clone_slots_post[of s "[]" out slots as, OF _ oks] inv inv_length[OF inv Some] cl by simp
    show ?thesis
    proof (cases res)
      case None then show ?thesis using p False Some r cl by (auto simp: clone_post_def fd_table_clone_def)
    next
      case copy: (Some copy)
      have "fd_inv (s1\<lparr>tabs := (tabs s1)(t \<mapsto> copy)\<rparr>) out"
        by (rule put_in) (use p copy t in \<open>simp_all add: clone_post_def\<close>)
      then show ?thesis using False Some r cl copy by (auto simp: fd_table_clone_def)
    qed
  qed
  then show "c \<noteq> 0 \<Longrightarrow> fd_inv s' out" "c = 0 \<Longrightarrow> s' = s \<or> (\<exists>slots. tabs s src = Some slots \<and> fd_inv s' (pipe_ends (take (clone_done as slots) slots) @ out))"
    by blast+
qed

lemma update_both: "a \<noteq> b \<Longrightarrow> xs[a := p, b := q, a := r, b := t] = xs[a := r, b := t]"
  by (metis list_update_overwrite list_update_swap)

lemma sys_pipe_inv:
  assumes inv: "fd_inv s out" and ring: "rings s ring = None"
  shows "fd_inv (snd (sys_pipe tbl ring init s)) out"
proof (cases "tabs s tbl")
  case None then show ?thesis using inv by (simp add: sys_pipe_def)
next
  case (Some slots)
  note len = inv_length[OF inv Some]
  define rfd slots1 where d: "rfd = fd_alloc slots" "slots1 = slots[nat rfd := (slots ! nat rfd)\<lparr>kind := FD_KIND_PIPE\<rparr>]"
  define wfd slots2 where e: "wfd = fd_alloc slots1" "slots2 = slots1[nat wfd := (slots1 ! nat wfd)\<lparr>kind := FD_KIND_PIPE\<rparr>]"
  have cl: "fd_inv (s\<lparr>tabs := (tabs s)(tbl \<mapsto> slots[i := zero_entry])\<rparr>) out" if "i < TASK_MAX_FDS" "kind (slots ! i) = FD_KIND_NONE" for i
    by (rule set_free_slot_inv[OF inv_add_other[OF _ inv] Some]) (use that len in simp_all)
  show ?thesis
  proof (cases "rfd < 0")
    case True then show ?thesis using inv Some by (simp add: sys_pipe_def d)
  next
    case False
    then have r: "nat rfd < TASK_MAX_FDS" "kind (slots ! nat rfd) = FD_KIND_NONE" using fd_alloc_free[of slots] by (simp_all add: d)
    show ?thesis
    proof (cases "wfd < 0")
      case True
      then show ?thesis using cl[OF r] Some False
        by (simp add: sys_pipe_def Let_def d[symmetric] e[symmetric]) (simp add: d(2))
    next
      case wok: False
      then have w: "nat wfd < TASK_MAX_FDS" "kind (slots1 ! nat wfd) = FD_KIND_NONE" using fd_alloc_free[of slots1] by (simp_all add: e)
      have rw: "nat wfd \<noteq> nat rfd"
      proof
        assume "nat wfd = nat rfd"
        then show False using w(2) r(1) len by (simp add: d(2))
      qed
      have w': "kind (slots ! nat wfd) = FD_KIND_NONE" using w(2) rw by (simp add: d(2))
      let ?re = "(slots ! nat rfd)\<lparr>kind := FD_KIND_PIPE, pipe := ring, pipe_is_writer := False\<rparr>"
      let ?we = "(slots ! nat wfd)\<lparr>kind := FD_KIND_PIPE, pipe := ring, pipe_is_writer := True\<rparr>"
      show ?thesis
      proof (cases "ring = 0")
        case True
        have "fd_inv (s\<lparr>tabs := (tabs s)(tbl \<mapsto> slots[nat rfd := zero_entry, nat wfd := zero_entry])\<rparr>) out"
          using set_free_slot_inv[OF inv_add_other[OF _ cl[OF r]], of zero_entry tbl "slots[nat rfd := zero_entry]" "nat wfd"]
            w(1) w' rw len by simp
        moreover have "slots2[nat rfd := zero_entry, nat wfd := zero_entry] = slots[nat rfd := zero_entry, nat wfd := zero_entry]"
          using rw by (simp add: e(2) d(2) list_update_swap)
        ultimately show ?thesis using True Some False wok
          by (simp add: sys_pipe_def Let_def d[symmetric] e[symmetric])
      next
        case ring0: False
        let ?r = "\<lparr>ring_buf = init, head = 0, tail = 0, refcount_r = 1, refcount_w = 1\<rparr>"
        let ?s = "s\<lparr>rings := (rings s)(ring \<mapsto> ?r)\<rparr>"
        have norefs: "table_refs (tabs s) ring v + refs_in ring v out = 0" for v
        proof -
          have no: "\<not> is_ref ring v x" if "slot_ok s x" for x using that ring by (auto simp: slot_ok_def is_ref_def)
          then have "refs_in ring v out = 0" using inv by (auto simp: refs_in_def fd_inv_def filter_empty_conv)
          moreover have "refs_in ring v (the (tabs s t)) = 0" if "t \<in> dom (tabs s)" for t
            using that inv no unfolding fd_inv_def refs_in_def by (fastforce simp: filter_empty_conv)
          ultimately show ?thesis by (simp add: table_refs_def)
        qed
        have "fd_inv ?s (?re # ?we # out)"
        proof -
          have refs: "is_ref q v ?re \<longleftrightarrow> q = ring \<and> \<not> v" "is_ref q v ?we \<longleftrightarrow> q = ring \<and> v" for q v by (auto simp: is_ref_def)
          have oks: "slot_ok ?s x" if "slot_ok s x \<or> x = ?re \<or> x = ?we" for x using that ring0 by (auto simp: slot_ok_def)
          have rs: "refcount_r x = int (table_refs (tabs s) q False + refs_in q False (?re # ?we # out)) \<and>
              refcount_w x = int (table_refs (tabs s) q True + refs_in q True (?re # ?we # out)) \<and> 0 < refcount_r x + refcount_w x"
            if "rings ?s q = Some x" for q x
          proof (cases "q = ring")
            case True then show ?thesis using that norefs[of False] norefs[of True] by (auto simp: refs)
          next
            case False
            then have "rings s q = Some x" using that by simp
            from inv_ringD[OF inv this] show ?thesis using False by (simp add: refs)
          qed
          have "finite (dom (tabs s))" "\<And>t xs. tabs s t = Some xs \<Longrightarrow> length xs = TASK_MAX_FDS \<and> (\<forall>x\<in>set xs. slot_ok ?s x)"
            "\<forall>x\<in>set (?re # ?we # out). slot_ok ?s x"
            using inv oks unfolding fd_inv_def by auto
          moreover have "tabs ?s = tabs s" by simp
          ultimately show ?thesis unfolding fd_inv_def using rs by (simp only:) blast
        qed
        then have "fd_inv (?s\<lparr>tabs := (tabs ?s)(tbl \<mapsto> slots[nat rfd := ?re])\<rparr>) (?we # out)"
          by (rule set_free_slot_inv) (use Some r len in simp_all)
        then have "fd_inv (?s\<lparr>tabs := (tabs ?s)(tbl \<mapsto> slots[nat rfd := ?re])\<rparr>\<lparr>tabs :=
            (tabs (?s\<lparr>tabs := (tabs ?s)(tbl \<mapsto> slots[nat rfd := ?re])\<rparr>))(tbl \<mapsto> slots[nat rfd := ?re, nat wfd := ?we])\<rparr>) out"
          by (rule set_free_slot_inv) (use Some w(1) w' rw len in simp_all)
        then have "fd_inv (?s\<lparr>tabs := (tabs s)(tbl \<mapsto> slots[nat rfd := ?re, nat wfd := ?we])\<rparr>) out" by simp
        moreover have "slots2[nat rfd := (slots2 ! nat rfd)\<lparr>pipe := ring, pipe_is_writer := False\<rparr>,
            nat wfd := (slots2 ! nat wfd)\<lparr>pipe := ring, pipe_is_writer := True\<rparr>] = slots[nat rfd := ?re, nat wfd := ?we]"
          using rw r(1) w(1) len by (simp add: e(2) d(2) update_both)
        ultimately show ?thesis using ring0 Some False wok
          by (simp add: sys_pipe_def Let_def d[symmetric] e[symmetric])
      qed
    qed
  qed
qed

end
