(* ===== verification/Fd_Io.thy ===== *)
theory Fd_Io
  imports Fd_Facts
begin

text \<open>
  Reading, writing and seeking keep the reference counts of pipes: they change a slot only in
  fields that are not about pipes, and a ring only in its bytes and cursors.
\<close>

lemma pipe_write_counts:
  "refcount_r (snd (pipe_write nb buf written r)) = refcount_r r \<and> refcount_w (snd (pipe_write nb buf written r)) = refcount_w r"
proof (induction nb buf written r rule: pipe_write.induct)
  case (1 nb buf written r)
  have put: "refcount_r (ring_put bs r) = refcount_r r" "refcount_w (ring_put bs r) = refcount_w r" for bs
    by (simp_all add: ring_put_def)
  show ?case by (subst (1 2) pipe_write.simps) (use 1 put in \<open>auto simp: Let_def\<close>)
qed

lemma pipe_read_counts:
  "refcount_r (snd (pipe_read nb len r)) = refcount_r r" "refcount_w (snd (pipe_read nb len r)) = refcount_w r"
  by (simp_all add: pipe_read_def ring_get_def Let_def)

lemma ring_update_inv:
  assumes "fd_inv s out" "rings s p = Some r" "refcount_r r' = refcount_r r" "refcount_w r' = refcount_w r"
  shows "fd_inv (s\<lparr>rings := (rings s)(p \<mapsto> r')\<rparr>) out"
proof -
  have ok: "slot_ok (s\<lparr>rings := (rings s)(p \<mapsto> r')\<rparr>) e = slot_ok s e" for e
    using assms(2) by (auto simp: slot_ok_def)
  show ?thesis unfolding fd_inv_def
  proof (intro conjI allI impI ballI)
    fix q x assume "rings (s\<lparr>rings := (rings s)(p \<mapsto> r')\<rparr>) q = Some x"
    then obtain y where "rings s q = Some y" "refcount_r x = refcount_r y" "refcount_w x = refcount_w y"
      using assms by (auto split: if_splits)
    then show "refcount_r x = int (table_refs (tabs (s\<lparr>rings := (rings s)(p \<mapsto> r')\<rparr>)) q False + refs_in q False out)"
      "refcount_w x = int (table_refs (tabs (s\<lparr>rings := (rings s)(p \<mapsto> r')\<rparr>)) q True + refs_in q True out)"
      "0 < refcount_r x + refcount_w x"
      using inv_ringD[OF assms(1), of q y] by simp_all
  qed (use assms(1) in \<open>auto simp: fd_inv_def ok\<close>)
qed

lemma same_slot_inv:
  assumes inv: "fd_inv s out" and t: "tabs s tbl = Some slots" "i < length slots"
    and e: "kind e' = kind (slots ! i)" "kind e' \<noteq> FD_KIND_PIPE"
  shows "fd_inv (set_slot tbl i e' s) out"
proof -
  have "fd_inv s (e' # out)" by (rule inv_add_other[OF e(2) inv])
  then have "fd_inv (s\<lparr>tabs := (tabs s)(tbl \<mapsto> slots[i := e'])\<rparr>) out"
    by (rule set_free_slot_inv[OF _ t]) (use e in simp)
  then show ?thesis using t by (simp add: set_slot_def)
qed

lemma inv_bufs: "fd_inv (s\<lparr>bufs := b\<rparr>) out = fd_inv s out" and inv_events: "fd_inv (s\<lparr>events := ev\<rparr>) out = fd_inv s out"
  by (rule inv_other_fields; simp)+

lemma put_event_inv: "fd_inv (put_event on k bs s) out = fd_inv s out"
  by (simp add: put_event_def inv_events)

lemma file_store_kind: "file_store e buf bs = Some (n, e', buf') \<Longrightarrow> kind e' = kind e"
  by (auto simp: file_store_def Let_def bind_eq_Some_conv)

lemma file_write_kind: "file_write krealloc e buf bs = Some (n, e', buf') \<Longrightarrow> kind e' = kind e"
  by (auto simp: file_write_def file_write_pos_def Let_def split: if_splits dest!: file_store_kind)

lemma file_read_kind: "file_read e buf len = Some (bs, e') \<Longrightarrow> kind e' = kind e"
  by (auto simp: file_read_def Let_def split: if_splits)

lemma write_slot_inv:
  assumes inv: "fd_inv s out" and t: "tabs s tbl = Some slots" "i < length slots"
    and w: "write_slot env krealloc tbl i (slots ! i) bs written s = Some (res, s')"
  shows "fd_inv s' out"
proof (cases "kind (slots ! i)")
  case FD_KIND_BLOCKDEV
  then show ?thesis using w inv same_slot_inv[OF inv t, of "(slots ! i)\<lparr>pos := _\<rparr>"]
    by (auto simp: write_slot_def split: option.splits)
next
  case FD_KIND_FILE
  obtain n e' buf' where f: "file_write krealloc (slots ! i) (case bufs s (data (slots ! i)) of None \<Rightarrow> [] | Some b \<Rightarrow> b) bs = Some (n, e', buf')"
    and s': "s' = set_slot tbl i e' (s\<lparr>bufs := (if data e' = 0 then bufs s else (bufs s)(data (slots ! i) := None, data e' \<mapsto> buf'))\<rparr>)"
    using w FD_KIND_FILE by (auto simp: write_slot_def Let_def split: option.splits)
  show ?thesis unfolding s'
    by (rule same_slot_inv[of _ _ _ slots]) (use inv t file_write_kind[OF f] FD_KIND_FILE in \<open>simp_all add: inv_bufs\<close>)
next
  case FD_KIND_PIPE
  show ?thesis
  proof (cases "\<not> pipe_is_writer (slots ! i) \<or> pipe (slots ! i) = 0")
    case True
    then show ?thesis using w FD_KIND_PIPE inv by (simp add: write_slot_def)
  next
    case False
    then obtain r where r: "rings s (pipe (slots ! i)) = Some r"
      using w FD_KIND_PIPE by (auto simp: write_slot_def split: option.splits)
    then have "s' = s\<lparr>rings := (rings s)(pipe (slots ! i) \<mapsto> snd (pipe_write (flags (slots ! i) AND FD_FLAG_NONBLOCK \<noteq> 0) bs written r))\<rparr>"
      using w FD_KIND_PIPE False by (auto simp: write_slot_def case_prod_beta Let_def)
    then show ?thesis using ring_update_inv[OF inv r] pipe_write_counts by simp
  qed
qed (use w inv in \<open>auto simp: write_slot_def put_event_inv\<close>)

lemma read_slot_inv:
  assumes inv: "fd_inv s out" and t: "tabs s tbl = Some slots" "i < length slots"
    and w: "read_slot env tbl i (slots ! i) len s = Some (res, s')"
  shows "fd_inv s' out"
proof (cases "kind (slots ! i)")
  case FD_KIND_BLOCKDEV
  then show ?thesis using w inv same_slot_inv[OF inv t, of "(slots ! i)\<lparr>pos := _\<rparr>"]
    by (auto simp: read_slot_def split: option.splits)
next
  case FD_KIND_FILE
  show ?thesis
  proof (cases "lazy (slots ! i)")
    case True
    then show ?thesis using w FD_KIND_FILE inv same_slot_inv[OF inv t, of "(slots ! i)\<lparr>pos := _\<rparr>"]
      by (auto simp: read_slot_def split: option.splits)
  next
    case False
    then obtain bs' e' where f: "file_read (slots ! i) (case bufs s (data (slots ! i)) of None \<Rightarrow> [] | Some b \<Rightarrow> b) len = Some (bs', e')"
      and s': "s' = set_slot tbl i e' s"
      using w FD_KIND_FILE by (auto simp: read_slot_def split: option.splits)
    show ?thesis unfolding s'
      by (rule same_slot_inv[OF inv t]) (use file_read_kind[OF f] FD_KIND_FILE in simp_all)
  qed
next
  case FD_KIND_PIPE
  show ?thesis
  proof (cases "pipe_is_writer (slots ! i) \<or> pipe (slots ! i) = 0")
    case True
    then show ?thesis using w FD_KIND_PIPE inv by (simp add: read_slot_def)
  next
    case False
    then obtain r where r: "rings s (pipe (slots ! i)) = Some r"
      using w FD_KIND_PIPE by (auto simp: read_slot_def split: option.splits)
    then have "s' = s\<lparr>rings := (rings s)(pipe (slots ! i) \<mapsto> snd (pipe_read (flags (slots ! i) AND FD_FLAG_NONBLOCK \<noteq> 0) len r))\<rparr>"
      using w FD_KIND_PIPE False by (auto simp: read_slot_def case_prod_beta Let_def)
    then show ?thesis using ring_update_inv[OF inv r] pipe_read_counts by simp
  qed
qed (use w inv in \<open>auto simp: read_slot_def case_prod_beta Let_def split: if_splits\<close>)

lemma fd_slot:
  assumes "fd_inv s out" "tabs s tbl = Some slots" "fd_get slots fd = Some i"
  shows "i < length slots"
  using fd_get_Some[OF assms(3)] inv_length[OF assms(1,2)] by simp

lemma syscall_fd_write_inv:
  assumes inv: "fd_inv s out" and w: "syscall_fd_write env krealloc tbl fd bs written s = Some (res, s')"
  shows "fd_inv s' out"
proof (cases "tabs s tbl")
  case None
  then show ?thesis using w inv by (simp add: syscall_fd_write_def)
next
  case (Some slots)
  show ?thesis
  proof (cases "fd_get slots fd")
    case None
    then show ?thesis using w inv Some by (simp add: syscall_fd_write_def)
  next
    case i: (Some i)
    then show ?thesis using w Some write_slot_inv[OF inv Some fd_slot[OF inv Some i]] by (simp add: syscall_fd_write_def)
  qed
qed

lemma sys_read_inv:
  assumes inv: "fd_inv s out" and w: "sys_read env tbl fd len s = Some (res, s')"
  shows "fd_inv s' out"
proof (cases "tabs s tbl")
  case None
  then show ?thesis using w inv by (simp add: sys_read_def split: if_splits)
next
  case (Some slots)
  show ?thesis
  proof (cases "fd_get slots fd")
    case None
    then show ?thesis using w inv Some by (simp add: sys_read_def split: if_splits)
  next
    case i: (Some i)
    then show ?thesis using w inv Some read_slot_inv[OF inv Some fd_slot[OF inv Some i]]
      by (auto simp: sys_read_def split: if_splits)
  qed
qed

lemma sys_lseek_fd_inv:
  assumes inv: "fd_inv s out"
  shows "fd_inv (snd (sys_lseek_fd tbl fd offset whence s)) out"
proof (cases "\<exists>slots i p e. tabs s tbl = Some slots \<and> fd_get slots fd = Some i \<and> sys_lseek (slots ! i) offset whence = Inr (p, e)")
  case True
  then obtain slots i p e where t: "tabs s tbl = Some slots" "fd_get slots fd = Some i" "sys_lseek (slots ! i) offset whence = Inr (p, e)"
    by blast
  then have "kind e = kind (slots ! i)" "kind e \<noteq> FD_KIND_PIPE"
    by (auto simp: sys_lseek_def split: if_splits option.splits)
  then show ?thesis using same_slot_inv[OF inv t(1) fd_slot[OF inv t(1,2)]] t by (simp add: sys_lseek_fd_def)
next
  case False
  then show ?thesis using inv by (auto simp: sys_lseek_fd_def split: option.splits sum.splits prod.splits)
qed

lemma sys_writev_inv:
  "fd_inv s out \<Longrightarrow> sys_writev env krealloc tbl fd iov tot written s = Some (res, s') \<Longrightarrow> fd_inv s' out"
proof (induction env krealloc tbl fd iov tot written s rule: sys_writev.induct)
  case (2 env krealloc tbl fd bs iov tot written s)
  show ?case
  proof (cases "bs = []")
    case True
    then show ?thesis using 2 by simp
  next
    case False
    then obtain n s1 where w: "syscall_fd_write env krealloc tbl fd bs written s = Some (n, s1)"
      using 2(4) by (auto split: option.splits)
    note i = syscall_fd_write_inv[OF 2(3) w]
    show ?thesis using 2(2)[OF False w] 2(4) False w i
      by (auto split: pipe_result.splits if_splits)
  qed
qed simp

end
