(* ===== verification/Fd_Properties.thy ===== *)
theory Fd_Properties
  imports Fd_Io
begin

text \<open>The properties of pipes, of descriptor tables and of buffered files.\<close>

section \<open>Pipes are queues\<close>

text \<open>How many bytes of its buffer a write has handed over when it returns or yields.\<close>

fun accepted :: "nat \<Rightarrow> pipe_result \<Rightarrow> nat" where
  "accepted written (Return n bs) = nat n - written"
| "accepted written (Wait n) = n - written"

text \<open>
  A run on one ring: reads, writes (new ones, and those that go on after a yield), and changes of the
  number of ends; \<open>sent\<close> and \<open>got\<close> are the bytes accepted from writers and returned to readers.
\<close>

inductive pipe_run :: "pipe_ring \<Rightarrow> u8 list \<Rightarrow> u8 list \<Rightarrow> bool" where
  create: "length b = PIPE_RING_CAP \<Longrightarrow>
     pipe_run \<lparr>ring_buf = b, head = 0, tail = 0, refcount_r = 1, refcount_w = 1\<rparr> [] []"
| reads: "pipe_run r sent got \<Longrightarrow> 0 < len \<Longrightarrow> pipe_read nb len r = (Return n bs, r') \<Longrightarrow> pipe_run r' sent (got @ bs)"
| writes: "pipe_run r sent got \<Longrightarrow> written \<le> length buf \<Longrightarrow> pipe_write nb buf written r = (res, r') \<Longrightarrow>
     pipe_run r' (sent @ take (accepted written res) (drop written buf)) got"
| ends: "pipe_run r sent got \<Longrightarrow> pipe_run (r\<lparr>refcount_r := a, refcount_w := b\<rparr>) sent got"

lemma read_step:
  assumes "ring_ok r" "0 < len" "pipe_read nb len r = (Return n bs, r')"
  shows "ring_ok r' \<and> contents r = bs @ contents r'"
proof (cases "contents r = []")
  case True
  then show ?thesis using assms pipe_read_result[OF assms(1,2), of nb] by (auto split: if_splits)
next
  case False
  let ?k = "min (unat len) (length (contents r))"
  have "bs = take (unat len) (contents r)" "r' = snd (ring_get ?k r)"
    using assms False pipe_read_result[OF assms(1,2), of nb] by auto
  then show ?thesis using ring_get_contents[OF assms(1), of ?k] by (simp add: min_def)
qed

lemma write_step:
  assumes "ring_ok r" "written \<le> length buf" "pipe_write nb buf written r = (res, r')"
  shows "ring_ok r' \<and> contents r' = contents r @ take (accepted written res) (drop written buf)"
proof (cases "refcount_r r = 0")
  case True
  then show ?thesis using assms by (subst (asm) pipe_write.simps) (auto split: if_splits)
next
  case False
  define k where "k = min (length buf - written) (unat (space r))"
  note w = pipe_write_result[OF assms(1) False assms(2), of nb, folded k_def]
  have "accepted written res = k" using w assms(2,3) by (auto split: if_splits)
  then show ?thesis using w assms(3) by auto
qed

text \<open>
  C12. A pipe is a queue of bytes of bounded length. In any run of reads, writes, resumed
  writes and changes of the number of ends, also when the 32-bit cursors wrap around, the bytes
  accepted are the bytes returned followed by those in the ring, of which there are at most
  4096: nothing is lost, duplicated or reordered. A read of the ring then returns the oldest
  bytes if there are any; on an empty ring it reports the end of file if there is no writer, and
  otherwise waits, or fails with \<open>EAGAIN\<close>. A write with a reader present accepts as much as
  there is room for and returns when all is written, or waits, or reports what it has written.
\<close>

theorem pipe_fifo:
  assumes "pipe_run r sent got"
  shows "sent = got @ contents r \<and> length (contents r) \<le> PIPE_RING_CAP \<and>
    (\<forall>nb len. 0 < len \<longrightarrow>
       fst (pipe_read nb len r) =
         (if contents r \<noteq> [] then Return (int (min (unat len) (length (contents r)))) (take (unat len) (contents r))
          else if refcount_w r = 0 then Return 0 [] else if nb then Return (- 11) [] else Wait 0)) \<and>
    (\<forall>nb buf. refcount_r r \<noteq> 0 \<longrightarrow>
       (let k = min (length buf) (PIPE_RING_CAP - length (contents r)) in
        fst (pipe_write nb buf 0 r) =
          (if k = length buf then Return (int k) [] else if nb then Return (if 0 < k then int k else - 11) [] else Wait k)))"
proof -
  have inv: "ring_ok r \<and> sent = got @ contents r" using assms
  proof (induction rule: pipe_run.induct)
    case (create b) then show ?case by (simp add: ring_ok_def inflight_def contents_def)
  next
    case (reads r sent got len nb n bs r') then show ?case using read_step by fastforce
  next
    case (writes r sent got written buf nb res r') then show ?case using write_step by fastforce
  next
    case (ends r sent got a b) then show ?case by (simp add: ring_ok_def inflight_def contents_def)
  qed
  then have ok: "ring_ok r" by simp
  have "fst (pipe_write nb buf 0 r) =
      (if k = length buf then Return (int k) [] else if nb then Return (if 0 < k then int k else - 11) [] else Wait k)"
    if "refcount_r r \<noteq> 0" "k = min (length buf) (PIPE_RING_CAP - length (contents r))" for nb buf k
    using pipe_write_result[OF ok that(1), of 0 buf nb] that(2) space_unat[OF ok] by (auto split: if_splits)
  then show ?thesis using inv pipe_read_result[OF ok] by (simp add: ring_ok_def Let_def)
qed

theorem pipe_fifo_witness:
  "\<exists>r r'. pipe_write False [1, 2, 3] 0 \<lparr>ring_buf = replicate PIPE_RING_CAP 0, head = 0, tail = 0, refcount_r = 1, refcount_w = 1\<rparr> = (Return 3 [], r) \<and>
     pipe_read False 2 r = (Return 2 [1, 2], r') \<and> contents r' = [3]"
proof -
  let ?r0 = "\<lparr>ring_buf = replicate PIPE_RING_CAP 0, head = 0, tail = 0, refcount_r = 1, refcount_w = 1\<rparr> :: pipe_ring"
  have r0: "pipe_run ?r0 [] []" by (rule create) simp
  have c0: "contents ?r0 = []" by (simp add: contents_def inflight_def)
  obtain r where r: "pipe_write False [1, 2, 3] 0 ?r0 = (Return 3 [], r)"
    using pipe_fifo[OF r0] c0 by (cases "pipe_write False [1, 2, 3] 0 ?r0") (auto simp: Let_def dest!: spec[of _ False] spec[of _ "[1, 2, 3]"])
  have r1: "pipe_run r [1, 2, 3] []" using writes[OF r0 _ r] by simp
  have c1: "contents r = [1, 2, 3]" using pipe_fifo[OF r1] by simp
  obtain r' where r': "pipe_read False 2 r = (Return 2 [1, 2], r')"
    using pipe_fifo[OF r1] c1 by (cases "pipe_read False 2 r") (auto dest!: spec[of _ False] spec[of _ 2])
  have "pipe_run r' [1, 2, 3] [1, 2]" using reads[OF r1 _ r'] by simp
  then have "contents r' = [3]" using pipe_fifo by fastforce
  then show ?thesis using r r' by blast
qed

section \<open>Reference counts\<close>

text \<open>
  The system from its start, with the pipe ends that a failed copy has counted and not given
  back. New objects get addresses that are not in use.
\<close>

inductive fd_run :: "fdsys \<Rightarrow> fd_table \<Rightarrow> bool" where
  boot: "tabs s = Map.empty \<Longrightarrow> rings s = Map.empty \<Longrightarrow> fd_run s []"
| create_table: "fd_run s lost \<Longrightarrow> tabs s t = None \<Longrightarrow> fd_run (snd (fd_table_create_default t s)) lost"
| destroy_table: "fd_run s lost \<Longrightarrow> fd_run (fd_table_destroy env t s) lost"
| clone: "fd_run s lost \<Longrightarrow> tabs s t = None \<Longrightarrow> fd_table_clone as t src s = (c, s') \<Longrightarrow> c \<noteq> 0 \<Longrightarrow> fd_run s' lost"
| clone_fails: "fd_run s lost \<Longrightarrow> tabs s t = None \<Longrightarrow> t \<noteq> 0 \<Longrightarrow> tabs s src = Some slots \<Longrightarrow> fd_table_clone as t src s = (0, s') \<Longrightarrow>
     fd_run s' (pipe_ends (take (clone_done as slots) slots) @ lost)"
| close: "fd_run s lost \<Longrightarrow> fd_run (snd (fd_close env t fd s)) lost"
| pipe: "fd_run s lost \<Longrightarrow> rings s ring = None \<Longrightarrow> fd_run (snd (sys_pipe t ring init s)) lost"
| dup: "fd_run s lost \<Longrightarrow> fd_run (snd (sys_dup t oldfd s)) lost"
| dup2: "fd_run s lost \<Longrightarrow> fd_run (snd (sys_dup2 env t oldfd newfd s)) lost"
| open_fd: "fd_run s lost \<Longrightarrow> fd_run (snd (sys_open env kmalloc t p fl s)) lost"
| read_fd: "fd_run s lost \<Longrightarrow> sys_read env t fd len s = Some (res, s') \<Longrightarrow> fd_run s' lost"
| write_fd: "fd_run s lost \<Longrightarrow> syscall_fd_write env krealloc t fd bs written s = Some (res, s') \<Longrightarrow> fd_run s' lost"
| writev_fd: "fd_run s lost \<Longrightarrow> sys_writev env krealloc t fd iov tot written s = Some (res', s') \<Longrightarrow> fd_run s' lost"
| seek_fd: "fd_run s lost \<Longrightarrow> fd_run (snd (sys_lseek_fd t fd offset whence s)) lost"

lemma fd_run_inv: "fd_run s lost \<Longrightarrow> fd_inv s lost"
proof (induction rule: fd_run.induct)
  case (boot s) then show ?case by (simp add: fd_inv_def)
next
  case (clone s lost t as src c s') then show ?case using fd_table_clone_inv(1) by blast
next
  case (clone_fails s lost t src slots as s')
  then have "clone_slots as [] slots s = (None, s')"
    by (auto simp: fd_table_clone_def split: option.splits prod.splits)
  moreover have "\<forall>e\<in>set slots. slot_ok s e" using clone_fails by (auto simp: fd_inv_def)
  ultimately show ?case using clone_slots_post[of s "[]" lost slots as] clone_fails by (simp add: clone_post_def)
next
  case (read_fd s lost env t fd len res s') then show ?case using sys_read_inv by blast
next
  case (write_fd s lost env krealloc t fd bs written res s') then show ?case using syscall_fd_write_inv by blast
next
  case (writev_fd s lost env krealloc t fd iov tot written res' s') then show ?case using sys_writev_inv by blast
qed (simp_all add: create_default_inv fd_table_destroy_inv fd_close_inv sys_pipe_inv sys_dup_inv sys_dup2_inv sys_open_inv sys_lseek_fd_inv)

lemma table_refs_pos: "0 < table_refs m p w \<Longrightarrow> \<exists>t slots e. m t = Some slots \<and> e \<in> set slots \<and> is_ref p w e"
proof -
  assume "0 < table_refs m p w"
  then obtain t where "t \<in> dom m" "refs_in p w (the (m t)) \<noteq> 0" unfolding table_refs_def by (metis gr_implies_not0 sum.neutral)
  then obtain slots e where "m t = Some slots" "e \<in> set slots" "is_ref p w e" by (auto simp: refs_in_def filter_empty_conv)
  then show ?thesis by blast
qed

lemma lost_pipes: "fd_run s lost \<Longrightarrow> \<forall>e\<in>set lost. kind e = FD_KIND_PIPE"
  by (induction rule: fd_run.induct) (auto simp: pipe_ends_def)

text \<open>
  C7. Pipe reference counts are exact as long as no copy of a table runs out of memory. Take any sequence
  of table creations, copies, closes, duplications, opens, reads, writes, seeks, pipe creations and tear-downs.
  Every descriptor of a pipe refers to a ring that is allocated. Let \<open>lost\<close> be the pipe ends that
  failed copies of a table had counted when they gave up: \<open>fd_table_clone\<close> does not give those back.
  The two counters of each ring are the numbers of its reading and writing descriptors in all tables plus
  those of its ends in \<open>lost\<close>, and one of them is positive. So when no copy has failed (\<open>lost = []\<close>) the counters are the
  numbers of descriptors, and a ring without a descriptor has been freed; a ring with an end in \<open>lost\<close> is never freed.
\<close>

theorem pipe_refcounts_exact:
  assumes "fd_run s lost"
  shows "(\<forall>t slots e. tabs s t = Some slots \<and> e \<in> set slots \<and> kind e = FD_KIND_PIPE \<longrightarrow> rings s (pipe e) \<noteq> None) \<and>
    (\<forall>p r. rings s p = Some r \<longrightarrow>
       refcount_r r = int (table_refs (tabs s) p False + refs_in p False lost) \<and>
       refcount_w r = int (table_refs (tabs s) p True + refs_in p True lost) \<and> 0 < refcount_r r + refcount_w r) \<and>
    (lost = [] \<longrightarrow> (\<forall>p. if table_refs (tabs s) p False + table_refs (tabs s) p True = 0 then rings s p = None
       else \<exists>r. rings s p = Some r \<and> refcount_r r = int (table_refs (tabs s) p False) \<and>
              refcount_w r = int (table_refs (tabs s) p True))) \<and>
    (\<forall>e\<in>set lost. rings s (pipe e) \<noteq> None)"
proof (intro conjI)
  note inv = fd_run_inv[OF assms]
  show live: "\<forall>t slots e. tabs s t = Some slots \<and> e \<in> set slots \<and> kind e = FD_KIND_PIPE \<longrightarrow> rings s (pipe e) \<noteq> None"
    using inv unfolding fd_inv_def slot_ok_def by blast
  show "\<forall>p r. rings s p = Some r \<longrightarrow>
       refcount_r r = int (table_refs (tabs s) p False + refs_in p False lost) \<and>
       refcount_w r = int (table_refs (tabs s) p True + refs_in p True lost) \<and> 0 < refcount_r r + refcount_w r"
    using inv_ringD[OF inv] by blast
  show "lost = [] \<longrightarrow> (\<forall>p. if table_refs (tabs s) p False + table_refs (tabs s) p True = 0 then rings s p = None
       else \<exists>r. rings s p = Some r \<and> refcount_r r = int (table_refs (tabs s) p False) \<and>
              refcount_w r = int (table_refs (tabs s) p True))"
  proof (intro impI allI)
    fix p assume "lost = []"
    with inv have inv0: "fd_inv s []" by simp
    have "rings s p \<noteq> None" if "0 < table_refs (tabs s) p w" for w
      using table_refs_pos[OF that] live by (auto simp: is_ref_def)
    then show "if table_refs (tabs s) p False + table_refs (tabs s) p True = 0 then rings s p = None
       else \<exists>r. rings s p = Some r \<and> refcount_r r = int (table_refs (tabs s) p False) \<and>
              refcount_w r = int (table_refs (tabs s) p True)"
      using inv_ringD[OF inv0, of p] by (cases "rings s p") auto
  qed
  show "\<forall>e\<in>set lost. rings s (pipe e) \<noteq> None"
    using inv lost_pipes[OF assms] unfolding fd_inv_def slot_ok_def by blast
qed

definition empty_fds :: fdsys where
  "empty_fds = \<lparr>tabs = Map.empty, bufs = Map.empty, rings = Map.empty, events = []\<rparr>"

theorem pipe_refcounts_exact_witness:
  "\<exists>s r. s = snd (sys_dup 0x900000 4 (snd (sys_pipe 0x900000 0x910000 [] (snd (fd_table_create_default 0x900000 empty_fds))))) \<and>
     rings s 0x910000 = Some r \<and> refcount_r r = 1 \<and> refcount_w r = 2 \<and> table_refs (tabs s) 0x910000 True = 2"
proof -
  let ?s1 = "snd (fd_table_create_default 0x900000 empty_fds)"
  let ?s2 = "snd (sys_pipe 0x900000 0x910000 [] ?s1)"
  let ?s = "snd (sys_dup 0x900000 4 ?s2)"
  have "fd_run ?s1 []" by (intro create_table boot) (simp_all add: empty_fds_def)
  moreover have "rings ?s1 0x910000 = None" by (simp add: fd_table_create_default_def empty_fds_def)
  ultimately have run: "fd_run ?s []" by (intro dup pipe)
  have "map_option (\<lambda>r. (refcount_r r, refcount_w r)) (rings ?s 0x910000) = Some (1, 2)" by code_simp
  then obtain r where r: "rings ?s 0x910000 = Some r" "refcount_r r = 1" "refcount_w r = 2" by auto
  have "refcount_w r = int (table_refs (tabs ?s) 0x910000 True + refs_in 0x910000 True [])"
    using pipe_refcounts_exact[OF run] r(1) by blast
  then show ?thesis using r by auto
qed

section \<open>Buffered files\<close>

definition file_ok :: "fd_entry \<Rightarrow> u8 list \<Rightarrow> bool" where
  "file_ok e buf \<longleftrightarrow> length buf = unat (capacity e) \<and> unat (fsize e) \<le> unat (capacity e) \<and> unat (capacity e) \<le> SYSCALL_FILE_MAX"

text \<open>The bytes of the file, and what a write at a position makes of them: a gap is filled with zeros.\<close>

definition text_of :: "fd_entry \<Rightarrow> u8 list \<Rightarrow> u8 list" where "text_of e buf = take (unat (fsize e)) buf"

definition overwrite :: "u8 list \<Rightarrow> nat \<Rightarrow> u8 list \<Rightarrow> u8 list" where
  "overwrite c p bs = take p (c @ replicate (p - length c) 0) @ bs @ drop (p + length bs) c"

lemma grow_cap_bounds: "0 < c \<Longrightarrow> want \<le> grow_cap want c \<and> c \<le> grow_cap want c"
proof (induction want c rule: grow_cap.induct)
  case (1 want c)
  then show ?case by (subst (1 2) grow_cap.simps) auto
qed

lemma overwrite_take:
  assumes "p \<le> n" "n \<le> length b" "p + length bs \<le> length b"
  shows "take (max n (p + length bs)) (take p b @ bs @ drop (p + length bs) b) = overwrite (take n b) p bs"
  using assms by (intro nth_equalityI) (auto simp: overwrite_def nth_append)

lemma overwrite_gap:
  assumes "n < p" "n \<le> length b" "p + length bs \<le> length b"
  shows "take (p + length bs) (take p (take n b @ replicate (p - n) 0 @ drop p b) @ bs @ drop (p + length bs) (take n b @ replicate (p - n) 0 @ drop p b)) =
    overwrite (take n b) p bs"
  using assms by (intro nth_equalityI) (auto simp: overwrite_def nth_append)

lemma file_store_result:
  assumes ok: "file_ok e buf" and fit: "unat (pos e) + length bs \<le> length buf"
  shows "\<exists>e' buf'. file_store e buf bs = Some (int (length bs), e', buf') \<and> file_ok e' buf' \<and>
    text_of e' buf' = overwrite (text_of e buf) (unat (pos e)) bs \<and> unat (pos e') = unat (pos e) + length bs \<and> dirty e'"
proof -
  define p n where d: "p = unat (pos e)" "n = unat (fsize e)"
  have cap: "n \<le> length buf" "length buf \<le> SYSCALL_FILE_MAX" "length buf = unat (capacity e)" "p + length bs \<le> length buf"
    using ok fit by (simp_all add: file_ok_def d)
  define b2 where "b2 = (if n < p then take n buf @ replicate (p - n) 0 @ drop p buf else buf)"
  define b3 where "b3 = take p b2 @ bs @ drop (p + length bs) b2"
  have l2: "length b2 = length buf" using cap by (simp add: b2_def)
  have l3: "length b3 = length buf" using cap l2 by (simp add: b3_def)
  have put2: "(if pos e > fsize e then put_at buf (unat (fsize e)) (replicate (unat (pos e) - unat (fsize e)) 0) else Some buf) = Some b2"
    using cap by (auto simp: put_at_def b2_def d word_less_nat_alt)
  have put3: "put_at b2 (unat (pos e)) bs = Some b3" using cap l2 by (simp add: put_at_def b3_def d)
  define q where "q = pos e + of_nat (length bs)"
  have uq: "unat q = p + length bs" using cap by (simp add: q_def d unat_word_ariths unat_of_nat)
  define e' where "e' = e\<lparr>pos := q, fsize := (if q > fsize e then q else fsize e), dirty := True\<rparr>"
  have uf: "unat (fsize e') = max n (p + length bs)" using uq by (auto simp: e'_def d word_less_nat_alt max_def)
  have "file_store e buf bs = Some (int (length bs), e', b3)"
    unfolding file_store_def put2 by (simp add: put3 Let_def e'_def q_def)
  moreover have "text_of e' b3 = overwrite (text_of e buf) p bs"
  proof (cases "n < p")
    case True
    then show ?thesis using overwrite_gap[OF True cap(1,4)] uf by (simp add: text_of_def b3_def b2_def d max_def)
  next
    case False
    then show ?thesis using overwrite_take[of p n buf bs] cap uf by (simp add: text_of_def b3_def b2_def d)
  qed
  moreover have "file_ok e' b3" using l3 cap uf by (simp add: file_ok_def e'_def)
  ultimately show ?thesis using uq by (intro exI[of _ e'] exI[of _ b3]) (simp add: e'_def d)
qed

lemma file_new_cap_bounds:
  assumes "want \<le> SYSCALL_FILE_MAX" "unat (capacity e) \<le> SYSCALL_FILE_MAX"
  shows "want \<le> file_new_cap e want" "unat (capacity e) \<le> file_new_cap e want" "file_new_cap e want \<le> SYSCALL_FILE_MAX"
proof -
  have c0: "0 < (if capacity e \<noteq> 0 then unat (capacity e) else SYSCALL_FILE_INITIAL)" by (auto simp: unat_gt_0)
  show "want \<le> file_new_cap e want" "unat (capacity e) \<le> file_new_cap e want" "file_new_cap e want \<le> SYSCALL_FILE_MAX"
    using grow_cap_bounds[OF c0, of want] assms by (auto simp: file_new_cap_def Let_def split: if_splits)
qed

lemma file_write_pos_result:
  assumes ok: "file_ok e buf" and fit: "unat (pos e) + length bs \<le> SYSCALL_FILE_MAX" and mem: "\<forall>n. krealloc n \<noteq> 0"
  shows "\<exists>e' buf'. file_write_pos krealloc e buf bs = Some (int (length bs), e', buf') \<and> file_ok e' buf' \<and>
    text_of e' buf' = overwrite (text_of e buf) (unat (pos e)) bs \<and> unat (pos e') = unat (pos e) + length bs \<and> dirty e'"
proof (cases "unat (pos e) + length bs \<le> unat (capacity e)")
  case True
  then have "file_write_pos krealloc e buf bs = file_store e buf bs" using fit by (simp add: file_write_pos_def Let_def)
  then show ?thesis using file_store_result[OF ok] True ok by (simp add: file_ok_def)
next
  case False
  define new where "new = file_new_cap e (unat (pos e) + length bs)"
  define e1 buf1 where eb: "e1 = e\<lparr>data := krealloc new, capacity := of_nat new\<rparr>" "buf1 = buf @ replicate (new - unat (capacity e)) 0"
  have cap: "length buf = unat (capacity e)" "unat (fsize e) \<le> unat (capacity e)" "unat (capacity e) \<le> SYSCALL_FILE_MAX"
    using ok by (simp_all add: file_ok_def)
  note b = file_new_cap_bounds[OF fit cap(3), folded new_def]
  have "file_write_pos krealloc e buf bs = file_store e1 buf1 bs"
    using False fit mem by (simp add: file_write_pos_def Let_def eb new_def)
  moreover have "file_ok e1 buf1" using b cap by (simp add: file_ok_def eb unat_of_nat)
  moreover have "unat (pos e1) + length bs \<le> length buf1" using b cap by (simp add: eb)
  moreover have "text_of e1 buf1 = text_of e buf" using cap by (simp add: text_of_def eb)
  moreover have "pos e1 = pos e" by (simp add: eb)
  ultimately show ?thesis using file_store_result[of e1 buf1 bs] by simp
qed

text \<open>
  C25. Reading and writing a buffered file act on its bytes. With the slot's sizes in order, a
  write to a writable file that stays within 8 MiB and finds memory succeeds: it puts the bytes
  at the file position (at the end in append mode), fills a gap between the end of the
  file and the position with zeros, keeps the rest, advances the position, marks the file for
  flushing and keeps the sizes in order; without write access, beyond 8 MiB, or when the buffer has to grow
  and there is no memory, it fails and changes no byte. A read at a position inside the file returns
  the bytes from there to the end of the file or of the request. Neither leaves the buffer.
\<close>

theorem file_read_write:
  assumes ok: "file_ok e buf"
  shows "(writable e \<and> unat (if append_mode e then fsize e else pos e) + length bs \<le> SYSCALL_FILE_MAX \<and> (\<forall>n. krealloc n \<noteq> 0) \<longrightarrow>
      (\<exists>e' buf'. file_write krealloc e buf bs = Some (int (length bs), e', buf') \<and> file_ok e' buf' \<and> dirty e' \<and>
         text_of e' buf' = overwrite (text_of e buf) (unat (if append_mode e then fsize e else pos e)) bs \<and>
         unat (pos e') = unat (if append_mode e then fsize e else pos e) + length bs)) \<and>
    (\<not> writable e \<or> SYSCALL_FILE_MAX < unat (if append_mode e then fsize e else pos e) + length bs \<or>
      length buf < unat (if append_mode e then fsize e else pos e) + length bs \<and> (\<forall>n. krealloc n = 0) \<longrightarrow>
      (\<exists>e'. file_write krealloc e buf bs = Some (- 1, e', buf) \<and> file_ok e' buf \<and> text_of e' buf = text_of e buf)) \<and>
    (unat (pos e) \<le> unat (fsize e) \<longrightarrow>
      (\<exists>e'. file_read e buf len = Some (take (unat len) (drop (unat (pos e)) (text_of e buf)), e') \<and>
         unat (pos e') = min (unat (fsize e)) (unat (pos e) + unat len) \<and> file_ok e' buf \<and> text_of e' buf = text_of e buf))"
proof (intro conjI impI)
  assume a: "writable e \<and> unat (if append_mode e then fsize e else pos e) + length bs \<le> SYSCALL_FILE_MAX \<and> (\<forall>n. krealloc n \<noteq> 0)"
  define e0 where "e0 = (if append_mode e then e\<lparr>pos := fsize e\<rparr> else e)"
  have o: "file_ok e0 buf" "text_of e0 buf = text_of e buf" "pos e0 = (if append_mode e then fsize e else pos e)"
    using ok by (simp_all add: file_ok_def text_of_def e0_def)
  have "file_write krealloc e buf bs = file_write_pos krealloc e0 buf bs" using a by (simp add: file_write_def e0_def)
  then show "\<exists>e' buf'. file_write krealloc e buf bs = Some (int (length bs), e', buf') \<and> file_ok e' buf' \<and> dirty e' \<and>
         text_of e' buf' = overwrite (text_of e buf) (unat (if append_mode e then fsize e else pos e)) bs \<and>
         unat (pos e') = unat (if append_mode e then fsize e else pos e) + length bs"
    using file_write_pos_result[OF o(1), of bs krealloc] a o by auto
next
  assume "\<not> writable e \<or> SYSCALL_FILE_MAX < unat (if append_mode e then fsize e else pos e) + length bs \<or>
      length buf < unat (if append_mode e then fsize e else pos e) + length bs \<and> (\<forall>n. krealloc n = 0)"
  then show "\<exists>e'. file_write krealloc e buf bs = Some (- 1, e', buf) \<and> file_ok e' buf \<and> text_of e' buf = text_of e buf"
    using ok by (intro exI[of _ "if \<not> writable e then e else if append_mode e then e\<lparr>pos := fsize e\<rparr> else e"])
      (auto simp: file_write_def file_write_pos_def Let_def file_ok_def text_of_def)
next
  assume p: "unat (pos e) \<le> unat (fsize e)"
  define avail where "avail = fsize e - pos e"
  have ua: "unat avail = unat (fsize e) - unat (pos e)" using p by (simp add: avail_def unat_sub word_le_nat_alt)
  define n where "n = (if len < avail then len else avail)"
  have un: "unat n = min (unat len) (unat (fsize e) - unat (pos e))" by (auto simp: n_def ua word_less_nat_alt)
  have le: "unat (pos e) + unat n \<le> unat (fsize e)" "unat (fsize e) \<le> length buf" using un p ok by (auto simp: file_ok_def)
  have upos: "unat (pos e + n) = min (unat (fsize e)) (unat (pos e) + unat len)"
  proof -
    have "unat (pos e) + unat n < 2 ^ 32" using le ok by (simp add: file_ok_def)
    then have "unat (pos e + n) = unat (pos e) + unat n" by (simp add: unat_word_ariths)
    then show ?thesis using un p by auto
  qed
  have bytes: "take (unat n) (drop (unat (pos e)) buf) = take (unat len) (drop (unat (pos e)) (text_of e buf))"
    using un p by (simp add: text_of_def drop_take min.commute)
  show "\<exists>e'. file_read e buf len = Some (take (unat len) (drop (unat (pos e)) (text_of e buf)), e') \<and>
         unat (pos e') = min (unat (fsize e)) (unat (pos e) + unat len) \<and> file_ok e' buf \<and> text_of e' buf = text_of e buf"
  proof (cases "n = 0")
    case True
    then show ?thesis using bytes upos ok by (intro exI[of _ e]) (simp add: file_read_def Let_def avail_def[symmetric] n_def[symmetric])
  next
    case False
    then show ?thesis using bytes upos ok le
      by (intro exI[of _ "e\<lparr>pos := pos e + n\<rparr>"])
        (simp add: file_read_def Let_def avail_def[symmetric] n_def[symmetric] file_ok_def text_of_def)
  qed
qed

definition greeting_file :: fd_entry where
  "greeting_file = zero_entry\<lparr>kind := FD_KIND_FILE, data := 0x900000, fsize := 2, capacity := 4, pos := 3, writable := True\<rparr>"

theorem file_read_write_witness:
  "file_ok greeting_file [104, 105, 9, 9] \<and>
   (\<exists>e' buf'. file_write (\<lambda>_. 0x910000) greeting_file [104, 105, 9, 9] [33] = Some (1, e', buf') \<and>
      text_of e' buf' = [104, 105, 0, 33])"
proof -
  have ok: "file_ok greeting_file [104, 105, 9, 9]" by (simp add: file_ok_def greeting_file_def)
  show ?thesis
    using ok file_read_write[OF ok, of "[33]" "\<lambda>_. 0x910000" 0]
    by (auto simp: greeting_file_def zero_entry_def text_of_def overwrite_def)
qed

text \<open>
  A read beyond the end of the file leaves the buffer. \<open>SYS_LSEEK\<close> may put the position of a
  writable file past its end; the number of bytes available is then computed as a negative
  number and taken as a large unsigned one, so that a read that reaches past the capacity copies
  kernel memory after the buffer to the caller.
\<close>

theorem read_past_end_leaves_buffer:
  assumes "file_ok e buf" "kind e = FD_KIND_FILE" "writable e" "0 < len" "unat len \<le> SYSCALL_FILE_MAX"
  shows "\<exists>e'. sys_lseek e (int SYSCALL_FILE_MAX) 0 = Inr (of_nat SYSCALL_FILE_MAX, e') \<and>
    (unat (fsize e) < SYSCALL_FILE_MAX \<longrightarrow> file_read e' buf len = None)"
proof -
  let ?e = "e\<lparr>pos := of_nat SYSCALL_FILE_MAX\<rparr>"
  have s: "sys_lseek e (int SYSCALL_FILE_MAX) 0 = Inr (of_nat SYSCALL_FILE_MAX, ?e)"
    using assms(2,3) by (simp add: sys_lseek_def lseek_pos_def)
  have "file_read ?e buf len = None" if n: "unat (fsize e) < SYSCALL_FILE_MAX"
  proof -
    let ?av = "fsize e - 0x800000 :: u32"
    have ua: "unat ?av = 2 ^ 32 - (SYSCALL_FILE_MAX - unat (fsize e))" using n by (simp add: unat_sub_if')
    have "len < ?av" using ua assms(5) n by (simp add: word_less_nat_alt)
    moreover have "len \<noteq> 0" using assms(4) by auto
    moreover have "0 < unat len" using assms(4) by (simp add: word_less_nat_alt)
    ultimately show ?thesis using assms(1) by (simp add: file_read_def file_ok_def Let_def)
  qed
  then show ?thesis using s by blast
qed

end
