(* ===== verification/Pagecache.thy ===== *)
theory Pagecache
  imports Pmm_Count "HOL-Library.Monad_Syntax"
begin

text \<open>
  The file page cache, \<^verbatim>\<open>mm/pagecache.c\<close>: 256 slots in a doubly linked list from the most to the
  least recently used, each with a reference-counted frame of the physical memory manager.
  A pointer to a slot is the slot's index, and 256 stands for the null pointer. The frames are
  addressed by their physical address, and \<open>fmem\<close> holds their bytes. What happens while \<open>vfs_read_at\<close>
  runs is an argument: the path, the offset, the frame it fills and the state when it is called give its
  result and the state when it returns. That state may differ in more than the bytes of the frame: \<open>vfs_read_at\<close> waits
  for the file-system lock and for the disk controller by yielding, in the middle of \<open>pc_get\<close>, and
  another task may use the page cache meanwhile. Outside this call the interrupt lock of the cache
  keeps other tasks away. \<open>None\<close> is an access outside a frame, or a walk along
  the list that does not end.
\<close>

abbreviation "PC_PGSZ \<equiv> 0x1000 :: u32"
abbreviation "PC_NPAGES \<equiv> 256 :: nat"
abbreviation "PC_NIL \<equiv> 256 :: nat"
abbreviation "PC_PATH_MAX \<equiv> 256 :: nat"

record pcpage =
  valid :: bool
  phash :: u32
  ppath :: string
  pidx :: u32
  plen :: u32
  frame :: u32
  lp :: nat
  ln :: nat

record pcache =
  s_pages :: "nat \<Rightarrow> pcpage"
  s_mru :: nat
  s_lru :: nat
  s_inited :: bool
  pool :: pmm
  fmem :: "u32 \<Rightarrow> u8 list"

type_synonym read_at = "string \<Rightarrow> u32 \<Rightarrow> u32 \<Rightarrow> pcache \<Rightarrow> int \<times> pcache"

definition upd_slot :: "nat \<Rightarrow> (pcpage \<Rightarrow> pcpage) \<Rightarrow> pcache \<Rightarrow> pcache" where
  "upd_slot i g c = c\<lparr>s_pages := (s_pages c)(i := g (s_pages c i))\<rparr>"

definition pc_hash :: "string \<Rightarrow> u32" where
  "pc_hash s = fold (\<lambda>ch h. (h XOR of_char ch) * 16777619) s 2166136261"

fun pc_streq :: "string \<Rightarrow> string \<Rightarrow> bool" where
  "pc_streq (a # as) (b # bs) = (a = b \<and> pc_streq as bs)"
| "pc_streq [] [] = True"
| "pc_streq _ _ = False"

definition pc_init :: "pcache \<Rightarrow> pcache" where
  "pc_init c =
     c\<lparr>s_pages := \<lambda>i. if i < PC_NPAGES
          then (s_pages c i)\<lparr>valid := False, frame := 0, lp := (if i = 0 then PC_NIL else i - 1),
                            ln := (if i = PC_NPAGES - 1 then PC_NIL else i + 1)\<rparr>
          else s_pages c i,
       s_mru := 0, s_lru := PC_NPAGES - 1, s_inited := True\<rparr>"

definition pc_unlink :: "nat \<Rightarrow> pcache \<Rightarrow> pcache" where
  "pc_unlink p c =
     (let prv = lp (s_pages c p); nxt = ln (s_pages c p);
          c = (if prv \<noteq> PC_NIL then upd_slot prv (\<lambda>q. q\<lparr>ln := nxt\<rparr>) c else c\<lparr>s_mru := nxt\<rparr>);
          c = (if nxt \<noteq> PC_NIL then upd_slot nxt (\<lambda>q. q\<lparr>lp := prv\<rparr>) c else c\<lparr>s_lru := prv\<rparr>)
      in upd_slot p (\<lambda>q. q\<lparr>lp := PC_NIL, ln := PC_NIL\<rparr>) c)"

definition pc_push_front :: "nat \<Rightarrow> pcache \<Rightarrow> pcache" where
  "pc_push_front p c =
     (let c = upd_slot p (\<lambda>q. q\<lparr>lp := PC_NIL, ln := s_mru c\<rparr>) c;
          c = (if s_mru c \<noteq> PC_NIL then upd_slot (s_mru c) (\<lambda>q. q\<lparr>lp := p\<rparr>) c else c);
          c = c\<lparr>s_mru := p\<rparr>
      in if s_lru c = PC_NIL then c\<lparr>s_lru := p\<rparr> else c)"

definition pc_push_back :: "nat \<Rightarrow> pcache \<Rightarrow> pcache" where
  "pc_push_back p c =
     (let c = upd_slot p (\<lambda>q. q\<lparr>ln := PC_NIL, lp := s_lru c\<rparr>) c;
          c = (if s_lru c \<noteq> PC_NIL then upd_slot (s_lru c) (\<lambda>q. q\<lparr>ln := p\<rparr>) c else c);
          c = c\<lparr>s_lru := p\<rparr>
      in if s_mru c = PC_NIL then c\<lparr>s_mru := p\<rparr> else c)"

definition pc_touch :: "nat \<Rightarrow> pcache \<Rightarrow> pcache" where
  "pc_touch p c = (if s_mru c = p then c else pc_push_front p (pc_unlink p c))"

section \<open>Looking up a page\<close>

definition pc_match :: "string \<Rightarrow> u32 \<Rightarrow> u32 \<Rightarrow> pcpage \<Rightarrow> bool" where
  "pc_match path hash i pg \<longleftrightarrow> valid pg \<and> pidx pg = i \<and> phash pg = hash \<and> pc_streq (ppath pg) path"

text \<open>The walk from \<open>p\<close> along the list; \<open>PC_NIL\<close> means that no slot has the page.\<close>

partial_function (option) pc_find :: "pcache \<Rightarrow> string \<Rightarrow> u32 \<Rightarrow> u32 \<Rightarrow> nat \<Rightarrow> nat option" where
  "pc_find c path hash i p =
     (if p = PC_NIL then Some PC_NIL
      else if pc_match path hash i (s_pages c p) then Some p
      else pc_find c path hash i (ln (s_pages c p)))"

declare pc_find.simps [code]

text \<open>A frame for the slot: its own if nobody else refers to it, else a new one.\<close>

definition pc_pick_frame :: "nat \<Rightarrow> pcache \<Rightarrow> u32 \<times> pcache" where
  "pc_pick_frame p c =
     (let fr = frame (s_pages c p);
          (fr, c) = (if fr \<noteq> 0 \<and> pmm_ref_count fr (pool c) \<noteq> 1 then (0, c\<lparr>pool := pmm_free_frame fr (pool c)\<rparr>) else (fr, c))
      in if fr = 0 then (let (fr, q) = pmm_alloc_frame (pool c) in (fr, c\<lparr>pool := q\<rparr>)) else (fr, c))"

text \<open>What follows a successful read into the frame: the rest is cleared and the slot takes the page.\<close>

definition pc_fill :: "string \<Rightarrow> u32 \<Rightarrow> u32 \<Rightarrow> nat \<Rightarrow> u32 \<Rightarrow> int \<Rightarrow> pcache \<Rightarrow> pcache" where
  "pc_fill path hash i p fr got c =
     (let bs = fmem c fr;
          bs = (if nat got < unat PC_PGSZ then take (nat got) bs @ replicate (unat PC_PGSZ - nat got) 0 else bs);
          c = c\<lparr>fmem := (fmem c)(fr := bs)\<rparr>
      in pc_touch p (upd_slot p (\<lambda>q. q\<lparr>frame := fr, valid := True, phash := hash, pidx := i, plen := of_int got,
                                   ppath := take (PC_PATH_MAX - 1) path\<rparr>) c))"

text \<open>
  The slot of a page, with a miss filled from the file; \<open>PC_NIL\<close> for an error. The slot and the frame are chosen
  before \<open>vfs_read_at\<close> and used after it, whatever has happened to them meanwhile. A frame that \<open>vfs_read_at\<close>
  would fill has to be memory: the address \<open>PMM_ALLOC_ERROR\<close>, which the code does not
  test for, is not.
\<close>

definition pc_get :: "read_at \<Rightarrow> string \<Rightarrow> u32 \<Rightarrow> u32 \<Rightarrow> pcache \<Rightarrow> (nat \<times> pcache) option" where
  "pc_get rd path hash i c = do {
     p \<leftarrow> pc_find c path hash i (s_mru c);
     if p \<noteq> PC_NIL then Some (p, pc_touch p c)
     else if s_lru c = PC_NIL then Some (PC_NIL, c)
     else
       let p = s_lru c; (fr, c) = pc_pick_frame p c in
       if fr = 0 then Some (PC_NIL, c)
       else if fr = PMM_ALLOC_ERROR then None
       else
         let (got, c) = rd path (i * PC_PGSZ) fr c in
         if got < 0 then Some (PC_NIL, upd_slot p (\<lambda>q. q\<lparr>frame := fr, valid := False\<rparr>) c)
         else Some (p, pc_fill path hash i p fr got c)
   }"

section \<open>The operations\<close>

partial_function (option) pc_read_loop ::
  "read_at \<Rightarrow> string \<Rightarrow> u32 \<Rightarrow> u32 \<Rightarrow> u32 \<Rightarrow> u32 \<Rightarrow> u8 list \<Rightarrow> pcache \<Rightarrow> (int \<times> u8 list \<times> pcache) option" where
  "pc_read_loop rd path hash off to_read d out c =
     (if d < to_read then do {
        let cur = off + d;
        let poff = cur mod PC_PGSZ;
        (p, c) \<leftarrow> pc_get rd path hash (cur div PC_PGSZ) c;
        let pg = s_pages c p;
        if p = PC_NIL then Some (if d \<noteq> 0 then int (unat d) else - 1, out, c)
        else if plen pg \<le> poff then Some (int (unat d), out, c)
        else do {
          let chunk = (if plen pg - poff > to_read - d then to_read - d else plen pg - poff);
          let bs = take (unat chunk) (drop (unat poff) (fmem c (frame pg)));
          if length bs < unat chunk then None
          else if plen pg < PC_PGSZ then Some (int (unat (d + chunk)), out @ bs, c)
          else pc_read_loop rd path hash off to_read (d + chunk) (out @ bs) c
        }
      }
      else Some (int (unat d), out, c))"

declare pc_read_loop.simps [code]

definition pagecache_read :: "read_at \<Rightarrow> string \<Rightarrow> u32 \<Rightarrow> u32 \<Rightarrow> u32 \<Rightarrow> pcache \<Rightarrow> (int \<times> u8 list \<times> pcache) option" where
  "pagecache_read rd path sz off len c =
     (if sz \<le> off then Some (0, [], c)
      else
        let avail = sz - off; to_read = (if len < avail then len else avail);
            c = (if s_inited c then c else pc_init c)
        in pc_read_loop rd path (pc_hash path) off to_read 0 [] c)"

text \<open>The frame, its number of valid bytes and the new state; frame 0 for an error.\<close>

definition pagecache_acquire :: "read_at \<Rightarrow> string \<Rightarrow> u32 \<Rightarrow> u32 \<Rightarrow> pcache \<Rightarrow> (u32 \<times> u32 \<times> pcache) option" where
  "pagecache_acquire rd path sz i c =
     (if unat sz \<le> unat i * unat PC_PGSZ then Some (0, 0, c)
      else do {
        (p, c) \<leftarrow> pc_get rd path (pc_hash path) i (if s_inited c then c else pc_init c);
        let pg = s_pages c p;
        if p = PC_NIL \<or> frame pg = 0 then Some (0, 0, c)
        else Some (frame pg, plen pg, c\<lparr>pool := pmm_inc_ref (frame pg) (pool c)\<rparr>)
      })"

definition pc_release :: "nat \<Rightarrow> pcache \<Rightarrow> pcache" where
  "pc_release i c =
     (if frame (s_pages c i) \<noteq> 0
      then upd_slot i (\<lambda>q. q\<lparr>frame := 0\<rparr>) (c\<lparr>pool := pmm_free_frame (frame (s_pages c i)) (pool c)\<rparr>)
      else c)"

definition invalidate_slot :: "string \<Rightarrow> u32 \<Rightarrow> nat \<Rightarrow> pcache \<Rightarrow> pcache" where
  "invalidate_slot path hash i c =
     (let pg = s_pages c i in
      if valid pg \<and> phash pg = hash \<and> pc_streq (ppath pg) path
      then pc_push_back i (pc_unlink i (pc_release i (upd_slot i (\<lambda>q. q\<lparr>valid := False\<rparr>) c)))
      else c)"

definition pagecache_invalidate :: "string \<Rightarrow> pcache \<Rightarrow> pcache" where
  "pagecache_invalidate path c =
     (if s_inited c then fold (invalidate_slot path (pc_hash path)) [0..<PC_NPAGES] c else c)"

definition drop_slot :: "nat \<Rightarrow> pcache \<Rightarrow> pcache" where
  "drop_slot i c = upd_slot i (\<lambda>q. q\<lparr>valid := False\<rparr>) (pc_release i c)"

definition pagecache_drop_all :: "pcache \<Rightarrow> pcache" where
  "pagecache_drop_all c = (fold drop_slot [0..<PC_NPAGES] c)\<lparr>s_inited := False\<rparr>"

end
