(* ===== verification/Pagecache_Lists.thy ===== *)
theory Pagecache_Lists
  imports Pagecache
begin

text \<open>
  The recency list of the page cache: unlinking, moving to the front or the back and the search
  act on the sequence of slots; they leave everything but the links alone.
\<close>

definition lru_list :: "pcache \<Rightarrow> nat list \<Rightarrow> bool" where
  "lru_list c xs \<longleftrightarrow> distinct xs \<and> set xs \<subseteq> {..<PC_NPAGES} \<and>
     dseg PC_NIL (\<lambda>i. ln (s_pages c i)) (\<lambda>i. lp (s_pages c i)) PC_NIL (s_mru c) xs (s_lru c) PC_NIL"

text \<open>All of the cache but the links and the ends of the list.\<close>

definition unlinked :: "pcpage \<Rightarrow> pcpage" where "unlinked q = q\<lparr>lp := 0, ln := 0\<rparr>"

definition same_pages :: "pcache \<Rightarrow> pcache \<Rightarrow> bool" where
  "same_pages c c' \<longleftrightarrow> (\<forall>i. unlinked (s_pages c' i) = unlinked (s_pages c i)) \<and>
     pool c' = pool c \<and> fmem c' = fmem c \<and> s_inited c' = s_inited c"

lemma same_pages_refl [simp]: "same_pages c c" by (simp add: same_pages_def)

lemma same_pages_trans: "same_pages a b \<Longrightarrow> same_pages b c \<Longrightarrow> same_pages a c"
  by (simp add: same_pages_def)

lemma unlinked_eq:
  "unlinked p = unlinked q \<longleftrightarrow> valid p = valid q \<and> phash p = phash q \<and> ppath p = ppath q \<and> pidx p = pidx q \<and> plen p = plen q \<and> frame p = frame q"
  by (cases p; cases q) (simp add: unlinked_def)

lemma same_pagesD:
  assumes "same_pages c c'"
  shows "valid (s_pages c' i) = valid (s_pages c i)" "phash (s_pages c' i) = phash (s_pages c i)" "ppath (s_pages c' i) = ppath (s_pages c i)"
    "pidx (s_pages c' i) = pidx (s_pages c i)" "plen (s_pages c' i) = plen (s_pages c i)" "frame (s_pages c' i) = frame (s_pages c i)"
    "pool c' = pool c" "fmem c' = fmem c" "s_inited c' = s_inited c"
  using assms by (simp_all add: same_pages_def unlinked_eq)

lemma upd_slot_sel [simp]:
  "s_pages (upd_slot i g c) = (s_pages c)(i := g (s_pages c i))" "s_mru (upd_slot i g c) = s_mru c"
  "s_lru (upd_slot i g c) = s_lru c" "s_inited (upd_slot i g c) = s_inited c" "pool (upd_slot i g c) = pool c" "fmem (upd_slot i g c) = fmem c"
  by (simp_all add: upd_slot_def)

lemma links_same_pages:
  "same_pages c (upd_slot i (\<lambda>q. q\<lparr>ln := x\<rparr>) c)" "same_pages c (upd_slot i (\<lambda>q. q\<lparr>lp := x\<rparr>) c)"
  "same_pages c (upd_slot i (\<lambda>q. q\<lparr>lp := x, ln := y\<rparr>) c)" "same_pages c (upd_slot i (\<lambda>q. q\<lparr>ln := y, lp := x\<rparr>) c)"
  "same_pages c (c\<lparr>s_mru := x\<rparr>)" "same_pages c (c\<lparr>s_lru := x\<rparr>)"
  by (simp_all add: same_pages_def unlinked_eq)

lemma unlink_same: "same_pages c (pc_unlink p c)"
  by (simp add: pc_unlink_def Let_def same_pages_def unlinked_eq)

lemma push_front_same: "same_pages c (pc_push_front p c)"
  by (simp add: pc_push_front_def Let_def same_pages_def unlinked_eq)

lemma push_back_same: "same_pages c (pc_push_back p c)"
  by (simp add: pc_push_back_def Let_def same_pages_def unlinked_eq)

lemma touch_same: "same_pages c (pc_touch p c)"
  using same_pages_trans[OF unlink_same push_front_same] by (simp add: pc_touch_def)

section \<open>Reversal\<close>

lemma dseg_snoc:
  "dseg nil nx pv p x (xs @ [a]) q y \<longleftrightarrow> (\<exists>r. dseg nil nx pv p x xs r a \<and> q = a \<and> a \<noteq> nil \<and> pv a = r \<and> nx a = y)"
  by (auto simp: dseg_append)

lemma dseg_rev: "dseg nil nx pv p x xs q y \<longleftrightarrow> dseg nil pv nx y q (rev xs) x p"
proof (induction xs arbitrary: p x)
  case (Cons a xs)
  show ?case unfolding dseg.simps(2) rev.simps dseg_snoc Cons.IH by auto
qed auto

lemma dseg_ends:
  assumes "dseg nil nx pv nil x xs q nil"
  shows "q = (if xs = [] then nil else last xs)" "x = (if xs = [] then nil else hd xs)"
  using assms dseg_last[OF assms] dseg_hd[OF assms] by (auto split: if_splits)

section \<open>The operations\<close>

lemma unlink_list:
  assumes l: "lru_list c (xs @ p # ys)"
  shows "lru_list (pc_unlink p c) (xs @ ys)"
proof -
  let ?nx = "\<lambda>i. ln (s_pages c i)" and ?pv = "\<lambda>i. lp (s_pages c i)"
  let ?c = "pc_unlink p c"
  have d: "dseg PC_NIL ?nx ?pv PC_NIL (s_mru c) (xs @ p # ys) (s_lru c) PC_NIL" and dist: "distinct (xs @ p # ys)"
    using l by (auto simp: lru_list_def)
  have p: "p \<noteq> PC_NIL" using l by (auto simp: lru_list_def)
  note nb = dseg_neighbours[OF d]
  have away: "?pv p \<noteq> p" "?nx p \<noteq> p" using nb dist p by (auto dest: last_in_set hd_in_set)
  have x': "s_mru ?c = (if ?pv p \<noteq> PC_NIL then s_mru c else ?nx p)"
    by (simp add: pc_unlink_def Let_def)
  have "\<exists>q'. dseg PC_NIL (\<lambda>i. ln (s_pages ?c i)) (\<lambda>i. lp (s_pages ?c i)) PC_NIL (s_mru ?c) (xs @ ys) q' PC_NIL"
  proof (rule dseg_remove[OF d dist _ x'])
    show "?pv p \<noteq> PC_NIL \<Longrightarrow> ln (s_pages ?c (?pv p)) = ?nx p"
      using away by (auto simp: pc_unlink_def Let_def)
    show "?nx p \<noteq> PC_NIL \<Longrightarrow> lp (s_pages ?c (?nx p)) = ?pv p"
      using away by (auto simp: pc_unlink_def Let_def)
    show "ln (s_pages ?c b) = ?nx b" if "b \<in> set (xs @ ys)" "b \<noteq> ?pv p" for b
      using that dist by (auto simp: pc_unlink_def Let_def)
    show "lp (s_pages ?c b) = ?pv b" if "b \<in> set (xs @ ys)" "b \<noteq> ?nx p" for b
      using that dist by (auto simp: pc_unlink_def Let_def)
  qed
  then obtain q' where q': "dseg PC_NIL (\<lambda>i. ln (s_pages ?c i)) (\<lambda>i. lp (s_pages ?c i)) PC_NIL (s_mru ?c) (xs @ ys) q' PC_NIL" ..
  have "s_lru ?c = (if ?nx p \<noteq> PC_NIL then s_lru c else ?pv p)" by (simp add: pc_unlink_def Let_def)
  moreover have "\<dots> = (if xs @ ys = [] then PC_NIL else last (xs @ ys))"
  proof (cases "ys = []")
    case True
    then have "?nx p = PC_NIL" using nb(2) by auto
    moreover have "?pv p = (if xs = [] then PC_NIL else last xs)"
      using d dseg_ends(1)[of PC_NIL ?nx ?pv] nb(1) by (cases "xs = []") (auto simp: dseg_append dest: dseg_last)
    ultimately show ?thesis using True by simp
  next
    case False
    then have "?nx p \<noteq> PC_NIL" using d l by (cases ys) (auto simp: dseg_append)
    then show ?thesis using False dseg_ends(1)[OF d] by simp
  qed
  ultimately have "s_lru ?c = q'" using dseg_ends(1)[OF q'] by simp
  then show ?thesis using q' l by (simp add: lru_list_def)
qed

lemma push_front_list:
  assumes l: "lru_list c xs" and p: "p \<notin> set xs" "p < PC_NPAGES"
  shows "lru_list (pc_push_front p c) (p # xs)"
proof -
  let ?nx = "\<lambda>i. ln (s_pages c i)" and ?pv = "\<lambda>i. lp (s_pages c i)"
  let ?c = "pc_push_front p c"
  have d: "dseg PC_NIL ?nx ?pv PC_NIL (s_mru c) xs (s_lru c) PC_NIL" and dist: "distinct xs"
    using l by (auto simp: lru_list_def)
  have m: "s_mru c \<noteq> p" using dseg_ends(2)[OF d] p by (auto split: if_splits)
  have pn: "p \<noteq> PC_NIL" using p by simp
  have "\<exists>q'. dseg PC_NIL (\<lambda>i. ln (s_pages ?c i)) (\<lambda>i. lp (s_pages ?c i)) PC_NIL p (p # xs) q' PC_NIL"
    by (rule dseg_push[OF d p(1) pn dist]) (use p m in \<open>auto simp: pc_push_front_def Let_def\<close>)
  then obtain q' where q': "dseg PC_NIL (\<lambda>i. ln (s_pages ?c i)) (\<lambda>i. lp (s_pages ?c i)) PC_NIL p (p # xs) q' PC_NIL" ..
  have "s_mru ?c = p" "s_lru ?c = (if s_lru c = PC_NIL then p else s_lru c)" by (simp_all add: pc_push_front_def Let_def)
  moreover have "q' = (if xs = [] then p else last xs)" using dseg_ends(1)[OF q'] by simp
  moreover have "s_lru c = PC_NIL \<longleftrightarrow> xs = []"
    using dseg_ends(1)[OF d] l by (auto simp: lru_list_def dest: last_in_set)
  ultimately show ?thesis using q' dseg_ends(1)[OF d] l p by (auto simp: lru_list_def)
qed

lemma push_back_list:
  assumes l: "lru_list c xs" and p: "p \<notin> set xs" "p < PC_NPAGES"
  shows "lru_list (pc_push_back p c) (xs @ [p])"
proof -
  let ?nx = "\<lambda>i. ln (s_pages c i)" and ?pv = "\<lambda>i. lp (s_pages c i)"
  let ?c = "pc_push_back p c"
  have d: "dseg PC_NIL ?pv ?nx PC_NIL (s_lru c) (rev xs) (s_mru c) PC_NIL" and dist: "distinct (rev xs)"
    using l dseg_rev[of PC_NIL ?nx ?pv PC_NIL "s_mru c" xs] by (auto simp: lru_list_def)
  have m: "s_lru c \<noteq> p" using dseg_ends(2)[OF d] p by (auto split: if_splits simp: hd_rev)
  have pn: "p \<noteq> PC_NIL" using p by simp
  have "\<exists>q'. dseg PC_NIL (\<lambda>i. lp (s_pages ?c i)) (\<lambda>i. ln (s_pages ?c i)) PC_NIL p (p # rev xs) q' PC_NIL"
    by (rule dseg_push[OF d _ pn dist]) (use p m in \<open>auto simp: pc_push_back_def Let_def\<close>)
  then obtain q' where q': "dseg PC_NIL (\<lambda>i. lp (s_pages ?c i)) (\<lambda>i. ln (s_pages ?c i)) PC_NIL p (p # rev xs) q' PC_NIL" ..
  have "s_lru ?c = p" "s_mru ?c = (if s_mru c = PC_NIL then p else s_mru c)" by (simp_all add: pc_push_back_def Let_def)
  moreover have "q' = (if xs = [] then p else hd xs)" using dseg_ends(1)[OF q'] by (simp add: last_rev)
  moreover have "s_mru c = PC_NIL \<longleftrightarrow> xs = []"
    using dseg_ends(1)[OF d] l by (auto simp: lru_list_def last_rev dest: hd_in_set)
  ultimately have "dseg PC_NIL (\<lambda>i. lp (s_pages ?c i)) (\<lambda>i. ln (s_pages ?c i)) PC_NIL (s_lru ?c) (rev (xs @ [p])) (s_mru ?c) PC_NIL"
    using q' dseg_ends(1)[OF d] by (cases "xs = []") (simp_all add: last_rev)
  then show ?thesis using l p unfolding lru_list_def dseg_rev[symmetric] by simp
qed

text \<open>What moving a slot makes of the sequence.\<close>

lemma touch_list:
  assumes l: "lru_list c xs" and p: "p \<in> set xs"
  shows "lru_list (pc_touch p c) (p # remove1 p xs)"
proof (cases "s_mru c = p")
  case True
  have "s_mru c = hd xs" using l p dseg_ends(2) by (fastforce simp: lru_list_def)
  then have "xs = p # tl xs" using True p by (cases xs) auto
  then have "p # remove1 p xs = xs" by (metis remove1.simps(2))
  then show ?thesis using True l by (simp add: pc_touch_def)
next
  case False
  obtain ys zs where xs: "xs = ys @ p # zs" using p by (meson split_list)
  have dist: "distinct xs" "p < PC_NPAGES" using l p by (auto simp: lru_list_def)
  have "lru_list (pc_unlink p c) (ys @ zs)" using unlink_list l xs by simp
  then have "lru_list (pc_push_front p (pc_unlink p c)) (p # ys @ zs)"
    by (rule push_front_list) (use dist xs in auto)
  moreover have "remove1 p xs = ys @ zs" using dist xs by (simp add: remove1_append)
  ultimately show ?thesis using False by (simp add: pc_touch_def)
qed

lemma to_back_list:
  assumes l: "lru_list c xs" and p: "p \<in> set xs"
  shows "lru_list (pc_push_back p (pc_unlink p c)) (remove1 p xs @ [p])"
proof -
  obtain ys zs where xs: "xs = ys @ p # zs" using p by (meson split_list)
  have dist: "distinct xs" "p < PC_NPAGES" using l p by (auto simp: lru_list_def)
  have "lru_list (pc_unlink p c) (ys @ zs)" using unlink_list l xs by simp
  then have "lru_list (pc_push_back p (pc_unlink p c)) ((ys @ zs) @ [p])"
    by (rule push_back_list) (use dist xs in auto)
  moreover have "remove1 p xs = ys @ zs" using dist xs by (simp add: remove1_append)
  ultimately show ?thesis by simp
qed

lemma lru_list_upd:
  assumes "lru_list c xs" "\<And>q. ln (g q) = ln q \<and> lp (g q) = lp q"
  shows "lru_list (upd_slot i g c) xs"
proof -
  have "(\<lambda>j. ln (s_pages (upd_slot i g c) j)) = (\<lambda>j. ln (s_pages c j))" "(\<lambda>j. lp (s_pages (upd_slot i g c) j)) = (\<lambda>j. lp (s_pages c j))"
    using assms(2) by auto
  then show ?thesis using assms(1) by (simp only: lru_list_def upd_slot_sel(2,3))
qed

lemma lru_list_other [simp]:
  "lru_list (c\<lparr>pool := q\<rparr>) xs = lru_list c xs" "lru_list (c\<lparr>fmem := m\<rparr>) xs = lru_list c xs" "lru_list (c\<lparr>s_inited := b\<rparr>) xs = lru_list c xs"
  by (simp_all add: lru_list_def)

lemma find_walk:
  assumes "dseg PC_NIL (\<lambda>i. ln (s_pages c i)) (\<lambda>i. lp (s_pages c i)) q x xs y PC_NIL"
  shows "pc_find c path h i x = Some (case find (\<lambda>p. pc_match path h i (s_pages c p)) xs of None \<Rightarrow> PC_NIL | Some p \<Rightarrow> p)"
  using assms
proof (induction xs arbitrary: q x)
  case Nil
  then show ?case by (subst pc_find.simps) simp
next
  case (Cons a xs)
  then show ?case by (subst pc_find.simps) auto
qed

lemma pc_find_list:
  assumes "lru_list c xs"
  shows "pc_find c path h i (s_mru c) = Some (case find (\<lambda>p. pc_match path h i (s_pages c p)) xs of None \<Rightarrow> PC_NIL | Some p \<Rightarrow> p)"
  using find_walk assms by (auto simp: lru_list_def)

lemma pc_streq_eq [simp]: "pc_streq a b \<longleftrightarrow> a = b"
  by (induction a b rule: pc_streq.induct) auto

lemma init_list: "lru_list (pc_init c) [0..<PC_NPAGES]"
proof -
  let ?c = "pc_init c"
  have "dseg PC_NIL (\<lambda>i. ln (s_pages ?c i)) (\<lambda>i. lp (s_pages ?c i)) (if k = 0 then PC_NIL else k - 1) k [k..<PC_NPAGES] 255 PC_NIL"
    if "k < PC_NPAGES" for k
    using that
  proof (induction "255 - k" arbitrary: k)
    case 0
    then have "k = 255" by simp
    then show ?case by (simp add: upt_rec[of 255 256] pc_init_def)
  next
    case (Suc n)
    then have k: "k < 255" by simp
    have "dseg PC_NIL (\<lambda>i. ln (s_pages ?c i)) (\<lambda>i. lp (s_pages ?c i)) k (Suc k) [Suc k..<PC_NPAGES] 255 PC_NIL"
      using Suc(1)[of "Suc k"] Suc(2,3) by simp
    moreover have "[k..<PC_NPAGES] = k # [Suc k..<PC_NPAGES]" using k by (simp add: upt_conv_Cons)
    ultimately show ?case using k by (simp add: pc_init_def)
  qed
  from this[of 0] show ?thesis by (auto simp: lru_list_def pc_init_def)
qed

end
