(* ===== verification/Pagecache_Inv.thy ===== *)
theory Pagecache_Inv
  imports Pagecache_Lists
begin

text \<open>
  The invariant of the page cache, for given file contents and given references held by others:
  every reference to a frame is either the cache's or a holder's, no two slots share a frame,
  and a valid slot has the page of its file, zeros after the end.
\<close>

section \<open>References of the slots\<close>

abbreviation "PGSZ \<equiv> 4096 :: nat"

definition slot_refs :: "(nat \<Rightarrow> u32) \<Rightarrow> u32 \<Rightarrow> nat" where
  "slot_refs g q = (\<Sum>i<PC_NPAGES. if g i \<noteq> 0 \<and> g i div 0x1000 = q then 1 else 0)"

lemma slot_refs_upd:
  assumes "p < PC_NPAGES"
  shows "slot_refs (g(p := x)) q + (if g p \<noteq> 0 \<and> g p div 0x1000 = q then 1 else 0) =
    slot_refs g q + (if x \<noteq> 0 \<and> x div 0x1000 = q then 1 else 0)"
proof -
  let ?t = "\<lambda>h i. if h i \<noteq> 0 \<and> h i div 0x1000 = q then 1 else (0::nat)"
  have split: "(\<Sum>i<PC_NPAGES. ?t h i) = ?t h p + (\<Sum>i\<in>{..<PC_NPAGES} - {p}. ?t h i)" for h
    by (rule sum.remove) (use assms in auto)
  have "(\<Sum>i\<in>{..<PC_NPAGES} - {p}. ?t (g(p := x)) i) = (\<Sum>i\<in>{..<PC_NPAGES} - {p}. ?t g i)"
    by (rule sum.cong) auto
  then show ?thesis unfolding slot_refs_def split[of g] split[of "g(p := x)"] by simp
qed

lemma slot_refs_pos: "p < PC_NPAGES \<Longrightarrow> g p \<noteq> 0 \<Longrightarrow> 0 < slot_refs g (g p div 0x1000)"
  using slot_refs_upd[of p g 0 "g p div 0x1000"] by simp

lemma same_frame:
  fixes a b :: u32
  assumes "a AND 0xFFF = 0" "b AND 0xFFF = 0" "a div 0x1000 = b div 0x1000"
  shows "a = b"
proof -
  have z: "unat x mod 4096 = 0" if "x AND 0xFFF = 0" for x :: u32
    using page_offset[of x] that by simp
  have "unat a div 4096 = unat b div 4096" using arg_cong[OF assms(3), of unat] by (simp add: unat_div)
  then have "unat a = unat b"
    using z[OF assms(1)] z[OF assms(2)] div_mult_mod_eq[of "unat a" 4096] div_mult_mod_eq[of "unat b" 4096] by simp
  then show ?thesis by simp
qed

section \<open>The invariant\<close>

definition file_page :: "(string \<Rightarrow> u8 list) \<Rightarrow> string \<Rightarrow> u32 \<Rightarrow> u8 list" where
  "file_page F path i = take PGSZ (drop (unat i * PGSZ) (F path))"

definition cached :: "(string \<Rightarrow> u8 list) \<Rightarrow> (u32 \<Rightarrow> u8 list) \<Rightarrow> pcpage \<Rightarrow> bool" where
  "cached F m pg \<longleftrightarrow> frame pg \<noteq> 0 \<and> phash pg = pc_hash (ppath pg) \<and>
     plen pg = of_nat (length (file_page F (ppath pg) (pidx pg))) \<and>
     m (frame pg) = file_page F (ppath pg) (pidx pg) @ replicate (PGSZ - length (file_page F (ppath pg) (pidx pg))) 0"

definition pc_data :: "(string \<Rightarrow> u8 list) \<Rightarrow> (u32 \<Rightarrow> nat) \<Rightarrow> pcache \<Rightarrow> bool" where
  "pc_data F held c \<longleftrightarrow> pmm_inv (pool c) \<and> 0 \<notin> managed_frames (pool c) \<and>
     (\<forall>q. frame_refs (pool c) q = slot_refs (\<lambda>i. frame (s_pages c i)) q + held q) \<and>
     (\<forall>a. length (fmem c a) = PGSZ) \<and>
     (\<forall>i<PC_NPAGES. frame (s_pages c i) AND 0xFFF = 0) \<and>
     (\<forall>i<PC_NPAGES. \<forall>j<PC_NPAGES. i \<noteq> j \<and> frame (s_pages c i) \<noteq> 0 \<longrightarrow> frame (s_pages c i) \<noteq> frame (s_pages c j)) \<and>
     (\<forall>i<PC_NPAGES. valid (s_pages c i) \<longrightarrow> cached F (fmem c) (s_pages c i))"

definition pc_inv :: "(string \<Rightarrow> u8 list) \<Rightarrow> (u32 \<Rightarrow> nat) \<Rightarrow> pcache \<Rightarrow> bool" where
  "pc_inv F held c \<longleftrightarrow> pc_data F held c \<and>
     (if s_inited c then \<exists>xs. lru_list c xs \<and> set xs = {..<PC_NPAGES}
      else \<forall>i<PC_NPAGES. \<not> valid (s_pages c i) \<and> frame (s_pages c i) = 0)"

lemma pc_data_same: "same_pages c c' \<Longrightarrow> pc_data F held c' = pc_data F held c"
  by (simp add: pc_data_def cached_def same_pagesD)

lemma pc_data_other [simp]:
  "pc_data F held (c\<lparr>s_mru := x\<rparr>) = pc_data F held c" "pc_data F held (c\<lparr>s_lru := x\<rparr>) = pc_data F held c"
  "pc_data F held (c\<lparr>s_inited := b\<rparr>) = pc_data F held c"
  by (simp_all add: pc_data_def)

lemma frame_upd: "(\<lambda>i. frame (((s_pages c)(p := g)) i)) = (\<lambda>i. frame (s_pages c i))(p := frame g)" by auto

lemma init_data:
  assumes "pc_inv F held c"
  shows "pc_inv F held (if s_inited c then c else pc_init c)" "s_inited (if s_inited c then c else pc_init c)"
proof -
  show "s_inited (if s_inited c then c else pc_init c)" by (simp add: pc_init_def)
  show "pc_inv F held (if s_inited c then c else pc_init c)"
  proof (cases "s_inited c")
    case False
    then have z: "\<forall>i<PC_NPAGES. \<not> valid (s_pages c i) \<and> frame (s_pages c i) = 0" and d: "pc_data F held c"
      using assms by (auto simp: pc_inv_def)
    have fr: "frame (s_pages (pc_init c) i) = frame (s_pages c i)" "valid (s_pages (pc_init c) i) = valid (s_pages c i)"
        "pool (pc_init c) = pool c" "fmem (pc_init c) = fmem c" for i
      using z by (auto simp: pc_init_def)
    have "pc_data F held (pc_init c)" using d z unfolding pc_data_def fr by auto
    moreover have "set [0..<PC_NPAGES] = {..<PC_NPAGES}" by auto
    ultimately have "pc_inv F held (pc_init c)"
      using init_list[of c] by (auto simp: pc_inv_def pc_init_def[of c])
    then show ?thesis using False by simp
  qed (use assms in simp)
qed

section \<open>Taking a frame for a slot\<close>

lemma pick_frame_pages: "pc_pick_frame p c = (fr, c1) \<Longrightarrow> s_pages c1 = s_pages c \<and> fmem c1 = fmem c \<and> s_mru c1 = s_mru c \<and> s_lru c1 = s_lru c \<and> s_inited c1 = s_inited c"
  by (auto simp: pc_pick_frame_def Let_def split: if_splits prod.splits)

definition picked :: "(u32 \<Rightarrow> nat) \<Rightarrow> nat \<Rightarrow> pcache \<Rightarrow> u32 \<Rightarrow> pcache \<Rightarrow> bool" where
  "picked held p c fr c1 \<longleftrightarrow> fr \<noteq> 0 \<and> fr \<noteq> PMM_ALLOC_ERROR \<and> fr AND 0xFFF = 0 \<and> held (fr div 0x1000) = 0 \<and>
     pmm_inv (pool c1) \<and> 0 \<notin> managed_frames (pool c1) \<and>
     (\<forall>j<PC_NPAGES. j \<noteq> p \<longrightarrow> frame (s_pages c j) \<noteq> fr) \<and>
     (\<forall>q. frame_refs (pool c1) q = slot_refs ((\<lambda>i. frame (s_pages c i))(p := fr)) q + held q) \<and>
     free_frame_count (pool c) \<le> free_frame_count (pool c1) + 1"

lemma not_alloc_error: "x AND 0xFFF = 0 \<Longrightarrow> x \<noteq> PMM_ALLOC_ERROR" by auto

text \<open>A new frame for a slot that has none.\<close>

lemma picked_alloc:
  assumes inv: "pmm_inv s" "0 \<notin> managed_frames s" and p: "p < PC_NPAGES"
    and refs: "\<forall>q. frame_refs s q = slot_refs (g(p := 0)) q + held q"
    and al: "\<forall>i<PC_NPAGES. g i AND 0xFFF = 0" and ok: "pmm_alloc_frame s = (fr, t)" "fr \<noteq> PMM_ALLOC_ERROR"
  shows "fr \<noteq> 0" "fr AND 0xFFF = 0" "held (fr div 0x1000) = 0" "pmm_inv t" "0 \<notin> managed_frames t"
    "\<forall>j<PC_NPAGES. j \<noteq> p \<longrightarrow> g j \<noteq> fr" "\<forall>q. frame_refs t q = slot_refs (g(p := fr)) q + held q"
proof -
  note f = pmm_count.alloc_fresh[OF inv(1) ok inv(2)]
  show "fr \<noteq> 0" "fr AND 0xFFF = 0" "pmm_inv t" "0 \<notin> managed_frames t" using f(1,2,5,6) inv(2) by auto
  have z: "slot_refs (g(p := 0)) (fr div 0x1000) = 0" "held (fr div 0x1000) = 0" using f(3) refs by auto
  then show "held (fr div 0x1000) = 0" by simp
  show "\<forall>j<PC_NPAGES. j \<noteq> p \<longrightarrow> g j \<noteq> fr"
    using slot_refs_pos[of _ "g(p := 0)"] z(1) f(1) by fastforce
  show "\<forall>q. frame_refs t q = slot_refs (g(p := fr)) q + held q"
  proof
    fix q
    show "frame_refs t q = slot_refs (g(p := fr)) q + held q"
      using slot_refs_upd[OF p, of "g(p := 0)" fr q] f(1,4) z refs by auto
  qed
qed

lemma pick_frame:
  assumes d: "pc_data F held c" and p: "p < PC_NPAGES" and free: "0 < free_frame_count (pool c)"
    and pick: "pc_pick_frame p c = (fr, c1)"
  shows "picked held p c fr c1"
proof -
  let ?g = "\<lambda>i. frame (s_pages c i)"
  have inv: "pmm_inv (pool c)" "0 \<notin> managed_frames (pool c)" and al: "\<forall>i<PC_NPAGES. ?g i AND 0xFFF = 0"
    and refs: "\<And>q. frame_refs (pool c) q = slot_refs ?g q + held q" using d by (auto simp: pc_data_def)
  show ?thesis
  proof (cases "?g p \<noteq> 0 \<and> pmm_ref_count (?g p) (pool c) = 1")
    case True
    then have pk: "fr = ?g p" "c1 = c" using pick by (auto simp: pc_pick_frame_def)
    have "frame_refs (pool c) (?g p div 0x1000) = 1" using True ref_count_frame_refs[of "?g p" "pool c"] by simp
    then have "held (?g p div 0x1000) = 0" using refs[of "?g p div 0x1000"] slot_refs_pos[OF p, of ?g] True by simp
    moreover have "\<forall>j<PC_NPAGES. j \<noteq> p \<longrightarrow> ?g j \<noteq> ?g p" using d p True unfolding pc_data_def by metis
    ultimately show ?thesis using True inv refs al p not_alloc_error by (simp add: picked_def pk fun_upd_idem)
  next
    case False
    define s where "s = (if ?g p \<noteq> 0 then pmm_free_frame (?g p) (pool c) else pool c)"
    define t where "t = snd (pmm_alloc_frame s)"
    have s: "pmm_inv s" "0 \<notin> managed_frames s" "free_frame_count (pool c) \<le> free_frame_count s"
      using inv pmm.inv_free pmm.managed_free pmm_count.avail_free by (auto simp: s_def)
    have ok: "pmm_alloc_frame s = (fr, t)" "c1 = c\<lparr>pool := t\<rparr>"
      using pick False by (auto simp: pc_pick_frame_def s_def t_def Let_def split: if_splits prod.splits)
    have ne: "fr \<noteq> PMM_ALLOC_ERROR" using pmm_count.alloc_succeeds[OF s(1)] s(3) free ok(1) by simp
    have sr: "\<forall>q. frame_refs s q = slot_refs (?g(p := 0)) q + held q"
    proof
      fix q
      note u = slot_refs_upd[OF p, of ?g 0 q]
      show "frame_refs s q = slot_refs (?g(p := 0)) q + held q"
      proof (cases "?g p = 0")
        case True
        then have "s = pool c" "?g(p := 0) = ?g" by (auto simp: s_def)
        then show ?thesis by (simp only: refs)
      next
        case False
        let ?k = "?g p div 0x1000"
        have s': "frame_refs s = (frame_refs (pool c))(?k := frame_refs (pool c) ?k - 1)"
          using pmm.refs_free[OF inv(1), of "?g p"] False by (simp only: s_def if_True not_False_eq_True)
        have pos: "0 < slot_refs ?g ?k" using slot_refs_pos[OF p, of ?g] False by blast
        show ?thesis
        proof (cases "q = ?k")
          case True
          have "slot_refs (?g(p := 0)) ?k + 1 = slot_refs ?g ?k" using u False unfolding True by simp
          then show ?thesis unfolding True s' fun_upd_same refs using pos by simp
        next
          case ne: False
          have "slot_refs (?g(p := 0)) q = slot_refs ?g q" using u ne by simp
          then show ?thesis unfolding s' fun_upd_other[OF ne] refs by simp
        qed
      qed
    qed
    note a = picked_alloc[OF s(1,2) p sr al ok(1) ne]
    have "free_frame_count t + 1 = free_frame_count s"
      using pmm_count.avail_alloc[OF s(1), unfolded ok(1)] ne by simp
    then have "free_frame_count (pool c) \<le> free_frame_count (pool c1) + 1" using s(3) ok(2) by simp
    moreover have "pool c1 = t" by (simp add: ok(2))
    ultimately show ?thesis unfolding picked_def using a ne by blast
  qed
qed

section \<open>Filling a slot\<close>

lemma replace_frame:
  assumes d: "pc_data F held c" and p: "p < PC_NPAGES" and pk: "picked held p c fr c1"
    and c1: "s_pages c1 = s_pages c" "fmem c1 = fmem c" and len: "length bs = PGSZ"
    and g: "frame g = fr" "valid g \<longrightarrow> cached F ((fmem c)(fr := bs)) g"
  shows "pc_data F held (upd_slot p (\<lambda>_. g) (c1\<lparr>fmem := (fmem c1)(fr := bs)\<rparr>))"
proof -
  let ?c = "upd_slot p (\<lambda>_. g) (c1\<lparr>fmem := (fmem c1)(fr := bs)\<rparr>)"
  have pg: "s_pages ?c = (s_pages c)(p := g)" "fmem ?c = (fmem c)(fr := bs)" "pool ?c = pool c1" by (simp_all add: c1)
  have other: "frame (s_pages c j) \<noteq> fr" if "j < PC_NPAGES" "j \<noteq> p" for j using pk that by (auto simp: picked_def)
  have keep: "cached F ((fmem c)(fr := bs)) (s_pages c j)" if "j < PC_NPAGES" "j \<noteq> p" "valid (s_pages c j)" for j
    using d that other[OF that(1,2)] by (simp add: pc_data_def cached_def)
  show ?thesis unfolding pc_data_def pg frame_upd g(1)
  proof (intro conjI allI impI)
    show "pmm_inv (pool c1)" "0 \<notin> managed_frames (pool c1)" using pk by (auto simp: picked_def)
    show "frame_refs (pool c1) q = slot_refs ((\<lambda>i. frame (s_pages c i))(p := fr)) q + held q" for q using pk by (auto simp: picked_def)
    show "length (((fmem c)(fr := bs)) a) = PGSZ" for a using d len by (simp add: pc_data_def)
    show "frame (((s_pages c)(p := g)) i) AND 0xFFF = 0" if "i < PC_NPAGES" for i
      using d pk that g(1) by (simp add: pc_data_def picked_def)
    show "frame (((s_pages c)(p := g)) i) \<noteq> frame (((s_pages c)(p := g)) j)"
      if "i < PC_NPAGES" "j < PC_NPAGES" "i \<noteq> j \<and> frame (((s_pages c)(p := g)) i) \<noteq> 0" for i j
    proof -
      have dis: "\<And>i j. i < PC_NPAGES \<Longrightarrow> j < PC_NPAGES \<Longrightarrow> i \<noteq> j \<Longrightarrow> frame (s_pages c i) \<noteq> 0 \<Longrightarrow> frame (s_pages c i) \<noteq> frame (s_pages c j)"
        using d unfolding pc_data_def by blast
      show ?thesis using that g(1) other[of i] other[of j] dis[of i j] by (cases "i = p"; cases "j = p") auto
    qed
    show "cached F ((fmem c)(fr := bs)) (((s_pages c)(p := g)) i)" if "i < PC_NPAGES" "valid (((s_pages c)(p := g)) i)" for i
      using that keep[of i] g by (cases "i = p") auto
  qed
qed

text \<open>
  What \<open>vfs_read_at\<close> is relied on to do: it puts the bytes of the file into the frame, or gives an
  error; and no other task runs meanwhile that would change the cache, the memory manager or the memory.
\<close>

definition reads_files :: "read_at \<Rightarrow> (string \<Rightarrow> u8 list) \<Rightarrow> bool" where
  "reads_files rd F \<longleftrightarrow> (\<forall>path off fr c. (\<forall>a. length (fmem c a) = PGSZ) \<longrightarrow>
     (\<exists>bs. snd (rd path off fr c) = c\<lparr>fmem := (fmem c)(fr := bs)\<rparr> \<and> length bs = PGSZ \<and>
       (0 \<le> fst (rd path off fr c) \<longrightarrow>
          fst (rd path off fr c) = int (length (take PGSZ (drop (unat off) (F path)))) \<and>
          take (nat (fst (rd path off fr c))) bs = take PGSZ (drop (unat off) (F path)))))"

lemma filled_cached:
  assumes got: "got = int (length (take PGSZ (drop (unat (i * PC_PGSZ)) (F path))))"
      "take (nat got) bs = take PGSZ (drop (unat (i * PC_PGSZ)) (F path))" "length bs = PGSZ"
    and i: "unat i * PGSZ < 2 ^ 32" and path: "length path < PC_PATH_MAX"
    and g: "frame g = fr" "fr \<noteq> 0" "phash g = pc_hash path" "pidx g = i" "plen g = of_int got" "ppath g = take (PC_PATH_MAX - 1) path"
  shows "cached F (m(fr := (if nat got < unat PC_PGSZ then take (nat got) bs @ replicate (unat PC_PGSZ - nat got) 0 else bs))) g"
proof -
  have off: "unat (i * PC_PGSZ) = unat i * PGSZ" using i by (simp add: unat_word_ariths)
  have got: "got = int (length (file_page F path i))" "take (nat got) bs = file_page F path i" "length bs = PGSZ"
    using got off by (auto simp: file_page_def)
  have le: "length (file_page F path i) \<le> PGSZ" by (simp add: file_page_def)
  have pp: "ppath g = path" using g(6) path by simp
  have "(if nat got < unat PC_PGSZ then take (nat got) bs @ replicate (unat PC_PGSZ - nat got) 0 else bs) =
      file_page F path i @ replicate (PGSZ - length (file_page F path i)) 0"
    using got le by (cases "nat got < PGSZ") auto
  then show ?thesis using g(1-5) got(1) unfolding cached_def pp by simp
qed

end
