(* ===== verification/Pagecache_Ops.thy ===== *)
theory Pagecache_Ops
  imports Pagecache_Inv
begin

text \<open>
  Every operation of the page cache keeps the invariant, ends when a frame is free for each page it touches,
  and gives the bytes of the file.
\<close>

section \<open>Getting a page\<close>

definition got_page :: "(string \<Rightarrow> u8 list) \<Rightarrow> (u32 \<Rightarrow> nat) \<Rightarrow> read_at \<Rightarrow> string \<Rightarrow> u32 \<Rightarrow> pcache \<Rightarrow> nat \<Rightarrow> pcache \<Rightarrow> bool" where
  "got_page F held rd path i c p c' \<longleftrightarrow> pc_inv F held c' \<and> s_inited c' \<and>
     (\<forall>a. 0 < held (a div 0x1000) \<longrightarrow> fmem c' a = fmem c a) \<and>
     free_frame_count (pool c) \<le> free_frame_count (pool c') + 1 \<and>
     (if p = PC_NIL then \<exists>fr d. fst (rd path (i * PC_PGSZ) fr d) < 0
      else p < PC_NPAGES \<and> valid (s_pages c' p) \<and> ppath (s_pages c' p) = path \<and> pidx (s_pages c' p) = i)"

lemma touch_inv:
  assumes d: "pc_data F held c" "s_inited c" and l: "lru_list c xs" "set xs = {..<PC_NPAGES}" and p: "p < PC_NPAGES"
  shows "pc_inv F held (pc_touch p c)"
proof -
  have "p \<in> set xs" using l p by simp
  then have "lru_list (pc_touch p c) (p # remove1 p xs)" "set (p # remove1 p xs) = {..<PC_NPAGES}"
    using touch_list[OF l(1)] l by (auto simp: lru_list_def)
  then show ?thesis using pc_data_same[OF touch_same] same_pagesD(9)[OF touch_same] d unfolding pc_inv_def by auto
qed

lemma upd_slot_const: "upd_slot p g c = upd_slot p (\<lambda>_. g (s_pages c p)) c" by (simp add: upd_slot_def)

lemma pc_get_page:
  assumes inv: "pc_inv F held c" "s_inited c" and rd: "reads_files rd F" and path: "length path < PC_PATH_MAX"
    and i: "unat i * PGSZ < 2 ^ 32" and free: "0 < free_frame_count (pool c)"
  shows "\<exists>p c'. pc_get rd path (pc_hash path) i c = Some (p, c') \<and> got_page F held rd path i c p c'"
proof -
  obtain xs where l: "lru_list c xs" "set xs = {..<PC_NPAGES}" and d: "pc_data F held c" using inv by (auto simp: pc_inv_def)
  define m where "m = find (\<lambda>p. pc_match path (pc_hash path) i (s_pages c p)) xs"
  have fnd: "pc_find c path (pc_hash path) i (s_mru c) = Some (case m of None \<Rightarrow> PC_NIL | Some p \<Rightarrow> p)"
    unfolding m_def by (rule pc_find_list[OF l(1)])
  have "dseg PC_NIL (\<lambda>i. ln (s_pages c i)) (\<lambda>i. lp (s_pages c i)) PC_NIL (s_mru c) xs (s_lru c) PC_NIL" using l(1) by (simp add: lru_list_def)
  moreover have "xs \<noteq> []" using l(2) by (metis empty_iff empty_set lessThan_iff zero_less_numeral)
  ultimately have lru: "s_lru c = last xs" "last xs \<in> set xs" using dseg_ends(1) by (metis, simp)
  show ?thesis
  proof (cases m)
    case (Some p)
    then have p: "p < PC_NPAGES" "pc_match path (pc_hash path) i (s_pages c p)"
      using l(2) by (auto simp: m_def find_Some_iff)
    have "pc_get rd path (pc_hash path) i c = Some (p, pc_touch p c)" using fnd Some p(1) by (simp add: pc_get_def)
    moreover have "got_page F held rd path i c p (pc_touch p c)"
      using touch_inv[OF d inv(2) l p(1)] p inv(2) same_pagesD[OF touch_same, of p c]
      by (simp add: got_page_def pc_match_def)
    ultimately show ?thesis by blast
  next
    case None
    define p where "p = s_lru c"
    have p: "p < PC_NPAGES" using lru l(2) by (auto simp: p_def)
    obtain fr c1 where pick: "pc_pick_frame p c = (fr, c1)" by fastforce
    note pk = pick_frame[OF d p free pick]
    have c1: "s_pages c1 = s_pages c" "fmem c1 = fmem c" "s_mru c1 = s_mru c" "s_lru c1 = s_lru c" "s_inited c1"
      using pick_frame_pages[OF pick] inv(2) by auto
    have fr: "fr \<noteq> 0" "fr \<noteq> PMM_ALLOC_ERROR" "held (fr div 0x1000) = 0" "free_frame_count (pool c) \<le> free_frame_count (pool c1) + 1"
      using pk by (auto simp: picked_def)
    define got where "got = fst (rd path (i * PC_PGSZ) fr c1)"
    have "length (fmem c1 a) = PGSZ" for a using d c1(2) by (simp add: pc_data_def)
    from rd[unfolded reads_files_def, rule_format, OF this, of path "i * PC_PGSZ" fr] obtain bs where
      bs: "snd (rd path (i * PC_PGSZ) fr c1) = c1\<lparr>fmem := (fmem c1)(fr := bs)\<rparr>" and lbs: "length bs = PGSZ"
      and ok: "0 \<le> got \<Longrightarrow> got = int (length (take PGSZ (drop (unat (i * PC_PGSZ)) (F path))))"
        "0 \<le> got \<Longrightarrow> take (nat got) bs = take PGSZ (drop (unat (i * PC_PGSZ)) (F path))"
      unfolding got_def by auto
    then have r: "rd path (i * PC_PGSZ) fr c1 = (got, c1\<lparr>fmem := (fmem c1)(fr := bs)\<rparr>)" by (simp add: got_def prod_eq_iff)
    have held: "fmem c a = ((fmem c)(fr := x)) a" if "0 < held (a div 0x1000)" for a x using that fr(3) by auto
    have get: "pc_get rd path (pc_hash path) i c =
        (if got < 0 then Some (PC_NIL, upd_slot p (\<lambda>q. q\<lparr>frame := fr, valid := False\<rparr>) (c1\<lparr>fmem := (fmem c1)(fr := bs)\<rparr>))
         else Some (p, pc_fill path (pc_hash path) i p fr got (c1\<lparr>fmem := (fmem c1)(fr := bs)\<rparr>)))"
      using fnd None pick fr(1,2) p by (simp add: pc_get_def p_def[symmetric] r)
    show ?thesis
    proof (cases "got < 0")
      case True
      let ?c = "upd_slot p (\<lambda>q. q\<lparr>frame := fr, valid := False\<rparr>) (c1\<lparr>fmem := (fmem c1)(fr := bs)\<rparr>)"
      have "pc_data F held ?c" by (subst upd_slot_const, rule replace_frame[OF d p pk c1(1,2) lbs]) simp_all
      moreover have "lru_list ?c xs" by (rule lru_list_upd) (use l(1) c1(1-4) in \<open>simp_all add: lru_list_def\<close>)
      ultimately have "got_page F held rd path i c PC_NIL ?c"
        using True r held c1(2,5) fr(4) l(2) by (auto simp: got_page_def pc_inv_def intro!: exI[of _ fr] exI[of _ c1])
      then show ?thesis using get True by auto
    next
      case False
      define bs' where "bs' = (if nat got < unat PC_PGSZ then take (nat got) bs @ replicate (unat PC_PGSZ - nat got) 0 else bs)"
      define g where "g = (s_pages c p)\<lparr>frame := fr, valid := True, phash := pc_hash path, pidx := i, plen := of_int got, ppath := take (PC_PATH_MAX - 1) path\<rparr>"
      let ?c = "upd_slot p (\<lambda>_. g) (c1\<lparr>fmem := (fmem c1)(fr := bs')\<rparr>)"
      have "length bs' = PGSZ" using lbs by (auto simp: bs'_def)
      moreover have "cached F ((fmem c)(fr := bs')) g"
        unfolding bs'_def by (rule filled_cached[OF _ _ lbs i path]) (use False fr(1) ok in \<open>auto simp: g_def\<close>)
      ultimately have dc: "pc_data F held ?c" by (intro replace_frame[OF d p pk c1(1,2)]) (auto simp: g_def)
      have lc: "lru_list ?c xs"
      proof -
        have "(\<lambda>j. ln (s_pages ?c j)) = (\<lambda>j. ln (s_pages c j))" "(\<lambda>j. lp (s_pages ?c j)) = (\<lambda>j. lp (s_pages c j))"
          by (auto simp: g_def c1(1))
        then show ?thesis using l(1) c1(3,4) by (simp add: lru_list_def)
      qed
      have fill: "pc_fill path (pc_hash path) i p fr got (c1\<lparr>fmem := (fmem c1)(fr := bs)\<rparr>) = pc_touch p ?c"
        by (simp add: pc_fill_def bs'_def g_def Let_def upd_slot_def c1(1))
      have "got_page F held rd path i c p (pc_touch p ?c)"
        using touch_inv[OF dc _ lc l(2) p] held c1(2,5) fr(4) p path same_pagesD[OF touch_same, of p ?c]
        by (simp add: got_page_def g_def)
      then show ?thesis using get False fill by auto
    qed
  qed
qed

section \<open>Reading\<close>

text \<open>The part of a file that a chunk of a page covers.\<close>

lemma page_chunk:
  assumes "cur = k * PGSZ + poff" "poff < PGSZ" "n \<le> length (take PGSZ (drop (k * PGSZ) bs)) - poff"
  shows "take n (drop poff (take PGSZ (drop (k * PGSZ) bs) @ zs)) = take n (drop cur bs)"
proof -
  have d: "drop poff (take PGSZ (drop (k * PGSZ) bs)) = take (PGSZ - poff) (drop cur bs)"
    by (simp add: drop_take assms(1) add.commute)
  have "n \<le> PGSZ - poff" "n \<le> length (drop poff (take PGSZ (drop (k * PGSZ) bs)))" using assms(3) by auto
  then have "take n (drop poff (take PGSZ (drop (k * PGSZ) bs) @ zs)) = take n (drop poff (take PGSZ (drop (k * PGSZ) bs)))"
    by simp
  then show ?thesis unfolding d using \<open>n \<le> PGSZ - poff\<close> by (simp add: min_def)
qed

lemma take_step: "take (d + n) (drop off xs) = take d (drop off xs) @ take n (drop (off + d) xs)"
  by (simp add: take_add add.commute)

lemma file_page_length: "length (file_page F path i) = min PGSZ (length (F path) - unat i * PGSZ)"
  by (simp add: file_page_def)

definition read_done :: "(string \<Rightarrow> u8 list) \<Rightarrow> (u32 \<Rightarrow> nat) \<Rightarrow> read_at \<Rightarrow> string \<Rightarrow> nat \<Rightarrow> nat \<Rightarrow> pcache \<Rightarrow> int \<times> u8 list \<times> pcache \<Rightarrow> bool" where
  "read_done F held rd path off n c res \<longleftrightarrow> (case res of (r, out, c') \<Rightarrow>
     pc_inv F held c' \<and> (\<forall>a. 0 < held (a div 0x1000) \<longrightarrow> fmem c' a = fmem c a) \<and>
     (r = int (length out) \<and> out = take n (drop off (F path)) \<or>
      (\<exists>i fr d. fst (rd path (i * PC_PGSZ) fr d) < 0) \<and>
      (\<exists>m. out = take m (take n (drop off (F path))) \<and> r = (if out = [] then - 1 else int (length out)))))"

lemma read_done_trans:
  "read_done F held rd path off n c' res \<Longrightarrow> (\<forall>a. 0 < held (a div 0x1000) \<longrightarrow> fmem c' a = fmem c a) \<Longrightarrow> read_done F held rd path off n c res"
  by (auto simp: read_done_def)

lemma read_loop:
  assumes "pc_inv F held c" "s_inited c" and rd: "reads_files rd F" and path: "length path < PC_PATH_MAX"
    and off: "unat off + unat n < 2 ^ 32" and "d \<le> n"
    and "out = take (unat d) (drop (unat off) (F path))" "length out = unat d"
    and "d < n \<longrightarrow> (unat off + unat n) div PGSZ - (unat off + unat d) div PGSZ + 1 \<le> free_frame_count (pool c)"
  shows "\<exists>res. pc_read_loop rd path (pc_hash path) off n d out c = Some res \<and> read_done F held rd path (unat off) (unat n) c res"
  using assms(1,2,6-9)
proof (induction "unat n - unat d" arbitrary: d out c rule: less_induct)
  case less
  note inv = less.prems(1,2) and dn = less.prems(3) and out = less.prems(4,5) and fr = less.prems(6)
  show ?case
  proof (cases "d < n")
    case False
    then have "d = n" using dn by simp
    then show ?thesis using out inv by (subst pc_read_loop.simps) (simp add: read_done_def)
  next
    case True
    define cur k poff where "cur = off + d" and "k = cur div PC_PGSZ" and "poff = cur mod PC_PGSZ"
    have ucur: "unat cur = unat off + unat d" using off True by (simp add: cur_def unat_word_ariths word_less_nat_alt)
    have uk: "unat k = unat cur div PGSZ" "unat poff = unat cur mod PGSZ" by (simp_all add: k_def poff_def unat_div unat_mod)
    have split: "unat cur = unat k * PGSZ + unat poff" "unat poff < PGSZ" using uk by simp_all
    have k32: "unat k * PGSZ < 2 ^ 32" using split(1) unsigned_less[where ?'a = nat, of cur] by simp
    obtain p c' where get: "pc_get rd path (pc_hash path) k c = Some (p, c')" and g: "got_page F held rd path k c p c'"
      using pc_get_page[OF inv rd path k32] fr True by auto
    have gi: "pc_inv F held c'" "s_inited c'" "\<forall>a. 0 < held (a div 0x1000) \<longrightarrow> fmem c' a = fmem c a"
      "free_frame_count (pool c) \<le> free_frame_count (pool c') + 1" using g by (auto simp: got_page_def)
    define pg where "pg = s_pages c' p"
    define chunk where "chunk = (if plen pg - poff > n - d then n - d else plen pg - poff)"
    define bs where "bs = take (unat chunk) (drop (unat poff) (fmem c' (frame pg)))"
    have loop: "pc_read_loop rd path (pc_hash path) off n d out c =
      (if p = PC_NIL then Some (if d \<noteq> 0 then int (unat d) else - 1, out, c')
       else if plen pg \<le> poff then Some (int (unat d), out, c')
       else if length bs < unat chunk then None
       else if plen pg < PC_PGSZ then Some (int (unat (d + chunk)), out @ bs, c')
       else pc_read_loop rd path (pc_hash path) off n (d + chunk) (out @ bs) c')"
      by (subst pc_read_loop.simps) (use True get in \<open>simp add: cur_def k_def poff_def pg_def chunk_def bs_def Let_def cong: if_cong\<close>)
    note fr = fr[rule_format, OF True]
    show ?thesis
    proof (cases "p = PC_NIL")
      case nil: True
      have dpos: "d \<noteq> 0 \<longleftrightarrow> out \<noteq> []" using out(2) by (metis length_0_conv unat_eq_0)
      have "out = take (unat d) (take (unat n) (drop (unat off) (F path)))" using out(1) dn by (simp add: min_def word_le_nat_alt)
      then have "read_done F held rd path (unat off) (unat n) c (if d \<noteq> 0 then int (unat d) else - 1, out, c')"
        (is "read_done _ _ _ _ _ _ _ (?r, _, _)")
      proof -
        assume o: "out = take (unat d) (take (unat n) (drop (unat off) (F path)))"
        have "?r = (if out = [] then - 1 else int (length out))" using dpos out(2) by auto
        moreover have "\<exists>i fr d. fst (rd path (i * PC_PGSZ) fr d) < 0" using g nil by (auto simp: got_page_def)
        ultimately show ?thesis unfolding read_done_def prod.case using gi(1,3) o by blast
      qed
      then show ?thesis using loop nil by simp
    next
      case page: False
      have p: "p < PC_NPAGES" "valid pg" "ppath pg = path" "pidx pg = k" using g page by (auto simp: got_page_def pg_def)
      have "cached F (fmem c') pg" using gi(1) p(1,2) by (auto simp: pc_inv_def pc_data_def pg_def)
      then have pl: "unat (plen pg) = length (file_page F path k)"
        and mem: "fmem c' (frame pg) = file_page F path k @ replicate (PGSZ - length (file_page F path k)) 0"
        using p(3,4) file_page_length[of F path k] by (auto simp: cached_def unat_of_nat)
      note fl = file_page_length[of F path k]
      show ?thesis
      proof (cases "plen pg \<le> poff")
        case eof: True
        then have "length (F path) \<le> unat cur" using pl fl split by (auto simp: word_le_nat_alt)
        then have "out = take (unat n) (drop (unat off) (F path))" using out True ucur by (simp add: word_less_nat_alt)
        then have "read_done F held rd path (unat off) (unat n) c (int (unat d), out, c')"
          using gi out(2) by (auto simp: read_done_def)
        then show ?thesis using loop page eof by simp
      next
        case False
        have ul: "unat (plen pg - poff) = length (file_page F path k) - unat poff" using False pl by (simp add: unat_sub)
        have un: "unat (n - d) = unat n - unat d" using dn by (simp add: unat_sub)
        have uc: "unat chunk = min (unat n - unat d) (length (file_page F path k) - unat poff)"
          using ul un by (auto simp: chunk_def word_less_nat_alt)
        have cpos: "0 < unat chunk" using uc True False pl by (auto simp: word_less_nat_alt word_le_nat_alt)
        have bs: "bs = take (unat chunk) (drop (unat cur) (F path))"
          unfolding bs_def mem unfolding file_page_def
          by (rule page_chunk[OF split]) (use uc in \<open>simp add: file_page_def\<close>)
        have "unat chunk \<le> length (F path) - unat cur" using uc fl split by (auto simp: min_def split: if_splits)
        then have lbs: "length bs = unat chunk" by (simp add: bs)
        have ud: "unat (d + chunk) = unat d + unat chunk" using uc off True by (simp add: unat_word_ariths word_less_nat_alt)
        have out': "out @ bs = take (unat (d + chunk)) (drop (unat off) (F path))"
          unfolding ud take_step using out(1) bs ucur by simp
        show ?thesis
        proof (cases "plen pg < PC_PGSZ")
          case last: True
          have "out @ bs = take (unat n) (drop (unat off) (F path))"
          proof (cases "unat chunk = unat n - unat d")
            case True
            then show ?thesis using out' ud dn by (simp add: word_le_nat_alt)
          next
            case False
            then have "unat chunk = length (file_page F path k) - unat poff" "unat chunk < unat n - unat d" using uc by auto
            moreover have "length (file_page F path k) = length (F path) - unat k * PGSZ" using last pl fl by (auto simp: word_less_nat_alt)
            ultimately have "length (F path) = unat off + unat (d + chunk)" using ud ucur split(1) cpos by linarith
            then show ?thesis using out' ud \<open>unat chunk < unat n - unat d\<close> by simp
          qed
          moreover have "int (unat (d + chunk)) = int (length (out @ bs))" using ud lbs out(2) by simp
          ultimately have "read_done F held rd path (unat off) (unat n) c (int (unat (d + chunk)), out @ bs, c')"
            using gi by (auto simp: read_done_def)
          then show ?thesis using loop page False lbs last by simp
        next
          case full: False
          have f4: "length (file_page F path k) = PGSZ" using full pl fl by (auto simp: word_less_nat_alt)
          have le: "d + chunk \<le> n" using ud uc dn unfolding word_le_nat_alt by linarith
          have "(unat off + unat n) div PGSZ - (unat off + unat (d + chunk)) div PGSZ + 1 \<le> free_frame_count (pool c')" if "d + chunk < n"
          proof -
            have "unat off + unat (d + chunk) = (unat k + 1) * PGSZ" using that uc f4 ud ucur split by (auto simp: word_less_nat_alt)
            then have "(unat off + unat (d + chunk)) div PGSZ = unat k + 1" by simp
            moreover have "unat k + 1 \<le> (unat off + unat n) div PGSZ"
              using calculation le by (metis add_le_cancel_left div_le_mono word_le_nat_alt)
            ultimately show ?thesis using fr gi(4) uk(1) ucur by linarith
          qed
          note fr' = this
          have dec: "unat n - unat (d + chunk) < unat n - unat d" using ud cpos uc by linarith
          have len': "length (out @ bs) = unat (d + chunk)" using lbs ud out(2) by simp
          obtain res where "pc_read_loop rd path (pc_hash path) off n (d + chunk) (out @ bs) c' = Some res"
              "read_done F held rd path (unat off) (unat n) c' res"
            using less.hyps[OF dec gi(1,2) le out' len'] fr' by blast
          then show ?thesis using loop page False lbs full read_done_trans gi(3) by auto
        qed
      qed
    qed
  qed
qed

lemma pages_touched: "(off + n) div PGSZ - off div PGSZ \<le> n div PGSZ + 1"
proof -
  have "off mod PGSZ < PGSZ" "n mod PGSZ < PGSZ" by simp_all
  then have "off mod PGSZ + n mod PGSZ < 2 * PGSZ" by linarith
  then have "(off mod PGSZ + n mod PGSZ) div PGSZ < 2" by (simp only: div_less_iff_less_mult zero_less_numeral)
  moreover have "(off + n) div PGSZ = off div PGSZ + n div PGSZ + (off mod PGSZ + n mod PGSZ) div PGSZ" by (rule div_add1_eq)
  ultimately show ?thesis by linarith
qed

lemma pagecache_read_result:
  assumes inv: "pc_inv F held c" and rd: "reads_files rd F" and path: "length path < PC_PATH_MAX"
    and free: "unat len div PGSZ + 2 \<le> free_frame_count (pool c)"
  shows "\<exists>res. pagecache_read rd path sz off len c = Some res \<and>
    read_done F held rd path (unat off) (min (unat len) (unat sz - unat off)) c res"
proof (cases "sz \<le> off")
  case True
  then have "unat sz - unat off = 0" by (simp add: word_le_nat_alt)
  then have "read_done F held rd path (unat off) (min (unat len) (unat sz - unat off)) c (0, [], c)"
    using inv by (simp add: read_done_def)
  moreover have "pagecache_read rd path sz off len c = Some (0, [], c)" using True by (simp add: pagecache_read_def)
  ultimately show ?thesis by blast
next
  case False
  define n where "n = (if len < sz - off then len else sz - off)"
  define c0 where "c0 = (if s_inited c then c else pc_init c)"
  have us: "unat (sz - off) = unat sz - unat off" using False by (simp add: unat_sub)
  have un: "unat n = min (unat len) (unat sz - unat off)" using us by (auto simp: n_def word_less_nat_alt)
  have c0: "pc_inv F held c0" "s_inited c0" using init_data[OF inv] by (simp_all add: c0_def)
  have same: "pool c0 = pool c" "fmem c0 = fmem c" by (auto simp: c0_def pc_init_def)
  have off: "unat off + unat n < 2 ^ 32" using un False unsigned_less[where ?'a = nat, of sz] by (simp add: word_le_nat_alt)
  have "unat n div PGSZ \<le> unat len div PGSZ" using un by (simp add: div_le_mono)
  then have fr: "(unat off + unat n) div PGSZ - (unat off + unat (0::u32)) div PGSZ + 1 \<le> free_frame_count (pool c0)"
    using pages_touched[of "unat off" "unat n"] free same by simp
  obtain res where "pc_read_loop rd path (pc_hash path) off n 0 [] c0 = Some res" "read_done F held rd path (unat off) (unat n) c0 res"
    using read_loop[OF c0 rd path off, of 0 "[]"] fr by auto
  moreover have "pagecache_read rd path sz off len c = pc_read_loop rd path (pc_hash path) off n 0 [] c0"
    using False by (simp add: pagecache_read_def n_def c0_def Let_def)
  ultimately show ?thesis using read_done_trans[of F held rd path "unat off" "unat n" c0 res c] same un by auto
qed

section \<open>Pinning a page\<close>

lemma pagecache_acquire_result:
  assumes inv: "pc_inv F held c" and rd: "reads_files rd F" and path: "length path < PC_PATH_MAX"
    and free: "0 < free_frame_count (pool c)" and held: "\<forall>q. held q < 254"
  shows "\<exists>fr n c'. pagecache_acquire rd path sz i c = Some (fr, n, c') \<and>
    (if fr = 0 then pc_inv F held c' \<and> (unat sz \<le> unat i * PGSZ \<or> (\<exists>fr d. fst (rd path (i * PC_PGSZ) fr d) < 0))
     else pc_inv F (held(fr div 0x1000 := held (fr div 0x1000) + 1)) c' \<and> unat n = length (file_page F path i) \<and>
       fmem c' fr = file_page F path i @ replicate (PGSZ - length (file_page F path i)) 0) \<and>
    (\<forall>a. 0 < held (a div 0x1000) \<longrightarrow> fmem c' a = fmem c a)"
proof (cases "unat sz \<le> unat i * PGSZ")
  case True
  then show ?thesis using inv by (simp add: pagecache_acquire_def)
next
  case False
  define c0 where "c0 = (if s_inited c then c else pc_init c)"
  have c0: "pc_inv F held c0" "s_inited c0" using init_data[OF inv] by (simp_all add: c0_def)
  have same: "pool c0 = pool c" "fmem c0 = fmem c" by (auto simp: c0_def pc_init_def)
  have i: "unat i * PGSZ < 2 ^ 32" using False unsigned_less[where ?'a = nat, of sz] by simp
  obtain p c' where get: "pc_get rd path (pc_hash path) i c0 = Some (p, c')" and g: "got_page F held rd path i c0 p c'"
    using pc_get_page[OF c0 rd path i] free same by auto
  have gi: "pc_inv F held c'" "s_inited c'" "\<forall>a. 0 < held (a div 0x1000) \<longrightarrow> fmem c' a = fmem c a"
    using g same by (auto simp: got_page_def)
  have acq: "pagecache_acquire rd path sz i c = (if p = PC_NIL \<or> frame (s_pages c' p) = 0 then Some (0, 0, c')
      else Some (frame (s_pages c' p), plen (s_pages c' p), c'\<lparr>pool := pmm_inc_ref (frame (s_pages c' p)) (pool c')\<rparr>))"
    using False get by (simp add: pagecache_acquire_def c0_def[symmetric] Let_def)
  show ?thesis
  proof (cases "p = PC_NIL")
    case True
    then show ?thesis using acq gi g by (auto simp: got_page_def)
  next
    case page: False
    define pg where "pg = s_pages c' p"
    have p: "p < PC_NPAGES" "valid pg" "ppath pg = path" "pidx pg = i" using g page by (auto simp: got_page_def pg_def)
    have d: "pc_data F held c'" using gi(1) by (simp add: pc_inv_def)
    have "cached F (fmem c') pg" using d p(1,2) by (auto simp: pc_data_def pg_def)
    then have fr: "frame pg \<noteq> 0" and pl: "unat (plen pg) = length (file_page F path i)"
      and mem: "fmem c' (frame pg) = file_page F path i @ replicate (PGSZ - length (file_page F path i)) 0"
      using p(3,4) file_page_length[of F path i] by (auto simp: cached_def unat_of_nat)
    let ?q = "frame pg div 0x1000" and ?g = "\<lambda>j. frame (s_pages c' j)"
    have inv': "pmm_inv (pool c')" "\<And>q. frame_refs (pool c') q = slot_refs ?g q + held q" using d by (auto simp: pc_data_def)
    have one: "slot_refs ?g ?q = 1"
    proof -
      have "(\<Sum>j<PC_NPAGES. if ?g j \<noteq> 0 \<and> ?g j div 0x1000 = ?q then 1 else 0) = (\<Sum>j<PC_NPAGES. if j = p then 1 else (0::nat))"
      proof (rule sum.cong[OF refl])
        fix j assume j: "j \<in> {..<PC_NPAGES}"
        have "?g j AND 0xFFF = 0" "?g p AND 0xFFF = 0" using d j p(1) by (auto simp: pc_data_def)
        moreover have "j = p \<or> ?g p \<noteq> ?g j" using d j p(1) fr unfolding pc_data_def pg_def by (metis lessThan_iff)
        ultimately show "(if ?g j \<noteq> 0 \<and> ?g j div 0x1000 = ?q then 1 else 0) = (if j = p then 1 else (0::nat))"
          using same_frame[of "?g j" "?g p"] fr by (auto simp: pg_def)
      qed
      also have "\<dots> = 1" using p(1) by (simp add: sum.delta)
      finally show ?thesis by (simp add: slot_refs_def)
    qed
    have "frame_refs (pool c') ?q = 1 + held ?q" using inv'(2)[of ?q] one by simp
    then have refs: "frame_refs (pmm_inc_ref (frame pg) (pool c')) = (frame_refs (pool c'))(?q := frame_refs (pool c') ?q + 1)"
      using pmm.refs_inc[OF inv'(1), of "frame pg"] held[rule_format, of ?q] by simp
    have "pc_data F (held(?q := held ?q + 1)) (c'\<lparr>pool := pmm_inc_ref (frame pg) (pool c')\<rparr>)"
      unfolding pc_data_def
    proof (intro conjI allI)
      show "pmm_inv (pool (c'\<lparr>pool := pmm_inc_ref (frame pg) (pool c')\<rparr>))" using pmm.inv_inc[OF inv'(1)] by simp
      show "0 \<notin> managed_frames (pool (c'\<lparr>pool := pmm_inc_ref (frame pg) (pool c')\<rparr>))"
        using pmm.managed_inc[OF inv'(1)] d by (simp add: pc_data_def)
      show "frame_refs (pool (c'\<lparr>pool := pmm_inc_ref (frame pg) (pool c')\<rparr>)) q =
          slot_refs (\<lambda>i. frame (s_pages (c'\<lparr>pool := pmm_inc_ref (frame pg) (pool c')\<rparr>) i)) q + (held(?q := held ?q + 1)) q" for q
        using refs inv'(2) by simp
    qed (use d in \<open>simp_all add: pc_data_def\<close>)
    then have "pc_inv F (held(?q := held ?q + 1)) (c'\<lparr>pool := pmm_inc_ref (frame pg) (pool c')\<rparr>)"
      using gi by (simp add: pc_inv_def)
    then show ?thesis using acq page fr pl mem gi(3) by (simp add: pg_def[symmetric])
  qed
qed

section \<open>Dropping pages\<close>

lemma data_invalid:
  assumes "pc_data F held c"
  shows "pc_data F held (upd_slot i (\<lambda>q. q\<lparr>valid := False\<rparr>) c)"
proof -
  let ?c = "upd_slot i (\<lambda>q. q\<lparr>valid := False\<rparr>) c"
  have f: "frame (s_pages ?c j) = frame (s_pages c j)" "valid (s_pages ?c j) \<Longrightarrow> s_pages ?c j = s_pages c j \<and> valid (s_pages c j)" for j
    by (auto split: if_splits)
  have "cached F (fmem c) (s_pages ?c j)" if "j < PC_NPAGES" "valid (s_pages ?c j)" for j
    using f(2)[OF that(2)] assms that(1) by (auto simp: pc_data_def)
  then show ?thesis using assms unfolding pc_data_def f by (simp only: upd_slot_sel) blast
qed

lemma data_release:
  assumes d: "pc_data F held c" and i: "i < PC_NPAGES" "\<not> valid (s_pages c i)"
  shows "pc_data F held (pc_release i c)"
proof (cases "frame (s_pages c i) = 0")
  case True
  then show ?thesis using d by (simp add: pc_release_def)
next
  case False
  let ?f = "frame (s_pages c i)" and ?g = "\<lambda>j. frame (s_pages c j)"
  let ?c = "upd_slot i (\<lambda>q. q\<lparr>frame := 0\<rparr>) (c\<lparr>pool := pmm_free_frame ?f (pool c)\<rparr>)"
  have inv: "pmm_inv (pool c)" "0 \<notin> managed_frames (pool c)" "\<And>q. frame_refs (pool c) q = slot_refs ?g q + held q"
    using d by (auto simp: pc_data_def)
  have rel: "pc_release i c = ?c" using False by (simp add: pc_release_def)
  have g: "(\<lambda>j. frame (s_pages ?c j)) = ?g(i := 0)" by auto
  have pages: "j \<noteq> i \<Longrightarrow> s_pages ?c j = s_pages c j" "frame (s_pages ?c i) = 0" "\<not> valid (s_pages ?c i)" "fmem ?c = fmem c"
      "pool ?c = pmm_free_frame ?f (pool c)" for j
    using i(2) by auto
  have refs: "frame_refs (pool ?c) q = slot_refs (?g(i := 0)) q + held q" for q
  proof -
    have pos: "0 < slot_refs ?g (?f div 0x1000)" using slot_refs_pos[OF i(1), of ?g] False by blast
    note u = slot_refs_upd[OF i(1), of ?g 0 q]
    show ?thesis
    proof (cases "q = ?f div 0x1000")
      case True
      have "slot_refs (?g(i := 0)) q + 1 = slot_refs ?g q" using u False True by simp
      then show ?thesis unfolding pages(5) pmm.refs_free[OF inv(1)] using inv(3)[of q] pos True by simp
    next
      case ne: False
      have "slot_refs (?g(i := 0)) q = slot_refs ?g q" using u ne by simp
      then show ?thesis unfolding pages(5) pmm.refs_free[OF inv(1)] using inv(3)[of q] ne by simp
    qed
  qed
  show ?thesis unfolding rel pc_data_def g
  proof (intro conjI allI impI)
    show "pmm_inv (pool ?c)" "0 \<notin> managed_frames (pool ?c)" unfolding pages(5) using pmm.inv_free pmm.managed_free inv by auto
    show "frame_refs (pool ?c) q = slot_refs (?g(i := 0)) q + held q" for q by (rule refs)
    show "length (fmem ?c a) = PGSZ" for a using d pages(4) by (simp add: pc_data_def)
    show "frame (s_pages ?c j) AND 0xFFF = 0" if "j < PC_NPAGES" for j
      using d that pages(1)[of j] pages(2) by (cases "j = i") (auto simp: pc_data_def)
    show "frame (s_pages ?c j) \<noteq> frame (s_pages ?c k)" if "j < PC_NPAGES" "k < PC_NPAGES" "j \<noteq> k \<and> frame (s_pages ?c j) \<noteq> 0" for j k
    proof -
      have "j \<noteq> i" using that pages(2) by metis
      have dis: "frame (s_pages c j) \<noteq> 0 \<Longrightarrow> frame (s_pages c j) \<noteq> frame (s_pages c k)" using d that unfolding pc_data_def by blast
      have fj: "frame (s_pages ?c j) = frame (s_pages c j)" using \<open>j \<noteq> i\<close> by simp
      have fk: "frame (s_pages ?c k) = (if k = i then 0 else frame (s_pages c k))" by simp
      show ?thesis using that(3) dis unfolding fj fk by simp
    qed
    show "cached F (fmem ?c) (s_pages ?c j)" if "j < PC_NPAGES" "valid (s_pages ?c j)" for j
    proof -
      have "j \<noteq> i" using that pages(3) by metis
      then show ?thesis using d that pages(1)[of j] pages(4) by (simp add: pc_data_def)
    qed
  qed
qed

lemma release_slots:
  "valid (s_pages (pc_release i c) j) = valid (s_pages c j)" "ppath (s_pages (pc_release i c) j) = ppath (s_pages c j)"
  "frame (s_pages (pc_release i c) j) = (if j = i then 0 else frame (s_pages c j))" "s_inited (pc_release i c) = s_inited c"
  "fmem (pc_release i c) = fmem c" "lru_list (pc_release i c) xs = lru_list c xs"
proof -
  have "(\<lambda>j. ln (s_pages (pc_release i c) j)) = (\<lambda>j. ln (s_pages c j))" "(\<lambda>j. lp (s_pages (pc_release i c) j)) = (\<lambda>j. lp (s_pages c j))"
      "s_mru (pc_release i c) = s_mru c" "s_lru (pc_release i c) = s_lru c"
    by (auto simp: pc_release_def)
  then show "lru_list (pc_release i c) xs = lru_list c xs" by (simp only: lru_list_def)
qed (auto simp: pc_release_def)

lemma invalidate_step:
  fixes path :: string
  assumes inv: "pc_inv F held c" "s_inited c" and i: "i < PC_NPAGES"
  defines "c' \<equiv> invalidate_slot path (pc_hash path) i c"
  shows "pc_inv F held c'" "s_inited c'" "fmem c' = fmem c" "valid (s_pages c' i) \<Longrightarrow> ppath (s_pages c' i) \<noteq> path"
    "valid (s_pages c' j) \<Longrightarrow> valid (s_pages c j)" "ppath (s_pages c' j) = ppath (s_pages c j)"
proof -
  obtain xs where l: "lru_list c xs" "set xs = {..<PC_NPAGES}" and d: "pc_data F held c" using inv by (auto simp: pc_inv_def)
  let ?hit = "valid (s_pages c i) \<and> phash (s_pages c i) = pc_hash path \<and> ppath (s_pages c i) = path"
  let ?c1 = "pc_release i (upd_slot i (\<lambda>q. q\<lparr>valid := False\<rparr>) c)"
  have c': "c' = (if ?hit then pc_push_back i (pc_unlink i ?c1) else c)" by (simp add: c'_def invalidate_slot_def Let_def)
  have d1: "pc_data F held ?c1" by (rule data_release[OF data_invalid[OF d] i]) simp
  have l1: "lru_list ?c1 xs" unfolding release_slots(6) by (rule lru_list_upd[OF l(1)]) simp
  have same: "same_pages ?c1 (pc_push_back i (pc_unlink i ?c1))" by (rule same_pages_trans[OF unlink_same push_back_same])
  note s = same_pagesD[OF same]
  have hit: "pc_inv F held (pc_push_back i (pc_unlink i ?c1))"
  proof -
    have "lru_list (pc_push_back i (pc_unlink i ?c1)) (remove1 i xs @ [i])" using to_back_list[OF l1] l(2) i by simp
    moreover have "set (remove1 i xs @ [i]) = {..<PC_NPAGES}" using l i by (auto simp: lru_list_def)
    ultimately show ?thesis using pc_data_same[OF same] d1 s(9) inv(2) release_slots(4) unfolding pc_inv_def by auto
  qed
  show "pc_inv F held c'" using hit inv(1) by (simp add: c')
  show "s_inited c'" using s(9) inv(2) by (simp add: c' release_slots)
  show "fmem c' = fmem c" using s(8) by (simp add: c' release_slots)
  show "valid (s_pages c' i) \<Longrightarrow> ppath (s_pages c' i) \<noteq> path"
  proof (cases ?hit)
    case False
    assume v: "valid (s_pages c' i)"
    have ci: "c' = c" unfolding c' by (rule if_not_P[OF False])
    then have "phash (s_pages c i) = pc_hash (ppath (s_pages c i))" using d v i by (auto simp: pc_data_def cached_def)
    then show ?thesis using False v ci by auto
  qed (use s(1) in \<open>auto simp: c' release_slots\<close>)
  show "valid (s_pages c' j) \<Longrightarrow> valid (s_pages c j)"
    by (cases ?hit) (use s(1)[of j] in \<open>auto simp: c' release_slots split: if_splits\<close>)
  show "ppath (s_pages c' j) = ppath (s_pages c j)"
    by (cases ?hit) (use s(3)[of j] in \<open>auto simp: c' release_slots split: if_splits\<close>)
qed

lemma invalidate_all:
  fixes path :: string
  assumes "pc_inv F held c" "s_inited c" "k \<le> PC_NPAGES"
  defines "c' \<equiv> fold (invalidate_slot path (pc_hash path)) [0..<k] c"
  shows "pc_inv F held c' \<and> s_inited c' \<and> fmem c' = fmem c \<and> (\<forall>i<k. valid (s_pages c' i) \<longrightarrow> ppath (s_pages c' i) \<noteq> path)"
  unfolding c'_def using assms(3)
proof (induction k)
  case 0
  then show ?case using assms(1,2) by simp
next
  case (Suc k)
  let ?c = "fold (invalidate_slot path (pc_hash path)) [0..<k] c"
  have ih: "pc_inv F held ?c" "s_inited ?c" "fmem ?c = fmem c" "\<forall>i<k. valid (s_pages ?c i) \<longrightarrow> ppath (s_pages ?c i) \<noteq> path"
    using Suc by auto
  have k: "k < PC_NPAGES" using Suc.prems by simp
  note st = invalidate_step[OF ih(1,2) k, of path]
  have "valid (s_pages (invalidate_slot path (pc_hash path) k ?c) i) \<longrightarrow> ppath (s_pages (invalidate_slot path (pc_hash path) k ?c) i) \<noteq> path" if "i < Suc k" for i
    using that ih(4) st(4) st(5,6)[of i] by (cases "i = k") auto
  then show ?case using st(1-3) ih(3) by simp
qed

lemma inv_file_change:
  assumes "pc_inv F held c" "\<forall>i<PC_NPAGES. valid (s_pages c i) \<longrightarrow> ppath (s_pages c i) \<noteq> path"
  shows "pc_inv (F(path := bs)) held c"
proof -
  have "cached (F(path := bs)) (fmem c) pg = cached F (fmem c) pg" if "ppath pg \<noteq> path" for pg
    using that by (simp add: cached_def file_page_def)
  then show ?thesis using assms by (auto simp: pc_inv_def pc_data_def)
qed

lemma pagecache_invalidate_inv:
  assumes "pc_inv F held c"
  shows "pc_inv (F(path := bs)) held (pagecache_invalidate path c)" "fmem (pagecache_invalidate path c) = fmem c"
proof -
  show "pc_inv (F(path := bs)) held (pagecache_invalidate path c)"
  proof (cases "s_inited c")
    case True
    then show ?thesis using invalidate_all[OF assms True order.refl, of path] inv_file_change
      unfolding pagecache_invalidate_def by auto
  next
    case False
    then have "pc_inv (F(path := bs)) held c" using assms by (intro inv_file_change) (auto simp: pc_inv_def)
    then show ?thesis using False by (simp add: pagecache_invalidate_def)
  qed
  show "fmem (pagecache_invalidate path c) = fmem c"
    using invalidate_all[OF assms _ order.refl, of path] by (simp add: pagecache_invalidate_def)
qed

lemma drop_slot_commute: "drop_slot i c = pc_release i (upd_slot i (\<lambda>q. q\<lparr>valid := False\<rparr>) c)"
  by (cases "s_pages c i") (simp add: drop_slot_def pc_release_def upd_slot_def)

lemma drop_all_data:
  assumes "pc_data F held c" "k \<le> PC_NPAGES"
  defines "c' \<equiv> fold drop_slot [0..<k] c"
  shows "pc_data F held c' \<and> fmem c' = fmem c \<and> (\<forall>i<k. \<not> valid (s_pages c' i) \<and> frame (s_pages c' i) = 0)"
  unfolding c'_def using assms(2)
proof (induction k)
  case (Suc k)
  let ?c = "fold drop_slot [0..<k] c"
  have ih: "pc_data F held ?c" "fmem ?c = fmem c" "\<forall>i<k. \<not> valid (s_pages ?c i) \<and> frame (s_pages ?c i) = 0" and k: "k < PC_NPAGES"
    using Suc by auto
  have "pc_data F held (drop_slot k ?c)"
    unfolding drop_slot_commute[of k] by (rule data_release[OF data_invalid[OF ih(1)] k]) simp
  then show ?case using ih(2,3) by (auto simp: drop_slot_commute[of k] release_slots less_Suc_eq)
qed (use assms(1) in simp)

lemma pagecache_drop_all_inv:
  assumes "pc_inv F held c"
  shows "pc_inv F held (pagecache_drop_all c)" "fmem (pagecache_drop_all c) = fmem c"
  using drop_all_data[of F held c PC_NPAGES] assms by (simp_all add: pc_inv_def pagecache_drop_all_def)

end
