(* ===== verification/Pagecache_Properties.thy ===== *)
theory Pagecache_Properties
  imports Pagecache_Ops Pmm_Properties Fd_Properties
begin

text \<open>
  The properties of the page cache, over runs in which the cache, the holders of pinned frames and the rest of
  the kernel share the physical memory manager.
\<close>

section \<open>Runs\<close>

text \<open>
  \<open>F\<close> is what the files hold, each under the one name that is used for it, \<open>held\<close> the references to each frame that are
  not the cache's. A step is a call that no other task interrupts (\<open>reads_files\<close>), a change of a file together with the invalidation of its
  name, which the VFS calls, or a step of the rest of the kernel on frames that are not in the cache: taking one, sharing one, giving
  a reference back, writing. A written address is the label of the step.
\<close>

inductive pc_step :: "(string \<Rightarrow> u8 list) \<Rightarrow> (u32 \<Rightarrow> nat) \<Rightarrow> pcache \<Rightarrow> u32 option \<Rightarrow> (string \<Rightarrow> u8 list) \<Rightarrow> (u32 \<Rightarrow> nat) \<Rightarrow> pcache \<Rightarrow> bool" where
  read: "reads_files rd F \<Longrightarrow> length fname < PC_PATH_MAX \<Longrightarrow> unat len div PGSZ + 2 \<le> free_frame_count (pool c) \<Longrightarrow>
    pagecache_read rd fname sz off len c = Some (n, out, c') \<Longrightarrow> pc_step F held c None F held c'"
| acquire: "reads_files rd F \<Longrightarrow> length fname < PC_PATH_MAX \<Longrightarrow> 0 < free_frame_count (pool c) \<Longrightarrow> \<forall>q. held q < 254 \<Longrightarrow>
    pagecache_acquire rd fname sz i c = Some (fr, n, c') \<Longrightarrow>
    pc_step F held c None F (if fr = 0 then held else held(fr div 0x1000 := held (fr div 0x1000) + 1)) c'"
| change: "pc_step F held c None (F(fname := bs)) held (pagecache_invalidate fname c)"
| drop_all: "pc_step F held c None F held (pagecache_drop_all c)"
| others_take: "pmm_alloc_frame (pool c) = (a, t) \<Longrightarrow> a \<noteq> PMM_ALLOC_ERROR \<Longrightarrow>
    pc_step F held c None F (held(a div 0x1000 := 1)) (c\<lparr>pool := t\<rparr>)"
| others_share: "0 < held (a div 0x1000) \<Longrightarrow> frame_refs (pool c) (a div 0x1000) < 255 \<Longrightarrow>
    pc_step F held c None F (held(a div 0x1000 := held (a div 0x1000) + 1)) (c\<lparr>pool := pmm_inc_ref a (pool c)\<rparr>)"
| others_release: "0 < held (a div 0x1000) \<Longrightarrow>
    pc_step F held c None F (held(a div 0x1000 := held (a div 0x1000) - 1)) (c\<lparr>pool := pmm_free_frame a (pool c)\<rparr>)"
| others_write: "(\<And>i. frame (s_pages c i) \<noteq> a) \<Longrightarrow> length bs = PGSZ \<Longrightarrow> pc_step F held c (Some a) F held (c\<lparr>fmem := (fmem c)(a := bs)\<rparr>)"

inductive pc_run :: "(string \<Rightarrow> u8 list) \<Rightarrow> (u32 \<Rightarrow> nat) \<Rightarrow> pcache \<Rightarrow> bool" where
  boot: "pmm_inv (pool c) \<Longrightarrow> 0 \<notin> managed_frames (pool c) \<Longrightarrow> \<not> s_inited c \<Longrightarrow>
    (\<And>i. \<not> valid (s_pages c i) \<and> frame (s_pages c i) = 0) \<Longrightarrow> (\<And>a. length (fmem c a) = PGSZ) \<Longrightarrow> pc_run F (frame_refs (pool c)) c"
| step: "pc_run F held c \<Longrightarrow> pc_step F held c w F' held' c' \<Longrightarrow> pc_run F' held' c'"

text \<open>The steps during which a frame stays referenced outside the cache and is not written outside the cache.\<close>

inductive pinned_run :: "u32 \<Rightarrow> (string \<Rightarrow> u8 list) \<Rightarrow> (u32 \<Rightarrow> nat) \<Rightarrow> pcache \<Rightarrow> (string \<Rightarrow> u8 list) \<Rightarrow> (u32 \<Rightarrow> nat) \<Rightarrow> pcache \<Rightarrow> bool"
  for fr F0 held0 c0 where
  none: "pinned_run fr F0 held0 c0 F0 held0 c0"
| more: "pinned_run fr F0 held0 c0 F held c \<Longrightarrow> pc_step F held c w F' held' c' \<Longrightarrow> w \<noteq> Some fr \<Longrightarrow> 0 < held' (fr div 0x1000) \<Longrightarrow>
    pinned_run fr F0 held0 c0 F' held' c'"

lemma slot_refs_none: "(\<And>i. g i = 0) \<Longrightarrow> slot_refs g q = 0" by (simp add: slot_refs_def)

lemma inv_pool:
  assumes "pc_inv F held c" "pmm_inv t" "0 \<notin> managed_frames t" "\<And>q. frame_refs t q = slot_refs (\<lambda>i. frame (s_pages c i)) q + held' q"
  shows "pc_inv F held' (c\<lparr>pool := t\<rparr>)"
  using assms by (auto simp: pc_inv_def pc_data_def)

lemma inv_facts:
  assumes "pc_inv F held c"
  shows "pmm_inv (pool c)" "0 \<notin> managed_frames (pool c)" "frame_refs (pool c) q = slot_refs (\<lambda>i. frame (s_pages c i)) q + held q"
  using assms by (auto simp: pc_inv_def pc_data_def)

text \<open>A step keeps the invariant, and the bytes of the frames held outside the cache that it does not write.\<close>

lemma pc_step_inv:
  assumes "pc_step F held c w F' held' c'" "pc_inv F held c"
  shows "pc_inv F' held' c' \<and> (\<forall>a. 0 < held (a div 0x1000) \<and> w \<noteq> Some a \<longrightarrow> fmem c' a = fmem c a)"
  using assms
proof cases
  case (read rd fname len sz off n out)
  then show ?thesis using pagecache_read_result[OF assms(2) read(4-6), of sz off] by (auto simp: read_done_def)
next
  case (acquire rd fname sz i fr n)
  from pagecache_acquire_result[OF assms(2) acquire(4-7), of sz i] acquire show ?thesis by (auto split: if_splits)
next
  case (change fname bs)
  then show ?thesis using pagecache_invalidate_inv[OF assms(2)] by simp
next
  case drop_all
  then show ?thesis using pagecache_drop_all_inv[OF assms(2)] by simp
next
  case (others_take a t)
  note i = inv_facts[OF assms(2)]
  note f = pmm_count.alloc_fresh[OF i(1) others_take(5,6) i(2)]
  have "held (a div 0x1000) = 0" "slot_refs (\<lambda>i. frame (s_pages c i)) (a div 0x1000) = 0" using f(3) i(3)[of "a div 0x1000"] by auto
  then have "frame_refs t q = slot_refs (\<lambda>i. frame (s_pages c i)) q + (held(a div 0x1000 := 1)) q" for q
    using f(4)[of q] i(3)[of q] by auto
  moreover have "0 \<notin> managed_frames t" unfolding f(6) by (rule i(2))
  ultimately have "pc_inv F (held(a div 0x1000 := 1)) (c\<lparr>pool := t\<rparr>)" by (intro inv_pool[OF assms(2) f(5)])
  then show ?thesis using others_take by simp
next
  case (others_share a)
  note i = inv_facts[OF assms(2)]
  have r: "frame_refs (pmm_inc_ref a (pool c)) = (frame_refs (pool c))(a div 0x1000 := frame_refs (pool c) (a div 0x1000) + 1)"
    using pmm.refs_inc[OF i(1), of a] others_share i(3)[of "a div 0x1000"] by simp
  have "frame_refs (pmm_inc_ref a (pool c)) q = slot_refs (\<lambda>i. frame (s_pages c i)) q + (held(a div 0x1000 := held (a div 0x1000) + 1)) q" for q
    unfolding r by (simp add: i(3))
  then have "pc_inv F (held(a div 0x1000 := held (a div 0x1000) + 1)) (c\<lparr>pool := pmm_inc_ref a (pool c)\<rparr>)"
    using i pmm.inv_inc pmm.managed_inc by (intro inv_pool[OF assms(2)]) auto
  then show ?thesis using others_share by simp
next
  case (others_release a)
  note i = inv_facts[OF assms(2)]
  have "frame_refs (pmm_free_frame a (pool c)) q = slot_refs (\<lambda>i. frame (s_pages c i)) q + (held(a div 0x1000 := held (a div 0x1000) - 1)) q" for q
    unfolding pmm.refs_free[OF i(1)] using i(3)[of q] others_release by auto
  then have "pc_inv F (held(a div 0x1000 := held (a div 0x1000) - 1)) (c\<lparr>pool := pmm_free_frame a (pool c)\<rparr>)"
    using i pmm.inv_free pmm.managed_free by (intro inv_pool[OF assms(2)]) auto
  then show ?thesis using others_release by simp
next
  case (others_write a bs)
  then have "cached F ((fmem c)(a := bs)) (s_pages c i) = cached F (fmem c) (s_pages c i)" for i by (simp add: cached_def)
  with others_write assms(2) show ?thesis by (simp add: pc_inv_def pc_data_def)
qed

lemma pc_run_inv: "pc_run F held c \<Longrightarrow> pc_inv F held c"
proof (induction rule: pc_run.induct)
  case (boot c F)
  then have "slot_refs (\<lambda>i. frame (s_pages c i)) q = 0" for q by (intro slot_refs_none) simp
  with boot show ?case by (simp add: pc_inv_def pc_data_def)
next
  case (step F held c w F' held' c')
  then show ?case using pc_step_inv by blast
qed

lemma pinned_run_keeps:
  assumes "pinned_run fr F0 held0 c0 F held c" "pc_inv F0 held0 c0" "0 < held0 (fr div 0x1000)"
  shows "pc_inv F held c \<and> 0 < held (fr div 0x1000) \<and> fmem c fr = fmem c0 fr"
  using assms
proof (induction rule: pinned_run.induct)
  case (more F held c w F' held' c')
  then show ?case using pc_step_inv[OF more.hyps(2)] by auto
qed simp

section \<open>Properties\<close>

text \<open>
  C11. The page cache is transparent to calls that do not overlap. Let each file be read and changed under one name,
  and let no other task run while a call waits for the device. After any sequence of such reads, pins and changes of files with their
  invalidation, of emptying the cache, and of allocations, releases and writes of frames elsewhere in the kernel, a read
  through the cache returns if a frame is free for each page it may touch. If the
  device gives no error the result is exactly what the file holds at the offset, cut at the size and at
  the request, as a buffered descriptor at that position would read; after an error it is a beginning of it,
  or -1. No pinned frame changes, and every reference to a frame is one of the cache's or a holder's.
  (When calls do overlap this is lost, see \<open>overlapping_fill_breaks_pin\<close>; so it is with two names for a file and without
  a free frame, see \<open>cached_name_wins\<close> and \<open>pagecache_empty_pool_faults\<close>.)
\<close>

theorem pagecache_transparent:
  assumes run: "pc_run F held c" and rd: "reads_files rd F" and fname: "length fname < PC_PATH_MAX"
    and free: "unat len div PGSZ + 2 \<le> free_frame_count (pool c)"
  shows "\<exists>n out c'. pagecache_read rd fname sz off len c = Some (n, out, c') \<and>
    ((\<forall>o' fr d. 0 \<le> fst (rd fname o' fr d)) \<longrightarrow>
       n = int (length out) \<and> out = take (min (unat len) (unat sz - unat off)) (drop (unat off) (F fname)) \<and>
       (\<forall>e. fsize e = sz \<and> pos e = off \<and> off \<le> sz \<and> unat sz \<le> length (F fname) \<longrightarrow> map_option fst (file_read e (F fname) len) = Some out)) \<and>
    (\<exists>m. out = take m (take (min (unat len) (unat sz - unat off)) (drop (unat off) (F fname))) \<and> (n = int (length out) \<or> out = [] \<and> n = - 1)) \<and>
    (\<forall>a. 0 < held (a div 0x1000) \<longrightarrow> fmem c' a = fmem c a) \<and>
    (\<forall>q. frame_refs (pool c') q = slot_refs (\<lambda>i. frame (s_pages c' i)) q + held q)"
proof -
  let ?want = "take (min (unat len) (unat sz - unat off)) (drop (unat off) (F fname))"
  obtain n out c' where r: "pagecache_read rd fname sz off len c = Some (n, out, c')"
    and d: "read_done F held rd fname (unat off) (min (unat len) (unat sz - unat off)) c (n, out, c')"
    using pagecache_read_result[OF pc_run_inv[OF run] rd fname free, of sz off] by (metis prod_cases3)
  have err: "n = int (length out) \<and> out = ?want \<or> (\<exists>i fr d. fst (rd fname (i * PC_PGSZ) fr d) < 0) \<and>
      (\<exists>m. out = take m ?want \<and> n = (if out = [] then - 1 else int (length out)))" using d by (simp add: read_done_def)
  have buffered: "map_option fst (file_read e (F fname) len) = Some ?want"
    if "fsize e = sz" "pos e = off" "off \<le> sz" "unat sz \<le> length (F fname)" for e
  proof -
    have ua: "unat (sz - off) = unat sz - unat off" using that(3) by (simp add: unat_sub)
    define k where "k = (if len < sz - off then len else sz - off)"
    have k: "unat k = min (unat len) (unat sz - unat off)" using ua by (auto simp: k_def word_less_nat_alt)
    have "unat off + unat k \<le> length (F fname)" using k that(3,4) by (auto simp: word_le_nat_alt)
    moreover have "k = 0 \<Longrightarrow> ?want = []" using k by (metis take0 unat_0)
    ultimately show ?thesis using that k by (simp add: file_read_def Let_def k_def[symmetric])
  qed
  have beg: "\<exists>m. out = take m ?want \<and> (n = int (length out) \<or> out = [] \<and> n = - 1)"
  proof (cases "out = ?want \<and> n = int (length out)")
    case True
    then have "out = take (length ?want) ?want" by (simp only: take_all order.refl)
    then show ?thesis using True by blast
  next
    case False
    then show ?thesis using err by (auto split: if_splits)
  qed
  have exact: "n = int (length out) \<and> out = ?want" if "\<forall>o' fr d. 0 \<le> fst (rd fname o' fr d)" using err that by (meson not_less)
  have inv': "pc_inv F held c'" and pins: "\<forall>a. 0 < held (a div 0x1000) \<longrightarrow> fmem c' a = fmem c a" using d by (simp_all add: read_done_def)
  have "(\<forall>o' fr d. 0 \<le> fst (rd fname o' fr d)) \<longrightarrow> n = int (length out) \<and> out = ?want \<and>
      (\<forall>e. fsize e = sz \<and> pos e = off \<and> off \<le> sz \<and> unat sz \<le> length (F fname) \<longrightarrow> map_option fst (file_read e (F fname) len) = Some out)"
    using exact buffered by presburger
  then show ?thesis using r beg pins inv_facts(3)[OF inv'] by blast
qed

definition boot_cache :: pcache where
  "boot_cache = \<lparr>s_pages = \<lambda>_. \<lparr>valid = False, phash = 0, ppath = [], pidx = 0, plen = 0, frame = 0, lp = 0, ln = 0\<rparr>,
     s_mru = 0, s_lru = 0, s_inited = False, pool = pool3, fmem = \<lambda>_. replicate PGSZ 0\<rparr>"

definition greeting :: "string \<Rightarrow> u8 list" where "greeting _ = [104, 105]"

definition read_greeting :: read_at where
  "read_greeting _ off fr c = (let bs = take PGSZ (drop (unat off) [104, 105]) in
     (int (length bs), c\<lparr>fmem := (fmem c)(fr := bs @ drop (length bs) (fmem c fr))\<rparr>))"

lemma read_greeting_ok: "reads_files read_greeting greeting"
  by (auto simp: reads_files_def read_greeting_def greeting_def Let_def)

lemma boot_cache_run: "pc_run greeting (frame_refs pool3) boot_cache" "free_frame_count (pool boot_cache) = 3"
proof -
  have "0 \<notin> managed_frames pool3"
    using pool3_booting booting_used by (auto simp: managed_frames_def)
  then have "pc_run greeting (frame_refs (pool boot_cache)) boot_cache" using pool3_inv by (intro boot) (simp_all add: boot_cache_def)
  then show "pc_run greeting (frame_refs pool3) boot_cache" by (simp add: boot_cache_def)
  show "free_frame_count (pool boot_cache) = 3" using pool3_booting by (simp add: boot_cache_def free_frame_count_def)
qed

theorem pagecache_transparent_witness:
  "\<exists>n out c'. pagecache_read read_greeting ''/a'' 2 1 100 boot_cache = Some (n, out, c') \<and> n = 1 \<and> out = [105]"
proof -
  have l: "length ''/a'' < PC_PATH_MAX" by simp
  have f: "unat (100 :: u32) div PGSZ + 2 \<le> free_frame_count (pool boot_cache)" by (simp add: boot_cache_run(2))
  have "\<forall>o' fr d. 0 \<le> fst (read_greeting ''/a'' o' fr d)" by (simp add: read_greeting_def Let_def)
  then show ?thesis
    using pagecache_transparent[OF boot_cache_run(1) read_greeting_ok l f, of 2 1] by (auto simp: greeting_def)
qed

text \<open>
  C40. A pinned page stays, as long as calls do not overlap. \<open>pagecache_acquire\<close> returns if a frame is free, and the frame it hands out holds
  the page of the file followed by zeros, with a reference of the caller's own. From then on take any sequence of steps - reads, further pins, changes of
  files and the emptying of the cache, each without another task running while it waits for the device, and frames taken, shared, given back and written elsewhere - that leaves
  the frame a reference outside the cache and does not write to it outside the cache: the bytes in the frame are still the same, the frame is
  referenced, and the memory manager does not hand it out. A page past the end of the file, or a device error, gives frame 0. (No frame may be pinned
  254 times or more, where the reference count of the memory manager saturates.)
\<close>

theorem pagecache_pin_stays:
  assumes run: "pc_run F held c" and rd: "reads_files rd F" and name: "length fname < PC_PATH_MAX"
    and free: "0 < free_frame_count (pool c)" and held: "\<forall>q. held q < 254"
  shows "\<exists>fr n c'. pagecache_acquire rd fname sz i c = Some (fr, n, c') \<and>
    (fr = 0 \<longrightarrow> unat sz \<le> unat i * PGSZ \<or> (\<exists>f d. fst (rd fname (i * PC_PGSZ) f d) < 0)) \<and>
    (fr \<noteq> 0 \<longrightarrow> (let page = file_page F fname i; held' = held(fr div 0x1000 := held (fr div 0x1000) + 1) in
       fmem c' fr = page @ replicate (PGSZ - length page) 0 \<and> unat n = length page \<and>
       (\<forall>F2 held2 c2. pinned_run fr F held' c' F2 held2 c2 \<longrightarrow>
          fmem c2 fr = page @ replicate (PGSZ - length page) 0 \<and>
          frame_refs (pool c2) (fr div 0x1000) = slot_refs (\<lambda>j. frame (s_pages c2 j)) (fr div 0x1000) + held2 (fr div 0x1000) \<and>
          0 < held2 (fr div 0x1000) \<and>
          (\<forall>a t. pmm_alloc_frame (pool c2) = (a, t) \<and> a \<noteq> PMM_ALLOC_ERROR \<longrightarrow> a div 0x1000 \<noteq> fr div 0x1000))))"
proof -
  obtain fr n c' where a: "pagecache_acquire rd fname sz i c = Some (fr, n, c')"
    and res: "if fr = 0 then pc_inv F held c' \<and> (unat sz \<le> unat i * PGSZ \<or> (\<exists>f d. fst (rd fname (i * PC_PGSZ) f d) < 0))
       else pc_inv F (held(fr div 0x1000 := held (fr div 0x1000) + 1)) c' \<and> unat n = length (file_page F fname i) \<and>
         fmem c' fr = file_page F fname i @ replicate (PGSZ - length (file_page F fname i)) 0"
    using pagecache_acquire_result[OF pc_run_inv[OF run] rd name free held, of sz i] by blast
  have z: "fr = 0 \<longrightarrow> unat sz \<le> unat i * PGSZ \<or> (\<exists>f d. fst (rd fname (i * PC_PGSZ) f d) < 0)"
    and p: "fr \<noteq> 0 \<longrightarrow> pc_inv F (held(fr div 0x1000 := held (fr div 0x1000) + 1)) c' \<and> unat n = length (file_page F fname i) \<and>
       fmem c' fr = file_page F fname i @ replicate (PGSZ - length (file_page F fname i)) 0"
    using res by (meson, meson)
  let ?h = "held(fr div 0x1000 := held (fr div 0x1000) + 1)"
  have keep: "fmem c2 fr = fmem c' fr \<and> frame_refs (pool c2) (fr div 0x1000) = slot_refs (\<lambda>j. frame (s_pages c2 j)) (fr div 0x1000) + held2 (fr div 0x1000) \<and>
      0 < held2 (fr div 0x1000) \<and> (\<forall>a t. pmm_alloc_frame (pool c2) = (a, t) \<and> a \<noteq> PMM_ALLOC_ERROR \<longrightarrow> a div 0x1000 \<noteq> fr div 0x1000)"
    if k: "fr \<noteq> 0" "pinned_run fr F ?h c' F2 held2 c2" for F2 held2 c2
  proof -
    have inv: "pc_inv F ?h c'" "0 < ?h (fr div 0x1000)" using p k(1) by auto
    note r = pinned_run_keeps[OF k(2) inv]
    note i = inv_facts[OF conjunct1[OF r]]
    have "a div 0x1000 \<noteq> fr div 0x1000" if "pmm_alloc_frame (pool c2) = (a, t)" "a \<noteq> PMM_ALLOC_ERROR" for a t
      using pmm_count.alloc_fresh(3)[OF i(1) that i(2)] i(3)[of "fr div 0x1000"] r by auto
    then show ?thesis using r i(3) by blast
  qed
  show ?thesis using a z p keep unfolding Let_def by (intro exI[of _ fr] exI[of _ n] exI[of _ c'] conjI impI allI) auto
qed

theorem pagecache_pin_stays_witness:
  "\<exists>fr n c'. pagecache_acquire read_greeting ''/a'' 2 0 boot_cache = Some (fr, n, c') \<and> fr \<noteq> 0 \<and> fmem c' fr = [104, 105] @ replicate 4094 0 \<and>
     fmem (pagecache_drop_all (pagecache_invalidate ''/a'' c')) fr = [104, 105] @ replicate 4094 0"
proof -
  have l: "length ''/a'' < PC_PATH_MAX" by simp
  have f: "0 < free_frame_count (pool boot_cache)" by (simp add: boot_cache_run(2))
  have "frame_refs pool3 q = 0" for q using pool3_booting by (simp add: frame_refs_def booting_def)
  then have h: "\<forall>q. frame_refs pool3 q < 254" by simp
  have ok: "\<not> fst (read_greeting ''/a'' (0 * PC_PGSZ) f d) < 0" for f d by (simp add: read_greeting_def Let_def)
  obtain fr n c' where a: "pagecache_acquire read_greeting ''/a'' 2 0 boot_cache = Some (fr, n, c')" "fr \<noteq> 0"
      "fmem c' fr = [104, 105] @ replicate 4094 0"
    and k: "\<And>F2 held2 c2. pinned_run fr greeting ((frame_refs pool3)(fr div 0x1000 := frame_refs pool3 (fr div 0x1000) + 1)) c' F2 held2 c2 \<Longrightarrow>
      fmem c2 fr = [104, 105] @ replicate 4094 0"
    using pagecache_pin_stays[OF boot_cache_run(1) read_greeting_ok l f h, of 2 0] ok
    by (auto simp: Let_def greeting_def file_page_def)
  have "fmem (pagecache_drop_all (pagecache_invalidate ''/a'' c')) fr = [104, 105] @ replicate 4094 0"
    by (rule k, rule pinned_run.more[OF pinned_run.more[OF pinned_run.none pc_step.change] pc_step.drop_all]) simp_all
  then show ?thesis using a by blast
qed

section \<open>Where the cache goes wrong\<close>

text \<open>
  Overlapping calls. A slot that is being refilled keeps its old name and its frame until \<open>vfs_read_at\<close> returns. Let a read miss and
  choose the least recently used slot, which holds a page of \<open>g\<close> with no mapping. While it waits for the disk another task
  pins that page: it gets the frame, with the right bytes and a reference. Then the read
  goes on and fills the frame with the page of its own file: the bytes under the other task's mapping have changed.
\<close>

definition waiting_read :: "read_at \<Rightarrow> string \<Rightarrow> u32 \<Rightarrow> u32 \<Rightarrow> read_at" where
  "waiting_read rd g sz j fname off fr c =
     (case pagecache_acquire rd g sz j c of None \<Rightarrow> rd fname off fr c | Some (_, _, c') \<Rightarrow> rd fname off fr c')"

theorem overlapping_fill_breaks_pin:
  assumes inv: "pc_inv F held c" "s_inited c" and rd: "reads_files rd F" "\<And>h off fr d. 0 \<le> fst (rd h off fr d)"
    and lru: "s_lru c = p" "p < PC_NPAGES" "valid (s_pages c p)" "pmm_ref_count (frame (s_pages c p)) (pool c) = 1"
    and g: "ppath (s_pages c p) = g" "pidx (s_pages c p) = j" "pc_find c g (pc_hash g) j (s_mru c) = Some p" "unat j * PGSZ < unat sz"
    and miss: "pc_find c fname (pc_hash fname) i (s_mru c) = Some PC_NIL" "unat i * PGSZ < 2 ^ 32"
  shows "\<exists>fr n c1 c'. pagecache_acquire rd g sz j c = Some (fr, n, c1) \<and> fr \<noteq> 0 \<and>
    fmem c1 fr = file_page F g j @ replicate (PGSZ - length (file_page F g j)) 0 \<and>
    pc_get (waiting_read rd g sz j) fname (pc_hash fname) i c = Some (p, c') \<and>
    pmm_ref_count fr (pool c') = pmm_ref_count fr (pool c1) \<and>
    fmem c' fr = file_page F fname i @ replicate (PGSZ - length (file_page F fname i)) 0"
proof -
  define fr where "fr = frame (s_pages c p)"
  have d: "pc_data F held c" using inv by (simp add: pc_inv_def)
  have ca: "cached F (fmem c) (s_pages c p)" "fr AND 0xFFF = 0" using d lru(2,3) by (auto simp: pc_data_def fr_def)
  have fr: "fr \<noteq> 0" "fr \<noteq> PMM_ALLOC_ERROR" using ca not_alloc_error by (auto simp: cached_def fr_def)
  define c1 where "c1 = (pc_touch p c)\<lparr>pool := pmm_inc_ref fr (pool c)\<rparr>"
  note t = same_pagesD[OF touch_same, of p c]
  have acq: "pagecache_acquire rd g sz j c = Some (fr, plen (s_pages c p), c1)"
    using g(3,4) inv(2) lru(2) fr(1) t by (simp add: pagecache_acquire_def pc_get_def Let_def fr_def c1_def)
  have mem: "fmem c1 = fmem c" by (simp add: c1_def t)
  define off where "off = i * PC_PGSZ"
  have uo: "unat off = unat i * PGSZ" using miss(2) by (simp add: off_def unat_word_ariths)
  have len: "length (fmem c1 a) = PGSZ" for a using d mem by (simp add: pc_data_def)
  obtain bs where bs: "snd (rd fname off fr c1) = c1\<lparr>fmem := (fmem c1)(fr := bs)\<rparr>" "length bs = PGSZ"
      "fst (rd fname off fr c1) = int (length (file_page F fname i))" "take (nat (fst (rd fname off fr c1))) bs = file_page F fname i"
    using rd(1)[unfolded reads_files_def, rule_format, OF len, of fname off fr] rd(2) uo by (auto simp: file_page_def)
  define got where "got = fst (rd fname off fr c1)"
  have w: "waiting_read rd g sz j fname off fr c = (got, c1\<lparr>fmem := (fmem c1)(fr := bs)\<rparr>)"
    using bs(1) by (simp add: waiting_read_def acq got_def prod_eq_iff)
  have pick: "pc_pick_frame p c = (fr, c)" using lru(4) fr(1) by (simp add: pc_pick_frame_def fr_def)
  define c' where "c' = pc_fill fname (pc_hash fname) i p fr got (c1\<lparr>fmem := (fmem c1)(fr := bs)\<rparr>)"
  have "0 \<le> got" by (simp add: got_def bs(3))
  then have get: "pc_get (waiting_read rd g sz j) fname (pc_hash fname) i c = Some (p, c')"
    using miss(1) lru(1,2) pick fr w by (simp add: pc_get_def off_def[symmetric] c'_def)
  have le: "length (file_page F fname i) \<le> PGSZ" by (simp add: file_page_def)
  have full: "length (file_page F fname i) = PGSZ \<Longrightarrow> bs = file_page F fname i" using bs(2-4) by (metis nat_int take_all order.refl)
  have "fmem c' fr = file_page F fname i @ replicate (PGSZ - length (file_page F fname i)) 0"
    using bs(2-4) le full by (simp add: c'_def pc_fill_def Let_def same_pagesD(8)[OF touch_same] got_def split: if_splits)
  moreover have "pool c' = pool c1" by (simp add: c'_def pc_fill_def Let_def same_pagesD(7)[OF touch_same])
  moreover have "fmem c1 fr = file_page F g j @ replicate (PGSZ - length (file_page F g j)) 0"
    using ca g mem by (simp add: cached_def fr_def)
  ultimately show ?thesis using acq fr(1) get by (intro exI[of _ fr] exI[of _ "plen (s_pages c p)"] exI[of _ c1] exI[of _ c']) simp
qed

text \<open>
  Out of frames: \<open>pmm_alloc_frame\<close> reports an empty pool as \<open>0xFFFFFFFF\<close>, but \<open>pc_get\<close> tests for 0. The first read
  when no frame is free has the device write to that address.
\<close>

lemma alloc_none: "pmm_inv s \<Longrightarrow> free_frame_count s = 0 \<Longrightarrow> fst (pmm_alloc_frame s) = PMM_ALLOC_ERROR"
  using pmm_count.avail_alloc[of s] by (metis Suc_eq_plus1 nat.distinct(1))

theorem pagecache_empty_pool_faults:
  assumes inv: "pc_inv F held c" "\<not> s_inited c" and none: "free_frame_count (pool c) = 0" and req: "off < sz" "0 < len"
  shows "pagecache_read rd fname sz off len c = None"
proof -
  define n where "n = (if len < sz - off then len else sz - off)"
  have n: "0 < n" using req by (auto simp: n_def word_gt_0)
  let ?c = "pc_init c"
  have pages: "\<not> valid (s_pages ?c i)" if "i < PC_NPAGES" for i using that by (simp add: pc_init_def)
  have "find (\<lambda>p. pc_match fname (pc_hash fname) k (s_pages ?c p)) [0..<PC_NPAGES] = None" for k
    using pages by (auto simp: find_None_iff pc_match_def)
  then have find: "pc_find ?c fname (pc_hash fname) k (s_mru ?c) = Some PC_NIL" for k
    using pc_find_list[OF init_list] by simp
  have "fst (pmm_alloc_frame (pool c)) = PMM_ALLOC_ERROR" using alloc_none[OF inv_facts(1)[OF inv(1)] none] .
  then have "fst (pc_pick_frame 255 ?c) = PMM_ALLOC_ERROR"
    by (simp add: pc_pick_frame_def pc_init_def Let_def case_prod_beta)
  then have "pc_get rd fname (pc_hash fname) k ?c = None" for k
    using find by (simp add: pc_get_def case_prod_beta Let_def) (simp add: pc_init_def)
  then have "pc_read_loop rd fname (pc_hash fname) off n 0 [] ?c = None" using n by (subst pc_read_loop.simps) (simp add: Let_def)
  then show ?thesis using req(1) inv(2) by (simp add: pagecache_read_def n_def[symmetric] Let_def not_le)
qed

text \<open>
  A relative path is a key, too. Whatever file the name stands for now, by \<open>rd'\<close>, a page cached under the name is what
  the read returns: descriptors opened by the same relative path in different directories read each
  other's files.
\<close>

theorem cached_name_wins:
  assumes inv: "pc_inv F held c" "s_inited c" and slot: "j < PC_NPAGES" "valid (s_pages c j)" "ppath (s_pages c j) = fname" "pidx (s_pages c j) = 0"
    and sz: "0 < sz" "unat sz \<le> length (F fname)" "sz \<le> PC_PGSZ" "sz \<le> len"
  shows "\<exists>c'. pagecache_read rd' fname sz 0 len c = Some (int (unat sz), take (unat sz) (F fname), c')"
proof -
  obtain xs where l: "lru_list c xs" "set xs = {..<PC_NPAGES}" and d: "pc_data F held c" using inv by (auto simp: pc_inv_def)
  have hit: "pc_match fname (pc_hash fname) 0 (s_pages c j)" using d slot by (auto simp: pc_match_def pc_data_def cached_def)
  then obtain p where p: "find (\<lambda>p. pc_match fname (pc_hash fname) 0 (s_pages c p)) xs = Some p"
    using slot(1) l(2) by (cases "find (\<lambda>p. pc_match fname (pc_hash fname) 0 (s_pages c p)) xs") (auto simp: find_None_iff)
  then have pp: "p < PC_NPAGES" "valid (s_pages c p)" "ppath (s_pages c p) = fname" "pidx (s_pages c p) = 0"
    using l(2) by (auto simp: find_Some_iff pc_match_def)
  let ?c = "pc_touch p c" and ?pg = "s_pages (pc_touch p c) p"
  have get: "pc_get rd' fname (pc_hash fname) 0 c = Some (p, ?c)"
    using pc_find_list[OF l(1), of fname "pc_hash fname" 0] p pp(1) by (simp add: pc_get_def)
  have ca: "cached F (fmem c) (s_pages c p)" using d pp by (simp add: pc_data_def)
  note s = same_pagesD[OF touch_same, of p c]
  have page: "file_page F fname 0 = take PGSZ (F fname)" by (simp add: file_page_def)
  have pl: "unat (plen ?pg) = min PGSZ (length (F fname))" "fmem ?c (frame ?pg) = take PGSZ (F fname) @ replicate (PGSZ - length (F fname)) 0"
    using ca pp s page by (auto simp: cached_def unat_of_nat)
  have szp: "unat sz \<le> unat (plen ?pg)" "unat sz \<le> PGSZ" "0 < unat sz" using sz pl by (auto simp: word_le_nat_alt word_less_nat_alt)
  then have cmp: "sz < plen ?pg \<or> plen ?pg = sz" "\<not> plen ?pg \<le> 0" by (auto simp: word_le_nat_alt word_less_nat_alt unat_eq_iff[symmetric] simp del: unat_eq_iff)
  have bytes: "take (unat sz) (fmem ?c (frame ?pg)) = take (unat sz) (F fname)" "unat sz \<le> length (fmem ?c (frame ?pg))"
    using pl szp sz(2) by (auto simp: min_def)
  have end_loop: "pc_read_loop rd' fname (pc_hash fname) 0 sz sz out c' = Some (int (unat sz), out, c')" for out c'
    by (subst pc_read_loop.simps) simp
  have "pc_read_loop rd' fname (pc_hash fname) 0 sz 0 [] c = Some (int (unat sz), take (unat sz) (F fname), ?c)"
    using cmp(1)
  proof
    assume "sz < plen ?pg"
    then show ?thesis using sz(1,2) get pp(1) cmp(2) bytes end_loop by (subst pc_read_loop.simps) (simp add: Let_def)
  next
    assume "plen ?pg = sz"
    then show ?thesis using sz(1,2) get pp(1) cmp(2) bytes end_loop by (subst pc_read_loop.simps) (simp add: Let_def)
  qed
  then show ?thesis using inv(2) sz by (auto simp: pagecache_read_def Let_def)
qed

end
