(* ===== verification/Spec2Isabelle.thy ===== *)
theory Spec2Isabelle
  imports Pmm_Properties Kheap_Properties Libc_Properties Vmm_Run Inflate_Properties Partition_Properties Tmpfs_Properties
    Ipc_Properties Task_Properties Glob_Properties Shadow_Properties Vfs_Properties Fd_Properties Pagecache_Properties
begin

text \<open>
  A verification library for the Makar kernel (\<^verbatim>\<open>src/src/kernel\<close>, with its C library
  \<^verbatim>\<open>src/src/libc\<close>). Paths below are relative to \<^verbatim>\<open>src/src/kernel/arch/i386\<close> unless they say otherwise.

  \<^bold>\<open>The program.\<close> Makar is a 32-bit kernel. Physical memory is a pool of 4 KiB frames kept by a buddy allocator;
  on top of it stand the page directories of user tasks, with demand paging and copy-on-write
  fork, and a page cache for file data. Kernel objects live in a first-fit heap. Tasks run round robin; they
  exchange messages by rendezvous, receive signals, and reach files through descriptor
  tables, a VFS with a mount table, and drivers. Partition tables, a decompressor, a password file and a
  shell with wildcard expansion complete the parts that are modelled here.

  \<^bold>\<open>How the code is modelled.\<close> Each component is a group of definitions in one theory, in the order of the source and with its
  names. Structures are records, enumerations datatypes, \<^verbatim>\<open>uint32_t\<close> and the like are words, so that
  arithmetic wraps as in C; strings without their terminating NUL are lists of characters. Static
  variables are fields of a state record that operations take and return. Linked structures stay
  linked: free lists, the heap's block list, the queues of senders, the ring of tasks and the recency list
  of the page cache are links in records, and the theorems say which sequence they are. Loops
  are recursive functions with a termination proof; where the code itself has no bound the
  function is a partial function into an option, and \<open>None\<close> stands for a loop that does not end or for an access outside
  an object. The theorems then prove that the value is not \<open>None\<close>. No fuel is
  invented: a counter in a recursion is a counter of the source (the scheduler's round over the
  task pool, the passes over a fixed table). Code that
  runs with interrupts off is one step; a call that waits is cut where it gives the processor
  away, and its continuation is an operation of its own. What devices and other parts not modelled return is an
  argument of the operation that calls them.

  \<^bold>\<open>Theories.\<close>
  \<^item> \<open>Makar_Prelude\<close>: integer types, alignment of words, little-endian loads, doubly linked segments (shared by
    the buddy lists and the page cache), collections of rewrite rules.
  \<^item> \<open>Pmm\<close>, \<open>Pmm_Lists\<close>, \<open>Pmm_Blocks\<close>, \<open>Pmm_Inv\<close>, \<open>Pmm_Ops\<close>, \<open>Pmm_Init\<close>, \<open>Pmm_Spec\<close>, \<open>Pmm_Count\<close>, \<open>Pmm_Properties\<close>:
    the buddy allocator, \<^verbatim>\<open>mm/pmm.c\<close>. The record \<open>pmm\<close> is \<open>mem_map\<close> and the free-list heads. The invariant says that free and
    used blocks are aligned, disjoint and coalesced and that the lists are the free blocks. The
    locale \<open>frame_pool\<close> is what clients rely on (reference-counted frames), \<open>counted_pool\<close> extends it by the number
    of free frames; both are interpreted on the allocator.
  \<^item> \<open>Kheap\<close>, \<open>Kheap_Inv\<close>, \<open>Kheap_Spec\<close>, \<open>Kheap_Properties\<close>: the kernel heap, \<^verbatim>\<open>mm/heap.c\<close>, with the locale
    \<open>region_allocator\<close> for its clients, interpreted on \<open>kmalloc\<close>, \<open>kfree\<close> and \<open>krealloc\<close>.
  \<^item> \<open>Libc_String\<close>, \<open>Libc_Facts\<close>, \<open>Libc_Properties\<close>: every routine of \<^verbatim>\<open>src/src/libc/string\<close> on a byte memory.
  \<^item> \<open>Vmm\<close>, \<open>Vmm_Inv\<close>, \<open>Vmm_Ops\<close>, \<open>Vmm_Fork\<close>, \<open>Vmm_Mapped\<close>, \<open>Vmm_Share\<close>, \<open>Vmm_Properties\<close>, \<open>Vmm_Run\<close>: page directories and tables in physical memory,
    \<^verbatim>\<open>mm/vmm.c\<close>, the boot mappings of \<^verbatim>\<open>mm/paging.c\<close> and the page-fault handlers of \<^verbatim>\<open>debug/debug.c\<close>. The
    invariant counts every use of a frame by a table entry and equates it with the reference count; \<open>Vmm_Run\<close> follows arbitrary
    sequences of operations and shows that a page one directory can write is seen by no other.
  \<^item> \<open>Pagecache\<close>, \<open>Pagecache_Lists\<close>, \<open>Pagecache_Inv\<close>, \<open>Pagecache_Ops\<close>, \<open>Pagecache_Properties\<close>: \<^verbatim>\<open>mm/pagecache.c\<close> as a
    client of the frame pool: a read through it is a read of the file, as long as calls do not overlap. \<open>vfs_read_at\<close> may yield in the
    middle of a call; what happens then is an argument of the model, and a theorem shows what goes wrong when another task uses the cache meanwhile.
  \<^item> \<open>Task\<close>, \<open>Task_Facts\<close>, \<open>Signal_Facts\<close>, \<open>Task_Properties\<close>: the scheduler of \<^verbatim>\<open>proc/task.c\<close> and the signals of
    \<^verbatim>\<open>proc/signal.c\<close> with the system calls that use them.
  \<^item> \<open>Ipc\<close>, \<open>Ipc_Facts\<close>, \<open>Ipc_Run\<close>, \<open>Ipc_Properties\<close>: message passing, \<^verbatim>\<open>proc/ipc.c\<close>; \<open>Ipc_Run\<close> is the step relation in
    which sends, receives, scheduling, signals and exits interleave.
  \<^item> \<open>Fd\<close>, \<open>Pipe_Facts\<close>, \<open>Fd_Facts\<close>, \<open>Fd_Io\<close>, \<open>Fd_Properties\<close>: descriptor tables, pipes and buffered files, \<^verbatim>\<open>proc/fd.c\<close> and
    the calls of \<^verbatim>\<open>proc/syscall.c\<close> on descriptors.
  \<^item> \<open>Vfs\<close>, \<open>Vfs_Paths\<close>, \<open>Vfs_Mounts\<close>, \<open>Vfs_Inv\<close>, \<open>Vfs_Held\<close>, \<open>Vfs_Boot\<close>, \<open>Vfs_Properties\<close>: \<^verbatim>\<open>fs/vfs.c\<close>: path normalisation, routing, the mount
    table, the choice of the root, shutdown, dispatch, the file-system lock.
  \<^item> \<open>Tmpfs\<close>, \<open>Tmpfs_Properties\<close>: \<^verbatim>\<open>fs/tmpfs.c\<close> as a map from names to contents, and the log rings of \<^verbatim>\<open>fs/logfs.c\<close>.
  \<^item> \<open>Partition\<close>, \<open>Partition_Properties\<close>: \<^verbatim>\<open>drivers/partition.c\<close>: MBR and GPT, written and probed.
  \<^item> \<open>Inflate\<close>, \<open>Inflate_Facts\<close>, \<open>Inflate_Properties\<close>: \<^verbatim>\<open>fs/inflate.c\<close>.
  \<^item> \<open>Glob\<close>, \<open>Glob_Properties\<close>: \<^verbatim>\<open>shell/shell_glob.c\<close>.
  \<^item> \<open>Shadow\<close>, \<open>Shadow_Properties\<close>: \<^verbatim>\<open>auth/microhash.c\<close> and \<^verbatim>\<open>auth/shadow.c\<close>.

  \<^bold>\<open>What the theorems show.\<close> Memory: allocators hand out aligned, disjoint, fresh blocks, succeed exactly when memory is there,
  and undo themselves; reference counts of frames equal their uses through mapping, copy-on-write
  clone, page faults and the page cache, so that no mapped or pinned frame is reused; writable pages are private to one directory. Order: message queues are first-in
  first-out, a queued sender is served after at most as many receptions as its position, a ready task runs after at most as many
  switches as its place; pipes are queues of bytes. Files: the mount table and the drivers agree after any sequence
  of operations but for one kind of unmount that leaks a volume; routing takes the longest mountpoint; buffered and cached files read what was written.
  Robustness: the decompressor ends on every input inside its buffers. Round trips: partition
  tables, stored blocks, passwords, signal frames. Each theorem with hypotheses has a closed
  instance beside it. Theorems that show a defect of the code (a wrap-around, an overrun, a leak) stand with the component
  they belong to.

  \<^bold>\<open>Not modelled.\<close> Hardware access (ports, control registers, frame buffers, network cards, the IDE
  transfers, whose results are arguments); the assembly of context switches and of the entry to ring 3;
  output, menus and dialogues (shell commands, login, installer, panic screens); the drivers of FAT32, ext2 and ISO 9660, whose
  answers to the VFS are arguments; the parts of \<^verbatim>\<open>proc/syscall.c\<close> that only forward to these;
  the network stack glue; user programs; vendored code. Interrupts that arrive inside an operation are modelled
  by the points at which operations are cut, so a race inside code that the source runs with interrupts on is
  outside the model.
\<close>

end
